(* ===== verification/Prelude.thy ===== *)
theory Prelude
  imports "HOL-Library.Word" "HOL-Library.Multiset" "HOL-Library.Monad_Syntax"
    "HOL-Library.Signed_Division"
begin

text \<open>
  Shared vocabulary of the development: the machine types of the C sources, the checked
  memory accesses through which every byte buffer is read and written, and the lemma
  collections the component theories draw on.

  A buffer is a list of bytes. An access outside the buffer is undefined behaviour in C;
  the model makes it the value \<open>None\<close>, so that a result \<open>Some _\<close> of a modelled function
  also says that the function stayed inside its buffers. A failed \<open>assert\<close> is \<open>None\<close> too.
\<close>

unbundle bit_operations_syntax

section \<open>Machine types\<close>

type_synonym byte = "8 word"
type_synonym u16 = "16 word"
type_synonym u32 = "32 word"
type_synonym u64 = "64 word"

text \<open>A \<open>void*\<close> is an opaque 64-bit value; containers store and compare it, and the null pointer
  is 0. A component that dereferences pointers has its own heap.\<close>

type_synonym ptr = "64 word"

abbreviation NULL :: ptr where
  "NULL \<equiv> 0"

abbreviation INT64_MIN :: int where
  "INT64_MIN \<equiv> - 9223372036854775808"

abbreviation INT64_MAX :: int where
  "INT64_MAX \<equiv> 9223372036854775807"

definition in_int64 :: "int \<Rightarrow> bool" where
  "in_int64 v \<longleftrightarrow> INT64_MIN \<le> v \<and> v \<le> INT64_MAX"

text \<open>The result of an addition, subtraction or multiplication in \<open>int\<close>, which is 32 bits wide: an overflow is undefined.\<close>

definition checked32 :: "int \<Rightarrow> int option" where
  "checked32 v = (if - (2 ^ 31) \<le> v \<and> v < 2 ^ 31 then Some v else None)"

lemma checked32_Some: "- (2 ^ 31) \<le> v \<Longrightarrow> v < 2 ^ 31 \<Longrightarrow> checked32 v = Some v"
  by (simp add: checked32_def)

text \<open>The sign of a C comparison result: the code only ever tests it against 0.\<close>

definition c_bool :: "bool \<Rightarrow> int" where
  "c_bool b = (if b then 1 else 0)"

section \<open>Lemma collections\<close>

named_theorems mem_simps \<open>rewriting of the checked buffer accesses\<close>
named_theorems byte_simps \<open>recombining a word from its bytes\<close>
named_theorems c_defs \<open>definitions of the small C idioms, unfolded by the component proofs\<close>

section \<open>Checked accesses to byte buffers\<close>

definition get_at :: "'a list \<Rightarrow> nat \<Rightarrow> 'a option" where
  "get_at buf i = (if i < length buf then Some (buf ! i) else None)"

definition put_at :: "'a list \<Rightarrow> nat \<Rightarrow> 'a \<Rightarrow> 'a list option" where
  "put_at buf i b = (if i < length buf then Some (buf[i := b]) else None)"

definition mem_read :: "'a list \<Rightarrow> nat \<Rightarrow> nat \<Rightarrow> 'a list option" where
  "mem_read buf off n = (if off + n \<le> length buf then Some (take n (drop off buf)) else None)"

definition mem_write :: "'a list \<Rightarrow> nat \<Rightarrow> 'a list \<Rightarrow> 'a list option" where
  "mem_write buf off bs =
     (if off + length bs \<le> length buf
      then Some (take off buf @ bs @ drop (off + length bs) buf) else None)"

text \<open>\<open>memmove\<close> reads the source completely before it writes, as C guarantees for overlaps.\<close>

definition mem_move :: "'a list \<Rightarrow> nat \<Rightarrow> nat \<Rightarrow> nat \<Rightarrow> 'a list option" where
  "mem_move buf dst src n = mem_read buf src n \<bind> mem_write buf dst"

text \<open>\<open>zrealloc\<close> to \<open>n\<close> bytes keeps the common prefix; the bytes it adds are indeterminate and
  come from the parameter \<open>junk\<close>, over which every result is quantified. Allocation itself
  does not fail: the allocator of the project aborts the process when memory runs out.\<close>

definition realloc :: "(nat \<Rightarrow> 'a) \<Rightarrow> 'a list \<Rightarrow> nat \<Rightarrow> 'a list" where
  "realloc junk buf n = take n buf @ map junk [length buf..<n]"

lemma length_realloc [simp]: "length (realloc junk buf n) = n"
  by (simp add: realloc_def)

lemma realloc_shrink: "n \<le> length buf \<Longrightarrow> realloc junk buf n = take n buf"
  by (simp add: realloc_def)

lemma take_realloc: "m \<le> n \<Longrightarrow> m \<le> length buf \<Longrightarrow> take m (realloc junk buf n) = take m buf"
  by (simp add: realloc_def min_def)

lemma nth_realloc: "i < n \<Longrightarrow> i < length buf \<Longrightarrow> realloc junk buf n ! i = buf ! i"
  by (simp add: realloc_def nth_append)

lemma get_at_Some [mem_simps]: "i < length buf \<Longrightarrow> get_at buf i = Some (buf ! i)"
  by (simp add: get_at_def)

lemma get_at_eq_Some_iff: "get_at buf i = Some b \<longleftrightarrow> i < length buf \<and> buf ! i = b"
  by (auto simp: get_at_def)

lemma get_at_None [mem_simps]: "length buf \<le> i \<Longrightarrow> get_at buf i = None"
  by (simp add: get_at_def)

lemma put_at_Some [mem_simps]: "i < length buf \<Longrightarrow> put_at buf i b = Some (buf[i := b])"
  by (simp add: put_at_def)

lemma put_at_None [mem_simps]: "length buf \<le> i \<Longrightarrow> put_at buf i b = None"
  by (simp add: put_at_def)

lemma put_at_length: "put_at buf i b = Some buf' \<Longrightarrow> length buf' = length buf"
  by (auto simp: put_at_def split: if_splits)

lemma mem_read_Some [mem_simps]:
  "off + n \<le> length buf \<Longrightarrow> mem_read buf off n = Some (take n (drop off buf))"
  by (simp add: mem_read_def)

lemma mem_write_Some [mem_simps]:
  "off + length bs \<le> length buf \<Longrightarrow>
   mem_write buf off bs = Some (take off buf @ bs @ drop (off + length bs) buf)"
  by (simp add: mem_write_def)

lemma mem_write_length: "mem_write buf off bs = Some buf' \<Longrightarrow> length buf' = length buf"
  by (auto simp: mem_write_def split: if_splits)

lemma mem_move_Some [mem_simps]:
  "src + n \<le> length buf \<Longrightarrow> dst + n \<le> length buf \<Longrightarrow>
   mem_move buf dst src n =
     Some (take dst buf @ take n (drop src buf) @ drop (dst + n) buf)"
  by (simp add: mem_move_def mem_read_def mem_write_def)

lemma mem_move_length: "mem_move buf dst src n = Some buf' \<Longrightarrow> length buf' = length buf"
  by (auto simp: mem_move_def dest: mem_write_length split: bind_splits)

section \<open>Lists\<close>

lemma list_update_take_drop:
  "i < length xs \<Longrightarrow> xs[i := x] = take i xs @ x # drop (Suc i) xs"
  by (rule upd_conv_take_nth_drop)

lemma two_updates:
  "Suc i < length xs \<Longrightarrow> xs[Suc i := b, i := a] = take i xs @ [a, b] @ drop (i + 2) xs"
proof (induction i arbitrary: xs)
  case 0
  then obtain x y ys where "xs = x # y # ys" by (cases xs; cases "tl xs") auto
  then show ?case by simp
next
  case (Suc i)
  then obtain x ys where "xs = x # ys" by (cases xs) auto
  with Suc show ?case by simp
qed

lemma update_append_drop:
  "n < length s \<Longrightarrow> length xs = n \<Longrightarrow> (xs @ drop n s)[n := b] = xs @ b # drop (Suc n) s"
  by (metis Cons_nth_drop_Suc list_update_length)

lemma bind_eq_Some_iff: "(m \<bind> f) = Some y \<longleftrightarrow> (\<exists>x. m = Some x \<and> f x = Some y)"
  by (cases m) auto

section \<open>Words as numbers\<close>

lemma unat_ucast_up:
  fixes w :: "'a::len word"
  assumes "LENGTH('a) \<le> LENGTH('b::len)"
  shows "unat (ucast w :: 'b word) = unat w"
proof -
  have "unat w < 2 ^ LENGTH('a)" by simp
  also have "\<dots> \<le> 2 ^ LENGTH('b)" using assms by simp
  finally show ?thesis by (simp add: unsigned_ucast_eq take_bit_nat_eq_self)
qed

lemma unat_of_nat_id: "n < 2 ^ LENGTH('a) \<Longrightarrow> unat (of_nat n :: 'a::len word) = n"
  by (simp add: unsigned_of_nat take_bit_nat_eq_self)

lemma unat_of_int_id:
  "0 \<le> i \<Longrightarrow> i < 2 ^ LENGTH('a) \<Longrightarrow> unat (word_of_int i :: 'a::len word) = nat i"
  by (simp add: unsigned_of_int take_bit_int_eq_self)

lemma unat_less_8: "unat (v :: byte) < 256"
  using unsigned_less [of v, where ?'a = nat] by simp

lemma unat_less_16: "unat (v :: u16) < 65536"
  using unsigned_less [of v, where ?'a = nat] by simp

lemma unat_less_32: "unat (v :: u32) < 4294967296"
  using unsigned_less [of v, where ?'a = nat] by simp

lemma unat_less_64: "unat (v :: u64) < 18446744073709551616"
  using unsigned_less [of v, where ?'a = nat] by simp

lemmas unat_bounds = unat_less_8 unat_less_16 unat_less_32 unat_less_64

lemma unat_max_64: "unat (-1 :: u64) = 18446744073709551615"
  by (simp add: unsigned_minus_1_eq_mask mask_eq_exp_minus_1)

lemma sint_u64:
  "sint (v :: u64) = (if unat v < 9223372036854775808 then int (unat v)
     else int (unat v) - 18446744073709551616)"
proof -
  define n where "n = int (unat v)"
  have n: "uint v = n" "0 \<le> n" "n < 18446744073709551616"
    using uint_bounded [of v] by (simp_all add: n_def)
  have s: "sint v = (n + 9223372036854775808) mod 18446744073709551616 - 9223372036854775808"
    by (simp add: sint_uint signed_take_bit_eq_take_bit_shift take_bit_eq_mod n)
  have iff: "unat v < 9223372036854775808 \<longleftrightarrow> n < 9223372036854775808"
    unfolding n_def by linarith
  show ?thesis
  proof (cases "n < 9223372036854775808")
    case True
    with n have "(n + 9223372036854775808) mod 18446744073709551616 = n + 9223372036854775808"
      by (intro mod_pos_pos_trivial) simp_all
    with s True iff show ?thesis by (simp add: n_def)
  next
    case False
    have "(n + 9223372036854775808) mod 18446744073709551616
      = (n - 9223372036854775808) mod 18446744073709551616"
      using minus_mod_self2 [of "n + 9223372036854775808" 18446744073709551616] by simp
    also have "\<dots> = n - 9223372036854775808"
      using n False by (intro mod_pos_pos_trivial) simp_all
    finally show ?thesis using s False iff by (simp add: n_def)
  qed
qed

lemma sint_of_int64: "in_int64 i \<Longrightarrow> sint (word_of_int i :: u64) = i"
  by (simp add: signed_of_int signed_take_bit_int_eq_self in_int64_def)

section \<open>Words from bytes\<close>

lemma bit_byte_field:
  fixes v :: "'a::len word"
  shows "bit (push_bit k (ucast (ucast (drop_bit k v) :: byte)) :: 'a word) n
     \<longleftrightarrow> k \<le> n \<and> n < k + 8 \<and> bit v n"
  by (auto simp: bit_simps dest: bit_imp_le_length)

lemma bit_byte_field_0:
  fixes v :: "'a::len word"
  shows "bit (ucast (ucast v :: byte) :: 'a word) n \<longleftrightarrow> n < 8 \<and> bit v n"
  by (auto simp: bit_simps dest: bit_imp_le_length)

lemma word16_of_bytes [byte_simps]:
  fixes v :: u16
  shows "(ucast (ucast v :: byte) :: u16)
     OR push_bit 8 (ucast (ucast (drop_bit 8 v) :: byte)) = v"
  by (rule bit_word_eqI) (auto simp add: bit_or_iff bit_byte_field bit_byte_field_0 
      simp del: bit_push_bit_iff bit_unsigned_iff)

lemma word32_of_bytes [byte_simps]:
  fixes v :: u32
  shows "(ucast (ucast v :: byte) :: u32)
     OR push_bit 8 (ucast (ucast (drop_bit 8 v) :: byte))
     OR push_bit 16 (ucast (ucast (drop_bit 16 v) :: byte))
     OR push_bit 24 (ucast (ucast (drop_bit 24 v) :: byte)) = v"
proof (rule bit_word_eqI)
  fix n assume "n < LENGTH(32)"
  then have "n < 8 \<or> (8 \<le> n \<and> n < 8 + 8) \<or> (16 \<le> n \<and> n < 16 + 8) \<or> (24 \<le> n \<and> n < 24 + 8)"
    by simp linarith
  then show "bit ((ucast (ucast v :: byte) :: u32)
     OR push_bit 8 (ucast (ucast (drop_bit 8 v) :: byte))
     OR push_bit 16 (ucast (ucast (drop_bit 16 v) :: byte))
     OR push_bit 24 (ucast (ucast (drop_bit 24 v) :: byte))) n = bit v n"
    unfolding bit_or_iff bit_byte_field bit_byte_field_0 by blast
qed

lemma word64_of_bytes [byte_simps]:
  fixes v :: u64
  shows "(ucast (ucast v :: byte) :: u64)
     OR push_bit 8 (ucast (ucast (drop_bit 8 v) :: byte))
     OR push_bit 16 (ucast (ucast (drop_bit 16 v) :: byte))
     OR push_bit 24 (ucast (ucast (drop_bit 24 v) :: byte))
     OR push_bit 32 (ucast (ucast (drop_bit 32 v) :: byte))
     OR push_bit 40 (ucast (ucast (drop_bit 40 v) :: byte))
     OR push_bit 48 (ucast (ucast (drop_bit 48 v) :: byte))
     OR push_bit 56 (ucast (ucast (drop_bit 56 v) :: byte)) = v"
proof (rule bit_word_eqI)
  fix n assume "n < LENGTH(64)"
  then have "n < 8 \<or> (8 \<le> n \<and> n < 8 + 8) \<or> (16 \<le> n \<and> n < 16 + 8) \<or> (24 \<le> n \<and> n < 24 + 8)
    \<or> (32 \<le> n \<and> n < 32 + 8) \<or> (40 \<le> n \<and> n < 40 + 8) \<or> (48 \<le> n \<and> n < 48 + 8)
    \<or> (56 \<le> n \<and> n < 56 + 8)"
    by simp linarith
  then show "bit ((ucast (ucast v :: byte) :: u64)
     OR push_bit 8 (ucast (ucast (drop_bit 8 v) :: byte))
     OR push_bit 16 (ucast (ucast (drop_bit 16 v) :: byte))
     OR push_bit 24 (ucast (ucast (drop_bit 24 v) :: byte))
     OR push_bit 32 (ucast (ucast (drop_bit 32 v) :: byte))
     OR push_bit 40 (ucast (ucast (drop_bit 40 v) :: byte))
     OR push_bit 48 (ucast (ucast (drop_bit 48 v) :: byte))
     OR push_bit 56 (ucast (ucast (drop_bit 56 v) :: byte))) n = bit v n"
    unfolding bit_or_iff bit_byte_field bit_byte_field_0 by blast
qed

lemma unat_drop: "unat (drop_bit k w) = unat w div 2 ^ k"
  using unat_drop_bit_eq [of k w] drop_bit_eq_div [of k "unat w"] by simp

lemma or_high:
  fixes b t :: byte
  assumes b: "unat b < 2 ^ k" and t: "take_bit k t = 0" "unat b + unat t < 256"
  shows "(b OR t) AND mask k = b" "unat (b OR t) = unat b + unat t"
proof -
  have tb: "take_bit k b = b" using b by (simp add: word_unat_eq_iff unsigned_take_bit_eq take_bit_nat_eq_self)
  then show "(b OR t) AND mask k = b" using t by (simp add: take_bit_or flip: take_bit_eq_mask)
  have "\<not> bit b n \<or> \<not> bit t n" for n using tb t(1) by (metis bit_take_bit_iff bit_0_eq bot_apply bot_bool_def)
  then have "b + t = b OR t" by (rule disjunctive_add)
  then have "unat (b OR t) = (unat b + unat t) mod 256" by (simp add: unat_word_ariths flip: \<open>b + t = b OR t\<close>)
  then show "unat (b OR t) = unat b + unat t" using t(2) by simp
qed

lemma take_bit_id: "unat w < 2 ^ k \<Longrightarrow> take_bit k w = w"
  by (simp add: word_unat_eq_iff unsigned_take_bit_eq take_bit_nat_eq_self)

end
