(* ===== verification/Numconv.thy ===== *)
theory Numconv
  imports Prelude
begin

text \<open>
  Integer \<open>\<leftrightarrow>\<close> decimal string conversions of \<open>src/utils/utils.c\<close> and \<open>src/sds/sds.c\<close>.
  A C string with its length is the list of its bytes; an output buffer is a byte list
  whose accesses are checked. The reference is \<open>dec\<close>, the canonical decimal notation.
  The main results: \<open>string2ll\<close> accepts exactly the canonical notations of the values of a
  \<open>long long\<close>, \<open>ll2string\<close> writes the canonical notation and nothing else, so the two are
  inverse; \<open>digits10\<close> is the length of the notation; \<open>ull2string\<close> writes one byte past a
  buffer that has exactly the size it was told.
\<close>

section \<open>Reference: canonical decimal notation\<close>

abbreviation ch_0 :: byte where "ch_0 \<equiv> 48"
abbreviation ch_1 :: byte where "ch_1 \<equiv> 49"
abbreviation ch_9 :: byte where "ch_9 \<equiv> 57"
abbreviation ch_minus :: byte where "ch_minus \<equiv> 45"

fun dec :: "nat \<Rightarrow> byte list" where
  "dec n = (if n < 10 then [48 + of_nat n] else dec (n div 10) @ [48 + of_nat (n mod 10)])"

declare dec.simps [simp del]

definition dec_int :: "int \<Rightarrow> byte list" where
  "dec_int i = (if i < 0 then ch_minus # dec (nat (- i)) else dec (nat i))"

section \<open>Model\<close>

subsection \<open>string2ll\<close>

text \<open>The digit loop: \<open>None\<close> is the \<open>return 0\<close> of an overflow check; otherwise the
  accumulated value and the bytes that are left when the loop stops.\<close>

fun string2ll_digits :: "u64 \<Rightarrow> byte list \<Rightarrow> (u64 \<times> byte list) option" where
  "string2ll_digits v [] = Some (v, [])"
| "string2ll_digits v (c # p) =
     (if ch_0 \<le> c \<and> c \<le> ch_9 then
        if v > (-1) div 10 then None
        else let v10 = v * 10 in
          if v10 > (-1) - ucast (c - ch_0) then None
          else string2ll_digits (v10 + ucast (c - ch_0)) p
      else Some (v, c # p))"

definition string2ll :: "byte list \<Rightarrow> int option" where
  "string2ll s =
     (if s = [] then None
      else if length s = 1 \<and> s ! 0 = ch_0 then Some 0
      else let negative = (s ! 0 = ch_minus); p = (if negative then tl s else s) in
        if p = [] then None
        else if \<not> (ch_1 \<le> p ! 0 \<and> p ! 0 \<le> ch_9) then None
        else case string2ll_digits (ucast (p ! 0 - ch_0)) (tl p) of
            None \<Rightarrow> None
          | Some (v, rest) \<Rightarrow>
              if rest \<noteq> [] then None
              else if negative then (if v > 9223372036854775808 then None else Some (sint (- v)))
              else if v > 9223372036854775807 then None else Some (sint v))"

subsection \<open>digits10, sdigits10\<close>

function digits10 :: "u64 \<Rightarrow> u32" where
  "digits10 v =
     (if v < 10 then 1
      else if v < 100 then 2
      else if v < 1000 then 3
      else if v < 1000000000000 then
        (if v < 100000000 then
           (if v < 1000000 then
              (if v < 10000 then 4 else 5 + (if v \<ge> 100000 then 1 else 0))
            else 7 + (if v \<ge> 10000000 then 1 else 0))
         else if v < 10000000000 then 9 + (if v \<ge> 1000000000 then 1 else 0)
         else 11 + (if v \<ge> 100000000000 then 1 else 0))
      else 12 + digits10 (v div 1000000000000))"
  by pat_completeness auto
termination
  by (relation "measure unat") (auto simp: unat_div word_less_nat_alt word_le_nat_alt)

declare digits10.simps [simp del]

text \<open>The magnitude of a \<open>long long\<close> as computed by \<open>sdigits10\<close> and \<open>ll2string\<close>: the
  two's complement minimum is handled separately because its negation overflows.\<close>

definition ll_magnitude :: "int \<Rightarrow> u64" where
  "ll_magnitude v =
     (if v < 0 then (if v \<noteq> INT64_MIN then word_of_int (- v) else 9223372036854775807 + 1)
      else word_of_int v)"

definition sdigits10 :: "int \<Rightarrow> u32" where
  "sdigits10 v = (if v < 0 then digits10 (ll_magnitude v) + 1 else digits10 (word_of_int v))"

subsection \<open>ll2string\<close>

definition digits_table :: "byte list" where
  "digits_table = map of_char
     (''0001020304050607080910111213141516171819'' @
      ''2021222324252627282930313233343536373839'' @
      ''4041424344454647484950515253545556575859'' @
      ''6061626364656667686970717273747576777879'' @
      ''8081828384858687888990919293949596979899'')"

function ll2string_loop :: "byte list \<Rightarrow> u32 \<Rightarrow> u64 \<Rightarrow> (byte list \<times> u32 \<times> u64) option" where
  "ll2string_loop dst nx value =
     (if value \<ge> 100 then
        let i = unat (value mod 100) * 2; value' = value div 100 in
        do {
          d1 \<leftarrow> get_at digits_table (i + 1);
          dst \<leftarrow> put_at dst (unat nx) d1;
          d0 \<leftarrow> get_at digits_table i;
          dst \<leftarrow> put_at dst (unat (nx - 1)) d0;
          ll2string_loop dst (nx - 2) value'
        }
      else Some (dst, nx, value))"
  by pat_completeness auto
termination
  by (relation "measure (\<lambda>(dst, nx, value). unat value)")
     (auto simp: unat_div word_le_nat_alt)

declare ll2string_loop.simps [simp del]

definition ll2string_last :: "byte list \<Rightarrow> u32 \<Rightarrow> u64 \<Rightarrow> byte list option" where
  "ll2string_last dst nx value =
     (if value < 10 then put_at dst (unat nx) (ch_0 + ucast value)
      else let i = unat value * 2 in
        do {
          d1 \<leftarrow> get_at digits_table (i + 1);
          dst \<leftarrow> put_at dst (unat nx) d1;
          d0 \<leftarrow> get_at digits_table i;
          put_at dst (unat (nx - 1)) d0
        })"

definition ll2string :: "byte list \<Rightarrow> nat \<Rightarrow> int \<Rightarrow> (nat \<times> byte list) option" where
  "ll2string dst dstlen svalue =
     (let negative = (svalue < 0);
          value = ll_magnitude svalue;
          len = digits10 value + (if negative then 1 else 0) in
      if unat len \<ge> dstlen then Some (0, dst)
      else do {
        dst \<leftarrow> put_at dst (unat len) 0;
        (dst, nx, value) \<leftarrow> ll2string_loop dst (len - 1) value;
        dst \<leftarrow> ll2string_last dst nx value;
        dst \<leftarrow> (if negative then put_at dst 0 ch_minus else Some dst);
        Some (unat len, dst)
      })"

subsection \<open>ull2string and its siblings in sds.c\<close>

text \<open>The digit loop writes the least significant digit first.\<close>

function ull_digits_loop :: "byte list \<Rightarrow> nat \<Rightarrow> u64 \<Rightarrow> (byte list \<times> nat) option" where
  "ull_digits_loop s p v =
     do {
       s \<leftarrow> put_at s p (ch_0 + ucast (v mod 10));
       let v' = v div 10;
       if v' \<noteq> 0 then ull_digits_loop s (p + 1) v' else Some (s, p + 1)
     }"
  by pat_completeness auto
termination
proof (relation "measure (\<lambda>(s, p, v). unat v)", goal_cases)
  case 1
  show ?case by simp
next
  case (2 s p v s' v')
  then have "v \<noteq> 0" by auto
  then have "unat v > 0" by (simp add: unat_gt_0)
  then show ?case using 2 by (simp add: unat_div)
qed

declare ull_digits_loop.simps [simp del]

text \<open>Reversal in place of the bytes between two positions, as the closing loop does.\<close>

function reverse_loop :: "byte list \<Rightarrow> nat \<Rightarrow> nat \<Rightarrow> byte list option" where
  "reverse_loop s i j =
     (if i < j then
        do {
          a \<leftarrow> get_at s i;
          b \<leftarrow> get_at s j;
          s \<leftarrow> put_at s i b;
          s \<leftarrow> put_at s j a;
          reverse_loop s (i + 1) (j - 1)
        }
      else Some s)"
  by pat_completeness auto
termination
  by (relation "measure (\<lambda>(s, i, j). j - i)") auto

declare reverse_loop.simps [simp del]

definition ull2string :: "byte list \<Rightarrow> nat \<Rightarrow> u64 \<Rightarrow> (nat \<times> byte list) option" where
  "ull2string s len v =
     do {
       (s, l) \<leftarrow> ull_digits_loop s 0 v;
       if len < l then Some (0, s)
       else do {
         s \<leftarrow> put_at s l 0;
         s \<leftarrow> reverse_loop s 0 (l - 1);
         Some (l, s)
       }
     }"

definition sdsull2str :: "byte list \<Rightarrow> u64 \<Rightarrow> (nat \<times> byte list) option" where
  "sdsull2str s v =
     do {
       (s, l) \<leftarrow> ull_digits_loop s 0 v;
       s \<leftarrow> put_at s l 0;
       s \<leftarrow> reverse_loop s 0 (l - 1);
       Some (l, s)
     }"

text \<open>\<open>v = (value < 0) ? -value : value\<close>: the negation of the minimum is a signed
  overflow, undefined in C, hence \<open>None\<close>.\<close>

definition sdsll2str :: "byte list \<Rightarrow> int \<Rightarrow> (nat \<times> byte list) option" where
  "sdsll2str s value =
     (if value = INT64_MIN then None
      else do {
        (s, p) \<leftarrow> ull_digits_loop s 0 (word_of_int (if value < 0 then - value else value));
        (s, l) \<leftarrow> (if value < 0 then do { s \<leftarrow> put_at s p ch_minus; Some (s, p + 1) } else Some (s, p));
        s \<leftarrow> put_at s l 0;
        s \<leftarrow> reverse_loop s 0 (l - 1);
        Some (l, s)
      })"

section \<open>Decimal notation\<close>

definition is_digit :: "byte \<Rightarrow> bool" where
  "is_digit c \<longleftrightarrow> ch_0 \<le> c \<and> c \<le> ch_9"

definition digit_val :: "byte \<Rightarrow> nat" where
  "digit_val c = unat c - 48"

definition dec_val :: "nat \<Rightarrow> byte list \<Rightarrow> nat" where
  "dec_val = foldl (\<lambda>a c. 10 * a + digit_val c)"

lemma dec_val_simps [simp]:
  "dec_val a [] = a"
  "dec_val a (c # p) = dec_val (10 * a + digit_val c) p"
  "dec_val a (p @ [c]) = 10 * dec_val a p + digit_val c"
  by (simp_all add: dec_val_def)

lemma is_digit_nat: "is_digit c \<longleftrightarrow> 48 \<le> unat c \<and> unat c \<le> 57"
  by (simp add: is_digit_def word_le_nat_alt)

lemma unat_digit: "d < 10 \<Longrightarrow> unat (48 + of_nat d :: byte) = 48 + d"
  by (simp add: unat_word_ariths unat_of_nat)

lemma digit_val_digit [simp]: "d < 10 \<Longrightarrow> digit_val (48 + of_nat d) = d"
  by (simp add: digit_val_def unat_digit)

lemma is_digit_digit [simp]: "d < 10 \<Longrightarrow> is_digit (48 + of_nat d)"
  by (simp add: is_digit_nat unat_digit)

lemma digit_of_val: "is_digit c \<Longrightarrow> 48 + of_nat (digit_val c) = c"
  by (simp add: is_digit_nat digit_val_def of_nat_diff)

lemma digit_val_less [simp]: "is_digit c \<Longrightarrow> digit_val c < 10"
  unfolding is_digit_nat digit_val_def by linarith

lemma dec_small: "n < 10 \<Longrightarrow> dec n = [48 + of_nat n]"
  by (simp add: dec.simps)

lemma dec_step: "0 < m \<Longrightarrow> d < 10 \<Longrightarrow> dec (10 * m + d) = dec m @ [48 + of_nat d]"
  by (subst dec.simps) simp

lemma dec_not_Nil [simp]: "dec n \<noteq> []"
  by (subst dec.simps) simp

lemma dec_digits: "c \<in> set (dec n) \<Longrightarrow> is_digit c"
  by (induction n rule: dec.induct) (subst (asm) (2) dec.simps, auto split: if_splits)

lemma dec_val_dec: "dec_val 0 (dec n) = n"
proof (induction n rule: dec.induct)
  case (1 n)
  then show ?case by (subst dec.simps) simp
qed

lemma dec_inj: "dec m = dec n \<Longrightarrow> m = n"
  by (metis dec_val_dec)

lemma dec_hd: "0 < n \<Longrightarrow> ch_1 \<le> hd (dec n)"
proof (induction n rule: dec.induct)
  case (1 n)
  show ?case
  proof (cases "n < 10")
    case True
    with 1 show ?thesis by (simp add: dec_small word_le_nat_alt unat_digit)
  next
    case False
    with 1 show ?thesis by (subst dec.simps) (simp add: hd_append)
  qed
qed

lemma dec_dec_val:
  "ch_1 \<le> c \<Longrightarrow> is_digit c \<Longrightarrow> \<forall>d \<in> set p. is_digit d \<Longrightarrow> dec (dec_val (digit_val c) p) = c # p"
proof (induction p rule: rev_induct)
  case Nil
  then show ?case by (simp add: dec_small digit_of_val)
next
  case (snoc d p)
  have "0 < dec_val (digit_val c) q" for q
  proof (induction q rule: rev_induct)
    case Nil
    with snoc.prems(1) show ?case by (simp add: digit_val_def word_le_nat_alt)
  qed simp
  with snoc show ?case by (simp add: dec_step digit_of_val)
qed

text \<open>A non-empty string is the notation of \<open>n\<close> exactly when it is ``0'' or starts with a
  non-zero digit, has digits only and evaluates to \<open>n\<close>.\<close>

lemma dec_iff:
  "s = dec n \<longleftrightarrow> (s = [ch_0] \<and> n = 0) \<or>
     (\<exists>c p. s = c # p \<and> ch_1 \<le> c \<and> c \<le> ch_9 \<and> (\<forall>d \<in> set p. is_digit d)
        \<and> n = dec_val (digit_val c) p)" (is "?l \<longleftrightarrow> ?r")
proof
  assume l: ?l
  show ?r
  proof (cases "n = 0")
    case True
    with l show ?thesis by (simp add: dec_small)
  next
    case False
    obtain c p where s: "s = c # p" using l dec_not_Nil by (metis list.exhaust)
    have "is_digit c" and p: "\<forall>d \<in> set p. is_digit d"
      using l s dec_digits by (metis list.set_intros)+
    moreover have "ch_1 \<le> c" using False l s dec_hd by (metis list.sel(1) neq0_conv)
    moreover have "n = dec_val (digit_val c) p"
      using l s dec_val_dec [of n] by (metis dec_val_simps(2) mult_0_right add_0)
    ultimately show ?thesis using s by (auto simp: is_digit_def)
  qed
next
  assume ?r
  then show ?l
  proof
    assume "s = [ch_0] \<and> n = 0"
    then show ?thesis by (simp add: dec_small)
  next
    assume "\<exists>c p. s = c # p \<and> ch_1 \<le> c \<and> c \<le> ch_9 \<and> (\<forall>d \<in> set p. is_digit d)
        \<and> n = dec_val (digit_val c) p"
    then obtain c p where "s = c # p" "ch_1 \<le> c" "c \<le> ch_9" "\<forall>d \<in> set p. is_digit d"
      and n: "n = dec_val (digit_val c) p" by blast
    moreover from this have "is_digit c"
      by (simp add: is_digit_def word_le_nat_alt)
    ultimately show ?thesis using dec_dec_val by simp
  qed
qed

lemma dec_zero_iff: "[ch_0] = dec n \<longleftrightarrow> n = 0"
  unfolding dec_iff by simp

section \<open>Correctness of string2ll\<close>

lemma dec_val_ge: "a \<le> dec_val a p"
proof (induction p arbitrary: a)
  case (Cons c p)
  have "a \<le> 10 * a + digit_val c" by simp
  also have "\<dots> \<le> dec_val (10 * a + digit_val c) p" by (rule Cons.IH)
  finally show ?case by simp
qed simp

lemma unat_digit_diff:
  assumes "is_digit c"
  shows "unat (ucast (c - ch_0) :: u64) = digit_val c"
proof -
  have "unat (c - ch_0) = unat c - 48"
    using assms by (simp add: is_digit_def unat_sub)
  moreover have "unat (ucast (c - ch_0) :: u64) = unat (c - ch_0)"
    by (rule unat_ucast_up) simp
  ultimately show ?thesis by (simp add: digit_val_def)
qed

lemma unat_accumulate:
  assumes "is_digit c" and "10 * unat v + digit_val c < 2 ^ 64"
  shows "unat (v * 10 + ucast (c - ch_0) :: u64) = 10 * unat v + digit_val c"
  using assms by (simp add: unat_word_ariths unat_digit_diff mod_mod_trivial mult.commute)

lemma overflow_checks:
  fixes v :: u64
  assumes "is_digit c"
  shows "v > (-1) div 10 \<or> v * 10 > (-1) - ucast (c - ch_0) \<longleftrightarrow> 2 ^ 64 \<le> 10 * unat v + digit_val c"
proof -
  have d: "digit_val c < 10" using assms by simp
  have m1: "unat ((-1 :: u64) - ucast (c - ch_0)) = 18446744073709551615 - digit_val c"
    using assms by (subst unat_sub) (simp_all add: unat_digit_diff unat_max_64 word_order.extremum)
  have div10: "unat ((-1 :: u64) div 10) = 1844674407370955161"
    by (simp add: unat_div)
  show ?thesis
  proof (cases "unat v \<le> 1844674407370955161")
    case True
    then have "unat (v * 10) = unat v * 10" by (simp add: unat_word_ariths)
    with True d show ?thesis
      unfolding word_less_nat_alt div10 m1 by simp linarith
  next
    case False
    then show ?thesis unfolding word_less_nat_alt div10 by simp
  qed
qed

lemma string2ll_digits_iff:
  "string2ll_digits v p = Some (w, []) \<longleftrightarrow>
     (\<forall>c \<in> set p. is_digit c) \<and> dec_val (unat v) p < 2 ^ 64 \<and> unat w = dec_val (unat v) p"
proof (induction p arbitrary: v)
  case Nil
  show ?case using unat_less_64 [of v] by (auto simp: word_unat_eq_iff)
next
  case (Cons c p)
  show ?case
  proof (cases "is_digit c")
    case False
    then show ?thesis by (auto simp: is_digit_def)
  next
    case True
    note ov = overflow_checks [OF True, of v]
    show ?thesis
    proof (cases "2 ^ 64 \<le> 10 * unat v + digit_val c")
      case o: True
      have "2 ^ 64 \<le> dec_val (10 * unat v + digit_val c) p"
        using o dec_val_ge le_trans by blast
      with o ov True show ?thesis by (auto simp: is_digit_def Let_def)
    next
      case o: False
      then have u: "unat (v * 10 + ucast (c - ch_0)) = 10 * unat v + digit_val c"
        using True by (simp add: unat_accumulate)
      have "string2ll_digits v (c # p) = string2ll_digits (v * 10 + ucast (c - ch_0)) p"
        using o ov True by (auto simp: is_digit_def Let_def)
      then show ?thesis using True by (simp add: Cons.IH u)
    qed
  qed
qed

text \<open>The tail of \<open>string2ll\<close>, on the digits after an optional sign.\<close>

lemma string2ll_magnitude:
  assumes "p \<noteq> []" and "ch_1 \<le> p ! 0" and "p ! 0 \<le> ch_9"
  shows "string2ll_digits (ucast (p ! 0 - ch_0)) (tl p) = Some (w, []) \<longleftrightarrow>
     unat w > 0 \<and> p = dec (unat w)"
proof -
  obtain c q where p: "p = c # q" using assms(1) by (cases p) auto
  have c: "ch_1 \<le> c" "is_digit c"
    using assms p by (auto simp: is_digit_def word_le_nat_alt)
  have pos: "0 < dec_val (digit_val c) q"
    using c dec_val_ge [of "digit_val c" q] by (simp add: digit_val_def word_le_nat_alt)
  have "string2ll_digits (ucast (p ! 0 - ch_0)) (tl p) = Some (w, []) \<longleftrightarrow>
      (\<forall>d \<in> set q. is_digit d) \<and> dec_val (digit_val c) q < 2 ^ 64
      \<and> unat w = dec_val (digit_val c) q"
    using c by (simp add: p string2ll_digits_iff unat_digit_diff)
  also have "\<dots> \<longleftrightarrow> unat w > 0 \<and> p = dec (unat w)"
  proof -
    have "p = dec (unat w) \<longleftrightarrow> (p = [ch_0] \<and> unat w = 0) \<or>
        ((\<forall>d \<in> set q. is_digit d) \<and> unat w = dec_val (digit_val c) q)"
      unfolding dec_iff [of p] using c p by (auto simp: is_digit_def)
    moreover have "unat w = dec_val (digit_val c) q \<Longrightarrow> dec_val (digit_val c) q < 2 ^ 64"
      using unat_less_64 [of w] by simp
    ultimately show ?thesis using pos by auto
  qed
  finally show ?thesis .
qed

lemma string2ll_nonneg:
  assumes "p \<noteq> []" and "p ! 0 \<noteq> ch_minus"
  shows "string2ll p = Some v \<longleftrightarrow> 0 \<le> v \<and> v \<le> INT64_MAX \<and> p = dec (nat v)"
proof (cases "p = [ch_0]")
  case True
  then show ?thesis
    by (auto simp: string2ll_def dec_zero_iff)
next
  case False
  have ne: "\<not> (length p = 1 \<and> p ! 0 = ch_0)"
    using False assms(1) by (cases p) auto
  show ?thesis
  proof (cases "ch_1 \<le> p ! 0 \<and> p ! 0 \<le> ch_9")
    case False
    have "p \<noteq> dec n" for n
      using False \<open>p \<noteq> [ch_0]\<close> unfolding dec_iff by auto
    with False ne assms show ?thesis by (auto simp: string2ll_def Let_def)
  next
    case True
    note m = string2ll_magnitude [OF assms(1)]
    have "string2ll p = Some v \<longleftrightarrow>
       (\<exists>w. string2ll_digits (ucast (p ! 0 - ch_0)) (tl p) = Some (w, [])
          \<and> \<not> w > 9223372036854775807 \<and> v = sint w)"
      using True ne assms by (auto simp: string2ll_def Let_def split: option.splits if_splits)
    also have "\<dots> \<longleftrightarrow> (\<exists>w :: u64. unat w > 0 \<and> p = dec (unat w)
          \<and> unat w \<le> 9223372036854775807 \<and> v = int (unat w))"
      using True m by (auto simp: word_less_nat_alt sint_u64)
    also have "\<dots> \<longleftrightarrow> 0 \<le> v \<and> v \<le> INT64_MAX \<and> p = dec (nat v)" (is "?l \<longleftrightarrow> ?r")
    proof
      assume ?l then show ?r by (auto simp del: of_nat_unat)
    next
      assume r: ?r
      then have u: "unat (word_of_nat (nat v) :: u64) = nat v"
        by (intro unat_of_nat_id) (simp, linarith)
      moreover have "nat v \<noteq> 0" using r \<open>p \<noteq> [ch_0]\<close> by (metis dec_iff)
      ultimately show ?l using r by (intro exI [of _ "word_of_nat (nat v)"]) auto
    qed
    finally show ?thesis .
  qed
qed

lemma string2ll_neg:
  "string2ll (ch_minus # p) = Some v \<longleftrightarrow> INT64_MIN \<le> v \<and> v < 0 \<and> p = dec (nat (- v))"
proof (cases "p \<noteq> [] \<and> ch_1 \<le> p ! 0 \<and> p ! 0 \<le> ch_9")
  case False
  have "p \<noteq> dec (nat (- v))" if "v < 0"
    using False that unfolding dec_iff by auto
  with False show ?thesis by (auto simp: string2ll_def Let_def)
next
  case True
  then have m: "string2ll_digits (ucast (p ! 0 - ch_0)) (tl p) = Some (w, []) \<longleftrightarrow>
     unat w > 0 \<and> p = dec (unat w)" for w
    using string2ll_magnitude by blast
  have neg: "sint (- w) = - int (unat w)"
    if "0 < unat w" "unat w \<le> 9223372036854775808" for w :: u64
  proof -
    have "in_int64 (- int (unat w))" using that unfolding in_int64_def by linarith
    from sint_of_int64 [OF this] show ?thesis by simp
  qed
  have "string2ll (ch_minus # p) = Some v \<longleftrightarrow>
     (\<exists>w. string2ll_digits (ucast (p ! 0 - ch_0)) (tl p) = Some (w, [])
        \<and> \<not> w > 9223372036854775808 \<and> v = sint (- w))"
    using True by (auto simp: string2ll_def Let_def split: option.splits if_splits)
  also have "\<dots> \<longleftrightarrow> (\<exists>w :: u64. unat w > 0 \<and> p = dec (unat w)
        \<and> unat w \<le> 9223372036854775808 \<and> v = - int (unat w))"
    unfolding m using neg by (auto simp: word_less_nat_alt not_less)
  also have "\<dots> \<longleftrightarrow> INT64_MIN \<le> v \<and> v < 0 \<and> p = dec (nat (- v))" (is "?l \<longleftrightarrow> ?r")
  proof
    assume ?l then show ?r by (auto simp del: of_nat_unat)
  next
    assume r: ?r
    then have u: "unat (word_of_nat (nat (- v)) :: u64) = nat (- v)"
      by (intro unat_of_nat_id) (simp, linarith)
    then show ?l using r by (intro exI [of _ "word_of_nat (nat (- v))"]) auto
  qed
  finally show ?thesis .
qed

lemma dec_no_sign: "dec n ! 0 \<noteq> ch_minus"
proof -
  have "dec n ! 0 \<in> set (dec n)" by (simp add: hd_conv_nth [symmetric])
  then have "is_digit (dec n ! 0)" by (rule dec_digits)
  then show ?thesis by (auto simp: is_digit_nat)
qed

lemma string2ll_iff: "string2ll s = Some v \<longleftrightarrow> in_int64 v \<and> s = dec_int v"
proof (cases s)
  case Nil
  then show ?thesis by (auto simp: string2ll_def dec_int_def dest: sym)
next
  case (Cons c p)
  show ?thesis
  proof (cases "c = ch_minus")
    case True
    have "s \<noteq> dec n" for n using True Cons dec_no_sign [of n] by (metis nth_Cons_0)
    with True Cons show ?thesis
      by (auto simp: string2ll_neg in_int64_def dec_int_def)
  next
    case False
    with Cons show ?thesis
      by (auto simp: string2ll_nonneg in_int64_def dec_int_def)
  qed
qed

section \<open>Correctness of digits10\<close>

lemma length_dec: "10 ^ k \<le> n \<Longrightarrow> n < 10 ^ Suc k \<Longrightarrow> length (dec n) = Suc k"
proof (induction k arbitrary: n)
  case 0
  then show ?case by (simp add: dec_small)
next
  case (Suc k)
  then have "10 ^ k \<le> n div 10" "n div 10 < 10 ^ Suc k" "10 \<le> n"
    by (auto simp: less_mult_imp_div_less mult.commute
        intro: order_trans [of _ "10 ^ Suc k"])
  with Suc.IH show ?case by (subst dec.simps) simp
qed

lemma length_dec_step: "10 \<le> n \<Longrightarrow> length (dec n) = Suc (length (dec (n div 10)))"
  by (subst dec.simps) simp

lemma length_dec_power: "10 ^ k \<le> n \<Longrightarrow> length (dec n) = k + length (dec (n div 10 ^ k))"
proof (induction k)
  case (Suc k)
  have le: "10 * 10 ^ k \<le> n" using Suc.prems by simp
  then have "10 \<le> n div 10 ^ k" by (simp add: less_eq_div_iff_mult_less_eq)
  then have "length (dec (n div 10 ^ k)) = Suc (length (dec (n div 10 ^ k div 10)))"
    by (rule length_dec_step)
  moreover have "length (dec n) = k + length (dec (n div 10 ^ k))"
    using le by (intro Suc.IH) simp
  ultimately show ?case by (simp add: div_mult2_eq [symmetric] mult.commute)
qed simp

lemma length_dec_bound: "n < 10 ^ Suc k \<Longrightarrow> length (dec n) \<le> Suc k"
proof (induction k arbitrary: n)
  case (Suc k)
  then have "n div 10 < 10 ^ Suc k" by (simp add: less_mult_imp_div_less)
  with Suc.IH show ?case by (cases "n < 10") (auto simp: dec_small length_dec_step)
qed (simp add: dec_small)

lemma digits10_length: "unat (digits10 v) = length (dec (unat v))"
proof (induction v rule: digits10.induct)
  case (1 v)
  show ?case
  proof (cases "v < 1000000000000")
    case True
    note l = length_dec [of _ "unat v"]
    show ?thesis
      using True l [of 0] l [of 1] l [of 2] l [of 3] l [of 4] l [of 5] l [of 6] l [of 7]
        l [of 8] l [of 9] l [of 10] l [of 11]
      by (subst digits10.simps) (auto simp: word_less_nat_alt word_le_nat_alt dec_small)
  next
    case False
    then have big: "10 ^ 12 \<le> unat v" by (simp add: word_less_nat_alt)
    have "unat v div 10 ^ 12 < 10 ^ Suc 7" 
      using unat_less_64 [of v] by (simp add: div_less_iff_less_mult)
    then have "length (dec (unat v div 10 ^ 12)) \<le> 8"
      using length_dec_bound [of _ 7] by simp
    moreover have "unat (digits10 (v div 1000000000000)) = length (dec (unat v div 10 ^ 12))"
      using 1 False by (auto simp: unat_div word_less_nat_alt)
    moreover have "digits10 v = 12 + digits10 (v div 1000000000000)"
      using False by (subst digits10.simps) (auto simp: word_less_nat_alt)
    ultimately show ?thesis
      using length_dec_power [OF big] by (simp add: unat_word_ariths)
  qed
qed

section \<open>Correctness of ll2string\<close>

lemma concat_pairs:
  "length (concat (map (\<lambda>k. [f k, g k]) [0..<n])) = 2 * n"
  "k < n \<Longrightarrow> concat (map (\<lambda>k. [f k, g k]) [0..<n]) ! (2 * k) = f k"
  "k < n \<Longrightarrow> concat (map (\<lambda>k. [f k, g k]) [0..<n]) ! Suc (2 * k) = g k"
proof -
  show l: "length (concat (map (\<lambda>k. [f k, g k]) [0..<n])) = 2 * n" for n by (induction n) auto
  show "k < n \<Longrightarrow> concat (map (\<lambda>k. [f k, g k]) [0..<n]) ! (2 * k) = f k"
    by (induction n) (auto simp: nth_append l less_Suc_eq)
  show "k < n \<Longrightarrow> concat (map (\<lambda>k. [f k, g k]) [0..<n]) ! Suc (2 * k) = g k"
    by (induction n) (auto simp: nth_append l less_Suc_eq)
qed

lemma digits_table_pairs:
  "digits_table = concat (map (\<lambda>k. [48 + of_nat (k div 10), 48 + of_nat (k mod 10)]) [0..<100])"
  by (simp add: digits_table_def upt_rec)

lemma digits_table_nth:
  "k < 100 \<Longrightarrow> get_at digits_table (2 * k) = Some (48 + of_nat (k div 10))"
  "k < 100 \<Longrightarrow> get_at digits_table (Suc (2 * k)) = Some (48 + of_nat (k mod 10))"
  by (simp_all add: digits_table_pairs get_at_def concat_pairs del: upt_rec_numeral)

lemma dec_two_digits:
  "10 \<le> n \<Longrightarrow> n < 100 \<Longrightarrow> dec n = [48 + of_nat (n div 10), 48 + of_nat (n mod 10)]"
  by (subst dec.simps) (simp add: dec_small)

lemma dec_step_100:
  assumes "100 \<le> n"
  shows "dec n = dec (n div 100) @ [48 + of_nat (n mod 100 div 10), 48 + of_nat (n mod 100 mod 10)]"
proof -
  have "n div 10 div 10 = n div 100" "n div 10 mod 10 = n mod 100 div 10"
    "n mod 10 = n mod 100 mod 10"
    using mod_mult2_eq [of n 10 10] by (simp_all add: div_mult2_eq [symmetric] mod_mod_cancel)
  moreover have "\<not> n div 10 < 10" using assms by simp
  ultimately show ?thesis
    using assms dec.simps [of n] dec.simps [of "n div 10"] by simp
qed

text \<open>The digit-writing phase fills the buffer up to and including position \<open>next\<close>.\<close>

lemma ll2string_write:
  assumes "unat nx < length dst" and "Suc (unat nx) = k + length (dec (unat w))"
  shows "(do { (dst, nx, value) \<leftarrow> ll2string_loop dst nx w; ll2string_last dst nx value })
    = Some (take k dst @ dec (unat w) @ drop (Suc (unat nx)) dst)"
  using assms
proof (induction dst nx w rule: ll2string_loop.induct)
  case (1 dst nx v)
  show ?case
  proof (cases "v \<ge> 100")
    case False
    then have loop: "ll2string_loop dst nx v = Some (dst, nx, v)"
      by (simp add: ll2string_loop.simps)
    show ?thesis
    proof (cases "v < 10")
      case True
      then have "dec (unat v) = [48 + of_nat (unat v)]"
        by (simp add: dec_small word_less_nat_alt)
      with 1 loop True show ?thesis
        by (simp add: ll2string_last_def put_at_def list_update_take_drop)
    next
      case two: False
      then have v: "10 \<le> unat v" "unat v < 100"
        using False by (simp_all add: word_less_nat_alt word_le_nat_alt)
      then have d: "dec (unat v) = [48 + of_nat (unat v div 10), 48 + of_nat (unat v mod 10)]"
        by (rule dec_two_digits)
      with "1.prems" have n: "unat nx = Suc k" by simp
      then have "unat (nx - 1) = k" by (subst unat_sub) (simp_all add: word_le_nat_alt)
      with n d v "1.prems" two loop digits_table_nth [of "unat v"] show ?thesis
        by (simp add: ll2string_last_def put_at_def two_updates mult.commute)
    qed
  next
    case True
    define r where "r = unat v mod 100"
    have v: "100 \<le> unat v" using True by (simp add: word_le_nat_alt)
    have d: "dec (unat v) = dec (unat v div 100) @ [48 + of_nat (r div 10), 48 + of_nat (r mod 10)]"
      using dec_step_100 [OF v] by (simp add: r_def)
    have pos: "length (dec (unat v div 100)) > 0" by simp
    with "1.prems" d have n: "Suc (unat nx) = k + length (dec (unat v div 100)) + 2" "2 \<le> unat nx"
      by (simp_all, linarith)
    obtain m where m: "unat nx = Suc m" using n by (cases "unat nx") auto
    have n1: "unat (nx - 1) = m" and n2: "unat (nx - 2) = m - 1"
      using n m by (subst unat_sub; simp add: word_le_nat_alt)+
    define dst' where "dst' = dst[Suc m := 48 + of_nat (r mod 10), m := 48 + of_nat (r div 10)]"
    have step: "ll2string_loop dst nx v = ll2string_loop dst' (nx - 2) (v div 100)"
      using True "1.prems" m n1 digits_table_nth [of r]
      by (subst ll2string_loop.simps)
         (simp add: put_at_def dst'_def r_def unat_mod mult.commute)
    have IH: "(do { (dst, nx, value) \<leftarrow> ll2string_loop dst' (nx - 2) (v div 100);
          ll2string_last dst nx value })
        = Some (take k dst' @ dec (unat (v div 100)) @ drop (Suc (unat (nx - 2))) dst')"
      using True "1.prems" n m n1 n2 digits_table_nth [of r]
      by (intro "1.IH") (auto simp: put_at_def dst'_def r_def unat_mod unat_div mult.commute, linarith)
    have km: "k \<le> m - 1" "Suc (m - 1) = m" "Suc m < length dst"
      using n m pos "1.prems" by linarith+
    have "take k dst' = take k dst"
      using km by (simp add: dst'_def)
    moreover have "drop m dst' = [48 + of_nat (r div 10), 48 + of_nat (r mod 10)] @ drop (m + 2) dst"
      using km by (simp add: dst'_def two_updates)
    ultimately show ?thesis
      unfolding step using IH km by (simp add: n2 unat_div d m)
  qed
qed

lemma unat_ll_magnitude: "in_int64 v \<Longrightarrow> unat (ll_magnitude v) = nat \<bar>v\<bar>"
  unfolding ll_magnitude_def in_int64_def
  by (auto simp: unat_of_int_id simp del: of_int_minus)

lemma dec_int_alt:
  "dec_int v = (if v < 0 then [ch_minus] else []) @ dec (nat \<bar>v\<bar>)"
  by (simp add: dec_int_def)

lemma length_dec_magnitude: "in_int64 v \<Longrightarrow> length (dec (nat \<bar>v\<bar>)) \<le> 19"
  using length_dec_bound [of "nat \<bar>v\<bar>" 18] by (auto simp: in_int64_def)

lemma ll2string_spec:
  assumes "in_int64 v" and "dstlen \<le> length dst"
  shows "ll2string dst dstlen v =
    (if length (dec_int v) < dstlen
     then Some (length (dec_int v), dec_int v @ 0 # drop (Suc (length (dec_int v))) dst)
     else Some (0, dst))"
proof -
  define n where "n = length (dec (nat \<bar>v\<bar>))"
  define k where "k = (if v < 0 then 1 else 0 :: nat)"
  define len where "len = digits10 (ll_magnitude v) + (if v < 0 then 1 else 0)"
  have n: "0 < n" "n \<le> 19" using length_dec_magnitude assms(1) by (simp_all add: n_def)
  have kn: "length (dec_int v) = k + n" by (simp add: dec_int_alt k_def n_def)
  have d: "unat (digits10 (ll_magnitude v)) = n"
    using assms(1) by (simp add: digits10_length unat_ll_magnitude n_def)
  then have len: "unat len = k + n"
    using n by (simp add: len_def k_def unat_word_ariths)
  show ?thesis
  proof (cases "k + n < dstlen")
    case False
    then show ?thesis by (simp add: ll2string_def Let_def kn len flip: len_def)
  next
    case True
    define dst1 where "dst1 = dst[k + n := 0]"
    have len1: "unat (len - 1) = k + n - 1"
      using n len by (subst unat_sub) (simp_all add: word_le_nat_alt)
    have w: "(do { (dst, nx, w) \<leftarrow> ll2string_loop dst1 (len - 1) (ll_magnitude v);
          ll2string_last dst nx w })
        = Some (take k dst1 @ dec (nat \<bar>v\<bar>) @ drop (k + n) dst1)"
      using ll2string_write [of "len - 1" dst1 k "ll_magnitude v"] True assms n
      by (simp add: len1 dst1_def unat_ll_magnitude n_def)
    have "drop (k + n) dst1 = 0 # drop (Suc (k + n)) dst"
      using True assms(2) by (simp add: dst1_def list_update_take_drop)
    note tail = this
    have eq: "ll2string dst dstlen v = do {
        dst2 \<leftarrow> (do { (dst, nx, w) \<leftarrow> ll2string_loop dst1 (len - 1) (ll_magnitude v);
          ll2string_last dst nx w });
        dst3 \<leftarrow> (if v < 0 then put_at dst2 0 ch_minus else Some dst2);
        Some (unat len, dst3) }"
      using True assms(2)
      by (simp add: ll2string_def Let_def len put_at_def dst1_def case_prod_unfold
          flip: len_def)
    have "dst1 \<noteq> []" using True assms(2) by (auto simp: dst1_def)
    then obtain x xs where dst1: "dst1 = x # xs" by (cases dst1) auto
    show ?thesis
      using True n unfolding eq w tail
      by (simp add: kn len) (simp add: dst1 dec_int_alt k_def put_at_def n_def)
  qed
qed

section \<open>Correctness of ull2string and its siblings\<close>

lemma ull_digits_loop_spec:
  "length xs = p \<Longrightarrow> ull_digits_loop (xs @ ys) p v =
    (if length (dec (unat v)) \<le> length ys
     then Some (xs @ rev (dec (unat v)) @ drop (length (dec (unat v))) ys, p + length (dec (unat v)))
     else None)"
proof (induction "unat v" arbitrary: xs ys p v rule: less_induct)
  case less
  show ?case
  proof (cases ys)
    case Nil
    with less.prems show ?thesis
      by (subst ull_digits_loop.simps) (simp add: put_at_def)
  next
    case (Cons y zs)
    have digit: "ch_0 + ucast (v mod 10) = (48 + of_nat (unat v mod 10) :: byte)"
    proof -
      have "unat v mod 10 = unat (v mod 10)" by (simp add: unat_mod)
      then show ?thesis by (simp only: of_nat_unat)
    qed
    have put: "put_at (xs @ ys) p b = Some ((xs @ [b]) @ zs)" for b
      using less.prems Cons by (auto simp: put_at_def)
    show ?thesis
    proof (cases "v div 10 = 0")
      case True
      then have "unat (v div 10) = 0" by simp
      then have "unat v < 10" by (simp add: unat_div)
      with True digit put Cons less.prems show ?thesis
        by (subst ull_digits_loop.simps) (simp add: Let_def dec_small)
    next
      case False
      then have "unat (v div 10) \<noteq> 0" by (simp add: unat_eq_0)
      then have "10 \<le> unat v" by (simp add: unat_div)
      then have "dec (unat v) = dec (unat (v div 10)) @ [48 + of_nat (unat v mod 10)]"
        by (subst dec.simps) (simp add: unat_div)
      moreover have "ull_digits_loop (xs @ ys) p v
          = ull_digits_loop ((xs @ [48 + of_nat (unat v mod 10)]) @ zs) (p + 1) (v div 10)"
        using False put digit by (subst ull_digits_loop.simps) (simp add: Let_def)
      moreover have "unat (v div 10) < unat v"
        using \<open>10 \<le> unat v\<close> by (simp add: unat_div)
      note less.hyps [OF this, of "xs @ [48 + of_nat (unat v mod 10)]" "p + 1" zs]
      ultimately show ?thesis
        using Cons less.prems by simp
    qed
  qed
qed

lemma reverse_loop_spec:
  "length xs = i \<Longrightarrow> ys \<noteq> [] \<Longrightarrow> j = i + length ys - 1 \<Longrightarrow>
   reverse_loop (xs @ ys @ zs) i j = Some (xs @ rev ys @ zs)"
proof (induction "length ys" arbitrary: xs ys zs i j rule: less_induct)
  case less
  show ?case
  proof (cases "length ys < 2")
    case True
    with less.prems obtain y where "ys = [y]"
      by (cases ys) (auto simp: less_Suc_eq numeral_2_eq_2)
    with less.prems show ?thesis by (subst reverse_loop.simps) simp
  next
    case False
    then obtain a mid b where ys: "ys = a # mid @ [b]"
      by (cases ys; cases "tl ys" rule: rev_cases) auto
    have step: "reverse_loop (xs @ ys @ zs) i j
        = reverse_loop ((xs @ [b]) @ mid @ (a # zs)) (i + 1) (j - 1)"
      using less.prems ys
      by (subst reverse_loop.simps)
         (simp add: get_at_def put_at_def nth_append list_update_append)
    show ?thesis
    proof (cases "mid = []")
      case True
      with step less.prems ys show ?thesis by (subst (asm) (2) reverse_loop.simps) simp
    next
      case False
      then show ?thesis
        using step less.hyps [of mid "xs @ [b]" "i + 1" "j - 1" "a # zs"] less.prems ys
        by simp
    qed
  qed
qed

lemma ull_digits_loop_0:
  "ull_digits_loop s 0 v =
    (if length (dec (unat v)) \<le> length s
     then Some (rev (dec (unat v)) @ drop (length (dec (unat v))) s, length (dec (unat v)))
     else None)"
  using ull_digits_loop_spec [of "[]" 0 s v] by simp

text \<open>Terminate the digits with NUL and reverse them: the common end of the three printers.\<close>

lemma finish_digits:
  assumes "ds \<noteq> []" and "length ds < length s"
  shows "(do { s \<leftarrow> put_at (ds @ drop (length ds) s) (length ds) 0;
      reverse_loop s 0 (length ds - 1) })
    = Some (rev ds @ 0 # drop (Suc (length ds)) s)"
proof -
  have "drop (length ds) s = s ! length ds # drop (Suc (length ds)) s"
    using assms(2) by (rule Cons_nth_drop_Suc [symmetric])
  then have "put_at (ds @ drop (length ds) s) (length ds) 0
      = Some ([] @ ds @ 0 # drop (Suc (length ds)) s)"
    by (simp add: put_at_def)
  then show ?thesis
    using reverse_loop_spec [of "[]" 0 ds "length ds - 1" "0 # drop (Suc (length ds)) s"] assms(1)
    by simp
qed

lemma finish_digits_dec:
  assumes "length (dec n) < length s"
  shows "(do { s \<leftarrow> put_at (rev (dec n) @ drop (length (dec n)) s) (length (dec n)) 0;
      s \<leftarrow> reverse_loop s 0 (length (dec n) - 1); Some (length (dec n), s) })
    = Some (length (dec n), dec n @ 0 # drop (Suc (length (dec n))) s)"
  using finish_digits [of "rev (dec n)" s] assms
  by (cases "put_at (rev (dec n) @ drop (length (dec n)) s) (length (dec n)) 0") auto

lemma sdsull2str_spec:
  assumes "length (dec (unat v)) < length s"
  shows "sdsull2str s v =
    Some (length (dec (unat v)), dec (unat v) @ 0 # drop (Suc (length (dec (unat v)))) s)"
  using assms finish_digits_dec [OF assms] by (simp add: sdsull2str_def ull_digits_loop_0)

lemma ull2string_spec:
  assumes "length (dec (unat v)) < length s" and "length (dec (unat v)) \<le> len"
  shows "ull2string s len v =
    Some (length (dec (unat v)), dec (unat v) @ 0 # drop (Suc (length (dec (unat v)))) s)"
  using assms finish_digits_dec [OF assms(1)] by (simp add: ull2string_def ull_digits_loop_0)

lemma sdsll2str_spec:
  assumes v: "in_int64 v" "v \<noteq> INT64_MIN" and l: "length (dec_int v) < length s"
  shows "sdsll2str s v =
    Some (length (dec_int v), dec_int v @ 0 # drop (Suc (length (dec_int v))) s)"
proof -
  define ds where "ds = rev (dec (nat \<bar>v\<bar>)) @ (if v < 0 then [ch_minus] else [])"
  have rds: "rev ds = dec_int v" "ds \<noteq> []" "length ds = length (dec_int v)"
    by (simp_all add: ds_def dec_int_alt)
  have u: "unat (word_of_int (if v < 0 then - v else v) :: u64) = nat \<bar>v\<bar>"
    using v by (auto simp: in_int64_def unat_of_int_id simp del: of_int_minus)
  have w: "(do {
      (s, p) \<leftarrow> ull_digits_loop s 0 (word_of_int (if v < 0 then - v else v));
      (if v < 0 then do { s \<leftarrow> put_at s p ch_minus; Some (s, p + 1) } else Some (s, p)) })
    = Some (ds @ drop (length ds) s, length ds)"
  proof (cases "v < 0")
    case True
    then have "length (dec (nat \<bar>v\<bar>)) < length s" using l by (simp add: dec_int_alt)
    then show ?thesis
      using True u
      by (auto simp: ull_digits_loop_0 put_at_def ds_def update_append_drop simp del: of_int_minus)
  next
    case False
    then show ?thesis using l u by (simp add: ull_digits_loop_0 ds_def dec_int_alt)
  qed
  have "sdsll2str s v = do {
      (s, l) \<leftarrow> (do {
        (s, p) \<leftarrow> ull_digits_loop s 0 (word_of_int (if v < 0 then - v else v));
        (if v < 0 then do { s \<leftarrow> put_at s p ch_minus; Some (s, p + 1) } else Some (s, p)) });
      s \<leftarrow> (do { s \<leftarrow> put_at s l 0; reverse_loop s 0 (l - 1) });
      Some (l, s) }"
    using v(2) by (simp add: sdsll2str_def case_prod_unfold)
  also have "\<dots> = Some (length ds, rev ds @ 0 # drop (Suc (length ds)) s)"
    unfolding w using finish_digits [OF rds(2), of s] l rds(3)
    by (cases "put_at (ds @ drop (length ds) s) (length ds) 0") auto
  finally show ?thesis using rds by simp
qed

section \<open>Properties\<close>

text \<open>C28. \<open>string2ll\<close> succeeds on a byte string exactly when the string is the canonical
  decimal notation of a value of \<open>long long\<close> (no leading zeros, no blanks, no sign on zero, no
  overflow), and then returns that value: the string can be recovered from the number
  ``without any loss'', as the comment of the function promises.\<close>

theorem string2ll_exact: "string2ll s = Some v \<longleftrightarrow> in_int64 v \<and> s = dec_int v"
  by (rule string2ll_iff)

text \<open>C29. \<open>ll2string\<close> followed by \<open>string2ll\<close> is the identity on every \<open>long long\<close>: with a
  buffer of at least 21 bytes no write leaves the buffer, the returned length is the length of the
  notation, the byte after it is NUL, the rest of the buffer is untouched, and parsing the
  written bytes gives the value back.\<close>

theorem ll2string_string2ll:
  assumes "in_int64 v" and "21 \<le> dstlen" and "dstlen \<le> length dst"
  shows "\<exists>l buf. ll2string dst dstlen v = Some (l, buf) \<and> length buf = length dst
    \<and> string2ll (take l buf) = Some v \<and> buf ! l = 0 \<and> drop (Suc l) buf = drop (Suc l) dst"
proof -
  have l: "length (dec_int v) < 21"
    using length_dec_magnitude [OF assms(1)] by (cases "v < 0") (simp_all add: dec_int_alt)
  let ?l = "length (dec_int v)"
  let ?buf = "dec_int v @ 0 # drop (Suc ?l) dst"
  have "ll2string dst dstlen v = Some (?l, ?buf)"
    using ll2string_spec [OF assms(1,3)] l assms(2) by simp
  moreover have "length ?buf = length dst" "?buf ! ?l = 0"
    "drop (Suc ?l) ?buf = drop (Suc ?l) dst"
    using l assms(2,3) by (simp_all add: nth_append)
  moreover have "string2ll (take ?l ?buf) = Some v"
    using assms(1) by (simp add: string2ll_iff)
  ultimately show ?thesis by blast
qed

theorem ll2string_string2ll_witness:
  "in_int64 (- 120) \<and> ll2string (replicate 21 7) 21 (- 120) = Some (4, [45, 49, 50, 48, 0] @ replicate 16 7)
   \<and> (\<exists>l buf. ll2string (replicate 21 7) 21 (- 120) = Some (l, buf) \<and> length buf = 21
    \<and> string2ll (take l buf) = Some (- 120) \<and> buf ! l = 0
    \<and> drop (Suc l) buf = drop (Suc l) (replicate 21 7))"
proof (intro conjI)
  show r: "in_int64 (- 120)" by (simp add: in_int64_def)
  have "dec_int (- 120) = [45, 49, 50, 48]" by (simp add: dec_int_def dec.simps)
  with ll2string_spec [OF r, of 21 "replicate 21 7"]
  show "ll2string (replicate 21 7) 21 (- 120) = Some (4, [45, 49, 50, 48, 0] @ replicate 16 7)"
    by simp
  show "\<exists>l buf. ll2string (replicate 21 7) 21 (- 120) = Some (l, buf) \<and> length buf = 21
    \<and> string2ll (take l buf) = Some (- 120) \<and> buf ! l = 0
    \<and> drop (Suc l) buf = drop (Suc l) (replicate 21 7)"
    using ll2string_string2ll [OF r, of 21 "replicate 21 7"] by simp
qed

text \<open>\<open>ull2string\<close> checks the length of its buffer too late and by one too little: called
  with a buffer of exactly \<open>len\<close> bytes and a number of \<open>len\<close> digits it writes the
  terminating NUL one byte past the buffer, for every number. With one byte more it works.\<close>

theorem ull2string_overruns:
  assumes "length s = length (dec (unat v))"
  shows "ull2string s (length s) v = None
    \<and> ull2string (s @ [x]) (length s) v = Some (length s, dec (unat v) @ [0])"
proof
  show "ull2string s (length s) v = None"
    using assms by (simp add: ull2string_def ull_digits_loop_0 put_at_def)
  show "ull2string (s @ [x]) (length s) v = Some (length s, dec (unat v) @ [0])"
    using assms by (subst ull2string_spec) simp_all
qed

theorem ull2string_overruns_witness:
  "length [1, 2 :: byte] = length (dec (unat (42 :: u64))) \<and> ull2string [1, 2] 2 42 = None
   \<and> ull2string [1, 2, 3] 2 42 = Some (2, [52, 50, 0])"
proof -
  have d: "dec (unat (42 :: u64)) = [52, 50]" by (simp add: dec.simps)
  have two: "length [1, 2 :: byte] = 2" by simp
  have l: "length [1, 2 :: byte] = length (dec (unat (42 :: u64)))" by (simp only: d) simp
  from ull2string_overruns [OF l, of 3, unfolded two d] l show ?thesis
    by (simp only: append_Cons append_Nil simp_thms)
qed

text \<open>\<open>sdsll2str\<close>, which \<open>sds_cat_fmt\<close> prints numbers with, writes the canonical notation
  followed by NUL for every \<open>long long\<close> but the smallest, whose negation is a signed overflow.\<close>

theorem sdsll2str_exact:
  assumes "in_int64 v" and "length (dec_int v) < length s"
  shows "sdsll2str s v = (if v = INT64_MIN then None
    else Some (length (dec_int v), dec_int v @ 0 # drop (Suc (length (dec_int v))) s))"
  using sdsll2str_spec [OF assms(1) _ assms(2)] by (auto simp: sdsll2str_def)

theorem sdsll2str_exact_witness:
  "in_int64 (- 7) \<and> length (dec_int (- 7)) < length [1, 2, 3, 4 :: byte]
   \<and> sdsll2str [1, 2, 3, 4] (- 7) = Some (2, [45, 55, 0, 4])"
proof -
  have d: "dec_int (- 7) = [45, 55]" by (simp add: dec_int_def dec.simps)
  have "in_int64 (- 7)" by (simp add: in_int64_def)
  with sdsll2str_exact [OF this, of "[1, 2, 3, 4]"] d show ?thesis by simp
qed

end
