(* ===== verification/Endian.thy ===== *)
theory Endian
  imports Prelude
begin

text \<open>
  Byte order: \<open>src/endianconv/endianconv.c\<close>, and the loads and stores of fixed-width integers
  at a byte offset that the components with packed layouts use. The host is little endian, so
  the \<open>...ifbe\<close> macros of \<open>endianconv.h\<close> are the identity; \<open>memrev16/32/64\<close> and
  \<open>intrev16/32/64\<close> are modelled as written.
\<close>

section \<open>memrev and intrev\<close>

definition swap_at :: "'a list \<Rightarrow> nat \<Rightarrow> nat \<Rightarrow> 'a list option" where
  "swap_at x i j =
     do {
       t \<leftarrow> get_at x i;
       b \<leftarrow> get_at x j;
       x \<leftarrow> put_at x i b;
       put_at x j t
     }"

definition memrev16 :: "byte list \<Rightarrow> byte list option" where
  "memrev16 x = swap_at x 0 1"

definition memrev32 :: "byte list \<Rightarrow> byte list option" where
  "memrev32 x = do { x \<leftarrow> swap_at x 0 3; swap_at x 1 2 }"

definition memrev64 :: "byte list \<Rightarrow> byte list option" where
  "memrev64 x = do { x \<leftarrow> swap_at x 0 7; x \<leftarrow> swap_at x 1 6; x \<leftarrow> swap_at x 2 5; swap_at x 3 4 }"

lemma memrev16_rev: "memrev16 [a, b] = Some (rev [a, b])"
  by (simp add: memrev16_def swap_at_def get_at_def put_at_def)

lemma memrev32_rev: "memrev32 [a, b, c, d] = Some (rev [a, b, c, d])"
  by (simp add: memrev32_def swap_at_def get_at_def put_at_def)

lemma memrev64_rev: "memrev64 [a, b, c, d, e, f, g, h] = Some (rev [a, b, c, d, e, f, g, h])"
  by (simp add: memrev64_def swap_at_def get_at_def put_at_def)

lemma swap_at_length: "swap_at x i j = Some y \<Longrightarrow> length y = length x"
  by (auto simp: swap_at_def bind_eq_Some_iff dest!: put_at_length)

section \<open>Little-endian integers of a given width in bytes\<close>

fun le_val :: "byte list \<Rightarrow> nat" where
  "le_val [] = 0"
| "le_val (b # bs) = unat b + 256 * le_val bs"

fun le_bytes :: "nat \<Rightarrow> nat \<Rightarrow> byte list" where
  "le_bytes 0 v = []"
| "le_bytes (Suc n) v = of_nat (v mod 256) # le_bytes n (v div 256)"

text \<open>Two's complement readings.\<close>

definition le_sval :: "byte list \<Rightarrow> int" where
  "le_sval bs = (let u = int (le_val bs) in
     if 2 * u < 256 ^ length bs then u else u - 256 ^ length bs)"

definition le_sbytes :: "nat \<Rightarrow> int \<Rightarrow> byte list" where
  "le_sbytes n v = le_bytes n (nat (v mod 256 ^ n))"

definition fits :: "nat \<Rightarrow> int \<Rightarrow> bool" where
  "fits n v \<longleftrightarrow> - (256 ^ n) \<le> 2 * v \<and> 2 * v < 256 ^ n"

lemma length_le_bytes [simp]: "length (le_bytes n v) = n"
  by (induction n v rule: le_bytes.induct) auto

lemma length_le_sbytes [simp]: "length (le_sbytes n v) = n"
  by (simp add: le_sbytes_def)

lemma le_val_bound: "le_val bs < 256 ^ length bs"
proof (induction bs)
  case (Cons b bs)
  have "unat b < 256" by (rule unat_less_8)
  with Cons show ?case by simp
qed simp

lemma le_val_le_bytes: "v < 256 ^ n \<Longrightarrow> le_val (le_bytes n v) = v"
proof (induction n v rule: le_bytes.induct)
  case (2 n v)
  then have "v div 256 < 256 ^ n" by (simp add: less_mult_imp_div_less mult.commute)
  moreover have "unat (of_nat (v mod 256) :: byte) = v mod 256" by (rule unat_of_nat_id) simp
  ultimately show ?case using 2 by simp
qed simp

lemma le_bytes_le_val: "length bs = n \<Longrightarrow> le_bytes n (le_val bs) = bs"
proof (induction bs arbitrary: n)
  case (Cons b bs)
  have b: "unat b < 256" by (rule unat_less_8)
  then have "(unat b + 256 * le_val bs) mod 256 = unat b" "(unat b + 256 * le_val bs) div 256 = le_val bs"
    by simp_all
  with Cons show ?case by (cases n) auto
qed simp

lemma le_sval_le_sbytes: "fits n v \<Longrightarrow> le_sval (le_sbytes n v) = v"
proof -
  assume f: "fits n v"
  define M :: int where "M = 256 ^ n"
  have M: "0 < M" "- M \<le> 2 * v" "2 * v < M" using f by (simp_all add: M_def fits_def)
  have mod: "v mod M = (if v < 0 then v + M else v)"
  proof (cases "v < 0")
    case True
    have "v mod M = (v + M) mod M" by simp
    also have "\<dots> = v + M" using True M by (intro mod_pos_pos_trivial) linarith+
    finally show ?thesis using True by simp
  next
    case False
    with M show ?thesis by (simp add: mod_pos_pos_trivial)
  qed
  have "nat (v mod M) < 256 ^ n"
    using M by (simp add: M_def nat_less_iff)
  then have "le_val (le_sbytes n v) = nat (v mod M)"
    by (simp add: le_sbytes_def le_val_le_bytes M_def)
  then show ?thesis
    using M mod by (auto simp: le_sval_def Let_def simp flip: M_def)
qed

lemma fits_le_sval: "length bs = n \<Longrightarrow> 0 < n \<Longrightarrow> fits n (le_sval bs)"
proof -
  assume n: "length bs = n" "0 < n"
  define u M :: int where "u = int (le_val bs)" and "M = 256 ^ n"
  have "int (le_val bs) < 256 ^ length bs"
    using le_val_bound [of bs] by (metis of_nat_less_iff of_nat_numeral of_nat_power)
  then have "0 \<le> u" "u < M" using n by (simp_all only: u_def M_def)
  then show ?thesis
    unfolding fits_def le_sval_def Let_def n u_def [symmetric] M_def [symmetric] by auto
qed

lemma fits_iff [simp]:
  "fits 2 v \<longleftrightarrow> - 32768 \<le> v \<and> v \<le> 32767"
  "fits 4 v \<longleftrightarrow> - 2147483648 \<le> v \<and> v \<le> 2147483647"
  "fits 8 v \<longleftrightarrow> INT64_MIN \<le> v \<and> v \<le> INT64_MAX"
  by (auto simp: fits_def)

text \<open>Typed access to a packed array: element \<open>pos\<close> of width \<open>n\<close>.\<close>

definition load_le :: "nat \<Rightarrow> byte list \<Rightarrow> nat \<Rightarrow> int option" where
  "load_le n buf pos = map_option le_sval (mem_read buf (pos * n) n)"

definition store_le :: "nat \<Rightarrow> byte list \<Rightarrow> nat \<Rightarrow> int \<Rightarrow> byte list option" where
  "store_le n buf pos v = mem_write buf (pos * n) (le_sbytes n v)"

lemma length_store_le: "store_le n buf pos v = Some buf' \<Longrightarrow> length buf' = length buf"
  by (simp add: store_le_def mem_write_length)

section \<open>intrev16, intrev32 and intrev64\<close>

text \<open>The functions take the address of their parameter, whose representation is little
  endian, reverse its bytes and return it.\<close>

definition intrev16 :: "u16 \<Rightarrow> u16 option" where
  "intrev16 v = map_option (\<lambda>x. of_nat (le_val x)) (memrev16 (le_bytes 2 (unat v)))"

definition intrev32 :: "u32 \<Rightarrow> u32 option" where
  "intrev32 v = map_option (\<lambda>x. of_nat (le_val x)) (memrev32 (le_bytes 4 (unat v)))"

definition intrev64 :: "u64 \<Rightarrow> u64 option" where
  "intrev64 v = map_option (\<lambda>x. of_nat (le_val x)) (memrev64 (le_bytes 8 (unat v)))"

lemma list_of_length_2: "length xs = 2 \<Longrightarrow> \<exists>a b. xs = [a, b]"
  by (auto simp: numeral_eq_Suc length_Suc_conv)

lemma list_of_length_4: "length xs = 4 \<Longrightarrow> \<exists>a b c d. xs = [a, b, c, d]"
  by (auto simp: numeral_eq_Suc length_Suc_conv)

lemma list_of_length_8: "length xs = 8 \<Longrightarrow> \<exists>a b c d e f g h. xs = [a, b, c, d, e, f, g, h]"
  by (auto simp: numeral_eq_Suc length_Suc_conv)

lemma memrev64_any: "length xs = 8 \<Longrightarrow> memrev64 xs = Some (rev xs)"
  using list_of_length_8 [of xs] memrev64_rev by blast

lemma memrev32_any: "length xs = 4 \<Longrightarrow> memrev32 xs = Some (rev xs)"
  using list_of_length_4 [of xs] memrev32_rev by blast

lemma memrev16_any: "length xs = 2 \<Longrightarrow> memrev16 xs = Some (rev xs)"
  using list_of_length_2 [of xs] memrev16_rev by blast

lemma intrev64_rev: "intrev64 v = Some (of_nat (le_val (rev (le_bytes 8 (unat v)))))"
  by (simp add: intrev64_def memrev64_any)

lemma intrev32_rev: "intrev32 v = Some (of_nat (le_val (rev (le_bytes 4 (unat v)))))"
  by (simp add: intrev32_def memrev32_any)

lemma intrev16_rev: "intrev16 v = Some (of_nat (le_val (rev (le_bytes 2 (unat v)))))"
  by (simp add: intrev16_def memrev16_any)

lemma rev_bytes_involution:
  assumes "256 ^ n = (2::nat) ^ LENGTH('a::len)"
  shows "(of_nat (le_val (rev (le_bytes n (unat (of_nat (le_val (rev (le_bytes n (unat v)))) :: 'a word)))))
     :: 'a word) = v"
proof -
  have b: "le_val (rev (le_bytes n (unat v))) < 2 ^ LENGTH('a)"
    using le_val_bound [of "rev (le_bytes n (unat v))"] assms by simp
  have v: "unat v < 256 ^ n" using assms by simp
  show ?thesis
    by (simp add: unat_of_nat_id [OF b] le_bytes_le_val le_val_le_bytes [OF v])
qed

text \<open>Reversing the bytes of an integer twice gives it back, at all three widths: the
  conversion macros built on \<open>intrev16/32/64\<close> are their own inverses.\<close>

lemma intrev_involution:
  "intrev16 x \<bind> intrev16 = Some x \<and> intrev32 y \<bind> intrev32 = Some y
    \<and> intrev64 z \<bind> intrev64 = Some z"
  by (simp add: intrev16_rev intrev32_rev intrev64_rev rev_bytes_involution)

end
