(* ===== verification/SetSpec.thy ===== *)
theory SetSpec
  imports Prelude
begin

text \<open>
  The contract of a set. Every set of the project (\<open>src/set\<close>) offers an insertion and a removal
  that report whether they changed the set, and a membership test; the test may change the
  representation (a hash set rehashes while it looks up). The locale states what a client
  relies on; it is interpreted by the component that implements the operations.
\<close>

datatype 'x set_op = Add 'x | Remove 'x | Contains 'x

text \<open>A client: a sequence of operations, whose responses it records. \<open>None\<close> is a run in which
  an operation had undefined behaviour.\<close>

fun set_run ::
  "('s \<Rightarrow> 'x \<Rightarrow> ('s \<times> bool) option) \<Rightarrow> ('s \<Rightarrow> 'x \<Rightarrow> ('s \<times> bool) option) \<Rightarrow>
   ('s \<Rightarrow> 'x \<Rightarrow> ('s \<times> bool) option) \<Rightarrow> 's \<Rightarrow> 'x set_op list \<Rightarrow> ('s \<times> bool list) option"
where
  "set_run add rem has s [] = Some (s, [])"
| "set_run add rem has s (c # cs) =
     do {
       (s, r) \<leftarrow> (case c of Add x \<Rightarrow> add s x | Remove x \<Rightarrow> rem s x | Contains x \<Rightarrow> has s x);
       (s, rs) \<leftarrow> set_run add rem has s cs;
       Some (s, r # rs)
     }"

text \<open>The same client on a mathematical set.\<close>

fun set_model :: "'x set \<Rightarrow> 'x set_op list \<Rightarrow> 'x set \<times> bool list" where
  "set_model A [] = (A, [])"
| "set_model A (Add x # cs) = (let (B, rs) = set_model (insert x A) cs in (B, (x \<notin> A) # rs))"
| "set_model A (Remove x # cs) = (let (B, rs) = set_model (A - {x}) cs in (B, (x \<in> A) # rs))"
| "set_model A (Contains x # cs) = (let (B, rs) = set_model A cs in (B, (x \<in> A) # rs))"

fun op_elem :: "'x set_op \<Rightarrow> 'x" where
  "op_elem (Add x) = x"
| "op_elem (Remove x) = x"
| "op_elem (Contains x) = x"

locale set_impl =
  fixes invar :: "'s \<Rightarrow> bool"
    and elems :: "'s \<Rightarrow> 'x set"
    and valid :: "'x \<Rightarrow> bool"
    and capacity :: nat
    and add :: "'s \<Rightarrow> 'x \<Rightarrow> ('s \<times> bool) option"
    and rem :: "'s \<Rightarrow> 'x \<Rightarrow> ('s \<times> bool) option"
    and has :: "'s \<Rightarrow> 'x \<Rightarrow> ('s \<times> bool) option"
  assumes finite_elems: "invar s \<Longrightarrow> finite (elems s)"
    and add_law: "invar s \<Longrightarrow> valid x \<Longrightarrow> card (elems s) < capacity \<Longrightarrow>
      \<exists>s'. add s x = Some (s', x \<notin> elems s) \<and> invar s' \<and> elems s' = insert x (elems s)"
    and rem_law: "invar s \<Longrightarrow> valid x \<Longrightarrow> card (elems s) \<le> capacity \<Longrightarrow>
      \<exists>s'. rem s x = Some (s', x \<in> elems s) \<and> invar s' \<and> elems s' = elems s - {x}"
    and has_law: "invar s \<Longrightarrow> valid x \<Longrightarrow> card (elems s) \<le> capacity \<Longrightarrow>
      \<exists>s'. has s x = Some (s', x \<in> elems s) \<and> invar s' \<and> elems s' = elems s"
begin

lemma card_after_add: "invar s \<Longrightarrow> card (insert x (elems s)) \<le> Suc (card (elems s))"
  by (rule card_insert_le_m1) (simp_all add: finite_elems)

lemma run_refines_aux:
  assumes "invar s" "\<forall>c\<in>set cs. valid (op_elem c)" "card (elems s) + length cs \<le> capacity"
  shows "\<exists>s'. set_run add rem has s cs = Some (s', snd (set_model (elems s) cs))
    \<and> invar s' \<and> elems s' = fst (set_model (elems s) cs)"
  using assms
proof (induction cs arbitrary: s)
  case Nil
  then show ?case by simp
next
  case (Cons c cs)
  have v: "valid (op_elem c)" and inv: "invar s" using Cons.prems by auto
  show ?case
  proof (cases c)
    case (Add x)
    with add_law [OF inv, of x] v Cons.prems obtain s' where
      s': "add s x = Some (s', x \<notin> elems s)" "invar s'" "elems s' = insert x (elems s)"
      by auto
    have "card (elems s') + length cs \<le> capacity"
      using card_after_add [OF inv, of x] s' Cons.prems by simp
    from Cons.IH [OF s'(2) _ this] Cons.prems s' Add show ?thesis
      by (auto simp: case_prod_unfold Let_def)
  next
    case (Remove x)
    with rem_law [OF inv, of x] v Cons.prems obtain s' where
      s': "rem s x = Some (s', x \<in> elems s)" "invar s'" "elems s' = elems s - {x}"
      by auto
    have "card (elems s') + length cs \<le> capacity"
      using card_Diff1_le [of "elems s" x] s' Cons.prems by simp
    from Cons.IH [OF s'(2) _ this] Cons.prems s' Remove show ?thesis
      by (auto simp: case_prod_unfold Let_def)
  next
    case (Contains x)
    with has_law [OF inv, of x] v Cons.prems obtain s' where
      s': "has s x = Some (s', x \<in> elems s)" "invar s'" "elems s' = elems s"
      by auto
    with Cons.IH [OF s'(2)] Cons.prems Contains show ?thesis
      by (auto simp: case_prod_unfold Let_def)
  qed
qed

text \<open>A client cannot tell the implementation from a mathematical set.\<close>

lemma run_refines:
  assumes "invar s" "elems s = {}" "\<forall>c\<in>set cs. valid (op_elem c)" "length cs \<le> capacity"
  shows "\<exists>s'. set_run add rem has s cs = Some (s', snd (set_model {} cs))
    \<and> invar s' \<and> elems s' = fst (set_model {} cs)"
  using run_refines_aux [of s cs] assms by simp

end

end
