(* ===== verification/IntSet.thy ===== *)
theory IntSet
  imports Endian SetSpec
begin

text \<open>
  \<open>src/set/int_set.c\<close>: a sorted array of integers, packed in 2, 4 or 8 bytes per element, the
  width being raised in place when a value does not fit. The array is a byte buffer
  (\<open>is_contents\<close>, whose length is the allocated size without the header) and every access to it
  is checked. A position is a C \<open>int\<close>; a negative one is outside the buffer.
\<close>

section \<open>The structure and its operations\<close>

abbreviation INTSET_ENC_INT16 :: u32 where "INTSET_ENC_INT16 \<equiv> 2"
abbreviation INTSET_ENC_INT32 :: u32 where "INTSET_ENC_INT32 \<equiv> 4"
abbreviation INTSET_ENC_INT64 :: u32 where "INTSET_ENC_INT64 \<equiv> 8"

record int_set =
  is_encoding :: u32
  is_length :: u32
  is_contents :: "byte list"

definition int_set_new :: int_set where
  "int_set_new = \<lparr>is_encoding = INTSET_ENC_INT16, is_length = 0, is_contents = []\<rparr>"

text \<open>The parameter \<open>enc\<close> and the local \<open>curenc\<close> below are \<open>uint8_t\<close>: the encoding of the header is cut to 8 bits.\<close>

definition int_set_get_encoded :: "int_set \<Rightarrow> int \<Rightarrow> byte \<Rightarrow> int option" where
  "int_set_get_encoded is pos enc =
     (if pos < 0 then None
      else if ucast enc = INTSET_ENC_INT64 then load_le 8 (is_contents is) (nat pos)
      else if ucast enc = INTSET_ENC_INT32 then load_le 4 (is_contents is) (nat pos)
      else load_le 2 (is_contents is) (nat pos))"

definition int_set_value_encoding :: "int \<Rightarrow> u32" where
  "int_set_value_encoding v =
     (if v < - 2147483648 \<or> v > 2147483647 then INTSET_ENC_INT64
      else if v < - 32768 \<or> v > 32767 then INTSET_ENC_INT32
      else INTSET_ENC_INT16)"

definition int_set_resize :: "(nat \<Rightarrow> byte) \<Rightarrow> int_set \<Rightarrow> u32 \<Rightarrow> int_set option" where
  "int_set_resize junk is len =
     (let size = (ucast len * ucast (is_encoding is) :: u64) in
      if size \<le> - 1 - 8
      then Some (is\<lparr>is_contents := realloc junk (is_contents is) (unat size)\<rparr>)
      else None)"

definition int_set_set :: "int_set \<Rightarrow> int \<Rightarrow> int \<Rightarrow> int_set option" where
  "int_set_set is pos v =
     (if pos < 0 then None
      else map_option (\<lambda>c. is\<lparr>is_contents := c\<rparr>)
        (if is_encoding is = INTSET_ENC_INT64 then store_le 8 (is_contents is) (nat pos) v
         else if is_encoding is = INTSET_ENC_INT32 then store_le 4 (is_contents is) (nat pos) v
         else store_le 2 (is_contents is) (nat pos) v))"

text \<open>The loop \<open>while(length--)\<close>, which moves the elements back to front.\<close>

fun int_set_upgrade_loop :: "int_set \<Rightarrow> byte \<Rightarrow> int \<Rightarrow> nat \<Rightarrow> int_set option" where
  "int_set_upgrade_loop is curenc prepend 0 = Some is"
| "int_set_upgrade_loop is curenc prepend (Suc len) =
     do {
       v \<leftarrow> int_set_get_encoded is (int len) curenc;
       is \<leftarrow> int_set_set is (int len + prepend) v;
       int_set_upgrade_loop is curenc prepend len
     }"

definition int_set_upgrade_and_add :: "(nat \<Rightarrow> byte) \<Rightarrow> int_set \<Rightarrow> int \<Rightarrow> int_set option" where
  "int_set_upgrade_and_add junk is v =
     (let curenc = ucast (is_encoding is);
          newenc = int_set_value_encoding v;
          length = sint (is_length is);
          prepend = (if v < 0 then 1 else 0)
      in do {
        is \<leftarrow> int_set_resize junk (is\<lparr>is_encoding := newenc\<rparr>) (is_length is + 1);
        is \<leftarrow> (if length < 0 then None else int_set_upgrade_loop is curenc prepend (nat length));
        is \<leftarrow> (if prepend \<noteq> 0 then int_set_set is 0 v
               else int_set_set is (sint (is_length is)) v);
        Some (is\<lparr>is_length := is_length is + 1\<rparr>)
      })"

definition int_set_get_pos :: "int_set \<Rightarrow> int \<Rightarrow> int option" where
  "int_set_get_pos is pos = int_set_get_encoded is pos (ucast (is_encoding is))"

definition int_set_move_tail :: "int_set \<Rightarrow> u32 \<Rightarrow> u32 \<Rightarrow> int_set option" where
  "int_set_move_tail is from to =
     (let bytes = is_length is - from;
          size = (if is_encoding is = INTSET_ENC_INT64 then 8
                  else if is_encoding is = INTSET_ENC_INT32 then 4 else 2 :: nat);
          bytes = bytes * of_nat size
      in map_option (\<lambda>c. is\<lparr>is_contents := c\<rparr>)
           (mem_move (is_contents is) (unat to * size) (unat from * size) (unat bytes)))"

text \<open>The binary search. \<open>mid\<close> is computed in \<open>unsigned int\<close> and converted back to \<open>int\<close>; the
  loop returns \<open>(min, mid, cur)\<close>; \<open>lo\<close> and \<open>hi\<close> are \<open>min\<close> and \<open>max\<close> of the source.\<close>

definition int_set_mid :: "int \<Rightarrow> int \<Rightarrow> int" where
  "int_set_mid lo hi = sint (drop_bit 1 (word_of_int lo + word_of_int hi :: u32))"

partial_function (option) int_set_search_loop ::
  "int_set \<Rightarrow> int \<Rightarrow> int \<Rightarrow> int \<Rightarrow> int \<Rightarrow> int \<Rightarrow> (int \<times> int \<times> int) option"
where
  [code]: "int_set_search_loop is v lo hi mid cur =
     (if hi \<ge> lo
      then let mid = int_set_mid lo hi in
        Option.bind (int_set_get_pos is mid) (\<lambda>cur.
          if v > cur then int_set_search_loop is v (mid + 1) hi mid cur
          else if v < cur then int_set_search_loop is v lo (mid - 1) mid cur
          else Some (lo, mid, cur))
      else Some (lo, mid, cur))"

definition int_set_search :: "int_set \<Rightarrow> int \<Rightarrow> (bool \<times> u32) option" where
  "int_set_search is v =
     (let hi = sint (is_length is - 1) in
      if is_length is = 0 then Some (False, 0)
      else do {
        last \<leftarrow> int_set_get_pos is hi;
        if v > last then Some (False, is_length is)
        else do {
          first \<leftarrow> int_set_get_pos is 0;
          if v < first then Some (False, 0)
          else do {
            (lo, mid, cur) \<leftarrow> int_set_search_loop is v 0 hi (- 1) (- 1);
            if v = cur then Some (True, word_of_int mid) else Some (False, word_of_int lo)
          }
        }
      })"

definition int_set_add :: "(nat \<Rightarrow> byte) \<Rightarrow> int_set \<Rightarrow> int \<Rightarrow> (int_set \<times> bool) option" where
  "int_set_add junk is v =
     (if int_set_value_encoding v > is_encoding is
      then map_option (\<lambda>is. (is, True)) (int_set_upgrade_and_add junk is v)
      else do {
        (found, pos) \<leftarrow> int_set_search is v;
        if found then Some (is, False)
        else do {
          is \<leftarrow> int_set_resize junk is (is_length is + 1);
          is \<leftarrow> (if pos < is_length is then int_set_move_tail is pos (pos + 1) else Some is);
          is \<leftarrow> int_set_set is (sint pos) v;
          Some (is\<lparr>is_length := is_length is + 1\<rparr>, True)
        }
      })"

definition int_set_remove :: "(nat \<Rightarrow> byte) \<Rightarrow> int_set \<Rightarrow> int \<Rightarrow> (int_set \<times> bool) option" where
  "int_set_remove junk is v =
     (if int_set_value_encoding v \<le> is_encoding is
      then do {
        (found, pos) \<leftarrow> int_set_search is v;
        if found
        then (let len = is_length is in do {
          is \<leftarrow> (if pos < len - 1 then int_set_move_tail is (pos + 1) pos else Some is);
          is \<leftarrow> int_set_resize junk is (len - 1);
          Some (is\<lparr>is_length := len - 1\<rparr>, True)
        })
        else Some (is, False)
      }
      else Some (is, False))"

definition int_set_find :: "int_set \<Rightarrow> int \<Rightarrow> bool option" where
  "int_set_find is v =
     (if int_set_value_encoding v \<le> is_encoding is
      then map_option fst (int_set_search is v) else Some False)"

text \<open>\<open>rand()\<close> is the parameter \<open>rnd\<close>.\<close>

definition int_set_random :: "nat \<Rightarrow> int_set \<Rightarrow> int option" where
  "int_set_random rnd is =
     (if is_length is = 0 then None
      else int_set_get_pos is (sint (of_nat (rnd mod unat (is_length is)) :: u32)))"

text \<open>The out parameter is \<open>Some _\<close> exactly when the function returns 1.\<close>

definition int_set_get :: "int_set \<Rightarrow> u32 \<Rightarrow> int option option" where
  "int_set_get is pos =
     (if pos < is_length is then map_option Some (int_set_get_pos is (sint pos)) else Some None)"

definition int_set_len :: "int_set \<Rightarrow> u32" where
  "int_set_len is = is_length is"

definition int_set_blob_len :: "int_set \<Rightarrow> u64" where
  "int_set_blob_len is = 8 + ucast (is_length is) * ucast (is_encoding is)"

text \<open>The order check of \<open>int_set_validate_integrity\<close>, from index \<open>i\<close> up to \<open>count\<close>.\<close>

fun int_set_validate_loop :: "int_set \<Rightarrow> nat \<Rightarrow> int \<Rightarrow> nat \<Rightarrow> bool option" where
  "int_set_validate_loop is i prev 0 = Some True"
| "int_set_validate_loop is i prev (Suc n) =
     do {
       cur \<leftarrow> int_set_get_pos is (sint (of_nat i :: u32));
       if cur \<le> prev then Some False else int_set_validate_loop is (Suc i) cur n
     }"

text \<open>The header of the blob is read through the structure type, in host order.\<close>

definition int_set_of_blob :: "byte list \<Rightarrow> int_set option" where
  "int_set_of_blob p =
     do {
       e \<leftarrow> mem_read p 0 4;
       l \<leftarrow> mem_read p 4 4;
       Some \<lparr>is_encoding = of_nat (le_val e), is_length = of_nat (le_val l), is_contents = drop 8 p\<rparr>
     }"

definition int_set_validate_integrity :: "byte list \<Rightarrow> u64 \<Rightarrow> bool \<Rightarrow> bool option" where
  "int_set_validate_integrity p sz deep =
     (if sz < 8 then Some False
      else do {
        is \<leftarrow> int_set_of_blob p;
        let encoding = is_encoding is;
            count = is_length is
        in if encoding \<noteq> INTSET_ENC_INT64 \<and> encoding \<noteq> INTSET_ENC_INT32 \<and> encoding \<noteq> INTSET_ENC_INT16
           then Some False
           else if 8 + ucast count * ucast encoding \<noteq> sz then Some False
           else if count = 0 then Some False
           else if \<not> deep then Some True
           else do {
             prev \<leftarrow> int_set_get_pos is 0;
             int_set_validate_loop is 1 prev (unat count - 1)
           }
      })"

section \<open>Packed arrays\<close>

definition encode :: "nat \<Rightarrow> int list \<Rightarrow> byte list" where
  "encode w vs = concat (map (le_sbytes w) vs)"

definition decode :: "nat \<Rightarrow> nat \<Rightarrow> byte list \<Rightarrow> int list" where
  "decode w n c = map (\<lambda>i. le_sval (take w (drop (i * w) c))) [0..<n]"

lemma encode_simps [simp]:
  "encode w [] = []"
  "encode w (v # vs) = le_sbytes w v @ encode w vs"
  "encode w (vs @ us) = encode w vs @ encode w us"
  by (simp_all add: encode_def)

lemma length_encode [simp]: "length (encode w vs) = length vs * w"
  by (induction vs) simp_all

lemma length_decode [simp]: "length (decode w n c) = n"
  by (simp add: decode_def)

lemma take_encode: "take (i * w) (encode w vs) = encode w (take i vs)"
proof (induction vs arbitrary: i)
  case (Cons v vs)
  then show ?case by (cases i) simp_all
qed simp

lemma drop_encode: "drop (i * w) (encode w vs) = encode w (drop i vs)"
proof (induction vs arbitrary: i)
  case (Cons v vs)
  then show ?case by (cases i) simp_all
qed simp

lemma nth_encode: "i < length vs \<Longrightarrow> take w (drop (i * w) (encode w vs)) = le_sbytes w (vs ! i)"
  by (simp add: drop_encode flip: Cons_nth_drop_Suc)

lemma le_sbytes_le_sval: "length bs = n \<Longrightarrow> le_sbytes n (le_sval bs) = bs"
proof -
  assume n: "length bs = n"
  have b: "int (le_val bs) < 256 ^ n"
    using le_val_bound [of bs] n by (metis of_nat_less_iff of_nat_numeral of_nat_power)
  have "le_sval bs mod 256 ^ n = int (le_val bs) mod 256 ^ n"
    using n by (simp add: le_sval_def Let_def)
  also have "\<dots> = int (le_val bs)"
    using b by (intro mod_pos_pos_trivial) simp_all
  finally show ?thesis by (simp add: le_sbytes_def n le_bytes_le_val)
qed

lemma encode_decode: "length c = n * w \<Longrightarrow> encode w (decode w n c) = c"
proof (induction n arbitrary: c)
  case 0
  then show ?case by (simp add: decode_def)
next
  case (Suc n)
  have "decode w (Suc n) c = le_sval (take w c) # decode w n (drop w c)"
    by (simp add: decode_def upt_rec [of 0 "Suc n"] add.commute del: upt_Suc
        flip: map_Suc_upt)
  with Suc show ?case by (simp add: le_sbytes_le_sval)
qed

lemma decode_encode: "\<forall>v\<in>set vs. fits w v \<Longrightarrow> decode w (length vs) (encode w vs) = vs"
  by (rule nth_equalityI) (simp_all add: decode_def nth_encode le_sval_le_sbytes)

lemma fits_decode: "0 < w \<Longrightarrow> length c = n * w \<Longrightarrow> v \<in> set (decode w n c) \<Longrightarrow> fits w v"
proof -
  assume w: "0 < w" and c: "length c = n * w" and v: "v \<in> set (decode w n c)"
  then obtain i where i: "i < n" "v = le_sval (take w (drop (i * w) c))"
    by (auto simp: decode_def)
  have "Suc i * w \<le> n * w" using i by (intro mult_le_mono1) simp
  with c have "length (take w (drop (i * w) c)) = w" by simp
  with w i show ?thesis by (simp add: fits_le_sval)
qed

lemma load_le_encode: "i < length vs \<Longrightarrow> fits w (vs ! i) \<Longrightarrow> load_le w (encode w vs) i = Some (vs ! i)"
proof -
  assume i: "i < length vs" and f: "fits w (vs ! i)"
  have "Suc i * w \<le> length vs * w" using i by (intro mult_le_mono1) simp
  with i f show ?thesis
    by (simp add: load_le_def mem_read_def nth_encode le_sval_le_sbytes)
qed

lemma store_le_encode: "i < length vs \<Longrightarrow> store_le w (encode w vs) i v = Some (encode w (vs[i := v]))"
proof -
  assume i: "i < length vs"
  have "Suc i * w \<le> length vs * w" using i by (intro mult_le_mono1) simp
  moreover have "drop (i * w + w) (encode w vs) = encode w (drop (Suc i) vs)"
    using drop_encode [of "Suc i" w vs] by (simp add: add.commute)
  ultimately show ?thesis using i
    by (simp add: store_le_def mem_write_def take_encode upd_conv_take_nth_drop)
qed

lemma mem_move_encode:
  assumes "from + k \<le> length vs" "to + k \<le> length vs"
  shows "mem_move (encode w vs) (to * w) (from * w) (k * w)
    = Some (encode w (take to vs @ take k (drop from vs) @ drop (to + k) vs))"
proof -
  have "(from + k) * w \<le> length vs * w" "(to + k) * w \<le> length vs * w"
    using assms by (intro mult_le_mono1; simp)+
  then show ?thesis
    by (simp add: mem_move_Some drop_encode take_encode flip: add_mult_distrib)
qed

section \<open>The invariant\<close>

definition int_set_values :: "int_set \<Rightarrow> int list" where
  "int_set_values is = decode (unat (is_encoding is)) (unat (is_length is)) (is_contents is)"

definition int_set_ok :: "int_set \<Rightarrow> bool" where
  "int_set_ok is \<longleftrightarrow> is_encoding is \<in> {2, 4, 8}
     \<and> length (is_contents is) = unat (is_length is) * unat (is_encoding is)
     \<and> sorted_wrt (<) (int_set_values is)"

text \<open>The buffer holds \<open>vs\<close> at width \<open>w\<close>, seen as an array of records.\<close>

definition packed :: "int_set \<Rightarrow> nat \<Rightarrow> int list \<Rightarrow> bool" where
  "packed is w vs \<longleftrightarrow> w \<in> {2, 4, 8} \<and> is_encoding is = of_nat w \<and> is_contents is = encode w vs
     \<and> (\<forall>v\<in>set vs. fits w v)"

lemma packedD:
  assumes "packed is w vs"
  shows "w = 2 \<or> w = 4 \<or> w = 8" "is_encoding is = of_nat w" "is_contents is = encode w vs"
    "v \<in> set vs \<Longrightarrow> fits w v"
  using assms by (auto simp: packed_def)

lemma unat_encoding: "packed is w vs \<Longrightarrow> unat (is_encoding is) = w"
  by (auto simp: packed_def)

lemma ok_packed:
  "int_set_ok is \<Longrightarrow> packed is (unat (is_encoding is)) (int_set_values is)"
  by (auto simp: int_set_ok_def packed_def int_set_values_def encode_decode
      intro!: fits_decode)

lemma packed_values:
  "packed is w vs \<Longrightarrow> is_length is = of_nat (length vs) \<Longrightarrow> length vs < 2 ^ 32 \<Longrightarrow>
   int_set_values is = vs"
  by (simp add: int_set_values_def unat_encoding unat_of_nat_id packedD(3) decode_encode packedD(4)
      del: of_nat_unat)

lemma packed_ok:
  "packed is w vs \<Longrightarrow> is_length is = of_nat (length vs) \<Longrightarrow> length vs < 2 ^ 32 \<Longrightarrow>
   sorted_wrt (<) vs \<Longrightarrow> int_set_ok is"
  using packedD(1) [of "is" w vs]
  by (auto simp: int_set_ok_def packed_values unat_encoding unat_of_nat_id packedD(2,3))

lemma length_values [simp]: "length (int_set_values is) = unat (is_length is)"
  by (simp add: int_set_values_def)

lemma get_encoded_eq:
  "w = 2 \<or> w = 4 \<or> w = 8 \<Longrightarrow>
   int_set_get_encoded is (int i) (of_nat w) = load_le w (is_contents is) i"
  by (auto simp: int_set_get_encoded_def)

lemma set_eq:
  "w = 2 \<or> w = 4 \<or> w = 8 \<Longrightarrow> is_encoding is = of_nat w \<Longrightarrow>
   int_set_set is (int i) v = map_option (\<lambda>c. is\<lparr>is_contents := c\<rparr>) (store_le w (is_contents is) i v)"
  by (auto simp: int_set_set_def)

lemma byte_encoding: "w = 2 \<or> w = 4 \<or> w = 8 \<Longrightarrow> ucast (of_nat w :: u32) = (of_nat w :: byte)"
  by auto

lemma get_packed:
  "packed is w vs \<Longrightarrow> i < length vs \<Longrightarrow> int_set_get_pos is (int i) = Some (vs ! i)"
  by (simp add: int_set_get_pos_def packedD(2,3) byte_encoding get_encoded_eq packedD(1) load_le_encode packedD(4))

lemma set_packed:
  assumes "packed is w vs" "i < length vs" "fits w v"
  shows "\<exists>is'. int_set_set is (int i) v = Some is' \<and> packed is' w (vs[i := v])
    \<and> is_length is' = is_length is"
proof -
  have "int_set_set is (int i) v = Some (is\<lparr>is_contents := encode w (vs[i := v])\<rparr>)"
    using assms(2) by (simp add: set_eq [OF packedD(1,2) [OF assms(1)]] packedD(3) [OF assms(1)] store_le_encode)
  moreover have "packed (is\<lparr>is_contents := encode w (vs[i := v])\<rparr>) w (vs[i := v])"
    using assms by (auto simp: packed_def dest: set_update_subset_insert [THEN subsetD])
  ultimately show ?thesis by auto
qed

lemma unat_of_nat_w: "w = 2 \<or> w = 4 \<or> w = 8 \<Longrightarrow> unat (of_nat w :: u32) = w"
  by auto

lemma move_tail_packed:
  assumes p: "packed is w vs" and n: "unat (is_length is) \<le> 268435456" "from \<le> is_length is"
    and k: "k = unat (is_length is) - unat from"
    and b: "unat from + k \<le> length vs" "unat to + k \<le> length vs"
  shows "\<exists>is'. int_set_move_tail is from to = Some is' \<and> is_length is' = is_length is
    \<and> packed is' w (take (unat to) vs @ take k (drop (unat from) vs) @ drop (unat to + k) vs)"
proof -
  have w: "w = 2 \<or> w = 4 \<or> w = 8" using p by (rule packedD)
  have "unat (is_length is - from) = k"
    using n k by (simp add: unat_sub word_le_nat_alt)
  moreover have "k * w < 2 ^ 32" using n k w by auto
  ultimately have "unat ((is_length is - from) * of_nat w) = k * w"
    using unat_of_nat_w [OF w] unat_word_ariths(2) [of "is_length is - from" "of_nat w"]
    by (simp del: of_nat_unat)
  then have "int_set_move_tail is from to = map_option (\<lambda>c. is\<lparr>is_contents := c\<rparr>)
      (mem_move (is_contents is) (unat to * w) (unat from * w) (k * w))"
    using w p by (auto simp: int_set_move_tail_def Let_def packedD(2))
  moreover define us where
    "us = take (unat to) vs @ take k (drop (unat from) vs) @ drop (unat to + k) vs"
  ultimately have "int_set_move_tail is from to = Some (is\<lparr>is_contents := encode w us\<rparr>)"
    using b by (simp add: packedD(3) [OF p] mem_move_encode)
  moreover have "set us \<subseteq> set vs"
    by (auto simp: us_def dest: in_set_takeD in_set_dropD)
  then have "packed (is\<lparr>is_contents := encode w us\<rparr>) w us"
    using p unfolding packed_def by auto
  ultimately show ?thesis by (simp add: us_def)
qed

lemma resize_eq:
  assumes w: "w = 2 \<or> w = 4 \<or> w = 8" and e: "is_encoding is = of_nat w"
  shows "int_set_resize junk is n
    = Some (is\<lparr>is_contents := realloc junk (is_contents is) (unat n * w)\<rparr>)"
proof -
  have b: "unat n * w < 2 ^ 36" using w unat_less_32 [of n] by auto
  have sz: "unat (ucast n * ucast (is_encoding is) :: u64) = unat n * w"
    using b e by (simp add: unat_word_ariths unat_ucast_up unat_of_nat_w [OF w])
  have "ucast n * ucast (is_encoding is) \<le> (- 1 - 8 :: u64)"
    using b by (simp add: word_le_nat_alt sz)
  then show ?thesis by (simp add: int_set_resize_def Let_def sz)
qed

lemma resize_packed_grow:
  assumes p: "packed is w vs" and n: "unat n = Suc (length vs)"
  shows "\<exists>is' j. int_set_resize junk is n = Some is' \<and> packed is' w (vs @ [j])
    \<and> is_length is' = is_length is"
proof -
  have w: "w = 2 \<or> w = 4 \<or> w = 8" using p by (rule packedD)
  define c where "c = realloc junk (encode w vs) (unat n * w)"
  define j where "j = le_sval (drop (length vs * w) c)"
  have lc: "length c = Suc (length vs) * w" by (simp add: c_def n)
  have "take (length vs * w) c = encode w vs"
    unfolding c_def by (subst take_realloc) (simp_all add: n)
  then have "c = encode w vs @ drop (length vs * w) c"
    by (metis append_take_drop_id)
  also have "drop (length vs * w) c = le_sbytes w j"
    using lc by (simp add: j_def le_sbytes_le_sval)
  finally have "c = encode w (vs @ [j])" by simp
  moreover have "fits w j" unfolding j_def by (rule fits_le_sval) (use w lc in auto)
  ultimately have "packed (is\<lparr>is_contents := c\<rparr>) w (vs @ [j])"
    using p by (auto simp: packed_def)
  then show ?thesis
    using resize_eq [OF w packedD(2) [OF p], of junk n] by (auto simp: packedD(3) [OF p] c_def)
qed

lemma resize_packed_shrink:
  assumes p: "packed is w vs" and n: "unat n \<le> length vs"
  shows "\<exists>is'. int_set_resize junk is n = Some is' \<and> packed is' w (take (unat n) vs)
    \<and> is_length is' = is_length is"
proof -
  have "realloc junk (encode w vs) (unat n * w) = encode w (take (unat n) vs)"
    using n by (simp add: realloc_shrink take_encode)
  with resize_eq [OF packedD(1,2) [OF p], of junk n] p show ?thesis
    by (auto simp: packed_def dest: in_set_takeD)
qed

section \<open>The search\<close>

lemma sint_u32: "unat (v :: u32) < 2147483648 \<Longrightarrow> sint v = int (unat v)"
  by (simp add: sint_uint signed_take_bit_int_eq_self uint_nat del: of_nat_unat)

lemma int_set_mid_eq:
  assumes "0 \<le> lo" "lo \<le> hi" "hi < 2147483648"
  shows "int_set_mid lo hi = (lo + hi) div 2"
proof -
  define x where "x = (word_of_int lo + word_of_int hi :: u32)"
  have "x = word_of_int (lo + hi)" by (simp add: x_def)
  then have x: "unat x = nat (lo + hi)"
    using assms unat_of_int_id [of "lo + hi", where ?'a = 32] by simp
  have u: "unat (drop_bit 1 x) = nat (lo + hi) div 2"
    by (simp add: drop_bit_eq_div unat_div x)
  have "nat (lo + hi) div 2 < 2147483648" using assms by linarith
  then have "sint (drop_bit 1 x) = int (nat (lo + hi) div 2)"
    using sint_u32 [of "drop_bit 1 x"] u by (simp only:)
  then show ?thesis using assms by (simp add: int_set_mid_def x_def zdiv_int)
qed

text \<open>The loop ends, reads only inside the array and leaves the insertion point in \<open>lo\<close>.\<close>

lemma search_loop_correct:
  assumes "packed is w vs" "sorted_wrt (<) vs" "length vs \<le> 2147483648"
    and "0 \<le> lo" "lo \<le> hi + 1" "hi < int (length vs)"
    and "\<forall>i < nat lo. vs ! i < v" "\<forall>i < length vs. hi < int i \<longrightarrow> v < vs ! i"
    and "lo \<le> hi \<or> cur \<noteq> v"
  shows "\<exists>lo' mid' cur'. int_set_search_loop is v lo hi mid cur = Some (lo', mid', cur')
    \<and> 0 \<le> lo' \<and> lo' \<le> int (length vs)
    \<and> (cur' = v \<longrightarrow> 0 \<le> mid' \<and> mid' < int (length vs) \<and> vs ! nat mid' = v)
    \<and> (cur' \<noteq> v \<longrightarrow> v \<notin> set vs \<and> (\<forall>i < nat lo'. vs ! i < v)
         \<and> (\<forall>i < length vs. nat lo' \<le> i \<longrightarrow> v < vs ! i))"
  using assms
proof (induction "nat (hi - lo + 1)" arbitrary: lo hi mid cur rule: less_induct)
  case less
  show ?case
  proof (cases "lo \<le> hi")
    case False
    with less.prems have eq: "hi = lo - 1" by simp
    have "v \<notin> set vs"
    proof
      assume "v \<in> set vs"
      then obtain i where i: "i < length vs" "vs ! i = v" by (auto simp: in_set_conv_nth)
      show False
      proof (cases "int i < lo")
        case True
        then have "i < nat lo" by simp
        with less.prems(7) i show False by auto
      next
        case False
        with less.prems(8) eq i show False by auto
      qed
    qed
    with False less.prems eq show ?thesis
      by (subst int_set_search_loop.simps) auto
  next
    case True
    define m where "m = nat ((lo + hi) div 2)"
    have m: "int_set_mid lo hi = int m" "lo \<le> int m" "int m \<le> hi"
      using less.prems True int_set_mid_eq [of lo hi] by (auto simp: m_def)
    then have ml: "m < length vs" using less.prems by simp
    have g: "int_set_get_pos is (int m) = Some (vs ! m)"
      using less.prems(1) ml by (rule get_packed)
    note step = int_set_search_loop.simps [of "is" v lo hi mid cur]
    have mono: "i < j \<Longrightarrow> j < length vs \<Longrightarrow> vs ! i < vs ! j" for i j
      using less.prems(2) by (simp add: sorted_wrt_iff_nth_less)
    consider "v > vs ! m" | "v < vs ! m" | "v = vs ! m" by linarith
    then show ?thesis
    proof cases
      case 1
      have "\<forall>i < nat (int m + 1). vs ! i < v"
        using 1 mono ml by (metis (no_types, lifting) Suc_as_int less_Suc_eq less_trans nat_int)
      moreover have "int_set_search_loop is v lo hi mid cur
          = int_set_search_loop is v (int m + 1) hi (int m) (vs ! m)"
        using 1 True m g by (simp add: step Let_def)
      ultimately show ?thesis
        using True m less.prems not_sym [OF less_imp_neq [OF 1]] by (auto intro!: less.hyps)
    next
      case 2
      have "\<forall>i < length vs. int m - 1 < int i \<longrightarrow> v < vs ! i"
        using 2 mono by (metis less_trans linorder_neqE_nat of_nat_less_iff zle_diff1_eq
            linorder_not_less)
      moreover have "int_set_search_loop is v lo hi mid cur
          = int_set_search_loop is v lo (int m - 1) (int m) (vs ! m)"
        using 2 True m g by (simp add: step Let_def)
      ultimately show ?thesis
        using True m less.prems less_imp_neq [OF 2] by (auto intro!: less.hyps)
    next
      case 3
      have "int_set_search_loop is v lo hi mid cur = Some (lo, int m, v)"
        unfolding step using 3 True m g by (simp add: Let_def)
      with 3 m ml less.prems show ?thesis by auto
    qed
  qed
qed

definition partition_at :: "int list \<Rightarrow> int \<Rightarrow> nat \<Rightarrow> bool" where
  "partition_at vs v k \<longleftrightarrow> k \<le> length vs \<and> (\<forall>i < k. vs ! i < v) \<and> (\<forall>i < length vs. k \<le> i \<longrightarrow> v < vs ! i)"

lemma search_correct:
  assumes p: "packed is w vs" and s: "sorted_wrt (<) vs"
    and n: "is_length is = of_nat (length vs)" "length vs \<le> 268435456"
  shows "\<exists>pos. int_set_search is v = Some (v \<in> set vs, pos)
    \<and> (v \<in> set vs \<longrightarrow> unat pos < length vs \<and> vs ! unat pos = v)
    \<and> (v \<notin> set vs \<longrightarrow> partition_at vs v (unat pos))"
proof (cases "vs = []")
  case True
  then show ?thesis using n by (simp add: int_set_search_def Let_def partition_at_def)
next
  case False
  have un: "unat (is_length is) = length vs" using n by (simp add: unat_of_nat_id)
  have l0: "is_length is \<noteq> 0" using un False by auto
  have "unat (is_length is - 1) = length vs - 1"
    using un False by (subst unat_sub) (simp_all add: word_le_nat_alt Suc_le_eq)
  then have mx: "sint (is_length is - 1) = int (length vs - 1)"
    using n by (simp add: sint_u32 del: of_nat_unat of_nat_diff)
  have g: "int_set_get_pos is (int (length vs - 1)) = Some (last vs)"
    "int_set_get_pos is 0 = Some (hd vs)"
    using get_packed [OF p, of "length vs - 1"] get_packed [OF p, of 0] False
    by (simp_all add: last_conv_nth hd_conv_nth)
  have mono: "i < j \<Longrightarrow> j < length vs \<Longrightarrow> vs ! i < vs ! j" for i j
    using s by (simp add: sorted_wrt_iff_nth_less)
  have last: "vs ! i \<le> last vs" if "i < length vs" for i
  proof (cases "i = length vs - 1")
    case False
    with that have "i < length vs - 1" by linarith
    with mono [of i "length vs - 1"] that \<open>vs \<noteq> []\<close> show ?thesis by (simp add: last_conv_nth)
  qed (use \<open>vs \<noteq> []\<close> in \<open>simp add: last_conv_nth\<close>)
  have first: "hd vs \<le> vs ! i" if "i < length vs" for i
    using mono [of 0 i] that False by (cases "i = 0") (auto simp: hd_conv_nth)
  consider "v > last vs" | "v < hd vs" "v \<le> last vs" | "hd vs \<le> v" "v \<le> last vs" by linarith
  then show ?thesis
  proof cases
    case 1
    then have "\<forall>i<length vs. vs ! i < v" using last by fastforce
    then have "v \<notin> set vs" "partition_at vs v (length vs)"
      by (auto simp: in_set_conv_nth partition_at_def)
    then show ?thesis using 1 l0 mx g un by (simp add: int_set_search_def Let_def)
  next
    case 2
    then have "\<forall>i<length vs. v < vs ! i" using first by fastforce
    then have "v \<notin> set vs" "partition_at vs v 0"
      by (auto simp: in_set_conv_nth partition_at_def)
    then show ?thesis using 2 l0 mx g un by (simp add: int_set_search_def Let_def)
  next
    case 3
    from search_loop_correct [OF p s, of 0 "int (length vs - 1)" v "- 1" "- 1"] False n
    obtain lo mid cur where
      r: "int_set_search_loop is v 0 (int (length vs - 1)) (- 1) (- 1) = Some (lo, mid, cur)"
      "0 \<le> lo" "lo \<le> int (length vs)"
      "cur = v \<Longrightarrow> 0 \<le> mid \<and> mid < int (length vs) \<and> vs ! nat mid = v"
      "cur \<noteq> v \<Longrightarrow> v \<notin> set vs \<and> partition_at vs v (nat lo)"
      by (auto simp: partition_at_def)
    have eq: "int_set_search is v =
        (if v = cur then Some (True, word_of_int mid) else Some (False, word_of_int lo))"
      using 3 l0 mx g r(1) by (simp add: int_set_search_def Let_def)
    show ?thesis
    proof (cases "v = cur")
      case True
      with r(4) n have "unat (word_of_int mid :: u32) = nat mid"
        by (intro unat_of_int_id) auto
      with True r(4) eq show ?thesis using nth_mem [of "nat mid" vs] by auto
    next
      case False
      with r n have "unat (word_of_int lo :: u32) = nat lo"
        by (intro unat_of_int_id) auto
      with False r(5) eq show ?thesis by auto
    qed
  qed
qed

lemma partition_insert:
  assumes "partition_at vs v k" "sorted_wrt (<) vs"
  shows "sorted_wrt (<) (take k vs @ v # drop k vs)" "set (take k vs @ v # drop k vs) = insert v (set vs)"
proof -
  have t: "\<forall>x\<in>set (take k vs). x < v" and d: "\<forall>x\<in>set (drop k vs). v < x"
    using assms(1) by (auto simp: partition_at_def in_set_conv_nth)
  have "sorted_wrt (<) (take k vs @ drop k vs)" using assms(2) by simp
  with t d show "sorted_wrt (<) (take k vs @ v # drop k vs)"
    by (auto simp: sorted_wrt_append simp del: append_take_drop_id)
  have "set vs = set (take k vs @ drop k vs)" by simp
  then show "set (take k vs @ v # drop k vs) = insert v (set vs)" by (auto simp del: append_take_drop_id)
qed

lemma sorted_delete:
  assumes "sorted_wrt (<) vs" "k < length vs"
  shows "sorted_wrt (<) (take k vs @ drop (Suc k) vs)"
    "set (take k vs @ drop (Suc k) vs) = set vs - {vs ! k :: int}"
proof -
  have vs: "vs = take k vs @ vs ! k # drop (Suc k) vs" using assms(2) by (rule id_take_nth_drop)
  with assms(1) have s: "sorted_wrt (<) (take k vs @ vs ! k # drop (Suc k) vs)" by simp
  then show "sorted_wrt (<) (take k vs @ drop (Suc k) vs)" by (auto simp: sorted_wrt_append)
  from s have "vs ! k \<notin> set (take k vs @ drop (Suc k) vs)" by (auto simp: sorted_wrt_append)
  moreover have "set vs = insert (vs ! k) (set (take k vs @ drop (Suc k) vs))"
    by (subst vs) (simp del: append_take_drop_id)
  ultimately show "set (take k vs @ drop (Suc k) vs) = set vs - {vs ! k}" by simp
qed

lemma value_encoding_le:
  "in_int64 v \<Longrightarrow> w = 2 \<or> w = 4 \<or> w = 8 \<Longrightarrow> int_set_value_encoding v \<le> of_nat w \<longleftrightarrow> fits w v"
  by (auto simp: int_set_value_encoding_def in_int64_def)

lemma value_encoding_fits:
  "in_int64 v \<Longrightarrow> int_set_value_encoding v \<in> {2, 4, 8} \<and> fits (unat (int_set_value_encoding v)) v"
  by (auto simp: int_set_value_encoding_def in_int64_def)

section \<open>The upgrade in place\<close>

text \<open>While the loop runs, the front of the buffer still holds elements of the old width \<open>cw\<close> and
  the back already holds elements of the new width \<open>nw\<close>; no write reaches an unread element.\<close>

lemma upgrade_loop_correct:
  assumes "cw = 2 \<or> cw = 4 \<or> cw = 8" "nw = 2 \<or> nw = 4 \<or> nw = 8" "cw \<le> nw"
    and "k \<le> length vs" "\<forall>v\<in>set vs. fits cw v"
    and "is_encoding is = of_nat nw"
    and "take (k * cw) (is_contents is) = encode cw (take k vs)"
    and "(k + p) * nw \<le> length (is_contents is)"
  shows "\<exists>c. int_set_upgrade_loop is (of_nat cw) (int p) k = Some (is\<lparr>is_contents := c\<rparr>)
    \<and> length c = length (is_contents is)
    \<and> drop (p * nw) c = encode nw (take k vs) @ drop ((k + p) * nw) (is_contents is)"
  using assms
proof (induction k arbitrary: "is")
  case 0
  then show ?case by (auto intro!: exI [of _ "is_contents is"])
next
  case (Suc k)
  let ?B = "is_contents is"
  have kw: "k * cw \<le> k * nw" "Suc k * cw \<le> Suc k * nw" using Suc.prems(3) by (rule mult_le_mono2)+
  have lt: "k < length vs" using Suc.prems by simp
  have lenB: "Suc k * cw \<le> length ?B" "k * nw + p * nw + nw \<le> length ?B"
    using Suc.prems(8) kw by (auto simp: algebra_simps)
  have "take cw (drop (k * cw) ?B) = drop (k * cw) (take (Suc k * cw) ?B)"
    by (simp add: drop_take)
  also have "\<dots> = le_sbytes cw (vs ! k)"
    using Suc.prems(7) lt by (simp add: drop_encode take_Suc_conv_app_nth)
  finally have rd: "take cw (drop (k * cw) ?B) = le_sbytes cw (vs ! k)" .
  have fit: "fits cw (vs ! k)" using Suc.prems(5) lt by simp
  then have load: "int_set_get_encoded is (int k) (of_nat cw) = Some (vs ! k)"
    using lenB rd
    by (simp add: get_encoded_eq [OF Suc.prems(1)] load_le_def mem_read_def le_sval_le_sbytes add.commute)
  define c where "c = take ((k + p) * nw) ?B @ le_sbytes nw (vs ! k) @ drop ((k + p) * nw + nw) ?B"
  have lc: "length c = length ?B" using lenB by (simp add: c_def algebra_simps)
  have store: "int_set_set is (int k + int p) (vs ! k) = Some (is\<lparr>is_contents := c\<rparr>)"
    using lenB set_eq [OF Suc.prems(2,6), of "k + p" "vs ! k"]
    by (simp add: store_le_def mem_write_def c_def algebra_simps)
  have "k * cw \<le> (k + p) * nw" "(k + p) * nw \<le> length ?B"
    using lenB kw(1) by (simp_all only: add_mult_distrib)
  then have "take (k * cw) c = take (k * cw) ?B"
    by (simp add: c_def min_absorb1)
  also have "\<dots> = take (k * cw) (take (Suc k * cw) ?B)" by simp
  also have "\<dots> = encode cw (take k vs)"
    using Suc.prems(7) lt by (simp add: take_encode)
  finally have front: "take (k * cw) c = encode cw (take k vs)" .
  have rear: "drop ((k + p) * nw) c = le_sbytes nw (vs ! k) @ drop (Suc (k + p) * nw) ?B"
    using lenB by (simp add: c_def algebra_simps)
  from Suc.IH [of "is\<lparr>is_contents := c\<rparr>"] Suc.prems front lc lenB
  obtain d where d: "int_set_upgrade_loop (is\<lparr>is_contents := c\<rparr>) (of_nat cw) (int p) k
      = Some (is\<lparr>is_contents := d\<rparr>)" "length d = length ?B"
    "drop (p * nw) d = encode nw (take k vs) @ drop ((k + p) * nw) c"
    by (auto simp: algebra_simps)
  have "int_set_upgrade_loop is (of_nat cw) (int p) (Suc k) = Some (is\<lparr>is_contents := d\<rparr>)"
    using load store d(1) by simp
  moreover have "drop (p * nw) d = encode nw (take (Suc k) vs) @ drop ((Suc k + p) * nw) ?B"
    using d(3) rear lt by (simp add: take_Suc_conv_app_nth)
  ultimately show ?case using d(2) by blast
qed

lemma upgrade_correct:
  assumes p: "packed is w vs" and s: "sorted_wrt (<) vs"
    and n: "is_length is = of_nat (length vs)" "length vs < 268435456"
    and v: "in_int64 v" "\<not> fits w v"
  shows "\<exists>is' nw vs'. int_set_upgrade_and_add junk is v = Some is' \<and> packed is' nw vs'
    \<and> sorted_wrt (<) vs' \<and> set vs' = insert v (set vs) \<and> length vs' = Suc (length vs)
    \<and> is_length is' = of_nat (length vs') \<and> v \<notin> set vs"
proof -
  define nw where "nw = unat (int_set_value_encoding v)"
  define q :: nat where "q = (if v < 0 then 1 else 0)"
  have w: "w = 2 \<or> w = 4 \<or> w = 8" using p by (rule packedD)
  have fit: "fits w x" if "x \<in> set vs" for x using p that by (rule packedD)
  have nw: "nw = 2 \<or> nw = 4 \<or> nw = 8" "int_set_value_encoding v = of_nat nw" "fits nw v"
    using value_encoding_fits [OF v(1)] by (auto simp: nw_def)
  have "w \<le> nw" using value_encoding_le [OF v(1) w] v(2) nw w by (auto simp del: fits_iff)
  then have wn: "w \<le> nw" "fits nw x" if "x \<in> set vs" for x
    using fit that w nw by (force simp: fits_def)+
  have un: "unat (is_length is) = length vs" using n by (simp add: unat_of_nat_id)
  then have un1: "unat (is_length is + 1) = Suc (length vs)"
    using n by (simp add: unat_word_ariths)
  have sl: "sint (is_length is) = int (length vs)" using n un by (simp add: sint_u32 del: of_nat_unat)
  define c0 where "c0 = realloc junk (is_contents is) (Suc (length vs) * nw)"
  define is0 where "is0 = is\<lparr>is_encoding := of_nat nw, is_contents := c0\<rparr>"
  have lc0: "length c0 = Suc (length vs) * nw" by (simp add: c0_def)
  have r: "int_set_resize junk (is\<lparr>is_encoding := of_nat nw\<rparr>) (is_length is + 1) = Some is0"
    using resize_eq [OF nw(1), of "is\<lparr>is_encoding := of_nat nw\<rparr>" junk "is_length is + 1"]
    by (simp add: un1 is0_def c0_def)
  have le: "length vs * w \<le> Suc (length vs) * nw"
    using \<open>w \<le> nw\<close> by (intro mult_le_mono) simp_all
  then have "take (length vs * w) c0 = encode w vs"
    by (simp add: c0_def take_realloc packedD(3) [OF p])
  moreover have "(length vs + q) * nw \<le> length c0" 
    unfolding lc0 by (intro mult_le_mono1) (simp add: q_def)
  ultimately obtain c where c: "int_set_upgrade_loop is0 (of_nat w) (int q) (length vs)
      = Some (is0\<lparr>is_contents := c\<rparr>)" "length c = length c0"
    "drop (q * nw) c = encode nw vs @ drop ((length vs + q) * nw) c0"
    using upgrade_loop_correct [OF w nw(1) \<open>w \<le> nw\<close>, of "length vs" vs is0 q] fit
    by (auto simp: is0_def)
  define us where "us = (if v < 0 then v # vs else vs @ [v])"
  have us: "packed (is0\<lparr>is_contents := encode nw us\<rparr>) nw us"
    using nw \<open>\<And>x. x \<in> set vs \<Longrightarrow> fits nw x\<close>
    by (auto simp: packed_def is0_def us_def simp del: fits_iff)
  have "int_set_set (is0\<lparr>is_contents := c\<rparr>) (if v < 0 then 0 else int (length vs)) v
      = Some (is0\<lparr>is_contents := encode nw us\<rparr>)"
  proof (cases "v < 0")
    case True
    then have "drop nw c = encode nw vs" using c(3) lc0 by (simp add: q_def)
    with True set_eq [OF nw(1), of "is0\<lparr>is_contents := c\<rparr>" 0 v] lc0 c(2) show ?thesis
      by (simp add: is0_def us_def store_le_def mem_write_def)
  next
    case False
    then have "c = encode nw vs @ drop (length vs * nw) c0" using c(3) by (simp add: q_def)
    with False set_eq [OF nw(1), of "is0\<lparr>is_contents := c\<rparr>" "length vs" v] lc0 show ?thesis
      by (simp add: is0_def us_def store_le_def mem_write_def)
  qed
  with r c sl un have "int_set_upgrade_and_add junk is v
      = Some (is0\<lparr>is_contents := encode nw us, is_length := is_length is + 1\<rparr>)"
    by (cases "v < 0")
      (simp_all add: int_set_upgrade_and_add_def Let_def nw(2) packedD(2) [OF p] byte_encoding [OF packedD(1) [OF p]] q_def is0_def)
  moreover have "\<forall>x\<in>set vs. if v < 0 then v < x else x < v"
    using v(2) fit by (fastforce simp: fits_def)
  then have "sorted_wrt (<) us" "v \<notin> set vs"
    using s by (auto simp: us_def sorted_wrt_append)
  moreover have "packed (is0\<lparr>is_contents := encode nw us, is_length := is_length is + 1\<rparr>) nw us"
    using us by (simp add: packed_def)
  moreover have "set us = insert v (set vs)" "length us = Suc (length vs)"
    by (auto simp: us_def)
  ultimately show ?thesis
    by (intro exI conjI) (assumption | simp add: n)+
qed

section \<open>Insertion, removal and membership\<close>

lemma fits_decide: "packed is w vs \<Longrightarrow> in_int64 v \<Longrightarrow> int_set_value_encoding v \<le> is_encoding is \<longleftrightarrow> fits w v"
  using value_encoding_le packedD(1,2) by metis

lemma make_room:
  assumes p: "packed is w (vs @ [j])" and n: "unat (is_length is) = length vs" "length vs < 268435456"
    and pos: "unat pos \<le> length vs"
  shows "\<exists>is' x. (if pos < is_length is then int_set_move_tail is pos (pos + 1) else Some is)
      = Some is' \<and> packed is' w (take (unat pos) vs @ x # drop (unat pos) vs)
      \<and> is_length is' = is_length is"
proof (cases "unat pos < length vs")
  case True
  then have p1: "unat (pos + 1) = Suc (unat pos)" using n by (simp add: unat_word_ariths)
  have "\<exists>is'. int_set_move_tail is pos (pos + 1) = Some is' \<and> is_length is' = is_length is
    \<and> packed is' w (take (unat (pos + 1)) (vs @ [j])
       @ take (length vs - unat pos) (drop (unat pos) (vs @ [j]))
       @ drop (unat (pos + 1) + (length vs - unat pos)) (vs @ [j]))"
    by (rule move_tail_packed [OF p]) (use True n p1 in \<open>simp_all add: word_le_nat_alt\<close>)
  with True n p1 show ?thesis
    by (auto simp: word_less_nat_alt take_Suc_conv_app_nth)
next
  case False
  with p n pos show ?thesis by (auto simp: word_less_nat_alt)
qed

lemma close_gap:
  assumes p: "packed is w vs" and n: "unat (is_length is) = length vs" "length vs \<le> 268435456"
    and pos: "unat pos < length vs"
  shows "\<exists>is' x. (if pos < is_length is - 1 then int_set_move_tail is (pos + 1) pos else Some is)
      = Some is' \<and> packed is' w (take (unat pos) vs @ drop (Suc (unat pos)) vs @ [x])
      \<and> is_length is' = is_length is"
proof -
  have un1: "unat (is_length is - 1) = length vs - 1"
    using n pos by (subst unat_sub) (simp_all add: word_le_nat_alt)
  have p1: "unat (pos + 1) = Suc (unat pos)" using pos n by (simp add: unat_word_ariths)
  show ?thesis
  proof (cases "Suc (unat pos) < length vs")
    case True
    have "\<exists>is'. int_set_move_tail is (pos + 1) pos = Some is' \<and> is_length is' = is_length is
      \<and> packed is' w (take (unat pos) vs
           @ take (length vs - Suc (unat pos)) (drop (unat (pos + 1)) vs)
           @ drop (unat pos + (length vs - Suc (unat pos))) vs)"
      by (rule move_tail_packed [OF p]) (use pos n p1 in \<open>simp_all add: word_le_nat_alt\<close>)
    moreover have "drop (length vs - 1) vs = [last vs]"
      using True by (cases vs rule: rev_cases) auto
    ultimately show ?thesis using True un1 p1 by (auto simp: word_less_nat_alt)
  next
    case False
    then have "take (unat pos) vs @ drop (Suc (unat pos)) vs @ [last vs] = vs"
      using pos by (cases vs rule: rev_cases) auto
    with False pos un1 p show ?thesis
      by (intro exI [of _ "is"] exI [of _ "last vs"]) (auto simp: word_less_nat_alt)
  qed
qed

lemma add_packed:
  assumes p: "packed is w vs" and s: "sorted_wrt (<) vs"
    and n: "is_length is = of_nat (length vs)" "length vs < 268435456"
    and v: "in_int64 v"
  shows "\<exists>is' nw vs'. int_set_add junk is v = Some (is', v \<notin> set vs) \<and> packed is' nw vs'
    \<and> sorted_wrt (<) vs' \<and> set vs' = insert v (set vs) \<and> length vs' \<le> Suc (length vs)
    \<and> is_length is' = of_nat (length vs')"
proof (cases "fits w v")
  case False
  with upgrade_correct [OF p s n v False, of junk] show ?thesis
    using fits_decide [OF p v] by (fastforce simp: int_set_add_def)
next
  case True
  then have enc: "\<not> int_set_value_encoding v > is_encoding is"
    using fits_decide [OF p v] by simp
  from search_correct [OF p s n(1), of v] n(2) obtain pos where
    sr: "int_set_search is v = Some (v \<in> set vs, pos)"
    "v \<notin> set vs \<Longrightarrow> partition_at vs v (unat pos)" by auto
  show ?thesis
  proof (cases "v \<in> set vs")
    case True
    with sr enc p s n show ?thesis
      by (intro exI [of _ "is"] exI [of _ w] exI [of _ vs]) (auto simp: int_set_add_def)
  next
    case v_new: False
    have un: "unat (is_length is) = length vs" using n by (simp add: unat_of_nat_id)
    then have un1: "unat (is_length is + 1) = Suc (length vs)"
      using n by (simp add: unat_word_ariths)
    from resize_packed_grow [OF p un1, of junk] obtain is1 j where
      is1: "int_set_resize junk is (is_length is + 1) = Some is1" "packed is1 w (vs @ [j])"
      "is_length is1 = is_length is" by blast
    have pl: "unat pos \<le> length vs" using sr v_new by (simp add: partition_at_def)
    define us where "us = take (unat pos) vs @ v # drop (unat pos) vs"
    from make_room [OF is1(2), of pos] is1(3) un n pl obtain is2 x where is2:
      "(if pos < is_length is1 then int_set_move_tail is1 pos (pos + 1) else Some is1) = Some is2"
      "packed is2 w (take (unat pos) vs @ x # drop (unat pos) vs)" "is_length is2 = is_length is"
      by auto
    from set_packed [OF is2(2), of "unat pos" v] pl True obtain is3 where
      is3: "int_set_set is2 (int (unat pos)) v = Some is3" "packed is3 w us"
      "is_length is3 = is_length is"
      using is2(3) by (auto simp: us_def list_update_append min_absorb2 simp del: of_nat_unat)
    have "sint pos = int (unat pos)" using pl n by (intro sint_u32) simp
    then have "int_set_add junk is v = Some (is3\<lparr>is_length := is_length is3 + 1\<rparr>, True)"
      using enc sr v_new is1 is2 is3 by (simp add: int_set_add_def del: of_nat_unat)
    moreover have "packed (is3\<lparr>is_length := is_length is3 + 1\<rparr>) w us"
      using is3(2) by (simp add: packed_def)
    moreover have "sorted_wrt (<) us" "set us = insert v (set vs)"
      unfolding us_def using partition_insert [OF sr(2) s] v_new by simp_all
    moreover have "length us = Suc (length vs)" using pl by (simp add: us_def)
    ultimately show ?thesis using v_new
      by (intro exI [of _ "is3\<lparr>is_length := is_length is3 + 1\<rparr>"] exI [of _ w] exI [of _ us])
        (simp add: is3(3) n)
  qed
qed

lemma remove_packed:
  assumes p: "packed is w vs" and s: "sorted_wrt (<) vs"
    and n: "is_length is = of_nat (length vs)" "length vs \<le> 268435456"
    and v: "in_int64 v"
  shows "\<exists>is' vs'. int_set_remove junk is v = Some (is', v \<in> set vs) \<and> packed is' w vs'
    \<and> sorted_wrt (<) vs' \<and> set vs' = set vs - {v} \<and> length vs' \<le> length vs
    \<and> is_length is' = of_nat (length vs')"
proof (cases "fits w v \<and> v \<in> set vs")
  case False
  from search_correct [OF p s n, of v] obtain pos where
    sr: "int_set_search is v = Some (v \<in> set vs, pos)" by auto
  have "v \<notin> set vs" using False packedD(4) [OF p, of v] by auto
  with sr have "int_set_remove junk is v = Some (is, v \<in> set vs)"
    by (simp add: int_set_remove_def)
  with p s n \<open>v \<notin> set vs\<close> show ?thesis by auto
next
  case True
  then have enc: "int_set_value_encoding v \<le> is_encoding is"
    using fits_decide [OF p v] by simp
  from search_correct [OF p s n, of v] True obtain pos where
    sr: "int_set_search is v = Some (True, pos)" "unat pos < length vs" "vs ! unat pos = v" by auto
  have un: "unat (is_length is) = length vs" using n by (simp add: unat_of_nat_id)
  have un1: "unat (is_length is - 1) = length vs - 1"
    using un sr by (subst unat_sub) (simp_all add: word_le_nat_alt)
  define us where "us = take (unat pos) vs @ drop (Suc (unat pos)) vs"
  have lus: "length us = length vs - 1" using sr by (simp add: us_def)
  from close_gap [OF p, of pos] un n sr obtain is1 x where is1:
    "(if pos < is_length is - 1 then int_set_move_tail is (pos + 1) pos else Some is) = Some is1"
    "packed is1 w (us @ [x])" "is_length is1 = is_length is" by (auto simp: us_def)
  from resize_packed_shrink [OF is1(2), of "is_length is - 1" junk] un1 lus obtain is2 where
    is2: "int_set_resize junk is1 (is_length is - 1) = Some is2" "packed is2 w us" by auto
  have "int_set_remove junk is v = Some (is2\<lparr>is_length := is_length is - 1\<rparr>, True)"
    using enc sr is1 is2 by (simp add: int_set_remove_def Let_def)
  moreover have "packed (is2\<lparr>is_length := is_length is - 1\<rparr>) w us"
    using is2(2) by (simp add: packed_def)
  moreover have "sorted_wrt (<) us" "set us = set vs - {v}"
    unfolding us_def using sorted_delete [OF s sr(2)] sr(3) by simp_all
  moreover have "is_length is - 1 = of_nat (length us)"
    using lus sr(2) by (simp add: n of_nat_diff)
  ultimately show ?thesis using True lus
    by (intro exI [of _ "is2\<lparr>is_length := is_length is - 1\<rparr>"] exI [of _ us]) simp
qed

lemma find_packed:
  assumes p: "packed is w vs" and s: "sorted_wrt (<) vs"
    and n: "is_length is = of_nat (length vs)" "length vs \<le> 268435456"
    and v: "in_int64 v"
  shows "int_set_find is v = Some (v \<in> set vs)"
  using search_correct [OF p s n, of v] fits_decide [OF p v] packedD(4) [OF p, of v]
  by (auto simp: int_set_find_def)

text \<open>The same facts over the invariant.\<close>

lemma ok_unfold:
  assumes "int_set_ok is"
  shows "packed is (unat (is_encoding is)) (int_set_values is)"
    "sorted_wrt (<) (int_set_values is)" "is_length is = of_nat (length (int_set_values is))"
  using assms ok_packed [OF assms] by (auto simp: int_set_ok_def)

lemma int_set_add_ok:
  assumes "int_set_ok is" "in_int64 v" "unat (is_length is) < 268435456"
  shows "\<exists>is'. int_set_add junk is v = Some (is', v \<notin> set (int_set_values is)) \<and> int_set_ok is'
    \<and> set (int_set_values is') = insert v (set (int_set_values is))"
proof -
  from add_packed [OF ok_unfold [OF assms(1)] _ assms(2), of junk] assms(3)
  obtain is' nw vs' where r: "int_set_add junk is v = Some (is', v \<notin> set (int_set_values is))"
    "packed is' nw vs'" "sorted_wrt (<) vs'" "set vs' = insert v (set (int_set_values is))"
    "length vs' \<le> Suc (unat (is_length is))" "is_length is' = of_nat (length vs')" by auto
  then have "length vs' < 2 ^ 32" using assms(3) by simp
  with r packed_ok [OF r(2,6)] packed_values [OF r(2,6)] show ?thesis by auto
qed

lemma int_set_remove_ok:
  assumes "int_set_ok is" "in_int64 v" "unat (is_length is) \<le> 268435456"
  shows "\<exists>is'. int_set_remove junk is v = Some (is', v \<in> set (int_set_values is)) \<and> int_set_ok is'
    \<and> set (int_set_values is') = set (int_set_values is) - {v}"
proof -
  from remove_packed [OF ok_unfold [OF assms(1)] _ assms(2), of junk] assms(3)
  obtain is' vs' where r: "int_set_remove junk is v = Some (is', v \<in> set (int_set_values is))"
    "packed is' (unat (is_encoding is)) vs'" "sorted_wrt (<) vs'"
    "set vs' = set (int_set_values is) - {v}"
    "length vs' \<le> unat (is_length is)" "is_length is' = of_nat (length vs')" by auto
  then have "length vs' < 2 ^ 32" using assms(3) by simp
  with r packed_ok [OF r(2,6)] packed_values [OF r(2,6)] show ?thesis by auto
qed

lemma int_set_find_ok:
  assumes "int_set_ok is" "in_int64 v" "unat (is_length is) \<le> 268435456"
  shows "int_set_find is v = Some (v \<in> set (int_set_values is))"
  using find_packed [OF ok_unfold [OF assms(1)] _ assms(2)] assms(3) by simp

lemma card_values: "int_set_ok is \<Longrightarrow> card (set (int_set_values is)) = unat (is_length is)"
  using ok_unfold(2) [of "is"] by (simp add: strict_sorted_iff distinct_card)

interpretation int_set: set_impl int_set_ok "\<lambda>is. set (int_set_values is)" in_int64 268435456
  "int_set_add junk" "int_set_remove junk"
  "\<lambda>is v. map_option (\<lambda>b. (is, b)) (int_set_find is v)"
  for junk
  by unfold_locales
    (simp_all add: card_values int_set_add_ok int_set_remove_ok int_set_find_ok)

section \<open>Integrity of a serialised set\<close>

definition int_set_blob :: "int_set \<Rightarrow> byte list" where
  "int_set_blob is = le_bytes 4 (unat (is_encoding is)) @ le_bytes 4 (unat (is_length is)) @ is_contents is"

lemma int_set_of_blob_blob: "int_set_of_blob (int_set_blob is) = Some is"
  using unat_less_32 [of "is_encoding is"] unat_less_32 [of "is_length is"]
  by (simp add: int_set_of_blob_def int_set_blob_def mem_read_def le_val_le_bytes)

lemma int_set_blob_of_blob:
  assumes "8 \<le> length p"
  shows "\<exists>is. int_set_of_blob p = Some is \<and> p = int_set_blob is"
proof -
  have l: "length (take 4 p) = 4" "length (take 4 (drop 4 p)) = 4" using assms by simp_all
  have b: "unat (of_nat (le_val (take 4 p)) :: u32) = le_val (take 4 p)"
    "unat (of_nat (le_val (take 4 (drop 4 p))) :: u32) = le_val (take 4 (drop 4 p))"
    using le_val_bound [of "take 4 p"] le_val_bound [of "take 4 (drop 4 p)"] l
    by (simp_all add: unat_of_nat_id)
  have "p = take 4 p @ take 4 (drop 4 p) @ drop 8 p"
    by (metis append_take_drop_id drop_drop numeral_Bit0)
  then show ?thesis
    using assms b l by (simp add: int_set_of_blob_def int_set_blob_def mem_read_def le_bytes_le_val)
qed

lemma validate_loop_correct:
  assumes "packed is w vs" "i + n = length vs" "length vs < 2147483648"
  shows "int_set_validate_loop is i prev n = Some (sorted_wrt (<) (prev # drop i vs))"
  using assms
proof (induction n arbitrary: i prev)
  case 0
  then show ?case by simp
next
  case (Suc n)
  have u: "unat (of_nat i :: u32) = i" using Suc.prems by (simp add: unat_of_nat_id)
  then have "sint (of_nat i :: u32) = int i"
    using sint_u32 [of "of_nat i"] Suc.prems by simp
  moreover have "int_set_get_pos is (int i) = Some (vs ! i)"
    using Suc.prems by (intro get_packed) simp_all
  moreover have "drop i vs = vs ! i # drop (Suc i) vs"
    using Suc.prems by (simp add: Cons_nth_drop_Suc)
  ultimately show ?case using Suc by auto
qed

lemma validate_size:
  assumes "length p < 2 ^ 32" "p = int_set_blob is" "is_encoding is \<in> {2, 4, 8}"
  shows "8 + ucast (is_length is) * ucast (is_encoding is) = (of_nat (length p) :: u64)
    \<longleftrightarrow> length (is_contents is) = unat (is_length is) * unat (is_encoding is)"
proof -
  have b: "8 + unat (is_length is) * unat (is_encoding is) < 2 ^ 64"
    using assms(3) unat_less_32 [of "is_length is"] by auto
  then have u: "unat (8 + ucast (is_length is) * ucast (is_encoding is) :: u64)
      = 8 + unat (is_length is) * unat (is_encoding is)"
    by (simp add: unat_word_ariths unat_ucast_up)
  have "unat (of_nat (length p) :: u64) = length p" using assms(1) by (simp add: unat_of_nat_id)
  then show ?thesis using u by (auto simp: word_unat_eq_iff assms(2) int_set_blob_def)
qed

lemma validate_correct:
  assumes lp: "length p < 2 ^ 32"
  shows "int_set_validate_integrity p (of_nat (length p)) True
    = Some (\<exists>is. p = int_set_blob is \<and> int_set_ok is \<and> is_length is \<noteq> 0)"
proof (cases "length p < 8")
  case True
  moreover have "unat (of_nat (length p) :: u64) = length p" using lp by (simp add: unat_of_nat_id)
  ultimately show ?thesis
    by (auto simp: int_set_validate_integrity_def word_less_nat_alt int_set_blob_def)
next
  case False
  have "unat (of_nat (length p) :: u64) = length p" using lp by (simp add: unat_of_nat_id)
  then have sz: "\<not> (of_nat (length p) :: u64) < 8" using False by (simp add: word_less_nat_alt)
  from False obtain is0 where is0: "int_set_of_blob p = Some is0" "p = int_set_blob is0"
    using int_set_blob_of_blob [of p] by auto
  then have ex: "(\<exists>is. p = int_set_blob is \<and> int_set_ok is \<and> is_length is \<noteq> 0)
      \<longleftrightarrow> int_set_ok is0 \<and> is_length is0 \<noteq> 0"
    using int_set_of_blob_blob by (metis option.inject)
  show ?thesis
  proof (cases "is_encoding is0 \<in> {2, 4, 8}
      \<and> length (is_contents is0) = unat (is_length is0) * unat (is_encoding is0)
      \<and> is_length is0 \<noteq> 0")
    case False
    then show ?thesis
      using sz is0(1) validate_size [OF lp is0(2)] unfolding ex
      by (auto simp: int_set_validate_integrity_def Let_def int_set_ok_def)
  next
    case True
    let ?vs = "int_set_values is0"
    have p: "packed is0 (unat (is_encoding is0)) ?vs"
      using True by (auto simp: packed_def int_set_values_def encode_decode intro!: fits_decode)
    have "length p = 8 + unat (is_length is0) * unat (is_encoding is0)"
      using True is0(2) by (simp add: int_set_blob_def)
    then have small: "unat (is_length is0) < 2147483648" using lp True by auto
    have pos: "0 < unat (is_length is0)" using True by (simp add: unat_gt_0)
    have g: "int_set_get_pos is0 0 = Some (?vs ! 0)" using get_packed [OF p, of 0] pos by simp
    have "int_set_validate_loop is0 1 (?vs ! 0) (unat (is_length is0) - 1)
        = Some (sorted_wrt (<) (?vs ! 0 # drop 1 ?vs))"
      using pos small by (intro validate_loop_correct [OF p]) simp_all
    also have "?vs ! 0 # drop 1 ?vs = ?vs"
      using pos by (metis Cons_nth_drop_Suc One_nat_def drop0 length_values)
    finally show ?thesis
      using True sz is0(1) g validate_size [OF lp is0(2)] unfolding ex
      by (auto simp: int_set_validate_integrity_def Let_def int_set_ok_def)
  qed
qed

section \<open>Properties\<close>

text \<open>C27. A client of the integer set (insertions, removals and lookups in any order, on any
  64-bit integers, up to \<open>2^28\<close> of them) gets exactly the answers a mathematical set gives:
  the in-place widening of the array, the binary search and the shifting of the tail never
  lose, duplicate or invent an element, never read or write outside the buffer, and leave
  the array strictly sorted. The bound keeps the byte count of \<open>int_set_move_tail\<close> within its
  32 bits.\<close>

theorem int_set_run_refines_set:
  assumes "\<forall>c\<in>set cs. in_int64 (op_elem c)" and "length cs \<le> 268435456"
  shows "\<exists>is. set_run (int_set_add junk) (int_set_remove junk)
      (\<lambda>is v. map_option (\<lambda>b. (is, b)) (int_set_find is v)) int_set_new cs
    = Some (is, snd (set_model {} cs)) \<and> int_set_ok is
    \<and> set (int_set_values is) = fst (set_model {} cs)"
proof (rule int_set.run_refines [OF _ _ assms])
  show "int_set_ok int_set_new"
    by (simp add: int_set_ok_def int_set_new_def int_set_values_def decode_def)
  show "set (int_set_values int_set_new) = {}"
    by (simp add: int_set_new_def int_set_values_def decode_def)
qed

theorem int_set_run_refines_set_witness:
  "\<exists>is. set_run (int_set_add (\<lambda>_. 7)) (int_set_remove (\<lambda>_. 7))
      (\<lambda>is v. map_option (\<lambda>b. (is, b)) (int_set_find is v)) int_set_new
      [Add 5, Add (- 70000), Add 5, Contains (- 70000), Remove 5, Contains 5]
    = Some (is, [True, True, False, True, True, False]) \<and> int_set_ok is
    \<and> set (int_set_values is) = {- 70000}"
proof -
  let ?cs = "[Add 5, Add (- 70000), Add 5, Contains (- 70000), Remove 5, Contains (5 :: int)]"
  have m: "set_model {} ?cs = ({- 70000}, [True, True, False, True, True, False])" by auto
  have "\<forall>c\<in>set ?cs. in_int64 (op_elem c)" by (simp add: in_int64_def)
  from int_set_run_refines_set [OF this, of "\<lambda>_. 7"] show ?thesis
    unfolding m by (simp del: set_run.simps)
qed

text \<open>C30. \<open>int_set_validate_integrity\<close> in deep mode accepts a blob (below 4 GiB) exactly when it
  is the serialisation of a non-empty set that satisfies the invariant, and it never reads
  outside the blob, whatever the bytes are.\<close>

theorem int_set_validate_integrity_exact:
  assumes "length p < 2 ^ 32"
  shows "int_set_validate_integrity p (of_nat (length p)) True
    = Some (\<exists>is. p = int_set_blob is \<and> int_set_ok is \<and> is_length is \<noteq> 0)"
  using assms by (rule validate_correct)

theorem int_set_validate_integrity_exact_witness:
  "length [2, 0, 0, 0, 2, 0, 0, 0, 5, 0, 7, 0 :: byte] < 2 ^ 32
   \<and> (\<exists>is. [2, 0, 0, 0, 2, 0, 0, 0, 5, 0, 7, 0] = int_set_blob is \<and> int_set_ok is \<and> is_length is \<noteq> 0)
   \<and> \<not> (\<exists>is. [2, 0, 0, 0, 2, 0, 0, 0, 5, 0, 5, 0] = int_set_blob is \<and> int_set_ok is \<and> is_length is \<noteq> 0)"
proof -
  have "int_set_validate_integrity [2, 0, 0, 0, 2, 0, 0, 0, 5, 0, 7, 0] 12 True = Some True"
    "int_set_validate_integrity [2, 0, 0, 0, 2, 0, 0, 0, 5, 0, 5, 0] 12 True = Some False"
    by code_simp+
  with int_set_validate_integrity_exact [of "[2, 0, 0, 0, 2, 0, 0, 0, 5, 0, 7, 0]"]
    int_set_validate_integrity_exact [of "[2, 0, 0, 0, 2, 0, 0, 0, 5, 0, 5, 0]"]
  show ?thesis by simp
qed

end
