(* ===== verification/Cmp.thy ===== *)
theory Cmp
  imports Prelude
begin

text \<open>
  The comparators of \<open>src/cmp/cmp.c\<close> and the contract \<open>cmp_func\<close> that the sorted containers and
  the sort rely on: a total preorder whose sign is antisymmetric. \<open>int64_cmp\<close> and \<open>uint64_cmp\<close>
  receive the number inside the pointer. \<open>long_double_cmp\<close> compares floating point numbers and
  is not modelled.
\<close>

definition private_int64_cmp :: "int \<Rightarrow> int \<Rightarrow> int" where
  "private_int64_cmp a b = (if a > b then 1 else if a < b then - 1 else 0)"

definition int64_cmp :: "ptr \<Rightarrow> ptr \<Rightarrow> int" where
  "int64_cmp a b = private_int64_cmp (sint a) (sint b)"

definition private_uint64_cmp :: "u64 \<Rightarrow> u64 \<Rightarrow> int" where
  "private_uint64_cmp a b = (if a > b then 1 else if a < b then - 1 else 0)"

definition uint64_cmp :: "ptr \<Rightarrow> ptr \<Rightarrow> int" where
  "uint64_cmp a b = private_uint64_cmp a b"

text \<open>\<open>strcmp\<close> on the bytes before the terminating NUL: unsigned comparison of the first
  difference, the end of the shorter string being smaller than any byte.\<close>

fun strcmp :: "byte list \<Rightarrow> byte list \<Rightarrow> int" where
  "strcmp [] [] = 0"
| "strcmp [] (b # bs) = - 1"
| "strcmp (a # as) [] = 1"
| "strcmp (a # as) (b # bs) = (if a = b then strcmp as bs else if a < b then - 1 else 1)"

definition private_str_cmp :: "byte list \<Rightarrow> byte list \<Rightarrow> int" where
  "private_str_cmp a b = strcmp a b"

locale comparator =
  fixes cmp :: "'a \<Rightarrow> 'a \<Rightarrow> int"
  assumes cmp_sym: "cmp a b \<le> 0 \<longleftrightarrow> cmp b a \<ge> 0"
    and cmp_trans: "cmp a b \<le> 0 \<Longrightarrow> cmp b c \<le> 0 \<Longrightarrow> cmp a c \<le> 0"
begin

abbreviation le :: "'a \<Rightarrow> 'a \<Rightarrow> bool" where
  "le a b \<equiv> cmp a b \<le> 0"

lemma cmp_total: "cmp a b \<le> 0 \<or> cmp b a \<le> 0"
  using cmp_sym [of a b] by linarith

lemma cmp_refl: "cmp a a = 0"
  using cmp_sym [of a a] by linarith

lemma not_le: "\<not> cmp a b \<le> 0 \<Longrightarrow> cmp b a \<le> 0"
  using cmp_total [of a b] by blast

lemma cmp_zero_sym: "cmp a b = 0 \<longleftrightarrow> cmp b a = 0"
  using cmp_sym [of a b] cmp_sym [of b a] by linarith

end

interpretation int64: comparator int64_cmp
  by unfold_locales (auto simp: int64_cmp_def private_int64_cmp_def split: if_splits)

interpretation uint64: comparator uint64_cmp
  by unfold_locales (auto simp: uint64_cmp_def private_uint64_cmp_def split: if_splits)

lemma strcmp_sym: "strcmp a b = - strcmp b a"
  by (induction a b rule: strcmp.induct) auto

lemma strcmp_eq_0: "strcmp a b = 0 \<longleftrightarrow> a = b"
  by (induction a b rule: strcmp.induct) auto

lemma strcmp_Nil: "strcmp [] c \<le> 0"
  by (cases c) simp_all

lemma strcmp_trans: "strcmp a b \<le> 0 \<Longrightarrow> strcmp b c \<le> 0 \<Longrightarrow> strcmp a c \<le> 0"
proof (induction a b arbitrary: c rule: strcmp.induct)
  case (4 x xs y ys)
  then show ?case by (cases c) (auto split: if_splits)
qed (simp_all add: strcmp_Nil)

interpretation str: comparator private_str_cmp
proof
  show "private_str_cmp a b \<le> 0 \<longleftrightarrow> 0 \<le> private_str_cmp b a" for a b
    using strcmp_sym [of a b] by (simp add: private_str_cmp_def)
  show "private_str_cmp a b \<le> 0 \<Longrightarrow> private_str_cmp b c \<le> 0 \<Longrightarrow> private_str_cmp a c \<le> 0" for a b c
    unfolding private_str_cmp_def by (rule strcmp_trans)
qed

lemma int64_cmp_le: "int64_cmp a b \<le> 0 \<longleftrightarrow> sint a \<le> sint b"
  by (simp add: int64_cmp_def private_int64_cmp_def)

lemma uint64_cmp_le: "uint64_cmp a b \<le> 0 \<longleftrightarrow> a \<le> b"
  by (auto simp: uint64_cmp_def private_uint64_cmp_def)

end
