(* ===== verification/IterSpec.thy ===== *)
theory IterSpec
  imports Prelude
begin

text \<open>
  The iterator interface of \<open>src/iterator/iterator.c\<close>: a table of two operations, \<open>has_next\<close> and
  \<open>next\<close>, dispatched by \<open>latte_iterator_has_next\<close> and \<open>latte_iterator_next\<close>. The locales state
  the protocol a client relies on: \<open>has_next\<close> tells whether elements are left and makes the
  iterator \<open>ready\<close>; on a ready iterator \<open>next\<close> returns the first of them.
\<close>

record ('s, 'x) latte_iterator_func =
  it_has_next :: "'s \<Rightarrow> ('s \<times> bool) option"
  it_next :: "'s \<Rightarrow> ('s \<times> 'x) option"

record ('s, 'x) latte_iterator =
  it_func :: "('s, 'x) latte_iterator_func"
  it_data :: 's

definition latte_iterator_new :: "('s, 'x) latte_iterator_func \<Rightarrow> 's \<Rightarrow> ('s, 'x) latte_iterator" where
  "latte_iterator_new func data = \<lparr>it_func = func, it_data = data\<rparr>"

definition latte_iterator_has_next ::
  "('s, 'x) latte_iterator \<Rightarrow> (('s, 'x) latte_iterator \<times> bool) option" where
  "latte_iterator_has_next it =
     map_option (\<lambda>(d, b). (it\<lparr>it_data := d\<rparr>, b)) (it_has_next (it_func it) (it_data it))"

definition latte_iterator_next ::
  "('s, 'x) latte_iterator \<Rightarrow> (('s, 'x) latte_iterator \<times> 'x) option" where
  "latte_iterator_next it =
     map_option (\<lambda>(d, x). (it\<lparr>it_data := d\<rparr>, x)) (it_next (it_func it) (it_data it))"

text \<open>The loop every client writes:
  \<open>while (latte_iterator_has_next(it)) use(latte_iterator_next(it))\<close>.
  \<open>None\<close> is undefined behaviour or a loop that does not end.\<close>

partial_function (option) iterate_all :: "('s, 'x) latte_iterator \<Rightarrow> 'x list option" where
  [code]: "iterate_all it =
     Option.bind (latte_iterator_has_next it) (\<lambda>r.
       if snd r
       then Option.bind (latte_iterator_next (fst r)) (\<lambda>q.
         Option.bind (iterate_all (fst q)) (\<lambda>xs. Some (snd q # xs)))
       else Some [])"

text \<open>The weakest protocol: \<open>has_next\<close> may be called on a state between two elements, and
  \<open>next\<close> on the state it left. What is still to come need not be determined by the state: an iterator
  whose \<open>next\<close> does not change it is in the same state before and after it has returned an element.\<close>

locale iterator_steps =
  fixes func :: "('s, 'x) latte_iterator_func"
    and between :: "'s \<Rightarrow> 'x list \<Rightarrow> bool"
    and at_elem :: "'s \<Rightarrow> 'x list \<Rightarrow> bool"
  assumes has_next_to: "between s xs \<Longrightarrow>
      \<exists>s'. it_has_next func s = Some (s', xs \<noteq> []) \<and> (xs \<noteq> [] \<longrightarrow> at_elem s' xs)"
    and next_to: "at_elem s (x # xs) \<Longrightarrow> \<exists>s'. it_next func s = Some (s', x) \<and> between s' xs"
begin

text \<open>The client loop ends and sees exactly the elements left, in order.\<close>

lemma iterate_all_steps: "between s xs \<Longrightarrow> iterate_all (latte_iterator_new func s) = Some xs"
proof (induction xs arbitrary: s)
  case Nil
  with has_next_to [of s "[]"] show ?case
    by (subst iterate_all.simps)
      (auto simp: latte_iterator_has_next_def latte_iterator_new_def)
next
  case (Cons x xs)
  from has_next_to [OF Cons.prems] obtain s1 where
    s1: "it_has_next func s = Some (s1, True)" "at_elem s1 (x # xs)" by force
  from next_to [OF s1(2)] obtain s2 where
    s2: "it_next func s1 = Some (s2, x)" "between s2 xs" by blast
  from s1(1) s2(1) Cons.IH [OF s2(2)] show ?case
    by (subst iterate_all.simps)
      (simp add: latte_iterator_has_next_def latte_iterator_next_def latte_iterator_new_def)
qed

end

text \<open>The protocol of an iterator whose state (\<open>invar\<close> between two elements, \<open>ready\<close> in front of one)
  determines what is left.\<close>

locale iterator_protocol =
  fixes func :: "('s, 'x) latte_iterator_func"
    and invar :: "'s \<Rightarrow> bool"
    and ready :: "'s \<Rightarrow> bool"
    and rest :: "'s \<Rightarrow> 'x list"
  assumes has_next_step: "invar s \<Longrightarrow>
      \<exists>s'. it_has_next func s = Some (s', rest s \<noteq> []) \<and> (rest s \<noteq> [] \<longrightarrow> ready s' \<and> rest s' = rest s)"
    and next_step: "ready s \<Longrightarrow> rest s = x # xs \<Longrightarrow>
      \<exists>s'. it_next func s = Some (s', x) \<and> invar s' \<and> rest s' = xs"

sublocale iterator_protocol \<subseteq> iterator_steps func "\<lambda>s xs. invar s \<and> rest s = xs" "\<lambda>s xs. ready s \<and> rest s = xs"
  using has_next_step next_step by unfold_locales auto

context iterator_protocol
begin

lemma iterate_all_rest: "invar s \<Longrightarrow> iterate_all (latte_iterator_new func s) = Some (rest s)"
  by (rule iterate_all_steps) simp

end

text \<open>A stronger protocol: \<open>has_next\<close> may be called any number of times.\<close>

locale iterator_impl =
  fixes func :: "('s, 'x) latte_iterator_func"
    and invar :: "'s \<Rightarrow> bool"
    and ready :: "'s \<Rightarrow> bool"
    and rest :: "'s \<Rightarrow> 'x list"
  assumes has_next_law: "invar s \<Longrightarrow>
      \<exists>s'. it_has_next func s = Some (s', rest s \<noteq> []) \<and> invar s' \<and> rest s' = rest s
        \<and> (rest s \<noteq> [] \<longrightarrow> ready s')"
    and next_law: "invar s \<Longrightarrow> ready s \<Longrightarrow> rest s = x # xs \<Longrightarrow>
      \<exists>s'. it_next func s = Some (s', x) \<and> invar s' \<and> rest s' = xs"

sublocale iterator_impl \<subseteq> iterator_protocol func invar "\<lambda>s. invar s \<and> ready s" rest
  using has_next_law next_law by unfold_locales (blast, blast)

end
