(* ===== verification/Vector.thy ===== *)
theory Vector
  imports Cmp IterSpec
begin

text \<open>
  \<open>src/vector/vector.c\<close>: a growable array of pointers, its iterator, its in-place quicksort and
  its comparison. The array \<open>v_data\<close> has as many cells as were allocated; cells beyond \<open>v_count\<close>
  are indeterminate. \<open>zrealloc\<close> does not return NULL (the allocator aborts).
\<close>

section \<open>The structure and its operations\<close>

record vector =
  v_data :: "ptr list"
  v_capacity :: u64
  v_count :: u64

definition vector_new :: vector where
  "vector_new = \<lparr>v_data = [], v_capacity = 0, v_count = 0\<rparr>"

text \<open>\<open>zrealloc(v->data, n * sizeof(void*))\<close>: the byte size is computed in 64 bits.\<close>

definition vector_realloc :: "(nat \<Rightarrow> ptr) \<Rightarrow> vector \<Rightarrow> u64 \<Rightarrow> vector" where
  "vector_realloc junk v n =
     v\<lparr>v_data := realloc junk (v_data v) (unat (n * 8) div 8), v_capacity := n\<rparr>"

definition vector_expand_internal :: "(nat \<Rightarrow> ptr) \<Rightarrow> vector \<Rightarrow> u64 \<Rightarrow> vector \<times> int" where
  "vector_expand_internal junk v mx =
     (if mx < v_capacity v then (v, 0)
      else
        let new_size = (if v_capacity v \<ge> - 1 div 2 then mx
              else let n = push_bit 1 (v_capacity v) in if n < mx then mx else n)
        in if new_size > - 1 div 8 then (v, - 1)
           else (vector_realloc junk v new_size, 0))"

text \<open>\<open>empty_slots\<close> is an \<open>int\<close>; it is converted to 64 bits with its sign.\<close>

definition vector_shrink :: "(nat \<Rightarrow> ptr) \<Rightarrow> vector \<Rightarrow> int \<Rightarrow> vector \<times> int" where
  "vector_shrink junk v empty_slots =
     (let slots = (word_of_int empty_slots :: u64) in
      if slots \<ge> - 1 div 8 - v_count v then (v, - 1)
      else let new_size = v_count v + slots in
        if new_size = v_count v then (v, 0)
        else if new_size > v_count v then vector_expand_internal junk v new_size
        else let new_size = (if new_size = 0 then 1 else new_size)
          in (vector_realloc junk v new_size, 0))"

definition vector_resize :: "(nat \<Rightarrow> ptr) \<Rightarrow> vector \<Rightarrow> u64 \<Rightarrow> vector" where
  "vector_resize junk v new_capacity = vector_realloc junk v new_capacity"

definition vector_push :: "(nat \<Rightarrow> ptr) \<Rightarrow> vector \<Rightarrow> ptr \<Rightarrow> vector option" where
  "vector_push junk v x =
     (let v = (if v_count v = v_capacity v
               then vector_resize junk v (if v_capacity v = 0 then 1 else v_capacity v * 2)
               else v)
      in do {
        d \<leftarrow> put_at (v_data v) (unat (v_count v)) x;
        Some (v\<lparr>v_data := d, v_count := v_count v + 1\<rparr>)
      })"

definition vector_pop :: "vector \<Rightarrow> (vector \<times> ptr) option" where
  "vector_pop v =
     (if v_count v = 0 then Some (v, NULL)
      else do {
        x \<leftarrow> get_at (v_data v) (unat (v_count v - 1));
        Some (v\<lparr>v_count := v_count v - 1\<rparr>, x)
      })"

definition vector_get :: "vector \<Rightarrow> u64 \<Rightarrow> ptr option" where
  "vector_get v i = (if i \<ge> v_count v then Some NULL else get_at (v_data v) (unat i))"

definition vector_set :: "vector \<Rightarrow> u64 \<Rightarrow> ptr \<Rightarrow> vector option" where
  "vector_set v i x =
     (if i \<ge> v_count v then Some v
      else map_option (\<lambda>d. v\<lparr>v_data := d\<rparr>) (put_at (v_data v) (unat i) x))"

text \<open>The iterator shares the vector, which it does not change.\<close>

record vector_iterator =
  vi_v :: vector
  vi_index :: u64

definition vector_iterator_has_next :: "vector_iterator \<Rightarrow> (vector_iterator \<times> bool) option" where
  "vector_iterator_has_next it = Some (it, vi_index it < v_count (vi_v it))"

definition vector_iterator_next :: "vector_iterator \<Rightarrow> (vector_iterator \<times> ptr) option" where
  "vector_iterator_next it =
     map_option (\<lambda>x. (it\<lparr>vi_index := vi_index it + 1\<rparr>, x)) (vector_get (vi_v it) (vi_index it))"

definition vector_iterator_type :: "(vector_iterator, ptr) latte_iterator_func" where
  "vector_iterator_type =
     \<lparr>it_has_next = vector_iterator_has_next, it_next = vector_iterator_next\<rparr>"

definition vector_get_iterator :: "vector \<Rightarrow> (vector_iterator, ptr) latte_iterator" where
  "vector_get_iterator v = latte_iterator_new vector_iterator_type \<lparr>vi_v = v, vi_index = 0\<rparr>"

section \<open>The sort\<close>

text \<open>Array indices are C \<open>int\<close>s; a negative one is outside the array.\<close>

definition arr_get :: "'a list \<Rightarrow> int \<Rightarrow> 'a option" where
  "arr_get arr i = (if i < 0 then None else get_at arr (nat i))"

definition arr_put :: "'a list \<Rightarrow> int \<Rightarrow> 'a \<Rightarrow> 'a list option" where
  "arr_put arr i x = (if i < 0 then None else put_at arr (nat i) x)"

definition swap :: "'a list \<Rightarrow> int \<Rightarrow> int \<Rightarrow> 'a list option" where
  "swap arr a b =
     do {
       c \<leftarrow> arr_get arr a;
       y \<leftarrow> arr_get arr b;
       arr \<leftarrow> arr_put arr a y;
       arr_put arr b c
     }"

fun partition_loop :: "('a \<Rightarrow> 'a \<Rightarrow> int) \<Rightarrow> 'a \<Rightarrow> 'a list \<Rightarrow> int \<Rightarrow> int \<Rightarrow> nat \<Rightarrow> ('a list \<times> int) option" where
  "partition_loop c pivot arr i j 0 = Some (arr, i)"
| "partition_loop c pivot arr i j (Suc n) =
     do {
       x \<leftarrow> arr_get arr j;
       if c x pivot \<le> 0
       then do {
         arr \<leftarrow> swap arr (i + 1) j;
         partition_loop c pivot arr (i + 1) (j + 1) n
       }
       else partition_loop c pivot arr i (j + 1) n
     }"

definition partition :: "('a \<Rightarrow> 'a \<Rightarrow> int) \<Rightarrow> 'a list \<Rightarrow> int \<Rightarrow> int \<Rightarrow> ('a list \<times> int) option" where
  "partition c arr low high =
     do {
       pivot \<leftarrow> arr_get arr high;
       i \<leftarrow> checked32 (low - 1);
       (arr, i) \<leftarrow> partition_loop c pivot arr i low (nat (high - low));
       arr \<leftarrow> swap arr (i + 1) high;
       Some (arr, i + 1)
     }"

lemma partition_loop_index:
  "partition_loop c pivot arr i j n = Some (arr', i') \<Longrightarrow> i \<le> i' \<and> i' \<le> i + int n"
  by (induction c pivot arr i j n rule: partition_loop.induct)
    (fastforce simp: bind_eq_Some_iff split: if_splits)+

lemma partition_index:
  "partition c arr low high = Some (arr', pi) \<Longrightarrow> low < high \<Longrightarrow> low \<le> pi \<and> pi \<le> high"
  by (auto simp: partition_def bind_eq_Some_iff checked32_def split: if_splits dest!: partition_loop_index)

lemma checked32_self: "checked32 v = Some w \<Longrightarrow> w = v"
  by (simp add: checked32_def split: if_splits)

text \<open>The recursion ends because the pivot is placed between its bounds. The indices are of type \<open>int\<close>: those next to
  the pivot may overflow, all others lie between \<open>low - 1\<close> and \<open>high\<close>.\<close>

function quick_sort :: "('a \<Rightarrow> 'a \<Rightarrow> int) \<Rightarrow> 'a list \<Rightarrow> int \<Rightarrow> int \<Rightarrow> 'a list option" where
  "quick_sort c arr low high =
     (if low < high
      then case partition c arr low high of
          None \<Rightarrow> None
        | Some (arr, pi) \<Rightarrow>
            (case checked32 (pi - 1) of
               None \<Rightarrow> None
             | Some hi \<Rightarrow>
                 (case quick_sort c arr low hi of
                    None \<Rightarrow> None
                  | Some arr \<Rightarrow>
                      (case checked32 (pi + 1) of
                         None \<Rightarrow> None
                       | Some lo \<Rightarrow> quick_sort c arr lo high)))
      else Some arr)"
  by pat_completeness auto

termination
  by (relation "measure (\<lambda>(c, arr, low, high). nat (high - low))")
    (auto dest!: partition_index checked32_self)

declare quick_sort.simps [simp del]

text \<open>\<open>v->count - 1\<close> is passed as an \<open>int\<close>.\<close>

definition vector_sort :: "vector \<Rightarrow> (ptr \<Rightarrow> ptr \<Rightarrow> int) \<Rightarrow> vector option" where
  "vector_sort v c =
     map_option (\<lambda>d. v\<lparr>v_data := d\<rparr>)
       (quick_sort c (v_data v) 0 (sint (ucast (v_count v - 1) :: u32)))"

section \<open>Comparison, removal and reuse of slots\<close>

fun vector_cmp_loop :: "(ptr \<Rightarrow> ptr \<Rightarrow> int) \<Rightarrow> vector \<Rightarrow> vector \<Rightarrow> nat \<Rightarrow> nat \<Rightarrow> int option" where
  "vector_cmp_loop cmp a b i 0 = Some 0"
| "vector_cmp_loop cmp a b i (Suc n) =
     do {
       x \<leftarrow> vector_get a (of_nat i);
       y \<leftarrow> vector_get b (of_nat i);
       if cmp x y \<noteq> 0 then Some (cmp x y) else vector_cmp_loop cmp a b (Suc i) n
     }"

text \<open>The difference of the sizes is returned as an \<open>int\<close>, i.e. truncated to 32 bits.\<close>

definition private_vector_cmp :: "vector \<Rightarrow> vector \<Rightarrow> (ptr \<Rightarrow> ptr \<Rightarrow> int) \<Rightarrow> int option" where
  "private_vector_cmp a b cmp =
     (if v_count a \<noteq> v_count b then Some (sint (ucast (v_count a - v_count b) :: u32))
      else vector_cmp_loop cmp a b 0 (unat (v_count a)))"

fun vector_remove_loop :: "ptr list \<Rightarrow> ptr \<Rightarrow> nat \<Rightarrow> nat \<Rightarrow> ptr list option" where
  "vector_remove_loop d x i 0 = Some d"
| "vector_remove_loop d x i (Suc n) =
     do {
       y \<leftarrow> get_at d i;
       d \<leftarrow> (if y = x then put_at d i NULL else Some d);
       vector_remove_loop d x (Suc i) n
     }"

definition vector_remove :: "vector \<Rightarrow> ptr \<Rightarrow> vector option" where
  "vector_remove v x =
     map_option (\<lambda>d. v\<lparr>v_data := d\<rparr>) (vector_remove_loop (v_data v) x 0 (unat (v_count v)))"

text \<open>The first free slot, if any.\<close>

fun vector_add_loop :: "ptr list \<Rightarrow> nat \<Rightarrow> nat \<Rightarrow> nat option option" where
  "vector_add_loop d i 0 = Some None"
| "vector_add_loop d i (Suc n) =
     do {
       y \<leftarrow> get_at d i;
       if y = NULL then Some (Some i) else vector_add_loop d (Suc i) n
     }"

definition vector_add :: "(nat \<Rightarrow> ptr) \<Rightarrow> vector \<Rightarrow> ptr \<Rightarrow> (vector \<times> int) option" where
  "vector_add junk v x =
     do {
       slot \<leftarrow> vector_add_loop (v_data v) 0 (unat (v_count v));
       case slot of
         Some i \<Rightarrow> do {
           d \<leftarrow> put_at (v_data v) i x;
           Some (v\<lparr>v_data := d\<rparr>, sint (of_nat i :: u32))
         }
       | None \<Rightarrow> do {
           v \<leftarrow> vector_push junk v x;
           Some (v, sint (ucast (v_count v - 1) :: u32))
         }
     }"

section \<open>Correctness of the sort\<close>

lemma arr_get_mid: "arr_get (xs @ y # zs) (int (length xs)) = Some y"
  by (simp add: arr_get_def get_at_def)

lemma swap_mid:
  "swap (xs @ a # ys @ b # zs) (int (length xs)) (int (length xs) + int (length ys) + 1)
     = Some (xs @ b # ys @ a # zs)"
  by (simp add: swap_def arr_get_def arr_put_def get_at_def put_at_def nth_append
      list_update_append nat_add_distrib)

lemma swap_same: "swap (xs @ a # ys) (int (length xs)) (int (length xs)) = Some (xs @ a # ys)"
  by (simp add: swap_def arr_get_def arr_put_def get_at_def put_at_def)

text \<open>Exchanging the first of \<open>bs\<close> with the element behind \<open>bs\<close>.\<close>

lemma swap_rotate:
  "\<exists>bs'. swap (as @ bs @ x # zs) (int (length as)) (int (length as) + int (length bs))
     = Some (as @ x # bs' @ zs) \<and> mset bs' = mset bs"
proof (cases bs)
  case Nil
  then show ?thesis using swap_same [of as x zs] by simp
next
  case (Cons b bs')
  then show ?thesis using swap_mid [of as b bs' x zs]
    by (intro exI [of _ "bs' @ [b]"]) (simp add: algebra_simps)
qed

lemma partition_loop_correct:
  assumes "\<forall>a\<in>set as. c a p \<le> 0" "\<forall>b\<in>set bs. \<not> c b p \<le> 0"
  shows "\<exists>as' bs'. partition_loop c p (xs @ as @ bs @ us @ zs)
      (int (length xs) + int (length as) - 1) (int (length xs) + int (length as) + int (length bs))
      (length us)
    = Some (xs @ as' @ bs' @ zs, int (length xs) + int (length as') - 1)
    \<and> mset (as' @ bs') = mset (as @ bs @ us)
    \<and> (\<forall>a\<in>set as'. c a p \<le> 0) \<and> (\<forall>b\<in>set bs'. \<not> c b p \<le> 0)"
  using assms
proof (induction us arbitrary: as bs)
  case Nil
  then show ?case by (intro exI [of _ as] exI [of _ bs]) simp
next
  case (Cons u us)
  have g: "arr_get (xs @ as @ bs @ u # us @ zs) (int (length xs) + int (length as) + int (length bs)) = Some u"
    using arr_get_mid [of "xs @ as @ bs" u "us @ zs"] by (simp add: add.assoc)
  show ?case
  proof (cases "c u p \<le> 0")
    case True
    from swap_rotate [of "xs @ as" bs u "us @ zs"] obtain bs1 where
      sw: "swap (xs @ as @ bs @ u # us @ zs) (int (length xs) + int (length as))
          (int (length xs) + int (length as) + int (length bs)) = Some (xs @ (as @ [u]) @ bs1 @ us @ zs)"
      and m: "mset bs1 = mset bs" by auto
    have l: "length bs1 = length bs" and st: "set bs1 = set bs"
      using m mset_eq_length mset_eq_setD by blast+
    from Cons.IH [of "as @ [u]" bs1] Cons.prems True st obtain as' bs' where
      r: "partition_loop c p (xs @ (as @ [u]) @ bs1 @ us @ zs)
        (int (length xs) + int (length (as @ [u])) - 1)
        (int (length xs) + int (length (as @ [u])) + int (length bs1)) (length us)
        = Some (xs @ as' @ bs' @ zs, int (length xs) + int (length as') - 1)"
      "mset (as' @ bs') = mset ((as @ [u]) @ bs1 @ us)"
      "\<forall>a\<in>set as'. c a p \<le> 0" "\<forall>b\<in>set bs'. \<not> c b p \<le> 0" by auto
    then show ?thesis using g sw True l m
      by (intro exI [of _ as'] exI [of _ bs']) (simp add: algebra_simps)
  next
    case False
    from Cons.IH [of as "bs @ [u]"] Cons.prems False obtain as' bs' where
      "partition_loop c p (xs @ as @ (bs @ [u]) @ us @ zs) (int (length xs) + int (length as) - 1)
        (int (length xs) + int (length as) + int (length (bs @ [u]))) (length us)
        = Some (xs @ as' @ bs' @ zs, int (length xs) + int (length as') - 1)"
      "mset (as' @ bs') = mset (as @ (bs @ [u]) @ us)"
      "\<forall>a\<in>set as'. c a p \<le> 0" "\<forall>b\<in>set bs'. \<not> c b p \<le> 0" by auto
    then show ?thesis using g False
      by (intro exI [of _ as'] exI [of _ bs']) (simp add: algebra_simps)
  qed
qed

lemma partition_correct:
  "int (length xs) < 2 ^ 31 \<Longrightarrow> \<exists>as bs. partition c (xs @ us @ p # zs) (int (length xs)) (int (length xs) + int (length us))
     = Some (xs @ as @ p # bs @ zs, int (length xs) + int (length as))
   \<and> mset (as @ bs) = mset us \<and> (\<forall>a\<in>set as. c a p \<le> 0) \<and> (\<forall>b\<in>set bs. \<not> c b p \<le> 0)"
proof -
  assume small: "int (length xs) < 2 ^ 31"
  then have i: "checked32 (int (length xs) - 1) = Some (int (length xs) - 1)" by (simp add: checked32_def)
  have g: "arr_get (xs @ us @ p # zs) (int (length xs) + int (length us)) = Some p"
    using arr_get_mid [of "xs @ us" p zs] by simp
  from partition_loop_correct [of "[]" c p "[]" xs us "p # zs"] obtain as bs where
    l: "partition_loop c p (xs @ us @ p # zs) (int (length xs) - 1) (int (length xs)) (length us)
      = Some (xs @ as @ bs @ p # zs, int (length xs) + int (length as) - 1)"
    "mset (as @ bs) = mset us" "\<forall>a\<in>set as. c a p \<le> 0" "\<forall>b\<in>set bs. \<not> c b p \<le> 0" by auto
  have len: "length us = length as + length bs"
    using l(2) mset_eq_length [of "as @ bs" us] by simp
  from swap_rotate [of "xs @ as" bs p zs] obtain bs1 where
    sw: "swap (xs @ as @ bs @ p # zs) (int (length xs) + int (length as))
        (int (length xs) + int (length as) + int (length bs)) = Some (xs @ as @ p # bs1 @ zs)"
    and m: "mset bs1 = mset bs" by auto
  have "partition c (xs @ us @ p # zs) (int (length xs)) (int (length xs) + int (length us))
      = Some (xs @ as @ p # bs1 @ zs, int (length xs) + int (length as))"
    using g l(1) sw len i by (simp add: partition_def algebra_simps nat_int_add)
  moreover have "set bs1 = set bs" using m by (rule mset_eq_setD)
  ultimately show ?thesis using l m by (metis mset_append)
qed

context comparator
begin

text \<open>Sorting a slice \<open>ys\<close> of the array leaves the rest of the array alone.\<close>

lemma quick_sort_slice:
  "int (length xs + length ys) < 2 ^ 31 \<Longrightarrow> \<exists>ys'. quick_sort cmp (xs @ ys @ zs) (int (length xs)) (int (length xs) + int (length ys) - 1)
     = Some (xs @ ys' @ zs) \<and> mset ys' = mset ys \<and> sorted_wrt le ys'"
proof (induction "length ys" arbitrary: xs ys zs rule: less_induct)
  case less
  show ?case
  proof (cases "length ys \<le> 1")
    case True
    then have "sorted_wrt le ys" by (cases ys) auto
    with True show ?thesis
      by (intro exI [of _ ys]) (simp add: quick_sort.simps)
  next
    case False
    then obtain us p where ys: "ys = us @ [p]" and us: "us \<noteq> []" by (cases ys rule: rev_cases) auto
    have small: "int (length xs) + int (length us) + 1 < 2 ^ 31" using less.prems ys by simp
    then have "int (length xs) < 2 ^ 31" by linarith
    from partition_correct [OF this, of cmp us p zs] obtain as bs where
      pt: "partition cmp (xs @ us @ p # zs) (int (length xs)) (int (length xs) + int (length us))
        = Some (xs @ as @ p # bs @ zs, int (length xs) + int (length as))"
      "mset (as @ bs) = mset us" "\<forall>a\<in>set as. le a p" "\<forall>b\<in>set bs. \<not> le b p" by auto
    have len: "length us = length as + length bs"
      using pt(2) mset_eq_length [of "as @ bs" us] by simp
    let ?pi = "int (length xs) + int (length as)"
    have pi: "checked32 (?pi - 1) = Some (?pi - 1)" "checked32 (?pi + 1) = Some (?pi + 1)"
      using small len by (auto intro!: checked32_Some)
    from less.hyps [of as xs "p # bs @ zs"] small len ys obtain as' where
      a: "quick_sort cmp (xs @ as @ p # bs @ zs) (int (length xs)) (int (length xs) + int (length as) - 1)
        = Some (xs @ as' @ p # bs @ zs)" "mset as' = mset as" "sorted_wrt le as'" by auto
    have la: "length as' = length as" using a(2) by (rule mset_eq_length)
    from less.hyps [of bs "xs @ as' @ [p]" zs] small len ys la obtain bs' where
      b: "quick_sort cmp (xs @ as' @ p # bs @ zs) (int (length xs) + int (length as) + 1)
          (int (length xs) + int (length us))
        = Some (xs @ as' @ p # bs' @ zs)" "mset bs' = mset bs" "sorted_wrt le bs'"
      by (auto simp: algebra_simps)
    have "quick_sort cmp (xs @ ys @ zs) (int (length xs)) (int (length xs) + int (length ys) - 1)
        = Some (xs @ (as' @ p # bs') @ zs)"
      using pt(1) a(1) b(1) us pi by (subst quick_sort.simps) (simp add: ys)
    moreover have "mset (as' @ p # bs') = mset ys" using a(2) b(2) pt(2) ys by simp
    moreover have "set as' = set as" "set bs' = set bs" using a(2) b(2) by (auto dest: mset_eq_setD)
    then have "\<forall>x\<in>set as'. le x p" "\<forall>y\<in>set bs'. le p y" using pt not_le by auto
    then have "sorted_wrt le (as' @ p # bs')"
      using a(3) b(3) cmp_trans by (auto simp: sorted_wrt_append)
    ultimately show ?thesis by blast
  qed
qed

end

section \<open>The vector as a list\<close>

definition vector_ok :: "vector \<Rightarrow> bool" where
  "vector_ok v \<longleftrightarrow> length (v_data v) = unat (v_capacity v) \<and> v_count v \<le> v_capacity v
     \<and> unat (v_capacity v) \<le> 2 ^ 60"

definition vector_list :: "vector \<Rightarrow> ptr list" where
  "vector_list v = take (unat (v_count v)) (v_data v)"

lemma vector_ok_count: "vector_ok v \<Longrightarrow> unat (v_count v) \<le> length (v_data v)"
  by (simp add: vector_ok_def word_le_nat_alt)

lemma length_vector_list: "vector_ok v \<Longrightarrow> length (vector_list v) = unat (v_count v)"
  using vector_ok_count [of v] by (simp add: vector_list_def)

lemma vector_realloc_ok:
  assumes "vector_ok v" "v_count v \<le> n" "unat n \<le> 2 ^ 60"
  shows "vector_ok (vector_realloc junk v n)" "vector_list (vector_realloc junk v n) = vector_list v"
proof -
  have "unat (n * 8) = unat n * 8" using assms(3) by (simp add: unat_word_ariths)
  then show "vector_ok (vector_realloc junk v n)"
    "vector_list (vector_realloc junk v n) = vector_list v"
    using assms vector_ok_count [OF assms(1)]
    by (simp_all add: vector_realloc_def vector_ok_def vector_list_def take_realloc word_le_nat_alt)
qed

lemma vector_push_ok:
  assumes ok: "vector_ok v" and c: "unat (v_count v) < 2 ^ 59"
  shows "\<exists>v'. vector_push junk v x = Some v' \<and> vector_ok v' \<and> vector_list v' = vector_list v @ [x]
    \<and> unat (v_count v') = Suc (unat (v_count v))"
proof -
  define w where "w = (if v_count v = v_capacity v
      then vector_resize junk v (if v_capacity v = 0 then 1 else v_capacity v * 2) else v)"
  have w: "vector_ok w \<and> vector_list w = vector_list v \<and> v_count w = v_count v
      \<and> unat (v_count w) < length (v_data w)"
  proof (cases "v_count v = v_capacity v")
    case True
    define n where "n = (if v_capacity v = 0 then 1 else v_capacity v * 2)"
    have u: "unat n = (if unat (v_capacity v) = 0 then 1 else unat (v_capacity v) * 2)"
      using True c by (simp add: n_def unat_word_ariths unat_eq_zero)
    have n: "v_count v \<le> n" "unat n \<le> 2 ^ 60" "unat (v_count v) < unat n"
      using True c u by (auto simp: word_le_nat_alt)
    have "unat (n * 8) = unat n * 8" using n(2) by (simp add: unat_word_ariths)
    with True vector_realloc_ok [OF ok n(1,2)] n(3) show ?thesis
      by (simp add: w_def vector_resize_def flip: n_def) (simp add: vector_realloc_def)
  next
    case False
    with ok show ?thesis
      by (auto simp: w_def vector_ok_def word_less_nat_alt order_le_less)
  qed
  have "unat (v_count v + 1) = Suc (unat (v_count v))" using c by (simp add: unat_word_ariths)
  moreover have "vector_push junk v x
      = Some (w\<lparr>v_data := (v_data w)[unat (v_count v) := x], v_count := v_count v + 1\<rparr>)"
    using w by (auto simp: vector_push_def Let_def put_at_def simp flip: w_def)
  ultimately show ?thesis
    using w by (auto simp: vector_ok_def vector_list_def word_le_nat_alt take_Suc_conv_app_nth)
qed

lemma vector_get_ok:
  "vector_ok v \<Longrightarrow> vector_get v i = Some (if unat i < unat (v_count v) then vector_list v ! unat i else NULL)"
  using vector_ok_count [of v]
  by (auto simp: vector_get_def vector_list_def get_at_def word_le_nat_alt)

lemma vector_set_ok:
  "vector_ok v \<Longrightarrow> \<exists>v'. vector_set v i x = Some v' \<and> vector_ok v'
     \<and> vector_list v' = (vector_list v)[unat i := x]"
  using vector_ok_count [of v]
  by (auto simp: vector_set_def vector_list_def put_at_def word_le_nat_alt vector_ok_def take_update_swap list_update_beyond)

lemma vector_pop_ok:
  assumes "vector_ok v"
  shows "\<exists>v'. vector_pop v = Some (v', if vector_list v = [] then NULL else last (vector_list v))
    \<and> vector_ok v' \<and> vector_list v' = butlast (vector_list v)"
proof (cases "v_count v = 0")
  case True
  with assms show ?thesis by (simp add: vector_pop_def vector_list_def)
next
  case False
  then have "unat (v_count v - 1) = unat (v_count v) - 1" "0 < unat (v_count v)"
    by (simp_all add: unat_minus_one unat_gt_0)
  then show ?thesis
    using False assms vector_ok_count [OF assms]
    by (auto simp: vector_pop_def vector_list_def get_at_def vector_ok_def word_le_nat_alt
        butlast_take last_conv_nth)
qed

interpretation vector_iter: iterator_impl vector_iterator_type
  "\<lambda>it. vector_ok (vi_v it)" "\<lambda>_. True" "\<lambda>it. drop (unat (vi_index it)) (vector_list (vi_v it))"
proof
  fix it :: vector_iterator
  assume ok: "vector_ok (vi_v it)"
  then show "\<exists>it'. it_has_next vector_iterator_type it
      = Some (it', drop (unat (vi_index it)) (vector_list (vi_v it)) \<noteq> [])
    \<and> vector_ok (vi_v it')
    \<and> drop (unat (vi_index it')) (vector_list (vi_v it')) = drop (unat (vi_index it)) (vector_list (vi_v it))
    \<and> (drop (unat (vi_index it)) (vector_list (vi_v it)) \<noteq> [] \<longrightarrow> True)"
    by (simp add: vector_iterator_type_def vector_iterator_has_next_def length_vector_list word_less_nat_alt
        linorder_not_le)
next
  fix it :: vector_iterator and x xs
  assume ok: "vector_ok (vi_v it)" and r: "drop (unat (vi_index it)) (vector_list (vi_v it)) = x # xs"
  then have i: "unat (vi_index it) < unat (v_count (vi_v it))"
    using length_vector_list [OF ok] by (metis drop_all linorder_not_less list.distinct(1))
  then have u: "unat (vi_index it + 1) = Suc (unat (vi_index it))"
    using unat_less_64 [of "v_count (vi_v it)"] by (simp add: unat_word_ariths)
  have "vector_list (vi_v it) ! unat (vi_index it) = x"
    "drop (Suc (unat (vi_index it))) (vector_list (vi_v it)) = xs"
    using r i length_vector_list [OF ok] by (metis Cons_nth_drop_Suc list.inject)+
  then show "\<exists>it'. it_next vector_iterator_type it = Some (it', x) \<and> vector_ok (vi_v it')
    \<and> drop (unat (vi_index it')) (vector_list (vi_v it')) = xs"
    using i u ok
    by (simp add: vector_iterator_type_def vector_iterator_next_def vector_get_ok)
qed

section \<open>Properties\<close>

lemma vector_sort_list:
  assumes c: "comparator c" and ok: "vector_ok v" and n: "unat (v_count v) < 2 ^ 31"
  shows "\<exists>v'. vector_sort v c = Some v' \<and> vector_ok v' \<and> mset (vector_list v') = mset (vector_list v)
    \<and> sorted_wrt (\<lambda>a b. c a b \<le> 0) (vector_list v')"
proof -
  have hi: "sint (ucast (v_count v - 1) :: u32) = int (unat (v_count v)) - 1"
  proof (cases "v_count v = 0")
    case False
    then have u: "unat (v_count v - 1) = unat (v_count v) - 1" "0 < unat (v_count v)"
      by (simp_all add: unat_minus_one unat_gt_0)
    then have "unat (ucast (v_count v - 1) :: u32) = unat (v_count v) - 1"
      using n by (simp add: unsigned_ucast_eq take_bit_nat_eq_self)
    moreover from this have "sint (ucast (v_count v - 1) :: u32) = int (unat (v_count v) - 1)"
      using n by (simp add: sint_uint signed_take_bit_int_eq_self uint_nat del: of_nat_unat)
    ultimately show ?thesis using u by (simp add: of_nat_diff del: of_nat_unat)
  next
    case True
    have "ucast (- 1 :: u64) = (- 1 :: u32)" by (rule bit_word_eqI) (simp add: bit_simps)
    with True show ?thesis by simp
  qed
  define zs where "zs = drop (unat (v_count v)) (v_data v)"
  have d: "v_data v = vector_list v @ zs" by (simp add: vector_list_def zs_def)
  have small: "int (length ([] :: ptr list) + length (vector_list v)) < 2 ^ 31" using n by (simp add: length_vector_list [OF ok] del: of_nat_unat)
  from comparator.quick_sort_slice [OF c small, of zs] obtain ys where
    q: "quick_sort c (v_data v) 0 (int (unat (v_count v)) - 1) = Some (ys @ zs)"
    "mset ys = mset (vector_list v)" "sorted_wrt (\<lambda>a b. c a b \<le> 0) ys"
    by (auto simp: length_vector_list [OF ok] simp flip: d simp del: of_nat_unat)
  have "length ys = length (vector_list v)" using q(2) by (rule mset_eq_length)
  then have ly: "length ys = unat (v_count v)" by (simp add: length_vector_list [OF ok])
  moreover from this have "length (ys @ zs) = length (v_data v)"
    using vector_ok_count [OF ok] by (simp add: zs_def)
  ultimately have "vector_ok (v\<lparr>v_data := ys @ zs\<rparr>)" "vector_list (v\<lparr>v_data := ys @ zs\<rparr>) = ys"
    using ok by (simp_all add: vector_ok_def vector_list_def)
  moreover have "vector_sort v c = Some (v\<lparr>v_data := ys @ zs\<rparr>)"
    using q(1) by (simp add: vector_sort_def hi)
  ultimately show ?thesis using q by auto
qed

text \<open>C31. \<open>vector_sort\<close> with any comparator that is a total preorder leaves a permutation of the
  elements, in ascending order, without leaving the array, for every vector of less than
  \<open>2^31\<close> elements. The indices are of type \<open>int\<close>, and none of them overflows.\<close>

theorem vector_sort_sorts:
  assumes "comparator c" and "vector_ok v" and "unat (v_count v) < 2 ^ 31"
  shows "\<exists>v'. vector_sort v c = Some v' \<and> vector_ok v' \<and> mset (vector_list v') = mset (vector_list v)
    \<and> sorted_wrt (\<lambda>a b. c a b \<le> 0) (vector_list v')"
  using assms by (rule vector_sort_list)

theorem vector_sort_sorts_witness:
  "\<exists>v'. vector_sort \<lparr>v_data = [3, - 1, 2, 9], v_capacity = 4, v_count = 3\<rparr> int64_cmp = Some v'
    \<and> mset (vector_list v') = {#3, - 1, 2#} \<and> sorted_wrt (\<lambda>a b. int64_cmp a b \<le> 0) (vector_list v')"
proof -
  have "vector_ok \<lparr>v_data = [3, - 1, 2, 9], v_capacity = 4, v_count = 3\<rparr>"
    by (simp add: vector_ok_def)
  from vector_sort_sorts [OF int64.comparator_axioms this] show ?thesis
    by (auto simp: vector_list_def)
qed

fun push_all :: "(nat \<Rightarrow> ptr) \<Rightarrow> vector \<Rightarrow> ptr list \<Rightarrow> vector option" where
  "push_all junk v [] = Some v"
| "push_all junk v (x # xs) = do { v \<leftarrow> vector_push junk v x; push_all junk v xs }"

lemma push_all_ok:
  "vector_ok v \<Longrightarrow> unat (v_count v) + length xs \<le> 2 ^ 59 \<Longrightarrow>
   \<exists>v'. push_all junk v xs = Some v' \<and> vector_ok v' \<and> vector_list v' = vector_list v @ xs"
proof (induction xs arbitrary: v)
  case Nil
  then show ?case by simp
next
  case (Cons x xs)
  from vector_push_ok [of v junk x] Cons.prems obtain v1 where
    "vector_push junk v x = Some v1" "vector_ok v1" "vector_list v1 = vector_list v @ [x]"
    "unat (v_count v1) = Suc (unat (v_count v))" by auto
  with Cons.IH [of v1] Cons.prems show ?case by auto
qed

text \<open>Elements pushed onto a new vector, across all its reallocations, are what an
  iteration with the vector's iterator visits, in order and completely, and the loop ends.\<close>

theorem vector_push_iterate:
  assumes "length xs \<le> 2 ^ 59"
  shows "\<exists>v. push_all junk vector_new xs = Some v \<and> iterate_all (vector_get_iterator v) = Some xs"
proof -
  have "vector_ok vector_new" "vector_list vector_new = []"
    by (simp_all add: vector_ok_def vector_new_def vector_list_def)
  with push_all_ok [of vector_new xs junk] assms obtain v where
    v: "push_all junk vector_new xs = Some v" "vector_ok v" "vector_list v = xs"
    by (auto simp: vector_new_def)
  moreover have "iterate_all (vector_get_iterator v) = Some (vector_list v)"
    using vector_iter.iterate_all_rest [of "\<lparr>vi_v = v, vi_index = 0\<rparr>"] v(2)
    by (simp add: vector_get_iterator_def)
  ultimately show ?thesis by auto
qed

theorem vector_push_iterate_witness:
  "length [7, 8, 9 :: ptr] \<le> 2 ^ 59 \<and> (\<exists>v. push_all (\<lambda>_. 1) vector_new [7, 8, 9] = Some v
    \<and> iterate_all (vector_get_iterator v) = Some [7, 8, 9])"
  using vector_push_iterate [of "[7, 8, 9]" "\<lambda>_. 1"] by simp

text \<open>\<open>vector_shrink\<close> never gives memory back: whatever the number of empty slots asked for,
  the capacity does not decrease (a request of 0 is answered before anything is freed, a
  positive one is treated as a request to grow, a negative one is rejected), and the elements
  are kept.\<close>

theorem vector_shrink_never_shrinks:
  assumes "vector_ok v" and "- 2147483648 \<le> empty_slots" and "empty_slots \<le> 2147483647"
    and "vector_shrink junk v empty_slots = (v', r)"
  shows "v_capacity v \<le> v_capacity v' \<and> v_count v' = v_count v"
proof -
  have m: "(- 1 div 8 :: u64) = 2305843009213693951" by simp
  have c: "unat (v_count v) \<le> 2 ^ 60" "unat (v_capacity v) \<le> 2 ^ 60"
    using assms(1) by (auto simp: vector_ok_def word_le_nat_alt)
  have md: "unat (- 1 div 8 - v_count v) = 2305843009213693951 - unat (v_count v)"
    unfolding m using c by (subst unat_sub) (simp_all add: word_le_nat_alt)
  define slots where "slots = (word_of_int empty_slots :: u64)"
  show ?thesis
  proof (cases "slots \<ge> - 1 div 8 - v_count v")
    case True
    with assms(4) show ?thesis by (auto simp: vector_shrink_def Let_def slots_def)
  next
    case False
    then have "unat slots < 2305843009213693951 - unat (v_count v)"
      unfolding word_le_nat_alt md by simp
    then have "unat (v_count v + slots) = unat (v_count v) + unat slots"
      using c by (simp add: unat_word_ariths)
    then have "v_count v \<le> v_count v + slots" by (simp add: word_le_nat_alt)
    with False assms(4) show ?thesis
      by (auto simp: vector_shrink_def Let_def slots_def vector_expand_internal_def
          vector_realloc_def split: if_splits)
  qed
qed

theorem vector_shrink_never_shrinks_witness:
  "\<exists>v' r. vector_shrink (\<lambda>_. 0) \<lparr>v_data = [5, 1, 1, 1], v_capacity = 4, v_count = 1\<rparr> 0 = (v', r)
     \<and> 4 \<le> v_capacity v' \<and> v_count v' = 1"
proof -
  let ?v = "\<lparr>v_data = [5, 1, 1, 1], v_capacity = 4, v_count = 1\<rparr>"
  obtain v' r where e: "vector_shrink (\<lambda>_. 0) ?v 0 = (v', r)" by fastforce
  have "vector_ok ?v" by (simp add: vector_ok_def)
  from vector_shrink_never_shrinks [OF this _ _ e] e show ?thesis by simp
qed

end
