(* ===== verification/Sds.thy ===== *)
theory Sds
  imports Numconv
begin

text \<open>
  \<open>src/sds/sds.c\<close> and \<open>sds.h\<close>: dynamic strings with five header types, whose length and
  allocation fields have 5, 8, 16, 32 or 64 bits. A string is its header fields and its buffer
  \<open>s_buf\<close>, which has as many bytes as were allocated behind the header. Fields are stored
  modulo their width, sizes are computed modulo \<open>2^64\<close>.

  The allocator may hand out more than it was asked for: \<open>usable n\<close> is the size of a block
  requested with \<open>n\<close> bytes (\<open>zmalloc_usable\<close>, \<open>zrealloc_usable\<close>), a parameter of the model;
  the contents of fresh memory are the parameter \<open>junk\<close>. Allocation does not return NULL.
\<close>

section \<open>Header types\<close>

abbreviation (input) SDS_TYPE_5 :: nat where "SDS_TYPE_5 \<equiv> 0"
abbreviation (input) SDS_TYPE_8 :: nat where "SDS_TYPE_8 \<equiv> 1"
abbreviation (input) SDS_TYPE_16 :: nat where "SDS_TYPE_16 \<equiv> 2"
abbreviation (input) SDS_TYPE_32 :: nat where "SDS_TYPE_32 \<equiv> 3"
abbreviation (input) SDS_TYPE_64 :: nat where "SDS_TYPE_64 \<equiv> 4"

definition SDS_MAX_PREALLOC :: nat where
  "SDS_MAX_PREALLOC = 1024 * 1024"

record sds =
  s_type :: nat
  s_len :: nat
  s_alloc :: nat
  s_buf :: "byte list"

definition sdsHdrSize :: "nat \<Rightarrow> nat" where
  "sdsHdrSize type =
     (if type = SDS_TYPE_5 then 1 else if type = SDS_TYPE_8 then 3 else if type = SDS_TYPE_16 then 5
      else if type = SDS_TYPE_32 then 9 else if type = SDS_TYPE_64 then 17 else 0)"

definition sdsReqType :: "nat \<Rightarrow> nat" where
  "sdsReqType string_size =
     (if string_size < 2 ^ 5 then SDS_TYPE_5
      else if string_size < 2 ^ 8 then SDS_TYPE_8
      else if string_size < 2 ^ 16 then SDS_TYPE_16
      else if string_size < 2 ^ 32 then SDS_TYPE_32
      else SDS_TYPE_64)"

definition sdsTypeMaxSize :: "nat \<Rightarrow> nat" where
  "sdsTypeMaxSize type =
     (if type = SDS_TYPE_5 then 2 ^ 5 - 1 else if type = SDS_TYPE_8 then 2 ^ 8 - 1
      else if type = SDS_TYPE_16 then 2 ^ 16 - 1 else if type = SDS_TYPE_32 then 2 ^ 32 - 1
      else 2 ^ 64 - 1)"

text \<open>The width of the length field; of the five bits left in the flags byte for type 5.\<close>

definition len_bits :: "nat \<Rightarrow> nat" where
  "len_bits type =
     (if type = SDS_TYPE_5 then 5 else if type = SDS_TYPE_8 then 8 else if type = SDS_TYPE_16 then 16
      else if type = SDS_TYPE_32 then 32 else 64)"

definition sds_len :: "sds \<Rightarrow> nat" where
  "sds_len s = (if s_type s \<le> SDS_TYPE_64 then s_len s else 0)"

definition sds_set_len :: "sds \<Rightarrow> nat \<Rightarrow> sds" where
  "sds_set_len s newlen =
     (if s_type s \<le> SDS_TYPE_64 then s\<lparr>s_len := newlen mod 2 ^ len_bits (s_type s)\<rparr> else s)"

definition sds_set_alloc :: "sds \<Rightarrow> nat \<Rightarrow> sds" where
  "sds_set_alloc s newlen =
     (if s_type s = SDS_TYPE_5 \<or> s_type s > SDS_TYPE_64 then s
      else s\<lparr>s_alloc := newlen mod 2 ^ len_bits (s_type s)\<rparr>)"

text \<open>The difference of the fields: in \<open>int\<close> for the narrow types (then converted to
  \<open>size_t\<close>), in 32 bits for type 32, in 64 bits for type 64.\<close>

definition sds_avail :: "sds \<Rightarrow> nat" where
  "sds_avail s =
     (if s_type s = SDS_TYPE_5 then 0
      else if s_type s \<le> SDS_TYPE_16 then (s_alloc s + 2 ^ 64 - s_len s) mod 2 ^ 64
      else if s_type s = SDS_TYPE_32 then (s_alloc s + 2 ^ 32 - s_len s) mod 2 ^ 32
      else if s_type s = SDS_TYPE_64 then (s_alloc s + 2 ^ 64 - s_len s) mod 2 ^ 64
      else 0)"

definition sds_alloc :: "sds \<Rightarrow> nat" where
  "sds_alloc s =
     (if s_type s = SDS_TYPE_5 then s_len s else if s_type s \<le> SDS_TYPE_64 then s_alloc s else 0)"

definition sds_inc_len :: "sds \<Rightarrow> nat \<Rightarrow> sds" where
  "sds_inc_len s inc =
     (if s_type s \<le> SDS_TYPE_64 then s\<lparr>s_len := (s_len s + inc) mod 2 ^ len_bits (s_type s)\<rparr> else s)"

section \<open>Creation\<close>

datatype sds_init = Init_NULL | Init_NOINIT | Init_bytes "byte list"

definition write_buf :: "sds \<Rightarrow> nat \<Rightarrow> byte list \<Rightarrow> sds option" where
  "write_buf s off bs = map_option (\<lambda>b. s\<lparr>s_buf := b\<rparr>) (mem_write (s_buf s) off bs)"

definition sds_new_len_raw ::
  "(nat \<Rightarrow> nat) \<Rightarrow> (nat \<Rightarrow> byte) \<Rightarrow> sds_init \<Rightarrow> nat \<Rightarrow> sds option" where
  "sds_new_len_raw usable junk init initlen =
     (let type = sdsReqType initlen;
          type = (if type = SDS_TYPE_5 \<and> initlen = 0 then SDS_TYPE_8 else type);
          hdrlen = sdsHdrSize type
      in if \<not> (initlen + hdrlen + 1) mod 2 ^ 64 > initlen then None
         else
           let us = usable (hdrlen + initlen + 1);
               cap = min (us - hdrlen - 1) (sdsTypeMaxSize type);
               s = \<lparr>s_type = type, s_len = initlen mod 2 ^ len_bits type,
                    s_alloc = cap mod 2 ^ len_bits type, s_buf = map junk [0..<us - hdrlen]\<rparr>
           in do {
             s \<leftarrow> (case init of Init_NULL \<Rightarrow> write_buf s 0 (replicate (initlen + 1) 0) | _ \<Rightarrow> Some s);
             s \<leftarrow> (case init of
                     Init_bytes bs \<Rightarrow>
                       (if initlen \<noteq> 0
                        then do { d \<leftarrow> mem_read bs 0 initlen; write_buf s 0 d } else Some s)
                   | _ \<Rightarrow> Some s);
             write_buf s initlen [0]
           })"

definition sds_new_len :: "(nat \<Rightarrow> nat) \<Rightarrow> (nat \<Rightarrow> byte) \<Rightarrow> sds_init \<Rightarrow> nat \<Rightarrow> sds option" where
  "sds_new_len usable junk init initlen = sds_new_len_raw usable junk init initlen"

text \<open>\<open>strlen\<close> of a buffer: the position of its first NUL.\<close>

fun c_strlen :: "byte list \<Rightarrow> nat option" where
  "c_strlen [] = None"
| "c_strlen (b # bs) = (if b = 0 then Some 0 else map_option Suc (c_strlen bs))"

definition sds_new :: "(nat \<Rightarrow> nat) \<Rightarrow> (nat \<Rightarrow> byte) \<Rightarrow> byte list option \<Rightarrow> sds option" where
  "sds_new usable junk init =
     (case init of
        None \<Rightarrow> sds_new_len usable junk Init_NULL 0
      | Some bs \<Rightarrow> do { n \<leftarrow> c_strlen bs; sds_new_len usable junk (Init_bytes bs) n })"

definition sds_empty :: "(nat \<Rightarrow> nat) \<Rightarrow> (nat \<Rightarrow> byte) \<Rightarrow> sds option" where
  "sds_empty usable junk = sds_new_len usable junk (Init_bytes [0]) 0"

definition sds_empty_len :: "(nat \<Rightarrow> nat) \<Rightarrow> (nat \<Rightarrow> byte) \<Rightarrow> nat \<Rightarrow> sds option" where
  "sds_empty_len usable junk n =
     do { s \<leftarrow> sds_new_len usable junk Init_NULL n; Some (sds_set_len s 0) }"

definition sds_dup :: "(nat \<Rightarrow> nat) \<Rightarrow> (nat \<Rightarrow> byte) \<Rightarrow> sds \<Rightarrow> sds option" where
  "sds_dup usable junk s = sds_new_len usable junk (Init_bytes (s_buf s)) (sds_len s)"

section \<open>Growing\<close>

text \<open>The reallocation: in place when the header type stays, by copying otherwise.\<close>

definition sds_move :: "(nat \<Rightarrow> nat) \<Rightarrow> (nat \<Rightarrow> byte) \<Rightarrow> sds \<Rightarrow> nat \<Rightarrow> nat \<Rightarrow> sds option" where
  "sds_move usable junk s type newlen =
     (let hdrlen = sdsHdrSize type;
          us = usable (hdrlen + newlen + 1);
          cap = min (us - hdrlen - 1) (sdsTypeMaxSize type);
          len = sds_len s
      in do {
        s \<leftarrow> (if s_type s = type
              then Some (s\<lparr>s_buf := realloc junk (s_buf s) (us - hdrlen)\<rparr>)
              else do {
                d \<leftarrow> mem_read (s_buf s) 0 (len + 1);
                s \<leftarrow> write_buf (s\<lparr>s_type := type, s_buf := map junk [0..<us - hdrlen]\<rparr>) 0 d;
                Some (sds_set_len s len)
              });
        Some (sds_set_alloc s cap)
      })"

definition sds_make_room_for_raw ::
  "(nat \<Rightarrow> nat) \<Rightarrow> (nat \<Rightarrow> byte) \<Rightarrow> sds \<Rightarrow> nat \<Rightarrow> bool \<Rightarrow> sds option" where
  "sds_make_room_for_raw usable junk s addlen exact =
     (if sds_avail s \<ge> addlen then Some s
      else
        let len = sds_len s; reqlen = (len + addlen) mod 2 ^ 64 in
        if \<not> reqlen > len then None
        else
          let newlen = (if exact then reqlen
                else if reqlen < SDS_MAX_PREALLOC then reqlen * 2
                else (reqlen + SDS_MAX_PREALLOC) mod 2 ^ 64);
              type = sdsReqType newlen;
              type = (if type = SDS_TYPE_5 then SDS_TYPE_8 else type)
          in if \<not> (sdsHdrSize type + newlen + 1) mod 2 ^ 64 > reqlen then None
             else sds_move usable junk s type newlen)"

definition sds_make_room_for :: "(nat \<Rightarrow> nat) \<Rightarrow> (nat \<Rightarrow> byte) \<Rightarrow> sds \<Rightarrow> nat \<Rightarrow> sds option" where
  "sds_make_room_for usable junk s addlen = sds_make_room_for_raw usable junk s addlen False"

definition sds_make_room_forExact :: "(nat \<Rightarrow> nat) \<Rightarrow> (nat \<Rightarrow> byte) \<Rightarrow> sds \<Rightarrow> nat \<Rightarrow> sds option" where
  "sds_make_room_forExact usable junk s addlen = sds_make_room_for_raw usable junk s addlen True"

definition sds_cat_len :: "(nat \<Rightarrow> nat) \<Rightarrow> (nat \<Rightarrow> byte) \<Rightarrow> sds \<Rightarrow> byte list \<Rightarrow> nat \<Rightarrow> sds option" where
  "sds_cat_len usable junk s t len =
     (let curlen = sds_len s in do {
        s \<leftarrow> sds_make_room_for usable junk s len;
        d \<leftarrow> mem_read t 0 len;
        s \<leftarrow> write_buf s curlen d;
        write_buf (sds_set_len s ((curlen + len) mod 2 ^ 64)) (curlen + len) [0]
      })"

definition sds_cat :: "(nat \<Rightarrow> nat) \<Rightarrow> (nat \<Rightarrow> byte) \<Rightarrow> sds \<Rightarrow> byte list \<Rightarrow> sds option" where
  "sds_cat usable junk s t = do { n \<leftarrow> c_strlen t; sds_cat_len usable junk s t n }"

definition sds_cat_sds :: "(nat \<Rightarrow> nat) \<Rightarrow> (nat \<Rightarrow> byte) \<Rightarrow> sds \<Rightarrow> sds \<Rightarrow> sds option" where
  "sds_cat_sds usable junk s t = sds_cat_len usable junk s (s_buf t) (sds_len t)"

section \<open>Shrinking and changing in place\<close>

definition sds_clear :: "sds \<Rightarrow> sds option" where
  "sds_clear s = write_buf (sds_set_len s 0) 0 [0]"

definition sds_reset :: "(nat \<Rightarrow> nat) \<Rightarrow> (nat \<Rightarrow> byte) \<Rightarrow> sds \<Rightarrow> byte list \<Rightarrow> nat \<Rightarrow> sds option" where
  "sds_reset usable junk s d len = do { s \<leftarrow> sds_clear s; sds_cat_len usable junk s d len }"

definition move_buf :: "sds \<Rightarrow> nat \<Rightarrow> nat \<Rightarrow> nat \<Rightarrow> sds option" where
  "move_buf s dst src n = map_option (\<lambda>b. s\<lparr>s_buf := b\<rparr>) (mem_move (s_buf s) dst src n)"

definition sdssubstr :: "sds \<Rightarrow> nat \<Rightarrow> nat \<Rightarrow> sds option" where
  "sdssubstr s start len =
     (let oldlen = sds_len s;
          (start, len) = (if start \<ge> oldlen then (0, 0) else (start, len));
          len = (if len > oldlen - start then oldlen - start else len)
      in do {
        s \<leftarrow> (if len \<noteq> 0 then move_buf s 0 start len else Some s);
        s \<leftarrow> write_buf s len [0];
        Some (sds_set_len s len)
      })"

text \<open>\<open>start\<close> and \<open>end\<close> are \<open>ssize_t\<close>; they reach \<open>sdssubstr\<close> as \<open>size_t\<close>.\<close>

definition sds_range :: "sds \<Rightarrow> int \<Rightarrow> int \<Rightarrow> sds option" where
  "sds_range s start stop =
     (let len = sds_len s in
      if len = 0 then Some s
      else
        let start = (if start < 0 then int len + start else start);
            stop = (if stop < 0 then int len + stop else stop);
            newlen = (if start > stop then 0 else (stop - start) + 1)
        in sdssubstr s (nat (start mod 2 ^ 64)) (nat (newlen mod 2 ^ 64)))"

text \<open>\<open>strchr(cset, c) != NULL\<close> for a C string \<open>cset\<close> (without its NUL): the terminating NUL is
  found as well.\<close>

definition c_strchr :: "byte list \<Rightarrow> byte \<Rightarrow> bool" where
  "c_strchr cset c \<longleftrightarrow> c = 0 \<or> c \<in> set (takeWhile (\<lambda>b. b \<noteq> 0) cset)"

text \<open>The two scans of \<open>sds_trim\<close>: \<open>sp\<close> moves right up to \<open>end\<close>, \<open>ep\<close> moves left down to \<open>sp\<close>.\<close>

fun trim_left :: "byte list \<Rightarrow> byte list \<Rightarrow> nat \<Rightarrow> nat \<Rightarrow> nat option" where
  "trim_left buf cset sp 0 = Some sp"
| "trim_left buf cset sp (Suc n) =
     do { c \<leftarrow> get_at buf sp; if c_strchr cset c then trim_left buf cset (Suc sp) n else Some sp }"

fun trim_right :: "byte list \<Rightarrow> byte list \<Rightarrow> nat \<Rightarrow> nat \<Rightarrow> nat option" where
  "trim_right buf cset sp 0 = Some 0"
| "trim_right buf cset sp (Suc ep) =
     (if Suc ep > sp
      then do { c \<leftarrow> get_at buf (Suc ep); if c_strchr cset c then trim_right buf cset sp ep else Some (Suc ep) }
      else Some (Suc ep))"

text \<open>For an empty string \<open>end\<close> is the address before the buffer and both loops are skipped.\<close>

definition sds_trim :: "sds \<Rightarrow> byte list \<Rightarrow> sds option" where
  "sds_trim s cset =
     (let n = sds_len s in
      if n = 0 then do { s \<leftarrow> write_buf s 0 [0]; Some (sds_set_len s 0) }
      else do {
        sp \<leftarrow> trim_left (s_buf s) cset 0 n;
        ep \<leftarrow> trim_right (s_buf s) cset sp (n - 1);
        let len = (if sp > ep then 0 else ep - sp + 1)
        in do {
          s \<leftarrow> (if sp \<noteq> 0 then move_buf s 0 sp len else Some s);
          s \<leftarrow> write_buf s len [0];
          Some (sds_set_len s len)
        }
      })"

definition sds_incr_len :: "sds \<Rightarrow> int \<Rightarrow> sds option" where
  "sds_incr_len s incr =
     (let ok = (if s_type s = SDS_TYPE_5
            then (incr > 0 \<and> int (s_len s) + incr < 32) \<or> (incr < 0 \<and> s_len s \<ge> nat ((- incr) mod 2 ^ 32))
            else if s_type s \<le> SDS_TYPE_16
            then (incr \<ge> 0 \<and> int (s_alloc s) - int (s_len s) \<ge> incr)
              \<or> (incr < 0 \<and> s_len s \<ge> nat ((- incr) mod 2 ^ 32))
            else if s_type s = SDS_TYPE_32
            then (incr \<ge> 0 \<and> (s_alloc s + 2 ^ 32 - s_len s) mod 2 ^ 32 \<ge> nat (incr mod 2 ^ 32))
              \<or> (incr < 0 \<and> s_len s \<ge> nat ((- incr) mod 2 ^ 32))
            else if s_type s = SDS_TYPE_64
            then (incr \<ge> 0 \<and> (s_alloc s + 2 ^ 64 - s_len s) mod 2 ^ 64 \<ge> nat (incr mod 2 ^ 64))
              \<or> (incr < 0 \<and> s_len s \<ge> nat ((- incr) mod 2 ^ 64))
            else True);
          len = (if s_type s \<le> SDS_TYPE_64
                 then nat ((int (s_len s) + incr) mod 2 ^ len_bits (s_type s)) else 0)
      in if ok
         then write_buf (if s_type s \<le> SDS_TYPE_64 then s\<lparr>s_len := len\<rparr> else s) len [0]
         else None)"

definition sds_resize :: "(nat \<Rightarrow> byte) \<Rightarrow> sds \<Rightarrow> nat \<Rightarrow> bool \<Rightarrow> sds option" where
  "sds_resize junk s sz would_regrow =
     (let oldtype = s_type s; len = sds_len s in
      if sds_alloc s = sz then Some s
      else
        let len = (if sz < len then sz else len);
            type = sdsReqType sz;
            type = (if would_regrow \<and> type = SDS_TYPE_5 then SDS_TYPE_8 else type);
            use_realloc = (oldtype = type \<or> (type < oldtype \<and> type > SDS_TYPE_8));
            newlen = ((if use_realloc then sdsHdrSize oldtype else sdsHdrSize type) + sz + 1) mod 2 ^ 64
        in do {
          s \<leftarrow> (if use_realloc
                then Some (s\<lparr>s_buf := realloc junk (s_buf s) (newlen - sdsHdrSize oldtype)\<rparr>)
                else do {
                  d \<leftarrow> mem_read (s_buf s) 0 len;
                  write_buf (s\<lparr>s_type := type, s_buf := map junk [0..<newlen - sdsHdrSize type]\<rparr>) 0 d
                });
          s \<leftarrow> write_buf s len [0];
          Some (sds_set_alloc (sds_set_len s len) sz)
        })"

definition sds_remove_free_space :: "(nat \<Rightarrow> byte) \<Rightarrow> sds \<Rightarrow> bool \<Rightarrow> sds option" where
  "sds_remove_free_space junk s would_regrow = sds_resize junk s (sds_len s) would_regrow"

section \<open>The invariant\<close>

definition sds_ok :: "sds \<Rightarrow> bool" where
  "sds_ok s \<longleftrightarrow> s_type s \<le> SDS_TYPE_64 \<and> s_len s < 2 ^ len_bits (s_type s)
     \<and> (if s_type s = SDS_TYPE_5 then s_len s < length (s_buf s)
        else s_len s \<le> s_alloc s \<and> s_alloc s < 2 ^ len_bits (s_type s) \<and> s_alloc s < length (s_buf s))
     \<and> s_buf s ! s_len s = 0"

definition sds_val :: "sds \<Rightarrow> byte list" where
  "sds_val s = take (s_len s) (s_buf s)"

definition usable_ok :: "(nat \<Rightarrow> nat) \<Rightarrow> bool" where
  "usable_ok usable \<longleftrightarrow> (\<forall>n. n \<le> usable n)"

lemma usable_okD: "usable_ok usable \<Longrightarrow> n \<le> usable n"
  by (simp add: usable_ok_def)

lemma sds_okD:
  assumes "sds_ok s"
  shows "s_type s \<le> SDS_TYPE_64" "s_len s < 2 ^ len_bits (s_type s)" "s_len s < length (s_buf s)"
    "s_buf s ! s_len s = 0" "sds_len s = s_len s"
  using assms by (auto simp: sds_ok_def sds_len_def split: if_splits)

lemma length_sds_val: "sds_ok s \<Longrightarrow> length (sds_val s) = s_len s"
  using sds_okD(3) [of s] by (simp add: sds_val_def)

lemma len_bits_le: "2 ^ len_bits t \<le> (2 :: nat) ^ 64"
  by (rule power_increasing) (auto simp: len_bits_def)

lemma diff_mod_width: "l \<le> a \<Longrightarrow> a < m \<Longrightarrow> (a + m - l) mod m = a - (l :: nat)"
  by (metis Nat.add_diff_assoc2 less_imp_diff_less mod_add_self2 mod_less)

lemma sds_avail_ok:
  assumes ok: "sds_ok s"
  shows "sds_avail s = (if s_type s = SDS_TYPE_5 then 0 else s_alloc s - s_len s)"
proof (cases "s_type s = SDS_TYPE_5")
  case False
  with ok have l: "s_len s \<le> s_alloc s" "s_alloc s < 2 ^ len_bits (s_type s)" "s_type s \<le> 4"
    by (auto simp: sds_ok_def)
  from l(2) len_bits_le [of "s_type s"] have a: "s_alloc s < 2 ^ 64" by (rule less_le_trans)
  have "s_type s = 3 \<Longrightarrow> s_alloc s < 2 ^ 32" using l(2) by (simp add: len_bits_def)
  then show ?thesis
    using False l(3) diff_mod_width [OF l(1) a] diff_mod_width [OF l(1), of "2 ^ 32"]
    by (auto simp: sds_avail_def)
qed (simp add: sds_avail_def)

lemma req_type:
  "n < 2 ^ 64 \<Longrightarrow> sdsReqType n \<le> SDS_TYPE_64 \<and> n < 2 ^ len_bits (sdsReqType n)"
  by (simp add: sdsReqType_def len_bits_def)

lemma hdr_size: "t \<le> SDS_TYPE_64 \<Longrightarrow> 1 \<le> sdsHdrSize t \<and> sdsHdrSize t \<le> 17"
  by (auto simp: sdsHdrSize_def)

lemma max_size: "t \<le> SDS_TYPE_64 \<Longrightarrow> sdsTypeMaxSize t = 2 ^ len_bits t - 1"
  by (auto simp: sdsTypeMaxSize_def len_bits_def)

lemma cap_bounds:
  assumes "t \<le> SDS_TYPE_64" "n < 2 ^ len_bits t" "h + n + 1 \<le> us"
  shows "n \<le> min (us - h - 1) (sdsTypeMaxSize t)"
    "min (us - h - 1) (sdsTypeMaxSize t) mod 2 ^ len_bits t = min (us - h - 1) (sdsTypeMaxSize t)"
    "min (us - h - 1) (sdsTypeMaxSize t) < 2 ^ len_bits t"
    "min (us - h - 1) (sdsTypeMaxSize t) < us - h"
proof -
  have p: "0 < (2 :: nat) ^ len_bits t" by simp
  have m: "sdsTypeMaxSize t = 2 ^ len_bits t - 1" using assms(1) by (rule max_size)
  show "n \<le> min (us - h - 1) (sdsTypeMaxSize t)" unfolding m min.bounded_iff using assms by linarith
  show lt: "min (us - h - 1) (sdsTypeMaxSize t) < 2 ^ len_bits t"
    unfolding m min_less_iff_disj using p by (intro disjI2) linarith
  then show "min (us - h - 1) (sdsTypeMaxSize t) mod 2 ^ len_bits t = min (us - h - 1) (sdsTypeMaxSize t)"
    by (rule mod_less)
  show "min (us - h - 1) (sdsTypeMaxSize t) < us - h" using assms by simp
qed

lemma write_buf_Some:
  "off + length bs \<le> length (s_buf s) \<Longrightarrow>
   write_buf s off bs = Some (s\<lparr>s_buf := take off (s_buf s) @ bs @ drop (off + length bs) (s_buf s)\<rparr>)"
  by (simp add: write_buf_def mem_write_def)

lemma nul_at: "n \<le> length xs \<Longrightarrow> (take n xs @ 0 # ys) ! n = (0 :: byte)"
  by (simp add: nth_append)

lemma sds_new_len_ok:
  assumes u: "usable_ok usable" and n: "n + 18 < 2 ^ 64" "n \<le> length bs"
  shows "\<exists>s. sds_new_len usable junk (Init_bytes bs) n = Some s \<and> sds_ok s \<and> sds_val s = take n bs"
proof -
  define t where "t = (if sdsReqType n = SDS_TYPE_5 \<and> n = 0 then SDS_TYPE_8 else sdsReqType n)"
  define h where "h = sdsHdrSize t"
  define us where "us = usable (h + n + 1)"
  have t: "t \<le> SDS_TYPE_64" "n < 2 ^ len_bits t"
    using req_type [of n] n by (auto simp: t_def len_bits_def sdsReqType_def)
  have h: "1 \<le> h" "h \<le> 17" using hdr_size [OF t(1)] by (auto simp: h_def)
  have us: "h + n + 1 \<le> us" using u by (simp add: us_def usable_okD)
  note cap = cap_bounds [OF t us]
  define s0 where "s0 = \<lparr>s_type = t, s_len = n mod 2 ^ len_bits t,
     s_alloc = min (us - h - 1) (sdsTypeMaxSize t) mod 2 ^ len_bits t, s_buf = map junk [0..<us - h]\<rparr>"
  define b where "b = take n bs @ 0 # drop (n + 1) (map junk [0..<us - h])"
  have "sds_new_len usable junk (Init_bytes bs) n =
      (do { s \<leftarrow> (if n \<noteq> 0 then do { d \<leftarrow> mem_read bs 0 n; write_buf s0 0 d } else Some s0);
            write_buf s n [0] })"
    using n h by (simp add: sds_new_len_def sds_new_len_raw_def Let_def s0_def us_def
        flip: t_def h_def)
  also have "\<dots> = Some (s0\<lparr>s_buf := b\<rparr>)"
    using n us by (cases "n = 0") (auto simp: mem_read_def write_buf_Some s0_def b_def)
  finally have eq: "sds_new_len usable junk (Init_bytes bs) n = Some (s0\<lparr>s_buf := b\<rparr>)" .
  have lb: "length b = us - h" using n us by (simp add: b_def)
  have s0: "s0 = \<lparr>s_type = t, s_len = n, s_alloc = min (us - h - 1) (sdsTypeMaxSize t),
      s_buf = map junk [0..<us - h]\<rparr>"
    unfolding s0_def cap(2) mod_less [OF t(2)] ..
  have "sds_ok (s0\<lparr>s_buf := b\<rparr>)"
    unfolding s0 sds_ok_def using t cap(1,3,4) lb us n by (auto simp: b_def nul_at)
  moreover have "sds_val (s0\<lparr>s_buf := b\<rparr>) = take n bs"
    unfolding s0 using n by (simp add: sds_val_def b_def)
  ultimately show ?thesis using eq by blast
qed

lemma sds_move_ok:
  assumes u: "usable_ok usable" and ok: "sds_ok s"
    and t: "t \<le> SDS_TYPE_64" "t \<noteq> SDS_TYPE_5" and nl: "nl < 2 ^ len_bits t" "s_len s \<le> nl"
  shows "\<exists>s'. sds_move usable junk s t nl = Some s' \<and> sds_ok s' \<and> sds_val s' = sds_val s
    \<and> s_len s' = s_len s \<and> nl - s_len s \<le> sds_avail s'"
proof -
  define h us where "h = sdsHdrSize t" and "us = usable (h + nl + 1)"
  define c where "c = min (us - h - 1) (sdsTypeMaxSize t)"
  have us: "h + nl + 1 \<le> us" using u by (simp add: us_def usable_okD)
  note cap = cap_bounds [OF t(1) nl(1) us, folded c_def]
  note l = sds_okD [OF ok]
  define b where "b = (if s_type s = t then realloc junk (s_buf s) (us - h)
    else take (s_len s + 1) (s_buf s) @ drop (s_len s + 1) (map junk [0..<us - h]))"
  have lb: "length b = us - h" and tb: "take (s_len s + 1) b = take (s_len s + 1) (s_buf s)"
    using us nl l(3) by (auto simp: b_def take_realloc)
  have nth: "b ! s_len s = 0"
    using arg_cong [OF tb, of "\<lambda>xs. xs ! s_len s"] l(4) by simp
  have val: "take (s_len s) b = take (s_len s) (s_buf s)"
    using arg_cong [OF tb, of "take (s_len s)"] by (simp add: min_def)
  have sl: "s_len s < 2 ^ len_bits t" using nl by linarith
  define s' where "s' = \<lparr>s_type = t, s_len = s_len s, s_alloc = c, s_buf = b\<rparr>"
  have "sds_move usable junk s t nl = Some s'"
  proof (cases "s_type s = t")
    case True
    then show ?thesis
      using t cap(2) by (simp add: sds_move_def Let_def s'_def b_def sds_set_alloc_def c_def us_def h_def)
  next
    case False
    have "s_len s + 1 \<le> us - h" using us nl by linarith
    then show ?thesis
      using False t cap(2) l sl
      by (simp add: sds_move_def Let_def s'_def b_def sds_set_alloc_def sds_set_len_def
          mem_read_def write_buf_Some c_def us_def h_def)
  qed
  moreover have "sds_ok s'"
    using t nl cap(1,3,4) sl nth by (simp add: sds_ok_def s'_def lb)
  moreover from this have "sds_avail s' = c - s_len s"
    using t by (simp add: sds_avail_ok s'_def)
  then have "nl - s_len s \<le> sds_avail s'" using cap(1) by simp
  ultimately show ?thesis using val by (auto simp: s'_def sds_val_def)
qed

lemma make_room_ok:
  assumes u: "usable_ok usable" and ok: "sds_ok s" and n: "s_len s + addlen < 2 ^ 63"
  shows "\<exists>s'. sds_make_room_for_raw usable junk s addlen exact = Some s' \<and> sds_ok s'
    \<and> sds_val s' = sds_val s \<and> s_len s' = s_len s \<and> addlen \<le> sds_avail s'"
proof (cases "addlen \<le> sds_avail s")
  case True
  with ok show ?thesis by (simp add: sds_make_room_for_raw_def)
next
  case False
  define r where "r = s_len s + addlen"
  define nl where "nl = (if exact then r else if r < SDS_MAX_PREALLOC
    then r * 2 else (r + SDS_MAX_PREALLOC) mod 2 ^ 64)"
  define t where "t = (if sdsReqType nl = SDS_TYPE_5 then SDS_TYPE_8 else sdsReqType nl)"
  have r: "(s_len s + addlen) mod 2 ^ 64 = r" "s_len s < r" "r < 2 ^ 63"
    using n False by (simp_all add: r_def)
  have nl: "r \<le> nl" "nl + 18 < 2 ^ 64"
    using r(3) by (auto simp: nl_def SDS_MAX_PREALLOC_def)
  have t: "t \<le> SDS_TYPE_64" "t \<noteq> SDS_TYPE_5" "nl < 2 ^ len_bits t"
    using req_type [of nl] nl by (auto simp: t_def len_bits_def sdsReqType_def)
  have "(sdsHdrSize t + nl + 1) mod 2 ^ 64 > r"
    using hdr_size [OF t(1)] nl by simp
  then have "sds_make_room_for_raw usable junk s addlen exact = sds_move usable junk s t nl"
    unfolding sds_make_room_for_raw_def Let_def sds_okD(5) [OF ok] r(1)
    unfolding nl_def [symmetric] t_def [symmetric]
    using False r(2) by simp
  moreover obtain s' where "sds_move usable junk s t nl = Some s'" "sds_ok s'"
    "sds_val s' = sds_val s" "s_len s' = s_len s" "nl - s_len s \<le> sds_avail s'"
    using sds_move_ok [OF u ok t, of junk] nl r by auto
  moreover have "addlen \<le> nl - s_len s" using nl(1) by (simp add: r_def)
  ultimately show ?thesis by fastforce
qed

lemma sds_cat_len_ok:
  assumes u: "usable_ok usable" and ok: "sds_ok s" and n: "s_len s + n < 2 ^ 63" "n \<le> length d"
  shows "\<exists>s'. sds_cat_len usable junk s d n = Some s' \<and> sds_ok s' \<and> sds_val s' = sds_val s @ take n d"
proof -
  from make_room_ok [OF u ok n(1), of junk False] obtain s1 where
    s1: "sds_make_room_for usable junk s n = Some s1" "sds_ok s1" "sds_val s1 = sds_val s"
    "s_len s1 = s_len s" "n \<le> sds_avail s1" by (auto simp: sds_make_room_for_def)
  let ?l = "s_len s"
  note k = sds_okD [OF s1(2), unfolded s1(4)]
  have room: "?l + n < length (s_buf s1)" "?l + n < 2 ^ len_bits (s_type s1)"
    "s_type s1 \<noteq> SDS_TYPE_5 \<longrightarrow> ?l + n \<le> s_alloc s1 \<and> s_alloc s1 < 2 ^ len_bits (s_type s1)
       \<and> s_alloc s1 < length (s_buf s1)"
    using s1(2,4,5) k sds_avail_ok [OF s1(2)] by (auto simp: sds_ok_def split: if_splits)
  define b where "b = take ?l (s_buf s1) @ take n d @ 0 # drop (?l + n + 1) (s_buf s1)"
  have "sds_cat_len usable junk s d n = Some (s1\<lparr>s_len := ?l + n, s_buf := b\<rparr>)"
    using s1(1) room k n sds_okD(5) [OF ok]
    by (simp add: sds_cat_len_def Let_def mem_read_def write_buf_Some sds_set_len_def b_def)
  moreover have "length b = length (s_buf s1)" "b ! (?l + n) = 0"
    using room n k by (simp_all add: b_def nth_append)
  then have "sds_ok (s1\<lparr>s_len := ?l + n, s_buf := b\<rparr>)"
    using room k by (simp add: sds_ok_def)
  moreover have "sds_val (s1\<lparr>s_len := ?l + n, s_buf := b\<rparr>) = sds_val s @ take n d"
    using room n k s1(3,4) sds_okD(3) [OF ok] by (simp add: sds_val_def b_def)
  ultimately show ?thesis by blast
qed

section \<open>Operations in place\<close>

lemma truncate_ok:
  assumes "sds_ok s" "m \<le> s_len s" "length b = length (s_buf s)" "b ! m = 0"
  shows "sds_ok (s\<lparr>s_len := m, s_buf := b\<rparr>)" "sds_val (s\<lparr>s_len := m, s_buf := b\<rparr>) = take m b"
  using assms by (auto simp: sds_ok_def sds_val_def split: if_splits)

lemma set_len_small: "sds_ok s \<Longrightarrow> m \<le> s_len s \<Longrightarrow> sds_set_len s m = s\<lparr>s_len := m\<rparr>"
  using sds_okD(1,2) [of s] by (simp add: sds_set_len_def)

text \<open>Moving \<open>m\<close> bytes at \<open>k\<close> to the front, terminating and setting the length: the common end
  of \<open>sdssubstr\<close> and \<open>sds_trim\<close>.\<close>

lemma cut_ok:
  assumes ok: "sds_ok s" and km: "k + m \<le> s_len s"
    and s1: "s1 = (if k = 0 then s else s\<lparr>s_buf := take m (drop k (s_buf s)) @ drop m (s_buf s)\<rparr>)"
  shows "\<exists>s'. do { s \<leftarrow> write_buf s1 m [0]; Some (sds_set_len s m) } = Some s'
    \<and> sds_ok s' \<and> sds_val s' = take m (drop k (sds_val s))"
proof -
  note l = sds_okD [OF ok]
  define b where "b = take m (drop k (s_buf s)) @ 0 # drop (m + 1) (s_buf s)"
  have lb: "length b = length (s_buf s)" "b ! m = 0" using km l(3) by (simp_all add: b_def nth_append)
  have "write_buf s1 m [0] = Some (s\<lparr>s_buf := b\<rparr>)"
    using km l(3) by (auto simp: write_buf_Some s1 b_def)
  moreover have "sds_set_len (s\<lparr>s_buf := b\<rparr>) m = s\<lparr>s_len := m, s_buf := b\<rparr>"
    using km l(1,2) by (simp add: sds_set_len_def)
  moreover have "take m b = take m (drop k (sds_val s))"
    using km l(3) by (auto simp: b_def sds_val_def drop_take min_def)
  ultimately show ?thesis using truncate_ok [OF ok _ lb] km by simp
qed

lemma sdssubstr_ok:
  assumes ok: "sds_ok s"
  shows "\<exists>s'. sdssubstr s start n = Some s' \<and> sds_ok s'
    \<and> sds_val s' = (if start < s_len s then take n (drop start (sds_val s)) else [])"
proof -
  define k where "k = (if start < s_len s then start else 0)"
  define m where "m = (if start < s_len s then min n (s_len s - start) else 0)"
  note l = sds_okD [OF ok]
  have km: "k + m \<le> s_len s" by (auto simp: k_def m_def)
  define s1 where "s1 = (if m = 0 then s else s\<lparr>s_buf := take m (drop k (s_buf s)) @ drop m (s_buf s)\<rparr>)"
  have mv: "(if m \<noteq> 0 then move_buf s 0 k m else Some s) = Some s1"
    using km l(3) by (simp add: move_buf_def mem_move_Some s1_def)
  have "sdssubstr s start n = do { s \<leftarrow> write_buf s1 m [0]; Some (sds_set_len s m) }"
  proof -
    have "sdssubstr s start n = do {
        s \<leftarrow> (if m \<noteq> 0 then move_buf s 0 k m else Some s);
        s \<leftarrow> write_buf s m [0];
        Some (sds_set_len s m) }"
      using l(5) by (simp add: sdssubstr_def Let_def k_def m_def min_def not_less)
    then show ?thesis by (simp only: mv bind.bind_lunit)
  qed
  moreover have "\<exists>s'. do { s \<leftarrow> write_buf s1 m [0]; Some (sds_set_len s m) } = Some s'
    \<and> sds_ok s' \<and> sds_val s' = take m (drop k (sds_val s))"
  proof (cases "m = 0 \<or> k = 0")
    case True
    then have "s1 = (if (if m = 0 then 0 else k) = 0 then s
        else s\<lparr>s_buf := take m (drop (if m = 0 then 0 else k) (s_buf s)) @ drop m (s_buf s)\<rparr>)"
      by (auto simp: s1_def)
    from cut_ok [OF ok _ this] km True show ?thesis by (auto split: if_splits)
  next
    case False
    with cut_ok [OF ok km, of s1] show ?thesis by (simp add: s1_def)
  qed
  moreover have "take m (drop k (sds_val s)) = (if start < s_len s then take n (drop start (sds_val s)) else [])"
    using length_sds_val [OF ok] by (auto simp: k_def m_def min_def)
  ultimately show ?thesis by simp
qed

text \<open>The substring the indices denote: counted from the end when negative; empty when the
  start lies outside the string or behind the end.\<close>

definition range_spec :: "byte list \<Rightarrow> int \<Rightarrow> int \<Rightarrow> byte list" where
  "range_spec xs start stop =
     (let n = int (length xs);
          a = (if start < 0 then n + start else start);
          e = (if stop < 0 then n + stop else stop)
      in if a < 0 \<or> n \<le> a \<or> e < a then [] else take (nat (e - a + 1)) (drop (nat a) xs))"

lemma sds_range_ok:
  assumes ok: "sds_ok s" and len: "s_len s < 2 ^ 62"
    and b: "- (2 ^ 62) \<le> start" "start < 2 ^ 62" "- (2 ^ 62) \<le> stop" "stop < 2 ^ 62"
  shows "\<exists>s'. sds_range s start stop = Some s' \<and> sds_ok s' \<and> sds_val s' = range_spec (sds_val s) start stop"
proof (cases "s_len s = 0")
  case True
  with ok length_sds_val [OF ok] show ?thesis
    by (simp add: sds_range_def sds_okD(5) range_spec_def)
next
  case False
  define a where "a = (if start < 0 then int (s_len s) + start else start)"
  define e where "e = (if stop < 0 then int (s_len s) + stop else stop)"
  define m where "m = (if a > e then 0 else e - a + 1)"
  have r: "sds_range s start stop = sdssubstr s (nat (a mod 2 ^ 64)) (nat (m mod 2 ^ 64))"
    using False sds_okD(5) [OF ok] by (simp add: sds_range_def Let_def a_def e_def m_def)
  have ab: "- (2 ^ 62) \<le> a" "a < 2 ^ 62" "- (2 ^ 62) \<le> e" "e < 2 ^ 62" "0 \<le> m" "m < 2 ^ 64"
    using b len by (auto simp: a_def e_def m_def)
  have m: "nat (m mod 2 ^ 64) = nat m" using ab by (simp add: mod_pos_pos_trivial)
  have am: "a mod 2 ^ 64 = (if a < 0 then a + 2 ^ 64 else a)"
  proof (cases "a < 0")
    case True
    have "a mod 2 ^ 64 = (a + 2 ^ 64) mod 2 ^ 64" by simp
    also have "\<dots> = a + 2 ^ 64" using True ab by (intro mod_pos_pos_trivial) simp_all
    finally show ?thesis using True by simp
  qed (use ab in \<open>simp add: mod_pos_pos_trivial\<close>)
  have "nat (a mod 2 ^ 64) < s_len s \<longleftrightarrow> 0 \<le> a \<and> a < int (s_len s)"
    using am ab len by auto
  moreover have "0 \<le> a \<Longrightarrow> nat (a mod 2 ^ 64) = nat a" using am by simp
  ultimately have "(if nat (a mod 2 ^ 64) < s_len s
      then take (nat m) (drop (nat (a mod 2 ^ 64)) (sds_val s)) else []) = range_spec (sds_val s) start stop"
    using length_sds_val [OF ok]
    by (auto simp: range_spec_def Let_def m_def simp flip: a_def e_def)
  with sdssubstr_ok [OF ok, of "nat (a mod 2 ^ 64)" "nat m"] r m show ?thesis by simp
qed

definition trim_spec :: "(byte \<Rightarrow> bool) \<Rightarrow> byte list \<Rightarrow> byte list" where
  "trim_spec P xs = rev (dropWhile P (rev (dropWhile P xs)))"

lemma trim_left_eq:
  "sp + n \<le> length buf \<Longrightarrow>
   trim_left buf cset sp n = Some (sp + length (takeWhile (c_strchr cset) (take n (drop sp buf))))"
proof (induction n arbitrary: sp)
  case (Suc n)
  then have "drop sp buf = buf ! sp # drop (Suc sp) buf" by (simp add: Cons_nth_drop_Suc)
  with Suc show ?case by (simp add: get_at_def)
qed simp

lemma trim_right_eq:
  "ep < length buf \<Longrightarrow> sp \<le> ep \<Longrightarrow> \<not> c_strchr cset (buf ! sp) \<Longrightarrow>
   trim_right buf cset sp ep
     = Some (ep - length (takeWhile (c_strchr cset) (rev (take (ep + 1 - sp) (drop sp buf)))))"
proof (induction ep)
  case (Suc ep)
  show ?case
  proof (cases "Suc ep = sp")
    case True
    then have "take (Suc ep + 1 - sp) (drop sp buf) = [buf ! sp]"
      using Suc.prems by (simp flip: Cons_nth_drop_Suc)
    moreover have "trim_right buf cset sp (Suc ep) = Some (Suc ep)"
      by (subst trim_right.simps) (simp add: True)
    ultimately show ?thesis using Suc.prems(3) by (simp only:) simp
  next
    case False
    with Suc.prems have lt: "sp \<le> ep" by simp
    have "take (Suc ep + 1 - sp) (drop sp buf) = take (ep + 1 - sp) (drop sp buf) @ [buf ! Suc ep]"
      using lt Suc.prems(1) take_Suc_conv_app_nth [of "ep + 1 - sp" "drop sp buf"]
      by (simp add: Suc_diff_le)
    with Suc lt show ?thesis by (simp add: get_at_def)
  qed
qed simp

lemma trim_spec_last:
  assumes "\<not> P y"
  shows "trim_spec P (y # ys) = take (length (y # ys) - length (takeWhile P (rev (y # ys)))) (y # ys)"
  using assms by (simp add: trim_spec_def dropWhile_eq_drop rev_drop del: rev.simps(2))

lemma sds_trim_ok:
  assumes ok: "sds_ok s"
  shows "\<exists>s'. sds_trim s cset = Some s' \<and> sds_ok s' \<and> sds_val s' = trim_spec (c_strchr cset) (sds_val s)"
proof (cases "s_len s = 0")
  case True
  with cut_ok [OF ok, of 0 0 s] show ?thesis
    by (simp add: sds_trim_def sds_okD(5) [OF ok] trim_spec_def sds_val_def)
next
  case False
  let ?P = "c_strchr cset" and ?n = "s_len s" and ?buf = "s_buf s"
  note l = sds_okD [OF ok]
  define sp where "sp = length (takeWhile ?P (sds_val s))"
  have spn: "sp \<le> ?n" using length_takeWhile_le [of ?P "sds_val s"] length_sds_val [OF ok]
    by (simp add: sp_def)
  have left: "trim_left ?buf cset 0 ?n = Some sp"
    using trim_left_eq [of 0 ?n ?buf cset] l(3) by (simp add: sp_def sds_val_def)
  have dw: "dropWhile ?P (sds_val s) = drop sp (sds_val s)" by (simp add: dropWhile_eq_drop sp_def)
  show ?thesis
  proof (cases "sp = ?n")
    case True
    then have d0: "dropWhile ?P (sds_val s) = []" unfolding dw using length_sds_val [OF ok] by simp
    have spec: "trim_spec ?P (sds_val s) = []" unfolding trim_spec_def d0 by simp
    have right: "trim_right ?buf cset ?n (?n - 1) = Some (?n - 1)"
      using False by (cases "?n - 1") auto
    have mv: "move_buf s 0 ?n 0 = Some s"
      using l(3) by (simp add: move_buf_def mem_move_Some)
    show ?thesis
      using False True left right mv l(5) cut_ok [OF ok, of 0 0 s] spec
      by (simp add: sds_trim_def Let_def)
  next
    case neq: False
    with spn have lt: "sp < ?n" by simp
    have hdP: "\<not> ?P (?buf ! sp)"
      using nth_length_takeWhile [of ?P "sds_val s"] lt length_sds_val [OF ok]
      by (simp add: sp_def [symmetric]) (simp add: sds_val_def)
    have dv: "take (?n - sp) (drop sp ?buf) = drop sp (sds_val s)"
      using lt by (simp add: sds_val_def drop_take)
    define r where "r = length (takeWhile ?P (rev (drop sp (sds_val s))))"
    define m where "m = ?n - sp - r"
    have right: "trim_right ?buf cset sp (?n - 1) = Some (?n - 1 - r)"
      using trim_right_eq [of "?n - 1" ?buf sp cset] lt l(3) hdP dv by (simp add: r_def)
    have ne: "drop sp (sds_val s) = ?buf ! sp # drop (Suc sp) (sds_val s)"
      using lt length_sds_val [OF ok] by (simp add: sds_val_def flip: Cons_nth_drop_Suc)
    have "r < length (drop sp (sds_val s))"
      unfolding r_def by (metis hdP length_rev length_takeWhile_le less_le list.set_intros(1) ne
          set_rev takeWhile_eq_all_conv takeWhile_eq_take take_all_iff le_refl)
    then have rl: "r < ?n - sp" by (simp add: length_sds_val [OF ok])
    have "trim_spec ?P (sds_val s) = trim_spec ?P (drop sp (sds_val s))"
      using hdP ne by (simp add: trim_spec_def dw)
    also have "\<dots> = take m (drop sp (sds_val s))"
      using trim_spec_last [of ?P "?buf ! sp" "drop (Suc sp) (sds_val s)", OF hdP] unfolding ne [symmetric]
      by (simp add: m_def r_def length_sds_val [OF ok])
    finally have spec: "trim_spec ?P (sds_val s) = take m (drop sp (sds_val s))" .
    have len: "(if sp > ?n - 1 - r then 0 else ?n - 1 - r - sp + 1) = m" "sp + m \<le> ?n"
      using rl lt by (auto simp: m_def)
    define s1 where "s1 = (if sp = 0 then s else s\<lparr>s_buf := take m (drop sp ?buf) @ drop m ?buf\<rparr>)"
    have mv: "(if sp \<noteq> 0 then move_buf s 0 sp m else Some s) = Some s1"
      using len(2) l(3) by (simp add: move_buf_def mem_move_Some s1_def)
    have "sds_trim s cset = do { s \<leftarrow> write_buf s1 m [0]; Some (sds_set_len s m) }"
      unfolding sds_trim_def Let_def l(5) left bind.bind_lunit right len(1) mv using False by simp
    with cut_ok [OF ok len(2) s1_def] spec show ?thesis by simp
  qed
qed

lemma sds_clear_ok: "sds_ok s \<Longrightarrow> \<exists>s'. sds_clear s = Some s' \<and> sds_ok s' \<and> sds_val s' = []"
proof -
  assume ok: "sds_ok s"
  note l = sds_okD [OF ok]
  let ?b = "0 # drop 1 (s_buf s)"
  have "sds_clear s = Some (s\<lparr>s_len := 0, s_buf := ?b\<rparr>)"
    using set_len_small [OF ok, of 0] l(3) by (simp add: sds_clear_def write_buf_Some)
  with truncate_ok [OF ok, of 0 ?b] l(3) show ?thesis by auto
qed

text \<open>The size a resize needs: room for the new size in the header type it keeps or chooses.\<close>

lemma sds_resize_ok:
  assumes ok: "sds_ok s" and sz: "sz + 18 < 2 ^ 64"
  shows "\<exists>s'. sds_resize junk s sz wr = Some s' \<and> sds_ok s'
    \<and> sds_val s' = take sz (sds_val s) \<and> sds_alloc s' = (if s_type s' = SDS_TYPE_5 then s_len s' else sz)"
proof (cases "sds_alloc s = sz")
  case True
  with ok length_sds_val [OF ok] show ?thesis
    by (auto simp: sds_resize_def sds_alloc_def sds_ok_def Let_def split: if_splits)
next
  case False
  note l = sds_okD [OF ok]
  define n where "n = min sz (s_len s)"
  define t where "t = (if wr \<and> sdsReqType sz = SDS_TYPE_5 then SDS_TYPE_8 else sdsReqType sz)"
  define k where "k = (s_type s = t \<or> (t < s_type s \<and> t > SDS_TYPE_8))"
  define t' where "t' = (if k then s_type s else t)"
  have t: "t \<le> SDS_TYPE_64" "sz < 2 ^ len_bits t"
    using req_type [of sz] sz by (auto simp: t_def len_bits_def sdsReqType_def)
  have mono: "t \<le> t' \<Longrightarrow> (2 :: nat) ^ len_bits t \<le> 2 ^ len_bits t'"
    by (rule power_increasing) (auto simp: len_bits_def)
  have t': "t' \<le> SDS_TYPE_64" "sz < 2 ^ len_bits t'"
    using t l(1) mono by (auto simp: t'_def k_def intro: less_le_trans)
  define b0 where "b0 = (if k then realloc junk (s_buf s) (sz + 1)
     else take n (s_buf s) @ drop n (map junk [0..<sz + 1]))"
  define b where "b = take n b0 @ 0 # drop (n + 1) b0"
  have n: "n \<le> sz" "n \<le> s_len s" by (simp_all add: n_def)
  have hk: "((if k then sdsHdrSize (s_type s) else sdsHdrSize t) + sz + 1) mod 2 ^ 64
      - sdsHdrSize t' = sz + 1"
    using hdr_size [OF t(1)] hdr_size [OF l(1)] sz by (auto simp: t'_def)
  have lb0: "length b0 = sz + 1" using n l(3) by (simp add: b0_def)
  have tb0: "take n b0 = take n (s_buf s)" using n l(3) by (simp add: b0_def take_realloc)
  define s1 where "s1 = s\<lparr>s_type := t', s_buf := b0\<rparr>"
  define s' where "s' = s\<lparr>s_type := t', s_len := n, s_alloc := (if t' = SDS_TYPE_5 then s_alloc s else sz), s_buf := b\<rparr>"
  have nmin: "(if sz < s_len s then sz else s_len s) = n" by (simp add: n_def)
  have n2: "n < 2 ^ len_bits t'" using n(1) t'(2) by linarith
  have "sds_resize junk s sz wr = do { s \<leftarrow> write_buf s1 n [0]; Some (sds_set_alloc (sds_set_len s n) sz) }"
  proof (cases k)
    case True
    then show ?thesis using False hk
      unfolding sds_resize_def Let_def t_def [symmetric] k_def [symmetric] l(5) nmin
      by (simp add: s1_def b0_def t'_def)
  next
    case kF: False
    have w: "write_buf (s\<lparr>s_type := t, s_buf := map junk [0..<sz + 1]\<rparr>) 0 (take n (s_buf s)) = Some s1"
      using kF n l(3) by (simp add: write_buf_Some s1_def b0_def t'_def)
    have "mem_read (s_buf s) 0 n = Some (take n (s_buf s))" using n l(3) by (simp add: mem_read_def)
    then show ?thesis using False kF hk w
      unfolding sds_resize_def Let_def t_def [symmetric] k_def [symmetric] l(5) nmin
      by (simp add: t'_def del: upt_Suc)
  qed
  also have "\<dots> = Some s'"
    using t' n n2 lb0 by (cases "t' = 0") (simp_all add: write_buf_Some s1_def s'_def b_def sds_set_alloc_def sds_set_len_def)
  finally have "sds_resize junk s sz wr = Some s'" .
  moreover have "length b = sz + 1" "b ! n = 0" using lb0 n by (simp_all add: b_def nth_append)
  then have "sds_ok s'" using t' n n2 by (simp add: sds_ok_def s'_def)
  moreover have "sds_val s' = take sz (sds_val s)"
    using lb0 tb0 n l(3) by (simp add: sds_val_def s'_def b_def) (simp add: n_def)
  moreover have "sds_alloc s' = (if s_type s' = SDS_TYPE_5 then s_len s' else sz)"
    using t' by (simp add: sds_alloc_def s'_def)
  ultimately show ?thesis by blast
qed

section \<open>Properties\<close>

text \<open>C32. Appending to a dynamic string gives the concatenation, whatever header type the
  string has and changes to (5, 8, 16, 32 or 64 bits), whatever the allocator hands out beyond
  the request, and whatever fresh memory contains; all accesses stay inside the buffer, the
  fields do not overflow, and the result is again well formed and terminated.\<close>

theorem sds_cat_len_concat:
  assumes "usable_ok usable" and "sds_ok s" and "s_len s + n < 2 ^ 63" and "n \<le> length d"
  shows "\<exists>s'. sds_cat_len usable junk s d n = Some s' \<and> sds_ok s' \<and> sds_val s' = sds_val s @ take n d"
  using assms by (rule sds_cat_len_ok)

theorem sds_cat_len_concat_witness:
  "\<exists>s s'. sds_new_len (\<lambda>n. n) (\<lambda>_. 9) (Init_bytes (replicate 31 65)) 31 = Some s \<and> s_type s = SDS_TYPE_5
     \<and> sds_cat_len (\<lambda>n. n) (\<lambda>_. 9) s [66, 67, 68] 2 = Some s' \<and> sds_ok s'
     \<and> sds_val s' = replicate 31 65 @ [66, 67]"
proof -
  have u: "usable_ok (\<lambda>n. n)" by (simp add: usable_ok_def)
  obtain s where s: "sds_new_len (\<lambda>n. n) (\<lambda>_. 9) (Init_bytes (replicate 31 65)) 31 = Some s"
    "sds_ok s" "sds_val s = replicate 31 65"
    using sds_new_len_ok [OF u, of 31 "replicate 31 65" "\<lambda>_. 9"] by auto
  have "s_type s = SDS_TYPE_5"
    using s(1) by (auto simp: sds_new_len_def sds_new_len_raw_def Let_def sdsReqType_def sdsHdrSize_def
        write_buf_def bind_eq_Some_iff)
  moreover have "s_len s = 31" using length_sds_val [OF s(2)] s(3) by simp
  ultimately show ?thesis
    using s sds_cat_len_concat [OF u s(2), of 2 "[66, 67, 68]" "\<lambda>_. 9"] by auto
qed

text \<open>\<open>sds_range\<close> keeps exactly the substring its indices denote, negative indices counting
  from the end; a start before the beginning of the string is not clamped but gives the empty
  string.\<close>

theorem sds_range_exact:
  assumes "sds_ok s" and "s_len s < 2 ^ 62"
    and "- (2 ^ 62) \<le> start" and "start < 2 ^ 62" and "- (2 ^ 62) \<le> stop" and "stop < 2 ^ 62"
  shows "\<exists>s'. sds_range s start stop = Some s' \<and> sds_ok s' \<and> sds_val s' = range_spec (sds_val s) start stop"
  using assms by (rule sds_range_ok)

theorem sds_range_exact_witness:
  "\<exists>s s' s''. sds_new_len (\<lambda>n. n) (\<lambda>_. 9) (Init_bytes [72, 101, 108, 108, 111]) 5 = Some s
     \<and> sds_range s 1 (- 2) = Some s' \<and> sds_val s' = [101, 108, 108]
     \<and> sds_range s (- 100) (- 1) = Some s'' \<and> sds_val s'' = []"
proof -
  have u: "usable_ok (\<lambda>n. n)" by (simp add: usable_ok_def)
  obtain s where s: "sds_new_len (\<lambda>n. n) (\<lambda>_. 9) (Init_bytes [72, 101, 108, 108, 111]) 5 = Some s"
    "sds_ok s" "sds_val s = [72, 101, 108, 108, 111]"
    using sds_new_len_ok [OF u, of 5 "[72, 101, 108, 108, 111]" "\<lambda>_. 9"] by auto
  have "s_len s = 5" using length_sds_val [OF s(2)] s(3) by simp
  then show ?thesis
    using s sds_range_exact [OF s(2), of 1 "- 2"] sds_range_exact [OF s(2), of "- 100" "- 1"]
    by (auto simp: range_spec_def)
qed

text \<open>\<open>sds_trim\<close> removes from both ends the bytes of the set, and, because \<open>strchr\<close> finds the
  terminator of the set, NUL bytes as well; nothing else changes.\<close>

theorem sds_trim_exact:
  assumes "sds_ok s"
  shows "\<exists>s'. sds_trim s cset = Some s' \<and> sds_ok s' \<and> sds_val s' = trim_spec (c_strchr cset) (sds_val s)"
  using assms by (rule sds_trim_ok)

theorem sds_trim_exact_witness:
  "\<exists>s s'. sds_new_len (\<lambda>n. n) (\<lambda>_. 9) (Init_bytes [32, 0, 65, 32, 66, 0]) 6 = Some s
     \<and> sds_trim s [32] = Some s' \<and> sds_val s' = [65, 32, 66]"
proof -
  have u: "usable_ok (\<lambda>n. n)" by (simp add: usable_ok_def)
  obtain s where s: "sds_new_len (\<lambda>n. n) (\<lambda>_. 9) (Init_bytes [32, 0, 65, 32, 66, 0]) 6 = Some s"
    "sds_ok s" "sds_val s = [32, 0, 65, 32, 66, 0]"
    using sds_new_len_ok [OF u, of 6 "[32, 0, 65, 32, 66, 0]" "\<lambda>_. 9"] by auto
  then show ?thesis
    using sds_trim_exact [OF s(2), of "[32]"] by (auto simp: trim_spec_def c_strchr_def)
qed

text \<open>\<open>sds_resize\<close> truncates or keeps the string, records exactly the requested size (unless
  it ends with the 5-bit header, which has no such field), and chooses or keeps a header type
  that can hold it.\<close>

theorem sds_resize_exact:
  assumes "sds_ok s" and "sz + 18 < 2 ^ 64"
  shows "\<exists>s'. sds_resize junk s sz wr = Some s' \<and> sds_ok s'
    \<and> sds_val s' = take sz (sds_val s) \<and> sds_alloc s' = (if s_type s' = SDS_TYPE_5 then s_len s' else sz)"
  using assms by (rule sds_resize_ok)

theorem sds_resize_exact_witness:
  "\<exists>s s'. sds_new_len (\<lambda>n. n) (\<lambda>_. 9) (Init_bytes [72, 101, 108, 108, 111]) 5 = Some s
     \<and> sds_resize (\<lambda>_. 9) s 2 True = Some s' \<and> sds_val s' = [72, 101]"
proof -
  have u: "usable_ok (\<lambda>n. n)" by (simp add: usable_ok_def)
  obtain s where s: "sds_new_len (\<lambda>n. n) (\<lambda>_. 9) (Init_bytes [72, 101, 108, 108, 111]) 5 = Some s"
    "sds_ok s" "sds_val s = [72, 101, 108, 108, 111]"
    using sds_new_len_ok [OF u, of 5 "[72, 101, 108, 108, 111]" "\<lambda>_. 9"] by auto
  then show ?thesis
    using sds_resize_exact [OF s(2), of 2 "\<lambda>_. 9" True] by auto
qed

end
