(* ===== verification/SdsText.thy ===== *)
theory SdsText
  imports Sds Cmp "HOL-Library.Sublist"
begin

text \<open>
  The text functions of \<open>src/sds/sds.c\<close>: quoting (\<open>sds_catrepr\<close>) and its inverse, the argument
  parser (\<open>sds_split_args\<close>), splitting by a separator, comparison, search and case mapping. They
  build their results with the operations of \<open>Sds\<close>. A C string is a buffer read from its first
  byte; a pointer that walks along it is the rest of the buffer. Character classes are those of
  the C locale. The three formats that \<open>sds_catrepr\<close> passes to \<open>sds_cat_printf\<close> are written out.
\<close>

section \<open>Quoting\<close>

definition isprint :: "byte \<Rightarrow> bool" where
  "isprint c \<longleftrightarrow> 32 \<le> c \<and> c \<le> 126"

definition isspace :: "byte \<Rightarrow> bool" where
  "isspace c \<longleftrightarrow> c = 32 \<or> (9 \<le> c \<and> c \<le> 13)"

definition hex_char :: "nat \<Rightarrow> byte" where
  "hex_char n = (if n < 10 then of_nat (48 + n) else of_nat (87 + n))"

text \<open>What one byte is written as.\<close>

definition repr_byte :: "byte \<Rightarrow> byte list" where
  "repr_byte c =
     (if c = 92 \<or> c = 34 then [92, c]
      else if c = 10 then [92, 110]
      else if c = 13 then [92, 114]
      else if c = 9 then [92, 116]
      else if c = 7 then [92, 97]
      else if c = 8 then [92, 98]
      else if isprint c then [c]
      else [92, 120, hex_char (unat c div 16), hex_char (unat c mod 16)])"

fun sds_catrepr_loop :: "(nat \<Rightarrow> nat) \<Rightarrow> (nat \<Rightarrow> byte) \<Rightarrow> sds \<Rightarrow> byte list \<Rightarrow> nat \<Rightarrow> sds option" where
  "sds_catrepr_loop usable junk s p 0 = Some s"
| "sds_catrepr_loop usable junk s p (Suc len) =
     do {
       c \<leftarrow> get_at p 0;
       s \<leftarrow> sds_cat_len usable junk s (repr_byte c) (length (repr_byte c));
       sds_catrepr_loop usable junk s (drop 1 p) len
     }"

definition sds_catrepr :: "(nat \<Rightarrow> nat) \<Rightarrow> (nat \<Rightarrow> byte) \<Rightarrow> sds \<Rightarrow> byte list \<Rightarrow> nat \<Rightarrow> sds option" where
  "sds_catrepr usable junk s p len =
     do {
       s \<leftarrow> sds_cat_len usable junk s [34] 1;
       s \<leftarrow> sds_catrepr_loop usable junk s p len;
       sds_cat_len usable junk s [34] 1
     }"

section \<open>Parsing arguments\<close>

definition is_hex_digit :: "byte \<Rightarrow> bool" where
  "is_hex_digit c \<longleftrightarrow> (48 \<le> c \<and> c \<le> 57) \<or> (97 \<le> c \<and> c \<le> 102) \<or> (65 \<le> c \<and> c \<le> 70)"

definition hex_digit_to_int :: "byte \<Rightarrow> nat" where
  "hex_digit_to_int c =
     (if 48 \<le> c \<and> c \<le> 57 then unat (c - 48)
      else if 97 \<le> c \<and> c \<le> 102 then unat (c - 87)
      else if 65 \<le> c \<and> c \<le> 70 then unat (c - 55)
      else 0)"

text \<open>The test for an escape of the form backslash, \<open>x\<close>, two hex digits, and the byte it stands for.\<close>

definition hex_escape :: "byte list \<Rightarrow> byte option option" where
  "hex_escape p =
     do {
       c0 \<leftarrow> get_at p 0;
       if c0 \<noteq> 92 then Some None
       else do {
         c1 \<leftarrow> get_at p 1;
         if c1 \<noteq> 120 then Some None
         else do {
           c2 \<leftarrow> get_at p 2;
           if \<not> is_hex_digit c2 then Some None
           else do {
             c3 \<leftarrow> get_at p 3;
             if \<not> is_hex_digit c3 then Some None
             else Some (Some (of_nat (hex_digit_to_int c2 * 16 + hex_digit_to_int c3)))
           }
         }
       }
     }"

definition unescape :: "byte \<Rightarrow> byte" where
  "unescape c =
     (if c = 110 then 10 else if c = 114 then 13 else if c = 116 then 9
      else if c = 98 then 8 else if c = 97 then 7 else c)"

datatype quote_mode = Plain | InQ | InSQ

text \<open>The loop \<open>while(!done)\<close> over one token. \<open>Some None\<close> is the jump to \<open>err\<close>.\<close>

function split_token ::
  "(nat \<Rightarrow> nat) \<Rightarrow> (nat \<Rightarrow> byte) \<Rightarrow> quote_mode \<Rightarrow> sds \<Rightarrow> byte list \<Rightarrow> (sds \<times> byte list) option option"
where
  "split_token usable junk m cur [] = None"
| "split_token usable junk InQ cur (c # p) =
     Option.bind (hex_escape (c # p)) (\<lambda>e.
       case e of
         Some b \<Rightarrow>
           Option.bind (sds_cat_len usable junk cur [b] 1) (\<lambda>cur.
             split_token usable junk InQ cur (drop 3 p))
       | None \<Rightarrow>
           if c = 92
           then Option.bind (get_at p 0) (\<lambda>d.
             if d \<noteq> 0
             then Option.bind (sds_cat_len usable junk cur [unescape d] 1) (\<lambda>cur.
               split_token usable junk InQ cur (drop 1 p))
             else Option.bind (sds_cat_len usable junk cur [c] 1) (\<lambda>cur.
               split_token usable junk InQ cur p))
           else if c = 34
           then Option.bind (get_at p 0) (\<lambda>d.
             if d \<noteq> 0 \<and> \<not> isspace d then Some None else Some (Some (cur, p)))
           else if c = 0 then Some None
           else Option.bind (sds_cat_len usable junk cur [c] 1) (\<lambda>cur.
             split_token usable junk InQ cur p))"
| "split_token usable junk InSQ cur (c # p) =
     (if c = 92
      then Option.bind (get_at p 0) (\<lambda>d.
        if d = 39
        then Option.bind (sds_cat_len usable junk cur [39] 1) (\<lambda>cur.
          split_token usable junk InSQ cur (drop 1 p))
        else Option.bind (sds_cat_len usable junk cur [c] 1) (\<lambda>cur.
          split_token usable junk InSQ cur p))
      else if c = 39
      then Option.bind (get_at p 0) (\<lambda>d.
        if d \<noteq> 0 \<and> \<not> isspace d then Some None else Some (Some (cur, p)))
      else if c = 0 then Some None
      else Option.bind (sds_cat_len usable junk cur [c] 1) (\<lambda>cur.
        split_token usable junk InSQ cur p))"
| "split_token usable junk Plain cur (c # p) =
     (if c = 32 \<or> c = 10 \<or> c = 13 \<or> c = 9 then Some (Some (cur, p))
      else if c = 0 then Some (Some (cur, c # p))
      else if c = 34 then split_token usable junk InQ cur p
      else if c = 39 then split_token usable junk InSQ cur p
      else Option.bind (sds_cat_len usable junk cur [c] 1) (\<lambda>cur.
        split_token usable junk Plain cur p))"
  by pat_completeness auto

termination
  by (relation "measure (\<lambda>(usable, junk, m, cur, p). length p)") auto

fun skip_blanks :: "byte list \<Rightarrow> byte list option" where
  "skip_blanks [] = None"
| "skip_blanks (c # p) = (if c \<noteq> 0 \<and> isspace c then skip_blanks p else Some (c # p))"

partial_function (option) sds_split_args_loop ::
  "(nat \<Rightarrow> nat) \<Rightarrow> (nat \<Rightarrow> byte) \<Rightarrow> byte list \<Rightarrow> sds list \<Rightarrow> sds list option option"
where
  [code]: "sds_split_args_loop usable junk p tokens =
     Option.bind (skip_blanks p) (\<lambda>p.
     Option.bind (get_at p 0) (\<lambda>c.
       if c \<noteq> 0
       then Option.bind (sds_empty usable junk) (\<lambda>cur.
         Option.bind (split_token usable junk Plain cur p) (\<lambda>r.
           case r of
             None \<Rightarrow> Some None
           | Some (cur, p) \<Rightarrow> sds_split_args_loop usable junk p (tokens @ [cur])))
       else Some (Some tokens)))"

text \<open>\<open>Some None\<close> is the result NULL, \<open>Some (Some tokens)\<close> the array of tokens, whose length is the counter \<open>*argc\<close>. The
  counter is an \<open>int\<close>; its overflow, for a line of more than \<open>2 ^ 31 - 1\<close> tokens, is not represented.\<close>

definition sds_split_args ::
  "(nat \<Rightarrow> nat) \<Rightarrow> (nat \<Rightarrow> byte) \<Rightarrow> byte list \<Rightarrow> sds list option option" where
  "sds_split_args usable junk line = sds_split_args_loop usable junk line []"

section \<open>Splitting by a separator\<close>

text \<open>\<open>memcmp\<close>, up to its sign.\<close>

fun c_memcmp :: "byte list \<Rightarrow> byte list \<Rightarrow> nat \<Rightarrow> int option" where
  "c_memcmp a b 0 = Some 0"
| "c_memcmp a b (Suc n) =
     do {
       x \<leftarrow> get_at a 0;
       y \<leftarrow> get_at b 0;
       if x = y then c_memcmp (drop 1 a) (drop 1 b) n else Some (if x < y then - 1 else 1)
     }"

definition sep_at :: "byte list \<Rightarrow> nat \<Rightarrow> byte list \<Rightarrow> nat \<Rightarrow> bool option" where
  "sep_at s j sep seplen =
     do {
       one \<leftarrow> (if seplen = 1 then do { a \<leftarrow> get_at s j; b \<leftarrow> get_at sep 0; Some (a = b) } else Some False);
       if one then Some True
       else map_option (\<lambda>r. r = 0) (c_memcmp (drop j s) sep seplen)
     }"

text \<open>The array of tokens has \<open>slots\<close> places; a store beyond them is outside the array.\<close>

definition store_token :: "nat \<Rightarrow> sds list \<Rightarrow> sds \<Rightarrow> sds list option" where
  "store_token slots tokens t = (if length tokens < slots then Some (tokens @ [t]) else None)"

function split_len_loop ::
  "(nat \<Rightarrow> nat) \<Rightarrow> (nat \<Rightarrow> byte) \<Rightarrow> byte list \<Rightarrow> nat \<Rightarrow> byte list \<Rightarrow> nat \<Rightarrow> nat \<Rightarrow> nat \<Rightarrow> nat \<Rightarrow> sds list \<Rightarrow>
   (nat \<times> nat \<times> sds list) option"
where
  "split_len_loop usable junk s len sep seplen slots start j tokens =
     (if j + (seplen - 1) < len
      then
        let slots = (if slots < length tokens + 2 then slots * 2 else slots) in
        Option.bind (sep_at s j sep seplen) (\<lambda>hit.
          if hit
          then Option.bind (sds_new_len usable junk (Init_bytes (drop start s)) (j - start)) (\<lambda>t.
            Option.bind (store_token slots tokens t) (\<lambda>tokens.
              split_len_loop usable junk s len sep seplen slots (j + seplen) (j + (seplen - 1) + 1) tokens))
          else split_len_loop usable junk s len sep seplen slots start (j + 1) tokens)
      else Some (start, slots, tokens))"
  by pat_completeness auto

termination
  by (relation "measure (\<lambda>(usable, junk, s, len, sep, seplen, slots, start, j, tokens). len - j)") auto

declare split_len_loop.simps [simp del]

definition sds_split_len ::
  "(nat \<Rightarrow> nat) \<Rightarrow> (nat \<Rightarrow> byte) \<Rightarrow> byte list \<Rightarrow> int \<Rightarrow> byte list \<Rightarrow> int \<Rightarrow> sds list option option" where
  "sds_split_len usable junk s len sep seplen =
     (if seplen < 1 \<or> len < 0 then Some None
      else if len = 0 then Some (Some [])
      else do {
        (start, slots, tokens) \<leftarrow> split_len_loop usable junk s (nat len) sep (nat seplen) 5 0 0 [];
        t \<leftarrow> sds_new_len usable junk (Init_bytes (drop start s)) (nat len - start);
        tokens \<leftarrow> store_token slots tokens t;
        Some (Some tokens)
      })"

section \<open>Comparison, search and mapping\<close>

definition sds_cmp :: "sds \<Rightarrow> sds \<Rightarrow> int option" where
  "sds_cmp s1 s2 =
     (let l1 = sds_len s1; l2 = sds_len s2; minlen = (if l1 < l2 then l1 else l2) in
      do {
        c \<leftarrow> c_memcmp (s_buf s1) (s_buf s2) minlen;
        Some (if c = 0 then (if l1 > l2 then 1 else if l1 < l2 then - 1 else 0) else c)
      })"

text \<open>\<open>strncmp\<close>, up to its sign.\<close>

fun c_strncmp :: "byte list \<Rightarrow> byte list \<Rightarrow> nat \<Rightarrow> int option" where
  "c_strncmp a b 0 = Some 0"
| "c_strncmp a b (Suc n) =
     do {
       x \<leftarrow> get_at a 0;
       y \<leftarrow> get_at b 0;
       if x \<noteq> y then Some (if x < y then - 1 else 1)
       else if x = 0 then Some 0
       else c_strncmp (drop 1 a) (drop 1 b) n
     }"

definition sds_starts_with :: "sds \<Rightarrow> byte list \<Rightarrow> bool option" where
  "sds_starts_with str pre =
     do {
       n \<leftarrow> c_strlen pre;
       if n > sds_len str then Some False
       else map_option (\<lambda>r. r = 0) (c_strncmp (s_buf str) pre n)
     }"

text \<open>The loop of \<open>sds_find_lastof\<close> counts \<open>i\<close> down to 0; \<open>None\<close> inside is \<open>C_NPOS\<close>.\<close>

fun find_lastof_loop :: "byte list \<Rightarrow> byte list \<Rightarrow> nat \<Rightarrow> nat \<Rightarrow> nat option option" where
  "find_lastof_loop h needle n 0 = Some None"
| "find_lastof_loop h needle n (Suc i) =
     do {
       r \<leftarrow> c_strncmp (drop i h) needle n;
       if r = 0 then Some (Some i) else find_lastof_loop h needle n i
     }"

definition sds_find_lastof :: "sds \<Rightarrow> byte list \<Rightarrow> nat option option" where
  "sds_find_lastof haystack needle =
     do {
       n \<leftarrow> c_strlen needle;
       h \<leftarrow> c_strlen (s_buf haystack);
       if n = 0 then Some (Some 0)
       else if n > h then Some None
       else find_lastof_loop (s_buf haystack) needle n (h - n + 1)
     }"

fun map_char :: "byte list \<Rightarrow> byte list \<Rightarrow> nat \<Rightarrow> byte \<Rightarrow> byte option" where
  "map_char from to 0 c = Some c"
| "map_char from to (Suc n) c =
     do {
       f \<leftarrow> get_at from 0;
       if c = f then get_at to 0 else map_char (drop 1 from) (drop 1 to) n c
     }"

fun map_chars_loop :: "byte list \<Rightarrow> (byte \<Rightarrow> byte option) \<Rightarrow> nat \<Rightarrow> nat \<Rightarrow> byte list option" where
  "map_chars_loop buf f j 0 = Some buf"
| "map_chars_loop buf f j (Suc n) =
     do {
       c \<leftarrow> get_at buf j;
       d \<leftarrow> f c;
       buf \<leftarrow> put_at buf j d;
       map_chars_loop buf f (Suc j) n
     }"

definition sds_map_chars :: "sds \<Rightarrow> byte list \<Rightarrow> byte list \<Rightarrow> nat \<Rightarrow> sds option" where
  "sds_map_chars s from to setlen =
     map_option (\<lambda>b. s\<lparr>s_buf := b\<rparr>) (map_chars_loop (s_buf s) (map_char from to setlen) 0 (sds_len s))"

definition c_tolower :: "byte \<Rightarrow> byte" where
  "c_tolower c = (if 65 \<le> c \<and> c \<le> 90 then c + 32 else c)"

definition c_toupper :: "byte \<Rightarrow> byte" where
  "c_toupper c = (if 97 \<le> c \<and> c \<le> 122 then c - 32 else c)"

definition sds_to_lower :: "sds \<Rightarrow> sds option" where
  "sds_to_lower s =
     map_option (\<lambda>b. s\<lparr>s_buf := b\<rparr>) (map_chars_loop (s_buf s) (\<lambda>c. Some (c_tolower c)) 0 (sds_len s))"

definition sds_to_upper :: "sds \<Rightarrow> sds option" where
  "sds_to_upper s =
     map_option (\<lambda>b. s\<lparr>s_buf := b\<rparr>) (map_chars_loop (s_buf s) (\<lambda>c. Some (c_toupper c)) 0 (sds_len s))"

section \<open>Quoting and parsing are inverse\<close>

lemma catrepr_loop_ok:
  assumes "usable_ok usable" "sds_ok s" "n \<le> length p"
    "s_len s + length (concat (map repr_byte (take n p))) < 2 ^ 63"
  shows "\<exists>s'. sds_catrepr_loop usable junk s p n = Some s' \<and> sds_ok s'
    \<and> sds_val s' = sds_val s @ concat (map repr_byte (take n p))"
  using assms
proof (induction n arbitrary: s p)
  case 0
  then show ?case by simp
next
  case (Suc n)
  then obtain c q where p: "p = c # q" by (cases p) auto
  let ?r = "repr_byte c"
  from sds_cat_len_ok [OF Suc.prems(1,2), of "length ?r" ?r junk] Suc.prems(4) p obtain s1 where
    s1: "sds_cat_len usable junk s ?r (length ?r) = Some s1" "sds_ok s1" "sds_val s1 = sds_val s @ ?r"
    by auto
  have "s_len s1 = s_len s + length ?r"
    using arg_cong [OF s1(3), of length] length_sds_val [OF s1(2)] length_sds_val [OF Suc.prems(2)] by simp
  with Suc.IH [OF Suc.prems(1) s1(2), of q] Suc.prems p s1 show ?case
    by (auto simp: get_at_def)
qed

lemma val_grows: "sds_ok s \<Longrightarrow> sds_ok s' \<Longrightarrow> sds_val s' = sds_val s @ xs \<Longrightarrow> s_len s' = s_len s + length xs"
  using length_sds_val [of s] length_sds_val [of s'] by simp

lemma sds_catrepr_ok:
  assumes u: "usable_ok usable" and ok: "sds_ok s" and n: "n \<le> length p"
    and len: "s_len s + length (concat (map repr_byte (take n p))) + 2 < 2 ^ 63"
  shows "\<exists>s'. sds_catrepr usable junk s p n = Some s' \<and> sds_ok s'
    \<and> sds_val s' = sds_val s @ 34 # concat (map repr_byte (take n p)) @ [34]"
proof -
  from sds_cat_len_ok [OF u ok, of 1 "[34]" junk] len obtain s1 where
    s1: "sds_cat_len usable junk s [34] 1 = Some s1" "sds_ok s1" "sds_val s1 = sds_val s @ [34]" by auto
  have l1: "s_len s1 = s_len s + 1" using val_grows [OF ok s1(2,3)] by simp
  from catrepr_loop_ok [OF u s1(2) n, of junk] l1 len obtain s2 where
    s2: "sds_catrepr_loop usable junk s1 p n = Some s2" "sds_ok s2"
    "sds_val s2 = sds_val s1 @ concat (map repr_byte (take n p))" by auto
  from sds_cat_len_ok [OF u s2(2), of 1 "[34]" junk] val_grows [OF s1(2) s2(2,3)] l1 len obtain s3 where
    s3: "sds_cat_len usable junk s2 [34] 1 = Some s3" "sds_ok s3" "sds_val s3 = sds_val s2 @ [34]" by auto
  with s1 s2 show ?thesis by (simp add: sds_catrepr_def)
qed

lemma hex_char_cases:
  assumes "n < 16"
  shows "is_hex_digit (hex_char n) \<and> hex_digit_to_int (hex_char n) = n"
proof -
  have "n \<in> {0, 1, 2, 3, 4, 5, 6, 7, 8, 9, 10, 11, 12, 13, 14, 15}"
    unfolding insert_iff empty_iff using assms by presburger
  then show ?thesis by (elim insertE) (auto simp: hex_char_def is_hex_digit_def hex_digit_to_int_def)
qed

text \<open>Parsing what one byte was written as appends that byte.\<close>

lemma split_token_repr:
  "split_token usable junk InQ cur (repr_byte c @ p) =
     Option.bind (sds_cat_len usable junk cur [c] 1) (\<lambda>cur. split_token usable junk InQ cur p)"
proof -
  consider "c = 92 \<or> c = 34 \<or> c = 10 \<or> c = 13 \<or> c = 9 \<or> c = 7 \<or> c = 8"
    | "isprint c" "c \<noteq> 92" "c \<noteq> 34"
    | "\<not> isprint c" "c \<noteq> 92 \<and> c \<noteq> 34 \<and> c \<noteq> 10 \<and> c \<noteq> 13 \<and> c \<noteq> 9 \<and> c \<noteq> 7 \<and> c \<noteq> 8"
    by auto
  then show ?thesis
  proof cases
    case 1
    then show ?thesis
      by (elim disjE) (simp_all add: repr_byte_def hex_escape_def get_at_def unescape_def)
  next
    case 2
    then have "repr_byte c = [c]" by (auto simp: repr_byte_def isprint_def)
    moreover have "c \<noteq> 0" using 2 by (auto simp: isprint_def)
    ultimately show ?thesis using 2 by (simp add: hex_escape_def get_at_def)
  next
    case 3
    have b: "unat c < 256" by (rule unat_less_8)
    have h: "is_hex_digit (hex_char (unat c div 16))" "hex_digit_to_int (hex_char (unat c div 16)) = unat c div 16"
      "is_hex_digit (hex_char (unat c mod 16))" "hex_digit_to_int (hex_char (unat c mod 16)) = unat c mod 16"
      using hex_char_cases [of "unat c div 16"] hex_char_cases [of "unat c mod 16"] b by auto
    have r: "repr_byte c = [92, 120, hex_char (unat c div 16), hex_char (unat c mod 16)]"
      using 3 by (simp add: repr_byte_def)
    have "hex_escape (repr_byte c @ p) = Some (Some c)"
      unfolding r using h by (simp add: hex_escape_def get_at_def)
    then show ?thesis unfolding r by simp
  qed
qed

lemma split_token_quoted:
  assumes "usable_ok usable" "sds_ok cur" "s_len cur + length xs < 2 ^ 63"
  shows "\<exists>cur'. split_token usable junk InQ cur (concat (map repr_byte xs) @ 34 # 0 # z)
      = Some (Some (cur', 0 # z)) \<and> sds_ok cur' \<and> sds_val cur' = sds_val cur @ xs"
  using assms
proof (induction xs arbitrary: cur)
  case Nil
  then show ?case by (simp add: hex_escape_def get_at_def)
next
  case (Cons x xs)
  from sds_cat_len_ok [OF Cons.prems(1,2), of 1 "[x]" junk] Cons.prems(3) obtain c1 where
    c1: "sds_cat_len usable junk cur [x] 1 = Some c1" "sds_ok c1" "sds_val c1 = sds_val cur @ [x]" by auto
  have "s_len c1 = s_len cur + 1" using val_grows [OF Cons.prems(2) c1(2,3)] by simp
  with Cons.IH [OF Cons.prems(1) c1(2)] Cons.prems(3) c1 show ?case
    by (auto simp: split_token_repr)
qed

lemma sds_empty_ok: "usable_ok usable \<Longrightarrow> \<exists>s. sds_empty usable junk = Some s \<and> sds_ok s \<and> sds_val s = []"
  using sds_new_len_ok [of usable 0 "[0]" junk] by (simp add: sds_empty_def)

lemma split_args_quoted:
  assumes u: "usable_ok usable" and n: "length xs < 2 ^ 63"
  shows "\<exists>t. sds_split_args usable junk (34 # concat (map repr_byte xs) @ 34 # 0 # z) = Some (Some [t])
    \<and> sds_val t = xs"
proof -
  from sds_empty_ok [OF u, of junk] obtain e where
    e: "sds_empty usable junk = Some e" "sds_ok e" "sds_val e = []" by auto
  have "s_len e = 0" using length_sds_val [OF e(2)] e(3) by simp
  with split_token_quoted [OF u e(2), of xs junk z] n e(3) obtain t where
    t: "split_token usable junk InQ e (concat (map repr_byte xs) @ 34 # 0 # z) = Some (Some (t, 0 # z))"
    "sds_val t = xs" by auto
  have "sds_split_args_loop usable junk (0 # z) [t] = Some (Some [t])"
    by (subst sds_split_args_loop.simps) (simp add: get_at_def)
  with t e show ?thesis
    unfolding sds_split_args_def
    by (subst sds_split_args_loop.simps) (simp add: get_at_def isspace_def)
qed

lemma buf_of_val: "sds_ok s \<Longrightarrow> \<exists>z. s_buf s = sds_val s @ 0 # z"
  using sds_okD(3,4) [of s] id_take_nth_drop [of "s_len s" "s_buf s"] unfolding sds_val_def by metis

section \<open>The parser is total on C strings\<close>

lemma hex_escape_total:
  assumes "0 \<in> set p"
  shows "\<exists>e. hex_escape p = Some e \<and> (\<forall>b. e = Some b \<longrightarrow> 0 \<in> set (drop 4 p))"
proof -
  have hex0: "\<not> is_hex_digit 0" by (simp add: is_hex_digit_def)
  obtain c0 p1 where p: "p = c0 # p1" using assms by (cases p) auto
  show ?thesis
  proof (cases "c0 = 92")
    case True
    then obtain c1 p2 where p1: "p1 = c1 # p2" using assms p by (cases p1) auto
    show ?thesis
    proof (cases "c1 = 120")
      case c1: True
      then obtain c2 p3 where p2: "p2 = c2 # p3" using assms True p p1 by (cases p2) auto
      show ?thesis
      proof (cases "is_hex_digit c2")
        case c2: True
        then obtain c3 p4 where p3: "p3 = c3 # p4"
          using assms True c1 p p1 p2 hex0 by (cases p3) auto
        show ?thesis
          using True c1 c2 p p1 p2 p3 assms hex0
          by (cases "is_hex_digit c3") (auto simp: hex_escape_def get_at_def)
      qed (use True c1 p p1 p2 in \<open>auto simp: hex_escape_def get_at_def\<close>)
    qed (use True p p1 in \<open>auto simp: hex_escape_def get_at_def\<close>)
  qed (use p in \<open>auto simp: hex_escape_def get_at_def\<close>)
qed

text \<open>A token ends before the terminator, and consumes something unless it starts at it.\<close>

definition token_end :: "byte list \<Rightarrow> (sds \<times> byte list) option \<Rightarrow> bool" where
  "token_end p r \<longleftrightarrow> (\<forall>cur' p'. r = Some (cur', p') \<longrightarrow> 0 \<in> set p' \<and> length p' \<le> length p
     \<and> (hd p \<noteq> 0 \<longrightarrow> length p' < length p))"

lemma split_token_total:
  assumes "usable_ok usable" "sds_ok cur" "0 \<in> set p" "s_len cur + length p < 2 ^ 63"
  shows "\<exists>r. split_token usable junk m cur p = Some r \<and> token_end p r"
  using assms
proof (induction "length p" arbitrary: m cur p rule: less_induct)
  case less
  then obtain c q where p: "p = c # q" by (cases p) auto
  have step: "\<exists>r. split_token usable junk m' cur' q' = Some r \<and> token_end p r"
    if "length q' < length p" "0 \<in> set q'" "sds_ok cur'" "s_len cur' \<le> s_len cur + 1" for m' cur' q'
    using less.hyps [OF that(1) less.prems(1) that(3,2), of m'] that less.prems(4)
    by (fastforce simp: token_end_def)
  have cat: "\<exists>r. Option.bind (sds_cat_len usable junk cur [b] 1) (\<lambda>cur. split_token usable junk m' cur q') = Some r
      \<and> token_end p r"
    if q': "length q' < length p" "0 \<in> set q'" for m' b q'
  proof -
    from sds_cat_len_ok [OF less.prems(1,2), of 1 "[b]" junk] less.prems(4) p obtain c' where
      c': "sds_cat_len usable junk cur [b] 1 = Some c'" "sds_ok c'" "sds_val c' = sds_val cur @ [b]" by auto
    with step [OF q' c'(2)] val_grows [OF less.prems(2) c'(2,3)] show ?thesis by simp
  qed
  have q0: "c \<noteq> 0 \<Longrightarrow> 0 \<in> set q" using less.prems(3) p by auto
  have fin: "c \<noteq> 0 \<Longrightarrow> token_end p (Some (cur', q))" "token_end p None" for cur'
    using q0 p by (auto simp: token_end_def)
  have dq: "0 \<in> set (drop 1 q)" "get_at q 0 = Some (hd q)" if "c \<noteq> 0" "hd q \<noteq> 0"
    using q0 that by (cases q; auto simp: get_at_def)+
  have gq: "get_at q 0 = Some (hd q)" if "c \<noteq> 0" using q0 that by (cases q) (auto simp: get_at_def)
  show ?case
  proof (cases m)
    case Plain
    then show ?thesis using p q0 fin step [of q cur] less.prems(2,3) cat [of q]
      by (cases "c = 0") (auto simp: token_end_def)
  next
    case InSQ
    then show ?thesis using p q0 fin gq dq cat [of q] cat [of "drop 1 q"]
      by (cases "c = 0") (auto split: if_splits)
  next
    case InQ
    from hex_escape_total [OF less.prems(3)] obtain e where
      e: "hex_escape p = Some e" "\<And>b. e = Some b \<Longrightarrow> 0 \<in> set (drop 3 q)" using p by auto
    show ?thesis
    proof (cases e)
      case (Some b)
      with InQ e cat [of "drop 3 q"] p show ?thesis by auto
    next
      case None
      with InQ e show ?thesis using p q0 fin gq dq cat [of q] cat [of "drop 1 q"]
        by (cases "c = 0") (auto split: if_splits)
    qed
  qed
qed

lemma skip_blanks_total:
  "0 \<in> set p \<Longrightarrow> \<exists>p'. skip_blanks p = Some p' \<and> 0 \<in> set p' \<and> p' \<noteq> [] \<and> length p' \<le> length p"
proof (induction p)
  case (Cons c p)
  then show ?case by (cases "c \<noteq> 0 \<and> isspace c") (auto intro: le_SucI)
qed simp

lemma split_args_loop_total:
  assumes "usable_ok usable" "0 \<in> set p" "length p < 2 ^ 62"
  shows "\<exists>r. sds_split_args_loop usable junk p tokens = Some r"
  using assms
proof (induction "length p" arbitrary: p tokens rule: less_induct)
  case less
  from skip_blanks_total [OF less.prems(2)] obtain p1 where
    p1: "skip_blanks p = Some p1" "0 \<in> set p1" "p1 \<noteq> []" "length p1 \<le> length p" by auto
  then have g: "get_at p1 0 = Some (hd p1)" by (cases p1) (auto simp: get_at_def)
  from sds_empty_ok [OF less.prems(1), of junk] obtain e where
    e: "sds_empty usable junk = Some e" "sds_ok e" "sds_val e = []" by auto
  have "s_len e = 0" using length_sds_val [OF e(2)] e(3) by simp
  with split_token_total [OF less.prems(1) e(2) p1(2), of junk Plain] p1(4) less.prems(3) obtain r where
    r: "split_token usable junk Plain e p1 = Some r" "token_end p1 r" by auto
  show ?case
  proof (cases "hd p1 = 0 \<or> r = None")
    case True
    then show ?thesis using p1 g e r by (subst sds_split_args_loop.simps) auto
  next
    case False
    then obtain c' p' where rr: "r = Some (c', p')" by (cases r) auto
    with r(2) False have "0 \<in> set p'" "length p' < length p1" by (auto simp: token_end_def)
    with less.hyps [of p' "tokens @ [c']"] less.prems p1 obtain x where
      "sds_split_args_loop usable junk p' (tokens @ [c']) = Some x" by auto
    then show ?thesis using p1 g e r rr False by (subst sds_split_args_loop.simps) auto
  qed
qed

section \<open>Splitting\<close>

lemma c_memcmp_eq: "n \<le> length a \<Longrightarrow> n \<le> length b \<Longrightarrow> c_memcmp a b n = Some (strcmp (take n a) (take n b))"
proof (induction n arbitrary: a b)
  case (Suc n)
  then obtain x as y bs where "a = x # as" "b = y # bs" by (cases a; cases b) auto
  with Suc show ?case by (simp add: get_at_def)
qed simp

lemma sep_at_eq:
  assumes "j + n \<le> length s" "n \<le> length sep" "1 \<le> n"
  shows "sep_at s j sep n = Some (take n (drop j s) = take n sep)"
proof -
  have m: "c_memcmp (drop j s) sep n = Some (strcmp (take n (drop j s)) (take n sep))"
    using assms by (intro c_memcmp_eq) simp_all
  show ?thesis
  proof (cases "n = 1")
    case True
    then obtain b sp where b: "sep = b # sp" using assms by (cases sep) auto
    have "take 1 (drop j s) = [s ! j]" using True assms by (simp flip: Cons_nth_drop_Suc)
    then show ?thesis using True b assms m
      by (auto simp: sep_at_def get_at_def strcmp_eq_0)
  next
    case False
    then show ?thesis using m by (simp add: sep_at_def strcmp_eq_0)
  qed
qed

fun join :: "'a list \<Rightarrow> 'a list list \<Rightarrow> 'a list" where
  "join sep [] = []"
| "join sep [t] = t"
| "join sep (t # u # ts) = t @ sep @ join sep (u # ts)"

lemma join_Cons: "ts \<noteq> [] \<Longrightarrow> join sep (t # ts) = t @ sep @ join sep ts"
  by (cases ts) auto

lemma no_sep_between:
  assumes "\<forall>i. start \<le> i \<and> i + n \<le> e \<longrightarrow> take n (drop i s) \<noteq> sp" "length sp = n" "0 < n"
  shows "\<not> sublist sp (take (e - start) (drop start s))"
proof
  assume "sublist sp (take (e - start) (drop start s))"
  then obtain xs ys where xy: "take (e - start) (drop start s) = xs @ sp @ ys" by (auto simp: sublist_def)
  have l: "length xs + n \<le> e - start"
    using arg_cong [OF xy, of length] assms(2) by simp
  have "take n (drop (length xs) (take (e - start) (drop start s))) = sp"
    using assms(2) by (simp add: xy)
  then have "take n (drop (length xs) (drop start s)) = sp"
    using l by (auto simp: drop_take min_def split: if_splits)
  with assms(1) [rule_format, of "start + length xs"] l assms(3) show False
    by (simp add: add.commute)
qed

text \<open>The loop keeps: no separator starts between \<open>start\<close> and \<open>j\<close>, and there is room for one
  more token.\<close>

lemma split_len_loop_ok:
  assumes u: "usable_ok usable" and len: "len \<le> length s" "len < 2 ^ 62"
    and sp: "sp = take n sep" "n \<le> length sep" "1 \<le> n"
    and inv: "start \<le> j" "start \<le> len"
      "\<forall>i. start \<le> i \<and> i < j \<longrightarrow> take n (drop i s) \<noteq> sp"
      "length tokens < slots" "2 \<le> slots"
  shows "\<exists>start' slots' ts. split_len_loop usable junk s len sep n slots start j tokens
      = Some (start', slots', tokens @ ts) \<and> length tokens + length ts < slots' \<and> start' \<le> len
    \<and> join sp (map sds_val ts @ [take (len - start') (drop start' s)]) = take (len - start) (drop start s)
    \<and> (\<forall>t\<in>set (map sds_val ts @ [take (len - start') (drop start' s)]). \<not> sublist sp t)"
  using inv
proof (induction "len - j" arbitrary: start j tokens slots rule: less_induct)
  case less
  have lsp: "length sp = n" using sp by simp
  show ?case
  proof (cases "j + (n - 1) < len")
    case False
    have "\<not> sublist sp (take (len - start) (drop start s))"
      by (rule no_sep_between [OF _ lsp]) (use sp(3) less.prems(3) False in auto)
    then show ?thesis
      using False less.prems by (subst split_len_loop.simps) auto
  next
    case True
    define sl where "sl = (if slots < length tokens + 2 then slots * 2 else slots)"
    have sl: "length tokens + 2 \<le> sl" using less.prems(4,5) by (auto simp: sl_def)
    have at: "sep_at s j sep n = Some (take n (drop j s) = sp)"
      unfolding sp(1) using True len(1) sp by (intro sep_at_eq) auto
    note unf = split_len_loop.simps [of usable junk s len sep n slots start j tokens]
    show ?thesis
    proof (cases "take n (drop j s) = sp")
      case hit: True
      define tok where "tok = take (j - start) (drop start s)"
      have "j - start + 18 < 2 ^ 64" "j - start \<le> length (drop start s)" using True len by auto
      from sds_new_len_ok [OF u this, of junk] obtain t where
        t: "sds_new_len usable junk (Init_bytes (drop start s)) (j - start) = Some t" "sds_val t = tok"
        by (auto simp: tok_def)
      have step: "split_len_loop usable junk s len sep n slots start j tokens
          = split_len_loop usable junk s len sep n sl (j + n) (j + n) (tokens @ [t])"
        unfolding unf Let_def sl_def [symmetric] using True at hit t sl sp(3)
        by (simp add: store_token_def)
      have le: "j + n \<le> len" and lt: "len - (j + n) < len - j" using True sp(3) by linarith+
      have "\<forall>i. j + n \<le> i \<and> i < j + n \<longrightarrow> take n (drop i s) \<noteq> sp"
        by (meson linorder_not_less)
      from less.hyps [OF lt order_refl le this, of "tokens @ [t]" sl] sl obtain start' slots' ts where
        r: "split_len_loop usable junk s len sep n sl (j + n) (j + n) (tokens @ [t])
          = Some (start', slots', tokens @ t # ts)" "Suc (length tokens + length ts) < slots'" "start' \<le> len"
        "join sp (map sds_val ts @ [take (len - start') (drop start' s)]) = take (len - (j + n)) (drop (j + n) s)"
        "\<forall>t\<in>set (map sds_val ts @ [take (len - start') (drop start' s)]). \<not> sublist sp t"
        by auto
      have nt: "\<not> sublist sp tok"
        unfolding tok_def by (rule no_sep_between [OF _ lsp]) (use sp(3) less.prems(3) in auto)
      have "take (len - start) (drop start s)
          = take (j - start) (drop start s) @ take (len - j) (drop j s)"
        using take_add [of "j - start" "len - j" "drop start s"] less.prems(1) le by simp
      also have "take (len - j) (drop j s) = take n (drop j s) @ take (len - (j + n)) (drop (j + n) s)"
        using True take_add [of n "len - (j + n)" "drop j s"] le
        by (simp add: add.commute)
      finally have "join sp (map sds_val (t # ts) @ [take (len - start') (drop start' s)])
          = take (len - start) (drop start s)"
        using r(4) hit t(2) by (simp add: join_Cons tok_def)
      with step r nt t(2) show ?thesis
        by (intro exI [of _ start'] exI [of _ slots'] exI [of _ "t # ts"]) auto
    next
      case miss: False
      have step: "split_len_loop usable junk s len sep n slots start j tokens
          = split_len_loop usable junk s len sep n sl start (j + 1) tokens"
        unfolding unf Let_def sl_def [symmetric] using True at miss by simp
      have "\<forall>i. start \<le> i \<and> i < j + 1 \<longrightarrow> take n (drop i s) \<noteq> sp"
        using less.prems(3) miss by (auto simp: less_Suc_eq)
      with less.hyps [of "j + 1" start tokens sl] True less.prems sl show ?thesis
        unfolding step by auto
    qed
  qed
qed

lemma sds_split_len_ok:
  assumes u: "usable_ok usable" and len: "0 < len" "len \<le> int (length s)" "len < 2 ^ 62"
    and sp: "1 \<le> seplen" "seplen \<le> int (length sep)"
  shows "\<exists>tokens. sds_split_len usable junk s len sep seplen = Some (Some tokens)
    \<and> join (take (nat seplen) sep) (map sds_val tokens) = take (nat len) s
    \<and> (\<forall>t\<in>set tokens. \<not> sublist (take (nat seplen) sep) (sds_val t))"
proof -
  have n: "nat len \<le> length s" "nat len < 2 ^ 62" "nat seplen \<le> length sep" "1 \<le> nat seplen"
    using len sp by (auto simp: nat_less_iff nat_le_iff le_nat_iff)
  from split_len_loop_ok [OF u n(1,2) refl n(3,4), of 0 0 "[]" 5 junk] obtain start slots ts where
    r: "split_len_loop usable junk s (nat len) sep (nat seplen) 5 0 0 [] = Some (start, slots, ts)"
    "length ts < slots" "start \<le> nat len"
    "join (take (nat seplen) sep) (map sds_val ts @ [take (nat len - start) (drop start s)]) = take (nat len) s"
    "\<forall>t\<in>set (map sds_val ts @ [take (nat len - start) (drop start s)]). \<not> sublist (take (nat seplen) sep) t"
    by auto
  have "nat len - start + 18 < 2 ^ 64" "nat len - start \<le> length (drop start s)" using n by auto
  from sds_new_len_ok [OF u this, of junk] obtain t where
    t: "sds_new_len usable junk (Init_bytes (drop start s)) (nat len - start) = Some t"
    "sds_val t = take (nat len - start) (drop start s)" by auto
  have "sds_split_len usable junk s len sep seplen = Some (Some (ts @ [t]))"
    using len sp r t by (simp add: sds_split_len_def store_token_def)
  then show ?thesis using r t(2) by auto
qed

section \<open>Comparison\<close>

lemma strcmp_append:
  "length a = length b \<Longrightarrow> strcmp (a @ x) (b @ y) = (if strcmp a b = 0 then strcmp x y else strcmp a b)"
  by (induction a b rule: list_induct2) auto

lemma sds_cmp_eq:
  assumes "sds_ok a" "sds_ok b"
  shows "sds_cmp a b = Some (strcmp (sds_val a) (sds_val b))"
proof -
  let ?n = "min (s_len a) (s_len b)"
  have l: "length (sds_val a) = s_len a" "length (sds_val b) = s_len b"
    using assms by (simp_all add: length_sds_val)
  have t: "take ?n (s_buf a) = take ?n (sds_val a)" "take ?n (s_buf b) = take ?n (sds_val b)"
    by (simp_all add: sds_val_def min_def)
  have m: "c_memcmp (s_buf a) (s_buf b) ?n = Some (strcmp (take ?n (sds_val a)) (take ?n (sds_val b)))"
    using c_memcmp_eq [of ?n "s_buf a" "s_buf b"] sds_okD(3) [OF assms(1)] sds_okD(3) [OF assms(2)] t
    by simp
  have nil: "strcmp [] ys = (if ys = [] then 0 else - 1)" "strcmp ys [] = (if ys = [] then 0 else 1)" for ys
    by (cases ys; simp)+
  have "strcmp (sds_val a) (sds_val b) =
      (if strcmp (take ?n (sds_val a)) (take ?n (sds_val b)) = 0
       then strcmp (drop ?n (sds_val a)) (drop ?n (sds_val b))
       else strcmp (take ?n (sds_val a)) (take ?n (sds_val b)))"
    using strcmp_append [of "take ?n (sds_val a)" "take ?n (sds_val b)" "drop ?n (sds_val a)" "drop ?n (sds_val b)"] l
    by simp
  moreover have "strcmp (drop ?n (sds_val a)) (drop ?n (sds_val b)) =
      (if s_len a > s_len b then 1 else if s_len a < s_len b then - 1 else 0)"
    using l by (auto simp: min_def nil)
  ultimately show ?thesis
    using m sds_okD(5) [OF assms(1)] sds_okD(5) [OF assms(2)]
    by (simp add: sds_cmp_def Let_def min_def split: if_splits)
qed

text \<open>\<open>sds_cmp\<close> as a comparator of the sorted containers.\<close>

interpretation sds_order: comparator "\<lambda>a b. strcmp (sds_val a) (sds_val b)"
proof
  show "strcmp (sds_val a) (sds_val b) \<le> 0 \<longleftrightarrow> 0 \<le> strcmp (sds_val b) (sds_val a)" for a b
    using strcmp_sym [of "sds_val a" "sds_val b"] by simp
  show "strcmp (sds_val a) (sds_val b) \<le> 0 \<Longrightarrow> strcmp (sds_val b) (sds_val c) \<le> 0
      \<Longrightarrow> strcmp (sds_val a) (sds_val c) \<le> 0" for a b c
    by (rule strcmp_trans)
qed

section \<open>Properties\<close>

text \<open>C33. Quoting and parsing are inverse: what \<open>sds_catrepr\<close> writes for any byte string, NULs and
  control bytes included, \<open>sds_split_args\<close> parses back as one argument equal to the string.\<close>

theorem sds_repr_roundtrip:
  assumes "usable_ok usable" and "n \<le> length p"
    and "length (concat (map repr_byte (take n p))) + 2 < 2 ^ 63" and "n < 2 ^ 63"
  shows "\<exists>e s t. sds_empty usable junk = Some e \<and> sds_catrepr usable junk e p n = Some s
    \<and> sds_split_args usable junk (s_buf s) = Some (Some [t]) \<and> sds_val t = take n p"
proof -
  from sds_empty_ok [OF assms(1), of junk] obtain e where
    e: "sds_empty usable junk = Some e" "sds_ok e" "sds_val e = []" by auto
  have "s_len e = 0" using length_sds_val [OF e(2)] e(3) by simp
  with sds_catrepr_ok [OF assms(1) e(2) assms(2), of junk] assms(3) e(3) obtain s where
    s: "sds_catrepr usable junk e p n = Some s" "sds_ok s"
    "sds_val s = 34 # concat (map repr_byte (take n p)) @ [34]" by auto
  from buf_of_val [OF s(2)] obtain z where "s_buf s = sds_val s @ 0 # z" by blast
  with s(3) have z: "s_buf s = 34 # concat (map repr_byte (take n p)) @ 34 # 0 # z" by simp
  have "length (take n p) < 2 ^ 63" using assms(4) by simp
  from split_args_quoted [OF assms(1) this, of junk z] e(1) s(1) show ?thesis by (auto simp: z)
qed

theorem sds_repr_roundtrip_witness:
  "\<exists>e s t. sds_empty (\<lambda>n. n) (\<lambda>_. 1) = Some e \<and> sds_catrepr (\<lambda>n. n) (\<lambda>_. 1) e [65, 34, 0, 255, 10] 5 = Some s
    \<and> sds_split_args (\<lambda>n. n) (\<lambda>_. 1) (s_buf s) = Some (Some [t]) \<and> sds_val t = [65, 34, 0, 255, 10]"
proof -
  have u: "usable_ok (\<lambda>n. n)" by (simp add: usable_ok_def)
  have "length (concat (map repr_byte (take 5 [65, 34, 0, 255, 10]))) + 2 < 2 ^ 63"
    by (simp add: repr_byte_def isprint_def)
  from sds_repr_roundtrip [OF u _ this, of "\<lambda>_. 1"] show ?thesis by simp
qed

text \<open>C34. On every NUL-terminated line \<open>sds_split_args\<close> ends, with the tokens or with the error
  result, and reads nothing behind the terminator: unbalanced quotes, truncated escapes and
  text after a closing quote included.\<close>

theorem sds_split_args_total:
  assumes "usable_ok usable" and "length line < 2 ^ 61"
  shows "\<exists>r. sds_split_args usable junk (line @ [0]) = Some r"
  unfolding sds_split_args_def
  using split_args_loop_total [OF assms(1), of "line @ [0]" junk "[]"] assms(2) by simp

theorem sds_split_args_total_witness:
  "usable_ok (\<lambda>n. n) \<and> (\<exists>r. sds_split_args (\<lambda>n. n) (\<lambda>_. 1) ([34, 92, 120, 52] @ [0]) = Some r)"
  using sds_split_args_total [of "\<lambda>n. n" "[34, 92, 120, 52]" "\<lambda>_. 1"] by (simp add: usable_ok_def)

text \<open>\<open>sds_split_len\<close> cuts a string at a separator: joining the tokens with the separator
  gives the string back, and no token contains the separator. The growing token array is
  always large enough.\<close>

theorem sds_split_len_join:
  assumes "usable_ok usable" and "0 < len" and "len \<le> int (length s)" and "len < 2 ^ 62"
    and "1 \<le> seplen" and "seplen \<le> int (length sep)"
  shows "\<exists>tokens. sds_split_len usable junk s len sep seplen = Some (Some tokens)
    \<and> join (take (nat seplen) sep) (map sds_val tokens) = take (nat len) s
    \<and> (\<forall>t\<in>set tokens. \<not> sublist (take (nat seplen) sep) (sds_val t))"
  using assms by (rule sds_split_len_ok)

theorem sds_split_len_join_witness:
  "\<exists>tokens. sds_split_len (\<lambda>n. n) (\<lambda>_. 1) [97, 95, 45, 98, 95] 5 [95, 45, 0] 2 = Some (Some tokens)
    \<and> join [95, 45] (map sds_val tokens) = [97, 95, 45, 98, 95]
    \<and> (\<forall>t\<in>set tokens. \<not> sublist [95, 45] (sds_val t))"
  using sds_split_len_join [of "\<lambda>n. n" 5 "[97, 95, 45, 98, 95]" 2 "[95, 45, 0]" "\<lambda>_. 1"]
  by (simp add: usable_ok_def)

end
