(* ===== verification/Bitmap.thy ===== *)
theory Bitmap
  imports Sds IterSpec
begin

text \<open>
  \<open>src/bitmap/bitmap.c\<close>: a bitmap in the buffer of a dynamic string, with searches for the next
  set or clear bit and the two iterators built on them. \<open>bit_size\<close> is \<open>sds_len\<close>, the number of
  bytes of the string, used as the number of bits. An index is a C \<open>int\<close>; a negative one is
  outside the bitmap.
\<close>

section \<open>Operations\<close>

definition bit_size :: "sds \<Rightarrow> int" where
  "bit_size bm = sint (of_nat (sds_len bm) :: u32)"

fun clear_all_loop :: "byte list \<Rightarrow> nat \<Rightarrow> nat \<Rightarrow> byte list option" where
  "clear_all_loop buf i 0 = Some buf"
| "clear_all_loop buf i (Suc n) = do { buf \<leftarrow> put_at buf i 0; clear_all_loop buf (Suc i) n }"

definition bitmap_clear_all :: "sds \<Rightarrow> sds option" where
  "bitmap_clear_all bm =
     map_option (\<lambda>b. bm\<lparr>s_buf := b\<rparr>) (clear_all_loop (s_buf bm) 0 (nat (bit_size bm)))"

text \<open>The literal \<open>""\<close> is a buffer of one byte, from which \<open>sds_new_len\<close> copies \<open>len\<close> bytes. The
  length is an \<open>int\<close> converted to \<open>size_t\<close>.\<close>

definition bitmap_new :: "(nat \<Rightarrow> nat) \<Rightarrow> (nat \<Rightarrow> byte) \<Rightarrow> int \<Rightarrow> sds option" where
  "bitmap_new usable junk len =
     do {
       bm \<leftarrow> sds_new_len usable junk (Init_bytes [0]) (nat (len mod 2 ^ 64));
       bitmap_clear_all bm
     }"

definition bitmap_get :: "sds \<Rightarrow> int \<Rightarrow> bool option" where
  "bitmap_get bm index =
     (if index < 0 then None
      else do {
        bits \<leftarrow> get_at (s_buf bm) (nat index div 8);
        Some (bits AND push_bit (nat index mod 8) 1 \<noteq> 0)
      })"

definition bitmap_set :: "sds \<Rightarrow> int \<Rightarrow> sds option" where
  "bitmap_set bm index =
     (if index < 0 then None
      else do {
        bits \<leftarrow> get_at (s_buf bm) (nat index div 8);
        b \<leftarrow> put_at (s_buf bm) (nat index div 8) (bits OR push_bit (nat index mod 8) 1);
        Some (bm\<lparr>s_buf := b\<rparr>)
      })"

definition bitmap_clear :: "sds \<Rightarrow> int \<Rightarrow> sds option" where
  "bitmap_clear bm index =
     (if index < 0 then None
      else do {
        bits \<leftarrow> get_at (s_buf bm) (nat index div 8);
        b \<leftarrow> put_at (s_buf bm) (nat index div 8) (bits AND NOT (push_bit (nat index mod 8) 1));
        Some (bm\<lparr>s_buf := b\<rparr>)
      })"

definition bytes :: "int \<Rightarrow> int" where
  "bytes sz = (if sz mod 8 = 0 then sz div 8 else sz div 8 + 1)"

text \<open>The loop \<open>for (i = start; i < 8; i++)\<close> of the two functions below, with \<open>n\<close> rounds left.\<close>

fun find_char_loop :: "(nat \<Rightarrow> bool) \<Rightarrow> nat \<Rightarrow> nat \<Rightarrow> int" where
  "find_char_loop test i 0 = - 1"
| "find_char_loop test i (Suc n) = (if test i then int i else find_char_loop test (Suc i) n)"

definition find_char_first_zero :: "byte \<Rightarrow> nat \<Rightarrow> int" where
  "find_char_first_zero b start = find_char_loop (\<lambda>i. b AND push_bit i 1 = 0) start (8 - start)"

definition find_char_first_setted :: "byte \<Rightarrow> nat \<Rightarrow> int" where
  "find_char_first_setted b start = find_char_loop (\<lambda>i. b AND push_bit i 1 \<noteq> 0) start (8 - start)"

text \<open>The loop over the bytes that \<open>bitmap_next_unsetted\<close> and \<open>bitmap_next_setted\<close> share: \<open>skip\<close> is
  the byte that is passed over, \<open>find_in\<close> the search inside a byte.\<close>

fun bitmap_scan :: "byte \<Rightarrow> (byte \<Rightarrow> nat \<Rightarrow> int) \<Rightarrow> byte list \<Rightarrow> nat \<Rightarrow> nat \<Rightarrow> nat \<Rightarrow> int option" where
  "bitmap_scan skip find_in buf iter start_in_byte 0 = Some (- 1)"
| "bitmap_scan skip find_in buf iter start_in_byte (Suc n) =
     do {
       b \<leftarrow> get_at buf iter;
       let index_in_byte = find_in b start_in_byte
       in if b \<noteq> skip \<and> index_in_byte \<ge> 0 then Some (int iter * 8 + index_in_byte)
          else bitmap_scan skip find_in buf (Suc iter) 0 n
     }"

definition bitmap_next_unsetted :: "sds \<Rightarrow> int \<Rightarrow> int option" where
  "bitmap_next_unsetted bm start =
     (if start < 0 then None
      else let sz = bit_size bm in do {
        ret \<leftarrow> bitmap_scan (- 1) find_char_first_zero (s_buf bm) (nat start div 8) (nat start mod 8)
          (nat (bytes sz) - nat start div 8);
        Some (if ret \<ge> sz then - 1 else ret)
      })"

definition bitmap_next_setted :: "sds \<Rightarrow> int \<Rightarrow> int option" where
  "bitmap_next_setted bm start =
     (if start < 0 then None
      else let sz = bit_size bm in do {
        ret \<leftarrow> bitmap_scan 0 find_char_first_setted (s_buf bm) (nat start div 8) (nat start mod 8)
          (nat (bytes sz) - nat start div 8);
        Some (if ret \<ge> sz then - 1 else ret)
      })"

section \<open>Iterators\<close>

record bitmap_iterator_data =
  bi_bitmap :: sds
  bi_start :: int
  bi_next :: int

abbreviation (input) UNFIND :: int where "UNFIND \<equiv> - 1"
abbreviation (input) WILLFIND :: int where "WILLFIND \<equiv> - 2"

definition setted_iterator_has_next :: "bitmap_iterator_data \<Rightarrow> (bitmap_iterator_data \<times> bool) option" where
  "setted_iterator_has_next d =
     do {
       n \<leftarrow> bitmap_next_setted (bi_bitmap d) (bi_start d + 1);
       Some (d\<lparr>bi_next := n\<rparr>, n \<noteq> UNFIND)
     }"

definition unsetted_iterator_has_next :: "bitmap_iterator_data \<Rightarrow> (bitmap_iterator_data \<times> bool) option" where
  "unsetted_iterator_has_next d =
     do {
       n \<leftarrow> bitmap_next_unsetted (bi_bitmap d) (bi_start d + 1);
       Some (d\<lparr>bi_next := n\<rparr>, n \<noteq> UNFIND)
     }"

definition bitmap_iterator_next :: "bitmap_iterator_data \<Rightarrow> (bitmap_iterator_data \<times> ptr) option" where
  "bitmap_iterator_next d =
     Some (if bi_next d = UNFIND then (d, NULL)
           else (d\<lparr>bi_start := bi_next d\<rparr>, word_of_int (bi_next d)))"

definition latte_iterator_setted_func :: "(bitmap_iterator_data, ptr) latte_iterator_func" where
  "latte_iterator_setted_func =
     \<lparr>it_has_next = setted_iterator_has_next, it_next = bitmap_iterator_next\<rparr>"

definition latte_iterator_unsetted_func :: "(bitmap_iterator_data, ptr) latte_iterator_func" where
  "latte_iterator_unsetted_func =
     \<lparr>it_has_next = unsetted_iterator_has_next, it_next = bitmap_iterator_next\<rparr>"

definition bitmap_iterator_data_new :: "sds \<Rightarrow> int \<Rightarrow> bitmap_iterator_data" where
  "bitmap_iterator_data_new bm start = \<lparr>bi_bitmap = bm, bi_start = start - 1, bi_next = WILLFIND\<rparr>"

definition bitmap_get_setted_iterator :: "sds \<Rightarrow> int \<Rightarrow> (bitmap_iterator_data, ptr) latte_iterator" where
  "bitmap_get_setted_iterator bm start =
     latte_iterator_new latte_iterator_setted_func (bitmap_iterator_data_new bm start)"

definition bitmap_get_unsetted_iterator :: "sds \<Rightarrow> int \<Rightarrow> (bitmap_iterator_data, ptr) latte_iterator" where
  "bitmap_get_unsetted_iterator bm start =
     latte_iterator_new latte_iterator_unsetted_func (bitmap_iterator_data_new bm start)"

section \<open>The search finds the first bit\<close>

definition bm_bit :: "sds \<Rightarrow> nat \<Rightarrow> bool" where
  "bm_bit bm i = bit (s_buf bm ! (i div 8)) (i mod 8)"

fun first_or_none :: "nat list \<Rightarrow> int" where
  "first_or_none [] = - 1"
| "first_or_none (i # is) = int i"

lemma bit_test: "k < 8 \<Longrightarrow> (b :: byte) AND push_bit k 1 \<noteq> 0 \<longleftrightarrow> bit b k"
  by (metis (no_types, opaque_lifting) and.commute bit_iff_and_push_bit_not_eq_0)

lemma find_char_loop_first: "find_char_loop test i n = first_or_none (filter test [i..<i + n])"
proof (induction n arbitrary: i)
  case (Suc n)
  have "[i..<i + Suc n] = i # [Suc i..<Suc i + n]" by (simp add: upt_rec)
  with Suc show ?case by (simp del: upt_Suc)
qed simp

lemma find_zero_first:
  "find_char_first_zero b st = first_or_none (filter (\<lambda>i. \<not> bit b i) [st..<8])"
proof -
  have "filter (\<lambda>i. b AND push_bit i 1 = 0) [st..<8] = filter (\<lambda>i. \<not> bit b i) [st..<8]"
    using bit_test by (intro filter_cong) auto
  then show ?thesis
    by (cases "st < 8") (simp_all add: find_char_first_zero_def find_char_loop_first)
qed

lemma find_setted_first:
  "find_char_first_setted b st = first_or_none (filter (\<lambda>i. bit b i) [st..<8])"
proof -
  have "filter (\<lambda>i. b AND push_bit i 1 \<noteq> 0) [st..<8] = filter (\<lambda>i. bit b i) [st..<8]"
    using bit_test by (intro filter_cong) auto
  then show ?thesis
    by (cases "st < 8") (simp_all add: find_char_first_setted_def find_char_loop_first)
qed

lemma first_or_none_nonneg: "first_or_none xs \<ge> 0 \<longleftrightarrow> xs \<noteq> []"
  by (cases xs) auto

lemma first_or_none_append: "first_or_none (xs @ ys) = (if xs \<noteq> [] then first_or_none xs else first_or_none ys)"
  by (cases xs) auto

lemma first_or_none_shift: "xs \<noteq> [] \<Longrightarrow> first_or_none (map (\<lambda>i. k + i) xs) = int k + first_or_none xs"
  by (cases xs) auto

lemma upt_split: "a \<le> m \<Longrightarrow> m \<le> b \<Longrightarrow> [a..<b] = [a..<m] @ [m..<b]"
  by (metis le_add_diff_inverse upt_add_eq_append)

lemma first_filter_bounds:
  assumes "filter Q [a..<b] \<noteq> []"
  shows "int a \<le> first_or_none (filter Q [a..<b]) \<and> first_or_none (filter Q [a..<b]) < int b"
proof -
  obtain x xs where x: "filter Q [a..<b] = x # xs" using assms by (cases "filter Q [a..<b]") auto
  have "x \<in> set (filter Q [a..<b])" unfolding x by simp
  then have "a \<le> x" "x < b" by auto
  then show ?thesis unfolding x by simp
qed

lemma scan_first:
  assumes "st < 8" "iter + n \<le> length buf"
    and find_in: "\<And>b st. st < 8 \<Longrightarrow> find_in b st = first_or_none (filter (P b) [st..<8])"
    and skip: "\<And>i. i < 8 \<Longrightarrow> \<not> P skip i"
  shows "bitmap_scan skip find_in buf iter st n
    = Some (first_or_none (filter (\<lambda>j. P (buf ! (j div 8)) (j mod 8)) [iter * 8 + st..<(iter + n) * 8]))"
  using assms(1,2)
proof (induction n arbitrary: iter st)
  case 0
  then show ?case by simp
next
  case (Suc n)
  let ?Q = "\<lambda>j. P (buf ! (j div 8)) (j mod 8)" and ?b = "buf ! iter"
  have "[iter * 8 + st..<(iter + Suc n) * 8] = [iter * 8 + st..<iter * 8 + 8] @ [Suc iter * 8 + 0..<(Suc iter + n) * 8]"
    using Suc.prems(1) upt_split [of "iter * 8 + st" "iter * 8 + 8" "(iter + Suc n) * 8"]
    by (simp add: add.commute del: upt_Suc)
  moreover have "filter ?Q [iter * 8 + st..<iter * 8 + 8] = map (\<lambda>i. iter * 8 + i) (filter (P ?b) [st..<8])"
  proof -
    have "[iter * 8 + st..<iter * 8 + 8] = map (\<lambda>i. iter * 8 + i) [st..<8]"
      by (rule nth_equalityI) simp_all
    moreover have "filter (\<lambda>i. ?Q (iter * 8 + i)) [st..<8] = filter (P ?b) [st..<8]"
      by (rule filter_cong) auto
    ultimately show ?thesis by (simp add: filter_map o_def)
  qed
  ultimately have split: "filter ?Q [iter * 8 + st..<(iter + Suc n) * 8]
      = map (\<lambda>i. iter * 8 + i) (filter (P ?b) [st..<8]) @ filter ?Q [Suc iter * 8 + 0..<(Suc iter + n) * 8]"
    by (simp only: filter_append)
  have nz: "?b \<noteq> skip" if "filter (P ?b) [st..<8] \<noteq> []"
    using that skip by (auto simp: filter_empty_conv)
  have g: "get_at buf iter = Some ?b" using Suc.prems(2) by (simp add: get_at_def)
  have IH: "bitmap_scan skip find_in buf (Suc iter) 0 n
      = Some (first_or_none (filter ?Q [Suc iter * 8 + 0..<(Suc iter + n) * 8]))"
    using Suc.IH [of 0 "Suc iter"] Suc.prems(2) by simp
  show ?case
    unfolding split first_or_none_append
    using nz g IH find_in [OF Suc.prems(1), of ?b] first_or_none_shift [of "filter (P ?b) [st..<8]" "iter * 8"]
    by (auto simp: first_or_none_nonneg Let_def mult.commute)
qed

lemma first_below:
  "(if first_or_none (filter Q [k..<m]) \<ge> int sz then - 1 else first_or_none (filter Q [k..<m]))
     = first_or_none (filter Q [k..<min sz m])"
proof (cases "k \<le> sz \<and> sz \<le> m")
  case True
  then have "filter Q [k..<m] = filter Q [k..<sz] @ filter Q [sz..<m]"
    using upt_split [of k sz m] by (metis filter_append)
  then show ?thesis
    using True first_filter_bounds [of Q k sz] first_filter_bounds [of Q sz m]
    by (cases "filter Q [k..<sz] = []"; cases "filter Q [sz..<m] = []")
      (auto simp: first_or_none_append min_def)
next
  case False
  then show ?thesis
    using first_filter_bounds [of Q k m] by (cases "filter Q [k..<m] = []") (auto simp: min_def)
qed

definition bitmap_ok :: "sds \<Rightarrow> bool" where
  "bitmap_ok bm \<longleftrightarrow> sds_ok bm \<and> s_len bm < 2147483648"

lemma bit_size_ok: "bitmap_ok bm \<Longrightarrow> bit_size bm = int (s_len bm)"
  using sds_okD(5) [of bm]
  by (simp add: bitmap_ok_def bit_size_def signed_of_nat signed_take_bit_int_eq_self)

lemma bytes_le: "int n \<le> bytes (int n) * 8 \<and> 0 \<le> bytes (int n) \<and> bytes (int n) \<le> int n"
  by (auto simp: bytes_def) presburger+

lemma next_setted_first:
  assumes ok: "bitmap_ok bm"
  shows "bitmap_next_setted bm (int k) = Some (first_or_none (filter (bm_bit bm) [k..<s_len bm]))"
proof -
  let ?n = "nat (bytes (int (s_len bm)))"
  have n: "s_len bm \<le> ?n * 8" "?n \<le> s_len bm" using bytes_le [of "s_len bm"] by linarith+
  have b: "bitmap_scan 0 find_char_first_setted (s_buf bm) (k div 8) (k mod 8) (?n - k div 8)
      = Some (first_or_none (filter (bm_bit bm) [k..<?n * 8]))"
  proof (cases "k div 8 \<le> ?n")
    case True
    have "k div 8 + (?n - k div 8) \<le> length (s_buf bm)"
      using True n ok sds_okD(3) [of bm] by (simp add: bitmap_ok_def)
    from scan_first [OF _ this, of "k mod 8" find_char_first_setted "\<lambda>b i. bit b i" 0] True
    show ?thesis by (simp add: find_setted_first bm_bit_def [abs_def])
  qed (simp add: not_le)
  show ?thesis
    using b first_below [of "s_len bm" "bm_bit bm" k "?n * 8"] n
    by (simp add: bitmap_next_setted_def Let_def bit_size_ok [OF ok] min_def nat_mod_distrib nat_div_distrib)
qed

lemma next_unsetted_first:
  assumes ok: "bitmap_ok bm"
  shows "bitmap_next_unsetted bm (int k) = Some (first_or_none (filter (\<lambda>i. \<not> bm_bit bm i) [k..<s_len bm]))"
proof -
  let ?n = "nat (bytes (int (s_len bm)))"
  have n: "s_len bm \<le> ?n * 8" "?n \<le> s_len bm" using bytes_le [of "s_len bm"] by linarith+
  have b: "bitmap_scan (- 1) find_char_first_zero (s_buf bm) (k div 8) (k mod 8) (?n - k div 8)
      = Some (first_or_none (filter (\<lambda>i. \<not> bm_bit bm i) [k..<?n * 8]))"
  proof (cases "k div 8 \<le> ?n")
    case True
    have "k div 8 + (?n - k div 8) \<le> length (s_buf bm)"
      using True n ok sds_okD(3) [of bm] by (simp add: bitmap_ok_def)
    from scan_first [OF _ this, of "k mod 8" find_char_first_zero "\<lambda>b i. \<not> bit b i" "- 1"] True
    show ?thesis by (simp add: find_zero_first bm_bit_def)
  qed (simp add: not_le)
  show ?thesis
    using b first_below [of "s_len bm" "\<lambda>i. \<not> bm_bit bm i" k "?n * 8"] n
    by (simp add: bitmap_next_unsetted_def Let_def bit_size_ok [OF ok] min_def nat_mod_distrib nat_div_distrib)
qed

section \<open>Reading and writing bits\<close>

lemma bitmap_get_eq:
  "i div 8 < length (s_buf bm) \<Longrightarrow> bitmap_get bm (int i) = Some (bm_bit bm i)"
  by (simp add: bitmap_get_def get_at_def bm_bit_def bit_test del: push_bit_of_1)

lemma bitmap_ok_update:
  "bitmap_ok bm \<Longrightarrow> k < s_len bm \<Longrightarrow> bitmap_ok (bm\<lparr>s_buf := (s_buf bm)[k := b]\<rparr>)"
  by (auto simp: bitmap_ok_def sds_ok_def)

lemma div_mod_eq_8: "i div 8 = j div 8 \<Longrightarrow> i mod 8 = j mod 8 \<Longrightarrow> i = (j :: nat)"
  by (metis div_mult_mod_eq)

lemma bitmap_set_ok:
  assumes ok: "bitmap_ok bm" and i: "i div 8 < s_len bm"
  shows "\<exists>bm'. bitmap_set bm (int i) = Some bm' \<and> bitmap_ok bm' \<and> s_len bm' = s_len bm
    \<and> (\<forall>j. j div 8 < length (s_buf bm) \<longrightarrow> bm_bit bm' j = (j = i \<or> bm_bit bm j))"
proof -
  have l: "i div 8 < length (s_buf bm)" using i ok sds_okD(3) [of bm] by (simp add: bitmap_ok_def)
  let ?b = "s_buf bm ! (i div 8) OR push_bit (i mod 8) 1"
  let ?bm = "bm\<lparr>s_buf := (s_buf bm)[i div 8 := ?b]\<rparr>"
  have "bitmap_set bm (int i) = Some ?bm"
    using l by (simp add: bitmap_set_def get_at_def put_at_def)
  moreover have "bm_bit ?bm j = (j = i \<or> bm_bit bm j)" if "j div 8 < length (s_buf bm)" for j
    using l that by (auto simp: bm_bit_def nth_list_update bit_simps dest: div_mod_eq_8)
  ultimately show ?thesis using bitmap_ok_update [OF ok i, of ?b] by auto
qed

lemma bitmap_clear_ok:
  assumes ok: "bitmap_ok bm" and i: "i div 8 < s_len bm"
  shows "\<exists>bm'. bitmap_clear bm (int i) = Some bm' \<and> bitmap_ok bm' \<and> s_len bm' = s_len bm
    \<and> (\<forall>j. j div 8 < length (s_buf bm) \<longrightarrow> bm_bit bm' j = (j \<noteq> i \<and> bm_bit bm j))"
proof -
  have l: "i div 8 < length (s_buf bm)" using i ok sds_okD(3) [of bm] by (simp add: bitmap_ok_def)
  let ?b = "s_buf bm ! (i div 8) AND NOT (push_bit (i mod 8) 1)"
  let ?bm = "bm\<lparr>s_buf := (s_buf bm)[i div 8 := ?b]\<rparr>"
  have "bitmap_clear bm (int i) = Some ?bm"
    using l by (simp add: bitmap_clear_def get_at_def put_at_def)
  moreover have "bm_bit ?bm j = (j \<noteq> i \<and> bm_bit bm j)" if "j div 8 < length (s_buf bm)" for j
    using l that by (auto simp: bm_bit_def nth_list_update bit_simps dest: div_mod_eq_8)
  ultimately show ?thesis using bitmap_ok_update [OF ok i, of ?b] by auto
qed

section \<open>Iteration\<close>

definition bits_from :: "(nat \<Rightarrow> bool) \<Rightarrow> bitmap_iterator_data \<Rightarrow> nat list" where
  "bits_from P d = filter P [nat (bi_start d + 1)..<s_len (bi_bitmap d)]"

lemma filter_upt_Cons:
  assumes "filter P [a..<b] = x # xs"
  shows "filter P [Suc x..<b] = xs"
proof -
  have "x \<in> set (filter P [a..<b])" using assms by simp
  then have x: "a \<le> x" "x < b" "P x" by auto
  have up: "[a..<b] = [a..<x] @ x # [Suc x..<b]"
    using x upt_split [of a x b] by (simp add: upt_conv_Cons)
  have "filter P [a..<x] = []"
  proof (cases "filter P [a..<x]")
    case (Cons y ys)
    then have "y = x" using assms by (simp add: up)
    moreover have "y \<in> set (filter P [a..<x])" using Cons by simp
    ultimately show ?thesis by simp
  qed
  with assms x(3) show ?thesis by (simp add: up)
qed

lemma iter_next_step:
  assumes "bits_from P d = i # is" "bi_next d = int i" "s_len (bi_bitmap d) < 2147483648"
  shows "bitmap_iterator_next d = Some (d\<lparr>bi_start := int i\<rparr>, of_nat i)"
    "bits_from P (d\<lparr>bi_start := int i\<rparr>) = is"
  using assms filter_upt_Cons [of P _ _ i "is"]
  by (simp_all add: bitmap_iterator_next_def bits_from_def nat_add_distrib)

definition iter_ok :: "bitmap_iterator_data \<Rightarrow> bool" where
  "iter_ok d \<longleftrightarrow> bitmap_ok (bi_bitmap d) \<and> - 1 \<le> bi_start d"

lemma iter_has_next_step:
  assumes "iter_ok d" and "n = first_or_none (bits_from P d)"
  shows "(n \<noteq> UNFIND) = (bits_from P d \<noteq> [])" "bits_from P (d\<lparr>bi_next := n\<rparr>) = bits_from P d"
  using assms by (cases "bits_from P d"; simp add: bits_from_def)+

interpretation setted: iterator_impl latte_iterator_setted_func iter_ok
  "\<lambda>d. bi_next d = first_or_none (bits_from (bm_bit (bi_bitmap d)) d)"
  "\<lambda>d. map of_nat (bits_from (bm_bit (bi_bitmap d)) d)"
proof
  fix d assume ok: "iter_ok d"
  let ?n = "first_or_none (bits_from (bm_bit (bi_bitmap d)) d)"
  have k: "bi_start d + 1 = int (nat (bi_start d + 1))" using ok by (simp add: iter_ok_def)
  have "bitmap_next_setted (bi_bitmap d) (bi_start d + 1) = Some ?n"
    using next_setted_first [of "bi_bitmap d" "nat (bi_start d + 1)"] ok
    by (simp add: iter_ok_def bits_from_def)
  then have "it_has_next latte_iterator_setted_func d = Some (d\<lparr>bi_next := ?n\<rparr>, ?n \<noteq> UNFIND)"
    by (simp add: latte_iterator_setted_func_def setted_iterator_has_next_def)
  with ok iter_has_next_step [OF ok refl, of "bm_bit (bi_bitmap d)"]
  show "\<exists>s'. it_has_next latte_iterator_setted_func d
      = Some (s', map of_nat (bits_from (bm_bit (bi_bitmap d)) d) \<noteq> [])
    \<and> iter_ok s' \<and> map of_nat (bits_from (bm_bit (bi_bitmap s')) s') = map of_nat (bits_from (bm_bit (bi_bitmap d)) d)
    \<and> (map of_nat (bits_from (bm_bit (bi_bitmap d)) d) \<noteq> [] \<longrightarrow>
         bi_next s' = first_or_none (bits_from (bm_bit (bi_bitmap s')) s'))"
    by (intro exI [of _ "d\<lparr>bi_next := ?n\<rparr>"]) (simp add: iter_ok_def)
next
  fix d :: bitmap_iterator_data and x :: ptr and xs
  let ?P = "bm_bit (bi_bitmap d)"
  assume ok: "iter_ok d" and r: "bi_next d = first_or_none (bits_from ?P d)"
    and m: "map of_nat (bits_from ?P d) = x # xs"
  then obtain i "is" where i: "bits_from ?P d = i # is" "x = of_nat i" "xs = map of_nat is" by auto
  with r iter_next_step [OF i(1)] ok
  show "\<exists>s'. it_next latte_iterator_setted_func d = Some (s', x) \<and> iter_ok s'
    \<and> map of_nat (bits_from (bm_bit (bi_bitmap s')) s') = xs"
    by (simp add: latte_iterator_setted_func_def iter_ok_def bitmap_ok_def)
qed

interpretation unsetted: iterator_impl latte_iterator_unsetted_func iter_ok
  "\<lambda>d. bi_next d = first_or_none (bits_from (\<lambda>i. \<not> bm_bit (bi_bitmap d) i) d)"
  "\<lambda>d. map of_nat (bits_from (\<lambda>i. \<not> bm_bit (bi_bitmap d) i) d)"
proof
  fix d assume ok: "iter_ok d"
  let ?P = "\<lambda>i. \<not> bm_bit (bi_bitmap d) i"
  let ?n = "first_or_none (bits_from ?P d)"
  have "bitmap_next_unsetted (bi_bitmap d) (bi_start d + 1) = Some ?n"
    using next_unsetted_first [of "bi_bitmap d" "nat (bi_start d + 1)"] ok
    by (simp add: iter_ok_def bits_from_def)
  then have "it_has_next latte_iterator_unsetted_func d = Some (d\<lparr>bi_next := ?n\<rparr>, ?n \<noteq> UNFIND)"
    by (simp add: latte_iterator_unsetted_func_def unsetted_iterator_has_next_def)
  with ok iter_has_next_step [OF ok refl, of ?P]
  show "\<exists>s'. it_has_next latte_iterator_unsetted_func d = Some (s', map of_nat (bits_from ?P d) \<noteq> [])
    \<and> iter_ok s' \<and> map of_nat (bits_from (\<lambda>i. \<not> bm_bit (bi_bitmap s') i) s') = map of_nat (bits_from ?P d)
    \<and> (map of_nat (bits_from ?P d) \<noteq> [] \<longrightarrow>
         bi_next s' = first_or_none (bits_from (\<lambda>i. \<not> bm_bit (bi_bitmap s') i) s'))"
    by (intro exI [of _ "d\<lparr>bi_next := ?n\<rparr>"]) (simp add: iter_ok_def)
next
  fix d :: bitmap_iterator_data and x :: ptr and xs
  let ?P = "\<lambda>i. \<not> bm_bit (bi_bitmap d) i"
  assume ok: "iter_ok d" and r: "bi_next d = first_or_none (bits_from ?P d)"
    and m: "map of_nat (bits_from ?P d) = x # xs"
  then obtain i "is" where i: "bits_from ?P d = i # is" "x = of_nat i" "xs = map of_nat is" by auto
  with r iter_next_step [OF i(1)] ok
  show "\<exists>s'. it_next latte_iterator_unsetted_func d = Some (s', x) \<and> iter_ok s'
    \<and> map of_nat (bits_from (\<lambda>i. \<not> bm_bit (bi_bitmap s') i) s') = xs"
    by (simp add: latte_iterator_unsetted_func_def iter_ok_def bitmap_ok_def)
qed

section \<open>Properties\<close>

text \<open>\<open>bitmap_new\<close> copies \<open>len\<close> bytes out of a one-byte string literal: it reads outside the
  literal for every length above 1, before it clears the map.\<close>

theorem bitmap_new_overread:
  assumes "1 < len" and "len < 2 ^ 31"
  shows "bitmap_new usable junk len = None"
proof -
  have "mem_read [0 :: byte] 0 (nat len) = None" using assms(1) by (simp add: mem_read_def)
  then show ?thesis
    using assms by (auto simp: bitmap_new_def sds_new_len_def sds_new_len_raw_def Let_def mod_pos_pos_trivial)
qed

theorem bitmap_new_overread_witness: "(1 :: int) < 64 \<and> bitmap_new (\<lambda>n. n) (\<lambda>_. 0) 64 = None"
  using bitmap_new_overread [of 64 "\<lambda>n. n" "\<lambda>_. 0"] by simp

text \<open>C35. Iterating over the set bits and over the clear bits of a bitmap visits exactly those
  positions between the start and \<open>bit_size\<close>, in ascending order, and both loops end.\<close>

theorem bitmap_iterators_exact:
  assumes "bitmap_ok bm"
  shows "iterate_all (bitmap_get_setted_iterator bm (int k))
      = Some (map of_nat (filter (bm_bit bm) [k..<s_len bm]))
    \<and> iterate_all (bitmap_get_unsetted_iterator bm (int k))
      = Some (map of_nat (filter (\<lambda>i. \<not> bm_bit bm i) [k..<s_len bm]))"
  using setted.iterate_all_rest [of "bitmap_iterator_data_new bm (int k)"]
    unsetted.iterate_all_rest [of "bitmap_iterator_data_new bm (int k)"] assms
  by (simp add: bitmap_get_setted_iterator_def bitmap_get_unsetted_iterator_def
      bitmap_iterator_data_new_def iter_ok_def bits_from_def)

theorem bitmap_iterators_exact_witness:
  "bitmap_ok \<lparr>s_type = 1, s_len = 4, s_alloc = 4, s_buf = [10, 0, 0, 0, 0]\<rparr>
   \<and> iterate_all (bitmap_get_setted_iterator \<lparr>s_type = 1, s_len = 4, s_alloc = 4, s_buf = [10, 0, 0, 0, 0]\<rparr> 0)
      = Some [1, 3]"
proof -
  let ?bm = "\<lparr>s_type = 1, s_len = 4, s_alloc = 4, s_buf = [10, 0, 0, 0, 0 :: byte]\<rparr>"
  have ok: "bitmap_ok ?bm" by (simp add: bitmap_ok_def sds_ok_def len_bits_def)
  have "filter (bm_bit ?bm) [0..<4] = [1, 3]" by code_simp
  with bitmap_iterators_exact [OF ok, of 0] ok show ?thesis by simp
qed

text \<open>Setting and clearing a bit change that bit and no other, in any bitmap, wherever the
  bit lies in its byte.\<close>

theorem bitmap_set_clear_exact:
  assumes "bitmap_ok bm" and "i div 8 < s_len bm" and "j div 8 < s_len bm"
  shows "(\<exists>bm'. bitmap_set bm (int i) = Some bm' \<and> bitmap_ok bm'
      \<and> bitmap_get bm' (int j) = (if j = i then Some True else bitmap_get bm (int j)))
    \<and> (\<exists>bm'. bitmap_clear bm (int i) = Some bm' \<and> bitmap_ok bm'
      \<and> bitmap_get bm' (int j) = (if j = i then Some False else bitmap_get bm (int j)))"
proof -
  have get: "bitmap_get b (int j) = Some (bm_bit b j)" if "bitmap_ok b" "s_len b = s_len bm" for b
    using that assms(3) sds_okD(3) [of b] by (intro bitmap_get_eq) (simp add: bitmap_ok_def)
  have jl: "j div 8 < length (s_buf bm)"
    using assms(1,3) sds_okD(3) [of bm] by (simp add: bitmap_ok_def)
  from bitmap_set_ok [OF assms(1,2)] bitmap_clear_ok [OF assms(1,2)] get assms(1) jl
  show ?thesis by fastforce
qed

theorem bitmap_set_clear_exact_witness:
  "\<exists>bm'. bitmap_set \<lparr>s_type = 1, s_len = 4, s_alloc = 4, s_buf = [10, 0, 0, 0, 0]\<rparr> 9 = Some bm'
     \<and> bitmap_get bm' 1 = bitmap_get \<lparr>s_type = 1, s_len = 4, s_alloc = 4, s_buf = [10, 0, 0, 0, 0]\<rparr> 1"
proof -
  let ?bm = "\<lparr>s_type = 1, s_len = 4, s_alloc = 4, s_buf = [10, 0, 0, 0, 0 :: byte]\<rparr>"
  have ok: "bitmap_ok ?bm" by (simp add: bitmap_ok_def sds_ok_def len_bits_def)
  from bitmap_set_clear_exact [OF ok, of 9 1] show ?thesis by auto
qed

end
