(* ===== verification/MapSpec.thy ===== *)
theory MapSpec
  imports Prelude
begin

text \<open>
  The contract of a key-value table, as its clients use it: an insertion that refuses a key that
  is bound, a removal that reports whether the key was bound, and a lookup. Any of them may change
  the representation (a hash table rehashes while it looks up). \<open>map_run\<close> is a client; the
  locale shows that it cannot tell the table from a finite map.
\<close>

datatype ('k, 'v) map_op = Put 'k 'v | Del 'k | Get 'k

datatype 'v map_reply = Done bool | Found "'v option"

fun map_run ::
  "('s \<Rightarrow> 'k \<Rightarrow> 'v \<Rightarrow> ('s \<times> bool) option) \<Rightarrow> ('s \<Rightarrow> 'k \<Rightarrow> ('s \<times> bool) option) \<Rightarrow>
   ('s \<Rightarrow> 'k \<Rightarrow> ('s \<times> 'v option) option) \<Rightarrow> 's \<Rightarrow> ('k, 'v) map_op list \<Rightarrow> ('s \<times> 'v map_reply list) option"
where
  "map_run put del get s [] = Some (s, [])"
| "map_run put del get s (c # cs) =
     do {
       (s, r) \<leftarrow> (case c of
          Put k v \<Rightarrow> map_option (\<lambda>(s, b). (s, Done b)) (put s k v)
        | Del k \<Rightarrow> map_option (\<lambda>(s, b). (s, Done b)) (del s k)
        | Get k \<Rightarrow> map_option (\<lambda>(s, v). (s, Found v)) (get s k));
       (s, rs) \<leftarrow> map_run put del get s cs;
       Some (s, r # rs)
     }"

fun map_step :: "('k \<rightharpoonup> 'v) \<Rightarrow> ('k, 'v) map_op \<Rightarrow> ('k \<rightharpoonup> 'v) \<times> 'v map_reply" where
  "map_step m (Put k v) = (if m k = None then (m(k \<mapsto> v), Done True) else (m, Done False))"
| "map_step m (Del k) = (m(k := None), Done (m k \<noteq> None))"
| "map_step m (Get k) = (m, Found (m k))"

fun map_model :: "('k \<rightharpoonup> 'v) \<Rightarrow> ('k, 'v) map_op list \<Rightarrow> ('k \<rightharpoonup> 'v) \<times> 'v map_reply list" where
  "map_model m [] = (m, [])"
| "map_model m (c # cs) =
     (case map_step m c of (m, r) \<Rightarrow> case map_model m cs of (m, rs) \<Rightarrow> (m, r # rs))"

fun op_key :: "('k, 'v) map_op \<Rightarrow> 'k" where
  "op_key (Put k v) = k"
| "op_key (Del k) = k"
| "op_key (Get k) = k"

locale map_impl =
  fixes invar :: "'s \<Rightarrow> bool"
    and lookup :: "'s \<Rightarrow> 'k \<Rightarrow> 'v option"
    and valid :: "'k \<Rightarrow> bool"
    and capacity :: nat
    and put :: "'s \<Rightarrow> 'k \<Rightarrow> 'v \<Rightarrow> ('s \<times> bool) option"
    and del :: "'s \<Rightarrow> 'k \<Rightarrow> ('s \<times> bool) option"
    and get :: "'s \<Rightarrow> 'k \<Rightarrow> ('s \<times> 'v option) option"
  assumes finite_dom: "invar s \<Longrightarrow> finite (dom (lookup s))"
    and put_law: "invar s \<Longrightarrow> valid k \<Longrightarrow> card (dom (lookup s)) < capacity \<Longrightarrow>
      \<exists>s'. put s k v = Some (s', lookup s k = None) \<and> invar s'
        \<and> lookup s' = (if lookup s k = None then (lookup s)(k \<mapsto> v) else lookup s)"
    and del_law: "invar s \<Longrightarrow> valid k \<Longrightarrow>
      \<exists>s'. del s k = Some (s', lookup s k \<noteq> None) \<and> invar s' \<and> lookup s' = (lookup s)(k := None)"
    and get_law: "invar s \<Longrightarrow> valid k \<Longrightarrow>
      \<exists>s'. get s k = Some (s', lookup s k) \<and> invar s' \<and> lookup s' = lookup s"
begin

lemma step_refines:
  assumes "invar s" "valid (op_key c)" "card (dom (lookup s)) < capacity"
  obtains s' where
    "(case c of
        Put k v \<Rightarrow> map_option (\<lambda>(s, b). (s, Done b)) (put s k v)
      | Del k \<Rightarrow> map_option (\<lambda>(s, b). (s, Done b)) (del s k)
      | Get k \<Rightarrow> map_option (\<lambda>(s, v). (s, Found v)) (get s k)) = Some (s', snd (map_step (lookup s) c))"
    "invar s'" "lookup s' = fst (map_step (lookup s) c)"
    "card (dom (lookup s')) \<le> Suc (card (dom (lookup s)))"
proof (cases c)
  case (Put k v)
  with put_law [OF assms(1), of k v] assms obtain s' where
    s': "put s k v = Some (s', lookup s k = None)" "invar s'"
      "lookup s' = (if lookup s k = None then (lookup s)(k \<mapsto> v) else lookup s)" by auto
  then have "dom (lookup s') \<subseteq> insert k (dom (lookup s))" by auto
  then have "card (dom (lookup s')) \<le> Suc (card (dom (lookup s)))"
    using card_mono [of "insert k (dom (lookup s))" "dom (lookup s')"] finite_dom [OF assms(1)]
    by (metis card_insert_le_m1 diff_Suc_1 finite.insertI le_refl order_trans zero_less_Suc)
  with s' Put that show ?thesis by (cases "lookup s k") auto
next
  case (Del k)
  with del_law [OF assms(1), of k] assms obtain s' where
    s': "del s k = Some (s', lookup s k \<noteq> None)" "invar s'" "lookup s' = (lookup s)(k := None)" by auto
  have "card (dom (lookup s')) \<le> Suc (card (dom (lookup s)))"
    using card_mono [OF finite_dom [OF assms(1)], of "dom (lookup s')"] s'(3) by auto
  with s' Del that show ?thesis by auto
next
  case (Get k)
  with get_law [OF assms(1), of k] assms that show ?thesis by auto
qed

text \<open>A client cannot tell the table from a finite map.\<close>

lemma run_refines:
  assumes "invar s" "\<forall>c \<in> set cs. valid (op_key c)" "card (dom (lookup s)) + length cs \<le> capacity"
  shows "\<exists>s'. map_run put del get s cs = Some (s', snd (map_model (lookup s) cs)) \<and> invar s'
    \<and> lookup s' = fst (map_model (lookup s) cs)"
  using assms
proof (induction cs arbitrary: s)
  case Nil
  then show ?case by simp
next
  case (Cons c cs)
  from step_refines [of s c] Cons.prems obtain s1 where
    s1: "(case c of
        Put k v \<Rightarrow> map_option (\<lambda>(s, b). (s, Done b)) (put s k v)
      | Del k \<Rightarrow> map_option (\<lambda>(s, b). (s, Done b)) (del s k)
      | Get k \<Rightarrow> map_option (\<lambda>(s, v). (s, Found v)) (get s k)) = Some (s1, snd (map_step (lookup s) c))"
    "invar s1" "lookup s1 = fst (map_step (lookup s) c)"
    "card (dom (lookup s1)) \<le> Suc (card (dom (lookup s)))" by auto
  from Cons.IH [OF s1(2)] Cons.prems s1(4) obtain s2 where
    "map_run put del get s1 cs = Some (s2, snd (map_model (lookup s1) cs))" "invar s2"
    "lookup s2 = fst (map_model (lookup s1) cs)" by auto
  with s1 show ?case by (simp add: case_prod_unfold)
qed

end

end
