(* ===== verification/Dict.thy ===== *)
theory Dict
  imports MapSpec IterSpec
begin

text \<open>
  \<open>src/dict/dict.c\<close> and \<open>dict.h\<close>: a chained hash table with two tables and incremental
  rehashing. A bucket is the chain of its entries, a list; a table that was not allocated is the
  empty list of buckets, and every access to a bucket is checked. Keys stand for what
  \<open>keyCompare\<close> compares: the test for identical pointers that precedes it finds nothing else.
  The callbacks of \<open>dict_func_t\<close> are fields of a record; the destructors only free memory and
  are left out, as is the metadata of an entry. The value of a fresh entry is the parameter
  \<open>junk\<close> until it is set. The counters of entries count objects in memory and do not wrap.
\<close>

section \<open>Types\<close>

type_synonym ('k, 'v) entry = "'k \<times> 'v"
type_synonym ('k, 'v) chain = "('k, 'v) entry list"

record ('k, 'v) dict_func =
  hashFunction :: "'k \<Rightarrow> u64"
  keyDup :: "('k \<Rightarrow> 'k) option"
  valDup :: "('v \<Rightarrow> 'v) option"
  keyCompare :: "('k \<Rightarrow> 'k \<Rightarrow> bool) option"
  expandAllowed :: "(nat \<Rightarrow> nat \<Rightarrow> nat \<Rightarrow> bool) option"

text \<open>The arrays \<open>ht_table[2]\<close>, \<open>ht_used[2]\<close> and \<open>ht_size_exp[2]\<close> are functions of the index.\<close>

record ('k, 'v) dict =
  ht_table :: "nat \<Rightarrow> ('k, 'v) chain list"
  ht_used :: "nat \<Rightarrow> nat"
  rehashidx :: int
  pauserehash :: int
  ht_size_exp :: "nat \<Rightarrow> int"

abbreviation (input) DICT_OK :: int where "DICT_OK \<equiv> 0"
abbreviation (input) DICT_ERR :: int where "DICT_ERR \<equiv> 1"
abbreviation (input) DICT_HT_INITIAL_EXP :: nat where "DICT_HT_INITIAL_EXP \<equiv> 2"
abbreviation (input) DICT_HT_INITIAL_SIZE :: nat where "DICT_HT_INITIAL_SIZE \<equiv> 4"

definition DICTHT_SIZE :: "int \<Rightarrow> nat" where
  "DICTHT_SIZE exp = (if exp = - 1 then 0 else 2 ^ nat exp)"

definition DICTHT_SIZE_MASK :: "int \<Rightarrow> u64" where
  "DICTHT_SIZE_MASK exp = (if exp = - 1 then 0 else of_nat (DICTHT_SIZE exp) - 1)"

definition dict_slots :: "('k, 'v) dict \<Rightarrow> nat" where
  "dict_slots d = DICTHT_SIZE (ht_size_exp d 0) + DICTHT_SIZE (ht_size_exp d 1)"

definition dict_size :: "('k, 'v) dict \<Rightarrow> nat" where
  "dict_size d = ht_used d 0 + ht_used d 1"

definition dict_is_rehashing :: "('k, 'v) dict \<Rightarrow> bool" where
  "dict_is_rehashing d \<longleftrightarrow> rehashidx d \<noteq> - 1"

definition dict_hash_key :: "('k, 'v) dict_func \<Rightarrow> 'k \<Rightarrow> u64" where
  "dict_hash_key ty key = hashFunction ty key"

definition dict_compare_keys :: "('k, 'v) dict_func \<Rightarrow> 'k \<Rightarrow> 'k \<Rightarrow> bool" where
  "dict_compare_keys ty k1 k2 = (case keyCompare ty of Some f \<Rightarrow> f k1 k2 | None \<Rightarrow> k1 = k2)"

definition same_key :: "('k, 'v) dict_func \<Rightarrow> 'k \<Rightarrow> ('k, 'v) entry \<Rightarrow> bool" where
  "same_key ty key he \<longleftrightarrow> key = fst he \<or> dict_compare_keys ty key (fst he)"

definition dup_key :: "('k, 'v) dict_func \<Rightarrow> 'k \<Rightarrow> 'k" where
  "dup_key ty key = (case keyDup ty of Some f \<Rightarrow> f key | None \<Rightarrow> key)"

definition dup_val :: "('k, 'v) dict_func \<Rightarrow> 'v \<Rightarrow> 'v" where
  "dup_val ty val = (case valDup ty of Some f \<Rightarrow> f val | None \<Rightarrow> val)"

text \<open>The bucket of a hash in table \<open>t\<close>.\<close>

definition bucket_index :: "('k, 'v) dict \<Rightarrow> nat \<Rightarrow> u64 \<Rightarrow> nat" where
  "bucket_index d t h = unat (h AND DICTHT_SIZE_MASK (ht_size_exp d t))"

definition set_bucket :: "('k, 'v) dict \<Rightarrow> nat \<Rightarrow> nat \<Rightarrow> ('k, 'v) chain \<Rightarrow> ('k, 'v) dict option" where
  "set_bucket d t i c =
     map_option (\<lambda>tab. d\<lparr>ht_table := (ht_table d)(t := tab)\<rparr>) (put_at (ht_table d t) i c)"

section \<open>Creation and expansion\<close>

definition dict_reset :: "('k, 'v) dict \<Rightarrow> nat \<Rightarrow> ('k, 'v) dict" where
  "dict_reset d htidx =
     d\<lparr>ht_table := (ht_table d)(htidx := []), ht_size_exp := (ht_size_exp d)(htidx := - 1),
       ht_used := (ht_used d)(htidx := 0)\<rparr>"

definition dict_init :: "('k, 'v) dict \<Rightarrow> ('k, 'v) dict" where
  "dict_init d = (dict_reset (dict_reset d 0) 1)\<lparr>rehashidx := - 1, pauserehash := 0\<rparr>"

definition dict_new :: "('k, 'v) dict" where
  "dict_new = dict_init
     \<lparr>ht_table = (\<lambda>_. []), ht_used = (\<lambda>_. 0), rehashidx = 0, pauserehash = 0, ht_size_exp = (\<lambda>_. 0)\<rparr>"

text \<open>\<open>_dict_clear\<close> frees the entries of the buckets until none is counted, then the table. The callback is NULL in every
  call, and freeing a key, a value and an entry is not modelled.\<close>

fun clear_loop :: "('k, 'v) dict \<Rightarrow> nat \<Rightarrow> nat \<Rightarrow> nat \<Rightarrow> ('k, 'v) dict option" where
  "clear_loop d htidx i 0 = Some d"
| "clear_loop d htidx i (Suc n) =
     (if ht_used d htidx = 0 then Some d
      else do {
        he \<leftarrow> get_at (ht_table d htidx) i;
        if length he > ht_used d htidx then None
        else do {
          d \<leftarrow> set_bucket d htidx i [];
          clear_loop (d\<lparr>ht_used := (ht_used d)(htidx := ht_used d htidx - length he)\<rparr>) htidx (i + 1) n
        }
      })"

definition dict_clear :: "('k, 'v) dict \<Rightarrow> nat \<Rightarrow> ('k, 'v) dict option" where
  "dict_clear d htidx = do { d \<leftarrow> clear_loop d htidx 0 (DICTHT_SIZE (ht_size_exp d htidx)); Some (dict_reset d htidx) }"

definition dict_destroy :: "('k, 'v) dict \<Rightarrow> ('k, 'v) dict option" where
  "dict_destroy d = do { d \<leftarrow> dict_clear d 0; dict_clear d 1 }"

function next_exp_loop :: "nat \<Rightarrow> nat \<Rightarrow> nat" where
  "next_exp_loop e sz = (if 2 ^ e \<ge> sz then e else next_exp_loop (Suc e) sz)"
  by pat_completeness auto

termination
proof (relation "measure (\<lambda>(e, sz). sz - 2 ^ e)")
  fix e sz :: nat
  assume "\<not> sz \<le> 2 ^ e"
  moreover have "(0 :: nat) < 2 ^ e" by simp
  ultimately have "sz - 2 ^ Suc e < sz - 2 ^ e" unfolding power_Suc by linarith
  then show "((Suc e, sz), e, sz) \<in> measure (\<lambda>(e, sz). sz - 2 ^ e)" by simp
qed simp

declare next_exp_loop.simps [simp del]

definition dict_next_exp :: "nat \<Rightarrow> nat" where
  "dict_next_exp sz = (if sz \<ge> 2 ^ 63 - 1 then 63 else next_exp_loop DICT_HT_INITIAL_EXP sz)"

definition dict_expand :: "('k, 'v) dict \<Rightarrow> nat \<Rightarrow> ('k, 'v) dict \<times> int" where
  "dict_expand d sz =
     (if dict_is_rehashing d \<or> ht_used d 0 > sz then (d, DICT_ERR)
      else
        let new_exp = dict_next_exp sz;
            newsize = 2 ^ new_exp
        in if newsize < sz \<or> newsize * 8 mod 2 ^ 64 < newsize then (d, DICT_ERR)
           else if int new_exp = ht_size_exp d 0 then (d, DICT_ERR)
           else if ht_table d 0 = []
           then (d\<lparr>ht_size_exp := (ht_size_exp d)(0 := int new_exp), ht_used := (ht_used d)(0 := 0),
                   ht_table := (ht_table d)(0 := replicate newsize [])\<rparr>, DICT_OK)
           else (d\<lparr>ht_size_exp := (ht_size_exp d)(1 := int new_exp), ht_used := (ht_used d)(1 := 0),
                   ht_table := (ht_table d)(1 := replicate newsize []), rehashidx := 0\<rparr>, DICT_OK))"

section \<open>Incremental rehashing\<close>

text \<open>Skipping empty buckets: the new index, the visits left, and whether they ran out.\<close>

function skip_empty :: "('k, 'v) chain list \<Rightarrow> nat \<Rightarrow> int \<Rightarrow> (nat \<times> int \<times> bool) option" where
  "skip_empty tab i visits =
     (if i < length tab
      then if tab ! i = []
        then if visits - 1 = 0 then Some (Suc i, 0, True) else skip_empty tab (Suc i) (visits - 1)
        else Some (i, visits, False)
      else None)"
  by pat_completeness auto

termination
  by (relation "measure (\<lambda>(tab, i, visits). length tab - i)") auto

declare skip_empty.simps [simp del]

text \<open>Moving the entries of one bucket to the heads of their chains in the second table.\<close>

fun move_entries :: "('k, 'v) dict_func \<Rightarrow> ('k, 'v) dict \<Rightarrow> ('k, 'v) chain \<Rightarrow> ('k, 'v) dict option" where
  "move_entries ty d [] = Some d"
| "move_entries ty d (de # rest) =
     (let h = bucket_index d 1 (dict_hash_key ty (fst de)) in
      do {
        c \<leftarrow> get_at (ht_table d 1) h;
        d \<leftarrow> set_bucket d 1 h (de # c);
        move_entries ty
          (d\<lparr>ht_used := (ht_used d)(0 := ht_used d 0 - 1, 1 := ht_used d 1 + 1)\<rparr>) rest
      })"

fun rehash_loop ::
  "('k, 'v) dict_func \<Rightarrow> ('k, 'v) dict \<Rightarrow> nat \<Rightarrow> int \<Rightarrow> (('k, 'v) dict \<times> bool) option" where
  "rehash_loop ty d 0 visits = Some (d, False)"
| "rehash_loop ty d (Suc n) visits =
     (if ht_used d 0 = 0 then Some (d, False)
      else if \<not> int (DICTHT_SIZE (ht_size_exp d 0)) > rehashidx d \<or> rehashidx d < 0 then None
      else do {
        (i, visits, stop) \<leftarrow> skip_empty (ht_table d 0) (nat (rehashidx d)) visits;
        if stop then Some (d\<lparr>rehashidx := int i\<rparr>, True)
        else do {
          de \<leftarrow> get_at (ht_table d 0) i;
          d \<leftarrow> move_entries ty d de;
          d \<leftarrow> set_bucket d 0 i [];
          rehash_loop ty (d\<lparr>rehashidx := int i + 1\<rparr>) n visits
        }
      })"

text \<open>\<open>n\<close> is an \<open>int\<close> that is not negative; its product by 10 may overflow.\<close>

definition dict_rehash :: "('k, 'v) dict_func \<Rightarrow> ('k, 'v) dict \<Rightarrow> nat \<Rightarrow> (('k, 'v) dict \<times> int) option" where
  "dict_rehash ty d n =
     do {
       empty_visits \<leftarrow> checked32 (int n * 10);
       if \<not> dict_is_rehashing d then Some (d, 0)
       else do {
         (d, stop) \<leftarrow> rehash_loop ty d n empty_visits;
         if stop then Some (d, 1)
         else if ht_used d 0 = 0
         then Some ((dict_reset
           (d\<lparr>ht_table := (ht_table d)(0 := ht_table d 1), ht_used := (ht_used d)(0 := ht_used d 1),
              ht_size_exp := (ht_size_exp d)(0 := ht_size_exp d 1)\<rparr>) 1)\<lparr>rehashidx := - 1\<rparr>, 0)
         else Some (d, 1)
       }
     }"

definition dict_rehash_step :: "('k, 'v) dict_func \<Rightarrow> ('k, 'v) dict \<Rightarrow> ('k, 'v) dict option" where
  "dict_rehash_step ty d =
     (if pauserehash d = 0 then map_option fst (dict_rehash ty d 1) else Some d)"

definition rehash_if_needed :: "('k, 'v) dict_func \<Rightarrow> ('k, 'v) dict \<Rightarrow> ('k, 'v) dict option" where
  "rehash_if_needed ty d = (if dict_is_rehashing d then dict_rehash_step ty d else Some d)"

section \<open>Lookup and insertion\<close>

definition dict_can_resize :: nat where "dict_can_resize = 1"
definition dict_force_resize_ratio :: nat where "dict_force_resize_ratio = 5"

definition dict_expand_allowed :: "('k, 'v) dict_func \<Rightarrow> ('k, 'v) dict \<Rightarrow> bool" where
  "dict_expand_allowed ty d =
     (case expandAllowed ty of
        None \<Rightarrow> True
      | Some f \<Rightarrow> f (DICTHT_SIZE (int (dict_next_exp (ht_used d 0 + 1))) * 8) (ht_used d 0)
          (DICTHT_SIZE (ht_size_exp d 0)))"

definition dict_expand_if_needed :: "('k, 'v) dict_func \<Rightarrow> ('k, 'v) dict \<Rightarrow> ('k, 'v) dict \<times> int" where
  "dict_expand_if_needed ty d =
     (if dict_is_rehashing d then (d, DICT_OK)
      else if DICTHT_SIZE (ht_size_exp d 0) = 0 then dict_expand d DICT_HT_INITIAL_SIZE
      else if ht_used d 0 \<ge> DICTHT_SIZE (ht_size_exp d 0)
        \<and> (dict_can_resize \<noteq> 0
           \<or> ht_used d 0 div DICTHT_SIZE (ht_size_exp d 0) > dict_force_resize_ratio)
        \<and> dict_expand_allowed ty d
      then dict_expand d (ht_used d 0 + 1)
      else (d, DICT_OK))"

text \<open>The position of the entry with the key in a chain.\<close>

fun chain_find :: "('k, 'v) dict_func \<Rightarrow> 'k \<Rightarrow> ('k, 'v) chain \<Rightarrow> nat option" where
  "chain_find ty key [] = None"
| "chain_find ty key (he # rest) =
     (if same_key ty key he then Some 0 else map_option Suc (chain_find ty key rest))"

text \<open>An entry is named by its table, bucket and position. The loop over the tables stops after
  the first one unless a rehashing is under way; \<open>idx\<close> is the bucket it visited last.\<close>

type_synonym loc = "nat \<times> nat \<times> nat"

definition search_table :: "('k, 'v) dict_func \<Rightarrow> ('k, 'v) dict \<Rightarrow> 'k \<Rightarrow> u64 \<Rightarrow> nat \<Rightarrow> (nat \<times> nat option) option" where
  "search_table ty d key h t =
     (let idx = bucket_index d t h in
      do { c \<leftarrow> get_at (ht_table d t) idx; Some (idx, chain_find ty key c) })"

definition search_tables :: "('k, 'v) dict_func \<Rightarrow> ('k, 'v) dict \<Rightarrow> 'k \<Rightarrow> u64 \<Rightarrow> (nat \<times> loc option) option" where
  "search_tables ty d key h =
     do {
       (idx, p) \<leftarrow> search_table ty d key h 0;
       case p of
         Some i \<Rightarrow> Some (idx, Some (0, idx, i))
       | None \<Rightarrow>
           if \<not> dict_is_rehashing d then Some (idx, None)
           else do {
             (idx, p) \<leftarrow> search_table ty d key h 1;
             Some (idx, map_option (\<lambda>i. (1, idx, i)) p)
           }
     }"

text \<open>\<open>Inl\<close>: the key exists (its entry) or the table could not be expanded (\<open>None\<close>), the result -1;
  \<open>Inr\<close>: the index.\<close>

definition dict_key_index ::
  "('k, 'v) dict_func \<Rightarrow> ('k, 'v) dict \<Rightarrow> 'k \<Rightarrow> u64 \<Rightarrow> (('k, 'v) dict \<times> (loc option + nat)) option" where
  "dict_key_index ty d key hash =
     (case dict_expand_if_needed ty d of
        (d, r) \<Rightarrow>
          if r = DICT_ERR then Some (d, Inl None)
          else do {
            (idx, p) \<leftarrow> search_tables ty d key hash;
            case p of Some l \<Rightarrow> Some (d, Inl (Some l)) | None \<Rightarrow> Some (d, Inr idx)
          })"

definition dict_add_raw ::
  "('k, 'v) dict_func \<Rightarrow> 'v \<Rightarrow> ('k, 'v) dict \<Rightarrow> 'k \<Rightarrow> (('k, 'v) dict \<times> (loc option + loc)) option" where
  "dict_add_raw ty junk d key =
     do {
       d \<leftarrow> rehash_if_needed ty d;
       (d, r) \<leftarrow> dict_key_index ty d key (dict_hash_key ty key);
       case r of
         Inl e \<Rightarrow> Some (d, Inl e)
       | Inr idx \<Rightarrow>
           let htidx = (if dict_is_rehashing d then 1 else 0) in
           do {
             c \<leftarrow> get_at (ht_table d htidx) idx;
             d \<leftarrow> set_bucket d htidx idx ((dup_key ty key, junk) # c);
             Some (d\<lparr>ht_used := (ht_used d)(htidx := ht_used d htidx + 1)\<rparr>, Inr (htidx, idx, 0))
           }
     }"

definition dict_set_val ::
  "('k, 'v) dict_func \<Rightarrow> ('k, 'v) dict \<Rightarrow> loc \<Rightarrow> 'v \<Rightarrow> ('k, 'v) dict option" where
  "dict_set_val ty d l val =
     (case l of (t, idx, i) \<Rightarrow>
        do {
          c \<leftarrow> get_at (ht_table d t) idx;
          e \<leftarrow> get_at c i;
          c \<leftarrow> put_at c i (fst e, dup_val ty val);
          set_bucket d t idx c
        })"

definition dict_entry_at :: "('k, 'v) dict \<Rightarrow> loc \<Rightarrow> ('k, 'v) entry option" where
  "dict_entry_at d l = (case l of (t, idx, i) \<Rightarrow> do { c \<leftarrow> get_at (ht_table d t) idx; get_at c i })"

definition dict_add_or_find ::
  "('k, 'v) dict_func \<Rightarrow> 'v \<Rightarrow> ('k, 'v) dict \<Rightarrow> 'k \<Rightarrow> (('k, 'v) dict \<times> loc option) option" where
  "dict_add_or_find ty junk d key =
     do {
       (d, r) \<leftarrow> dict_add_raw ty junk d key;
       Some (d, case r of Inl e \<Rightarrow> e | Inr l \<Rightarrow> Some l)
     }"

definition dict_find ::
  "('k, 'v) dict_func \<Rightarrow> ('k, 'v) dict \<Rightarrow> 'k \<Rightarrow> (('k, 'v) dict \<times> loc option) option" where
  "dict_find ty d key =
     (if dict_size d = 0 then Some (d, None)
      else do {
        d \<leftarrow> rehash_if_needed ty d;
        (idx, p) \<leftarrow> search_tables ty d key (dict_hash_key ty key);
        Some (d, p)
      })"

definition dict_add_get ::
  "('k, 'v) dict_func \<Rightarrow> 'v \<Rightarrow> ('k, 'v) dict \<Rightarrow> 'k \<Rightarrow> 'v \<Rightarrow> (('k, 'v) dict \<times> loc option) option" where
  "dict_add_get ty junk d key val =
     do {
       (d, r) \<leftarrow> dict_add_raw ty junk d key;
       case r of
         Inl _ \<Rightarrow> Some (d, None)
       | Inr l \<Rightarrow> do { d \<leftarrow> dict_set_val ty d l val; Some (d, Some l) }
     }"

definition dict_add ::
  "('k, 'v) dict_func \<Rightarrow> 'v \<Rightarrow> ('k, 'v) dict \<Rightarrow> 'k \<Rightarrow> 'v \<Rightarrow> (('k, 'v) dict \<times> int) option" where
  "dict_add ty junk d key val =
     do {
       (d, e) \<leftarrow> dict_add_get ty junk d key val;
       Some (d, if e = None then DICT_ERR else DICT_OK)
     }"

definition dict_fetch_value ::
  "('k, 'v) dict_func \<Rightarrow> ('k, 'v) dict \<Rightarrow> 'k \<Rightarrow> (('k, 'v) dict \<times> 'v option) option" where
  "dict_fetch_value ty d key =
     do {
       (d, p) \<leftarrow> dict_find ty d key;
       case p of
         None \<Rightarrow> Some (d, None)
       | Some l \<Rightarrow> do { e \<leftarrow> dict_entry_at d l; Some (d, Some (snd e)) }
     }"

section \<open>Removal and resizing\<close>

definition delete_in ::
  "('k, 'v) dict \<Rightarrow> loc \<Rightarrow> ('k, 'v) dict option" where
  "delete_in d l =
     (case l of (t, idx, i) \<Rightarrow>
        do {
          c \<leftarrow> get_at (ht_table d t) idx;
          d \<leftarrow> set_bucket d t idx (take i c @ drop (Suc i) c);
          Some (d\<lparr>ht_used := (ht_used d)(t := ht_used d t - 1)\<rparr>)
        })"

text \<open>The result is the entry that was unlinked.\<close>

definition dict_generic_delete ::
  "('k, 'v) dict_func \<Rightarrow> ('k, 'v) dict \<Rightarrow> 'k \<Rightarrow> (('k, 'v) dict \<times> ('k, 'v) entry option) option" where
  "dict_generic_delete ty d key =
     (if dict_size d = 0 then Some (d, None)
      else do {
        d \<leftarrow> rehash_if_needed ty d;
        (idx, p) \<leftarrow> search_tables ty d key (dict_hash_key ty key);
        case p of
          None \<Rightarrow> Some (d, None)
        | Some l \<Rightarrow> do { e \<leftarrow> dict_entry_at d l; d \<leftarrow> delete_in d l; Some (d, Some e) }
      })"

definition dict_delete_key ::
  "('k, 'v) dict_func \<Rightarrow> ('k, 'v) dict \<Rightarrow> 'k \<Rightarrow> (('k, 'v) dict \<times> int) option" where
  "dict_delete_key ty d key =
     do {
       (d, e) \<leftarrow> dict_generic_delete ty d key;
       Some (d, if e = None then DICT_ERR else DICT_OK)
     }"

definition ht_needs_resize :: "('k, 'v) dict \<Rightarrow> bool" where
  "ht_needs_resize d \<longleftrightarrow>
     dict_slots d > DICT_HT_INITIAL_SIZE \<and> dict_size d * 100 div dict_slots d < 10"

text \<open>\<open>DICT_RESIZE_ENABLE\<close> is the first constant of its enumeration.\<close>

definition DICT_RESIZE_ENABLE :: nat where "DICT_RESIZE_ENABLE = 0"

definition dict_resize :: "('k, 'v) dict \<Rightarrow> ('k, 'v) dict \<times> int" where
  "dict_resize d =
     (if dict_can_resize \<noteq> DICT_RESIZE_ENABLE \<or> dict_is_rehashing d then (d, DICT_ERR)
      else dict_expand d (if ht_used d 0 < DICT_HT_INITIAL_SIZE then DICT_HT_INITIAL_SIZE else ht_used d 0))"

section \<open>The iterator\<close>

text \<open>\<open>entry\<close> is the chain that starts with the current entry (empty for NULL), \<open>nextEntry\<close> the chain
  behind it.\<close>

record ('k, 'v) dict_iterator =
  di_dict :: "('k, 'v) dict"
  di_index :: int
  di_table :: nat
  di_entry :: "('k, 'v) chain"
  di_nextEntry :: "('k, 'v) chain"
  di_readed :: bool

partial_function (option) dict_iterator_has_next_loop ::
  "('k, 'v) dict_iterator \<Rightarrow> (('k, 'v) dict_iterator \<times> bool) option"
where
  [code]: "dict_iterator_has_next_loop it =
     (let d = di_dict it in
      if di_entry it = []
      then
        let index = di_index it + 1;
            over = (index \<ge> int (DICTHT_SIZE (ht_size_exp d (di_table it))))
        in if over \<and> \<not> (dict_is_rehashing d \<and> di_table it = 0)
           then Some (it\<lparr>di_index := - 2\<rparr>, False)
           else
             let table = (if over then 1 else di_table it);
                 index = (if over then 0 else index)
             in Option.bind (if index < 0 then None else get_at (ht_table d table) (nat index)) (\<lambda>c.
                  if c \<noteq> []
                  then Some (it\<lparr>di_index := index, di_table := table, di_entry := c,
                       di_nextEntry := tl c, di_readed := False\<rparr>, True)
                  else dict_iterator_has_next_loop
                       (it\<lparr>di_index := index, di_table := table, di_entry := c\<rparr>))
      else
        if di_nextEntry it \<noteq> []
        then Some (it\<lparr>di_entry := di_nextEntry it, di_nextEntry := tl (di_nextEntry it),
                     di_readed := False\<rparr>, True)
        else dict_iterator_has_next_loop (it\<lparr>di_entry := []\<rparr>))"

definition protected_dict_iterator_has_next ::
  "('k, 'v) dict_iterator \<Rightarrow> (('k, 'v) dict_iterator \<times> bool) option" where
  "protected_dict_iterator_has_next it =
     (if di_index it = - 2 then Some (it, False) else dict_iterator_has_next_loop it)"

text \<open>The result \<open>None\<close> inside is NULL; reading the fields of a NULL entry is undefined.\<close>

definition protected_dict_iterator_next ::
  "('k, 'v) dict_iterator \<Rightarrow> (('k, 'v) dict_iterator \<times> ('k, 'v) entry option) option" where
  "protected_dict_iterator_next it =
     (if di_index it = - 2 then Some (it, None)
      else do {
        (it, more) \<leftarrow> (if di_readed it then protected_dict_iterator_has_next it else Some (it, True));
        if \<not> more then Some (it, None)
        else do {
          e \<leftarrow> get_at (di_entry it) 0;
          Some (it\<lparr>di_readed := True\<rparr>, Some e)
        }
      })"

definition dict_iterator_func ::
  "(('k, 'v) dict_iterator, ('k, 'v) entry option) latte_iterator_func" where
  "dict_iterator_func =
     \<lparr>it_has_next = protected_dict_iterator_has_next, it_next = protected_dict_iterator_next\<rparr>"

definition dict_iterator_init :: "('k, 'v) dict \<Rightarrow> ('k, 'v) dict_iterator" where
  "dict_iterator_init d =
     \<lparr>di_dict = d, di_index = - 1, di_table = 0, di_entry = [], di_nextEntry = [], di_readed = False\<rparr>"

definition dict_get_latte_iterator ::
  "('k, 'v) dict \<Rightarrow> (('k, 'v) dict_iterator, ('k, 'v) entry option) latte_iterator" where
  "dict_get_latte_iterator d = latte_iterator_new dict_iterator_func (dict_iterator_init d)"

text \<open>\<open>private_dict_cmp\<close>: the difference of the sizes is converted to \<open>int\<close>. The second dictionary may
  rehash while it is searched.\<close>

partial_function (option) dict_cmp_loop ::
  "('k, 'v) dict_func \<Rightarrow> ('v \<Rightarrow> 'v \<Rightarrow> int) \<Rightarrow> (('k, 'v) dict_iterator, ('k, 'v) entry option) latte_iterator \<Rightarrow>
   ('k, 'v) dict \<Rightarrow> (('k, 'v) dict \<times> int) option"
where
  [code]: "dict_cmp_loop ty cmp it b =
     Option.bind (latte_iterator_has_next it) (\<lambda>r.
       if \<not> snd r then Some (b, 0)
       else Option.bind (latte_iterator_next (fst r)) (\<lambda>q.
         Option.bind (snd q) (\<lambda>pair.
           Option.bind (dict_find ty b (fst pair)) (\<lambda>f.
             case snd f of
               None \<Rightarrow> Some (fst f, - 1)
             | Some entry \<Rightarrow>
                 Option.bind (dict_entry_at (fst f) entry) (\<lambda>e.
                   let result = cmp (snd pair) (snd e)
                   in if result \<noteq> 0 then Some (fst f, result)
                      else dict_cmp_loop ty cmp (fst q) (fst f))))))"

definition private_dict_cmp ::
  "('k, 'v) dict_func \<Rightarrow> ('k, 'v) dict \<Rightarrow> ('k, 'v) dict \<Rightarrow> ('v \<Rightarrow> 'v \<Rightarrow> int) \<Rightarrow> (('k, 'v) dict \<times> int) option" where
  "private_dict_cmp ty a b cmp =
     (if dict_size a \<noteq> dict_size b
      then Some (b, signed_take_bit 31 (int (dict_size a) - int (dict_size b)))
      else dict_cmp_loop ty cmp (dict_get_latte_iterator a) b)"

section \<open>The invariant\<close>

declare One_nat_def [simp del]

definition tab_ok :: "('k, 'v) dict_func \<Rightarrow> int \<Rightarrow> ('k, 'v) chain list \<Rightarrow> bool" where
  "tab_ok ty exp tab \<longleftrightarrow>
     (if exp = - 1 then tab = []
      else 2 \<le> exp \<and> exp \<le> 60 \<and> length tab = 2 ^ nat exp
        \<and> (\<forall>i < length tab. \<forall>e \<in> set (tab ! i).
             unat (hashFunction ty (fst e) AND DICTHT_SIZE_MASK exp) = i))"

definition dict_list :: "('k, 'v) dict \<Rightarrow> ('k, 'v) entry list" where
  "dict_list d = concat (ht_table d 0) @ concat (ht_table d 1)"

definition dict_map :: "('k, 'v) dict \<Rightarrow> 'k \<Rightarrow> 'v option" where
  "dict_map d = map_of (dict_list d)"

definition dict_ok :: "('k, 'v) dict_func \<Rightarrow> ('k, 'v) dict \<Rightarrow> bool" where
  "dict_ok ty d \<longleftrightarrow>
     tab_ok ty (ht_size_exp d 0) (ht_table d 0) \<and> tab_ok ty (ht_size_exp d 1) (ht_table d 1)
     \<and> ht_used d 0 = length (concat (ht_table d 0)) \<and> ht_used d 1 = length (concat (ht_table d 1))
     \<and> distinct (map fst (dict_list d))
     \<and> (if rehashidx d = - 1 then ht_size_exp d 1 = - 1
        else 0 \<le> rehashidx d \<and> ht_size_exp d 0 \<noteq> - 1 \<and> ht_size_exp d 1 \<noteq> - 1
          \<and> (\<forall>i < length (ht_table d 0). int i < rehashidx d \<longrightarrow> ht_table d 0 ! i = []))"

subsection \<open>Buckets\<close>

lemma mask_index: "2 \<le> exp \<Longrightarrow> exp \<le> 60 \<Longrightarrow> unat (h AND DICTHT_SIZE_MASK exp) < 2 ^ nat exp"
proof -
  assume e: "2 \<le> exp" "exp \<le> 60"
  have "DICTHT_SIZE_MASK exp = mask (nat exp)"
    using e by (simp add: DICTHT_SIZE_MASK_def DICTHT_SIZE_def mask_eq_exp_minus_1)
  then have "unat (h AND DICTHT_SIZE_MASK exp) = take_bit (nat exp) (unat h)"
    by (simp add: unsigned_take_bit_eq flip: take_bit_eq_mask)
  then show ?thesis by simp
qed

lemma tab_size: "tab_ok ty exp tab \<Longrightarrow> DICTHT_SIZE exp = length tab"
  by (auto simp: tab_ok_def DICTHT_SIZE_def)

lemma tab_ok_index:
  "tab_ok ty exp tab \<Longrightarrow> exp \<noteq> - 1 \<Longrightarrow> unat (h AND DICTHT_SIZE_MASK exp) < length tab"
  using mask_index [of exp h] by (simp add: tab_ok_def)

lemma tab_ok_placed:
  "tab_ok ty exp tab \<Longrightarrow> exp \<noteq> - 1 \<Longrightarrow> e \<in> set (concat tab) \<Longrightarrow>
   e \<in> set (tab ! unat (hashFunction ty (fst e) AND DICTHT_SIZE_MASK exp))"
proof -
  assume ok: "tab_ok ty exp tab" "exp \<noteq> - 1" and "e \<in> set (concat tab)"
  then obtain b where "b \<in> set tab" "e \<in> set b" by auto
  then obtain i where "i < length tab" "e \<in> set (tab ! i)" by (metis in_set_conv_nth)
  with ok show ?thesis by (simp add: tab_ok_def)
qed

lemma tab_ok_update:
  "tab_ok ty exp tab \<Longrightarrow> exp \<noteq> - 1 \<Longrightarrow> \<forall>e \<in> set c. unat (hashFunction ty (fst e) AND DICTHT_SIZE_MASK exp) = i \<Longrightarrow>
   tab_ok ty exp (tab[i := c])"
  by (cases "i < length tab") (auto simp: tab_ok_def nth_list_update split: if_splits)

lemma tab_ok_same_bucket:
  "tab_ok ty exp tab \<Longrightarrow> exp \<noteq> - 1 \<Longrightarrow> i < length tab \<Longrightarrow> e \<in> set (tab ! i) \<Longrightarrow>
   unat (hashFunction ty (fst e) AND DICTHT_SIZE_MASK exp) = i"
  by (auto simp: tab_ok_def)

lemma mset_concat_update:
  "i < length tab \<Longrightarrow> mset (concat (tab[i := c])) + mset (tab ! i) = mset (concat tab) + mset c"
proof (induction tab arbitrary: i)
  case (Cons b tab)
  then show ?case by (cases i) (auto simp: ac_simps)
qed simp

lemma length_concat_update:
  "i < length tab \<Longrightarrow> length (concat (tab[i := c])) + length (tab ! i) = length (concat tab) + length c"
  using arg_cong [OF mset_concat_update, of i tab size c] by (simp add: size_mset [symmetric] del: size_mset)

lemma concat_replicate_Nil [simp]: "concat (replicate n []) = []"
  by (induction n) auto

text \<open>The map of a dictionary depends only on which entries it holds.\<close>

lemma map_of_mset:
  assumes "mset xs = mset ys" "distinct (map fst ys)"
  shows "map_of xs = map_of ys" "distinct (map fst xs)"
proof -
  have "mset (map fst xs) = mset (map fst ys)" using assms(1) by simp
  then show dist: "distinct (map fst xs)" using assms(2) mset_eq_imp_distinct_iff by blast
  have "set xs = set ys" using assms(1) by (rule mset_eq_setD)
  with dist assms(2) show "map_of xs = map_of ys" using map_of_inject_set by blast
qed

lemma dict_map_mset:
  assumes "mset (dict_list d') = mset (dict_list d)" "distinct (map fst (dict_list d))"
  shows "dict_map d' = dict_map d" "distinct (map fst (dict_list d'))"
  using map_of_mset [OF assms] by (simp_all add: dict_map_def)

lemma dict_map_None: "dict_map d k = None \<longleftrightarrow> k \<notin> fst ` set (dict_list d)"
  by (simp add: dict_map_def map_of_eq_None_iff)

subsection \<open>Rehashing keeps the entries\<close>

lemma move_entries_ok:
  assumes "tab_ok ty (ht_size_exp d 1) (ht_table d 1)" "ht_size_exp d 1 \<noteq> - 1"
  shows "\<exists>d'. move_entries ty d c = Some d' \<and> ht_table d' 0 = ht_table d 0
    \<and> ht_used d' 0 = ht_used d 0 - length c \<and> ht_used d' 1 = ht_used d 1 + length c
    \<and> rehashidx d' = rehashidx d \<and> ht_size_exp d' = ht_size_exp d
    \<and> tab_ok ty (ht_size_exp d 1) (ht_table d' 1)
    \<and> mset (concat (ht_table d' 1)) = mset (concat (ht_table d 1)) + mset c"
  using assms
proof (induction c arbitrary: d)
  case Nil
  then show ?case by simp
next
  case (Cons de c)
  let ?h = "bucket_index d 1 (dict_hash_key ty (fst de))"
  let ?b = "ht_table d 1 ! ?h"
  define tab1 where "tab1 = (ht_table d 1)[?h := de # ?b]"
  have h: "?h < length (ht_table d 1)"
    unfolding bucket_index_def by (rule tab_ok_index [OF Cons.prems])
  have ok1: "tab_ok ty (ht_size_exp d 1) tab1"
    unfolding tab1_def using Cons.prems h tab_ok_same_bucket [OF Cons.prems h]
    by (intro tab_ok_update) (auto simp: bucket_index_def dict_hash_key_def)
  define d1 where "d1 = d\<lparr>ht_table := (ht_table d)(1 := tab1),
    ht_used := (ht_used d)(0 := ht_used d 0 - 1, 1 := ht_used d 1 + 1)\<rparr>"
  have step: "move_entries ty d (de # c) = move_entries ty d1 c"
    using h by (simp add: Let_def get_at_def set_bucket_def put_at_def d1_def tab1_def)
  have d1: "ht_table d1 0 = ht_table d 0" "ht_table d1 1 = tab1" "ht_used d1 0 = ht_used d 0 - 1"
    "ht_used d1 1 = ht_used d 1 + 1" "rehashidx d1 = rehashidx d" "ht_size_exp d1 = ht_size_exp d"
    by (simp_all add: d1_def)
  have "mset (concat tab1) = mset (concat (ht_table d 1)) + {#de#}"
    using mset_concat_update [OF h, of "de # ?b"] by (simp add: tab1_def)
  moreover obtain d' where "move_entries ty d1 c = Some d'" "ht_table d' 0 = ht_table d1 0"
    "ht_used d' 0 = ht_used d1 0 - length c" "ht_used d' 1 = ht_used d1 1 + length c"
    "rehashidx d' = rehashidx d1" "ht_size_exp d' = ht_size_exp d1"
    "tab_ok ty (ht_size_exp d1 1) (ht_table d' 1)"
    "mset (concat (ht_table d' 1)) = mset (concat (ht_table d1 1)) + mset c"
    using Cons.IH [of d1] ok1 Cons.prems unfolding d1 by blast
  ultimately show ?case unfolding step d1
    by (intro exI [of _ d']) (simp add: ac_simps)
qed

lemma skip_empty_ok:
  assumes "\<exists>j. i \<le> j \<and> j < length tab \<and> tab ! j \<noteq> []"
  shows "\<exists>i' v stop. skip_empty tab i visits = Some (i', v, stop) \<and> i \<le> i' \<and> i' \<le> length tab
    \<and> (\<forall>j. i \<le> j \<and> j < i' \<longrightarrow> tab ! j = []) \<and> (\<not> stop \<longrightarrow> i' < length tab \<and> tab ! i' \<noteq> [])"
  using assms
proof (induction "length tab - i" arbitrary: i visits rule: less_induct)
  case less
  then obtain j where j: "i \<le> j" "j < length tab" "tab ! j \<noteq> []" by blast
  show ?case
  proof (cases "tab ! i = [] \<and> visits - 1 \<noteq> 0")
    case True
    then have "Suc i \<le> j" using j by (metis Suc_leI le_neq_implies_less)
    then have "\<exists>j. Suc i \<le> j \<and> j < length tab \<and> tab ! j \<noteq> []" using j by blast
    moreover have "length tab - Suc i < length tab - i" using j by linarith
    ultimately obtain i' v stop where
      "skip_empty tab (Suc i) (visits - 1) = Some (i', v, stop)" "Suc i \<le> i'" "i' \<le> length tab"
      "\<forall>j. Suc i \<le> j \<and> j < i' \<longrightarrow> tab ! j = []" "\<not> stop \<longrightarrow> i' < length tab \<and> tab ! i' \<noteq> []"
      using less.hyps [of "Suc i" "visits - 1"] by blast
    moreover from this(4) True have "\<forall>j. i \<le> j \<and> j < i' \<longrightarrow> tab ! j = []"
      by (metis Suc_leI le_neq_implies_less)
    moreover have "skip_empty tab i visits = skip_empty tab (Suc i) (visits - 1)"
      using True j by (subst skip_empty.simps) simp
    ultimately show ?thesis by (metis Suc_leD)
  next
    case False
    have "i < length tab" using j by simp
    show ?thesis
    proof (cases "tab ! i = []")
      case True
      with False \<open>i < length tab\<close> have "skip_empty tab i visits = Some (Suc i, 0, True)"
        by (subst skip_empty.simps) simp
      moreover have "\<forall>j. i \<le> j \<and> j < Suc i \<longrightarrow> tab ! j = []"
        using True by (metis le_antisym less_Suc_eq_le)
      ultimately show ?thesis using \<open>i < length tab\<close> by auto
    next
      case ne: False
      then have "skip_empty tab i visits = Some (i, visits, False)"
        using \<open>i < length tab\<close> by (subst skip_empty.simps) simp
      with ne \<open>i < length tab\<close> show ?thesis by auto
    qed
  qed
qed

lemma dict_okD:
  assumes "dict_ok ty d"
  shows "tab_ok ty (ht_size_exp d 0) (ht_table d 0)" "tab_ok ty (ht_size_exp d 1) (ht_table d 1)"
    "ht_used d 0 = length (concat (ht_table d 0))" "ht_used d 1 = length (concat (ht_table d 1))"
    "distinct (map fst (dict_list d))"
    "rehashidx d = - 1 \<Longrightarrow> ht_size_exp d 1 = - 1"
    "rehashidx d \<noteq> - 1 \<Longrightarrow> 0 \<le> rehashidx d \<and> ht_size_exp d 0 \<noteq> - 1 \<and> ht_size_exp d 1 \<noteq> - 1
       \<and> (\<forall>i < length (ht_table d 0). int i < rehashidx d \<longrightarrow> ht_table d 0 ! i = [])"
  using assms by (auto simp: dict_ok_def)

lemma nonempty_bucket:
  assumes "concat tab \<noteq> []" "\<forall>i < length tab. int i < r \<longrightarrow> tab ! i = []" "0 \<le> r"
  shows "\<exists>j. nat r \<le> j \<and> j < length tab \<and> tab ! j \<noteq> []"
proof -
  from assms(1) obtain b where "b \<in> set tab" "b \<noteq> []" by (auto simp: concat_eq_Nil_conv)
  then obtain j where j: "j < length tab" "tab ! j \<noteq> []" by (metis in_set_conv_nth)
  with assms(2) have "\<not> int j < r" by blast
  with j show ?thesis using assms(3) by (intro exI [of _ j]) simp
qed

text \<open>One round of the loop moves a bucket.\<close>

lemma rehash_bucket_ok:
  assumes ok: "dict_ok ty d" and re: "rehashidx d \<noteq> - 1"
    and i: "i < length (ht_table d 0)" "rehashidx d \<le> int i"
      "\<forall>j. nat (rehashidx d) \<le> j \<and> j < i \<longrightarrow> ht_table d 0 ! j = []"
  shows "\<exists>d1 d2. move_entries ty d (ht_table d 0 ! i) = Some d1 \<and> set_bucket d1 0 i [] = Some d2
    \<and> dict_ok ty (d2\<lparr>rehashidx := int i + 1\<rparr>) \<and> mset (dict_list d2) = mset (dict_list d)"
proof -
  note k = dict_okD [OF ok]
  let ?c = "ht_table d 0 ! i"
  from move_entries_ok [OF k(2), of ?c] k(7) [OF re] obtain d1 where
    d1: "move_entries ty d ?c = Some d1" "ht_table d1 0 = ht_table d 0"
    "ht_used d1 0 = ht_used d 0 - length ?c" "ht_used d1 1 = ht_used d 1 + length ?c"
    "rehashidx d1 = rehashidx d" "ht_size_exp d1 = ht_size_exp d"
    "tab_ok ty (ht_size_exp d 1) (ht_table d1 1)"
    "mset (concat (ht_table d1 1)) = mset (concat (ht_table d 1)) + mset ?c" by auto
  define d2 where "d2 = d1\<lparr>ht_table := (ht_table d1)(0 := (ht_table d 0)[i := []])\<rparr>"
  have sb: "set_bucket d1 0 i [] = Some d2" using i(1) d1(2) by (simp add: set_bucket_def put_at_def d2_def)
  have m0: "mset (concat ((ht_table d 0)[i := []])) + mset ?c = mset (concat (ht_table d 0))"
    using mset_concat_update [OF i(1), of "[]"] by simp
  have mm: "mset (dict_list d2) = mset (dict_list d)"
    using m0 d1(8) by (simp add: dict_list_def d2_def ac_simps)
  have u0: "ht_used d2 0 = length (concat ((ht_table d 0)[i := []]))"
    using length_concat_update [OF i(1), of "[]"] d1(3) k(3) by (simp add: d2_def)
  have u1: "ht_used d2 1 = length (concat (ht_table d1 1))"
    using arg_cong [OF d1(8), of size] d1(4) k(4) by (simp add: d2_def)
  have t0: "tab_ok ty (ht_size_exp d 0) ((ht_table d 0)[i := []])"
    using k(1) k(7) [OF re] by (intro tab_ok_update) auto
  have emp: "(ht_table d 0)[i := []] ! j = []" if "j < length (ht_table d 0)" "int j < int i + 1" for j
  proof (cases "j = i")
    case False
    with that have "j < i" by simp
    then show ?thesis using k(7) [OF re] i that by (cases "int j < rehashidx d") (auto simp: nat_le_iff)
  qed (use i in simp)
  have dist: "distinct (map fst (dict_list d2))" using dict_map_mset(2) [OF mm k(5)] .
  have "dict_ok ty (d2\<lparr>rehashidx := int i + 1\<rparr>)"
    unfolding dict_ok_def using t0 d1 u0 u1 dist k(7) [OF re] emp
    by (simp add: d2_def dict_list_def)
  then show ?thesis using d1(1) sb mm by blast
qed

lemma rehash_loop_ok:
  assumes "dict_ok ty d" "rehashidx d \<noteq> - 1"
  shows "\<exists>d' stop. rehash_loop ty d n visits = Some (d', stop) \<and> dict_ok ty d' \<and> rehashidx d' \<noteq> - 1
    \<and> mset (dict_list d') = mset (dict_list d)"
  using assms
proof (induction n arbitrary: d visits)
  case 0
  then show ?case by auto
next
  case (Suc n)
  note k = dict_okD [OF Suc.prems(1)] and k7 = dict_okD(7) [OF Suc.prems]
  show ?case
  proof (cases "ht_used d 0 = 0")
    case True
    then show ?thesis using Suc.prems by auto
  next
    case False
    then have "concat (ht_table d 0) \<noteq> []" using k(3) by auto
    from nonempty_bucket [OF this] k7 have ne: "\<exists>j. nat (rehashidx d) \<le> j \<and> j < length (ht_table d 0) \<and> ht_table d 0 ! j \<noteq> []"
      by auto
    then have sz: "rehashidx d < int (DICTHT_SIZE (ht_size_exp d 0))"
      using tab_size [OF k(1)] by auto
    from skip_empty_ok [OF ne, of visits] obtain i v stop where
      sk: "skip_empty (ht_table d 0) (nat (rehashidx d)) visits = Some (i, v, stop)"
      "nat (rehashidx d) \<le> i" "i \<le> length (ht_table d 0)"
      "\<forall>j. nat (rehashidx d) \<le> j \<and> j < i \<longrightarrow> ht_table d 0 ! j = []"
      "\<not> stop \<longrightarrow> i < length (ht_table d 0) \<and> ht_table d 0 ! i \<noteq> []" by auto
    show ?thesis
    proof (cases stop)
      case True
      have "rehash_loop ty d (Suc n) visits = Some (d\<lparr>rehashidx := int i\<rparr>, True)"
        using False sz k7 sk True by simp
      moreover have "\<forall>j < length (ht_table d 0). int j < int i \<longrightarrow> ht_table d 0 ! j = []"
        using sk(4) k7 by (metis nat_le_iff of_nat_less_iff linorder_not_less)
      then have "dict_ok ty (d\<lparr>rehashidx := int i\<rparr>)"
        using Suc.prems k7 unfolding dict_ok_def by (simp add: dict_list_def)
      moreover have "int i \<noteq> - 1" "dict_list (d\<lparr>rehashidx := int i\<rparr>) = dict_list d"
        by (simp_all add: dict_list_def)
      ultimately show ?thesis by (metis dict.select_convs(3) dict.surjective dict.update_convs(3))
    next
      case nstop: False
      with sk have i: "i < length (ht_table d 0)" "rehashidx d \<le> int i" using k7 by auto
      from rehash_bucket_ok [OF Suc.prems i sk(4)] obtain d1 d2 where
        d: "move_entries ty d (ht_table d 0 ! i) = Some d1" "set_bucket d1 0 i [] = Some d2"
        "dict_ok ty (d2\<lparr>rehashidx := int i + 1\<rparr>)" "mset (dict_list d2) = mset (dict_list d)" by blast
      have "rehash_loop ty d (Suc n) visits = rehash_loop ty (d2\<lparr>rehashidx := int i + 1\<rparr>) n v"
        using False sz k7 sk nstop i d by (simp add: get_at_def)
      with Suc.IH [OF d(3), of v] d(4) show ?thesis by (simp add: dict_list_def)
    qed
  qed
qed

lemma dict_rehash_ok:
  assumes "dict_ok ty d" "n \<le> 214748364"
  shows "\<exists>d' r. dict_rehash ty d n = Some (d', r) \<and> dict_ok ty d' \<and> mset (dict_list d') = mset (dict_list d)"
proof (cases "dict_is_rehashing d")
  case False
  with assms show ?thesis by (simp add: dict_rehash_def checked32_def)
next
  case True
  have v: "checked32 (int n * 10) = Some (int n * 10)" using assms(2) by (intro checked32_Some) auto
  from True rehash_loop_ok [OF assms(1), of n "int n * 10"] obtain d1 stop where
    d1: "rehash_loop ty d n (int n * 10) = Some (d1, stop)" "dict_ok ty d1" "rehashidx d1 \<noteq> - 1"
    "mset (dict_list d1) = mset (dict_list d)" by (auto simp: dict_is_rehashing_def)
  note k = dict_okD [OF d1(2)]
  define d2 where "d2 = (dict_reset
      (d1\<lparr>ht_table := (ht_table d1)(0 := ht_table d1 1), ht_used := (ht_used d1)(0 := ht_used d1 1),
         ht_size_exp := (ht_size_exp d1)(0 := ht_size_exp d1 1)\<rparr>) 1)\<lparr>rehashidx := - 1\<rparr>"
  show ?thesis
  proof (cases "\<not> stop \<and> ht_used d1 0 = 0")
    case fin: True
    then have e: "concat (ht_table d1 0) = []" using k(3) by simp
    have "dict_rehash ty d n = Some (d2, 0)"
      using True fin d1(1) v by (simp add: dict_rehash_def d2_def)
    moreover have l: "dict_list d2 = dict_list d1"
      unfolding dict_list_def using e by (simp add: d2_def dict_reset_def)
    moreover have "dict_ok ty d2"
      unfolding dict_ok_def l using k by (simp add: d2_def dict_reset_def tab_ok_def)
    ultimately show ?thesis using d1(4) by simp
  next
    case False
    with True d1 v show ?thesis by (auto simp: dict_rehash_def)
  qed
qed

lemma rehash_if_needed_ok:
  assumes "dict_ok ty d"
  shows "\<exists>d'. rehash_if_needed ty d = Some d' \<and> dict_ok ty d' \<and> dict_map d' = dict_map d
    \<and> length (dict_list d') = length (dict_list d)"
proof -
  have "\<exists>d'. rehash_if_needed ty d = Some d' \<and> dict_ok ty d' \<and> mset (dict_list d') = mset (dict_list d)"
    using dict_rehash_ok [OF assms, of 1] assms
    by (auto simp: rehash_if_needed_def dict_rehash_step_def)
  then show ?thesis
    using dict_map_mset(1) dict_okD(5) [OF assms] mset_eq_length by blast
qed

subsection \<open>Expansion\<close>

lemma next_exp_loop_bounds:
  "e \<le> next_exp_loop e sz \<and> sz \<le> 2 ^ next_exp_loop e sz
   \<and> (next_exp_loop e sz = e \<or> 2 ^ (next_exp_loop e sz - 1) < sz)"
proof (induction e sz rule: next_exp_loop.induct)
  case (1 e sz)
  show ?case
  proof (cases "sz \<le> 2 ^ e")
    case True
    then show ?thesis by (subst next_exp_loop.simps) (simp add: next_exp_loop.simps)
  next
    case False
    then have eq: "next_exp_loop e sz = next_exp_loop (Suc e) sz"
      by (subst next_exp_loop.simps) simp
    from False 1 [OF False] show ?thesis unfolding eq by auto
  qed
qed

lemma next_exp_ok:
  assumes "sz \<le> 2 ^ 59"
  shows "2 \<le> dict_next_exp sz" "sz \<le> 2 ^ dict_next_exp sz" "dict_next_exp sz \<le> 60"
proof -
  let ?e = "next_exp_loop 2 sz"
  have lt: "sz < 2 ^ 63 - 1"
  proof -
    have "(2 :: nat) ^ 59 < 2 ^ 63 - 1" by simp
    with assms show ?thesis by linarith
  qed
  then have eq: "dict_next_exp sz = ?e" by (simp add: dict_next_exp_def)
  note b = next_exp_loop_bounds [of 2 sz]
  show "2 \<le> dict_next_exp sz" "sz \<le> 2 ^ dict_next_exp sz" unfolding eq using b by auto
  have "?e = 2 \<or> (2 :: nat) ^ (?e - 1) < 2 ^ 59" using b assms by linarith
  then have "?e = 2 \<or> ?e - 1 < 59" using power_less_imp_less_exp [of 2 "?e - 1" 59] by auto
  then show "dict_next_exp sz \<le> 60" unfolding eq by linarith
qed

lemma newsize_ok: "e \<le> 60 \<Longrightarrow> \<not> (2 :: nat) ^ e * 8 mod 2 ^ 64 < 2 ^ e"
proof -
  assume e: "e \<le> 60"
  have "(2 :: nat) ^ e * 8 = 2 ^ (e + 3)" by (simp add: power_add)
  also have "\<dots> < 2 ^ 64" using e by (intro power_strict_increasing) simp_all
  finally show ?thesis by simp
qed

lemma expand_if_needed_ok:
  assumes ok: "dict_ok ty d" and n: "length (dict_list d) < 2 ^ 58"
  shows "\<exists>d'. dict_expand_if_needed ty d = (d', DICT_OK) \<and> dict_ok ty d' \<and> dict_list d' = dict_list d
    \<and> ht_size_exp d' 0 \<noteq> - 1"
proof -
  note k = dict_okD [OF ok]
  have u: "ht_used d 0 < 2 ^ 58" using n k(3) by (simp add: dict_list_def)
  consider "dict_is_rehashing d" | "\<not> dict_is_rehashing d" "ht_size_exp d 0 = - 1"
    | "\<not> dict_is_rehashing d" "ht_size_exp d 0 \<noteq> - 1" by blast
  then show ?thesis
  proof cases
    case 1
    then show ?thesis using ok k(7) by (auto simp: dict_expand_if_needed_def dict_is_rehashing_def)
  next
    case 2
    then have t: "ht_table d 0 = []" "ht_table d 1 = []" "ht_size_exp d 1 = - 1"
      using k(1,2,6) by (auto simp: tab_ok_def dict_is_rehashing_def)
    have e: "dict_next_exp 4 = 2" by (simp add: dict_next_exp_def next_exp_loop.simps)
    let ?d = "d\<lparr>ht_size_exp := (ht_size_exp d)(0 := 2), ht_used := (ht_used d)(0 := 0),
       ht_table := (ht_table d)(0 := replicate 4 [])\<rparr>"
    have "dict_expand_if_needed ty d = (?d, DICT_OK)"
      using 2 t k(3) by (simp add: dict_expand_if_needed_def DICTHT_SIZE_def dict_expand_def e)
    moreover have "dict_ok ty ?d"
      using 2 t k by (simp add: dict_ok_def dict_list_def tab_ok_def dict_is_rehashing_def)
    ultimately show ?thesis using t by (simp add: dict_list_def)
  next
    case 3
    let ?n = "ht_used d 0 + 1"
    have s: "DICTHT_SIZE (ht_size_exp d 0) = 2 ^ nat (ht_size_exp d 0)" "2 \<le> ht_size_exp d 0"
      "ht_table d 0 \<noteq> []"
      using 3 k(1) by (auto simp: DICTHT_SIZE_def tab_ok_def)
    show ?thesis
    proof (cases "ht_used d 0 \<ge> DICTHT_SIZE (ht_size_exp d 0) \<and> (dict_can_resize \<noteq> 0
           \<or> ht_used d 0 div DICTHT_SIZE (ht_size_exp d 0) > dict_force_resize_ratio)
        \<and> dict_expand_allowed ty d")
      case False
      then have "dict_expand_if_needed ty d = (d, DICT_OK)"
        using 3 s by (auto simp: dict_expand_if_needed_def)
      then show ?thesis using ok 3 by simp
    next
      case True
      define e where "e = dict_next_exp ?n"
      have nb: "?n \<le> 2 ^ 59" using u by simp
      have e: "2 \<le> e" "?n \<le> 2 ^ e" "e \<le> 60" using next_exp_ok [OF nb] by (simp_all add: e_def)
      have ne: "int e \<noteq> ht_size_exp d 0"
      proof
        assume "int e = ht_size_exp d 0"
        then have "nat (ht_size_exp d 0) = e" by linarith
        with True s(1) e(2) show False by simp
      qed
      let ?d = "d\<lparr>ht_size_exp := (ht_size_exp d)(1 := int e), ht_used := (ht_used d)(1 := 0),
         ht_table := (ht_table d)(1 := replicate (2 ^ e) []), rehashidx := 0\<rparr>"
      have "dict_expand d ?n = (?d, DICT_OK)"
        using 3 s ne e newsize_ok [OF e(3)]
        by (simp add: dict_expand_def Let_def e_def [symmetric])
      moreover have "dict_expand_if_needed ty d = dict_expand d ?n"
        using 3 s True by (simp add: dict_expand_if_needed_def)
      moreover have l: "dict_list ?d = dict_list d"
        using k(2,6) 3 by (simp add: dict_list_def tab_ok_def dict_is_rehashing_def)
      moreover have "dict_ok ty ?d"
        unfolding dict_ok_def l using k 3 e by (simp add: tab_ok_def)
      ultimately show ?thesis using 3 by simp
    qed
  qed
qed

subsection \<open>One bucket is replaced\<close>

lemma map_of_add_mset:
  assumes "mset xs = add_mset (k, v) (mset ys)" "distinct (map fst xs)"
  shows "map_of xs = (map_of ys)(k \<mapsto> v)" "map_of ys = (map_of xs)(k := None)"
    "distinct (map fst ys)" "k \<notin> fst ` set ys"
proof -
  have m: "mset xs = mset ((k, v) # ys)" using assms(1) by simp
  note d = map_of_mset [OF m [symmetric] assms(2)]
  then show "distinct (map fst ys)" and n: "k \<notin> fst ` set ys" by auto
  show x: "map_of xs = (map_of ys)(k \<mapsto> v)" using d by simp
  have "map_of ys k = None" using n by (simp add: map_of_eq_None_iff)
  then show "map_of ys = (map_of xs)(k := None)" unfolding x by auto
qed

definition new_bucket :: "('k, 'v) dict \<Rightarrow> nat \<Rightarrow> nat \<Rightarrow> ('k, 'v) chain \<Rightarrow> ('k, 'v) dict" where
  "new_bucket d t i c =
     d\<lparr>ht_table := (ht_table d)(t := (ht_table d t)[i := c]),
       ht_used := (ht_used d)(t := ht_used d t + length c - length (ht_table d t ! i))\<rparr>"

lemma new_bucket_list:
  assumes "t = 0 \<or> t = 1" "i < length (ht_table d t)"
  shows "mset (dict_list (new_bucket d t i c)) + mset (ht_table d t ! i) = mset (dict_list d) + mset c"
  using assms mset_concat_update [OF assms(2), of c]
  by (auto simp: dict_list_def new_bucket_def ac_simps)

lemma new_bucket_ok:
  assumes ok: "dict_ok ty d" and t: "t = 0 \<or> t = 1" "ht_size_exp d t \<noteq> - 1" "i < length (ht_table d t)"
    and hash: "\<forall>e \<in> set c. bucket_index d t (hashFunction ty (fst e)) = i"
    and emp: "t = 0 \<and> rehashidx d \<noteq> - 1 \<and> ht_table d 0 ! i = [] \<longrightarrow> c = []"
    and dist: "distinct (map fst (dict_list (new_bucket d t i c)))"
  shows "dict_ok ty (new_bucket d t i c)"
proof -
  note k = dict_okD [OF ok]
  let ?d = "new_bucket d t i c"
  have tb: "tab_ok ty (ht_size_exp d t) ((ht_table d t)[i := c])"
    using k(1,2) t hash by (intro tab_ok_update) (auto simp: bucket_index_def)
  have len: "length (concat ((ht_table d t)[i := c])) = length (concat (ht_table d t)) + length c - length (ht_table d t ! i)"
    using length_concat_update [OF t(3), of c] by linarith
  have "tab_ok ty (ht_size_exp ?d 0) (ht_table ?d 0)" "tab_ok ty (ht_size_exp ?d 1) (ht_table ?d 1)"
    using tb k(1,2) t(1) by (auto simp: new_bucket_def)
  moreover have "ht_used ?d 0 = length (concat (ht_table ?d 0))" "ht_used ?d 1 = length (concat (ht_table ?d 1))"
    using len k(3,4) t(1) by (auto simp: new_bucket_def)
  moreover have "rehashidx d \<noteq> - 1 \<Longrightarrow> \<forall>j < length (ht_table ?d 0). int j < rehashidx d \<longrightarrow> ht_table ?d 0 ! j = []"
    using k(7) t emp by (auto simp: new_bucket_def nth_list_update split: if_splits)
  moreover have "rehashidx ?d = rehashidx d" "ht_size_exp ?d = ht_size_exp d"
    by (simp_all add: new_bucket_def)
  ultimately show ?thesis unfolding dict_ok_def using dist k(6,7) by auto
qed

lemma bucket_index_less:
  "dict_ok ty d \<Longrightarrow> t = 0 \<or> t = 1 \<Longrightarrow> ht_size_exp d t \<noteq> - 1 \<Longrightarrow> bucket_index d t h < length (ht_table d t)"
  using tab_ok_index [of ty "ht_size_exp d t" "ht_table d t"] dict_okD(1,2) [of ty d]
  by (auto simp: bucket_index_def)

text \<open>A location that names the entry \<open>(k, v)\<close>.\<close>

definition loc_ok :: "('k, 'v) dict \<Rightarrow> loc \<Rightarrow> 'k \<Rightarrow> 'v \<Rightarrow> bool" where
  "loc_ok d l k v \<longleftrightarrow>
     (case l of (t, idx, i) \<Rightarrow> (t = 0 \<or> t = 1) \<and> ht_size_exp d t \<noteq> - 1 \<and> idx < length (ht_table d t)
        \<and> i < length (ht_table d t ! idx) \<and> ht_table d t ! idx ! i = (k, v))"

lemma loc_ok_entry: "loc_ok d l k v \<Longrightarrow> dict_entry_at d l = Some (k, v)"
  by (auto simp: loc_ok_def dict_entry_at_def get_at_def split: prod.splits)

lemma loc_ok_mem: "loc_ok d l k v \<Longrightarrow> (k, v) \<in> set (dict_list d)"
proof -
  assume "loc_ok d l k v"
  then obtain t idx i where l: "t = 0 \<or> t = 1" "idx < length (ht_table d t)"
    "i < length (ht_table d t ! idx)" "ht_table d t ! idx ! i = (k, v)"
    by (auto simp: loc_ok_def split: prod.splits)
  then have "(k, v) \<in> set (concat (ht_table d t))" by (metis nth_mem in_set_conv_nth set_concat UN_I)
  with l(1) show ?thesis by (auto simp: dict_list_def)
qed

lemma loc_ok_map: "dict_ok ty d \<Longrightarrow> loc_ok d l k v \<Longrightarrow> dict_map d k = Some v"
  using loc_ok_mem dict_okD(5) unfolding dict_map_def by (metis map_of_is_SomeI)

lemma loc_ok_hash:
  "dict_ok ty d \<Longrightarrow> loc_ok d (t, idx, i) k v \<Longrightarrow> e \<in> set (ht_table d t ! idx) \<Longrightarrow>
   bucket_index d t (hashFunction ty (fst e)) = idx"
  using dict_okD(1,2) [of ty d] tab_ok_same_bucket [of ty "ht_size_exp d t" "ht_table d t" idx e]
  by (auto simp: loc_ok_def bucket_index_def)

text \<open>The three ways an operation changes a dictionary.\<close>

lemma new_entry_ok:
  assumes ok: "dict_ok ty d" and t: "t = 0 \<or> t = 1" "ht_size_exp d t \<noteq> - 1"
    and idx: "idx = bucket_index d t (hashFunction ty k)" and fresh: "dict_map d k = None"
    and re: "t = 0 \<longrightarrow> rehashidx d = - 1"
    and d'_def: "d' = new_bucket d t idx ((k, v) # ht_table d t ! idx)"
  shows "dict_ok ty d'" "mset (dict_list d') = add_mset (k, v) (mset (dict_list d))" "loc_ok d' (t, idx, 0) k v"
proof -
  have i: "idx < length (ht_table d t)" unfolding idx by (rule bucket_index_less [OF ok t])
  show m: "mset (dict_list d') = add_mset (k, v) (mset (dict_list d))"
    using new_bucket_list [OF t(1) i, of "(k, v) # ht_table d t ! idx"] by (simp add: d'_def)
  have "distinct (map fst ((k, v) # dict_list d))"
    using fresh dict_okD(5) [OF ok] by (simp add: dict_map_None)
  then have dist: "distinct (map fst (dict_list d'))"
    using map_of_mset(2) [of "dict_list d'" "(k, v) # dict_list d"] m by simp
  have "\<forall>e \<in> set (ht_table d t ! idx). bucket_index d t (hashFunction ty (fst e)) = idx"
    using tab_ok_same_bucket [of ty "ht_size_exp d t" "ht_table d t" idx] t i dict_okD(1,2) [OF ok]
    by (auto simp: bucket_index_def)
  then show "dict_ok ty d'"
    unfolding d'_def using ok t i re idx dist by (intro new_bucket_ok) (auto simp: d'_def)
  show "loc_ok d' (t, idx, 0) k v" using t i by (simp add: loc_ok_def d'_def new_bucket_def)
qed
lemma set_entry_ok:
  assumes ok: "dict_ok ty d" and l: "loc_ok d (t, idx, i) k u"
    and d'_def: "d' = new_bucket d t idx ((ht_table d t ! idx)[i := (k, v)])"
  shows "dict_ok ty d'" "dict_map d' = (dict_map d)(k \<mapsto> v)" "mset (map fst (dict_list d')) = mset (map fst (dict_list d))"
    "loc_ok d' (t, idx, i) k v"
proof -
  let ?c = "ht_table d t ! idx"
  have t: "t = 0 \<or> t = 1" "ht_size_exp d t \<noteq> - 1" and i: "idx < length (ht_table d t)" "i < length ?c" "?c ! i = (k, u)"
    using l by (auto simp: loc_ok_def)
  have c: "mset (?c[i := (k, v)]) + {#(k, u)#} = mset ?c + {#(k, v)#}"
    using i nth_mem [OF i(2)] by (simp add: mset_update add_mset_commute [of _ "(k, v)"])
  from new_bucket_list [OF t(1) i(1), of "?c[i := (k, v)]"]
  have "mset (dict_list d') + mset ?c + {#(k, u)#} = mset (dict_list d) + (mset (?c[i := (k, v)]) + {#(k, u)#})"
    by (simp add: d'_def ac_simps)
  also have "\<dots> = (mset (dict_list d) + {#(k, v)#}) + mset ?c" unfolding c by (simp add: ac_simps)
  finally have m: "add_mset (k, u) (mset (dict_list d')) = add_mset (k, v) (mset (dict_list d))" by simp
  then have "image_mset fst (add_mset (k, u) (mset (dict_list d'))) = image_mset fst (add_mset (k, v) (mset (dict_list d)))"
    by (rule arg_cong)
  then show f: "mset (map fst (dict_list d')) = mset (map fst (dict_list d))" by simp
  then have dist: "distinct (map fst (dict_list d'))"
    using dict_okD(5) [OF ok] mset_eq_imp_distinct_iff by blast
  obtain ys where ys: "mset (dict_list d) = add_mset (k, u) (mset ys)"
    using loc_ok_mem [OF l] by (metis in_set_conv_decomp mset_append mset.simps(2) union_mset_add_mset_right)
  with m have ys': "mset (dict_list d') = add_mset (k, v) (mset ys)" by (simp add: add_mset_commute)
  show "dict_map d' = (dict_map d)(k \<mapsto> v)"
    unfolding dict_map_def map_of_add_mset(1) [OF ys dict_okD(5) [OF ok]] map_of_add_mset(1) [OF ys' dist] by simp
  have "\<forall>e \<in> set (?c[i := (k, v)]). bucket_index d t (hashFunction ty (fst e)) = idx"
  proof
    fix e assume "e \<in> set (?c[i := (k, v)])"
    then have "e = (k, v) \<or> e \<in> set ?c" using set_update_subset_insert by fastforce
    then have "\<exists>e' \<in> set ?c. fst e' = fst e" using i by (metis fst_conv nth_mem)
    then show "bucket_index d t (hashFunction ty (fst e)) = idx" using loc_ok_hash [OF ok l] by metis
  qed
  then show "dict_ok ty d'"
    unfolding d'_def using ok t i dist by (intro new_bucket_ok) (auto simp: d'_def)
  show "loc_ok d' (t, idx, i) k v" using t i by (simp add: loc_ok_def d'_def new_bucket_def)
qed

lemma delete_entry_ok:
  assumes ok: "dict_ok ty d" and l: "loc_ok d (t, idx, i) k v"
    and d'_def: "d' = new_bucket d t idx (take i (ht_table d t ! idx) @ drop (Suc i) (ht_table d t ! idx))"
  shows "dict_ok ty d'" "mset (dict_list d) = add_mset (k, v) (mset (dict_list d'))"
proof -
  let ?c = "ht_table d t ! idx"
  let ?c' = "take i ?c @ drop (Suc i) ?c"
  have t: "t = 0 \<or> t = 1" "ht_size_exp d t \<noteq> - 1" and i: "idx < length (ht_table d t)" "i < length ?c" "?c ! i = (k, v)"
    using l by (auto simp: loc_ok_def)
  have "mset ?c = mset (take i ?c @ (k, v) # drop (Suc i) ?c)" using i by (metis id_take_nth_drop)
  then have c: "mset ?c = add_mset (k, v) (mset ?c')" by simp
  from new_bucket_list [OF t(1) i(1), of ?c'] c
  show m: "mset (dict_list d) = add_mset (k, v) (mset (dict_list d'))" by (simp add: d'_def)
  note dist = map_of_add_mset(3) [OF m dict_okD(5) [OF ok]]
  have "set ?c' \<subseteq> set ?c" using c by (metis insert_iff set_mset_add_mset_insert set_mset_mset subsetI)
  then have "\<forall>e \<in> set ?c'. bucket_index d t (hashFunction ty (fst e)) = idx"
    using loc_ok_hash [OF ok l] by blast
  moreover have "?c \<noteq> []" using i by auto
  ultimately show "dict_ok ty d'"
    unfolding d'_def using ok t i dist by (intro new_bucket_ok) (auto simp: d'_def)
qed

section \<open>The operations on the map\<close>

text \<open>What the callbacks of a dictionary type promise: on the keys in use, \<open>keyCompare\<close> is equality,
  and the copies that \<open>keyDup\<close> and \<open>valDup\<close> make are equal to what they copy.\<close>

locale dict_type =
  fixes ty :: "('k, 'v) dict_func"
    and valid :: "'k \<Rightarrow> bool"
  assumes compare_law: "valid a \<Longrightarrow> valid b \<Longrightarrow> dict_compare_keys ty a b \<longleftrightarrow> a = b"
    and dup_key_law: "dup_key ty a = a"
    and dup_val_law: "dup_val ty v = v"
begin

definition dict_inv :: "('k, 'v) dict \<Rightarrow> bool" where
  "dict_inv d \<longleftrightarrow> dict_ok ty d \<and> (\<forall>k \<in> dom (dict_map d). valid k)"

lemma dict_inv_ok: "dict_inv d \<Longrightarrow> dict_ok ty d"
  by (simp add: dict_inv_def)

lemma dict_inv_valid: "dict_inv d \<Longrightarrow> e \<in> set (dict_list d) \<Longrightarrow> valid (fst e)"
  by (force simp: dict_inv_def dict_map_def dom_map_of_conv_image_fst)

lemma dict_inv_cong: "dict_inv d \<Longrightarrow> dict_ok ty d' \<Longrightarrow> dict_map d' = dict_map d \<Longrightarrow> dict_inv d'"
  by (simp add: dict_inv_def)

lemma chain_find_None:
  "valid k \<Longrightarrow> \<forall>e \<in> set c. valid (fst e) \<Longrightarrow> chain_find ty k c = None \<longleftrightarrow> k \<notin> fst ` set c"
  by (induction c) (auto simp: same_key_def compare_law)

lemma chain_find_Some:
  "valid k \<Longrightarrow> \<forall>e \<in> set c. valid (fst e) \<Longrightarrow> chain_find ty k c = Some i \<Longrightarrow>
   i < length c \<and> fst (c ! i) = k"
proof (induction c arbitrary: i)
  case (Cons e c)
  then show ?case by (cases i) (auto simp: same_key_def compare_law split: if_splits)
qed simp

lemma search_table_ok:
  assumes inv: "dict_inv d" and k: "valid k" and t: "t = 0 \<or> t = 1" "ht_size_exp d t \<noteq> - 1"
    and idx: "idx = bucket_index d t (hashFunction ty k)"
  obtains "search_table ty d k (hashFunction ty k) t = Some (idx, None)" "k \<notin> fst ` set (concat (ht_table d t))"
  | i v where "search_table ty d k (hashFunction ty k) t = Some (idx, Some i)" "loc_ok d (t, idx, i) k v"
proof -
  let ?c = "ht_table d t ! idx"
  note ok = dict_inv_ok [OF inv]
  have i: "idx < length (ht_table d t)" unfolding idx by (rule bucket_index_less [OF ok t])
  have tk: "tab_ok ty (ht_size_exp d t) (ht_table d t)" using dict_okD(1,2) [OF ok] t by auto
  have "set ?c \<subseteq> set (dict_list d)" using i t(1) by (force simp: dict_list_def)
  then have v: "\<forall>e \<in> set ?c. valid (fst e)" using dict_inv_valid [OF inv] by blast
  have s: "search_table ty d k (hashFunction ty k) t = Some (idx, chain_find ty k ?c)"
    using i by (simp add: search_table_def get_at_def idx Let_def)
  show ?thesis
  proof (cases "chain_find ty k ?c")
    case None
    with chain_find_None [OF k v] have "k \<notin> fst ` set ?c" by simp
    moreover have "e \<in> set ?c" if "e \<in> set (concat (ht_table d t))" "fst e = k" for e
      using tab_ok_placed [OF tk t(2) that(1)] that(2) by (simp add: idx bucket_index_def)
    ultimately have "k \<notin> fst ` set (concat (ht_table d t))" by blast
    with that(1) s None show ?thesis by simp
  next
    case (Some j)
    from chain_find_Some [OF k v Some] have "loc_ok d (t, idx, j) k (snd (?c ! j))"
      using t i by (auto simp: loc_ok_def)
    with that(2) s Some show ?thesis by simp
  qed
qed

lemma search_tables_ok:
  assumes inv: "dict_inv d" and k: "valid k" and e0: "ht_size_exp d 0 \<noteq> - 1"
  obtains "search_tables ty d k (hashFunction ty k) =
      Some (bucket_index d (if dict_is_rehashing d then 1 else 0) (hashFunction ty k), None)" "dict_map d k = None"
  | idx l v where "search_tables ty d k (hashFunction ty k) = Some (idx, Some l)" "loc_ok d l k v"
proof -
  let ?h = "hashFunction ty k"
  note ok = dict_inv_ok [OF inv]
  note st = search_tables_def
  show ?thesis
  proof (rule search_table_ok [OF inv k _ e0 refl])
    fix i v assume "search_table ty d k ?h 0 = Some (bucket_index d 0 ?h, Some i)" "loc_ok d (0, bucket_index d 0 ?h, i) k v"
    then show ?thesis using that(2) by (simp add: st)
  next
    assume n0: "search_table ty d k ?h 0 = Some (bucket_index d 0 ?h, None)" "k \<notin> fst ` set (concat (ht_table d 0))"
    show ?thesis
    proof (cases "dict_is_rehashing d")
      case False
      then have "ht_table d 1 = []" using dict_okD(2,6) [OF ok] by (simp add: dict_is_rehashing_def tab_ok_def)
      then have "dict_map d k = None" using n0(2) by (simp add: dict_map_None dict_list_def)
      then show ?thesis using that(1) n0(1) False by (simp add: st)
    next
      case True
      then have e1: "ht_size_exp d 1 \<noteq> - 1" using dict_okD(7) [OF ok] by (simp add: dict_is_rehashing_def)
      show ?thesis
      proof (rule search_table_ok [OF inv k _ e1 refl])
        fix i v assume "search_table ty d k ?h 1 = Some (bucket_index d 1 ?h, Some i)" "loc_ok d (1, bucket_index d 1 ?h, i) k v"
        then show ?thesis using that(2) n0 True by (simp add: st)
      next
        assume n1: "search_table ty d k ?h 1 = Some (bucket_index d 1 ?h, None)" "k \<notin> fst ` set (concat (ht_table d 1))"
        have "dict_map d k = None" unfolding dict_map_None dict_list_def set_append image_Un using n0(2) n1(2) by blast
        then show ?thesis using that(1) n0(1) n1(1) True by (simp add: st)
      qed simp
    qed
  qed simp
qed

lemma dict_key_index_ok:
  assumes inv: "dict_inv d" and k: "valid k" and n: "length (dict_list d) < 2 ^ 58"
  obtains d' where "dict_key_index ty d k (hashFunction ty k) =
      Some (d', Inr (bucket_index d' (if dict_is_rehashing d' then 1 else 0) (hashFunction ty k)))"
    "dict_inv d'" "dict_list d' = dict_list d" "ht_size_exp d' 0 \<noteq> - 1" "dict_map d k = None"
  | d' l v where "dict_key_index ty d k (hashFunction ty k) = Some (d', Inl (Some l))"
    "dict_inv d'" "dict_list d' = dict_list d" "loc_ok d' l k v"
proof -
  from expand_if_needed_ok [OF dict_inv_ok [OF inv] n] obtain d' where
    d': "dict_expand_if_needed ty d = (d', DICT_OK)" "dict_ok ty d'" "dict_list d' = dict_list d"
    "ht_size_exp d' 0 \<noteq> - 1" by blast
  have inv': "dict_inv d'" using inv d' by (simp add: dict_inv_def dict_map_def)
  show ?thesis
    by (rule search_tables_ok [OF inv' k d'(4)])
      (use that d' inv' in \<open>auto simp: dict_key_index_def dict_map_def\<close>)
qed

text \<open>The rehashing step that every operation begins with is invisible.\<close>

lemma rehash_inv:
  assumes "dict_inv d"
  obtains d' where "rehash_if_needed ty d = Some d'" "dict_inv d'" "dict_map d' = dict_map d"
    "length (dict_list d') = length (dict_list d)"
  using rehash_if_needed_ok [OF dict_inv_ok [OF assms]] assms dict_inv_cong by blast

lemma dict_add_raw_ok:
  assumes inv: "dict_inv d" and k: "valid k" and n: "length (dict_list d) < 2 ^ 58"
  obtains d' l where "dict_add_raw ty junk d k = Some (d', Inr l)" "dict_map d k = None" "dict_inv d'"
    "loc_ok d' l k junk" "dict_map d' = (dict_map d)(k \<mapsto> junk)" "length (dict_list d') = Suc (length (dict_list d))"
  | d' l v where "dict_add_raw ty junk d k = Some (d', Inl (Some l))" "dict_map d k = Some v" "dict_inv d'"
    "loc_ok d' l k v" "dict_map d' = dict_map d" "length (dict_list d') = length (dict_list d)"
proof -
  from rehash_inv [OF inv] obtain d0 where d0: "rehash_if_needed ty d = Some d0" "dict_inv d0"
    "dict_map d0 = dict_map d" "length (dict_list d0) = length (dict_list d)" .
  note ar = dict_add_raw_def dict_hash_key_def
  show ?thesis
  proof (rule dict_key_index_ok [OF d0(2) k])
    show "length (dict_list d0) < 2 ^ 58" using n d0(4) by simp
  next
    fix d1 l v
    assume d1: "dict_key_index ty d0 k (hashFunction ty k) = Some (d1, Inl (Some l))" "dict_inv d1"
      "dict_list d1 = dict_list d0" "loc_ok d1 l k v"
    have m: "dict_map d1 = dict_map d" using d1(3) d0(3) by (simp add: dict_map_def)
    then have "dict_map d k = Some v" using loc_ok_map [OF dict_inv_ok d1(4)] d1(2) by simp
    moreover have "dict_add_raw ty junk d k = Some (d1, Inl (Some l))"
      using d0(1) d1(1) by (simp add: ar)
    ultimately show ?thesis using that(2) d1 d0 m by auto
  next
    fix d1 :: "('k, 'v) dict"
    let ?t = "if dict_is_rehashing d1 then 1 else 0 :: nat"
    let ?i = "bucket_index d1 ?t (hashFunction ty k)"
    assume d1: "dict_key_index ty d0 k (hashFunction ty k) = Some (d1, Inr ?i)" "dict_inv d1"
      "dict_list d1 = dict_list d0" "ht_size_exp d1 0 \<noteq> - 1" "dict_map d0 k = None"
    note ok = dict_inv_ok [OF d1(2)]
    have m: "dict_map d1 = dict_map d" using d1(3) d0(3) by (simp add: dict_map_def)
    have fr: "dict_map d1 k = None" using m d1(5) d0(3) by simp
    have t: "?t = 0 \<or> ?t = 1" "ht_size_exp d1 ?t \<noteq> - 1"
      using d1(4) dict_okD(7) [OF ok] by (auto simp: dict_is_rehashing_def)
    define d2 where "d2 = new_bucket d1 ?t ?i ((k, junk) # ht_table d1 ?t ! ?i)"
    have re: "?t = 0 \<longrightarrow> rehashidx d1 = - 1" by (simp add: dict_is_rehashing_def)
    note ne = new_entry_ok [OF ok t refl fr re d2_def]
    have i: "?i < length (ht_table d1 ?t)" by (rule bucket_index_less [OF ok t])
    have "dict_add_raw ty junk d k = Some (d2, Inr (?t, ?i, 0))"
      using d0(1) d1(1) i by (simp add: ar Let_def get_at_def set_bucket_def put_at_def d2_def new_bucket_def dup_key_law flip: Suc_eq_plus1)
    moreover have m2: "dict_map d2 = (dict_map d)(k \<mapsto> junk)"
      using map_of_add_mset(1) [OF ne(2)] dict_okD(5) [OF ne(1)] m by (simp add: dict_map_def)
    moreover have "dict_inv d2" using ne(1) m2 m d1(2) k by (auto simp: dict_inv_def)
    moreover have "length (dict_list d2) = Suc (length (dict_list d))"
      using arg_cong [OF ne(2), of size] d1(3) d0(4) by simp
    ultimately show ?thesis using that(1) ne(3) fr m by simp
  qed
qed

lemma dict_set_val_ok:
  assumes inv: "dict_inv d" and l: "loc_ok d l k u"
  obtains d' where "dict_set_val ty d l v = Some d'" "dict_inv d'" "dict_map d' = (dict_map d)(k \<mapsto> v)"
    "loc_ok d' l k v" "length (dict_list d') = length (dict_list d)"
proof -
  obtain t idx i where tl: "l = (t, idx, i)" by (metis prod_cases3)
  let ?c = "ht_table d t ! idx"
  note l' = l [unfolded tl]
  have i: "idx < length (ht_table d t)" "i < length ?c" "?c ! i = (k, u)" using l' by (auto simp: loc_ok_def)
  define d1 where "d1 = new_bucket d t idx (?c[i := (k, v)])"
  note se = set_entry_ok [OF dict_inv_ok [OF inv] l' d1_def]
  have "d1 = d\<lparr>ht_table := (ht_table d)(t := (ht_table d t)[idx := ?c[i := (k, v)]])\<rparr>"
    by (simp add: d1_def new_bucket_def fun_upd_idem)
  then have "dict_set_val ty d l v = Some d1"
    using i by (simp add: dict_set_val_def tl get_at_def put_at_def set_bucket_def dup_val_law)
  moreover have "dict_inv d1"
    using se(1,2) inv loc_ok_map [OF dict_inv_ok [OF inv] l] by (auto simp: dict_inv_def)
  moreover have "length (dict_list d1) = length (dict_list d)"
    using arg_cong [OF se(3), of size] by simp
  ultimately show ?thesis using that se(2,4) tl by simp
qed

text \<open>\<open>dict_add_get\<close> binds a key that is not bound.\<close>

lemma dict_add_get_law:
  assumes inv: "dict_inv d" and k: "valid k" and n: "length (dict_list d) < 2 ^ 58"
  obtains d' where "dict_map d k \<noteq> None" "dict_add_get ty junk d k v = Some (d', None)" "dict_inv d'"
    "dict_map d' = dict_map d" "length (dict_list d') = length (dict_list d)"
  | d' l where "dict_map d k = None" "dict_add_get ty junk d k v = Some (d', Some l)" "dict_inv d'"
    "dict_map d' = (dict_map d)(k \<mapsto> v)" "loc_ok d' l k v" "length (dict_list d') = Suc (length (dict_list d))"
proof (rule dict_add_raw_ok [OF inv k n, of junk])
  fix d1 l u assume "dict_add_raw ty junk d k = Some (d1, Inl (Some l))" "dict_map d k = Some u" "dict_inv d1"
    "dict_map d1 = dict_map d" "length (dict_list d1) = length (dict_list d)"
  then show ?thesis using that(1) by (simp add: dict_add_get_def)
next
  fix d1 l assume d1: "dict_add_raw ty junk d k = Some (d1, Inr l)" "dict_map d k = None" "dict_inv d1"
    "loc_ok d1 l k junk" "dict_map d1 = (dict_map d)(k \<mapsto> junk)" "length (dict_list d1) = Suc (length (dict_list d))"
  from dict_set_val_ok [OF d1(3,4), of v] obtain d2 where "dict_set_val ty d1 l v = Some d2" "dict_inv d2"
    "dict_map d2 = (dict_map d1)(k \<mapsto> v)" "loc_ok d2 l k v" "length (dict_list d2) = length (dict_list d1)" .
  then show ?thesis using that(2) d1 by (simp add: dict_add_get_def)
qed

lemma dict_add_law:
  assumes "dict_inv d" "valid k" "length (dict_list d) < 2 ^ 58"
  obtains d' where "dict_add ty junk d k v = Some (d', if dict_map d k = None then DICT_OK else DICT_ERR)" "dict_inv d'"
    "dict_map d' = (if dict_map d k = None then (dict_map d)(k \<mapsto> v) else dict_map d)"
    "length (dict_list d') \<le> Suc (length (dict_list d))"
  by (rule dict_add_get_law [OF assms, of junk v]) (use that in \<open>auto simp: dict_add_def\<close>)

lemma dict_size_0: "dict_inv d \<Longrightarrow> dict_size d = 0 \<Longrightarrow> dict_map d k = None"
proof -
  assume "dict_inv d" "dict_size d = 0"
  then have "dict_list d = []"
    using dict_okD(3,4) [OF dict_inv_ok, of d] by (simp add: dict_size_def dict_list_def)
  then show ?thesis by (simp add: dict_map_def)
qed

lemma nonempty_size_exp: "dict_inv d \<Longrightarrow> dict_map d k \<noteq> None \<or> length (dict_list d) \<noteq> 0 \<Longrightarrow> ht_size_exp d 0 \<noteq> - 1"
  using dict_okD(1,2,6,7) [OF dict_inv_ok, of d]
  by (cases "rehashidx d = - 1") (auto simp: dict_map_def dict_list_def tab_ok_def)

text \<open>\<open>dict_find\<close> returns the entry of the key.\<close>

lemma dict_find_law:
  assumes inv: "dict_inv d" and k: "valid k"
  obtains d' where "dict_find ty d k = Some (d', None)" "dict_map d k = None" "dict_inv d'"
    "dict_map d' = dict_map d" "length (dict_list d') = length (dict_list d)"
  | d' l v where "dict_find ty d k = Some (d', Some l)" "dict_map d k = Some v" "dict_inv d'"
    "dict_map d' = dict_map d" "loc_ok d' l k v" "length (dict_list d') = length (dict_list d)"
proof (cases "dict_size d = 0")
  case True
  then have "dict_find ty d k = Some (d, None)" by (simp add: dict_find_def)
  then show ?thesis using that(1) [of d] dict_size_0 [OF inv True, of k] inv by simp
next
  case False
  from rehash_inv [OF inv] obtain d0 where d0: "rehash_if_needed ty d = Some d0" "dict_inv d0"
    "dict_map d0 = dict_map d" "length (dict_list d0) = length (dict_list d)" .
  have "length (dict_list d0) \<noteq> 0" unfolding d0(4)
    using False dict_okD(3,4) [OF dict_inv_ok [OF inv]] by (simp add: dict_size_def dict_list_def)
  then have e0: "ht_size_exp d0 0 \<noteq> - 1" using nonempty_size_exp [OF d0(2)] by blast
  show ?thesis
  proof (rule search_tables_ok [OF d0(2) k e0], goal_cases)
    case 1
    then show ?thesis using that(1) False d0 by (simp add: dict_find_def dict_hash_key_def)
  next
    case (2 idx l v)
    then show ?thesis
      using that(2) False d0 loc_ok_map [OF dict_inv_ok [OF d0(2)]] by (simp add: dict_find_def dict_hash_key_def)
  qed
qed

lemma dict_fetch_value_law:
  assumes "dict_inv d" "valid k"
  obtains d' where "dict_fetch_value ty d k = Some (d', dict_map d k)" "dict_inv d'" "dict_map d' = dict_map d"
    "length (dict_list d') = length (dict_list d)"
proof (rule dict_find_law [OF assms], goal_cases)
  case (1 d')
  then show ?thesis using that by (simp add: dict_fetch_value_def)
next
  case (2 d' l v)
  then show ?thesis using that by (simp add: dict_fetch_value_def loc_ok_entry)
qed

lemma delete_in_ok:
  assumes inv: "dict_inv d" and l: "loc_ok d l k v"
  obtains d' where "delete_in d l = Some d'" "dict_inv d'" "dict_map d' = (dict_map d)(k := None)"
    "length (dict_list d) = Suc (length (dict_list d'))"
proof -
  obtain t idx i where tl: "l = (t, idx, i)" by (metis prod_cases3)
  let ?c = "ht_table d t ! idx"
  note l' = l [unfolded tl]
  have i: "idx < length (ht_table d t)" "i < length ?c" using l' by (auto simp: loc_ok_def)
  define d1 where "d1 = new_bucket d t idx (take i ?c @ drop (Suc i) ?c)"
  note de = delete_entry_ok [OF dict_inv_ok [OF inv] l' d1_def]
  have "Suc (length (take i ?c @ drop (Suc i) ?c)) = length ?c" using i by simp
  then have "ht_used d t + length (take i ?c @ drop (Suc i) ?c) - length ?c = ht_used d t - 1" by linarith
  then have "delete_in d l = Some d1"
    using i by (simp add: delete_in_def tl get_at_def put_at_def set_bucket_def d1_def new_bucket_def del: length_append)
  moreover have m: "dict_map d1 = (dict_map d)(k := None)"
    using map_of_add_mset(2) [OF de(2) dict_okD(5) [OF dict_inv_ok [OF inv]]] by (simp add: dict_map_def)
  moreover have "dict_inv d1" using inv de(1) m by (auto simp: dict_inv_def)
  moreover have "length (dict_list d) = Suc (length (dict_list d1))" using arg_cong [OF de(2), of size] by simp
  ultimately show ?thesis using that by blast
qed

lemma dict_generic_delete_law:
  assumes inv: "dict_inv d" and k: "valid k"
  obtains d' where "dict_generic_delete ty d k = Some (d', map_option (Pair k) (dict_map d k))" "dict_inv d'"
    "dict_map d' = (dict_map d)(k := None)" "length (dict_list d') \<le> length (dict_list d)"
proof (cases "dict_size d = 0")
  case True
  note n = dict_size_0 [OF inv True, of k]
  then have "dict_generic_delete ty d k = Some (d, map_option (Pair k) (dict_map d k))"
    using True by (simp add: dict_generic_delete_def)
  then show ?thesis using that [of d] inv n by (simp add: fun_upd_idem)
next
  case False
  from rehash_inv [OF inv] obtain d0 where d0: "rehash_if_needed ty d = Some d0" "dict_inv d0"
    "dict_map d0 = dict_map d" "length (dict_list d0) = length (dict_list d)" .
  have "length (dict_list d0) \<noteq> 0" unfolding d0(4)
    using False dict_okD(3,4) [OF dict_inv_ok [OF inv]] by (simp add: dict_size_def dict_list_def)
  then have e0: "ht_size_exp d0 0 \<noteq> - 1" using nonempty_size_exp [OF d0(2)] by blast
  note gd = dict_generic_delete_def dict_hash_key_def
  show ?thesis
  proof (rule search_tables_ok [OF d0(2) k e0], goal_cases)
    case 1
    then show ?thesis using that False d0 by (simp add: gd fun_upd_idem)
  next
    case (2 idx l v)
    from delete_in_ok [OF d0(2) 2(2)] obtain d1 where
      d1: "delete_in d0 l = Some d1" "dict_inv d1" "dict_map d1 = (dict_map d0)(k := None)"
        "length (dict_list d0) = Suc (length (dict_list d1))" .
    have "dict_map d k = Some v" using loc_ok_map [OF dict_inv_ok [OF d0(2)] 2(2)] d0(3) by simp
    then show ?thesis using that 2 False d0 d1 by (simp add: gd loc_ok_entry)
  qed
qed

lemma dict_delete_key_law:
  assumes "dict_inv d" "valid k"
  obtains d' where "dict_delete_key ty d k = Some (d', if dict_map d k = None then DICT_ERR else DICT_OK)" "dict_inv d'"
    "dict_map d' = (dict_map d)(k := None)" "length (dict_list d') \<le> length (dict_list d)"
  by (rule dict_generic_delete_law [OF assms]) (use that in \<open>auto simp: dict_delete_key_def\<close>)

lemma dict_new_inv: "dict_inv dict_new" "dict_map dict_new = Map.empty" "dict_list dict_new = []"
  by (simp_all add: dict_inv_def dict_ok_def dict_map_def dict_list_def dict_new_def dict_init_def dict_reset_def tab_ok_def)

lemma dict_list_card: "dict_inv d \<Longrightarrow> length (dict_list d) = card (dom (dict_map d))"
  using dict_okD(5) [OF dict_inv_ok, of d] distinct_card [of "map fst (dict_list d)"]
  by (simp add: dict_map_def dom_map_of_conv_image_fst)

lemma dict_size_card: "dict_inv d \<Longrightarrow> dict_size d = card (dom (dict_map d))"
  using dict_okD(3,4) [OF dict_inv_ok, of d] dict_list_card [of d] by (simp add: dict_size_def dict_list_def)

end

text \<open>The operations a client of the table sees, with their results as truth values.\<close>

definition dict_put ::
  "('k, 'v) dict_func \<Rightarrow> 'v \<Rightarrow> ('k, 'v) dict \<Rightarrow> 'k \<Rightarrow> 'v \<Rightarrow> (('k, 'v) dict \<times> bool) option" where
  "dict_put ty junk d k v = map_option (\<lambda>(d, r). (d, r = DICT_OK)) (dict_add ty junk d k v)"

definition dict_del :: "('k, 'v) dict_func \<Rightarrow> ('k, 'v) dict \<Rightarrow> 'k \<Rightarrow> (('k, 'v) dict \<times> bool) option" where
  "dict_del ty d k = map_option (\<lambda>(d, r). (d, r = DICT_OK)) (dict_delete_key ty d k)"

sublocale dict_type \<subseteq> tab: map_impl dict_inv dict_map valid "2 ^ 58"
  "dict_put ty junk" "dict_del ty" "dict_fetch_value ty" for junk
proof
  fix d k v
  assume d: "dict_inv d" "valid k" "card (dom (dict_map d)) < 2 ^ 58"
  then have "length (dict_list d) < 2 ^ 58" using dict_list_card by simp
  from dict_add_law [OF d(1,2) this] obtain d' where
    "dict_add ty junk d k v = Some (d', if dict_map d k = None then DICT_OK else DICT_ERR)" "dict_inv d'"
    "dict_map d' = (if dict_map d k = None then (dict_map d)(k \<mapsto> v) else dict_map d)" .
  then show "\<exists>d'. dict_put ty junk d k v = Some (d', dict_map d k = None)
    \<and> dict_inv d' \<and> dict_map d' = (if dict_map d k = None then (dict_map d)(k \<mapsto> v) else dict_map d)"
    by (simp add: dict_put_def)
next
  fix d k assume d: "dict_inv d" "valid k"
  from dict_delete_key_law [OF d] obtain d' where
    "dict_delete_key ty d k = Some (d', if dict_map d k = None then DICT_ERR else DICT_OK)" "dict_inv d'"
    "dict_map d' = (dict_map d)(k := None)" .
  then show "\<exists>d'. dict_del ty d k = Some (d', dict_map d k \<noteq> None)
    \<and> dict_inv d' \<and> dict_map d' = (dict_map d)(k := None)"
    by (simp add: dict_del_def)
  from dict_fetch_value_law [OF d] show "\<exists>d'. dict_fetch_value ty d k = Some (d', dict_map d k)
    \<and> dict_inv d' \<and> dict_map d' = dict_map d" by metis
next
  fix d show "finite (dom (dict_map d))" by (simp add: dict_map_def finite_dom_map_of)
qed

section \<open>The iterator visits every entry\<close>

definition iter_dict_ok :: "('k, 'v) dict \<Rightarrow> bool" where
  "iter_dict_ok d \<longleftrightarrow> DICTHT_SIZE (ht_size_exp d 0) = length (ht_table d 0)
     \<and> DICTHT_SIZE (ht_size_exp d 1) = length (ht_table d 1)
     \<and> (if dict_is_rehashing d then ht_table d 1 \<noteq> [] else ht_table d 1 = [])"

lemma dict_ok_iter: "dict_ok ty d \<Longrightarrow> iter_dict_ok d"
  using dict_okD [of ty d] tab_size [of ty "ht_size_exp d 0"] tab_size [of ty "ht_size_exp d 1"]
  by (auto simp: iter_dict_ok_def dict_is_rehashing_def tab_ok_def)

text \<open>The buckets that were not reached, and the entries that were not returned.\<close>

definition later_buckets :: "('k, 'v) dict_iterator \<Rightarrow> ('k, 'v) chain list" where
  "later_buckets it =
     drop (nat (di_index it + 1)) (ht_table (di_dict it) (di_table it))
     @ (if di_table it = 0 \<and> dict_is_rehashing (di_dict it) then ht_table (di_dict it) 1 else [])"

definition entries_left :: "('k, 'v) dict_iterator \<Rightarrow> ('k, 'v) entry list" where
  "entries_left it =
     (if di_index it = - 2 then []
      else (if di_readed it then tl (di_entry it) else di_entry it) @ concat (later_buckets it))"

definition dict_iter_base :: "('k, 'v) dict_iterator \<Rightarrow> bool" where
  "dict_iter_base it \<longleftrightarrow> di_index it = - 2 \<or>
     iter_dict_ok (di_dict it) \<and> - 1 \<le> di_index it \<and> (di_table it = 0 \<or> di_table it = 1)
     \<and> (di_table it = 1 \<longrightarrow> dict_is_rehashing (di_dict it))
     \<and> (di_entry it \<noteq> [] \<longrightarrow> di_nextEntry it = tl (di_entry it))"

definition dict_iter_between :: "('k, 'v) dict_iterator \<Rightarrow> bool" where
  "dict_iter_between it \<longleftrightarrow> dict_iter_base it \<and> (di_readed it \<or> di_entry it = [])"

definition dict_iter_ready :: "('k, 'v) dict_iterator \<Rightarrow> bool" where
  "dict_iter_ready it \<longleftrightarrow> dict_iter_base it \<and> di_index it \<noteq> - 2 \<and> \<not> di_readed it \<and> di_entry it \<noteq> []"

lemma next_bucket:
  assumes b: "dict_iter_base it" "di_index it \<noteq> - 2" and e: "di_entry it = []"
  shows "later_buckets it = [] \<Longrightarrow> dict_iterator_has_next_loop it = Some (it\<lparr>di_index := - 2\<rparr>, False)"
    "later_buckets it = c # cs \<Longrightarrow> \<exists>i t. later_buckets (it\<lparr>di_index := i, di_table := t\<rparr>) = cs
      \<and> - 1 \<le> i \<and> (t = 0 \<or> t = 1 \<and> dict_is_rehashing (di_dict it))
      \<and> dict_iterator_has_next_loop it =
          (if c \<noteq> [] then Some (it\<lparr>di_index := i, di_table := t, di_entry := c, di_nextEntry := tl c, di_readed := False\<rparr>, True)
           else dict_iterator_has_next_loop (it\<lparr>di_index := i, di_table := t, di_entry := c\<rparr>))"
proof -
  let ?d = "di_dict it" and ?t = "di_table it"
  let ?i = "nat (di_index it + 1)"
  have d: "iter_dict_ok ?d" "- 1 \<le> di_index it" "?t = 0 \<or> ?t = 1 \<and> dict_is_rehashing ?d"
    using b by (auto simp: dict_iter_base_def)
  have sz: "DICTHT_SIZE (ht_size_exp ?d ?t) = length (ht_table ?d ?t)" using d(1,3) by (auto simp: iter_dict_ok_def)
  have i: "di_index it + 1 = int ?i" using d(2) by simp
  note st = dict_iterator_has_next_loop.simps [of it] later_buckets_def
  have over: "int (length (ht_table ?d ?t)) \<le> di_index it + 1 \<longleftrightarrow> length (ht_table ?d ?t) \<le> ?i" using i by linarith
  { assume "later_buckets it = []"
    then have "length (ht_table ?d ?t) \<le> ?i" "\<not> (dict_is_rehashing ?d \<and> ?t = 0)"
      using d(1) by (auto simp: later_buckets_def iter_dict_ok_def split: if_splits)
    then show "dict_iterator_has_next_loop it = Some (it\<lparr>di_index := - 2\<rparr>, False)"
      by (subst dict_iterator_has_next_loop.simps) (auto simp: e Let_def sz over)
  }
  assume l: "later_buckets it = c # cs"
  show "\<exists>i t. later_buckets (it\<lparr>di_index := i, di_table := t\<rparr>) = cs
      \<and> - 1 \<le> i \<and> (t = 0 \<or> t = 1 \<and> dict_is_rehashing (di_dict it))
      \<and> dict_iterator_has_next_loop it =
          (if c \<noteq> [] then Some (it\<lparr>di_index := i, di_table := t, di_entry := c, di_nextEntry := tl c, di_readed := False\<rparr>, True)
           else dict_iterator_has_next_loop (it\<lparr>di_index := i, di_table := t, di_entry := c\<rparr>))"
  proof (cases "?i < length (ht_table ?d ?t)")
    case True
    then have "drop ?i (ht_table ?d ?t) = ht_table ?d ?t ! ?i # drop (Suc ?i) (ht_table ?d ?t)"
      by (rule Cons_nth_drop_Suc [symmetric])
    with l have c: "c = ht_table ?d ?t ! ?i"
      "cs = drop (Suc ?i) (ht_table ?d ?t) @ (if ?t = 0 \<and> dict_is_rehashing ?d then ht_table ?d 1 else [])"
      by (auto simp: later_buckets_def)
    have "later_buckets (it\<lparr>di_index := int ?i, di_table := ?t\<rparr>) = cs"
      using c(2) by (simp add: later_buckets_def nat_add_distrib)
    moreover have "dict_iterator_has_next_loop it =
      (if c \<noteq> [] then Some (it\<lparr>di_index := int ?i, di_table := ?t, di_entry := c, di_nextEntry := tl c, di_readed := False\<rparr>, True)
       else dict_iterator_has_next_loop (it\<lparr>di_index := int ?i, di_table := ?t, di_entry := c\<rparr>))"
      using True d(2) c(1) by (subst dict_iterator_has_next_loop.simps) (simp add: e Let_def sz over get_at_def)
    ultimately show ?thesis using d(3) by fastforce
  next
    case False
    with l have t: "?t = 0" "dict_is_rehashing ?d" and c: "ht_table ?d 1 = c # cs"
      by (auto simp: later_buckets_def split: if_splits)
    have "later_buckets (it\<lparr>di_index := 0, di_table := 1\<rparr>) = cs"
      using c by (simp add: later_buckets_def)
    moreover have "dict_iterator_has_next_loop it =
      (if c \<noteq> [] then Some (it\<lparr>di_index := 0, di_table := 1, di_entry := c, di_nextEntry := tl c, di_readed := False\<rparr>, True)
       else dict_iterator_has_next_loop (it\<lparr>di_index := 0, di_table := 1, di_entry := c\<rparr>))"
      using False c d(2) sz [unfolded t(1)] over [unfolded t(1)]
      by (subst dict_iterator_has_next_loop.simps) (auto simp add: e t Let_def get_at_def)
    ultimately show ?thesis using t by fastforce
  qed
qed

lemma has_next_loop_ok:
  assumes "dict_iter_base it" "di_index it \<noteq> - 2" "di_entry it = []"
  shows "\<exists>it'. dict_iterator_has_next_loop it = Some (it', concat (later_buckets it) \<noteq> [])
    \<and> (concat (later_buckets it) \<noteq> [] \<longrightarrow> dict_iter_ready it' \<and> entries_left it' = concat (later_buckets it))"
  using assms
proof (induction "later_buckets it" arbitrary: it)
  case Nil
  then show ?case using next_bucket(1) [OF Nil.prems] by auto
next
  case (Cons c cs)
  from next_bucket(2) [OF Cons.prems, of c cs] Cons.hyps(2) obtain i t where
    it: "later_buckets (it\<lparr>di_index := i, di_table := t\<rparr>) = cs" "- 1 \<le> i" "t = 0 \<or> t = 1 \<and> dict_is_rehashing (di_dict it)"
    "dict_iterator_has_next_loop it =
       (if c \<noteq> [] then Some (it\<lparr>di_index := i, di_table := t, di_entry := c, di_nextEntry := tl c, di_readed := False\<rparr>, True)
        else dict_iterator_has_next_loop (it\<lparr>di_index := i, di_table := t, di_entry := c\<rparr>))"
    by metis
  have l: "later_buckets (it\<lparr>di_index := i, di_table := t, di_entry := e, di_nextEntry := n, di_readed := r\<rparr>) = cs"
    "later_buckets (it\<lparr>di_index := i, di_table := t, di_entry := e\<rparr>) = cs" for e n r
    using it(1) by (auto simp: later_buckets_def)
  have d: "iter_dict_ok (di_dict it)" using Cons.prems by (simp add: dict_iter_base_def)
  show ?case
  proof (cases "c = []")
    case True
    have "dict_iter_base (it\<lparr>di_index := i, di_table := t, di_entry := []\<rparr>)"
      using d it by (auto simp: dict_iter_base_def)
    with Cons.hyps(1) [of "it\<lparr>di_index := i, di_table := t, di_entry := []\<rparr>"] l it(2,4) True Cons.hyps(2) [symmetric]
    show ?thesis by simp
  next
    case False
    let ?it = "it\<lparr>di_index := i, di_table := t, di_entry := c, di_nextEntry := tl c, di_readed := False\<rparr>"
    have "dict_iter_ready ?it" using d it False by (auto simp: dict_iter_ready_def dict_iter_base_def)
    moreover have "entries_left ?it = c @ concat cs" using it(2) by (simp add: entries_left_def l)
    ultimately show ?thesis using it(4) False Cons.hyps(2) [symmetric] by auto
  qed
qed

interpretation dict_iter: iterator_protocol dict_iterator_func dict_iter_between dict_iter_ready
  "\<lambda>it. map Some (entries_left it)"
proof
  fix it :: "('k, 'v) dict_iterator"
  assume b: "dict_iter_between it"
  show "\<exists>it'. it_has_next dict_iterator_func it = Some (it', map Some (entries_left it) \<noteq> [])
    \<and> (map Some (entries_left it) \<noteq> [] \<longrightarrow> dict_iter_ready it' \<and> map Some (entries_left it') = map Some (entries_left it))"
  proof (cases "di_index it = - 2")
    case True
    then show ?thesis by (simp add: dict_iterator_func_def protected_dict_iterator_has_next_def entries_left_def)
  next
    case i: False
    have hn: "it_has_next dict_iterator_func it = dict_iterator_has_next_loop it"
      using i by (simp add: dict_iterator_func_def protected_dict_iterator_has_next_def)
    have base: "dict_iter_base it" using b by (simp add: dict_iter_between_def)
    show ?thesis
    proof (cases "di_entry it = []")
      case True
      then have "entries_left it = concat (later_buckets it)" using i by (simp add: entries_left_def)
      then show ?thesis unfolding hn using has_next_loop_ok [OF base i True] by auto
    next
      case False
      then have r: "di_readed it" and n: "di_nextEntry it = tl (di_entry it)"
        using b i by (auto simp: dict_iter_between_def dict_iter_base_def)
      then have el: "entries_left it = di_nextEntry it @ concat (later_buckets it)" using i by (simp add: entries_left_def)
      show ?thesis
      proof (cases "di_nextEntry it = []")
        case True
        have "dict_iterator_has_next_loop it = dict_iterator_has_next_loop (it\<lparr>di_entry := []\<rparr>)"
          using False True by (subst dict_iterator_has_next_loop.simps) simp
        moreover have "dict_iter_base (it\<lparr>di_entry := []\<rparr>)" using base by (auto simp: dict_iter_base_def)
        moreover have "later_buckets (it\<lparr>di_entry := []\<rparr>) = later_buckets it" by (simp add: later_buckets_def)
        ultimately show ?thesis unfolding hn el True using has_next_loop_ok [of "it\<lparr>di_entry := []\<rparr>"] i by auto
      next
        case ne: False
        let ?it = "it\<lparr>di_entry := di_nextEntry it, di_nextEntry := tl (di_nextEntry it), di_readed := False\<rparr>"
        have "dict_iterator_has_next_loop it = Some (?it, True)"
          using False ne by (subst dict_iterator_has_next_loop.simps) simp
        moreover have "dict_iter_ready ?it"
          using base i ne by (auto simp: dict_iter_ready_def dict_iter_base_def)
        moreover have "entries_left ?it = entries_left it"
          using i unfolding el by (simp add: entries_left_def later_buckets_def)
        ultimately show ?thesis unfolding hn using el ne by auto
      qed
    qed
  qed
next
  fix it :: "('k, 'v) dict_iterator" and x xs
  assume r: "dict_iter_ready it" and m: "map Some (entries_left it) = x # xs"
  then obtain e c where c: "di_entry it = e # c" by (auto simp: dict_iter_ready_def neq_Nil_conv)
  have el: "entries_left it = e # c @ concat (later_buckets it)"
    using r c by (simp add: entries_left_def dict_iter_ready_def)
  have "it_next dict_iterator_func it = Some (it\<lparr>di_readed := True\<rparr>, Some e)"
    using r c by (simp add: dict_iter_ready_def dict_iterator_func_def protected_dict_iterator_next_def get_at_def)
  moreover have "dict_iter_between (it\<lparr>di_readed := True\<rparr>)"
    using r by (auto simp: dict_iter_between_def dict_iter_ready_def dict_iter_base_def)
  moreover have "entries_left (it\<lparr>di_readed := True\<rparr>) = c @ concat (later_buckets it)"
    using r c by (simp add: entries_left_def dict_iter_ready_def later_buckets_def)
  ultimately show "\<exists>it'. it_next dict_iterator_func it = Some (it', x) \<and> dict_iter_between it'
    \<and> map Some (entries_left it') = xs"
    using m el by auto
qed

lemma dict_iterator_init_left:
  assumes "dict_ok ty d"
  shows "dict_iter_between (dict_iterator_init d)" "entries_left (dict_iterator_init d) = dict_list d"
proof -
  note k = dict_ok_iter [OF assms]
  then show "dict_iter_between (dict_iterator_init d)"
    by (simp add: dict_iter_between_def dict_iter_base_def dict_iterator_init_def)
  show "entries_left (dict_iterator_init d) = dict_list d"
    using k by (simp add: entries_left_def later_buckets_def dict_iterator_init_def dict_list_def iter_dict_ok_def)
qed

text \<open>The comparison ends; it returns 0 when every entry that is left has an equal one.\<close>

context dict_type
begin

lemma dict_cmp_loop_ok:
  assumes "dict_iter_between it" "dict_inv b" "\<forall>e \<in> set (entries_left it). valid (fst e)"
  shows "\<exists>b' r. dict_cmp_loop ty cmp (latte_iterator_new dict_iterator_func it) b = Some (b', r)
    \<and> dict_inv b' \<and> dict_map b' = dict_map b
    \<and> (r = 0 \<longleftrightarrow> (\<forall>(k, v) \<in> set (entries_left it). \<exists>w. dict_map b k = Some w \<and> cmp v w = 0))"
  using assms
proof (induction "entries_left it" arbitrary: it b)
  case Nil
  from dict_iter.has_next_step [OF Nil.prems(1)] Nil obtain it1 where
    "it_has_next dict_iterator_func it = Some (it1, False)" by auto
  with Nil show ?case
    by (subst dict_cmp_loop.simps) (auto simp: latte_iterator_has_next_def latte_iterator_new_def)
next
  case (Cons e es)
  note left = Cons.hyps(2) [symmetric]
  from dict_iter.has_next_step [OF Cons.prems(1)] obtain it1 where
    it1: "it_has_next dict_iterator_func it = Some (it1, True)" "dict_iter_ready it1"
      "map Some (entries_left it1) = Some e # map Some es" by (auto simp: left)
  from dict_iter.next_step [OF it1(2,3)] obtain it2 where
    it2: "it_next dict_iterator_func it1 = Some (it2, Some e)" "dict_iter_between it2" "es = entries_left it2" by auto
  obtain k v where e: "e = (k, v)" by fastforce
  have k: "valid k" and vs: "\<forall>e \<in> set (entries_left it2). valid (fst e)"
    using Cons.prems(3) it2(3) by (auto simp: e left)
  let ?loop = "dict_cmp_loop ty cmp (latte_iterator_new dict_iterator_func it)"
  note unfold = latte_iterator_has_next_def latte_iterator_next_def latte_iterator_new_def
  show ?case
  proof (rule dict_find_law [OF Cons.prems(2) k], goal_cases)
    case (1 b1)
    then have "?loop b = Some (b1, - 1)" using it1(1) it2(1) e
      by (subst dict_cmp_loop.simps) (simp add: unfold)
    with 1 show ?thesis by (auto simp: e left)
  next
    case (2 b1 l w)
    then have entry: "dict_entry_at b1 l = Some (k, w)" by (simp add: loc_ok_entry)
    show ?thesis
    proof (cases "cmp v w = 0")
      case False
      then have "?loop b = Some (b1, cmp v w)" using it1(1) it2(1) e 2(1) entry
        by (subst dict_cmp_loop.simps, cases l) (simp add: unfold)
      with 2 False show ?thesis by (auto simp: e left)
    next
      case True
      then have "?loop b = dict_cmp_loop ty cmp (latte_iterator_new dict_iterator_func it2) b1"
        using it1(1) it2(1) e 2(1) entry
        by (subst dict_cmp_loop.simps, cases l) (simp add: unfold)
      with Cons.hyps(1) [OF it2(3,2) 2(3) vs] 2 True it2(3) show ?thesis
        by (auto simp: e left)
    qed
  qed
qed

lemma private_dict_cmp_ok:
  assumes a: "dict_inv a" and b: "dict_inv b" and eq: "\<And>v w. cmp v w = 0 \<longleftrightarrow> v = w"
    and n: "dict_size a < 2 ^ 31" "dict_size b < 2 ^ 31"
  shows "\<exists>b' r. private_dict_cmp ty a b cmp = Some (b', r) \<and> dict_map b' = dict_map b
    \<and> (r = 0 \<longleftrightarrow> dict_map a = dict_map b)"
proof (cases "dict_size a = dict_size b")
  case False
  then have "signed_take_bit 31 (int (dict_size a) - int (dict_size b)) = int (dict_size a) - int (dict_size b)"
    using n by (intro signed_take_bit_int_eq_self) auto
  moreover have "dict_map a \<noteq> dict_map b" using False dict_size_card [OF a] dict_size_card [OF b] by auto
  ultimately show ?thesis using False by (simp add: private_dict_cmp_def)
next
  case True
  note it = dict_iterator_init_left [OF dict_inv_ok [OF a]]
  from dict_cmp_loop_ok [OF it(1) b, of cmp] dict_inv_valid [OF a] obtain b' r where
    r: "dict_cmp_loop ty cmp (latte_iterator_new dict_iterator_func (dict_iterator_init a)) b = Some (b', r)"
      "dict_map b' = dict_map b" "r = 0 \<longleftrightarrow> (\<forall>(k, v) \<in> set (dict_list a). dict_map b k = Some v)"
    unfolding it(2) eq by (metis (no_types, lifting) case_prodE case_prodI2 fst_conv option.inject)
  have "(\<forall>(k, v) \<in> set (dict_list a). dict_map b k = Some v) \<longleftrightarrow> dict_map a \<subseteq>\<^sub>m dict_map b"
    using dict_okD(5) [OF dict_inv_ok [OF a]] by (force simp: dict_map_def map_le_def map_of_eq_Some_iff)
  also have "\<dots> \<longleftrightarrow> dict_map a = dict_map b"
  proof
    assume le: "dict_map a \<subseteq>\<^sub>m dict_map b"
    then have "dom (dict_map a) \<subseteq> dom (dict_map b)" by (rule map_le_implies_dom_le)
    moreover have "card (dom (dict_map a)) = card (dom (dict_map b))"
      using True dict_size_card [OF a] dict_size_card [OF b] by simp
    ultimately have "dom (dict_map a) = dom (dict_map b)"
      by (intro card_subset_eq) (auto simp: dict_map_def finite_dom_map_of)
    with le show "dict_map a = dict_map b" by (metis map_le_antisym map_le_def)
  qed simp
  finally show ?thesis using r True by (auto simp: private_dict_cmp_def dict_get_latte_iterator_def)
qed

end

section \<open>Properties\<close>

text \<open>C38. Incremental rehashing is invisible: \<open>dict_rehash\<close> runs without undefined behaviour, keeps the invariant and neither
  loses nor duplicates an entry, for every number of steps up to 214748364. For more the number of empty buckets it may
  visit, ten for each step, overflows an \<open>int\<close>.\<close>

theorem dict_rehash_keeps_entries:
  assumes "dict_ok ty d"
  shows "if n \<le> 214748364
    then \<exists>d' r. dict_rehash ty d n = Some (d', r) \<and> dict_ok ty d' \<and> mset (dict_list d') = mset (dict_list d)
    else dict_rehash ty d n = None"
  using dict_rehash_ok [OF assms, of n] by (auto simp: dict_rehash_def checked32_def)

text \<open>Destroying a dictionary empties both tables.\<close>

lemma clear_loop_ok:
  "ht_used d t = length (concat (drop i (ht_table d t))) \<Longrightarrow> i + n = length (ht_table d t) \<Longrightarrow>
   \<exists>d'. clear_loop d t i n = Some d' \<and> (\<forall>t'. t' \<noteq> t \<longrightarrow> ht_table d' t' = ht_table d t' \<and> ht_used d' t' = ht_used d t')
     \<and> ht_size_exp d' = ht_size_exp d \<and> rehashidx d' = rehashidx d \<and> pauserehash d' = pauserehash d"
proof (induction n arbitrary: d i)
  case (Suc n)
  show ?case
  proof (cases "ht_used d t = 0")
    case False
    let ?he = "ht_table d t ! i"
    have i: "i < length (ht_table d t)" using Suc.prems(2) by simp
    then have u: "ht_used d t = length ?he + length (concat (drop (Suc i) (ht_table d t)))"
      using Suc.prems(1) by (simp add: Cons_nth_drop_Suc [symmetric])
    define d1 where "d1 = d\<lparr>ht_table := (ht_table d)(t := (ht_table d t)[i := []]), ht_used := (ht_used d)(t := ht_used d t - length ?he)\<rparr>"
    have le: "length ?he \<le> ht_used d t" using u by simp
    have "\<exists>d'. clear_loop d1 t (i + 1) n = Some d' \<and> (\<forall>t'. t' \<noteq> t \<longrightarrow> ht_table d' t' = ht_table d1 t' \<and> ht_used d' t' = ht_used d1 t')
     \<and> ht_size_exp d' = ht_size_exp d1 \<and> rehashidx d' = rehashidx d1 \<and> pauserehash d' = pauserehash d1"
      using Suc.prems(2) u by (intro Suc.IH) (simp_all add: d1_def Suc_eq_plus1 [symmetric])
    moreover have "clear_loop d t i (Suc n) = clear_loop d1 t (i + 1) n"
      using False i le by (simp add: get_at_def set_bucket_def put_at_def d1_def)
    ultimately show ?thesis by (simp add: d1_def)
  qed simp
qed simp

lemma dict_clear_ok:
  assumes "ht_used d t = length (concat (ht_table d t))" "DICTHT_SIZE (ht_size_exp d t) = length (ht_table d t)"
  shows "\<exists>d'. dict_clear d t = Some d' \<and> ht_table d' t = [] \<and> ht_used d' t = 0
    \<and> (\<forall>t'. t' \<noteq> t \<longrightarrow> ht_table d' t' = ht_table d t' \<and> ht_used d' t' = ht_used d t' \<and> ht_size_exp d' t' = ht_size_exp d t')"
  using clear_loop_ok [of d t 0 "length (ht_table d t)"] assms by (auto simp: dict_clear_def dict_reset_def)

lemma dict_destroy_empties:
  assumes "dict_ok ty d"
  shows "\<exists>d'. dict_destroy d = Some d' \<and> dict_list d' = []"
proof -
  note k = dict_okD [OF assms]
  have sz: "DICTHT_SIZE (ht_size_exp d t) = length (ht_table d t)" if "t < 2" for t
    using k(1,2) that by (cases "t = 0") (auto simp: tab_ok_def DICTHT_SIZE_def less_2_cases_iff One_nat_def split: if_splits)
  from dict_clear_ok [of d 0] k(3) sz [of 0] obtain d1 where
    d1: "dict_clear d 0 = Some d1" "ht_table d1 0 = []" "ht_table d1 1 = ht_table d 1" "ht_used d1 1 = ht_used d 1" "ht_size_exp d1 1 = ht_size_exp d 1"
    by auto
  from dict_clear_ok [of d1 1] d1 k(4) sz [of 1] obtain d2 where "dict_clear d1 1 = Some d2" "ht_table d2 1 = []" "ht_table d2 0 = []" by auto
  then show ?thesis using d1(1) by (simp add: dict_destroy_def dict_list_def)
qed

text \<open>A dictionary with a pending rehashing, keyed by integers that are their own hashes.\<close>

definition demo_type :: "(u64, nat) dict_func" where
  "demo_type = \<lparr>hashFunction = id, keyDup = None, valDup = None, keyCompare = None, expandAllowed = None\<rparr>"

definition demo_dict :: "(u64, nat) dict" where
  "demo_dict = \<lparr>ht_table = (\<lambda>t. if t = 0 then [[], [(5, 50), (9, 90)], [], []] else if t = 1 then [[], [], [], [(3, 30)], [], [], [], []] else []),
     ht_used = (\<lambda>t. if t = 0 then 2 else if t = 1 then 1 else 0), rehashidx = 0, pauserehash = 0,
     ht_size_exp = (\<lambda>t. if t = 0 then 2 else if t = 1 then 3 else 0)\<rparr>"

lemma all_nth_enumerate: "(\<forall>i < length xs. P i (xs ! i)) \<longleftrightarrow> (\<forall>(i, x) \<in> set (enumerate 0 xs). P i x)"
  by (force simp: in_set_enumerate_eq)

lemma tab_ok_enumerate:
  "exp \<noteq> - 1 \<Longrightarrow> tab_ok ty exp tab \<longleftrightarrow> 2 \<le> exp \<and> exp \<le> 60 \<and> length tab = 2 ^ nat exp
     \<and> (\<forall>(i, b) \<in> set (enumerate 0 tab). \<forall>e \<in> set b. unat (hashFunction ty (fst e) AND DICTHT_SIZE_MASK exp) = i)"
  unfolding tab_ok_def all_nth_enumerate [symmetric] by simp

lemma demo_dict_ok: "dict_ok demo_type demo_dict"
proof -
  have "tab_ok demo_type 2 (ht_table demo_dict 0)" "tab_ok demo_type 3 (ht_table demo_dict 1)"
    by (simp_all add: tab_ok_enumerate demo_dict_def demo_type_def DICTHT_SIZE_MASK_def DICTHT_SIZE_def)
  then show ?thesis by (simp add: dict_ok_def dict_list_def demo_dict_def)
qed

theorem dict_rehash_keeps_entries_witness:
  "\<exists>d' r. dict_rehash demo_type demo_dict 1 = Some (d', r) \<and> dict_ok demo_type d'
    \<and> mset (dict_list d') = mset (dict_list demo_dict)"
  using dict_rehash_keeps_entries [OF demo_dict_ok, of 1] by simp

text \<open>C39. A client loop over a dictionary, in the middle of a rehashing or not, ends and is given
  every entry exactly once.\<close>

theorem dict_iterator_complete:
  assumes "dict_ok ty d"
  shows "iterate_all (dict_get_latte_iterator d) = Some (map Some (dict_list d))"
  using dict_iter.iterate_all_rest [OF dict_iterator_init_left(1) [OF assms]] dict_iterator_init_left(2) [OF assms]
  by (simp add: dict_get_latte_iterator_def)

theorem dict_iterator_complete_witness:
  "iterate_all (dict_get_latte_iterator demo_dict) = Some [Some (5, 50), Some (9, 90), Some (3, 30)]"
  using dict_iterator_complete [OF demo_dict_ok] by (simp add: dict_list_def demo_dict_def)

text \<open>\<open>private_dict_cmp\<close> decides equality: with a comparison of values that is 0 exactly on equal
  values, and fewer than 2^31 entries, it ends with 0 exactly when the dictionaries are the same map, and
  leaves the map of the second one unchanged.\<close>

theorem private_dict_cmp_exact:
  assumes "dict_type ty (\<lambda>_. True)" "dict_ok ty a" "dict_ok ty b" "dict_size a < 2 ^ 31" "dict_size b < 2 ^ 31"
    "\<And>v w. cmp v w = 0 \<longleftrightarrow> v = w"
  shows "\<exists>b' r. private_dict_cmp ty a b cmp = Some (b', r) \<and> dict_map b' = dict_map b
    \<and> (r = 0 \<longleftrightarrow> dict_map a = dict_map b)"
  using dict_type.private_dict_cmp_ok [OF assms(1), of a b cmp] dict_type.dict_inv_def [OF assms(1)] assms by simp

theorem private_dict_cmp_exact_witness:
  "\<exists>b' r. private_dict_cmp demo_type demo_dict dict_new (\<lambda>v w. int v - int w) = Some (b', r)
    \<and> dict_map b' = dict_map (dict_new :: (u64, nat) dict) \<and> (r = 0 \<longleftrightarrow> dict_map demo_dict = dict_map dict_new)"
proof (rule private_dict_cmp_exact)
  show d: "dict_type demo_type (\<lambda>_. True)"
    by unfold_locales (simp_all add: demo_type_def dict_compare_keys_def dup_key_def dup_val_def)
  show "dict_ok demo_type demo_dict" by (rule demo_dict_ok)
  show "dict_ok demo_type dict_new" using dict_type.dict_inv_ok [OF d dict_type.dict_new_inv(1) [OF d]] .
qed (simp_all add: dict_size_def demo_dict_def dict_new_def dict_init_def dict_reset_def)

text \<open>The iterator must not be used without \<open>has_next\<close>: the first \<open>next\<close> reads a NULL entry,
  although the code means to guard against it, and \<open>dict_resize\<close> never shrinks a table: it compares
  the flag with the wrong constant of its enumeration and fails on every dictionary.\<close>

theorem dict_guards_are_dead:
  "latte_iterator_next (dict_get_latte_iterator d) = None \<and> dict_resize d = (d, DICT_ERR)"
  by (simp add: dict_get_latte_iterator_def latte_iterator_next_def latte_iterator_new_def dict_iterator_func_def
      dict_iterator_init_def protected_dict_iterator_next_def get_at_def dict_resize_def dict_can_resize_def
      DICT_RESIZE_ENABLE_def)

end
