(* ===== verification/Siphash.thy ===== *)
theory Siphash
  imports Prelude
begin

text \<open>
  \<open>src/dict/siphash.c\<close>: SipHash 1-2 and its case-insensitive variant, and the two generic hash
  functions of \<open>dict.c\<close> that apply them with the seed of the process. The seed is a parameter of 16
  bytes. The input is the list of its bytes, so \<open>inlen\<close> is its length.
\<close>

unbundle bit_operations_syntax

section \<open>The code\<close>

definition siptlw :: "byte \<Rightarrow> byte" where
  "siptlw c = (if c \<ge> 65 \<and> c \<le> 90 then c + (97 - 65) else c)"

definition ROTL :: "u64 \<Rightarrow> nat \<Rightarrow> u64" where
  "ROTL x b = (push_bit b x OR drop_bit (64 - b) x)"

definition U8TO64_LE :: "byte list \<Rightarrow> u64" where
  "U8TO64_LE p =
     (ucast (p ! 0) OR push_bit 8 (ucast (p ! 1)) OR push_bit 16 (ucast (p ! 2)) OR push_bit 24 (ucast (p ! 3))
      OR push_bit 32 (ucast (p ! 4)) OR push_bit 40 (ucast (p ! 5)) OR push_bit 48 (ucast (p ! 6))
      OR push_bit 56 (ucast (p ! 7)))"

definition U8TO64_LE_NOCASE :: "byte list \<Rightarrow> u64" where
  "U8TO64_LE_NOCASE p =
     (ucast (siptlw (p ! 0)) OR push_bit 8 (ucast (siptlw (p ! 1))) OR push_bit 16 (ucast (siptlw (p ! 2)))
      OR push_bit 24 (ucast (siptlw (p ! 3))) OR push_bit 32 (ucast (siptlw (p ! 4)))
      OR push_bit 40 (ucast (siptlw (p ! 5))) OR push_bit 48 (ucast (siptlw (p ! 6)))
      OR push_bit 56 (ucast (siptlw (p ! 7))))"

type_synonym sip_state = "u64 \<times> u64 \<times> u64 \<times> u64"

definition SIPROUND :: "sip_state \<Rightarrow> sip_state" where
  "SIPROUND s =
     (case s of (v0, v1, v2, v3) \<Rightarrow>
       let v0 = v0 + v1;
           v1 = ROTL v1 13;
           v1 = v1 XOR v0;
           v0 = ROTL v0 32;
           v2 = v2 + v3;
           v3 = ROTL v3 16;
           v3 = v3 XOR v2;
           v0 = v0 + v3;
           v3 = ROTL v3 21;
           v3 = v3 XOR v0;
           v2 = v2 + v1;
           v1 = ROTL v1 17;
           v1 = v1 XOR v2;
           v2 = ROTL v2 32
       in (v0, v1, v2, v3))"

text \<open>One turn of the loop over the words of the message, and of the last word.\<close>

definition sip_word :: "u64 \<Rightarrow> sip_state \<Rightarrow> sip_state" where
  "sip_word m s =
     (case s of (v0, v1, v2, v3) \<Rightarrow>
       case SIPROUND (v0, v1, v2, v3 XOR m) of (v0, v1, v2, v3) \<Rightarrow> (v0 XOR m, v1, v2, v3))"

definition sip_init :: "byte list \<Rightarrow> sip_state" where
  "sip_init k =
     (let k0 = U8TO64_LE k;
          k1 = U8TO64_LE (drop 8 k)
      in (0x736f6d6570736575 XOR k0, 0x646f72616e646f6d XOR k1, 0x6c7967656e657261 XOR k0,
          0x7465646279746573 XOR k1))"

definition sip_final :: "sip_state \<Rightarrow> u64" where
  "sip_final s =
     (case s of (v0, v1, v2, v3) \<Rightarrow>
       case SIPROUND (SIPROUND (v0, v1, v2 XOR 0xff, v3)) of
         (v0, v1, v2, v3) \<Rightarrow> v0 XOR v1 XOR v2 XOR v3)"

text \<open>The loop \<open>for (; in != end; in += 8)\<close>; the second result is the rest of the input.\<close>

function siphash_loop :: "sip_state \<Rightarrow> byte list \<Rightarrow> sip_state \<times> byte list" where
  "siphash_loop s inp =
     (if length inp < 8 then (s, inp) else siphash_loop (sip_word (U8TO64_LE inp) s) (drop 8 inp))"
  by pat_completeness auto

termination
  by (relation "measure (\<lambda>(s, inp). length inp)") auto

function siphash_nocase_loop :: "sip_state \<Rightarrow> byte list \<Rightarrow> sip_state \<times> byte list" where
  "siphash_nocase_loop s inp =
     (if length inp < 8 then (s, inp)
      else siphash_nocase_loop (sip_word (U8TO64_LE_NOCASE inp) s) (drop 8 inp))"
  by pat_completeness auto

termination
  by (relation "measure (\<lambda>(s, inp). length inp)") auto

declare siphash_loop.simps [simp del] siphash_nocase_loop.simps [simp del]

text \<open>The switch on the number of bytes left, with its falls through.\<close>

definition siphash_tail :: "u64 \<Rightarrow> byte list \<Rightarrow> u64" where
  "siphash_tail b inp =
     (let left = length inp;
          b = (if left \<ge> 7 then b OR push_bit 48 (ucast (inp ! 6)) else b);
          b = (if left \<ge> 6 then b OR push_bit 40 (ucast (inp ! 5)) else b);
          b = (if left \<ge> 5 then b OR push_bit 32 (ucast (inp ! 4)) else b);
          b = (if left \<ge> 4 then b OR push_bit 24 (ucast (inp ! 3)) else b);
          b = (if left \<ge> 3 then b OR push_bit 16 (ucast (inp ! 2)) else b);
          b = (if left \<ge> 2 then b OR push_bit 8 (ucast (inp ! 1)) else b)
      in if left \<ge> 1 then b OR ucast (inp ! 0) else b)"

definition siphash_nocase_tail :: "u64 \<Rightarrow> byte list \<Rightarrow> u64" where
  "siphash_nocase_tail b inp =
     (let left = length inp;
          b = (if left \<ge> 7 then b OR push_bit 48 (ucast (siptlw (inp ! 6))) else b);
          b = (if left \<ge> 6 then b OR push_bit 40 (ucast (siptlw (inp ! 5))) else b);
          b = (if left \<ge> 5 then b OR push_bit 32 (ucast (siptlw (inp ! 4))) else b);
          b = (if left \<ge> 4 then b OR push_bit 24 (ucast (siptlw (inp ! 3))) else b);
          b = (if left \<ge> 3 then b OR push_bit 16 (ucast (siptlw (inp ! 2))) else b);
          b = (if left \<ge> 2 then b OR push_bit 8 (ucast (siptlw (inp ! 1))) else b)
      in if left \<ge> 1 then b OR ucast (siptlw (inp ! 0)) else b)"

definition siphash :: "byte list \<Rightarrow> byte list \<Rightarrow> u64" where
  "siphash inp k =
     (case siphash_loop (sip_init k) inp of (s, rest) \<Rightarrow>
        let b = siphash_tail (push_bit 56 (of_nat (length inp))) rest
        in sip_final (sip_word b s))"

definition siphash_nocase :: "byte list \<Rightarrow> byte list \<Rightarrow> u64" where
  "siphash_nocase inp k =
     (case siphash_nocase_loop (sip_init k) inp of (s, rest) \<Rightarrow>
        let b = siphash_nocase_tail (push_bit 56 (of_nat (length inp))) rest
        in sip_final (sip_word b s))"

definition dict_gen_hash_function :: "byte list \<Rightarrow> byte list \<Rightarrow> u64" where
  "dict_gen_hash_function seed key = siphash key seed"

definition dict_gen_case_hash_function :: "byte list \<Rightarrow> byte list \<Rightarrow> u64" where
  "dict_gen_case_hash_function seed key = siphash_nocase key seed"

section \<open>Properties\<close>

lemma U8TO64_LE_map: "8 \<le> length p \<Longrightarrow> U8TO64_LE (map siptlw p) = U8TO64_LE_NOCASE p"
proof -
  assume l: "8 \<le> length p"
  then have "map siptlw p ! 0 = siptlw (p ! 0)" by (intro nth_map) linarith
  then show ?thesis using l by (simp add: U8TO64_LE_def U8TO64_LE_NOCASE_def)
qed

lemma siphash_tail_map: "siphash_tail b (map siptlw p) = siphash_nocase_tail b p"
proof -
  have "Suc i \<le> length p \<Longrightarrow> map siptlw p ! i = siptlw (p ! i)" for i by simp
  from this [of 0] this [of 1] this [of 2] this [of 3] this [of 4] this [of 5] this [of 6]
  show ?thesis unfolding siphash_tail_def siphash_nocase_tail_def Let_def length_map by (simp cong: if_cong)
qed

lemma siphash_loop_map:
  "siphash_loop s (map siptlw p) = (case siphash_nocase_loop s p of (s, rest) \<Rightarrow> (s, map siptlw rest))"
proof (induction s p rule: siphash_nocase_loop.induct)
  case (1 s p)
  show ?case
  proof (cases "length p < 8")
    case True
    then show ?thesis
      by (subst siphash_nocase_loop.simps, subst siphash_loop.simps) simp
  next
    case False
    then have "siphash_loop s (map siptlw p) = siphash_loop (sip_word (U8TO64_LE_NOCASE p) s) (map siptlw (drop 8 p))"
      by (subst siphash_loop.simps) (simp add: U8TO64_LE_map drop_map)
    also have "\<dots> = (case siphash_nocase_loop s p of (s, rest) \<Rightarrow> (s, map siptlw rest))"
      using 1 [OF False] False siphash_nocase_loop.simps [of s p] by simp
    finally show ?thesis .
  qed
qed

lemma siphash_nocase_is_lower: "siphash_nocase inp k = siphash (map siptlw inp) k"
  by (simp add: siphash_def siphash_nocase_def siphash_loop_map siphash_tail_map case_prod_unfold)

end
