(* ===== verification/HashSet.thy ===== *)
theory HashSet
  imports SetSpec Dict Siphash
begin

text \<open>
  The dictionary types over sds keys of \<open>src/dict/dict_plugins.c\<close> and the hash set of
  \<open>src/set/hash_set.c\<close> with the dispatch of \<open>src/set/set.c\<close>. A key is the content of its sds string;
  \<open>seed\<close> is the seed of the process. The comparison keeps the lengths in variables of type \<open>int\<close>:
  it is meant for keys shorter than 2^31, which the laws require (a longer key gives \<open>memcmp\<close> a
  negative length). The values of a hash set are pointers, all NULL.
\<close>

section \<open>Dictionary types\<close>

type_synonym sds_key = "byte list"

definition dict_sds_hash :: "byte list \<Rightarrow> sds_key \<Rightarrow> u64" where
  "dict_sds_hash seed key = dict_gen_hash_function seed key"

definition dict_sds_case_hash :: "byte list \<Rightarrow> sds_key \<Rightarrow> u64" where
  "dict_sds_case_hash seed key = dict_gen_case_hash_function seed key"

definition dict_sds_key_compare :: "sds_key \<Rightarrow> sds_key \<Rightarrow> bool" where
  "dict_sds_key_compare key1 key2 =
     (let l1 = signed_take_bit 31 (int (length key1));
          l2 = signed_take_bit 31 (int (length key2))
      in if l1 \<noteq> l2 then False else take (nat l1) key1 = take (nat l1) key2)"

text \<open>\<open>strcasecmp\<close> compares up to the first NUL byte.\<close>

definition dict_sds_key_case_compare :: "sds_key \<Rightarrow> sds_key \<Rightarrow> bool" where
  "dict_sds_key_case_compare key1 key2 \<longleftrightarrow>
     map siptlw (takeWhile (\<lambda>c. c \<noteq> 0) key1) = map siptlw (takeWhile (\<lambda>c. c \<noteq> 0) key2)"

definition dict_sds_dup :: "sds_key \<Rightarrow> sds_key" where
  "dict_sds_dup key = key"

definition sds_key_set_dict_type :: "byte list \<Rightarrow> (sds_key, 'v) dict_func" where
  "sds_key_set_dict_type seed =
     \<lparr>hashFunction = dict_sds_hash seed, keyDup = None, valDup = None,
       keyCompare = Some dict_sds_key_compare, expandAllowed = None\<rparr>"

definition sds_hash_set_dict_func :: "byte list \<Rightarrow> (sds_key, ptr) dict_func" where
  "sds_hash_set_dict_func seed =
     \<lparr>hashFunction = dict_sds_hash seed, keyDup = Some dict_sds_dup, valDup = None,
       keyCompare = Some dict_sds_key_compare, expandAllowed = None\<rparr>"

section \<open>The hash set\<close>

definition private_hash_set_new :: "(sds_key, ptr) dict" where
  "private_hash_set_new = dict_new"

definition private_hash_set_add ::
  "(sds_key, ptr) dict_func \<Rightarrow> ptr \<Rightarrow> (sds_key, ptr) dict \<Rightarrow> sds_key \<Rightarrow> ((sds_key, ptr) dict \<times> int) option" where
  "private_hash_set_add ty junk hash_set element =
     do {
       (hash_set, r) \<leftarrow> dict_add_raw ty junk hash_set element;
       case r of
         Inr de \<Rightarrow> do { hash_set \<leftarrow> dict_set_val ty hash_set de NULL; Some (hash_set, 1) }
       | Inl _ \<Rightarrow> Some (hash_set, 0)
     }"

definition private_hash_set_remove ::
  "(sds_key, ptr) dict_func \<Rightarrow> (sds_key, ptr) dict \<Rightarrow> sds_key \<Rightarrow> ((sds_key, ptr) dict \<times> int) option" where
  "private_hash_set_remove ty hash_set element =
     do {
       (hash_set, r) \<leftarrow> dict_delete_key ty hash_set element;
       if r = DICT_OK
       then Some (if ht_needs_resize hash_set then fst (dict_resize hash_set) else hash_set, 1)
       else Some (hash_set, 0)
     }"

definition private_hash_set_contains ::
  "(sds_key, ptr) dict_func \<Rightarrow> (sds_key, ptr) dict \<Rightarrow> sds_key \<Rightarrow> ((sds_key, ptr) dict \<times> int) option" where
  "private_hash_set_contains ty hash_set element =
     do {
       (hash_set, de) \<leftarrow> dict_find ty hash_set element;
       Some (hash_set, if de \<noteq> None then 1 else 0)
     }"

definition private_hash_set_size :: "(sds_key, ptr) dict \<Rightarrow> nat" where
  "private_hash_set_size hash_set = dict_size hash_set"

text \<open>\<open>set_t\<close>: the data and the table of operations; \<open>set_add\<close> and the others dispatch.\<close>

record 's set_func =
  sf_add :: "'s \<Rightarrow> sds_key \<Rightarrow> ('s \<times> int) option"
  sf_contains :: "'s \<Rightarrow> sds_key \<Rightarrow> ('s \<times> int) option"
  sf_size :: "'s \<Rightarrow> nat"
  sf_remove :: "'s \<Rightarrow> sds_key \<Rightarrow> ('s \<times> int) option"

record 's set_t =
  set_data :: 's
  set_type :: "'s set_func"

definition set_new :: "'s set_func \<Rightarrow> 's \<Rightarrow> 's set_t" where
  "set_new type data = \<lparr>set_data = data, set_type = type\<rparr>"

definition set_add :: "'s set_t \<Rightarrow> sds_key \<Rightarrow> ('s set_t \<times> int) option" where
  "set_add s key = map_option (\<lambda>(d, r). (s\<lparr>set_data := d\<rparr>, r)) (sf_add (set_type s) (set_data s) key)"

definition set_contains :: "'s set_t \<Rightarrow> sds_key \<Rightarrow> ('s set_t \<times> int) option" where
  "set_contains s key = map_option (\<lambda>(d, r). (s\<lparr>set_data := d\<rparr>, r)) (sf_contains (set_type s) (set_data s) key)"

definition set_remove :: "'s set_t \<Rightarrow> sds_key \<Rightarrow> ('s set_t \<times> int) option" where
  "set_remove s key = map_option (\<lambda>(d, r). (s\<lparr>set_data := d\<rparr>, r)) (sf_remove (set_type s) (set_data s) key)"

definition set_size :: "'s set_t \<Rightarrow> nat" where
  "set_size s = sf_size (set_type s) (set_data s)"

definition hash_set_func :: "(sds_key, ptr) dict_func \<Rightarrow> ptr \<Rightarrow> (sds_key, ptr) dict set_func" where
  "hash_set_func ty junk =
     \<lparr>sf_add = private_hash_set_add ty junk, sf_contains = private_hash_set_contains ty,
       sf_size = private_hash_set_size, sf_remove = private_hash_set_remove ty\<rparr>"

definition hash_set_new :: "(sds_key, ptr) dict_func \<Rightarrow> ptr \<Rightarrow> (sds_key, ptr) dict set_t" where
  "hash_set_new ty junk = \<lparr>set_data = private_hash_set_new, set_type = hash_set_func ty junk\<rparr>"

definition set_get_iterator ::
  "(sds_key, ptr) dict set_t \<Rightarrow> ((sds_key, ptr) dict_iterator, (sds_key, ptr) entry option) latte_iterator" where
  "set_get_iterator s = dict_get_latte_iterator (set_data s)"

section \<open>The types satisfy the contract\<close>

definition short_key :: "sds_key \<Rightarrow> bool" where
  "short_key key \<longleftrightarrow> length key < 2 ^ 31"

lemma short_len: "n < 2 ^ 31 \<Longrightarrow> signed_take_bit 31 (int n) = int n"
  by (rule signed_take_bit_int_eq_self) simp_all

lemma dict_sds_key_compare_iff:
  "short_key a \<Longrightarrow> short_key b \<Longrightarrow> dict_sds_key_compare a b \<longleftrightarrow> a = b"
  by (auto simp: dict_sds_key_compare_def short_len short_key_def)

interpretation sds_keys: dict_type "sds_key_set_dict_type seed" short_key for seed
  by unfold_locales
    (simp_all add: dict_compare_keys_def sds_key_set_dict_type_def dict_sds_key_compare_iff dup_key_def dup_val_def)

interpretation sds_set: dict_type "sds_hash_set_dict_func seed" short_key for seed
  by unfold_locales
    (simp_all add: dict_compare_keys_def sds_hash_set_dict_func_def dict_sds_key_compare_iff dup_key_def
      dup_val_def dict_sds_dup_def)

section \<open>The hash set is a set\<close>

definition hs_inv :: "byte list \<Rightarrow> ptr \<Rightarrow> (sds_key, ptr) dict set_t \<Rightarrow> bool" where
  "hs_inv seed junk s \<longleftrightarrow> set_type s = hash_set_func (sds_hash_set_dict_func seed) junk
     \<and> sds_set.dict_inv seed (set_data s)"

definition hs_elems :: "(sds_key, ptr) dict set_t \<Rightarrow> sds_key set" where
  "hs_elems s = dom (dict_map (set_data s))"

definition as_bool :: "('s \<times> int) option \<Rightarrow> ('s \<times> bool) option" where
  "as_bool = map_option (\<lambda>(s, r). (s, r = 1))"

lemma hash_set_new_inv: "hs_inv seed junk (hash_set_new (sds_hash_set_dict_func seed) junk)"
  "hs_elems (hash_set_new (sds_hash_set_dict_func seed) junk) = {}"
  by (simp_all add: hs_inv_def hs_elems_def hash_set_new_def private_hash_set_new_def sds_set.dict_new_inv)

lemmas hash_set_ops = set_add_def set_remove_def set_contains_def hash_set_func_def as_bool_def
  private_hash_set_add_def private_hash_set_remove_def private_hash_set_contains_def

lemma dict_resize_fst: "fst (dict_resize d) = d"
  by (simp add: dict_resize_def dict_can_resize_def DICT_RESIZE_ENABLE_def)

lemma hash_set_add_law:
  assumes inv: "hs_inv seed junk s" and k: "short_key k" and n: "card (hs_elems s) < 2 ^ 58"
  shows "\<exists>s'. as_bool (set_add s k) = Some (s', k \<notin> hs_elems s) \<and> hs_inv seed junk s'
    \<and> hs_elems s' = insert k (hs_elems s)"
proof -
  have i: "sds_set.dict_inv seed (set_data s)" and ty: "set_type s = hash_set_func (sds_hash_set_dict_func seed) junk"
    using inv by (auto simp: hs_inv_def)
  have len: "length (dict_list (set_data s)) < 2 ^ 58"
    using sds_set.dict_list_card [OF i] n by (simp add: hs_elems_def)
  show ?thesis
  proof (rule sds_set.dict_add_raw_ok [OF i k len, of junk], goal_cases)
    case (1 d l)
    from sds_set.dict_set_val_ok [OF 1(3,4), of NULL] obtain d' where
      d': "dict_set_val (sds_hash_set_dict_func seed) d l NULL = Some d'" "sds_set.dict_inv seed d'"
        "dict_map d' = (dict_map d)(k \<mapsto> NULL)" .
    have "as_bool (set_add s k) = Some (s\<lparr>set_data := d'\<rparr>, True)"
      using 1(1) d'(1) by (simp add: hash_set_ops ty)
    moreover have "hs_elems (s\<lparr>set_data := d'\<rparr>) = insert k (hs_elems s)"
      using d'(3) 1(5) by (auto simp: hs_elems_def)
    ultimately show ?thesis using 1(2) d'(2) ty by (auto simp: hs_inv_def hs_elems_def)
  next
    case (2 d l v)
    then have "as_bool (set_add s k) = Some (s\<lparr>set_data := d\<rparr>, False)" by (simp add: hash_set_ops ty)
    moreover have "insert k (hs_elems s) = hs_elems s" using 2(2) by (auto simp: hs_elems_def)
    ultimately show ?thesis using 2 ty by (auto simp: hs_inv_def hs_elems_def)
  qed
qed

lemma hash_set_remove_law:
  assumes inv: "hs_inv seed junk s" and k: "short_key k"
  shows "\<exists>s'. as_bool (set_remove s k) = Some (s', k \<in> hs_elems s) \<and> hs_inv seed junk s'
    \<and> hs_elems s' = hs_elems s - {k}"
proof -
  have i: "sds_set.dict_inv seed (set_data s)" and ty: "set_type s = hash_set_func (sds_hash_set_dict_func seed) junk"
    using inv by (auto simp: hs_inv_def)
  from sds_set.dict_delete_key_law [OF i k] obtain d where
    d: "dict_delete_key (sds_hash_set_dict_func seed) (set_data s) k
         = Some (d, if dict_map (set_data s) k = None then DICT_ERR else DICT_OK)" "sds_set.dict_inv seed d"
      "dict_map d = (dict_map (set_data s))(k := None)" .
  have "as_bool (set_remove s k) = Some (s\<lparr>set_data := d\<rparr>, k \<in> hs_elems s)"
    using d(1) by (auto simp: hash_set_ops ty dict_resize_fst hs_elems_def)
  then show ?thesis using d(2,3) ty by (auto simp: hs_inv_def hs_elems_def)
qed

lemma hash_set_contains_law:
  assumes inv: "hs_inv seed junk s" and k: "short_key k"
  shows "\<exists>s'. as_bool (set_contains s k) = Some (s', k \<in> hs_elems s) \<and> hs_inv seed junk s'
    \<and> hs_elems s' = hs_elems s"
proof -
  have i: "sds_set.dict_inv seed (set_data s)" and ty: "set_type s = hash_set_func (sds_hash_set_dict_func seed) junk"
    using inv by (auto simp: hs_inv_def)
  show ?thesis
  proof (rule sds_set.dict_find_law [OF i k], goal_cases)
    case (1 d)
    then have "as_bool (set_contains s k) = Some (s\<lparr>set_data := d\<rparr>, False)" by (simp add: hash_set_ops ty)
    then show ?thesis using 1 ty by (auto simp: hs_inv_def hs_elems_def)
  next
    case (2 d l v)
    then have "as_bool (set_contains s k) = Some (s\<lparr>set_data := d\<rparr>, True)"
      by (cases l) (simp add: hash_set_ops ty)
    then show ?thesis using 2 ty by (auto simp: hs_inv_def hs_elems_def)
  qed
qed

interpretation hash_set: set_impl "hs_inv seed junk" hs_elems short_key "2 ^ 58"
  "\<lambda>s k. as_bool (set_add s k)" "\<lambda>s k. as_bool (set_remove s k)" "\<lambda>s k. as_bool (set_contains s k)"
  for seed junk
proof
  fix s show "finite (hs_elems s)" by (simp add: hs_elems_def dict_map_def finite_dom_map_of)
qed (rule hash_set_add_law hash_set_remove_law hash_set_contains_law; assumption)+

section \<open>Properties\<close>

text \<open>C36. A client that uses a dictionary with sds keys as a table, through \<open>dict_add\<close>,
  \<open>dict_delete_key\<close> and \<open>dict_fetch_value\<close>, gets from every sequence of operations the replies of a
  finite map, whatever the seed, while the table grows and rehashes.\<close>

theorem dict_refines_map:
  fixes cs :: "(sds_key, 'v) map_op list"
  assumes "\<forall>c \<in> set cs. short_key (op_key c)" "length cs \<le> 2 ^ 58"
  shows "\<exists>d'. map_run (dict_put (sds_key_set_dict_type seed) junk) (dict_del (sds_key_set_dict_type seed))
       (dict_fetch_value (sds_key_set_dict_type seed)) dict_new cs = Some (d', snd (map_model Map.empty cs))
     \<and> dict_ok (sds_key_set_dict_type seed) d' \<and> dict_map d' = fst (map_model Map.empty cs)
     \<and> dict_size d' = card (dom (dict_map d'))"
proof -
  have "card (dom (dict_map (dict_new :: (sds_key, 'v) dict))) + length cs \<le> 2 ^ 58"
    using assms(2) by (simp add: sds_keys.dict_new_inv)
  from sds_keys.tab.run_refines [OF sds_keys.dict_new_inv(1) assms(1) this, of seed junk]
  show ?thesis using sds_keys.dict_inv_ok sds_keys.dict_size_card
    unfolding sds_keys.dict_new_inv by metis
qed

theorem dict_refines_map_witness:
  "\<exists>d'. map_run (dict_put (sds_key_set_dict_type (replicate 16 7)) 0) (dict_del (sds_key_set_dict_type (replicate 16 7)))
       (dict_fetch_value (sds_key_set_dict_type (replicate 16 7))) dict_new [Put [1] (5 :: nat), Put [1] 6, Get [1], Del [1], Get [1]]
     = Some (d', [Done True, Done False, Found (Some 5), Done True, Found None]) \<and> dict_size d' = 0"
  using dict_refines_map [of "[Put [1] (5 :: nat), Put [1] 6, Get [1], Del [1], Get [1]]" "replicate 16 7" 0]
  by (auto simp: short_key_def)

text \<open>C37. A hash set of sds strings answers every sequence of insertions, removals and membership
  tests like a mathematical set, through the dispatch of \<open>set_t\<close>.\<close>

theorem hash_set_refines_set:
  assumes "\<forall>c \<in> set cs. short_key (op_elem c)" "length cs \<le> 2 ^ 58"
  shows "\<exists>s'. set_run (\<lambda>s k. as_bool (set_add s k)) (\<lambda>s k. as_bool (set_remove s k)) (\<lambda>s k. as_bool (set_contains s k))
       (hash_set_new (sds_hash_set_dict_func seed) junk) cs = Some (s', snd (set_model {} cs))
     \<and> hs_elems s' = fst (set_model {} cs)"
  using hash_set.run_refines [OF hash_set_new_inv assms] by blast

theorem hash_set_refines_set_witness:
  "\<exists>s'. set_run (\<lambda>s k. as_bool (set_add s k)) (\<lambda>s k. as_bool (set_remove s k)) (\<lambda>s k. as_bool (set_contains s k))
       (hash_set_new (sds_hash_set_dict_func (replicate 16 0)) 0) [Add [1], Add [1], Contains [2], Remove [1], Contains [1]]
     = Some (s', [True, False, False, True, False]) \<and> hs_elems s' = {}"
  using hash_set_refines_set [of "[Add [1], Add [1], Contains [2], Remove [1], Contains [1]]" "replicate 16 0" 0]
  by (simp add: short_key_def)

text \<open>The case-insensitive hash agrees with the case-insensitive comparison on keys without
  NUL bytes: keys that compare equal have the same hash.\<close>

theorem case_hash_respects_compare:
  assumes "0 \<notin> set a" "0 \<notin> set b" "dict_sds_key_case_compare a b"
  shows "dict_sds_case_hash seed a = dict_sds_case_hash seed b"
proof -
  have tw: "takeWhile (\<lambda>c. c \<noteq> 0) x = x" if "0 \<notin> set x" for x :: sds_key
    using that by (auto simp: takeWhile_eq_all_conv)
  have "map siptlw a = map siptlw b"
    using assms(3) unfolding dict_sds_key_case_compare_def tw [OF assms(1)] tw [OF assms(2)] .
  then show ?thesis
    by (simp add: dict_sds_case_hash_def dict_gen_case_hash_function_def siphash_nocase_is_lower)
qed

theorem case_hash_respects_compare_witness:
  "dict_sds_case_hash (replicate 16 3) [72, 101, 108, 108, 111] = dict_sds_case_hash (replicate 16 3) [104, 69, 76, 76, 79]"
  by (rule case_hash_respects_compare) (simp_all add: dict_sds_key_case_compare_def siptlw_def)

end
