(* ===== verification/DList.thy ===== *)
theory DList
  imports IterSpec
begin

text \<open>
  \<open>src/list/list.c\<close> and \<open>list.h\<close>: doubly linked lists. The nodes live in an explicit heap, a partial
  map from addresses to nodes; a pointer is an optional address and NULL is \<open>None\<close>. Reading or
  writing through NULL or an address that is not allocated is \<open>None\<close>. The address that \<open>zmalloc\<close>
  returns is a parameter \<open>new\<close> of the operations that allocate. The callbacks \<open>dup\<close> and \<open>match\<close>
  are parameters; what \<open>free\<close> does to a value is not modelled.
\<close>

section \<open>Nodes, heap and list\<close>

type_synonym addr = nat

record 'v list_node =
  prev_of :: "addr option"
  next_of :: "addr option"
  node_value :: 'v

type_synonym 'v heap = "addr \<rightharpoonup> 'v list_node"

record dlist =
  head :: "addr option"
  tail :: "addr option"
  len :: nat

definition deref :: "'v heap \<Rightarrow> addr option \<Rightarrow> 'v list_node option" where
  "deref h p = Option.bind p h"

definition set_prev :: "'v heap \<Rightarrow> addr option \<Rightarrow> addr option \<Rightarrow> 'v heap option" where
  "set_prev h p q = do { a \<leftarrow> p; n \<leftarrow> h a; Some (h(a \<mapsto> n\<lparr>prev_of := q\<rparr>)) }"

definition set_next :: "'v heap \<Rightarrow> addr option \<Rightarrow> addr option \<Rightarrow> 'v heap option" where
  "set_next h p q = do { a \<leftarrow> p; n \<leftarrow> h a; Some (h(a \<mapsto> n\<lparr>next_of := q\<rparr>)) }"

definition zfree :: "'v heap \<Rightarrow> addr option \<Rightarrow> 'v heap option" where
  "zfree h p = do { a \<leftarrow> p; n \<leftarrow> h a; Some (h(a := None)) }"

section \<open>Operations\<close>

definition list_new :: dlist where
  "list_new = \<lparr>head = None, tail = None, len = 0\<rparr>"

fun list_empty_loop :: "'v heap \<Rightarrow> addr option \<Rightarrow> nat \<Rightarrow> 'v heap option" where
  "list_empty_loop h current 0 = Some h"
| "list_empty_loop h current (Suc n) =
     do { c \<leftarrow> deref h current; h \<leftarrow> zfree h current; list_empty_loop h (next_of c) n }"

definition list_empty :: "'v heap \<Rightarrow> dlist \<Rightarrow> ('v heap \<times> dlist) option" where
  "list_empty h l =
     do { h \<leftarrow> list_empty_loop h (head l) (len l); Some (h, l\<lparr>head := None, tail := None, len := 0\<rparr>) }"

definition list_add_node_head :: "'v heap \<Rightarrow> dlist \<Rightarrow> addr \<Rightarrow> 'v \<Rightarrow> ('v heap \<times> dlist) option" where
  "list_add_node_head h l new v =
     (if len l = 0
      then Some (h(new \<mapsto> \<lparr>prev_of = None, next_of = None, node_value = v\<rparr>),
                 l\<lparr>head := Some new, tail := Some new, len := len l + 1\<rparr>)
      else do {
        h \<leftarrow> set_prev (h(new \<mapsto> \<lparr>prev_of = None, next_of = head l, node_value = v\<rparr>)) (head l) (Some new);
        Some (h, l\<lparr>head := Some new, len := len l + 1\<rparr>)
      })"

definition list_add_node_tail :: "'v heap \<Rightarrow> dlist \<Rightarrow> addr \<Rightarrow> 'v \<Rightarrow> ('v heap \<times> dlist) option" where
  "list_add_node_tail h l new v =
     (if len l = 0
      then Some (h(new \<mapsto> \<lparr>prev_of = None, next_of = None, node_value = v\<rparr>),
                 l\<lparr>head := Some new, tail := Some new, len := len l + 1\<rparr>)
      else do {
        h \<leftarrow> set_next (h(new \<mapsto> \<lparr>prev_of = tail l, next_of = None, node_value = v\<rparr>)) (tail l) (Some new);
        Some (h, l\<lparr>tail := Some new, len := len l + 1\<rparr>)
      })"

text \<open>A write through a pointer that is guarded by a test for NULL.\<close>

definition link_next :: "'v heap \<Rightarrow> addr option \<Rightarrow> addr option \<Rightarrow> 'v heap option" where
  "link_next h p q = (if p \<noteq> None then set_next h p q else Some h)"

definition link_prev :: "'v heap \<Rightarrow> addr option \<Rightarrow> addr option \<Rightarrow> 'v heap option" where
  "link_prev h p q = (if p \<noteq> None then set_prev h p q else Some h)"

definition list_insert_node ::
  "'v heap \<Rightarrow> dlist \<Rightarrow> addr option \<Rightarrow> addr \<Rightarrow> 'v \<Rightarrow> bool \<Rightarrow> ('v heap \<times> dlist) option" where
  "list_insert_node h l old_node new v after =
     do {
       old \<leftarrow> deref h old_node;
       let (nprev, nnext, l) =
         (if after
          then (old_node, next_of old, if tail l = old_node then l\<lparr>tail := Some new\<rparr> else l)
          else (prev_of old, old_node, if head l = old_node then l\<lparr>head := Some new\<rparr> else l));
       h \<leftarrow> link_next (h(new \<mapsto> \<lparr>prev_of = nprev, next_of = nnext, node_value = v\<rparr>)) nprev (Some new);
       h \<leftarrow> link_prev h nnext (Some new);
       Some (h, l\<lparr>len := len l + 1\<rparr>)
     }"

definition list_del_node :: "'v heap \<Rightarrow> dlist \<Rightarrow> addr option \<Rightarrow> ('v heap \<times> dlist) option" where
  "list_del_node h l node =
     do {
       n \<leftarrow> deref h node;
       (h, l) \<leftarrow> (if prev_of n \<noteq> None then map_option (\<lambda>h. (h, l)) (set_next h (prev_of n) (next_of n))
                  else Some (h, l\<lparr>head := next_of n\<rparr>));
       n \<leftarrow> deref h node;
       (h, l) \<leftarrow> (if next_of n \<noteq> None then map_option (\<lambda>h. (h, l)) (set_prev h (next_of n) (prev_of n))
                  else Some (h, l\<lparr>tail := prev_of n\<rparr>));
       h \<leftarrow> zfree h node;
       Some (h, l\<lparr>len := len l - 1\<rparr>)
     }"

partial_function (option) for_each_delete_loop ::
  "('v \<Rightarrow> bool) \<Rightarrow> 'v heap \<Rightarrow> dlist \<Rightarrow> addr option \<Rightarrow> nat \<Rightarrow> ('v heap \<times> dlist \<times> nat) option"
where
  [code]: "for_each_delete_loop need h l node deleted =
     (if node = None then Some (h, l, deleted)
      else Option.bind (deref h node) (\<lambda>n.
        if need (node_value n)
        then Option.bind (list_del_node h l node) (\<lambda>r.
               for_each_delete_loop need (fst r) (snd r) (next_of n) (deleted + 1))
        else for_each_delete_loop need h l (next_of n) deleted))"

definition list_for_each_delete ::
  "'v heap \<Rightarrow> dlist \<Rightarrow> ('v \<Rightarrow> bool) \<Rightarrow> ('v heap \<times> dlist \<times> nat) option" where
  "list_for_each_delete h l need_delete = for_each_delete_loop need_delete h l (head l) 0"

record list_iterator =
  li_next :: "addr option"
  li_head :: bool

definition list_get_iterator :: "dlist \<Rightarrow> bool \<Rightarrow> list_iterator" where
  "list_get_iterator l from_head =
     \<lparr>li_next = (if from_head then head l else tail l), li_head = from_head\<rparr>"

definition list_rewind :: "dlist \<Rightarrow> list_iterator" where
  "list_rewind l = \<lparr>li_next = head l, li_head = True\<rparr>"

definition list_rewind_tail :: "dlist \<Rightarrow> list_iterator" where
  "list_rewind_tail l = \<lparr>li_next = tail l, li_head = False\<rparr>"

definition list_next :: "'v heap \<Rightarrow> list_iterator \<Rightarrow> (list_iterator \<times> addr option) option" where
  "list_next h it =
     (if li_next it \<noteq> None
      then do {
        c \<leftarrow> deref h (li_next it);
        Some (it\<lparr>li_next := (if li_head it then next_of c else prev_of c)\<rparr>, li_next it)
      }
      else Some (it, None))"

text \<open>\<open>dup\<close> may fail (inner \<open>None\<close>); then the copy is freed. \<open>alloc\<close> is the allocator.\<close>

partial_function (option) list_dup_loop ::
  "('v heap \<Rightarrow> addr) \<Rightarrow> ('v \<Rightarrow> 'v option) \<Rightarrow> 'v heap \<Rightarrow> dlist \<Rightarrow> list_iterator \<Rightarrow> ('v heap \<times> dlist option) option"
where
  [code]: "list_dup_loop alloc dup h copy it =
     Option.bind (list_next h it) (\<lambda>r.
       if snd r = None then Some (h, Some copy)
       else Option.bind (deref h (snd r)) (\<lambda>n.
         case dup (node_value n) of
           None \<Rightarrow> Option.bind (list_empty h copy) (\<lambda>e. Some (fst e, None))
         | Some v \<Rightarrow> Option.bind (list_add_node_tail h copy (alloc h) v) (\<lambda>c.
             list_dup_loop alloc dup (fst c) (snd c) (fst r))))"

definition list_dup ::
  "('v heap \<Rightarrow> addr) \<Rightarrow> ('v \<Rightarrow> 'v option) option \<Rightarrow> 'v heap \<Rightarrow> dlist \<Rightarrow> ('v heap \<times> dlist option) option" where
  "list_dup alloc dup h orig =
     list_dup_loop alloc (case dup of Some f \<Rightarrow> f | None \<Rightarrow> Some) h list_new (list_rewind orig)"

partial_function (option) list_search_loop ::
  "('v \<Rightarrow> bool) \<Rightarrow> 'v heap \<Rightarrow> list_iterator \<Rightarrow> addr option option"
where
  [code]: "list_search_loop found h it =
     Option.bind (list_next h it) (\<lambda>r.
       if snd r = None then Some None
       else Option.bind (deref h (snd r)) (\<lambda>n.
         if found (node_value n) then Some (snd r) else list_search_loop found h (fst r)))"

definition list_search_key :: "'v heap \<Rightarrow> dlist \<Rightarrow> ('v \<Rightarrow> 'v \<Rightarrow> bool) option \<Rightarrow> 'v \<Rightarrow> addr option option" where
  "list_search_key h l mtch key =
     list_search_loop (\<lambda>v. case mtch of Some f \<Rightarrow> f v key | None \<Rightarrow> key = v) h (list_rewind l)"

fun walk :: "'v heap \<Rightarrow> ('v list_node \<Rightarrow> addr option) \<Rightarrow> addr option \<Rightarrow> nat \<Rightarrow> addr option option" where
  "walk h dir n 0 = Some n"
| "walk h dir n (Suc i) = (if n = None then Some n else do { c \<leftarrow> deref h n; walk h dir (dir c) i })"

definition list_index :: "'v heap \<Rightarrow> dlist \<Rightarrow> int \<Rightarrow> addr option option" where
  "list_index h l index =
     (if index < 0 then walk h prev_of (tail l) (nat (- index - 1))
      else walk h next_of (head l) (nat index))"

definition list_rotate_tail_to_head :: "'v heap \<Rightarrow> dlist \<Rightarrow> ('v heap \<times> dlist) option" where
  "list_rotate_tail_to_head h l =
     (if len l \<le> 1 then Some (h, l)
      else do {
        let t = tail l;
        n \<leftarrow> deref h t;
        let l = l\<lparr>tail := prev_of n\<rparr>;
        h \<leftarrow> set_next h (tail l) None;
        h \<leftarrow> set_prev h (head l) t;
        h \<leftarrow> set_prev h t None;
        h \<leftarrow> set_next h t (head l);
        Some (h, l\<lparr>head := t\<rparr>)
      })"

definition list_rotate_head_to_tail :: "'v heap \<Rightarrow> dlist \<Rightarrow> ('v heap \<times> dlist) option" where
  "list_rotate_head_to_tail h l =
     (if len l \<le> 1 then Some (h, l)
      else do {
        let hd = head l;
        n \<leftarrow> deref h hd;
        let l = l\<lparr>head := next_of n\<rparr>;
        h \<leftarrow> set_prev h (head l) None;
        h \<leftarrow> set_next h (tail l) hd;
        h \<leftarrow> set_next h hd None;
        h \<leftarrow> set_prev h hd (tail l);
        Some (h, l\<lparr>tail := hd\<rparr>)
      })"

definition list_join :: "'v heap \<Rightarrow> dlist \<Rightarrow> dlist \<Rightarrow> ('v heap \<times> dlist \<times> dlist) option" where
  "list_join h l oth =
     (if len oth = 0 then Some (h, l, oth)
      else do {
        h \<leftarrow> set_prev h (head oth) (tail l);
        (h, l) \<leftarrow> (if tail l \<noteq> None then map_option (\<lambda>h. (h, l)) (set_next h (tail l) (head oth))
                   else Some (h, l\<lparr>head := head oth\<rparr>));
        Some (h, l\<lparr>tail := tail oth, len := len l + len oth\<rparr>,
              oth\<lparr>head := None, tail := None, len := 0\<rparr>)
      })"

definition list_move_head :: "'v heap \<Rightarrow> dlist \<Rightarrow> addr option \<Rightarrow> ('v heap \<times> dlist) option" where
  "list_move_head h l node =
     do {
       n \<leftarrow> deref h node;
       if prev_of n = None then Some (h, l)
       else do {
         h \<leftarrow> set_next h (prev_of n) (next_of n);
         n \<leftarrow> deref h node;
         (h, l) \<leftarrow> (if next_of n \<noteq> None then map_option (\<lambda>h. (h, l)) (set_prev h (next_of n) (prev_of n))
                    else Some (h, l\<lparr>tail := prev_of n\<rparr>));
         h \<leftarrow> set_prev h node None;
         h \<leftarrow> set_next h node (head l);
         h \<leftarrow> link_prev h (head l) node;
         Some (h, l\<lparr>head := node\<rparr>)
       }
     }"

text \<open>\<open>list_remove\<close> clears the value of the node first when there is a \<open>free\<close> method, so that only
  the node is freed; the result is the old value.\<close>

definition list_remove :: "'v heap \<Rightarrow> dlist \<Rightarrow> addr option \<Rightarrow> ('v heap \<times> dlist \<times> 'v option) option" where
  "list_remove h l node =
     (if node = None then Some (h, l, None)
      else do {
        n \<leftarrow> deref h node;
        (h, l) \<leftarrow> list_del_node h l node;
        Some (h, l, Some (node_value n))
      })"

definition list_lpop :: "'v heap \<Rightarrow> dlist \<Rightarrow> ('v heap \<times> dlist \<times> 'v option) option" where
  "list_lpop h l = list_remove h l (head l)"

definition list_rpop :: "'v heap \<Rightarrow> dlist \<Rightarrow> ('v heap \<times> dlist \<times> 'v option) option" where
  "list_rpop h l = list_remove h l (tail l)"

section \<open>The iterator interface\<close>

record 'v latte_list_iterator =
  lli_heap :: "'v heap"
  lli_it :: list_iterator
  lli_next :: "addr option"

definition protected_latte_list_iterator_has_next ::
  "'v latte_list_iterator \<Rightarrow> ('v latte_list_iterator \<times> bool) option" where
  "protected_latte_list_iterator_has_next it =
     do {
       (li, node) \<leftarrow> list_next (lli_heap it) (lli_it it);
       if node = None then Some (it\<lparr>lli_it := li\<rparr>, False)
       else Some (it\<lparr>lli_it := li, lli_next := node\<rparr>, True)
     }"

definition protected_latte_list_iterator_next ::
  "'v latte_list_iterator \<Rightarrow> ('v latte_list_iterator \<times> 'v) option" where
  "protected_latte_list_iterator_next it =
     do {
       n \<leftarrow> deref (lli_heap it) (lli_next it);
       Some (it\<lparr>lli_next := None\<rparr>, node_value n)
     }"

definition latte_list_iterator_func :: "('v latte_list_iterator, 'v) latte_iterator_func" where
  "latte_list_iterator_func =
     \<lparr>it_has_next = protected_latte_list_iterator_has_next, it_next = protected_latte_list_iterator_next\<rparr>"

definition list_get_latte_iterator ::
  "'v heap \<Rightarrow> dlist \<Rightarrow> bool \<Rightarrow> ('v latte_list_iterator, 'v) latte_iterator" where
  "list_get_latte_iterator h l option_tail =
     latte_iterator_new latte_list_iterator_func
       \<lparr>lli_heap = h, lli_it = list_get_iterator l (\<not> option_tail), lli_next = None\<rparr>"

section \<open>Lists on the heap\<close>

text \<open>The first address of a segment, or what follows it; the last one, or what precedes it.\<close>

fun first :: "addr list \<Rightarrow> addr option \<Rightarrow> addr option" where
  "first [] n = n"
| "first (a # as) n = Some a"

definition lst :: "addr option \<Rightarrow> addr list \<Rightarrow> addr option" where
  "lst p as = (if as = [] then p else Some (last as))"

fun seg :: "'v heap \<Rightarrow> addr option \<Rightarrow> addr list \<Rightarrow> addr option \<Rightarrow> bool" where
  "seg h p [] n \<longleftrightarrow> True"
| "seg h p (a # as) n \<longleftrightarrow> (\<exists>v. h a = Some \<lparr>prev_of = p, next_of = first as n, node_value = v\<rparr>) \<and> seg h (Some a) as n"

definition dlist_ok :: "'v heap \<Rightarrow> dlist \<Rightarrow> addr list \<Rightarrow> bool" where
  "dlist_ok h l as \<longleftrightarrow> distinct as \<and> seg h None as None
     \<and> head l = first as None \<and> tail l = lst None as \<and> len l = length as"

definition vals :: "'v heap \<Rightarrow> addr list \<Rightarrow> 'v list" where
  "vals h as = map (\<lambda>a. node_value (the (h a))) as"

text \<open>Two heaps with the same nodes and values.\<close>

definition same_vals :: "'v heap \<Rightarrow> 'v heap \<Rightarrow> bool" where
  "same_vals h h' \<longleftrightarrow> (\<forall>a. map_option node_value (h' a) = map_option node_value (h a))"

lemma lst_simps [simp]: "lst p [] = p" "lst p (as @ [a]) = Some a" "lst p (a # as) = lst (Some a) as"
  by (auto simp: lst_def)

lemma lst_append [simp]: "lst p (as @ bs) = lst (lst p as) bs"
  by (simp add: lst_def)

lemma first_append [simp]: "first (as @ bs) n = first as (first bs n)"
  by (cases as) auto

lemma first_None [simp]: "first as None = None \<longleftrightarrow> as = []"
  by (cases as) auto

lemma lst_None [simp]: "lst None as = None \<longleftrightarrow> as = []"
  by (simp add: lst_def)

lemma seg_append [simp]: "seg h p (as @ bs) n \<longleftrightarrow> seg h p as (first bs n) \<and> seg h (lst p as) bs n"
  by (induction as arbitrary: p) auto

lemma seg_cong: "(\<And>a. a \<in> set as \<Longrightarrow> h' a = h a) \<Longrightarrow> seg h p as n \<Longrightarrow> seg h' p as n"
  by (induction as arbitrary: p) auto

lemma seg_alloc: "seg h p as n \<Longrightarrow> a \<in> set as \<Longrightarrow> h a \<noteq> None"
  by (induction as arbitrary: p) auto

lemma same_vals_refl [simp]: "same_vals h h"
  by (simp add: same_vals_def)

lemma same_vals_trans [trans]: "same_vals h h1 \<Longrightarrow> same_vals h1 h2 \<Longrightarrow> same_vals h h2"
  by (simp add: same_vals_def)

lemma vals_same: "same_vals h h' \<Longrightarrow> (\<And>a. a \<in> set as \<Longrightarrow> h a \<noteq> None) \<Longrightarrow> vals h' as = vals h as"
proof -
  assume s: "same_vals h h'" and al: "\<And>a. a \<in> set as \<Longrightarrow> h a \<noteq> None"
  have "node_value (the (h' a)) = node_value (the (h a))" if "a \<in> set as" for a
    using s [unfolded same_vals_def, rule_format, of a] al [OF that] by (cases "h a"; cases "h' a") auto
  then show ?thesis by (simp add: vals_def)
qed

lemma vals_cong: "(\<And>a. a \<in> set as \<Longrightarrow> h' a = h a) \<Longrightarrow> vals h' as = vals h as"
  by (simp add: vals_def)

lemma vals_simps [simp]: "vals h [] = []" "vals h (a # as) = node_value (the (h a)) # vals h as"
  "vals h (as @ bs) = vals h as @ vals h bs"
  by (simp_all add: vals_def)

lemma set_at [simp]:
  "set_prev h (Some a) q = map_option (\<lambda>n. h(a \<mapsto> n\<lparr>prev_of := q\<rparr>)) (h a)"
  "set_next h (Some a) q = map_option (\<lambda>n. h(a \<mapsto> n\<lparr>next_of := q\<rparr>)) (h a)"
  by (cases "h a"; simp add: set_prev_def set_next_def)+

lemma deref_at [simp]: "deref h (Some a) = h a"
  by (simp add: deref_def)

subsection \<open>Writing the ends of a segment\<close>

lemma set_next_last:
  assumes "seg h p as n" "distinct as" "as \<noteq> []"
  obtains h' where "set_next h (lst q as) m = Some h'" "seg h' p as m" "same_vals h h'"
    "\<forall>b. b \<noteq> last as \<longrightarrow> h' b = h b"
proof -
  obtain xs a where as: "as = xs @ [a]" using assms(3) by (metis append_butlast_last_id)
  with assms obtain v where v: "h a = Some \<lparr>prev_of = lst p xs, next_of = n, node_value = v\<rparr>" by auto
  define h' where "h' = h(a \<mapsto> \<lparr>prev_of = lst p xs, next_of = m, node_value = v\<rparr>)"
  have "set_next h (lst q as) m = Some h'" using v by (simp add: set_next_def as h'_def)
  moreover have "seg h' p xs (Some a)"
    by (rule seg_cong [where h = h]) (use assms as in \<open>auto simp: h'_def\<close>)
  then have "seg h' p as m" by (simp add: as h'_def)
  moreover have "same_vals h h'" using v by (simp add: same_vals_def h'_def)
  moreover have "\<forall>b. b \<noteq> last as \<longrightarrow> h' b = h b" by (simp add: as h'_def)
  ultimately show ?thesis using that by blast
qed

lemma set_prev_first:
  assumes "seg h p as n" "distinct as" "as \<noteq> []"
  obtains h' where "set_prev h (first as q) m = Some h'" "seg h' m as n" "same_vals h h'"
    "\<forall>b. b \<noteq> hd as \<longrightarrow> h' b = h b"
proof -
  obtain a xs where as: "as = a # xs" using assms(3) by (cases as) auto
  with assms obtain v where v: "h a = Some \<lparr>prev_of = p, next_of = first xs n, node_value = v\<rparr>" by auto
  define h' where "h' = h(a \<mapsto> \<lparr>prev_of = m, next_of = first xs n, node_value = v\<rparr>)"
  have "set_prev h (first as q) m = Some h'" using v by (simp add: set_prev_def as h'_def)
  moreover have "seg h' (Some a) xs n"
    by (rule seg_cong [where h = h]) (use assms as in \<open>auto simp: h'_def\<close>)
  then have "seg h' m as n" by (simp add: as h'_def)
  moreover have "same_vals h h'" using v by (simp add: same_vals_def h'_def)
  moreover have "\<forall>b. b \<noteq> hd as \<longrightarrow> h' b = h b" by (simp add: as h'_def)
  ultimately show ?thesis using that by blast
qed

text \<open>The guarded writes: an empty segment needs none.\<close>

lemma link_next_ok:
  assumes "seg h p as n" "distinct as"
  obtains h' where "link_next h (lst None as) m = Some h'" "seg h' p as m" "same_vals h h'"
    "\<forall>b. b \<notin> set as \<longrightarrow> h' b = h b"
proof (cases "as = []")
  case True
  then show ?thesis using that [of h] by (simp add: link_next_def)
next
  case False
  from set_next_last [OF assms False, of None m] obtain h' where
    "set_next h (lst None as) m = Some h'" "seg h' p as m" "same_vals h h'" "\<forall>b. b \<noteq> last as \<longrightarrow> h' b = h b" .
  moreover from this(4) have "\<forall>b. b \<notin> set as \<longrightarrow> h' b = h b" using last_in_set [OF False] by metis
  ultimately show ?thesis using False by (intro that [of h']) (simp_all add: link_next_def)
qed

lemma link_prev_ok:
  assumes "seg h p as n" "distinct as"
  obtains h' where "link_prev h (first as None) m = Some h'" "seg h' m as n" "same_vals h h'"
    "\<forall>b. b \<notin> set as \<longrightarrow> h' b = h b"
proof (cases "as = []")
  case True
  then show ?thesis using that [of h] by (simp add: link_prev_def)
next
  case False
  from set_prev_first [OF assms False, of None m] obtain h' where
    "set_prev h (first as None) m = Some h'" "seg h' m as n" "same_vals h h'" "\<forall>b. b \<noteq> hd as \<longrightarrow> h' b = h b" .
  moreover from this(4) have "\<forall>b. b \<notin> set as \<longrightarrow> h' b = h b" using hd_in_set [OF False] by metis
  ultimately show ?thesis using False by (intro that [of h']) (simp_all add: link_prev_def)
qed

text \<open>The two writes that take a node out of its list.\<close>

lemma unlink_ok:
  assumes "seg h None (xs @ a # ys) None" "distinct (xs @ a # ys)"
  obtains h1 h2 v where "h a = Some \<lparr>prev_of = lst None xs, next_of = first ys None, node_value = v\<rparr>"
    "link_next h (lst None xs) (first ys None) = Some h1" "h1 a = h a"
    "link_prev h1 (first ys None) (lst None xs) = Some h2" "h2 a = h a"
    "seg h2 None xs (first ys None)" "seg h2 (lst None xs) ys None" "same_vals h h2"
    "\<forall>b. b \<notin> set xs \<and> b \<notin> set ys \<longrightarrow> h2 b = h b"
proof -
  have sx: "seg h None xs (Some a)" and sy: "seg h (Some a) ys None" and d: "distinct xs" "distinct ys"
    "a \<notin> set xs" "a \<notin> set ys" "set xs \<inter> set ys = {}"
    using assms by auto
  obtain v where v: "h a = Some \<lparr>prev_of = lst None xs, next_of = first ys None, node_value = v\<rparr>" using assms by auto
  from link_next_ok [OF sx d(1)] obtain h1 where
    h1: "link_next h (lst None xs) (first ys None) = Some h1" "seg h1 None xs (first ys None)" "same_vals h h1"
      "\<forall>b. b \<notin> set xs \<longrightarrow> h1 b = h b" .
  have "seg h1 (Some a) ys None" by (rule seg_cong [OF _ sy]) (use h1(4) d in auto)
  from link_prev_ok [OF this d(2)] obtain h2 where
    h2: "link_prev h1 (first ys None) (lst None xs) = Some h2" "seg h2 (lst None xs) ys None" "same_vals h1 h2"
      "\<forall>b. b \<notin> set ys \<longrightarrow> h2 b = h1 b" .
  have "seg h2 None xs (first ys None)" by (rule seg_cong [OF _ h1(2)]) (use h2(4) d in auto)
  then show ?thesis
    using v h1(1,4) h2(1,2,4) d(3,4) same_vals_trans [OF h1(3) h2(3)] by (intro that [of v h1 h2]) auto
qed

lemma guarded_next:
  "(if p \<noteq> None then map_option (\<lambda>h. (h, l)) (set_next h p q) else Some (h, l\<lparr>head := q\<rparr>))
   = map_option (\<lambda>h. (h, if p = None then l\<lparr>head := q\<rparr> else l)) (link_next h p q)"
  by (cases p) (simp_all add: link_next_def option.map_comp comp_def)

lemma guarded_prev:
  "(if p \<noteq> None then map_option (\<lambda>h. (h, l)) (set_prev h p q) else Some (h, l\<lparr>tail := q\<rparr>))
   = map_option (\<lambda>h. (h, if p = None then l\<lparr>tail := q\<rparr> else l)) (link_prev h p q)"
  by (cases p) (simp_all add: link_prev_def option.map_comp comp_def)

section \<open>The operations on lists\<close>

lemma dlist_okD:
  "dlist_ok h l as \<Longrightarrow> distinct as" "dlist_ok h l as \<Longrightarrow> seg h None as None"
  "dlist_ok h l as \<Longrightarrow> head l = first as None" "dlist_ok h l as \<Longrightarrow> tail l = lst None as"
  "dlist_ok h l as \<Longrightarrow> len l = length as"
  by (simp_all add: dlist_ok_def)

lemma dlist_ok_alloc: "dlist_ok h l as \<Longrightarrow> a \<in> set as \<Longrightarrow> h a \<noteq> None"
  using seg_alloc dlist_okD(2) by metis

lemma list_del_node_law:
  assumes ok: "dlist_ok h l (xs @ a # ys)"
  obtains h' l' where "list_del_node h l (Some a) = Some (h', l')" "dlist_ok h' l' (xs @ ys)"
    "vals h' (xs @ ys) = vals h (xs @ ys)" "\<forall>b. b \<notin> set (xs @ ys) \<longrightarrow> h' b = (h(a := None)) b"
proof -
  note k = dlist_okD [OF ok]
  from unlink_ok [OF k(2,1)] obtain h1 h2 v where
    n: "h a = Some \<lparr>prev_of = lst None xs, next_of = first ys None, node_value = v\<rparr>"
      "link_next h (lst None xs) (first ys None) = Some h1" "h1 a = h a"
      "link_prev h1 (first ys None) (lst None xs) = Some h2" "h2 a = h a"
      "seg h2 None xs (first ys None)" "seg h2 (lst None xs) ys None" "same_vals h h2"
      "\<forall>b. b \<notin> set xs \<and> b \<notin> set ys \<longrightarrow> h2 b = h b" .
  let ?h = "h2(a := None)"
  let ?l = "(let l = if xs = [] then l\<lparr>head := first ys None\<rparr> else l in
     if ys = [] then l\<lparr>tail := lst None xs\<rparr> else l)\<lparr>len := len l - 1\<rparr>"
  have "list_del_node h l (Some a) = Some (?h, ?l)"
    unfolding list_del_node_def guarded_next guarded_prev using n(1-5)
    by (simp add: deref_def zfree_def Let_def)
  moreover have "seg ?h None xs (first ys None)" "seg ?h (lst None xs) ys None"
    using n(6,7) k(1) by (auto elim!: seg_cong [rotated])
  then have "dlist_ok ?h ?l (xs @ ys)"
    using k by (cases xs rule: rev_cases; cases ys rule: rev_cases) (auto simp: dlist_ok_def)
  moreover have "vals ?h (xs @ ys) = vals h2 (xs @ ys)" using k(1) by (intro vals_cong) auto
  then have "vals ?h (xs @ ys) = vals h (xs @ ys)"
    using vals_same [OF n(8), of "xs @ ys"] dlist_ok_alloc [OF ok] by fastforce
  moreover have "\<forall>b. b \<notin> set (xs @ ys) \<longrightarrow> ?h b = (h(a := None)) b" using n(9) by auto
  ultimately show ?thesis using that by blast
qed

text \<open>A fresh node may be written before the list is changed.\<close>

lemma seg_fresh: "seg h p as n \<Longrightarrow> h new = None \<Longrightarrow> seg (h(new \<mapsto> x)) p as n"
  using seg_alloc [of h p as n new] by (auto elim!: seg_cong [rotated])

lemma fresh_notin: "dlist_ok h l as \<Longrightarrow> h new = None \<Longrightarrow> new \<notin> set as"
  using dlist_ok_alloc by blast

lemma vals_fresh: "dlist_ok h l as \<Longrightarrow> h new = None \<Longrightarrow> vals (h(new \<mapsto> x)) as = vals h as"
  using fresh_notin by (intro vals_cong) auto

lemma list_add_node_head_law:
  assumes ok: "dlist_ok h l as" and new: "h new = None"
  obtains h' l' where "list_add_node_head h l new v = Some (h', l')" "dlist_ok h' l' (new # as)"
    "vals h' (new # as) = v # vals h as" "\<forall>b. b \<notin> set (new # as) \<longrightarrow> h' b = h b"
proof -
  note k = dlist_okD [OF ok] and nin = fresh_notin [OF ok new]
  let ?n = "\<lparr>prev_of = None, next_of = first as None, node_value = v\<rparr>"
  from link_prev_ok [OF seg_fresh [OF k(2) new] k(1)] obtain h' where
    h': "link_prev (h(new \<mapsto> ?n)) (first as None) (Some new) = Some h'" "seg h' (Some new) as None"
      "same_vals (h(new \<mapsto> ?n)) h'" "\<forall>b. b \<notin> set as \<longrightarrow> h' b = (h(new \<mapsto> ?n)) b" .
  have add: "list_add_node_head h l new v =
      Some (h', (if as = [] then l\<lparr>tail := Some new\<rparr> else l)\<lparr>head := Some new, len := len l + 1\<rparr>)"
    using h'(1) k by (cases as) (auto simp: list_add_node_head_def link_prev_def)
  have "dlist_ok h' ((if as = [] then l\<lparr>tail := Some new\<rparr> else l)\<lparr>head := Some new, len := len l + 1\<rparr>) (new # as)"
    using h'(2,4) k nin by (cases as) (auto simp: dlist_ok_def)
  moreover have "vals h' as = vals h as"
    using vals_same [OF h'(3), of as] vals_fresh [OF ok new] dlist_ok_alloc [OF ok] by auto
  ultimately show ?thesis using that [OF add] h'(4) nin by simp
qed

lemma list_add_node_tail_law:
  assumes ok: "dlist_ok h l as" and new: "h new = None"
  obtains h' l' where "list_add_node_tail h l new v = Some (h', l')" "dlist_ok h' l' (as @ [new])"
    "vals h' (as @ [new]) = vals h as @ [v]" "\<forall>b. b \<notin> set (as @ [new]) \<longrightarrow> h' b = h b"
proof -
  note k = dlist_okD [OF ok] and nin = fresh_notin [OF ok new]
  let ?n = "\<lparr>prev_of = lst None as, next_of = None, node_value = v\<rparr>"
  from link_next_ok [OF seg_fresh [OF k(2) new] k(1)] obtain h' where
    h': "link_next (h(new \<mapsto> ?n)) (lst None as) (Some new) = Some h'" "seg h' None as (Some new)"
      "same_vals (h(new \<mapsto> ?n)) h'" "\<forall>b. b \<notin> set as \<longrightarrow> h' b = (h(new \<mapsto> ?n)) b" .
  let ?l = "(if as = [] then l\<lparr>head := Some new\<rparr> else l)\<lparr>tail := Some new, len := len l + 1\<rparr>"
  have add: "list_add_node_tail h l new v = Some (h', ?l)"
    using h'(1) k by (cases as rule: rev_cases) (auto simp: list_add_node_tail_def link_next_def)
  have "dlist_ok h' ?l (as @ [new])"
    using h'(2,4) k nin by (cases as rule: rev_cases) (auto simp: dlist_ok_def)
  moreover have "vals h' as = vals h as"
    using vals_same [OF h'(3), of as] vals_fresh [OF ok new] dlist_ok_alloc [OF ok] by auto
  ultimately show ?thesis using that [OF add] h'(4) nin by simp
qed

text \<open>Insertion between two parts of a list.\<close>

lemma link_both_ok:
  assumes sx: "seg h None xs n" and sy: "seg h p ys None" and d: "distinct (xs @ ys)" "new \<notin> set (xs @ ys)"
    and hn: "h new = Some \<lparr>prev_of = lst None xs, next_of = first ys None, node_value = v\<rparr>"
  obtains h1 h2 where "link_next h (lst None xs) (Some new) = Some h1" "link_prev h1 (first ys None) (Some new) = Some h2"
    "seg h2 None (xs @ new # ys) None" "same_vals h h2" "\<forall>b. b \<notin> set (xs @ ys) \<longrightarrow> h2 b = h b"
proof -
  have dx: "distinct xs" "distinct ys" "set xs \<inter> set ys = {}" using d by auto
  from link_next_ok [OF sx dx(1)] obtain h1 where
    h1: "link_next h (lst None xs) (Some new) = Some h1" "seg h1 None xs (Some new)" "same_vals h h1"
      "\<forall>b. b \<notin> set xs \<longrightarrow> h1 b = h b" .
  have "seg h1 p ys None" by (rule seg_cong [OF _ sy]) (use h1(4) dx in auto)
  from link_prev_ok [OF this dx(2)] obtain h2 where
    h2: "link_prev h1 (first ys None) (Some new) = Some h2" "seg h2 (Some new) ys None" "same_vals h1 h2"
      "\<forall>b. b \<notin> set ys \<longrightarrow> h2 b = h1 b" .
  have "seg h2 None xs (Some new)" by (rule seg_cong [OF _ h1(2)]) (use h2(4) dx in auto)
  then have "seg h2 None (xs @ new # ys) None" using h1(4) h2(2,4) d(2) hn by simp
  then show ?thesis using that [OF h1(1) h2(1)] same_vals_trans [OF h1(3) h2(3)] h1(4) h2(4) by simp
qed

lemma list_insert_node_law:
  assumes ok: "dlist_ok h l (xs @ ys)" and new: "h new = None"
    and at: "after \<Longrightarrow> xs \<noteq> [] \<and> node = lst None xs" "\<not> after \<Longrightarrow> ys \<noteq> [] \<and> node = first ys None"
  obtains h' l' where "list_insert_node h l node new v after = Some (h', l')" "dlist_ok h' l' (xs @ new # ys)"
    "vals h' (xs @ new # ys) = vals h xs @ v # vals h ys" "\<forall>b. b \<notin> set (xs @ new # ys) \<longrightarrow> h' b = h b"
proof -
  note k = dlist_okD [OF ok] and nin = fresh_notin [OF ok new]
  let ?n = "\<lparr>prev_of = lst None xs, next_of = first ys None, node_value = v\<rparr>"
  let ?h = "h(new \<mapsto> ?n)"
  have "seg ?h None xs (first ys None)" "seg ?h (lst None xs) ys None"
    using k(2) new by (auto intro: seg_fresh)
  from link_both_ok [OF this k(1) nin, of v] obtain h1 h2 where
    h: "link_next ?h (lst None xs) (Some new) = Some h1" "link_prev h1 (first ys None) (Some new) = Some h2"
      "seg h2 None (xs @ new # ys) None" "same_vals ?h h2" "\<forall>b. b \<notin> set (xs @ ys) \<longrightarrow> h2 b = ?h b" by auto
  let ?l = "(if ys = [] then l\<lparr>tail := Some new\<rparr> else if xs = [] then l\<lparr>head := Some new\<rparr> else l)\<lparr>len := len l + 1\<rparr>"
  have "\<exists>nd. deref h node = Some nd \<and> (if after then next_of nd = first ys None else prev_of nd = lst None xs)"
    using k(2) at by (cases after; cases xs rule: rev_cases; cases ys) (auto simp: deref_def)
  then obtain nd where nd: "deref h node = Some nd" "after \<Longrightarrow> next_of nd = first ys None"
    "\<not> after \<Longrightarrow> prev_of nd = lst None xs" by (auto split: if_splits)
  have t1: "tail l = node \<longleftrightarrow> ys = []" if after
    using k(1,4) at(1) [OF that] by (cases xs rule: rev_cases; cases ys rule: rev_cases) auto
  have t2: "head l = node \<longleftrightarrow> xs = []" if "\<not> after"
    using k(1,3) at(2) [OF that] by (cases xs; cases ys) auto
  have ins: "list_insert_node h l node new v after = Some (h2, ?l)"
    using nd h(1,2) at t1 t2 by (cases after) (auto simp: list_insert_node_def Let_def)
  have "xs \<noteq> [] \<or> ys \<noteq> []" using at by (cases after) auto
  then have "dlist_ok h2 ?l (xs @ new # ys)"
    using h(3) k nin by (cases xs; cases ys rule: rev_cases) (auto simp: dlist_ok_def)
  moreover have "vals h2 (xs @ ys) = vals h (xs @ ys)"
    using vals_same [OF h(4), of "xs @ ys"] vals_fresh [OF ok new] dlist_ok_alloc [OF ok] by (metis fun_upd_apply option.distinct(1))
  moreover have "vals h2 xs = vals h xs \<and> vals h2 ys = vals h ys" using calculation(2) by (simp add: vals_def)
  ultimately show ?thesis using that [OF ins] h(5) nin by simp
qed

text \<open>Linking a detached node in front of a segment.\<close>

lemma push_front_ok:
  assumes "seg h None as None" "distinct as" "a \<notin> set as" "h a = Some n" "as \<noteq> []"
  defines "n' \<equiv> \<lparr>prev_of = None, next_of = first as None, node_value = node_value n\<rparr>"
  obtains h' where "link_prev (h(a \<mapsto> n')) (first as None) (Some a) = Some h'"
    "seg h' None (a # as) None" "same_vals h h'" "\<forall>b. b \<notin> set (a # as) \<longrightarrow> h' b = h b"
proof -
  have "seg (h(a \<mapsto> n')) None as None" using assms(3) by (intro seg_cong [OF _ assms(1)]) auto
  from link_prev_ok [OF this assms(2)] obtain h' where
    h': "link_prev (h(a \<mapsto> n')) (first as None) (Some a) = Some h'" "seg h' (Some a) as None"
      "same_vals (h(a \<mapsto> n')) h'" "\<forall>b. b \<notin> set as \<longrightarrow> h' b = (h(a \<mapsto> n')) b" .
  moreover have "same_vals h (h(a \<mapsto> n'))" using assms(4) by (simp add: same_vals_def n'_def)
  ultimately show ?thesis using that [OF h'(1)] assms(3) same_vals_trans by (auto simp: n'_def)
qed

lemma list_move_head_law:
  assumes ok: "dlist_ok h l (xs @ a # ys)"
  obtains h' l' where "list_move_head h l (Some a) = Some (h', l')" "dlist_ok h' l' (a # xs @ ys)"
    "same_vals h h'" "\<forall>b. b \<notin> set (a # xs @ ys) \<longrightarrow> h' b = h b"
proof (cases "xs = []")
  case True
  then have "list_move_head h l (Some a) = Some (h, l)"
    using dlist_okD(2) [OF ok] by (auto simp: list_move_head_def deref_def)
  then show ?thesis using that [of h l] ok True by simp
next
  case False
  note k = dlist_okD [OF ok]
  from unlink_ok [OF k(2,1)] obtain h1 h2 v where
    n: "h a = Some \<lparr>prev_of = lst None xs, next_of = first ys None, node_value = v\<rparr>"
      "link_next h (lst None xs) (first ys None) = Some h1" "h1 a = h a"
      "link_prev h1 (first ys None) (lst None xs) = Some h2" "h2 a = h a"
      "seg h2 None xs (first ys None)" "seg h2 (lst None xs) ys None" "same_vals h h2"
      "\<forall>b. b \<notin> set xs \<and> b \<notin> set ys \<longrightarrow> h2 b = h b" .
  have sn: "set_next h (lst None xs) (first ys None) = Some h1" using n(2) False by (simp add: link_next_def)
  have hx: "first xs m = first xs None" "first xs None \<noteq> None" for m using False by (cases xs; simp)+
  have "seg h2 None (xs @ ys) None" "distinct (xs @ ys)" "a \<notin> set (xs @ ys)" "h2 a = Some (the (h a))" "xs @ ys \<noteq> []"
    using n k(1) False by auto
  from push_front_ok [OF this] obtain h' where
    p: "link_prev (h2(a \<mapsto> \<lparr>prev_of = None, next_of = first (xs @ ys) None, node_value = node_value (the (h a))\<rparr>))
         (first (xs @ ys) None) (Some a) = Some h'"
      "seg h' None (a # xs @ ys) None" "same_vals h2 h'" "\<forall>b. b \<notin> set (a # xs @ ys) \<longrightarrow> h' b = h2 b" .
  have "first (xs @ ys) None = first xs None" "node_value (the (h a)) = v" using hx(1) [of "first ys None"] n(1) by simp_all
  note h' = p [unfolded this]
  let ?l = "(if ys = [] then l\<lparr>tail := lst None xs\<rparr> else l)\<lparr>head := Some a\<rparr>"
  have "list_move_head h l (Some a) = Some (h', ?l)"
    unfolding list_move_head_def guarded_prev using n(1,3,4,5) sn h'(1) k(3) False hx(2) hx(1) [of "Some a"]
    by simp
  moreover have "dlist_ok h' ?l (a # xs @ ys)"
    using k h'(2) False by (cases xs rule: rev_cases; cases ys rule: rev_cases) (auto simp: dlist_ok_def)
  ultimately show ?thesis using that same_vals_trans [OF n(8) h'(3)] h'(4) n(9) by simp
qed

lemma list_rotate_tail_to_head_law:
  assumes ok: "dlist_ok h l (xs @ [t])"
  obtains h' l' where "list_rotate_tail_to_head h l = Some (h', l')" "dlist_ok h' l' (t # xs)" "same_vals h h'"
proof (cases "xs = []")
  case True
  then have "list_rotate_tail_to_head h l = Some (h, l)" using ok by (simp add: list_rotate_tail_to_head_def dlist_ok_def)
  then show ?thesis using that [of h l] ok True by simp
next
  case False
  note k = dlist_okD [OF ok]
  obtain v where v: "h t = Some \<lparr>prev_of = lst None xs, next_of = None, node_value = v\<rparr>" using k(2) by auto
  have sx: "seg h None xs (Some t)" "distinct xs" "t \<notin> set xs" using k by auto
  from set_next_last [OF sx(1,2) False, of None None] obtain h1 where
    h1: "set_next h (lst None xs) None = Some h1" "seg h1 None xs None" "same_vals h h1" "\<forall>b. b \<noteq> last xs \<longrightarrow> h1 b = h b" .
  from set_prev_first [OF h1(2) sx(2) False, of None "Some t"] obtain h2 where
    h2: "set_prev h1 (first xs None) (Some t) = Some h2" "seg h2 (Some t) xs None" "same_vals h1 h2" "\<forall>b. b \<noteq> hd xs \<longrightarrow> h2 b = h1 b" .
  have ht: "h2 t = h t" using h1(4) h2(4) sx(3) False by (metis hd_in_set last_in_set)
  let ?h = "h2(t \<mapsto> \<lparr>prev_of = None, next_of = first xs None, node_value = v\<rparr>)"
  have hl: "head l = first xs None" using k(3) False by (cases xs) auto
  have "list_rotate_tail_to_head h l = Some (?h, l\<lparr>tail := lst None xs, head := Some t\<rparr>)"
    using k(4,5) v h1(1) h2(1) ht False hl
    by (simp add: list_rotate_tail_to_head_def Let_def)
  moreover have "seg ?h (Some t) xs None" by (rule seg_cong [OF _ h2(2)]) (use sx in auto)
  then have "dlist_ok ?h (l\<lparr>tail := lst None xs, head := Some t\<rparr>) (t # xs)"
    using k False by (cases xs rule: rev_cases) (auto simp: dlist_ok_def)
  moreover have "same_vals h2 ?h" using ht v by (simp add: same_vals_def)
  ultimately show ?thesis using that same_vals_trans h1(3) h2(3) by blast
qed

lemma list_rotate_head_to_tail_law:
  assumes ok: "dlist_ok h l (t # xs)"
  obtains h' l' where "list_rotate_head_to_tail h l = Some (h', l')" "dlist_ok h' l' (xs @ [t])" "same_vals h h'"
proof (cases "xs = []")
  case True
  then have "list_rotate_head_to_tail h l = Some (h, l)" using ok by (simp add: list_rotate_head_to_tail_def dlist_ok_def)
  then show ?thesis using that [of h l] ok True by simp
next
  case False
  note k = dlist_okD [OF ok]
  obtain v where v: "h t = Some \<lparr>prev_of = None, next_of = first xs None, node_value = v\<rparr>" using k(2) by auto
  have sx: "seg h (Some t) xs None" "distinct xs" "t \<notin> set xs" using k by auto
  from set_prev_first [OF sx(1,2) False, of None None] obtain h1 where
    h1: "set_prev h (first xs None) None = Some h1" "seg h1 None xs None" "same_vals h h1" "\<forall>b. b \<noteq> hd xs \<longrightarrow> h1 b = h b" .
  from set_next_last [OF h1(2) sx(2) False, of None "Some t"] obtain h2 where
    h2: "set_next h1 (lst None xs) (Some t) = Some h2" "seg h2 None xs (Some t)" "same_vals h1 h2" "\<forall>b. b \<noteq> last xs \<longrightarrow> h2 b = h1 b" .
  have ht: "h2 t = h t" using h1(4) h2(4) sx(3) False by (metis hd_in_set last_in_set)
  let ?h = "h2(t \<mapsto> \<lparr>prev_of = lst None xs, next_of = None, node_value = v\<rparr>)"
  have hl: "tail l = lst None xs" using k(4) False by (simp add: lst_def)
  have "list_rotate_head_to_tail h l = Some (?h, l\<lparr>head := first xs None, tail := Some t\<rparr>)"
    using k(3,5) v h1(1) h2(1) ht False hl
    by (simp add: list_rotate_head_to_tail_def Let_def)
  moreover have "seg ?h None xs (Some t)" by (rule seg_cong [OF _ h2(2)]) (use sx in auto)
  then have "dlist_ok ?h (l\<lparr>head := first xs None, tail := Some t\<rparr>) (xs @ [t])"
    using k False by (cases xs) (auto simp: dlist_ok_def)
  moreover have "same_vals h2 ?h" using ht v by (simp add: same_vals_def)
  ultimately show ?thesis using that same_vals_trans h1(3) h2(3) by blast
qed

lemma list_join_law:
  assumes ok: "dlist_ok h l as" "dlist_ok h oth bs" and d: "set as \<inter> set bs = {}"
  obtains h' l' oth' where "list_join h l oth = Some (h', l', oth')" "dlist_ok h' l' (as @ bs)" "dlist_ok h' oth' []"
    "same_vals h h'"
proof (cases "bs = []")
  case True
  then have "list_join h l oth = Some (h, l, oth)" using ok by (simp add: list_join_def dlist_ok_def)
  then show ?thesis using that [of h l oth] ok True by simp
next
  case False
  note k = dlist_okD [OF ok(1)] and j = dlist_okD [OF ok(2)]
  from set_prev_first [OF j(2,1) False, of None "lst None as"] obtain h1 where
    h1: "set_prev h (first bs None) (lst None as) = Some h1" "seg h1 (lst None as) bs None" "same_vals h h1"
      "\<forall>b. b \<noteq> hd bs \<longrightarrow> h1 b = h b" .
  have nin: "hd bs \<notin> set as" using d hd_in_set [OF False] by auto
  have "seg h1 None as None" by (rule seg_cong [OF _ k(2)]) (use h1(4) nin in metis)
  from link_next_ok [OF this k(1)] obtain h2 where
    h2: "link_next h1 (lst None as) (first bs None) = Some h2" "seg h2 None as (first bs None)" "same_vals h1 h2"
      "\<forall>b. b \<notin> set as \<longrightarrow> h2 b = h1 b" .
  have sb: "seg h2 (lst None as) bs None" by (rule seg_cong [OF _ h1(2)]) (use h2(4) d in auto)
  let ?l = "(if as = [] then l\<lparr>head := first bs None\<rparr> else l)\<lparr>tail := lst None bs, len := length as + length bs\<rparr>"
  let ?o = "oth\<lparr>head := None, tail := None, len := 0\<rparr>"
  have "list_join h l oth = Some (h2, ?l, ?o)"
    unfolding list_join_def guarded_next using h1(1) h2(1) k(4,5) j(3,4,5) False by simp
  moreover have "dlist_ok h2 ?l (as @ bs)"
    using h2(2) sb k j d False by (cases as; cases bs rule: rev_cases) (auto simp: dlist_ok_def)
  moreover have "dlist_ok h2 ?o []" by (simp add: dlist_ok_def)
  ultimately show ?thesis using that same_vals_trans [OF h1(3) h2(3)] by blast
qed

lemma list_lpop_law:
  assumes ok: "dlist_ok h l (a # as)"
  obtains h' l' where "list_lpop h l = Some (h', l', Some (node_value (the (h a))))" "dlist_ok h' l' as"
    "vals h' as = vals h as" "\<forall>b. b \<notin> set as \<longrightarrow> h' b = (h(a := None)) b"
proof -
  from list_del_node_law [of h l "[]" a as] ok obtain h' l' where
    "list_del_node h l (Some a) = Some (h', l')" "dlist_ok h' l' as" "vals h' as = vals h as"
    "\<forall>b. b \<notin> set as \<longrightarrow> h' b = (h(a := None)) b" by auto
  with that dlist_okD(2,3) [OF ok] show ?thesis by (auto simp: list_lpop_def list_remove_def)
qed

lemma list_rpop_law:
  assumes ok: "dlist_ok h l (as @ [a])"
  obtains h' l' where "list_rpop h l = Some (h', l', Some (node_value (the (h a))))" "dlist_ok h' l' as"
    "vals h' as = vals h as" "\<forall>b. b \<notin> set as \<longrightarrow> h' b = (h(a := None)) b"
proof -
  from list_del_node_law [of h l as a "[]"] ok obtain h' l' where
    "list_del_node h l (Some a) = Some (h', l')" "dlist_ok h' l' as" "vals h' as = vals h as"
    "\<forall>b. b \<notin> set as \<longrightarrow> h' b = (h(a := None)) b" by auto
  with that dlist_okD(2,4) [OF ok] show ?thesis by (auto simp: list_rpop_def list_remove_def)
qed

lemma list_pop_empty:
  "dlist_ok h l [] \<Longrightarrow> list_lpop h l = Some (h, l, None)" "dlist_ok h l [] \<Longrightarrow> list_rpop h l = Some (h, l, None)"
  by (simp_all add: list_lpop_def list_rpop_def list_remove_def dlist_ok_def)

subsection \<open>Traversals\<close>

definition dir :: "bool \<Rightarrow> addr list \<Rightarrow> addr list" where
  "dir fwd as = (if fwd then as else rev as)"

lemma first_rev [simp]: "first (rev as) None = lst None as"
  by (cases as rule: rev_cases) auto

lemma list_next_step:
  assumes "dlist_ok h l as" "dir (li_head it) as = xs @ ys" "li_next it = first ys None"
  shows "list_next h it = Some (it\<lparr>li_next := first (tl ys) None\<rparr>, first ys None)"
proof (cases ys)
  case Nil
  then show ?thesis using assms(3) by (simp add: list_next_def)
next
  case (Cons a zs)
  show ?thesis
  proof (cases "li_head it")
    case True
    then show ?thesis using assms dlist_okD(2) [OF assms(1)] Cons by (auto simp: list_next_def dir_def)
  next
    case False
    then have "as = rev zs @ a # rev xs" using assms(2) Cons by (simp add: dir_def) (metis rev_append rev_rev_ident append.assoc append_Cons append_Nil rev.simps(2))
    then have "\<exists>v n. h a = Some \<lparr>prev_of = lst None (rev zs), next_of = n, node_value = v\<rparr>"
      using dlist_okD(2) [OF assms(1)] by auto
    then show ?thesis using assms(3) False Cons first_rev [of "rev zs"] by (auto simp: list_next_def)
  qed
qed

lemma list_search_loop_law:
  assumes "dlist_ok h l as" "as = xs @ ys" "it = \<lparr>li_next = first ys None, li_head = True\<rparr>"
  shows "list_search_loop found h it = Some (first (dropWhile (\<lambda>a. \<not> found (node_value (the (h a)))) ys) None)"
  using assms
proof (induction ys arbitrary: xs it)
  case Nil
  then show ?case by (subst list_search_loop.simps) (simp add: list_next_def)
next
  case (Cons a ys)
  have "dir (li_head it) as = xs @ a # ys" using Cons.prems by (simp add: dir_def)
  from list_next_step [OF Cons.prems(1) this] Cons.prems(3)
  have n: "list_next h it = Some (\<lparr>li_next = first ys None, li_head = True\<rparr>, Some a)" by simp
  have "h a \<noteq> None" using dlist_ok_alloc [OF Cons.prems(1)] Cons.prems(2) by simp
  then show ?case
    using n Cons.IH [OF Cons.prems(1), of "xs @ [a]"] Cons.prems(2) by (subst list_search_loop.simps) auto
qed

lemma walk_next: "dlist_ok h l (xs @ ys) \<Longrightarrow> walk h next_of (first ys None) i = Some (first (drop i ys) None)"
proof (induction ys arbitrary: xs i)
  case Nil
  then show ?case by (cases i) auto
next
  case (Cons a ys)
  have "\<exists>n. h a = Some n \<and> next_of n = first ys None" using dlist_okD(2) [OF Cons.prems] by auto
  then show ?case using Cons.IH [of "xs @ [a]"] Cons.prems by (cases i) auto
qed

lemma walk_prev: "dlist_ok h l (ys @ xs) \<Longrightarrow> walk h prev_of (lst None ys) i = Some (lst None (take (length ys - i) ys))"
proof (induction ys arbitrary: xs i rule: rev_induct)
  case Nil
  then show ?case by (cases i) auto
next
  case (snoc a ys)
  have "\<exists>n. h a = Some n \<and> prev_of n = lst None ys" using dlist_okD(2) [OF snoc.prems] by auto
  then show ?case using snoc.IH [of "a # xs"] snoc.prems by (cases i) auto
qed

lemma list_index_law:
  assumes ok: "dlist_ok h l as"
  shows "0 \<le> i \<Longrightarrow> nat i < length as \<Longrightarrow> list_index h l i = Some (Some (as ! nat i))"
    "i < 0 \<Longrightarrow> nat (- i) \<le> length as \<Longrightarrow> list_index h l i = Some (Some (as ! (length as - nat (- i))))"
    "0 \<le> i \<Longrightarrow> length as \<le> nat i \<Longrightarrow> list_index h l i = Some None"
    "i < 0 \<Longrightarrow> length as < nat (- i) \<Longrightarrow> list_index h l i = Some None"
proof -
  note k = dlist_okD [OF ok]
  have f: "list_index h l i = Some (first (drop (nat i) as) None)" if "0 \<le> i" for i
    using walk_next [of h l "[]" as] ok k(3) that by (simp add: list_index_def)
  have g: "list_index h l i = Some (lst None (take (length as - nat (- i - 1)) as))" if "i < 0" for i
    using walk_prev [of h l as "[]"] ok k(4) that by (simp add: list_index_def)
  show "0 \<le> i \<Longrightarrow> nat i < length as \<Longrightarrow> list_index h l i = Some (Some (as ! nat i))"
    by (simp add: f flip: Cons_nth_drop_Suc)
  show "0 \<le> i \<Longrightarrow> length as \<le> nat i \<Longrightarrow> list_index h l i = Some None" by (simp add: f)
  show "i < 0 \<Longrightarrow> length as < nat (- i) \<Longrightarrow> list_index h l i = Some None" by (simp add: g)
  assume i: "i < 0" "nat (- i) \<le> length as"
  then have "length as - nat (- i - 1) = Suc (length as - nat (- i))" "length as - nat (- i) < length as" by linarith+
  then show "list_index h l i = Some (Some (as ! (length as - nat (- i))))"
    by (simp add: g [OF i(1)] take_Suc_conv_app_nth)
qed

lemma for_each_delete_loop_law:
  assumes "dlist_ok h l (xs @ ys)"
  shows "\<exists>h' l'. for_each_delete_loop need h l (first ys None) n =
      Some (h', l', n + length (filter need (vals h ys)))
    \<and> dlist_ok h' l' (xs @ filter (\<lambda>a. \<not> need (node_value (the (h a)))) ys)
    \<and> vals h' (xs @ filter (\<lambda>a. \<not> need (node_value (the (h a)))) ys) = vals h xs @ filter (\<lambda>v. \<not> need v) (vals h ys)"
  using assms
proof (induction ys arbitrary: xs h l n)
  case Nil
  then show ?case by (subst for_each_delete_loop.simps) auto
next
  case (Cons a ys)
  obtain nd where nd: "h a = Some nd" "next_of nd = first ys None" using dlist_okD(2) [OF Cons.prems] by auto
  show ?case
  proof (cases "need (node_value nd)")
    case False
    have "for_each_delete_loop need h l (first (a # ys) None) n = for_each_delete_loop need h l (first ys None) n"
      using nd False by (subst for_each_delete_loop.simps) simp
    with Cons.IH [of h l "xs @ [a]" n] Cons.prems nd False show ?thesis by auto
  next
    case True
    from list_del_node_law [OF Cons.prems] obtain h1 l1 where
      d: "list_del_node h l (Some a) = Some (h1, l1)" "dlist_ok h1 l1 (xs @ ys)" "vals h1 (xs @ ys) = vals h (xs @ ys)" by metis
    have step: "for_each_delete_loop need h l (first (a # ys) None) n = for_each_delete_loop need h1 l1 (first ys None) (n + 1)"
      using nd True d(1) by (subst for_each_delete_loop.simps) simp
    have v: "vals h1 xs = vals h xs" "vals h1 ys = vals h ys" using d(3) by (simp_all add: vals_def)
    then have "\<forall>b \<in> set ys. node_value (the (h1 b)) = node_value (the (h b))" by (simp add: vals_def)
    then have "filter (\<lambda>a. \<not> need (node_value (the (h1 a)))) ys = filter (\<lambda>a. \<not> need (node_value (the (h a)))) ys"
      by (intro filter_cong) simp_all
    with Cons.IH [OF d(2), of "n + 1"] nd True show ?thesis unfolding step v by simp
  qed
qed

lemma list_empty_loop_law:
  "seg h p as None \<Longrightarrow> distinct as \<Longrightarrow>
   list_empty_loop h (first as None) (length as) = Some (\<lambda>b. if b \<in> set as then None else h b)"
proof (induction as arbitrary: h p)
  case Nil
  then show ?case by simp
next
  case (Cons a as)
  then obtain v where v: "h a = Some \<lparr>prev_of = p, next_of = first as None, node_value = v\<rparr>" by auto
  have "seg (h(a := None)) (Some a) as None" using Cons.prems by (auto elim!: seg_cong [rotated])
  then have "list_empty_loop (h(a := None)) (first as None) (length as) = Some (\<lambda>b. if b \<in> set as then None else (h(a := None)) b)"
    using Cons by simp
  moreover have "(\<lambda>b. if b \<in> set as then None else (h(a := None)) b) = (\<lambda>b. if b \<in> set (a # as) then None else h b)"
    by auto
  ultimately show ?case using v by (simp add: zfree_def)
qed

lemma list_empty_law:
  "dlist_ok h l as \<Longrightarrow> \<exists>l'. list_empty h l = Some (\<lambda>b. if b \<in> set as then None else h b, l') \<and> dlist_ok h' l' []"
  using list_empty_loop_law [of h None as] by (simp add: list_empty_def dlist_ok_def)

subsection \<open>The copy of a list\<close>

definition fresh_alloc :: "('v heap \<Rightarrow> addr) \<Rightarrow> bool" where
  "fresh_alloc alloc \<longleftrightarrow> (\<forall>h. finite (dom h) \<longrightarrow> h (alloc h) = None)"

lemma fresh_allocD: "fresh_alloc alloc \<Longrightarrow> finite (dom h) \<Longrightarrow> h (alloc h) = None"
  by (simp add: fresh_alloc_def)

lemma dom_finite: "finite (dom h) \<Longrightarrow> \<forall>b. b \<notin> set bs \<longrightarrow> h' b = h b \<Longrightarrow> finite (dom h')"
proof -
  assume f: "finite (dom h)" and e: "\<forall>b. b \<notin> set bs \<longrightarrow> h' b = h b"
  have "dom h' \<subseteq> dom h \<union> set bs" using e by (metis UnCI domI domIff subsetI)
  with f show ?thesis by (meson List.finite_set finite_UnI rev_finite_subset)
qed

lemma dlist_ok_cong: "dlist_ok h l as \<Longrightarrow> (\<And>a. a \<in> set as \<Longrightarrow> h' a = h a) \<Longrightarrow> dlist_ok h' l as"
  using seg_cong [of as h' h None None] by (simp add: dlist_ok_def)

text \<open>The loop copies the rest of the list behind the nodes it has made, and changes no node of the
  original; when \<open>dup\<close> fails the new nodes are freed.\<close>

lemma list_dup_loop_law:
  assumes "fresh_alloc alloc" "finite (dom h)" "dlist_ok h l (xs @ ys)" "dlist_ok h copy cs" "set (xs @ ys) \<inter> set cs = {}"
    "it = \<lparr>li_next = first ys None, li_head = True\<rparr>"
  shows "\<exists>h' r. list_dup_loop alloc dup h copy it = Some (h', r) \<and> (\<forall>a \<in> set (xs @ ys). h' a = h a)
    \<and> (if \<forall>v \<in> set (vals h ys). dup v \<noteq> None
       then \<exists>copy' ds. r = Some copy' \<and> dlist_ok h' copy' ds \<and> vals h' ds = vals h cs @ map (the \<circ> dup) (vals h ys)
       else r = None)"
  using assms
proof (induction ys arbitrary: xs h copy cs it)
  case Nil
  then show ?case by (subst list_dup_loop.simps) (auto simp: list_next_def)
next
  case (Cons a ys)
  note ok = Cons.prems(3) and ok' = Cons.prems(4)
  have "dir (li_head it) (xs @ a # ys) = xs @ a # ys" using Cons.prems(6) by (simp add: dir_def)
  from list_next_step [OF ok this] Cons.prems(6)
  have n: "list_next h it = Some (\<lparr>li_next = first ys None, li_head = True\<rparr>, Some a)" by simp
  obtain nd where nd: "h a = Some nd" using dlist_ok_alloc [OF ok, of a] by auto
  show ?case
  proof (cases "dup (node_value nd)")
    case None
    obtain c where "list_empty h copy = Some (\<lambda>b. if b \<in> set cs then None else h b, c)"
      using list_empty_law [OF ok'] by blast
    then have "list_dup_loop alloc dup h copy it = Some (\<lambda>b. if b \<in> set cs then None else h b, None)"
      using n nd None by (subst list_dup_loop.simps) simp
    then show ?thesis using Cons.prems(5) nd None by auto
  next
    case (Some v)
    let ?new = "alloc h"
    have f: "h ?new = None" using fresh_allocD [OF Cons.prems(1,2)] .
    from list_add_node_tail_law [OF ok' f, of v] obtain h1 c1 where
      c1: "list_add_node_tail h copy ?new v = Some (h1, c1)" "dlist_ok h1 c1 (cs @ [?new])"
        "vals h1 (cs @ [?new]) = vals h cs @ [v]" "\<forall>b. b \<notin> set (cs @ [?new]) \<longrightarrow> h1 b = h b" .
    have step: "list_dup_loop alloc dup h copy it = list_dup_loop alloc dup h1 c1 \<lparr>li_next = first ys None, li_head = True\<rparr>"
      using n nd Some c1(1) by (subst list_dup_loop.simps) simp
    have nin: "?new \<notin> set (xs @ a # ys)" using fresh_notin [OF ok f] .
    have same: "h1 b = h b" if "b \<in> set (xs @ a # ys)" for b
      using c1(4) that nin Cons.prems(5) by (metis IntI Un_iff empty_iff empty_set set_ConsD set_append)
    have ok1: "dlist_ok h1 l ((xs @ [a]) @ ys)" using dlist_ok_cong [OF ok same] by simp
    have "set ((xs @ [a]) @ ys) \<inter> set (cs @ [?new]) = {}" using Cons.prems(5) nin by auto
    from Cons.IH [OF Cons.prems(1) dom_finite [OF Cons.prems(2) c1(4)] ok1 c1(2) this refl] obtain h' r where
      r: "list_dup_loop alloc dup h1 c1 \<lparr>li_next = first ys None, li_head = True\<rparr> = Some (h', r)"
      "\<forall>a \<in> set ((xs @ [a]) @ ys). h' a = h1 a"
      "if \<forall>v \<in> set (vals h1 ys). dup v \<noteq> None
       then \<exists>copy' ds. r = Some copy' \<and> dlist_ok h' copy' ds \<and> vals h' ds = vals h1 (cs @ [?new]) @ map (the \<circ> dup) (vals h1 ys)
       else r = None" by blast
    have v: "vals h1 ys = vals h ys" using same by (intro vals_cong) simp
    show ?thesis using r same nd Some unfolding step v c1(3) by (auto split: if_splits)
  qed
qed

subsection \<open>The iterator\<close>

definition todo :: "addr list \<Rightarrow> 'v latte_list_iterator \<Rightarrow> addr list" where
  "todo as it = (case li_next (lli_it it) of None \<Rightarrow> [] | Some a \<Rightarrow> dropWhile (\<lambda>b. b \<noteq> a) (dir (li_head (lli_it it)) as))"

definition list_iter_inv :: "'v heap \<Rightarrow> addr list \<Rightarrow> 'v latte_list_iterator \<Rightarrow> bool" where
  "list_iter_inv h as it \<longleftrightarrow> (\<exists>l. dlist_ok h l as) \<and> lli_heap it = h
     \<and> (\<exists>xs. dir (li_head (lli_it it)) as = xs @ todo as it \<and> li_next (lli_it it) = first (todo as it) None)"

definition list_iter_left :: "'v heap \<Rightarrow> addr list \<Rightarrow> 'v latte_list_iterator \<Rightarrow> 'v list" where
  "list_iter_left h as it = vals h (case lli_next it of None \<Rightarrow> todo as it | Some a \<Rightarrow> a # todo as it)"

lemma todo_at:
  assumes "distinct as" "dir (li_head (lli_it it)) as = xs @ ys" "li_next (lli_it it) = first ys None"
  shows "todo as it = ys"
proof (cases ys)
  case (Cons a zs)
  have "distinct (dir (li_head (lli_it it)) as)" using assms(1) by (simp add: dir_def)
  then have "a \<notin> set xs" using assms(2) Cons by simp
  then have "dropWhile (\<lambda>b. b \<noteq> a) (xs @ ys) = ys" using Cons by (subst dropWhile_append2) auto
  then show ?thesis using assms(2,3) Cons by (simp add: todo_def)
qed (use assms in \<open>simp add: todo_def\<close>)

interpretation list_iter: iterator_protocol latte_list_iterator_func
  "\<lambda>it. list_iter_inv h as it \<and> lli_next it = None"
  "\<lambda>it. list_iter_inv h as it \<and> (\<exists>a. lli_next it = Some a \<and> h a \<noteq> None)"
  "list_iter_left h as" for h as
proof
  fix it assume "list_iter_inv h as it \<and> lli_next it = None"
  then obtain l xs where i: "dlist_ok h l as" "lli_heap it = h" "lli_next it = None"
    "dir (li_head (lli_it it)) as = xs @ todo as it" "li_next (lli_it it) = first (todo as it) None"
    by (auto simp: list_iter_inv_def)
  note step = list_next_step [OF i(1,4,5)]
  show "\<exists>it'. it_has_next latte_list_iterator_func it = Some (it', list_iter_left h as it \<noteq> [])
    \<and> (list_iter_left h as it \<noteq> [] \<longrightarrow> (list_iter_inv h as it' \<and> (\<exists>a. lli_next it' = Some a \<and> h a \<noteq> None))
       \<and> list_iter_left h as it' = list_iter_left h as it)"
  proof (cases "todo as it")
    case Nil
    then show ?thesis using step i
      by (auto simp: latte_list_iterator_func_def protected_latte_list_iterator_has_next_def list_iter_left_def)
  next
    case (Cons a ys)
    define it' where "it' = it\<lparr>lli_it := (lli_it it)\<lparr>li_next := first ys None\<rparr>, lli_next := Some a\<rparr>"
    have t: "todo as it' = ys"
      using todo_at [OF dlist_okD(1) [OF i(1)], of it' "xs @ [a]" ys] i(4) Cons by (simp add: it'_def)
    have "a \<in> set as" using i(4) Cons by (metis dir_def in_set_conv_decomp set_rev)
    then have al: "h a \<noteq> None" using dlist_ok_alloc [OF i(1)] by simp
    have "it_has_next latte_list_iterator_func it = Some (it', True)"
      using step Cons i(2) by (simp add: latte_list_iterator_func_def protected_latte_list_iterator_has_next_def it'_def)
    moreover have "list_iter_inv h as it'"
      using i(1,2) i(4) [unfolded Cons] t unfolding list_iter_inv_def by (auto simp: it'_def intro: exI [of _ "xs @ [a]"])
    moreover have "lli_next it' = Some a" by (simp add: it'_def)
    moreover have "list_iter_left h as it = vals h (a # ys)" "list_iter_left h as it' = vals h (a # ys)"
      using i(3) Cons t by (simp_all add: list_iter_left_def it'_def)
    ultimately show ?thesis using al by auto
  qed
next
  fix it x xs
  assume "list_iter_inv h as it \<and> (\<exists>a. lli_next it = Some a \<and> h a \<noteq> None)" and l: "list_iter_left h as it = x # xs"
  then obtain a n where i: "list_iter_inv h as it" "lli_next it = Some a" "h a = Some n" by auto
  have t: "todo as (it\<lparr>lli_next := None\<rparr>) = todo as it" by (simp add: todo_def cong: option.case_cong)
  have "it_next latte_list_iterator_func it = Some (it\<lparr>lli_next := None\<rparr>, x)"
    using i l by (auto simp: latte_list_iterator_func_def protected_latte_list_iterator_next_def list_iter_inv_def list_iter_left_def)
  moreover have "list_iter_inv h as (it\<lparr>lli_next := None\<rparr>)" using i(1) by (simp add: list_iter_inv_def t)
  moreover have "list_iter_left h as (it\<lparr>lli_next := None\<rparr>) = xs" using i l by (simp add: list_iter_left_def t)
  ultimately show "\<exists>it'. it_next latte_list_iterator_func it = Some (it', x)
    \<and> (list_iter_inv h as it' \<and> lli_next it' = None) \<and> list_iter_left h as it' = xs" by auto
qed

lemma list_get_latte_iterator_law:
  assumes ok: "dlist_ok h l as"
  shows "iterate_all (list_get_latte_iterator h l opt) = Some (vals h (dir (\<not> opt) as))"
proof -
  define it where "it = \<lparr>lli_heap = h, lli_it = list_get_iterator l (\<not> opt), lli_next = None\<rparr>"
  have n: "li_next (lli_it it) = first (dir (\<not> opt) as) None" "li_head (lli_it it) = (\<not> opt)"
    using dlist_okD(3,4) [OF ok] by (simp_all add: it_def list_get_iterator_def dir_def)
  then have t: "todo as it = dir (\<not> opt) as" using todo_at [OF dlist_okD(1) [OF ok], of it "[]"] by simp
  then have "list_iter_inv h as it" using ok n unfolding list_iter_inv_def by (auto simp: it_def)
  moreover have "list_iter_left h as it = vals h (dir (\<not> opt) as)" using t by (simp add: list_iter_left_def it_def)
  ultimately show ?thesis
    using list_iter.iterate_all_rest [of h as it] by (simp add: list_get_latte_iterator_def it_def)
qed

section \<open>Properties\<close>

text \<open>A client that uses a list as a deque, and the same client on a sequence.\<close>

datatype 'v deque_op = PushHead 'v | PushTail 'v | PopHead | PopTail | RotateHead | RotateTail

fun deque_step ::
  "('v heap \<Rightarrow> addr) \<Rightarrow> 'v heap \<times> dlist \<Rightarrow> 'v deque_op \<Rightarrow> (('v heap \<times> dlist) \<times> 'v option) option" where
  "deque_step alloc (h, l) (PushHead v) = map_option (\<lambda>s. (s, None)) (list_add_node_head h l (alloc h) v)"
| "deque_step alloc (h, l) (PushTail v) = map_option (\<lambda>s. (s, None)) (list_add_node_tail h l (alloc h) v)"
| "deque_step alloc (h, l) PopHead = map_option (\<lambda>(h, l, r). ((h, l), r)) (list_lpop h l)"
| "deque_step alloc (h, l) PopTail = map_option (\<lambda>(h, l, r). ((h, l), r)) (list_rpop h l)"
| "deque_step alloc (h, l) RotateHead = map_option (\<lambda>s. (s, None)) (list_rotate_head_to_tail h l)"
| "deque_step alloc (h, l) RotateTail = map_option (\<lambda>s. (s, None)) (list_rotate_tail_to_head h l)"

fun deque_run ::
  "('v heap \<Rightarrow> addr) \<Rightarrow> 'v heap \<times> dlist \<Rightarrow> 'v deque_op list \<Rightarrow> (('v heap \<times> dlist) \<times> 'v option list) option" where
  "deque_run alloc s [] = Some (s, [])"
| "deque_run alloc s (c # cs) =
     do { (s, r) \<leftarrow> deque_step alloc s c; (s, rs) \<leftarrow> deque_run alloc s cs; Some (s, r # rs) }"

fun deque_model_step :: "'v list \<Rightarrow> 'v deque_op \<Rightarrow> 'v list \<times> 'v option" where
  "deque_model_step vs (PushHead v) = (v # vs, None)"
| "deque_model_step vs (PushTail v) = (vs @ [v], None)"
| "deque_model_step vs PopHead = (tl vs, if vs = [] then None else Some (hd vs))"
| "deque_model_step vs PopTail = (butlast vs, if vs = [] then None else Some (last vs))"
| "deque_model_step vs RotateHead = (tl vs @ take 1 vs, None)"
| "deque_model_step vs RotateTail = (if vs = [] then [] else last vs # butlast vs, None)"

fun deque_model :: "'v list \<Rightarrow> 'v deque_op list \<Rightarrow> 'v list \<times> 'v option list" where
  "deque_model vs [] = (vs, [])"
| "deque_model vs (c # cs) =
     (case deque_model_step vs c of (vs, r) \<Rightarrow> case deque_model vs cs of (vs, rs) \<Rightarrow> (vs, r # rs))"

definition represents :: "'v heap \<times> dlist \<Rightarrow> 'v list \<Rightarrow> bool" where
  "represents s vs \<longleftrightarrow> finite (dom (fst s)) \<and> (\<exists>as. dlist_ok (fst s) (snd s) as \<and> vals (fst s) as = vs)"

lemma representsI: "finite (dom h) \<Longrightarrow> dlist_ok h l as \<Longrightarrow> vals h as = vs \<Longrightarrow> represents (h, l) vs"
  by (auto simp: represents_def)

lemma dom_same: "same_vals h h' \<Longrightarrow> dom h' = dom h"
  unfolding same_vals_def dom_def by (metis map_option_is_None)

lemma dom_del: "finite (dom h) \<Longrightarrow> \<forall>b. b \<notin> set bs \<longrightarrow> h' b = (h(a := None)) b \<Longrightarrow> finite (dom h')"
  using dom_finite [of "h(a := None)" bs h'] by simp

lemma deque_step_refines:
  assumes "fresh_alloc alloc" "represents s vs"
  shows "\<exists>s'. deque_step alloc s c = Some (s', snd (deque_model_step vs c)) \<and> represents s' (fst (deque_model_step vs c))"
proof -
  obtain h l where s: "s = (h, l)" by fastforce
  with assms(2) obtain as where f: "finite (dom h)" and ok: "dlist_ok h l as" and vs: "vals h as = vs"
    by (auto simp: represents_def)
  have new: "h (alloc h) = None" using fresh_allocD [OF assms(1) f] .
  have len: "as = [] \<longleftrightarrow> vs = []" using vs by (auto simp: vals_def)
  show ?thesis
  proof (cases c)
    case (PushHead v)
    from list_add_node_head_law [OF ok new, of v] obtain h' l' where
      a: "list_add_node_head h l (alloc h) v = Some (h', l')" "dlist_ok h' l' (alloc h # as)"
        "vals h' (alloc h # as) = v # vals h as" "\<forall>b. b \<notin> set (alloc h # as) \<longrightarrow> h' b = h b" .
    from representsI [OF dom_finite [OF f a(4)] a(2,3)] show ?thesis using PushHead s vs a(1) by auto
  next
    case (PushTail v)
    from list_add_node_tail_law [OF ok new, of v] obtain h' l' where
      a: "list_add_node_tail h l (alloc h) v = Some (h', l')" "dlist_ok h' l' (as @ [alloc h])"
        "vals h' (as @ [alloc h]) = vals h as @ [v]" "\<forall>b. b \<notin> set (as @ [alloc h]) \<longrightarrow> h' b = h b" .
    from representsI [OF dom_finite [OF f a(4)] a(2,3)] show ?thesis using PushTail s vs a(1) by auto
  next
    case PopHead
    show ?thesis
    proof (cases as)
      case Nil
      then show ?thesis using PopHead s ok f vs by (auto simp: list_pop_empty intro!: representsI)
    next
      case (Cons a bs)
      from list_lpop_law [OF ok [unfolded Cons]] obtain h' l' where
        "list_lpop h l = Some (h', l', Some (node_value (the (h a))))" "dlist_ok h' l' bs" "vals h' bs = vals h bs"
        "\<forall>b. b \<notin> set bs \<longrightarrow> h' b = (h(a := None)) b" .
      then show ?thesis using PopHead s vs Cons dom_del [OF f, of bs] by (auto intro!: representsI)
    qed
  next
    case PopTail
    show ?thesis
    proof (cases as rule: rev_cases)
      case Nil
      then show ?thesis using PopTail s ok f vs by (auto simp: list_pop_empty intro!: representsI)
    next
      case (snoc bs a)
      from list_rpop_law [OF ok [unfolded snoc]] obtain h' l' where
        "list_rpop h l = Some (h', l', Some (node_value (the (h a))))" "dlist_ok h' l' bs" "vals h' bs = vals h bs"
        "\<forall>b. b \<notin> set bs \<longrightarrow> h' b = (h(a := None)) b" .
      then show ?thesis using PopTail s vs snoc dom_del [OF f, of bs] by (auto intro!: representsI)
    qed
  next
    case RotateHead
    show ?thesis
    proof (cases as)
      case Nil
      then show ?thesis using RotateHead s ok f vs
        by (auto simp: list_rotate_head_to_tail_def dlist_ok_def represents_def)
    next
      case (Cons a bs)
      from list_rotate_head_to_tail_law [OF ok [unfolded Cons]] obtain h' l' where
        r: "list_rotate_head_to_tail h l = Some (h', l')" "dlist_ok h' l' (bs @ [a])" "same_vals h h'" .
      have "vals h' (bs @ [a]) = vals h (bs @ [a])"
        using vals_same [OF r(3)] dlist_ok_alloc [OF ok] Cons by (metis set_ConsD list.set_intros rotate1.simps(2) set_rotate1)
      then show ?thesis using RotateHead s vs Cons r f dom_same [OF r(3)] by (auto intro!: representsI)
    qed
  next
    case RotateTail
    show ?thesis
    proof (cases as rule: rev_cases)
      case Nil
      then show ?thesis using RotateTail s ok f vs
        by (auto simp: list_rotate_tail_to_head_def dlist_ok_def represents_def)
    next
      case (snoc bs a)
      from list_rotate_tail_to_head_law [OF ok [unfolded snoc]] obtain h' l' where
        r: "list_rotate_tail_to_head h l = Some (h', l')" "dlist_ok h' l' (a # bs)" "same_vals h h'" .
      have "vals h' (a # bs) = vals h (a # bs)"
        using vals_same [OF r(3), of "a # bs"] dlist_ok_alloc [OF ok] snoc by auto
      then show ?thesis using RotateTail s vs snoc r f dom_same [OF r(3)] by (auto intro!: representsI)
    qed
  qed
qed

lemma deque_run_refines:
  assumes "fresh_alloc alloc" "represents s vs"
  shows "\<exists>s'. deque_run alloc s cs = Some (s', snd (deque_model vs cs)) \<and> represents s' (fst (deque_model vs cs))"
  using assms(2)
proof (induction cs arbitrary: s vs)
  case Nil
  then show ?case by simp
next
  case (Cons c cs)
  from deque_step_refines [OF assms(1) Cons.prems, of c] obtain s1 where
    "deque_step alloc s c = Some (s1, snd (deque_model_step vs c))" "represents s1 (fst (deque_model_step vs c))" by blast
  with Cons.IH [of s1 "fst (deque_model_step vs c)"] show ?case by (auto simp: case_prod_unfold)
qed

text \<open>C40. A linked list used as a deque (insertion and removal at both ends, rotation in both
  directions) never follows a bad pointer, gives the replies of a sequence, and both of its iterators then
  visit that sequence, forwards and backwards, whatever fresh addresses the allocator returns.\<close>

theorem list_refines_deque:
  assumes "fresh_alloc alloc" "finite (dom h)"
  shows "\<exists>h' l'. deque_run alloc (h, list_new) cs = Some ((h', l'), snd (deque_model [] cs))
    \<and> len l' = length (fst (deque_model [] cs))
    \<and> iterate_all (list_get_latte_iterator h' l' False) = Some (fst (deque_model [] cs))
    \<and> iterate_all (list_get_latte_iterator h' l' True) = Some (rev (fst (deque_model [] cs)))"
proof -
  have "represents (h, list_new) []" using assms(2) by (auto simp: represents_def dlist_ok_def list_new_def)
  from deque_run_refines [OF assms(1) this, of cs] obtain h' l' as where
    r: "deque_run alloc (h, list_new) cs = Some ((h', l'), snd (deque_model [] cs))" "dlist_ok h' l' as"
      "vals h' as = fst (deque_model [] cs)" by (auto simp: represents_def)
  have "vals h' (rev as) = rev (vals h' as)" "length (vals h' as) = length as" by (simp_all add: vals_def rev_map)
  then show ?thesis
    using r list_get_latte_iterator_law [OF r(2)] dlist_okD(5) [OF r(2)] by (auto simp: dir_def)
qed

definition top_alloc :: "'v heap \<Rightarrow> addr" where
  "top_alloc h = Suc (Max (insert 0 (dom h)))"

lemma top_alloc_fresh: "fresh_alloc (top_alloc :: 'a heap \<Rightarrow> addr)"
proof -
  have "h (Suc (Max (insert 0 (dom h)))) = None" if "finite (dom h)" for h :: "'a heap"
  proof (rule ccontr)
    assume "h (Suc (Max (insert 0 (dom h)))) \<noteq> None"
    then have "Suc (Max (insert 0 (dom h))) \<in> insert 0 (dom h)" by (simp add: domIff)
    then have "Suc (Max (insert 0 (dom h))) \<le> Max (insert 0 (dom h))" using that by (intro Max_ge) auto
    then show False by simp
  qed
  then show ?thesis by (simp add: fresh_alloc_def top_alloc_def)
qed

theorem list_refines_deque_witness:
  "\<exists>h' l'. deque_run top_alloc (Map.empty, list_new) [PushTail (1 :: nat), PushHead 2, PushTail 3, RotateTail, PopHead]
      = Some ((h', l'), [None, None, None, None, Some 3]) \<and> len l' = 2
    \<and> iterate_all (list_get_latte_iterator h' l' True) = Some [1, 2]"
  using list_refines_deque [OF top_alloc_fresh, of Map.empty "[PushTail (1 :: nat), PushHead 2, PushTail 3, RotateTail, PopHead]"]
  by auto

text \<open>\<open>list_dup\<close> copies: unless the copy function fails on a value, the result is a new list of
  the copies in order; when it fails the nodes made so far are freed and no list is returned. The original
  is not changed in either case.\<close>

theorem list_dup_copies:
  assumes "fresh_alloc alloc" "finite (dom h)" "dlist_ok h l as"
  shows "\<exists>h' r. list_dup alloc (Some dup) h l = Some (h', r) \<and> dlist_ok h' l as \<and> vals h' as = vals h as
    \<and> (if \<forall>v \<in> set (vals h as). dup v \<noteq> None
       then \<exists>copy cs. r = Some copy \<and> dlist_ok h' copy cs \<and> vals h' cs = map (the \<circ> dup) (vals h as)
       else r = None)"
proof -
  have "dlist_ok h list_new []" by (simp add: dlist_ok_def list_new_def)
  with list_dup_loop_law [OF assms(1,2), of l "[]" as list_new "[]" "list_rewind l" dup] assms(3) dlist_okD(3) [OF assms(3)]
  obtain h' r where r: "list_dup alloc (Some dup) h l = Some (h', r)" "\<forall>a \<in> set as. h' a = h a"
    "if \<forall>v \<in> set (vals h as). dup v \<noteq> None
     then \<exists>copy cs. r = Some copy \<and> dlist_ok h' copy cs \<and> vals h' cs = map (the \<circ> dup) (vals h as)
     else r = None" by (auto simp: list_dup_def list_rewind_def cong: if_cong)
  have "dlist_ok h' l as" "vals h' as = vals h as"
    using r(2) dlist_ok_cong [OF assms(3)] by (auto intro: vals_cong)
  with r show ?thesis by blast
qed

theorem list_dup_copies_witness:
  "\<exists>h' r. list_dup top_alloc (Some (\<lambda>v. if v = (0 :: nat) then None else Some (v + 1)))
      [1 \<mapsto> \<lparr>prev_of = None, next_of = Some 2, node_value = 5\<rparr>, 2 \<mapsto> \<lparr>prev_of = Some 1, next_of = None, node_value = 7\<rparr>]
      \<lparr>head = Some 1, tail = Some 2, len = 2\<rparr> = Some (h', Some r) \<and> (\<exists>cs. dlist_ok h' r cs \<and> vals h' cs = [6, 8])"
  using list_dup_copies [OF top_alloc_fresh, of
      "[1 \<mapsto> \<lparr>prev_of = None, next_of = Some 2, node_value = 5\<rparr>, 2 \<mapsto> \<lparr>prev_of = Some 1, next_of = None, node_value = 7\<rparr>]"
      "\<lparr>head = Some 1, tail = Some 2, len = 2\<rparr>" "[1, 2]" "\<lambda>v. if v = (0 :: nat) then None else Some (v + 1)"]
  by (auto simp: dlist_ok_def)

end
