(* ===== verification/LruCache.thy ===== *)
theory LruCache
  imports DList HashSet
begin

text \<open>
  \<open>src/cache/lru_cache.c\<close>: a cache of key-value pairs ordered by last use. The pairs are the values
  of the nodes of a linked list, the most recently used first; a dictionary maps every key to its node.
  The model composes the operations of \<open>DList\<close> and \<open>Dict\<close> as the code does, on one heap of nodes.
  The pair of a node is stored in the node: nothing else points to it.
\<close>

section \<open>Operations\<close>

record ('k, 'v) lru_cache =
  nodes :: "('k \<times> 'v) heap"
  lru_list :: dlist
  searcher :: "('k, addr) dict"

definition lru_cache_new :: "('k \<times> 'v) heap \<Rightarrow> ('k, 'v) lru_cache" where
  "lru_cache_new h = \<lparr>nodes = h, lru_list = list_new, searcher = dict_new\<rparr>"

definition lru_cache_len :: "('k, 'v) lru_cache \<Rightarrow> nat" where
  "lru_cache_len c = dict_size (searcher c)"

text \<open>\<open>dict_find\<close> followed by the value of the entry, a node of the list.\<close>

definition find_node ::
  "('k, addr) dict_func \<Rightarrow> ('k, 'v) lru_cache \<Rightarrow> 'k \<Rightarrow> (('k, 'v) lru_cache \<times> addr option) option" where
  "find_node ty c key =
     do {
       (d, entry) \<leftarrow> dict_find ty (searcher c) key;
       case entry of
         None \<Rightarrow> Some (c\<lparr>searcher := d\<rparr>, None)
       | Some e \<Rightarrow> do { kv \<leftarrow> dict_entry_at d e; Some (c\<lparr>searcher := d\<rparr>, Some (snd kv)) }
     }"

definition lru_cache_get ::
  "('k, addr) dict_func \<Rightarrow> ('k, 'v) lru_cache \<Rightarrow> 'k \<Rightarrow> (('k, 'v) lru_cache \<times> ('k \<times> 'v) option) option" where
  "lru_cache_get ty c key =
     do {
       (c, node) \<leftarrow> find_node ty c key;
       if node = None then Some (c, None)
       else do {
         (h, l) \<leftarrow> list_move_head (nodes c) (lru_list c) node;
         n \<leftarrow> deref h node;
         Some (c\<lparr>nodes := h, lru_list := l\<rparr>, Some (node_value n))
       }
     }"

definition lru_cache_put ::
  "('k, addr) dict_func \<Rightarrow> addr \<Rightarrow> (('k \<times> 'v) heap \<Rightarrow> addr) \<Rightarrow> ('k, 'v) lru_cache \<Rightarrow> 'k \<Rightarrow> 'v \<Rightarrow>
   (('k, 'v) lru_cache \<times> int) option" where
  "lru_cache_put ty junk alloc c key val =
     do {
       (c, node) \<leftarrow> find_node ty c key;
       case node of
         Some a \<Rightarrow> do {
           n \<leftarrow> nodes c a;
           (h, l) \<leftarrow> list_move_head ((nodes c)(a \<mapsto> n\<lparr>node_value := (fst (node_value n), val)\<rparr>)) (lru_list c) node;
           Some (c\<lparr>nodes := h, lru_list := l\<rparr>, 0)
         }
       | None \<Rightarrow> do {
           (h, l) \<leftarrow> list_add_node_head (nodes c) (lru_list c) (alloc (nodes c)) (key, val);
           a \<leftarrow> head l;
           (d, r) \<leftarrow> dict_add ty junk (searcher c) key a;
           Some (c\<lparr>nodes := h, lru_list := l, searcher := d\<rparr>, if r = DICT_OK then 1 else - 1)
         }
     }"

definition lru_cache_remove ::
  "('k, addr) dict_func \<Rightarrow> ('k, 'v) lru_cache \<Rightarrow> 'k \<Rightarrow> ('k, 'v) lru_cache option" where
  "lru_cache_remove ty c key =
     do {
       (c, node) \<leftarrow> find_node ty c key;
       if node = None then Some c
       else do {
         (h, l) \<leftarrow> list_del_node (nodes c) (lru_list c) node;
         (d, r) \<leftarrow> dict_delete_key ty (searcher c) key;
         Some (c\<lparr>nodes := h, lru_list := l, searcher := d\<rparr>)
       }
     }"

text \<open>The assertion fails, like a bad pointer, with \<open>None\<close>.\<close>

definition lru_cache_pop :: "('k, addr) dict_func \<Rightarrow> ('k, 'v) lru_cache \<Rightarrow> ('k, 'v) lru_cache option" where
  "lru_cache_pop ty c =
     do {
       n \<leftarrow> deref (nodes c) (tail (lru_list c));
       (d, r) \<leftarrow> dict_delete_key ty (searcher c) (fst (node_value n));
       if r \<noteq> DICT_OK then None
       else do {
         (h, l) \<leftarrow> list_del_node (nodes c) (lru_list c) (tail (lru_list c));
         Some (c\<lparr>nodes := h, lru_list := l, searcher := d\<rparr>)
       }
     }"

definition lru_cache_get_iterator ::
  "('k, 'v) lru_cache \<Rightarrow> (('k \<times> 'v) latte_list_iterator, 'k \<times> 'v) latte_iterator" where
  "lru_cache_get_iterator c = list_get_latte_iterator (nodes c) (lru_list c) False"

section \<open>Specification\<close>

text \<open>A sequence of pairs, the most recently used first.\<close>

definition without :: "'k \<Rightarrow> ('k \<times> 'v) list \<Rightarrow> ('k \<times> 'v) list" where
  "without k ps = filter (\<lambda>p. fst p \<noteq> k) ps"

datatype ('k, 'v) lru_op = LGet 'k | LPut 'k 'v | LRemove 'k | LPop

datatype ('k, 'v) lru_reply = Pair "('k \<times> 'v) option" | Code int | Void

fun lru_step ::
  "('k, addr) dict_func \<Rightarrow> addr \<Rightarrow> (('k \<times> 'v) heap \<Rightarrow> addr) \<Rightarrow> ('k, 'v) lru_cache \<Rightarrow> ('k, 'v) lru_op \<Rightarrow>
   (('k, 'v) lru_cache \<times> ('k, 'v) lru_reply) option" where
  "lru_step ty junk alloc c (LGet k) = map_option (\<lambda>(c, r). (c, Pair r)) (lru_cache_get ty c k)"
| "lru_step ty junk alloc c (LPut k v) = map_option (\<lambda>(c, r). (c, Code r)) (lru_cache_put ty junk alloc c k v)"
| "lru_step ty junk alloc c (LRemove k) = map_option (\<lambda>c. (c, Void)) (lru_cache_remove ty c k)"
| "lru_step ty junk alloc c LPop = map_option (\<lambda>c. (c, Void)) (lru_cache_pop ty c)"

fun lru_run ::
  "('k, addr) dict_func \<Rightarrow> addr \<Rightarrow> (('k \<times> 'v) heap \<Rightarrow> addr) \<Rightarrow> ('k, 'v) lru_cache \<Rightarrow> ('k, 'v) lru_op list \<Rightarrow>
   (('k, 'v) lru_cache \<times> ('k, 'v) lru_reply list) option" where
  "lru_run ty junk alloc c [] = Some (c, [])"
| "lru_run ty junk alloc c (p # ps) =
     do { (c, r) \<leftarrow> lru_step ty junk alloc c p; (c, rs) \<leftarrow> lru_run ty junk alloc c ps; Some (c, r # rs) }"

text \<open>Popping an empty cache is the only operation with undefined behaviour.\<close>

fun lru_spec :: "('k \<times> 'v) list \<Rightarrow> ('k, 'v) lru_op \<Rightarrow> (('k \<times> 'v) list \<times> ('k, 'v) lru_reply) option" where
  "lru_spec ps (LGet k) =
     Some (case map_of ps k of None \<Rightarrow> (ps, Pair None) | Some v \<Rightarrow> ((k, v) # without k ps, Pair (Some (k, v))))"
| "lru_spec ps (LPut k v) = Some ((k, v) # without k ps, Code (if map_of ps k = None then 1 else 0))"
| "lru_spec ps (LRemove k) = Some (without k ps, Void)"
| "lru_spec ps LPop = (if ps = [] then None else Some (butlast ps, Void))"

fun lru_model :: "('k \<times> 'v) list \<Rightarrow> ('k, 'v) lru_op list \<Rightarrow> (('k \<times> 'v) list \<times> ('k, 'v) lru_reply list) option" where
  "lru_model ps [] = Some (ps, [])"
| "lru_model ps (c # cs) = do { (ps, r) \<leftarrow> lru_spec ps c; (ps, rs) \<leftarrow> lru_model ps cs; Some (ps, r # rs) }"

fun lru_key_ok :: "('k \<Rightarrow> bool) \<Rightarrow> ('k, 'v) lru_op \<Rightarrow> bool" where
  "lru_key_ok valid (LGet k) = valid k"
| "lru_key_ok valid (LPut k v) = valid k"
| "lru_key_ok valid (LRemove k) = valid k"
| "lru_key_ok valid LPop = True"

section \<open>Refinement\<close>

definition key_at :: "('k \<times> 'v) heap \<Rightarrow> addr \<Rightarrow> 'k" where
  "key_at h a = fst (node_value (the (h a)))"

text \<open>The dictionary maps a key to the node of the list that holds it.\<close>

definition indexed :: "('k, 'v) lru_cache \<Rightarrow> addr list \<Rightarrow> bool" where
  "indexed c as \<longleftrightarrow> finite (dom (nodes c)) \<and> dlist_ok (nodes c) (lru_list c) as
     \<and> (\<forall>k a. dict_map (searcher c) k = Some a \<longleftrightarrow> a \<in> set as \<and> key_at (nodes c) a = k)"

lemma key_in_vals: "p \<in> set (vals h as) \<Longrightarrow> \<exists>a \<in> set as. key_at h a = fst p \<and> p = node_value (the (h a))"
  by (auto simp: vals_def key_at_def)

lemma indexed_absent: "indexed c as \<Longrightarrow> dict_map (searcher c) k = None \<Longrightarrow>
    map_of (vals (nodes c) as) k = None \<and> without k (vals (nodes c) as) = vals (nodes c) as"
proof -
  assume i: "indexed c as" "dict_map (searcher c) k = None"
  have "fst p \<noteq> k" if p: "p \<in> set (vals (nodes c) as)" for p
  proof
    assume "fst p = k"
    with key_in_vals [OF p] obtain a where "a \<in> set as" "key_at (nodes c) a = k" by auto
    then have "dict_map (searcher c) k = Some a" using i(1) by (simp add: indexed_def)
    with i(2) show False by simp
  qed
  then show ?thesis by (force simp: map_of_eq_None_iff without_def filter_id_conv)
qed

lemma indexed_present:
  assumes i: "indexed c as" "dict_map (searcher c) k = Some a"
  obtains xs ys v where "as = xs @ a # ys" "node_value (the (nodes c a)) = (k, v)" "map_of (vals (nodes c) as) k = Some v"
    "without k (vals (nodes c) as) = vals (nodes c) (xs @ ys)" "\<forall>b \<in> set (xs @ ys). key_at (nodes c) b \<noteq> k"
proof -
  let ?h = "nodes c"
  have a: "a \<in> set as" "key_at ?h a = k" and ok: "dlist_ok ?h (lru_list c) as" using i by (auto simp: indexed_def)
  then obtain xs ys where as: "as = xs @ a # ys" by (metis in_set_conv_decomp)
  obtain v where v: "node_value (the (?h a)) = (k, v)" using a(2) by (cases "node_value (the (?h a))") (simp add: key_at_def)
  have ne: "\<forall>b \<in> set (xs @ ys). key_at ?h b \<noteq> k"
  proof
    fix b assume b: "b \<in> set (xs @ ys)"
    show "key_at ?h b \<noteq> k"
    proof
      assume "key_at ?h b = k"
      then have "dict_map (searcher c) k = Some b" using i(1) b as by (simp add: indexed_def)
      with i(2) b as dlist_okD(1) [OF ok] show False by auto
    qed
  qed
  have f: "filter (\<lambda>p. fst p \<noteq> k) (vals ?h zs) = vals ?h zs" "map_of (vals ?h zs) k = None" if "set zs \<subseteq> set (xs @ ys)" for zs
    using that ne by (auto simp: filter_id_conv vals_def key_at_def map_of_eq_None_iff)
  have "map_of (vals ?h as) k = Some v" using f(2) [of xs] v by (simp add: as map_add_def)
  moreover have "without k (vals ?h as) = vals ?h (xs @ ys)"
    using f(1) [of xs] f(1) [of ys] v by (simp add: as without_def)
  ultimately show ?thesis using that as v ne by blast
qed

text \<open>The heap after an operation agrees with the one before on keys and values.\<close>

lemma same_key: "same_vals h h' \<Longrightarrow> h a \<noteq> None \<Longrightarrow> node_value (the (h' a)) = node_value (the (h a))"
  using vals_same [of h h' "[a]"] by simp

text \<open>Writing the value of a node does not change its list.\<close>

lemma seg_value: "seg h p as n \<Longrightarrow> h a = Some nd \<Longrightarrow> seg (h(a \<mapsto> nd\<lparr>node_value := v\<rparr>)) p as n"
  by (induction as arbitrary: p) auto

lemma dlist_ok_value: "dlist_ok h l as \<Longrightarrow> h a = Some nd \<Longrightarrow> dlist_ok (h(a \<mapsto> nd\<lparr>node_value := v\<rparr>)) l as"
  by (simp add: dlist_ok_def seg_value)

locale lru_cache_type = dict_type ty valid for ty :: "('k, addr) dict_func" and valid
begin

definition lru_inv :: "('k, 'v) lru_cache \<Rightarrow> addr list \<Rightarrow> bool" where
  "lru_inv c as \<longleftrightarrow> dict_inv (searcher c) \<and> indexed c as"

text \<open>Looking a key up changes at most the representation of the dictionary.\<close>

lemma find_node_law:
  assumes inv: "lru_inv c as" and k: "valid k"
  obtains c' where "find_node ty c k = Some (c', dict_map (searcher c) k)" "lru_inv c' as"
    "nodes c' = nodes c" "lru_list c' = lru_list c" "dict_map (searcher c') = dict_map (searcher c)"
proof -
  have d: "dict_inv (searcher c)" using inv by (simp add: lru_inv_def)
  show ?thesis
  proof (rule dict_find_law [OF d k], goal_cases)
    case (1 d')
    then show ?thesis using that [of "c\<lparr>searcher := d'\<rparr>"] inv
      by (simp add: find_node_def lru_inv_def indexed_def)
  next
    case (2 d' l a)
    then show ?thesis using that [of "c\<lparr>searcher := d'\<rparr>"] inv loc_ok_entry [OF 2(5)]
      by (cases l) (simp add: find_node_def lru_inv_def indexed_def)
  qed
qed

lemma move_head_inv:
  assumes inv: "lru_inv c (xs @ a # ys)"
  obtains h l where "list_move_head (nodes c) (lru_list c) (Some a) = Some (h, l)"
    "lru_inv (c\<lparr>nodes := h, lru_list := l\<rparr>) (a # xs @ ys)"
    "vals h (a # xs @ ys) = vals (nodes c) (a # xs @ ys)" "h a \<noteq> None"
proof -
  have ok: "dlist_ok (nodes c) (lru_list c) (xs @ a # ys)" and f: "finite (dom (nodes c))"
    using inv by (auto simp: lru_inv_def indexed_def)
  from list_move_head_law [OF ok] obtain h l where
    m: "list_move_head (nodes c) (lru_list c) (Some a) = Some (h, l)" "dlist_ok h l (a # xs @ ys)" "same_vals (nodes c) h"
      "\<forall>b. b \<notin> set (a # xs @ ys) \<longrightarrow> h b = nodes c b" .
  have nv: "node_value (the (h b)) = node_value (the (nodes c b))" if "b \<in> set (a # xs @ ys)" for b
    using same_key [OF m(3)] dlist_ok_alloc [OF ok] that by auto
  then have "lru_inv (c\<lparr>nodes := h, lru_list := l\<rparr>) (a # xs @ ys)"
    using inv m(2) f dom_same [OF m(3)] by (auto simp: lru_inv_def indexed_def key_at_def)
  moreover have "vals h (a # xs @ ys) = vals (nodes c) (a # xs @ ys)" using nv by (simp add: vals_def)
  ultimately show ?thesis using that m(1) dlist_ok_alloc [OF m(2), of a] by simp
qed

lemma lru_cache_get_law:
  assumes inv: "lru_inv c as" and k: "valid k" and ps: "ps = vals (nodes c) as"
  shows "\<exists>c' as' r. lru_cache_get ty c k = Some (c', r) \<and> lru_inv c' as'
    \<and> lru_spec ps (LGet k) = Some (vals (nodes c') as', Pair r) \<and> length as' = length as"
proof -
  have ix: "indexed c as" using inv by (simp add: lru_inv_def)
  from find_node_law [OF inv k] obtain c1 where
    c1: "find_node ty c k = Some (c1, dict_map (searcher c) k)" "lru_inv c1 as" "nodes c1 = nodes c"
      "lru_list c1 = lru_list c" "dict_map (searcher c1) = dict_map (searcher c)" .
  show ?thesis
  proof (cases "dict_map (searcher c) k")
    case None
    then have "lru_cache_get ty c k = Some (c1, None)" using c1(1) by (simp add: lru_cache_get_def)
    then show ?thesis using c1(2,3) indexed_absent [OF ix None] by (auto simp: ps)
  next
    case (Some a)
    from indexed_present [OF ix Some] obtain xs ys v where
      p: "as = xs @ a # ys" "node_value (the (nodes c a)) = (k, v)" "map_of (vals (nodes c) as) k = Some v"
        "without k (vals (nodes c) as) = vals (nodes c) (xs @ ys)" .
    from move_head_inv [OF c1(2) [unfolded p(1)]] obtain h l where
      m: "list_move_head (nodes c) (lru_list c) (Some a) = Some (h, l)" "lru_inv (c1\<lparr>nodes := h, lru_list := l\<rparr>) (a # xs @ ys)"
        "vals h (a # xs @ ys) = vals (nodes c) (a # xs @ ys)" "h a \<noteq> None" using c1(3,4) by auto
    have "lru_cache_get ty c k = Some (c1\<lparr>nodes := h, lru_list := l\<rparr>, Some (k, v))"
      using c1 Some m(1,3,4) p(2) by (auto simp: lru_cache_get_def)
    moreover have "lru_spec ps (LGet k) = Some (vals h (a # xs @ ys), Pair (Some (k, v)))"
      using p m(3) by (simp add: ps)
    ultimately show ?thesis using m(2) p(1) by (intro exI [of _ "c1\<lparr>nodes := h, lru_list := l\<rparr>"] exI [of _ "a # xs @ ys"]) simp
  qed
qed

text \<open>A node and its key are removed together, in either order.\<close>

lemma delete_node_inv:
  assumes inv: "lru_inv c (xs @ a # ys)" and k: "key_at (nodes c) a = k" "dict_map (searcher c) k = Some a" "valid k"
  obtains h l d where "list_del_node (nodes c) (lru_list c) (Some a) = Some (h, l)"
    "dict_delete_key ty (searcher c) k = Some (d, DICT_OK)"
    "lru_inv (c\<lparr>nodes := h, lru_list := l, searcher := d\<rparr>) (xs @ ys)" "vals h (xs @ ys) = vals (nodes c) (xs @ ys)"
proof -
  have ok: "dlist_ok (nodes c) (lru_list c) (xs @ a # ys)" and f: "finite (dom (nodes c))" and d: "dict_inv (searcher c)"
    and ix: "\<And>k b. dict_map (searcher c) k = Some b \<longleftrightarrow> b \<in> set (xs @ a # ys) \<and> key_at (nodes c) b = k"
    using inv by (auto simp: lru_inv_def indexed_def)
  from list_del_node_law [OF ok] obtain h l where
    m: "list_del_node (nodes c) (lru_list c) (Some a) = Some (h, l)" "dlist_ok h l (xs @ ys)"
      "vals h (xs @ ys) = vals (nodes c) (xs @ ys)" "\<forall>b. b \<notin> set (xs @ ys) \<longrightarrow> h b = ((nodes c)(a := None)) b" .
  from dict_delete_key_law [OF d k(3)] k(2) obtain d' where
    d': "dict_delete_key ty (searcher c) k = Some (d', DICT_OK)" "dict_inv d'" "dict_map d' = (dict_map (searcher c))(k := None)"
    by auto
  have nv: "key_at h b = key_at (nodes c) b" if "b \<in> set (xs @ ys)" for b
    using m(3) that by (simp add: vals_def key_at_def) fastforce
  have "dict_map d' k' = Some b \<longleftrightarrow> b \<in> set (xs @ ys) \<and> key_at h b = k'" for k' b
    using ix [of k' b] ix [of k b] k nv d'(3) dlist_okD(1) [OF ok] by auto
  then have "lru_inv (c\<lparr>nodes := h, lru_list := l, searcher := d'\<rparr>) (xs @ ys)"
    using m(2) d'(2) dom_del [OF f m(4)] by (simp add: lru_inv_def indexed_def)
  then show ?thesis using that m(1,3) d'(1) by blast
qed

lemma lru_cache_remove_law:
  assumes inv: "lru_inv c as" and k: "valid k" and ps: "ps = vals (nodes c) as"
  shows "\<exists>c' as'. lru_cache_remove ty c k = Some c' \<and> lru_inv c' as'
    \<and> lru_spec ps (LRemove k) = Some (vals (nodes c') as', Void) \<and> length as' \<le> length as"
proof -
  have ix: "indexed c as" using inv by (simp add: lru_inv_def)
  from find_node_law [OF inv k] obtain c1 where
    c1: "find_node ty c k = Some (c1, dict_map (searcher c) k)" "lru_inv c1 as" "nodes c1 = nodes c"
      "lru_list c1 = lru_list c" "dict_map (searcher c1) = dict_map (searcher c)" .
  show ?thesis
  proof (cases "dict_map (searcher c) k")
    case None
    then have "lru_cache_remove ty c k = Some c1" using c1(1) by (simp add: lru_cache_remove_def)
    then show ?thesis using c1(2,3) indexed_absent [OF ix None] by (auto simp: ps)
  next
    case (Some a)
    from indexed_present [OF ix Some] obtain xs ys v where
      p: "as = xs @ a # ys" "node_value (the (nodes c a)) = (k, v)" "map_of (vals (nodes c) as) k = Some v"
        "without k (vals (nodes c) as) = vals (nodes c) (xs @ ys)" "\<forall>b \<in> set (xs @ ys). key_at (nodes c) b \<noteq> k" .
    from delete_node_inv [OF c1(2) [unfolded p(1)], of k] k p c1(3) Some c1(5) obtain h l d where
      m: "list_del_node (nodes c) (lru_list c) (Some a) = Some (h, l)" "dict_delete_key ty (searcher c1) k = Some (d, DICT_OK)"
        "lru_inv (c1\<lparr>nodes := h, lru_list := l, searcher := d\<rparr>) (xs @ ys)" "vals h (xs @ ys) = vals (nodes c) (xs @ ys)"
      using c1(4) by (auto simp: key_at_def)
    then have "lru_cache_remove ty c k = Some (c1\<lparr>nodes := h, lru_list := l, searcher := d\<rparr>)"
      using c1 Some by (simp add: lru_cache_remove_def)
    then show ?thesis using m(3,4) p(1,4) by (intro exI [of _ "c1\<lparr>nodes := h, lru_list := l, searcher := d\<rparr>"] exI [of _ "xs @ ys"]) (simp add: ps)
  qed
qed

text \<open>A new pair goes to the head of the list and into the dictionary.\<close>

lemma put_new_inv:
  assumes inv: "lru_inv c as" and k: "valid k" "dict_map (searcher c) k = None" and al: "fresh_alloc alloc" and n: "length as < 2 ^ 58"
  obtains h l a d where "list_add_node_head (nodes c) (lru_list c) (alloc (nodes c)) (k, v) = Some (h, l)" "head l = Some a"
    "dict_add ty junk (searcher c) k a = Some (d, DICT_OK)"
    "lru_inv (c\<lparr>nodes := h, lru_list := l, searcher := d\<rparr>) (a # as)" "vals h (a # as) = (k, v) # vals (nodes c) as"
proof -
  have ok: "dlist_ok (nodes c) (lru_list c) as" and f: "finite (dom (nodes c))" and d: "dict_inv (searcher c)"
    and ix: "\<And>k b. dict_map (searcher c) k = Some b \<longleftrightarrow> b \<in> set as \<and> key_at (nodes c) b = k"
    using inv by (auto simp: lru_inv_def indexed_def)
  let ?a = "alloc (nodes c)"
  have fr: "nodes c ?a = None" using fresh_allocD [OF al f] .
  from list_add_node_head_law [OF ok fr, of "(k, v)"] obtain h l where
    m: "list_add_node_head (nodes c) (lru_list c) ?a (k, v) = Some (h, l)" "dlist_ok h l (?a # as)"
      "vals h (?a # as) = (k, v) # vals (nodes c) as" "\<forall>b. b \<notin> set (?a # as) \<longrightarrow> h b = nodes c b" .
  have "dom (dict_map (searcher c)) = key_at (nodes c) ` set as" using ix by (auto simp: dom_def)
  then have "length (dict_list (searcher c)) \<le> length as"
    using dict_list_card [OF d] card_image_le [of "set as" "key_at (nodes c)"] card_length [of as] by simp
  then have "length (dict_list (searcher c)) < 2 ^ 58" using n by linarith
  from dict_add_law [OF d k(1) this, of junk ?a, unfolded k(2) simp_thms if_True] obtain d' where
    d': "dict_add ty junk (searcher c) k ?a = Some (d', DICT_OK)" "dict_inv d'" "dict_map d' = (dict_map (searcher c))(k \<mapsto> ?a)" .
  have nv: "key_at h b = key_at (nodes c) b" if "b \<in> set as" for b
    using m(3) that by (simp add: vals_def key_at_def)
  have "key_at h ?a = k" using m(3) by (simp add: key_at_def)
  then have "dict_map d' k' = Some b \<longleftrightarrow> b \<in> set (?a # as) \<and> key_at h b = k'" for k' b
    using ix [of k' b] k(2) nv d'(3) fresh_notin [OF ok fr] by (cases "b = ?a") auto
  then have "lru_inv (c\<lparr>nodes := h, lru_list := l, searcher := d'\<rparr>) (?a # as)"
    using m(2) d'(2) dom_finite [OF f m(4)] by (simp add: lru_inv_def indexed_def)
  then show ?thesis using that m(1,3) d'(1) dlist_okD(3) [OF m(2)] by simp
qed

lemma lru_cache_put_law:
  assumes inv: "lru_inv c as" and k: "valid k" and ps: "ps = vals (nodes c) as"
    and al: "fresh_alloc alloc" and n: "length as < 2 ^ 58"
  shows "\<exists>c' as' r. lru_cache_put ty junk alloc c k v = Some (c', r) \<and> lru_inv c' as'
    \<and> lru_spec ps (LPut k v) = Some (vals (nodes c') as', Code r) \<and> length as' \<le> Suc (length as)"
proof -
  have ix: "indexed c as" using inv by (simp add: lru_inv_def)
  from find_node_law [OF inv k] obtain c1 where
    c1: "find_node ty c k = Some (c1, dict_map (searcher c) k)" "lru_inv c1 as" "nodes c1 = nodes c"
      "lru_list c1 = lru_list c" "dict_map (searcher c1) = dict_map (searcher c)" .
  show ?thesis
  proof (cases "dict_map (searcher c) k")
    case None
    then have ps': "lru_spec ps (LPut k v) = Some ((k, v) # ps, Code 1)" using indexed_absent [OF ix None] by (simp add: ps)
    have "dict_map (searcher c1) k = None" using None c1(5) by simp
    from put_new_inv [OF c1(2) k this al n, of v junk, unfolded c1(3,4) ps [symmetric]] obtain h l a d where
      m: "list_add_node_head (nodes c) (lru_list c) (alloc (nodes c)) (k, v) = Some (h, l)" "head l = Some a"
        "dict_add ty junk (searcher c1) k a = Some (d, DICT_OK)"
        "lru_inv (c1\<lparr>nodes := h, lru_list := l, searcher := d\<rparr>) (a # as)" "vals h (a # as) = (k, v) # ps" .
    then have "lru_cache_put ty junk alloc c k v = Some (c1\<lparr>nodes := h, lru_list := l, searcher := d\<rparr>, 1)"
      using c1 None by (simp add: lru_cache_put_def)
    then show ?thesis using m(4,5) ps'
      by (intro exI [of _ "c1\<lparr>nodes := h, lru_list := l, searcher := d\<rparr>"] exI [of _ "a # as"]) simp
  next
    case (Some a)
    from indexed_present [OF ix Some] obtain xs ys w where
      p: "as = xs @ a # ys" "node_value (the (nodes c a)) = (k, w)" "map_of (vals (nodes c) as) k = Some w"
        "without k (vals (nodes c) as) = vals (nodes c) (xs @ ys)" "\<forall>b \<in> set (xs @ ys). key_at (nodes c) b \<noteq> k" .
    have ok: "dlist_ok (nodes c) (lru_list c) as" using ix by (simp add: indexed_def)
    then obtain nd where nd: "nodes c a = Some nd" "node_value nd = (k, w)"
      using dlist_ok_alloc [OF ok, of a] p(1,2) by auto
    let ?h = "(nodes c)(a \<mapsto> nd\<lparr>node_value := (k, v)\<rparr>)"
    have "indexed (c1\<lparr>nodes := ?h\<rparr>) as"
      using c1(2,3,4) dlist_ok_value [OF ok nd(1)] nd by (auto simp: lru_inv_def indexed_def key_at_def)
    then have inv': "lru_inv (c1\<lparr>nodes := ?h\<rparr>) (xs @ a # ys)" using c1(2) p(1) by (simp add: lru_inv_def)
    from move_head_inv [OF inv'] obtain h l where
      m': "list_move_head (nodes (c1\<lparr>nodes := ?h\<rparr>)) (lru_list (c1\<lparr>nodes := ?h\<rparr>)) (Some a) = Some (h, l)"
        "lru_inv ((c1\<lparr>nodes := ?h\<rparr>)\<lparr>nodes := h, lru_list := l\<rparr>) (a # xs @ ys)"
        "vals h (a # xs @ ys) = vals (nodes (c1\<lparr>nodes := ?h\<rparr>)) (a # xs @ ys)" .
    have m: "list_move_head ?h (lru_list c) (Some a) = Some (h, l)" "lru_inv (c1\<lparr>nodes := h, lru_list := l\<rparr>) (a # xs @ ys)"
      "vals h (a # xs @ ys) = vals ?h (a # xs @ ys)" using m' c1(4) by simp_all
    have "vals ?h (xs @ ys) = vals (nodes c) (xs @ ys)" using dlist_okD(1) [OF ok] p(1) by (intro vals_cong) auto
    then have "vals h (a # xs @ ys) = (k, v) # without k ps" using m(3) p(4) by (simp add: ps)
    moreover have "lru_cache_put ty junk alloc c k v = Some (c1\<lparr>nodes := h, lru_list := l\<rparr>, 0)"
      using c1 Some m(1) nd by (simp add: lru_cache_put_def)
    ultimately show ?thesis using m(2) p(1,3)
      by (intro exI [of _ "c1\<lparr>nodes := h, lru_list := l\<rparr>"] exI [of _ "a # xs @ ys"]) (simp add: ps)
  qed
qed

lemma lru_cache_pop_law:
  assumes inv: "lru_inv c as" and ps: "ps = vals (nodes c) as"
  shows "as \<noteq> [] \<Longrightarrow> \<exists>c' as'. lru_cache_pop ty c = Some c' \<and> lru_inv c' as'
    \<and> lru_spec ps LPop = Some (vals (nodes c') as', Void) \<and> length as' \<le> length as"
    "as = [] \<Longrightarrow> lru_cache_pop ty c = None \<and> lru_spec ps LPop = None"
proof -
  have ok: "dlist_ok (nodes c) (lru_list c) as" and ix: "indexed c as" and d: "dict_inv (searcher c)"
    using inv by (auto simp: lru_inv_def indexed_def)
  show "as = [] \<Longrightarrow> lru_cache_pop ty c = None \<and> lru_spec ps LPop = None"
    using dlist_okD(4) [OF ok] by (simp add: lru_cache_pop_def deref_def ps)
  assume "as \<noteq> []"
  then obtain xs a where as: "as = xs @ [a]" by (metis append_butlast_last_id)
  let ?k = "key_at (nodes c) a"
  have k: "dict_map (searcher c) ?k = Some a" using ix as by (simp add: indexed_def)
  then have "valid ?k" using d by (auto simp: dict_inv_def)
  from delete_node_inv [OF _ refl k this, of xs "[]"] inv as obtain h l d' where
    m: "list_del_node (nodes c) (lru_list c) (Some a) = Some (h, l)"
      "dict_delete_key ty (searcher c) ?k = Some (d', DICT_OK)"
      "lru_inv (c\<lparr>nodes := h, lru_list := l, searcher := d'\<rparr>) xs" "vals h xs = vals (nodes c) xs" by auto
  obtain nd where "nodes c a = Some nd" using dlist_ok_alloc [OF ok, of a] as by auto
  then have "lru_cache_pop ty c = Some (c\<lparr>nodes := h, lru_list := l, searcher := d'\<rparr>)"
    using m(1,2) dlist_okD(4) [OF ok] as by (simp add: lru_cache_pop_def key_at_def)
  moreover have "lru_spec ps LPop = Some (vals h xs, Void)" using m(4) as by (simp add: ps)
  ultimately show "\<exists>c' as'. lru_cache_pop ty c = Some c' \<and> lru_inv c' as'
    \<and> lru_spec ps LPop = Some (vals (nodes c') as', Void) \<and> length as' \<le> length as"
    using m(3) as by (intro exI [of _ "c\<lparr>nodes := h, lru_list := l, searcher := d'\<rparr>"] exI [of _ xs]) simp
qed

lemma lru_step_refines:
  assumes inv: "lru_inv c as" and k: "lru_key_ok valid p" and al: "fresh_alloc alloc" and n: "length as < 2 ^ 58"
  shows "(\<exists>c' as' r. lru_step ty junk alloc c p = Some (c', r) \<and> lru_inv c' as'
      \<and> lru_spec (vals (nodes c) as) p = Some (vals (nodes c') as', r) \<and> length as' \<le> Suc (length as))
    \<or> (lru_step ty junk alloc c p = None \<and> lru_spec (vals (nodes c) as) p = None)"
proof (cases p)
  case (LGet k)
  with lru_cache_get_law [OF inv _ refl, of k] k show ?thesis by (fastforce simp del: lru_spec.simps)
next
  case (LPut k v)
  with lru_cache_put_law [OF inv _ refl al n, of k junk v] k show ?thesis by (fastforce simp del: lru_spec.simps)
next
  case (LRemove k)
  with lru_cache_remove_law [OF inv _ refl, of k] k show ?thesis by (fastforce simp del: lru_spec.simps)
next
  case LPop
  with lru_cache_pop_law [OF inv refl] show ?thesis by (cases "as = []") (fastforce simp del: lru_spec.simps)+
qed

lemma lru_run_refines:
  assumes "lru_inv c as" "\<forall>p \<in> set cs. lru_key_ok valid p" "fresh_alloc alloc" "length as + length cs \<le> 2 ^ 58"
  shows "case lru_model (vals (nodes c) as) cs of
      None \<Rightarrow> lru_run ty junk alloc c cs = None
    | Some (ps, rs) \<Rightarrow> \<exists>c' as'. lru_run ty junk alloc c cs = Some (c', rs) \<and> lru_inv c' as' \<and> vals (nodes c') as' = ps"
  using assms
proof (induction cs arbitrary: c as)
  case Nil
  then show ?case by auto
next
  case (Cons p cs)
  have "length as < 2 ^ 58" using Cons.prems(4) by simp
  from lru_step_refines [OF Cons.prems(1) _ Cons.prems(3) this, of p junk] Cons.prems(2)
  consider (step) c' as' r where "lru_step ty junk alloc c p = Some (c', r)" "lru_inv c' as'"
      "lru_spec (vals (nodes c) as) p = Some (vals (nodes c') as', r)" "length as' \<le> Suc (length as)"
    | (stuck) "lru_step ty junk alloc c p = None" "lru_spec (vals (nodes c) as) p = None" by auto
  then show ?case
  proof cases
    case step
    have "length as' + length cs \<le> 2 ^ 58" using step(4) Cons.prems(4) by simp
    from Cons.IH [OF step(2) _ Cons.prems(3) this] Cons.prems(2) step(1,3) show ?thesis
      by (auto split: option.splits)
  next
    case stuck
    then show ?thesis by simp
  qed
qed

end

interpretation lru_sds: lru_cache_type "sds_key_set_dict_type seed" short_key for seed
  by unfold_locales

section \<open>Properties\<close>

text \<open>C26. An LRU cache with sds keys, through any sequence of lookups, insertions, removals and
  evictions, behaves like the sequence of its pairs ordered by last use: lookups and insertions move the
  pair to the front, an eviction drops the last one, and its iterator visits the pairs in that order. The
  dictionary and the list stay in step and no operation follows a bad pointer, except an eviction from
  an empty cache.\<close>

theorem lru_cache_refines_recency_list:
  fixes cs :: "(sds_key, 'v) lru_op list"
  assumes "fresh_alloc alloc" "finite (dom h)" "\<forall>p \<in> set cs. lru_key_ok short_key p" "length cs \<le> 2 ^ 58"
  shows "case lru_model [] cs of
      None \<Rightarrow> lru_run (sds_key_set_dict_type seed) junk alloc (lru_cache_new h) cs = None
    | Some (ps, rs) \<Rightarrow> \<exists>c'. lru_run (sds_key_set_dict_type seed) junk alloc (lru_cache_new h) cs = Some (c', rs)
        \<and> iterate_all (lru_cache_get_iterator c') = Some ps"
proof -
  have "lru_sds.lru_inv seed (lru_cache_new h :: (sds_key, 'v) lru_cache) []"
    using assms(2) by (simp add: lru_sds.lru_inv_def indexed_def lru_cache_new_def sds_keys.dict_new_inv dlist_ok_def list_new_def)
  from lru_sds.lru_run_refines [OF this assms(3,1), of junk] assms(4)
  have "case lru_model [] cs of
      None \<Rightarrow> lru_run (sds_key_set_dict_type seed) junk alloc (lru_cache_new h) cs = None
    | Some (ps, rs) \<Rightarrow> \<exists>c' as'. lru_run (sds_key_set_dict_type seed) junk alloc (lru_cache_new h) cs = Some (c', rs)
        \<and> lru_sds.lru_inv seed c' as' \<and> vals (nodes c') as' = ps" by simp
  moreover have "iterate_all (lru_cache_get_iterator c') = Some (vals (nodes c') as')" if "lru_sds.lru_inv seed c' as'"
    for c' :: "(sds_key, 'v) lru_cache" and as'
    using that list_get_latte_iterator_law [of "nodes c'" "lru_list c'" as' False]
    by (simp add: lru_sds.lru_inv_def indexed_def lru_cache_get_iterator_def dir_def)
  ultimately show ?thesis by (fastforce split: option.splits)
qed

theorem lru_cache_refines_recency_list_witness:
  "\<exists>c'. lru_run (sds_key_set_dict_type (replicate 16 1)) 0 top_alloc (lru_cache_new Map.empty)
      [LPut [1] (10 :: nat), LPut [2] 20, LGet [1], LPut [3] 30, LPop, LPut [1] 11]
    = Some (c', [Code 1, Code 1, Pair (Some ([1], 10)), Code 1, Void, Code 0])
    \<and> iterate_all (lru_cache_get_iterator c') = Some [([1], 11), ([3], 30)]"
  using lru_cache_refines_recency_list [OF top_alloc_fresh, of Map.empty
      "[LPut [1] (10 :: nat), LPut [2] 20, LGet [1], LPut [3] 30, LPop, LPut [1] 11]" "replicate 16 1" 0]
  by (simp add: short_key_def without_def)

end
