(* ===== verification/Listpack.thy ===== *)
theory Listpack
  imports Numconv IterSpec
begin

text \<open>
  \<open>src/listpack/listpack.c\<close>: a sequence of strings and integers in one block of memory,
  \<open>total-bytes (4) num-elements (2) entry ... entry 0xFF\<close>, where an entry is its encoding followed by
  the length of the encoding, written so that it can be read backwards. The block is the list of its
  bytes; its length is what \<open>zmalloc_size\<close> returns. A pointer into the block is its offset, and
  every access is checked: reading or writing outside the block and a failed \<open>latte_assert\<close> are
  \<open>None\<close>. \<open>usable n\<close> is the size the allocator gives to a request of \<open>n\<close> bytes, and \<open>junk\<close> the
  bytes it adds.
\<close>

section \<open>The header\<close>

type_synonym lp = "byte list"

abbreviation (input) LP_HDR_SIZE :: nat where "LP_HDR_SIZE \<equiv> 6"
abbreviation (input) LP_EOF :: byte where "LP_EOF \<equiv> 0xFF"
abbreviation (input) LIST_PACK_INTBUF_SIZE :: nat where "LIST_PACK_INTBUF_SIZE \<equiv> 21"

definition list_pack_set_total_bytes :: "lp \<Rightarrow> u32 \<Rightarrow> lp option" where
  "list_pack_set_total_bytes p v =
     mem_write p 0 [ucast v, ucast (drop_bit 8 v), ucast (drop_bit 16 v), ucast (drop_bit 24 v)]"

definition list_pack_get_total_bytes :: "lp \<Rightarrow> u32 option" where
  "list_pack_get_total_bytes p =
     do {
       b0 \<leftarrow> get_at p 0; b1 \<leftarrow> get_at p 1; b2 \<leftarrow> get_at p 2; b3 \<leftarrow> get_at p 3;
       Some (ucast b0 OR push_bit 8 (ucast b1) OR push_bit 16 (ucast b2) OR push_bit 24 (ucast b3))
     }"

definition list_pack_set_num_elements :: "lp \<Rightarrow> u32 \<Rightarrow> lp option" where
  "list_pack_set_num_elements p v = mem_write p 4 [ucast v, ucast (drop_bit 8 v)]"

definition list_pack_get_num_elements :: "lp \<Rightarrow> u32 option" where
  "list_pack_get_num_elements p =
     do { b4 \<leftarrow> get_at p 4; b5 \<leftarrow> get_at p 5; Some (ucast b4 OR push_bit 8 (ucast b5)) }"

text \<open>The block that \<open>zmalloc\<close> returns has at least the size asked for and holds anything.\<close>

definition list_pack_new :: "(nat \<Rightarrow> nat) \<Rightarrow> (nat \<Rightarrow> byte) \<Rightarrow> nat \<Rightarrow> lp option" where
  "list_pack_new usable junk capacity =
     do {
       let blk = map junk [0..<usable (if capacity > LP_HDR_SIZE + 1 then capacity else LP_HDR_SIZE + 1)];
       p \<leftarrow> list_pack_set_total_bytes blk (of_nat (LP_HDR_SIZE + 1));
       p \<leftarrow> list_pack_set_num_elements p 0;
       put_at p LP_HDR_SIZE LP_EOF
     }"

definition list_pack_bytes :: "lp \<Rightarrow> nat option" where
  "list_pack_bytes p = map_option unat (list_pack_get_total_bytes p)"

definition list_pack_shrink_to_fit :: "(nat \<Rightarrow> nat) \<Rightarrow> (nat \<Rightarrow> byte) \<Rightarrow> lp \<Rightarrow> lp option" where
  "list_pack_shrink_to_fit usable junk p =
     do { sz \<leftarrow> list_pack_bytes p; Some (if sz < length p then realloc junk p (usable sz) else p) }"

section \<open>Encodings\<close>

definition LP_ENCODING_IS_7BIT_UINT :: "byte \<Rightarrow> bool" where "LP_ENCODING_IS_7BIT_UINT b \<longleftrightarrow> b AND 0x80 = 0"
definition LP_ENCODING_IS_6BIT_STR :: "byte \<Rightarrow> bool" where "LP_ENCODING_IS_6BIT_STR b \<longleftrightarrow> b AND 0xC0 = 0x80"
definition LP_ENCODING_IS_13BIT_INT :: "byte \<Rightarrow> bool" where "LP_ENCODING_IS_13BIT_INT b \<longleftrightarrow> b AND 0xE0 = 0xC0"
definition LP_ENCODING_IS_12BIT_STR :: "byte \<Rightarrow> bool" where "LP_ENCODING_IS_12BIT_STR b \<longleftrightarrow> b AND 0xF0 = 0xE0"
definition LP_ENCODING_IS_16BIT_INT :: "byte \<Rightarrow> bool" where "LP_ENCODING_IS_16BIT_INT b \<longleftrightarrow> b AND 0xFF = 0xF1"
definition LP_ENCODING_IS_24BIT_INT :: "byte \<Rightarrow> bool" where "LP_ENCODING_IS_24BIT_INT b \<longleftrightarrow> b AND 0xFF = 0xF2"
definition LP_ENCODING_IS_32BIT_INT :: "byte \<Rightarrow> bool" where "LP_ENCODING_IS_32BIT_INT b \<longleftrightarrow> b AND 0xFF = 0xF3"
definition LP_ENCODING_IS_64BIT_INT :: "byte \<Rightarrow> bool" where "LP_ENCODING_IS_64BIT_INT b \<longleftrightarrow> b AND 0xFF = 0xF4"
definition LP_ENCODING_IS_32BIT_STR :: "byte \<Rightarrow> bool" where "LP_ENCODING_IS_32BIT_STR b \<longleftrightarrow> b AND 0xFF = 0xF0"

definition LP_ENCODING_6BIT_STR_LEN :: "lp \<Rightarrow> nat \<Rightarrow> u32 option" where
  "LP_ENCODING_6BIT_STR_LEN m p = do { b0 \<leftarrow> get_at m p; Some (ucast (b0 AND 0x3F)) }"

definition LP_ENCODING_12BIT_STR_LEN :: "lp \<Rightarrow> nat \<Rightarrow> u32 option" where
  "LP_ENCODING_12BIT_STR_LEN m p =
     do { b0 \<leftarrow> get_at m p; b1 \<leftarrow> get_at m (p + 1); Some (push_bit 8 (ucast (b0 AND 0xF)) OR ucast b1) }"

definition LP_ENCODING_32BIT_STR_LEN :: "lp \<Rightarrow> nat \<Rightarrow> u32 option" where
  "LP_ENCODING_32BIT_STR_LEN m p =
     do {
       b1 \<leftarrow> get_at m (p + 1); b2 \<leftarrow> get_at m (p + 2); b3 \<leftarrow> get_at m (p + 3); b4 \<leftarrow> get_at m (p + 4);
       Some (ucast b1 OR push_bit 8 (ucast b2) OR push_bit 16 (ucast b3) OR push_bit 24 (ucast b4))
     }"

definition list_pack_encode_backlen_bytes :: "u64 \<Rightarrow> nat" where
  "list_pack_encode_backlen_bytes l =
     (if l \<le> 127 then 1 else if l < 16383 then 2 else if l < 2097151 then 3
      else if l < 268435455 then 4 else 5)"

definition list_pack_current_encode_size_unsafe :: "lp \<Rightarrow> nat \<Rightarrow> u32 option" where
  "list_pack_current_encode_size_unsafe m p =
     do {
       b \<leftarrow> get_at m p;
       if LP_ENCODING_IS_7BIT_UINT b then Some 1
       else if LP_ENCODING_IS_6BIT_STR b then map_option (\<lambda>n. 1 + n) (LP_ENCODING_6BIT_STR_LEN m p)
       else if LP_ENCODING_IS_13BIT_INT b then Some 2
       else if LP_ENCODING_IS_16BIT_INT b then Some 3
       else if LP_ENCODING_IS_24BIT_INT b then Some 4
       else if LP_ENCODING_IS_32BIT_INT b then Some 5
       else if LP_ENCODING_IS_64BIT_INT b then Some 9
       else if LP_ENCODING_IS_12BIT_STR b then map_option (\<lambda>n. 2 + n) (LP_ENCODING_12BIT_STR_LEN m p)
       else if LP_ENCODING_IS_32BIT_STR b then map_option (\<lambda>n. 5 + n) (LP_ENCODING_32BIT_STR_LEN m p)
       else if b = LP_EOF then Some 1
       else Some 0
     }"

definition list_pack_skip :: "lp \<Rightarrow> nat \<Rightarrow> nat option" where
  "list_pack_skip m p =
     do {
       n \<leftarrow> list_pack_current_encode_size_unsafe m p;
       Some (p + (unat n + list_pack_encode_backlen_bytes (ucast n)))
     }"

text \<open>\<open>list_pack_encode_integer_get_type\<close>: the bytes it stores in \<open>intenc\<close>; their number is \<open>enclen\<close>.\<close>

definition list_pack_encode_integer_get_type :: "int \<Rightarrow> byte list" where
  "list_pack_encode_integer_get_type v =
     (if v \<ge> 0 \<and> v \<le> 127 then [word_of_int v]
      else if v \<ge> - 4096 \<and> v \<le> 4095 then
        let w = word_of_int (if v < 0 then 2 ^ 13 + v else v) :: u64
        in [ucast (drop_bit 8 w) OR 0xC0, ucast w]
      else if v \<ge> - 32768 \<and> v \<le> 32767 then
        let w = word_of_int (if v < 0 then 2 ^ 16 + v else v) :: u64
        in [0xF1, ucast w, ucast (drop_bit 8 w)]
      else if v \<ge> - 8388608 \<and> v \<le> 8388607 then
        let w = word_of_int (if v < 0 then 2 ^ 24 + v else v) :: u64
        in [0xF2, ucast w, ucast (drop_bit 8 w), ucast (drop_bit 16 w)]
      else if v \<ge> - 2147483648 \<and> v \<le> 2147483647 then
        let w = word_of_int (if v < 0 then 2 ^ 32 + v else v) :: u64
        in [0xF3, ucast w, ucast (drop_bit 8 w), ucast (drop_bit 16 w), ucast (drop_bit 24 w)]
      else
        let w = word_of_int v :: u64
        in [0xF4, ucast w, ucast (drop_bit 8 w), ucast (drop_bit 16 w), ucast (drop_bit 24 w),
            ucast (drop_bit 32 w), ucast (drop_bit 40 w), ucast (drop_bit 48 w), ucast (drop_bit 56 w)])"

fun list_pack_digits :: "u64 \<Rightarrow> byte list \<Rightarrow> (u64 \<times> byte list) option" where
  "list_pack_digits v [] = Some (v, [])"
| "list_pack_digits v (c # p) =
     (if ch_0 \<le> c \<and> c \<le> ch_9 then
        if v > (-1) div 10 then None
        else let v = v * 10 in
          if v > (-1) - ucast (c - ch_0) then None
          else list_pack_digits (v + ucast (c - ch_0)) p
      else Some (v, c # p))"

definition list_pack_string_to_int64 :: "byte list \<Rightarrow> int option" where
  "list_pack_string_to_int64 s =
     (if s = [] \<or> length s \<ge> 21 then None
      else if length s = 1 \<and> s ! 0 = ch_0 then Some 0
      else let negative = (s ! 0 = ch_minus); p = (if negative then tl s else s) in
        if p = [] then None
        else if \<not> (ch_1 \<le> p ! 0 \<and> p ! 0 \<le> ch_9) then None
        else case list_pack_digits (ucast (p ! 0 - ch_0)) (tl p) of
            None \<Rightarrow> None
          | Some (v, rest) \<Rightarrow>
              if rest \<noteq> [] then None
              else if negative then (if v > 9223372036854775808 then None else Some (sint (- v)))
              else if v > 9223372036854775807 then None else Some (sint v))"

definition list_pack_encode_string :: "byte list \<Rightarrow> byte list" where
  "list_pack_encode_string s =
     (let len = of_nat (length s) :: u32 in
      if len < 64 then (ucast len OR 0x80) # s
      else if len < 4096 then (ucast (drop_bit 8 len) OR 0xE0) # ucast len # s
      else 0xF0 # ucast len # ucast (drop_bit 8 len) # ucast (drop_bit 16 len) # ucast (drop_bit 24 len) # s)"

text \<open>\<open>list_pack_encode_get_type\<close> followed by the write of the element: a string that denotes an
  integer is stored as the integer.\<close>

definition list_pack_encode_get_type :: "byte list \<Rightarrow> byte list" where
  "list_pack_encode_get_type s =
     (case list_pack_string_to_int64 s of
        Some v \<Rightarrow> list_pack_encode_integer_get_type v
      | None \<Rightarrow> list_pack_encode_string s)"

definition list_pack_encode_backlen :: "u64 \<Rightarrow> byte list" where
  "list_pack_encode_backlen l =
     (if l \<le> 127 then [ucast l]
      else if l < 16383 then [ucast (drop_bit 7 l), ucast (l AND 127) OR 128]
      else if l < 2097151 then
        [ucast (drop_bit 14 l), ucast (drop_bit 7 l AND 127) OR 128, ucast (l AND 127) OR 128]
      else if l < 268435455 then
        [ucast (drop_bit 21 l), ucast (drop_bit 14 l AND 127) OR 128, ucast (drop_bit 7 l AND 127) OR 128,
         ucast (l AND 127) OR 128]
      else
        [ucast (drop_bit 28 l), ucast (drop_bit 21 l AND 127) OR 128, ucast (drop_bit 14 l AND 127) OR 128,
         ucast (drop_bit 7 l AND 127) OR 128, ucast (l AND 127) OR 128])"

text \<open>The offset is an integer: the loop may step in front of the block, but not read there.\<close>

function decode_backlen_loop :: "lp \<Rightarrow> int \<Rightarrow> u64 \<Rightarrow> nat \<Rightarrow> u64 option" where
  "decode_backlen_loop m p val shift =
     do {
       b \<leftarrow> (if p < 0 then None else get_at m (nat p));
       let val = val OR push_bit shift (ucast (b AND 127));
       if b AND 128 = 0 then Some val
       else if shift + 7 > 28 then Some (- 1)
       else decode_backlen_loop m (p - 1) val (shift + 7)
     }"
  by pat_completeness auto

termination
  by (relation "measure (\<lambda>(m, p, val, shift). 28 - shift)") auto

declare decode_backlen_loop.simps [simp del]

definition list_pack_decode_backlen :: "lp \<Rightarrow> int \<Rightarrow> u64 option" where
  "list_pack_decode_backlen m p = decode_backlen_loop m p 0 0"

section \<open>Insertion, replacement, removal\<close>

datatype lp_where = LIST_PACK_BEFORE | LIST_PACK_AFTER | LIST_PACK_REPLACE

text \<open>An offset behind the end of the list (a difference that would wrap) is \<open>None\<close> too.
  What is inserted: \<open>None\<close> deletes, \<open>Inl\<close> is \<open>elestr\<close>, \<open>Inr\<close> is \<open>eleint\<close>, an encoding. The second
  result is \<open>*newp\<close>.\<close>

type_synonym lp_elem = "(byte list + byte list) option"

definition elem_encoding :: "lp_elem \<Rightarrow> byte list" where
  "elem_encoding ele =
     (case ele of
        None \<Rightarrow> []
      | Some (Inl elestr) \<Rightarrow> list_pack_encode_get_type elestr
      | Some (Inr eleint) \<Rightarrow> eleint)"

definition assert_integrity :: "lp \<Rightarrow> nat \<Rightarrow> unit option" where
  "assert_integrity m p =
     do { total \<leftarrow> list_pack_bytes m; if LP_HDR_SIZE \<le> p \<and> p < total then Some () else None }"

definition assert_integrity_len :: "lp \<Rightarrow> nat \<Rightarrow> nat \<Rightarrow> unit option" where
  "assert_integrity_len m p n =
     do { total \<leftarrow> list_pack_bytes m; if LP_HDR_SIZE \<le> p \<and> p + n < total then Some () else None }"

definition update_num_elements :: "lp \<Rightarrow> bool \<Rightarrow> lp option" where
  "update_num_elements m delete =
     do {
       num \<leftarrow> list_pack_get_num_elements m;
       if num \<noteq> 0xFFFF then list_pack_set_num_elements m (if \<not> delete then num + 1 else num - 1) else Some m
     }"

text \<open>The number of bytes that a replacement takes out, at a 32-bit integer.\<close>

definition replaced_bytes :: "lp \<Rightarrow> nat \<Rightarrow> nat option" where
  "replaced_bytes m p =
     do {
       n \<leftarrow> list_pack_current_encode_size_unsafe m p;
       let r = unat (n + of_nat (list_pack_encode_backlen_bytes (ucast n)));
       assert_integrity_len m p r;
       Some r
     }"

definition list_pack_insert ::
  "(nat \<Rightarrow> nat) \<Rightarrow> (nat \<Rightarrow> byte) \<Rightarrow> lp \<Rightarrow> lp_elem \<Rightarrow> nat \<Rightarrow> lp_where \<Rightarrow> (lp \<times> nat option) option" where
  "list_pack_insert usable junk m ele p whr =
     do {
       let delete = (ele = None);
       let whr = (if delete then LIST_PACK_REPLACE else whr);
       (p, whr) \<leftarrow>
         (if whr = LIST_PACK_AFTER
          then do { p \<leftarrow> list_pack_skip m p; assert_integrity m p; Some (p, LIST_PACK_BEFORE) }
          else Some (p, whr));
       let enc = elem_encoding ele;
       let backlen = (if \<not> delete then list_pack_encode_backlen (of_nat (length enc)) else []);
       let n = length enc + length backlen;
       old \<leftarrow> list_pack_bytes m;
       replaced \<leftarrow> (if whr = LIST_PACK_REPLACE then replaced_bytes m p else Some 0);
       let new = old + n - replaced;
       if new > 2 ^ 32 - 1 \<or> p > old then None
       else do {
         let m = (if new > old \<and> new > length m then realloc junk m (usable new) else m);
         m \<leftarrow> (if whr = LIST_PACK_BEFORE then mem_move m (p + n) p (old - p)
               else mem_move m (p + n) (p + replaced) (old - p - replaced));
         let m = (if new < old then realloc junk m (usable new) else m);
         b \<leftarrow> (if delete then get_at m p else Some 0);
         let newp = (if delete \<and> b = LP_EOF then None else Some p);
         m \<leftarrow> (if \<not> delete then do { m \<leftarrow> mem_write m p enc; mem_write m (p + length enc) backlen } else Some m);
         m \<leftarrow> (if whr \<noteq> LIST_PACK_REPLACE \<or> delete then update_num_elements m delete else Some m);
         m \<leftarrow> list_pack_set_total_bytes m (of_nat new);
         Some (m, newp)
       }
     }"

definition list_pack_insert_string ::
  "(nat \<Rightarrow> nat) \<Rightarrow> (nat \<Rightarrow> byte) \<Rightarrow> lp \<Rightarrow> byte list \<Rightarrow> nat \<Rightarrow> lp_where \<Rightarrow> (lp \<times> nat option) option" where
  "list_pack_insert_string usable junk m s p whr = list_pack_insert usable junk m (Some (Inl s)) p whr"

definition list_pack_insert_integer ::
  "(nat \<Rightarrow> nat) \<Rightarrow> (nat \<Rightarrow> byte) \<Rightarrow> lp \<Rightarrow> int \<Rightarrow> nat \<Rightarrow> lp_where \<Rightarrow> (lp \<times> nat option) option" where
  "list_pack_insert_integer usable junk m lval p whr =
     list_pack_insert usable junk m (Some (Inr (list_pack_encode_integer_get_type lval))) p whr"

definition list_pack_append_string :: "(nat \<Rightarrow> nat) \<Rightarrow> (nat \<Rightarrow> byte) \<Rightarrow> lp \<Rightarrow> byte list \<Rightarrow> lp option" where
  "list_pack_append_string usable junk m s =
     do {
       total \<leftarrow> list_pack_bytes m;
       (if total = 0 then None else Some ());
       (m, _) \<leftarrow> list_pack_insert usable junk m (Some (Inl s)) (total - 1) LIST_PACK_BEFORE;
       Some m
     }"

definition list_pack_append_integer :: "(nat \<Rightarrow> nat) \<Rightarrow> (nat \<Rightarrow> byte) \<Rightarrow> lp \<Rightarrow> int \<Rightarrow> lp option" where
  "list_pack_append_integer usable junk m lval =
     do {
       total \<leftarrow> list_pack_bytes m;
       (if total = 0 then None else Some ());
       (m, _) \<leftarrow> list_pack_insert_integer usable junk m lval (total - 1) LIST_PACK_BEFORE;
       Some m
     }"

section \<open>Traversal\<close>

definition list_pack_current_encode_size_bytes :: "byte \<Rightarrow> nat" where
  "list_pack_current_encode_size_bytes b =
     (if LP_ENCODING_IS_7BIT_UINT b then 1
      else if LP_ENCODING_IS_6BIT_STR b then 1
      else if LP_ENCODING_IS_13BIT_INT b then 1
      else if LP_ENCODING_IS_16BIT_INT b then 1
      else if LP_ENCODING_IS_24BIT_INT b then 1
      else if LP_ENCODING_IS_32BIT_INT b then 1
      else if LP_ENCODING_IS_64BIT_INT b then 1
      else if LP_ENCODING_IS_12BIT_STR b then 2
      else if LP_ENCODING_IS_32BIT_STR b then 5
      else if b = LP_EOF then 1
      else 0)"

text \<open>\<open>list_pack_validate_next\<close>: \<open>None\<close> inside is the result 0, \<open>Some p\<close> the result 1 with \<open>*pp = p\<close>.\<close>

definition list_pack_validate_next :: "lp \<Rightarrow> nat option \<Rightarrow> nat \<Rightarrow> nat option option option" where
  "list_pack_validate_next m pp lpbytes =
     (let out_of_range = (\<lambda>p. p < LP_HDR_SIZE \<or> p > lpbytes - 1) in
      case pp of
        None \<Rightarrow> Some None
      | Some p \<Rightarrow>
          if out_of_range p then Some None
          else do {
            b \<leftarrow> get_at m p;
            if b = LP_EOF then Some (Some None)
            else
              let lenbytes = list_pack_current_encode_size_bytes b in
              if lenbytes = 0 then Some None
              else if out_of_range (p + lenbytes) then Some None
              else do {
                n \<leftarrow> list_pack_current_encode_size_unsafe m p;
                let encodedBacklen = list_pack_encode_backlen_bytes (ucast n);
                let entrylen = unat n + encodedBacklen;
                if out_of_range (p + entrylen) then Some None
                else do {
                  let p = p + entrylen;
                  prevlen \<leftarrow> list_pack_decode_backlen m (int p - 1);
                  if prevlen + of_nat encodedBacklen \<noteq> of_nat entrylen then Some None
                  else Some (Some (Some p))
                }
              }
          })"

definition list_pack_assert_valid_entry :: "lp \<Rightarrow> nat \<Rightarrow> nat \<Rightarrow> unit option" where
  "list_pack_assert_valid_entry m lpbytes p =
     do { r \<leftarrow> list_pack_validate_next m (Some p) lpbytes; if r = None then None else Some () }"

definition list_pack_first :: "lp \<Rightarrow> nat option option" where
  "list_pack_first m =
     do {
       b \<leftarrow> get_at m LP_HDR_SIZE;
       if b = LP_EOF then Some None
       else do {
         total \<leftarrow> list_pack_bytes m;
         list_pack_assert_valid_entry m total LP_HDR_SIZE;
         Some (Some LP_HDR_SIZE)
       }
     }"

definition list_pack_next :: "lp \<Rightarrow> nat \<Rightarrow> nat option option" where
  "list_pack_next m p =
     do {
       p \<leftarrow> list_pack_skip m p;
       b \<leftarrow> get_at m p;
       if b = LP_EOF then Some None
       else do {
         total \<leftarrow> list_pack_bytes m;
         list_pack_assert_valid_entry m total p;
         Some (Some p)
       }
     }"

text \<open>The subtraction of offsets is checked: \<open>p\<close> must not fall in front of the block.\<close>

definition list_pack_prev :: "lp \<Rightarrow> nat \<Rightarrow> nat option option" where
  "list_pack_prev m p =
     (if p = LP_HDR_SIZE then Some None
      else do {
        prevlen \<leftarrow> list_pack_decode_backlen m (int p - 1);
        let prevlen = unat (prevlen + of_nat (list_pack_encode_backlen_bytes prevlen));
        if p < prevlen then None
        else do {
          let p = p - prevlen;
          total \<leftarrow> list_pack_bytes m;
          list_pack_assert_valid_entry m total p;
          Some (Some p)
        }
      })"

definition list_pack_last :: "lp \<Rightarrow> nat option option" where
  "list_pack_last m = do { total \<leftarrow> list_pack_bytes m; if total = 0 then None else list_pack_prev m (total - 1) }"

definition list_pack_prepend_string :: "(nat \<Rightarrow> nat) \<Rightarrow> (nat \<Rightarrow> byte) \<Rightarrow> lp \<Rightarrow> byte list \<Rightarrow> lp option" where
  "list_pack_prepend_string usable junk m s =
     do {
       p \<leftarrow> list_pack_first m;
       case p of
         None \<Rightarrow> list_pack_append_string usable junk m s
       | Some p \<Rightarrow> do { (m, _) \<leftarrow> list_pack_insert usable junk m (Some (Inl s)) p LIST_PACK_BEFORE; Some m }
     }"

definition list_pack_prepend_integer :: "(nat \<Rightarrow> nat) \<Rightarrow> (nat \<Rightarrow> byte) \<Rightarrow> lp \<Rightarrow> int \<Rightarrow> lp option" where
  "list_pack_prepend_integer usable junk m lval =
     do {
       p \<leftarrow> list_pack_first m;
       case p of
         None \<Rightarrow> list_pack_append_integer usable junk m lval
       | Some p \<Rightarrow> do { (m, _) \<leftarrow> list_pack_insert_integer usable junk m lval p LIST_PACK_BEFORE; Some m }
     }"

definition list_pack_replace_string ::
  "(nat \<Rightarrow> nat) \<Rightarrow> (nat \<Rightarrow> byte) \<Rightarrow> lp \<Rightarrow> nat \<Rightarrow> byte list \<Rightarrow> lp option" where
  "list_pack_replace_string usable junk m p s =
     map_option fst (list_pack_insert usable junk m (Some (Inl s)) p LIST_PACK_REPLACE)"

definition list_pack_replace_integer ::
  "(nat \<Rightarrow> nat) \<Rightarrow> (nat \<Rightarrow> byte) \<Rightarrow> lp \<Rightarrow> nat \<Rightarrow> int \<Rightarrow> (lp \<times> nat option) option" where
  "list_pack_replace_integer usable junk m p lval = list_pack_insert_integer usable junk m lval p LIST_PACK_REPLACE"

definition list_pack_remove :: "(nat \<Rightarrow> nat) \<Rightarrow> (nat \<Rightarrow> byte) \<Rightarrow> lp \<Rightarrow> nat \<Rightarrow> (lp \<times> nat option) option" where
  "list_pack_remove usable junk m p = list_pack_insert usable junk m None p LIST_PACK_REPLACE"

text \<open>The loop that counts the elements, and the header field it heals.\<close>

partial_function (option) list_pack_count :: "lp \<Rightarrow> nat option \<Rightarrow> u32 \<Rightarrow> u32 option" where
  [code]: "list_pack_count m p cnt =
     (case p of
        None \<Rightarrow> Some cnt
      | Some p \<Rightarrow> Option.bind (list_pack_next m p) (\<lambda>p. list_pack_count m p (cnt + 1)))"

definition list_pack_length :: "lp \<Rightarrow> (lp \<times> u32) option" where
  "list_pack_length m =
     do {
       numele \<leftarrow> list_pack_get_num_elements m;
       if numele \<noteq> 0xFFFF then Some (m, numele)
       else do {
         p \<leftarrow> list_pack_first m;
         cnt \<leftarrow> list_pack_count m p 0;
         m \<leftarrow> (if cnt < 0xFFFF then list_pack_set_num_elements m cnt else Some m);
         Some (m, cnt)
       }
     }"

text \<open>The end of the range, and how many elements it has.\<close>

fun remove_range_loop :: "lp \<Rightarrow> nat \<Rightarrow> nat \<Rightarrow> nat \<Rightarrow> nat \<Rightarrow> (nat \<times> nat) option" where
  "remove_range_loop m bytes tailp deleted 0 = Some (tailp, deleted)"
| "remove_range_loop m bytes tailp deleted (Suc num) =
     do {
       tailp \<leftarrow> list_pack_skip m tailp;
       b \<leftarrow> get_at m tailp;
       if b = LP_EOF then Some (tailp, deleted + 1)
       else do { list_pack_assert_valid_entry m bytes tailp; remove_range_loop m bytes tailp (deleted + 1) num }
     }"

definition list_pack_remove_range_with_entry ::
  "(nat \<Rightarrow> nat) \<Rightarrow> (nat \<Rightarrow> byte) \<Rightarrow> lp \<Rightarrow> nat \<Rightarrow> nat \<Rightarrow> (lp \<times> nat option) option" where
  "list_pack_remove_range_with_entry usable junk m p num =
     do {
       bytes \<leftarrow> list_pack_bytes m;
       if num = 0 then Some (m, Some p)
       else do {
         (tailp, deleted) \<leftarrow> remove_range_loop m bytes p 0 num;
         (if tailp \<ge> bytes then None else Some ());
         m \<leftarrow> mem_move m p tailp (bytes - 1 - tailp + 1);
         m \<leftarrow> list_pack_set_total_bytes m (of_nat (bytes - (tailp - p)));
         numele \<leftarrow> list_pack_get_num_elements m;
         m \<leftarrow> (if numele \<noteq> 0xFFFF then list_pack_set_num_elements m (numele - of_nat deleted) else Some m);
         m \<leftarrow> list_pack_shrink_to_fit usable junk m;
         b \<leftarrow> get_at m p;
         Some (m, if b = LP_EOF then None else Some p)
       }
     }"

section \<open>Reading an element\<close>

datatype lp_value = LStr "byte list" | LInt int

text \<open>\<open>uval\<close>, \<open>negstart\<close> and \<open>negmax\<close> of an integer encoding.\<close>

definition list_pack_get_uval :: "lp \<Rightarrow> nat \<Rightarrow> byte \<Rightarrow> (u64 \<times> u64 \<times> u64) option" where
  "list_pack_get_uval m p e =
     (if LP_ENCODING_IS_7BIT_UINT e then Some (ucast (e AND 0x7f), - 1, 0)
      else if LP_ENCODING_IS_13BIT_INT e then do {
        b1 \<leftarrow> get_at m (p + 1);
        Some (push_bit 8 (ucast (e AND 0x1f)) OR ucast b1, push_bit 12 1, 8191)
      }
      else if LP_ENCODING_IS_16BIT_INT e then do {
        b1 \<leftarrow> get_at m (p + 1); b2 \<leftarrow> get_at m (p + 2);
        Some (ucast b1 OR push_bit 8 (ucast b2), push_bit 15 1, 0xFFFF)
      }
      else if LP_ENCODING_IS_24BIT_INT e then do {
        b1 \<leftarrow> get_at m (p + 1); b2 \<leftarrow> get_at m (p + 2); b3 \<leftarrow> get_at m (p + 3);
        Some (ucast b1 OR push_bit 8 (ucast b2) OR push_bit 16 (ucast b3), push_bit 23 1, 0xFFFFFF)
      }
      else if LP_ENCODING_IS_32BIT_INT e then do {
        b1 \<leftarrow> get_at m (p + 1); b2 \<leftarrow> get_at m (p + 2); b3 \<leftarrow> get_at m (p + 3); b4 \<leftarrow> get_at m (p + 4);
        Some (ucast b1 OR push_bit 8 (ucast b2) OR push_bit 16 (ucast b3) OR push_bit 24 (ucast b4),
              push_bit 31 1, 0xFFFFFFFF)
      }
      else if LP_ENCODING_IS_64BIT_INT e then do {
        b1 \<leftarrow> get_at m (p + 1); b2 \<leftarrow> get_at m (p + 2); b3 \<leftarrow> get_at m (p + 3); b4 \<leftarrow> get_at m (p + 4);
        b5 \<leftarrow> get_at m (p + 5); b6 \<leftarrow> get_at m (p + 6); b7 \<leftarrow> get_at m (p + 7); b8 \<leftarrow> get_at m (p + 8);
        Some (ucast b1 OR push_bit 8 (ucast b2) OR push_bit 16 (ucast b3) OR push_bit 24 (ucast b4)
              OR push_bit 32 (ucast b5) OR push_bit 40 (ucast b6) OR push_bit 48 (ucast b7)
              OR push_bit 56 (ucast b8), push_bit 63 1, - 1)
      }
      else Some (12345678900000000 + ucast e, - 1, 0))"

text \<open>\<open>list_pack_get_with_buffer\<close> with a null \<open>intbuf\<close>, as \<open>list_pack_get_value\<close> calls it: the bytes of a
  string (a pointer and a count in the code) or an integer. The negation and the subtraction of the
  signed conversion must not overflow.\<close>

definition list_pack_get_value :: "lp \<Rightarrow> nat \<Rightarrow> lp_value option" where
  "list_pack_get_value m p =
     do {
       e \<leftarrow> get_at m p;
       if LP_ENCODING_IS_6BIT_STR e then do {
         n \<leftarrow> LP_ENCODING_6BIT_STR_LEN m p; s \<leftarrow> mem_read m (p + 1) (unat n); Some (LStr s)
       }
       else if LP_ENCODING_IS_12BIT_STR e then do {
         n \<leftarrow> LP_ENCODING_12BIT_STR_LEN m p; s \<leftarrow> mem_read m (p + 2) (unat n); Some (LStr s)
       }
       else if LP_ENCODING_IS_32BIT_STR e then do {
         n \<leftarrow> LP_ENCODING_32BIT_STR_LEN m p; s \<leftarrow> mem_read m (p + 5) (unat n); Some (LStr s)
       }
       else do {
         (uval, negstart, negmax) \<leftarrow> list_pack_get_uval m p e;
         if uval \<ge> negstart then
           let v = sint (negmax - uval)
           in if in_int64 (- v) \<and> in_int64 (- v - 1) then Some (LInt (- v - 1)) else None
         else Some (LInt (sint uval))
       }
     }"

text \<open>\<open>list_pack_get\<close>: with a buffer, an integer is printed there and its digits are returned.\<close>

definition list_pack_get :: "lp \<Rightarrow> nat \<Rightarrow> byte list option \<Rightarrow> (lp_value \<times> byte list option) option" where
  "list_pack_get m p intbuf =
     do {
       v \<leftarrow> list_pack_get_value m p;
       case (v, intbuf) of
         (LInt i, Some buf) \<Rightarrow> do { (n, buf) \<leftarrow> ll2string buf LIST_PACK_INTBUF_SIZE i; Some (LStr (take n buf), Some buf) }
       | _ \<Rightarrow> Some (v, intbuf)
     }"

section \<open>The iterator\<close>

record list_pack_iterator_data =
  lpi_lp :: lp
  lpi_p :: "nat option"
  lpi_where :: lp_where

definition list_pack_iterator_has_next ::
  "list_pack_iterator_data \<Rightarrow> (list_pack_iterator_data \<times> bool) option" where
  "list_pack_iterator_has_next d =
     do {
       p \<leftarrow> (if lpi_where d = LIST_PACK_BEFORE
             then (case lpi_p d of None \<Rightarrow> list_pack_last (lpi_lp d) | Some p \<Rightarrow> list_pack_prev (lpi_lp d) p)
             else (case lpi_p d of None \<Rightarrow> list_pack_first (lpi_lp d) | Some p \<Rightarrow> list_pack_next (lpi_lp d) p));
       Some (d\<lparr>lpi_p := p\<rparr>, p \<noteq> None)
     }"

definition list_pack_iterator_next ::
  "list_pack_iterator_data \<Rightarrow> (list_pack_iterator_data \<times> lp_value option) option" where
  "list_pack_iterator_next d =
     (case lpi_p d of
        None \<Rightarrow> Some (d, None)
      | Some p \<Rightarrow> do { v \<leftarrow> list_pack_get_value (lpi_lp d) p; Some (d, Some v) })"

definition list_pack_iterator_func :: "(list_pack_iterator_data, lp_value option) latte_iterator_func" where
  "list_pack_iterator_func =
     \<lparr>it_has_next = list_pack_iterator_has_next, it_next = list_pack_iterator_next\<rparr>"

definition list_pack_get_iterator ::
  "lp \<Rightarrow> lp_where \<Rightarrow> (list_pack_iterator_data, lp_value option) latte_iterator" where
  "list_pack_get_iterator m whr =
     latte_iterator_new list_pack_iterator_func \<lparr>lpi_lp = m, lpi_p = None, lpi_where = whr\<rparr>"

section \<open>Classification of the first byte\<close>

lemma high_bits: "k \<le> 8 \<Longrightarrow> unat ((b :: byte) AND push_bit k (mask (8 - k))) = 2 ^ k * (unat b div 2 ^ k)"
proof -
  assume k: "k \<le> 8"
  have "b AND push_bit k (mask (8 - k)) = push_bit k (drop_bit k b)"
    using k by (intro bit_word_eqI) (auto simp: bit_simps)
  moreover have "unat (push_bit k (drop_bit k b)) = 2 ^ k * (unat b div 2 ^ k)"
  proof -
    have "2 ^ k * (unat b div 2 ^ k) \<le> unat b" by (rule times_div_less_eq_dividend)
    then have "2 ^ k * (unat b div 2 ^ k) < 256" using unat_less_8 [of b] by (rule le_less_trans)
    then have "2 ^ k * (unat b div 2 ^ k) < 2 ^ 8" by simp
    moreover have "unat (push_bit k (drop_bit k b)) = take_bit 8 (2 ^ k * (unat b div 2 ^ k))"
      using push_bit_eq_mult [of k "unat (drop_bit k b)"] drop_bit_eq_div [of k "unat b"]
      by (simp only: unsigned_push_bit_eq unat_drop_bit_eq mult.commute) simp
    ultimately show ?thesis by (simp add: take_bit_nat_eq_self)
  qed
  ultimately show ?thesis by simp
qed

lemma div_eq_iff_range: "0 < d \<Longrightarrow> (n :: nat) div d = q \<longleftrightarrow> q * d \<le> n \<and> n < Suc q * d"
  using less_eq_div_iff_mult_less_eq [of d q n] div_less_iff_less_mult [of d n "Suc q"] by (metis le_antisym less_Suc_eq_le order_refl)

lemma lp_classes:
  "LP_ENCODING_IS_7BIT_UINT b \<longleftrightarrow> unat b < 128"
  "LP_ENCODING_IS_6BIT_STR b \<longleftrightarrow> 128 \<le> unat b \<and> unat b < 192"
  "LP_ENCODING_IS_13BIT_INT b \<longleftrightarrow> 192 \<le> unat b \<and> unat b < 224"
  "LP_ENCODING_IS_12BIT_STR b \<longleftrightarrow> 224 \<le> unat b \<and> unat b < 240"
  "LP_ENCODING_IS_32BIT_STR b \<longleftrightarrow> b = 0xF0"
  "LP_ENCODING_IS_16BIT_INT b \<longleftrightarrow> b = 0xF1"
  "LP_ENCODING_IS_24BIT_INT b \<longleftrightarrow> b = 0xF2"
  "LP_ENCODING_IS_32BIT_INT b \<longleftrightarrow> b = 0xF3"
  "LP_ENCODING_IS_64BIT_INT b \<longleftrightarrow> b = 0xF4"
proof -
  have b: "unat b < 256" by (rule unat_less_8)
  have m: "(0x80 :: byte) = push_bit 7 (mask (8 - 7))" "(0xC0 :: byte) = push_bit 6 (mask (8 - 6))"
    "(0xE0 :: byte) = push_bit 5 (mask (8 - 5))" "(0xF0 :: byte) = push_bit 4 (mask (8 - 4))"
    by (simp_all add: mask_eq_exp_minus_1 push_bit_eq_mult)
  have eq: "b AND x = y \<longleftrightarrow> unat (b AND x) = unat y" for x y :: byte by (rule word_unat_eq_iff)
  have "(0xFF :: byte) = mask 8" by (simp add: mask_eq_exp_minus_1)
  moreover have "take_bit 8 b = b" by (rule take_bit_word_eq_self) simp
  ultimately have ff: "b AND 0xFF = b" by (simp only: take_bit_eq_mask)
  show "LP_ENCODING_IS_7BIT_UINT b \<longleftrightarrow> unat b < 128"
    unfolding LP_ENCODING_IS_7BIT_UINT_def eq m(1) using high_bits [of 7 b] b by (simp add: div_eq_0_iff)
  show "LP_ENCODING_IS_32BIT_STR b \<longleftrightarrow> b = 0xF0" "LP_ENCODING_IS_16BIT_INT b \<longleftrightarrow> b = 0xF1"
    "LP_ENCODING_IS_24BIT_INT b \<longleftrightarrow> b = 0xF2" "LP_ENCODING_IS_32BIT_INT b \<longleftrightarrow> b = 0xF3" "LP_ENCODING_IS_64BIT_INT b \<longleftrightarrow> b = 0xF4"
    by (simp_all add: LP_ENCODING_IS_32BIT_STR_def LP_ENCODING_IS_16BIT_INT_def LP_ENCODING_IS_24BIT_INT_def
        LP_ENCODING_IS_32BIT_INT_def LP_ENCODING_IS_64BIT_INT_def ff)
  have u: "unat (b AND 0xC0) = 64 * (unat b div 64)" "unat (b AND 0xE0) = 32 * (unat b div 32)"
    "unat (b AND 0xF0) = 16 * (unat b div 16)"
    unfolding m using high_bits [of 6 b] high_bits [of 5 b] high_bits [of 4 b] by simp_all
  show "LP_ENCODING_IS_6BIT_STR b \<longleftrightarrow> 128 \<le> unat b \<and> unat b < 192"
    unfolding LP_ENCODING_IS_6BIT_STR_def eq u by (simp add: div_eq_iff_range)
  show "LP_ENCODING_IS_13BIT_INT b \<longleftrightarrow> 192 \<le> unat b \<and> unat b < 224"
    unfolding LP_ENCODING_IS_13BIT_INT_def eq u by (simp add: div_eq_iff_range)
  show "LP_ENCODING_IS_12BIT_STR b \<longleftrightarrow> 224 \<le> unat b \<and> unat b < 240"
    unfolding LP_ENCODING_IS_12BIT_STR_def eq u by (simp add: div_eq_iff_range)
qed

section \<open>Round trip of the encodings\<close>

text \<open>A byte at offset \<open>length A + i\<close> of \<open>A @ bs @ C\<close>.\<close>

lemma get_at_mid: "i < length bs \<Longrightarrow> get_at (A @ bs @ C) (length A + i) = Some (bs ! i)"
  by (simp add: get_at_def nth_append)

lemma get_at_mid0: "bs \<noteq> [] \<Longrightarrow> get_at (A @ bs @ C) (length A) = Some (bs ! 0)"
  using get_at_mid [of 0 bs A C] by simp

lemma small_u64: "0 \<le> v \<Longrightarrow> v < 2 ^ 63 \<Longrightarrow> unat (word_of_int v :: u64) = nat v"
  by (rule unat_of_int_id) simp_all

lemma drop_bit_small: "unat (w :: u64) < 2 ^ k \<Longrightarrow> k \<le> j \<Longrightarrow> drop_bit j w = 0"
proof -
  assume w: "unat w < 2 ^ k" "k \<le> j"
  then have "unat w < 2 ^ j" using power_increasing [of k j "2 :: nat"] by linarith
  then have "unat (drop_bit j w) = 0" unfolding unat_drop by simp
  then show ?thesis by (simp only: unsigned_eq_0_iff)
qed

lemma u64_of_bytes:
  fixes w :: u64
  shows "unat w < 2 ^ 16 \<Longrightarrow> (ucast (ucast w :: byte) :: u64) OR push_bit 8 (ucast (ucast (drop_bit 8 w) :: byte)) = w"
    "unat w < 2 ^ 24 \<Longrightarrow> (ucast (ucast w :: byte) :: u64) OR push_bit 8 (ucast (ucast (drop_bit 8 w) :: byte))
       OR push_bit 16 (ucast (ucast (drop_bit 16 w) :: byte)) = w"
    "unat w < 2 ^ 32 \<Longrightarrow> (ucast (ucast w :: byte) :: u64) OR push_bit 8 (ucast (ucast (drop_bit 8 w) :: byte))
       OR push_bit 16 (ucast (ucast (drop_bit 16 w) :: byte)) OR push_bit 24 (ucast (ucast (drop_bit 24 w) :: byte)) = w"
  using word64_of_bytes [of w] drop_bit_small [of w 16] drop_bit_small [of w 24] drop_bit_small [of w 32] by simp_all

text \<open>Thirteen bits, the upper five beside the tag.\<close>

lemma or_tag: "unat (b :: byte) < 32 \<Longrightarrow> (b OR 0xC0) AND 0x1f = b" "unat b < 32 \<Longrightarrow> unat (b OR 0xC0) = unat b + 192"
  using or_high [of b 5 "0xC0"] by (simp_all add: mask_eq_exp_minus_1 take_bit_eq_mod word_mod_def)

lemma bytes_13:
  fixes w :: u64
  assumes "unat w < 2 ^ 13"
  shows "unat (ucast (drop_bit 8 w) :: byte) < 32"
    "push_bit 8 (ucast ((ucast (drop_bit 8 w) OR 0xC0 :: byte) AND 0x1f)) OR ucast (ucast w :: byte) = w"
proof -
  have "unat (drop_bit 8 w) < 32" unfolding unat_drop using assms by (simp add: less_mult_imp_div_less)
  then show b: "unat (ucast (drop_bit 8 w) :: byte) < 32" by (simp add: unsigned_ucast_eq take_bit_nat_eq_self)
  have "unat w < 2 ^ 16" using assms by simp
  from u64_of_bytes(1) [OF this] or_tag(1) [OF b] show
    "push_bit 8 (ucast ((ucast (drop_bit 8 w) OR 0xC0 :: byte) AND 0x1f)) OR ucast (ucast w :: byte) = w"
    by (simp add: or.commute)
qed

text \<open>The conversion of the unsigned value to the signed one.\<close>

definition lp_signed :: "u64 \<Rightarrow> u64 \<Rightarrow> u64 \<Rightarrow> lp_value option" where
  "lp_signed uval negstart negmax =
     (if uval \<ge> negstart then
        let v = sint (negmax - uval)
        in if in_int64 (- v) \<and> in_int64 (- v - 1) then Some (LInt (- v - 1)) else None
      else Some (LInt (sint uval)))"

lemma sint_small: "0 \<le> v \<Longrightarrow> v < 2 ^ 63 \<Longrightarrow> sint (word_of_int v :: u64) = v"
  by (intro sint_of_int64) (simp add: in_int64_def)

lemma lp_signed_narrow:
  assumes h: "0 < half" "half \<le> 2 ^ 32" and v: "- half \<le> v" "v < half"
  shows "lp_signed (word_of_int (if v < 0 then 2 * half + v else v)) (word_of_int half) (word_of_int (2 * half - 1)) = Some (LInt v)"
proof -
  let ?x = "if v < 0 then 2 * half + v else v"
  have x: "0 \<le> ?x" "?x < 2 * half" using v by auto
  have le: "(word_of_int half :: u64) \<le> word_of_int ?x \<longleftrightarrow> half \<le> ?x"
    using h x by (simp add: word_le_def uint_word_of_int_eq take_bit_int_eq_self)
  show ?thesis
  proof (cases "v < 0")
    case True
    have "(word_of_int (2 * half - 1) - word_of_int ?x :: u64) = word_of_int (- v - 1)"
    proof -
      have "(word_of_int (2 * half - 1) - word_of_int ?x :: u64) = word_of_int (2 * half - 1 - ?x)" by (simp only: of_int_diff)
      also have "2 * half - 1 - ?x = - v - 1" using True by simp
      finally show ?thesis .
    qed
    moreover have "sint (word_of_int (- v - 1) :: u64) = - v - 1" using True v h by (intro sint_small) auto
    ultimately have sv: "sint (word_of_int (2 * half - 1) - word_of_int ?x :: u64) = - v - 1" by (simp only:)
    have "half \<le> ?x" "in_int64 (- (- v - 1))" "in_int64 (- (- v - 1) - 1)" using True v h by (auto simp: in_int64_def)
    then show ?thesis unfolding lp_signed_def Let_def sv using le
      by (simp del: of_int_add of_int_mult of_int_diff of_int_numeral)
  next
    case False
    then have "sint (word_of_int v :: u64) = v" using v h by (intro sint_small) auto
    then show ?thesis using le False v by (simp add: lp_signed_def)
  qed
qed

lemma lp_signed_64:
  assumes "in_int64 v"
  shows "lp_signed (word_of_int v) (push_bit 63 1) (- 1) = Some (LInt v)"
proof -
  have u: "uint (word_of_int v :: u64) = (if v < 0 then 2 ^ 64 + v else v)"
  proof (cases "v < 0")
    case True
    have "(2 ^ 64 + v) mod 2 ^ 64 = 2 ^ 64 + v" using assms True by (intro mod_pos_pos_trivial) (auto simp: in_int64_def)
    then have "v mod 2 ^ 64 = 2 ^ 64 + v" by simp
    then show ?thesis using True by (simp add: uint_word_of_int_eq take_bit_eq_mod)
  next
    case False
    then show ?thesis using assms by (simp add: uint_word_of_int_eq take_bit_int_eq_self in_int64_def)
  qed
  have le: "(push_bit 63 1 :: u64) \<le> word_of_int v \<longleftrightarrow> v < 0"
    using assms unfolding word_le_def u by (simp add: in_int64_def)
  have "(- 1 - word_of_int v :: u64) = word_of_int (- 1 - v)" by simp
  moreover have "sint (word_of_int (- 1 - v) :: u64) = - 1 - v" using assms by (intro sint_of_int64) (simp add: in_int64_def)
  moreover have "sint (word_of_int v :: u64) = v" using assms by (rule sint_of_int64)
  ultimately show ?thesis using le assms by (simp add: lp_signed_def in_int64_def del: push_bit_of_1)
qed

lemma get_value_int:
  assumes "get_at m p = Some e" "\<not> LP_ENCODING_IS_6BIT_STR e" "\<not> LP_ENCODING_IS_12BIT_STR e" "\<not> LP_ENCODING_IS_32BIT_STR e"
    "list_pack_get_uval m p e = Some (uval, negstart, negmax)"
  shows "list_pack_get_value m p = lp_signed uval negstart negmax"
  using assms by (simp add: list_pack_get_value_def lp_signed_def)

text \<open>What a client relies on of an encoding that lies in memory: its size is found again, its value is
  read back, and it is not the end marker.\<close>

definition encodes :: "byte list \<Rightarrow> lp_value \<Rightarrow> bool" where
  "encodes bs v \<longleftrightarrow> bs \<noteq> [] \<and> bs ! 0 \<noteq> LP_EOF \<and> length bs < 2 ^ 32
     \<and> 0 < list_pack_current_encode_size_bytes (bs ! 0) \<and> list_pack_current_encode_size_bytes (bs ! 0) \<le> length bs
     \<and> (\<forall>A C. list_pack_current_encode_size_unsafe (A @ bs @ C) (length A) = Some (of_nat (length bs))
         \<and> list_pack_get_value (A @ bs @ C) (length A) = Some v)"

lemma encodesI:
  assumes "bs \<noteq> []" "bs ! 0 \<noteq> LP_EOF" "length bs < 2 ^ 32" "list_pack_current_encode_size_bytes (bs ! 0) = k" "0 < k" "k \<le> length bs"
    "\<And>A C. list_pack_current_encode_size_unsafe (A @ bs @ C) (length A) = Some (of_nat (length bs))"
    "\<And>A C. list_pack_get_value (A @ bs @ C) (length A) = Some v"
  shows "encodes bs v"
  using assms by (simp add: encodes_def)

lemma encodes_int:
  assumes ne: "bs \<noteq> []" and len: "length bs < 256" and cls: "\<not> LP_ENCODING_IS_6BIT_STR (bs ! 0)" "\<not> LP_ENCODING_IS_12BIT_STR (bs ! 0)"
      "\<not> LP_ENCODING_IS_32BIT_STR (bs ! 0)" "bs ! 0 \<noteq> LP_EOF" "list_pack_current_encode_size_bytes (bs ! 0) = 1"
    and sz: "\<And>A C. list_pack_current_encode_size_unsafe (A @ bs @ C) (length A) = Some (of_nat (length bs))"
    and uv: "\<And>A C. list_pack_get_uval (A @ bs @ C) (length A) (bs ! 0) = Some (uval, negstart, negmax)"
    and sg: "lp_signed uval negstart negmax = Some (LInt v)"
  shows "encodes bs (LInt v)"
proof (rule encodesI [OF ne cls(4) _ cls(5) _ _ sz])
  show "length bs < 2 ^ 32" using len by simp
  show "1 \<le> length bs" using ne by (simp add: Suc_leI)
  show "list_pack_get_value (A @ bs @ C) (length A) = Some (LInt v)" for A C
    using get_value_int [OF get_at_mid0 [OF ne] cls(1,2,3) uv] sg by simp
qed simp

lemmas lp_class_simps = lp_classes list_pack_current_encode_size_unsafe_def list_pack_current_encode_size_bytes_def
  list_pack_get_uval_def

lemma get_at_app [simp]:
  "get_at (A @ x # C) (length A) = Some x"
  "get_at (A @ xs @ C) (length A + i) = get_at (xs @ C) i"
  "get_at (A @ xs) (length A + i) = get_at xs i"
  "get_at (x # xs) (Suc i) = get_at xs i" "get_at (x # xs) 0 = Some x"
  by (simp_all add: get_at_def nth_append)

lemma get_at_num [simp]:
  "get_at (x # xs) (numeral n) = get_at xs (pred_numeral n)" "get_at (A @ x # xs) (Suc (length A)) = get_at xs 0"
  by (simp_all add: get_at_def nth_append numeral_eq_Suc)

lemma int_encodes_7: "0 \<le> v \<Longrightarrow> v \<le> 127 \<Longrightarrow> encodes [word_of_int v] (LInt v)"
proof -
  assume v: "0 \<le> v" "v \<le> 127"
  let ?b = "word_of_int v :: byte"
  have u: "unat ?b = nat v" using v by (intro unat_of_int_id) simp_all
  have "unat ?b < 128" using v u by simp
  then have "take_bit 7 ?b = ?b" by (simp add: word_unat_eq_iff unsigned_take_bit_eq take_bit_nat_eq_self)
  then have a: "?b AND 0x7f = ?b" by (simp add: take_bit_eq_mask mask_eq_exp_minus_1)
  have c: "LP_ENCODING_IS_7BIT_UINT ?b" using \<open>unat ?b < 128\<close> by (simp add: lp_classes)
  have w: "ucast ?b = (word_of_int v :: u64)" using v by (simp add: word_unat_eq_iff unat_ucast_up u unat_of_int_id)
  have "\<not> word_of_int v \<ge> (- 1 :: u64)" using v by (simp add: word_le_nat_alt unat_max_64 unat_of_int_id)
  moreover have "sint (word_of_int v :: u64) = v" using v by (intro sint_small) simp_all
  ultimately have sg: "lp_signed (word_of_int v) (- 1) 0 = Some (LInt v)" by (simp add: lp_signed_def)
  have f: "?b \<noteq> LP_EOF" using \<open>unat ?b < 128\<close> by auto
  show ?thesis
    by (rule encodes_int [OF _ _ _ _ _ _ _ _ _ sg])
      (use c f a w \<open>unat ?b < 128\<close> in \<open>auto simp: list_pack_current_encode_size_unsafe_def list_pack_current_encode_size_bytes_def
        list_pack_get_uval_def lp_classes(2-5)\<close>)
qed

lemma int_encodes_13:
  fixes w :: u64
  assumes w: "unat w < 2 ^ 13" and sg: "lp_signed w (push_bit 12 1) 8191 = Some (LInt v)"
  shows "encodes [ucast (drop_bit 8 w) OR 0xC0, ucast w] (LInt v)"
proof -
  let ?b = "ucast (drop_bit 8 w) OR 0xC0 :: byte"
  note b = bytes_13 [OF w]
  have u: "192 \<le> unat ?b" "unat ?b < 224" using or_tag(2) [OF b(1)] b(1) by simp_all
  then have "?b \<noteq> 0xFF" "?b \<noteq> 0xF0" by auto
  then show ?thesis
    by (intro encodes_int [OF _ _ _ _ _ _ _ _ _ sg]) (use u b(2) in \<open>auto simp: lp_class_simps get_at_def nth_append\<close>)
qed

lemma int_encodes_wide:
  fixes w :: u64
  shows "unat w < 2 ^ 16 \<Longrightarrow> lp_signed w (push_bit 15 1) 0xFFFF = Some (LInt v) \<Longrightarrow>
      encodes [0xF1, ucast w, ucast (drop_bit 8 w)] (LInt v)"
    "unat w < 2 ^ 24 \<Longrightarrow> lp_signed w (push_bit 23 1) 0xFFFFFF = Some (LInt v) \<Longrightarrow>
      encodes [0xF2, ucast w, ucast (drop_bit 8 w), ucast (drop_bit 16 w)] (LInt v)"
    "unat w < 2 ^ 32 \<Longrightarrow> lp_signed w (push_bit 31 1) 0xFFFFFFFF = Some (LInt v) \<Longrightarrow>
      encodes [0xF3, ucast w, ucast (drop_bit 8 w), ucast (drop_bit 16 w), ucast (drop_bit 24 w)] (LInt v)"
    "lp_signed w (push_bit 63 1) (- 1) = Some (LInt v) \<Longrightarrow>
      encodes [0xF4, ucast w, ucast (drop_bit 8 w), ucast (drop_bit 16 w), ucast (drop_bit 24 w),
            ucast (drop_bit 32 w), ucast (drop_bit 40 w), ucast (drop_bit 48 w), ucast (drop_bit 56 w)] (LInt v)"
  by (rule encodes_int, auto simp: lp_class_simps get_at_def nth_append u64_of_bytes word64_of_bytes)+


lemma unat_wrap: "0 \<le> (x :: int) \<Longrightarrow> x < 2 ^ k \<Longrightarrow> k \<le> 32 \<Longrightarrow> unat (word_of_int x :: u64) < 2 ^ k"
proof -
  assume x: "0 \<le> x" "x < 2 ^ k" "k \<le> 32"
  then have "(2 :: int) ^ k \<le> 2 ^ 32" by (intro power_increasing) simp_all
  then have "unat (word_of_int x :: u64) = nat x" using x by (intro small_u64) simp_all
  then show ?thesis using x by (simp add: nat_less_iff)
qed

lemma push_bit_1: "push_bit k (1 :: u64) = word_of_int (2 ^ k)"
  by (simp add: push_bit_eq_mult)

lemma int_encodes: "in_int64 v \<Longrightarrow> encodes (list_pack_encode_integer_get_type v) (LInt v)"
proof -
  assume v: "in_int64 v"
  have narrow: "lp_signed (word_of_int (if v < 0 then 2 ^ Suc k + v else v)) (push_bit k 1) (word_of_int (2 ^ Suc k - 1)) = Some (LInt v)"
      "unat (word_of_int (if v < 0 then 2 ^ Suc k + v else v) :: u64) < 2 ^ Suc k"
    if k: "k < 32" "- (2 ^ k) \<le> v" "v < 2 ^ k" for k
  proof -
    have "(2 :: int) ^ k \<le> 2 ^ 32" using k by (intro power_increasing) simp_all
    with k show "lp_signed (word_of_int (if v < 0 then 2 ^ Suc k + v else v)) (push_bit k 1) (word_of_int (2 ^ Suc k - 1)) = Some (LInt v)"
      unfolding push_bit_1 power_Suc by (intro lp_signed_narrow) simp_all
    have "0 \<le> (if v < 0 then 2 ^ Suc k + v else v)" "(if v < 0 then 2 ^ Suc k + v else v) < 2 ^ Suc k"
      using k by (auto simp: algebra_simps)
    then show "unat (word_of_int (if v < 0 then 2 ^ Suc k + v else v) :: u64) < 2 ^ Suc k"
      using k by (intro unat_wrap) simp_all
  qed
  consider "v \<ge> 0 \<and> v \<le> 127" | "\<not> (v \<ge> 0 \<and> v \<le> 127)" "v \<ge> - 4096 \<and> v \<le> 4095"
    | "\<not> (v \<ge> 0 \<and> v \<le> 127)" "\<not> (v \<ge> - 4096 \<and> v \<le> 4095)" "v \<ge> - 32768 \<and> v \<le> 32767"
    | "\<not> (v \<ge> 0 \<and> v \<le> 127)" "\<not> (v \<ge> - 4096 \<and> v \<le> 4095)" "\<not> (v \<ge> - 32768 \<and> v \<le> 32767)"
      "v \<ge> - 8388608 \<and> v \<le> 8388607"
    | "\<not> (v \<ge> 0 \<and> v \<le> 127)" "\<not> (v \<ge> - 4096 \<and> v \<le> 4095)" "\<not> (v \<ge> - 32768 \<and> v \<le> 32767)"
      "\<not> (v \<ge> - 8388608 \<and> v \<le> 8388607)" "v \<ge> - 2147483648 \<and> v \<le> 2147483647"
    | "\<not> (v \<ge> 0 \<and> v \<le> 127)" "\<not> (v \<ge> - 4096 \<and> v \<le> 4095)" "\<not> (v \<ge> - 32768 \<and> v \<le> 32767)"
      "\<not> (v \<ge> - 8388608 \<and> v \<le> 8388607)" "\<not> (v \<ge> - 2147483648 \<and> v \<le> 2147483647)"
    by blast
  then show ?thesis
  proof cases
    case 1
    then show ?thesis unfolding list_pack_encode_integer_get_type_def by (simp only: if_True simp_thms int_encodes_7)
  next
    case 2
    have "encodes [ucast (drop_bit 8 (word_of_int (if v < 0 then 2 ^ 13 + v else v) :: u64)) OR 0xC0,
        ucast (word_of_int (if v < 0 then 2 ^ 13 + v else v) :: u64)] (LInt v)"
      by (rule int_encodes_13) (use 2 narrow [of 12] in \<open>simp_all del: of_int_add of_int_diff cong: if_cong\<close>)
    with 2 show ?thesis unfolding list_pack_encode_integer_get_type_def Let_def by (simp only: if_False if_True simp_thms)
  next
    case 3
    have "encodes [0xF1, ucast (word_of_int (if v < 0 then 2 ^ 16 + v else v) :: u64),
        ucast (drop_bit 8 (word_of_int (if v < 0 then 2 ^ 16 + v else v) :: u64))] (LInt v)"
      by (rule int_encodes_wide(1)) (use 3 narrow [of 15] in \<open>simp_all del: of_int_add of_int_diff cong: if_cong\<close>)
    with 3 show ?thesis unfolding list_pack_encode_integer_get_type_def Let_def by (simp only: if_False if_True simp_thms)
  next
    case 4
    let ?w = "word_of_int (if v < 0 then 2 ^ 24 + v else v) :: u64"
    have "encodes [0xF2, ucast ?w, ucast (drop_bit 8 ?w), ucast (drop_bit 16 ?w)] (LInt v)"
      by (rule int_encodes_wide(2)) (use 4 narrow [of 23] in \<open>simp_all del: of_int_add of_int_diff cong: if_cong\<close>)
    with 4 show ?thesis unfolding list_pack_encode_integer_get_type_def Let_def by (simp only: if_False if_True simp_thms)
  next
    case 5
    let ?w = "word_of_int (if v < 0 then 2 ^ 32 + v else v) :: u64"
    have "encodes [0xF3, ucast ?w, ucast (drop_bit 8 ?w), ucast (drop_bit 16 ?w), ucast (drop_bit 24 ?w)] (LInt v)"
      by (rule int_encodes_wide(3)) (use 5 narrow [of 31] in \<open>simp_all del: of_int_add of_int_diff cong: if_cong\<close>)
    with 5 show ?thesis unfolding list_pack_encode_integer_get_type_def Let_def by (simp only: if_False if_True simp_thms)
  next
    case 6
    then show ?thesis unfolding list_pack_encode_integer_get_type_def Let_def
      by (simp only: if_False simp_thms int_encodes_wide(4) [OF lp_signed_64 [OF v]])
  qed
qed

lemma mem_read_app: "mem_read (A @ xs @ s @ C) (length A + length xs) (length s) = Some s"
  by (simp add: mem_read_def)

lemma encodes_str:
  assumes bs: "bs = b0 # xs @ s" and len: "length bs < 2 ^ 32"
    and cls: "b0 \<noteq> LP_EOF" "list_pack_current_encode_size_bytes b0 = Suc (length xs) \<or> list_pack_current_encode_size_bytes b0 = 1"
    and sz: "\<And>A C. list_pack_current_encode_size_unsafe (A @ bs @ C) (length A) = Some (of_nat (length bs))"
    and rd: "\<And>A C. list_pack_get_value (A @ bs @ C) (length A) =
        mem_read (A @ bs @ C) (length A + length (b0 # xs)) (length s) \<bind> (\<lambda>s. Some (LStr s))"
  shows "encodes bs (LStr s)"
proof (rule encodesI [OF _ _ len refl _ _ sz])
  show "list_pack_get_value (A @ bs @ C) (length A) = Some (LStr s)" for A C
    using mem_read_app [of A "b0 # xs" s C] unfolding rd by (simp add: bs)
qed (use bs cls in auto)

lemma str_encodes_6: "length s < 64 \<Longrightarrow> encodes ((ucast (of_nat (length s) :: u32) OR 0x80) # s) (LStr s)"
proof -
  assume n: "length s < 64"
  let ?h = "ucast (of_nat (length s) :: u32) :: byte"
  have u: "unat ?h = length s" using n by (simp add: unsigned_ucast_eq unat_of_nat_id take_bit_nat_eq_self)
  have h: "(?h OR 0x80) AND 0x3F = ?h" "unat (?h OR 0x80) = length s + 128"
    using or_high [of ?h 6 "0x80"] n u by (simp_all add: mask_eq_exp_minus_1 take_bit_eq_mod word_mod_def)
  then have c: "LP_ENCODING_IS_6BIT_STR (?h OR 0x80)" "\<not> LP_ENCODING_IS_7BIT_UINT (?h OR 0x80)" "?h OR 0x80 \<noteq> LP_EOF"
    using n by (auto simp: lp_classes)
  have l: "LP_ENCODING_6BIT_STR_LEN (A @ (?h OR 0x80) # s @ C) (length A) = Some (of_nat (length s))" for A C
    using h(1) u n by (simp add: LP_ENCODING_6BIT_STR_LEN_def word_unat_eq_iff unat_ucast_up unat_of_nat_id)
  show ?thesis
    by (rule encodes_str [where xs = "[]", OF _ _ c(3)])
      (use c n l in \<open>auto simp: list_pack_current_encode_size_bytes_def list_pack_current_encode_size_unsafe_def
        list_pack_get_value_def unat_of_nat_id split: option.split\<close>)
qed

lemma str_encodes_12:
  assumes n: "length s < 4096"
  shows "encodes ((ucast (drop_bit 8 (of_nat (length s) :: u32)) OR 0xE0) # ucast (of_nat (length s) :: u32) # s) (LStr s)"
proof -
  let ?w = "of_nat (length s) :: u32" and ?h = "ucast (drop_bit 8 (of_nat (length s) :: u32)) :: byte"
  have uw: "unat ?w = length s" using n by (simp add: unat_of_nat_id)
  have "unat (drop_bit 8 ?w) < 16" unfolding unat_drop uw using n by (simp add: less_mult_imp_div_less)
  then have u: "unat ?h < 16" by (simp add: unsigned_ucast_eq take_bit_nat_eq_self)
  have h: "(?h OR 0xE0) AND 0xF = ?h" "unat (?h OR 0xE0) = unat ?h + 224"
    using or_high [of ?h 4 "0xE0"] u by (simp_all add: mask_eq_exp_minus_1 take_bit_eq_mod word_mod_def)
  then have c: "LP_ENCODING_IS_12BIT_STR (?h OR 0xE0)" "?h OR 0xE0 \<noteq> LP_EOF" "224 \<le> unat (?h OR 0xE0)" "unat (?h OR 0xE0) < 240"
    using u by (auto simp: lp_classes)
  have "drop_bit 16 ?w = 0" "drop_bit 24 ?w = 0"
    using n by (simp_all only: word_unat_eq_iff unat_drop uw unsigned_0) simp_all
  with word32_of_bytes [of ?w] have w: "push_bit 8 (ucast ?h) OR ucast (ucast ?w :: byte) = ?w" by (simp add: or.commute)
  have l: "LP_ENCODING_12BIT_STR_LEN (A @ (?h OR 0xE0) # ucast ?w # s @ C) (length A) = Some ?w" for A C
    using h(1) w by (simp add: LP_ENCODING_12BIT_STR_LEN_def)
  show ?thesis
    by (rule encodes_str [where xs = "[ucast ?w]", OF _ _ c(2)])
      (use c n l uw in \<open>auto simp: lp_classes list_pack_current_encode_size_bytes_def list_pack_current_encode_size_unsafe_def
        list_pack_get_value_def split: option.split\<close>)
qed

lemma str_encodes_32:
  assumes n: "length s + 5 < 2 ^ 32"
  defines "w \<equiv> of_nat (length s) :: u32"
  shows "encodes (0xF0 # ucast w # ucast (drop_bit 8 w) # ucast (drop_bit 16 w) # ucast (drop_bit 24 w) # s) (LStr s)"
proof -
  have uw: "unat w = length s" using n unfolding w_def by (intro unat_of_nat_id) simp
  have l: "LP_ENCODING_32BIT_STR_LEN (A @ 0xF0 # ucast w # ucast (drop_bit 8 w) # ucast (drop_bit 16 w) # ucast (drop_bit 24 w) # s @ C)
      (length A) = Some w" for A C
    using word32_of_bytes [of w] by (simp add: LP_ENCODING_32BIT_STR_LEN_def get_at_def nth_append)
  have five: "k + 5 = Suc (Suc (Suc (Suc (Suc k))))" for k by simp
  show ?thesis
    by (rule encodes_str [where xs = "[ucast w, ucast (drop_bit 8 w), ucast (drop_bit 16 w), ucast (drop_bit 24 w)]"])
      (use n l uw in \<open>auto simp: lp_classes list_pack_current_encode_size_bytes_def list_pack_current_encode_size_unsafe_def
        list_pack_get_value_def w_def five split: option.split\<close>)
qed

lemma str_encodes: "length s + 5 < 2 ^ 32 \<Longrightarrow> encodes (list_pack_encode_string s) (LStr s)"
proof -
  assume n: "length s + 5 < 2 ^ 32"
  then have "unat (of_nat (length s) :: u32) = length s" by (intro unat_of_nat_id) simp
  then have c: "(of_nat (length s) :: u32) < 64 \<longleftrightarrow> length s < 64" "(of_nat (length s) :: u32) < 4096 \<longleftrightarrow> length s < 4096"
    by (simp_all add: word_less_nat_alt)
  consider "length s < 64" | "\<not> length s < 64" "length s < 4096" | "\<not> length s < 64" "\<not> length s < 4096" by blast
  then show ?thesis
    unfolding list_pack_encode_string_def Let_def c
    by cases (simp_all only: if_True if_False str_encodes_6 str_encodes_12 str_encodes_32 [OF n])
qed

section \<open>Integers in decimal\<close>

lemma list_pack_digits_eq: "list_pack_digits v p = string2ll_digits v p"
  by (induction v p rule: list_pack_digits.induct) (simp_all add: Let_def)

lemma list_pack_string_to_int64_eq: "list_pack_string_to_int64 s = string2ll s"
proof (cases "length s \<ge> 21")
  case True
  have "string2ll s = None"
  proof (rule ccontr)
    assume "string2ll s \<noteq> None"
    then obtain v where "in_int64 v" "s = dec_int v" using string2ll_iff by blast
    then show False using True length_dec_magnitude [of v] by (auto simp: dec_int_alt split: if_splits)
  qed
  then show ?thesis using True by (simp add: list_pack_string_to_int64_def)
next
  case False
  then show ?thesis unfolding list_pack_string_to_int64_def string2ll_def list_pack_digits_eq by (simp only: simp_thms)
qed

lemma list_pack_get_digits:
  assumes "list_pack_get_value m p = Some (LInt v)" "in_int64 v" "21 \<le> length buf"
  shows "map_option fst (list_pack_get m p (Some buf)) = Some (LStr (dec_int v))"
proof -
  have "length (dec_int v) < 21" using length_dec_magnitude [OF assms(2)] by (auto simp: dec_int_alt)
  then show ?thesis using assms by (simp add: list_pack_get_def ll2string_spec)
qed

text \<open>What is read back after a string was stored.\<close>

definition stored_value :: "byte list \<Rightarrow> lp_value" where
  "stored_value s = (case string2ll s of Some v \<Rightarrow> LInt v | None \<Rightarrow> LStr s)"

lemma get_type_encodes: "length s + 5 < 2 ^ 32 \<Longrightarrow> encodes (list_pack_encode_get_type s) (stored_value s)"
proof (cases "string2ll s")
  case (Some v)
  then have "in_int64 v" by (simp add: string2ll_iff)
  with Some show ?thesis
    by (simp add: list_pack_encode_get_type_def stored_value_def list_pack_string_to_int64_eq int_encodes)
qed (simp add: list_pack_encode_get_type_def stored_value_def list_pack_string_to_int64_eq str_encodes)

section \<open>The length that is read backwards\<close>

lemma length_encode_backlen: "length (list_pack_encode_backlen l) = list_pack_encode_backlen_bytes l"
  by (simp add: list_pack_encode_backlen_def list_pack_encode_backlen_bytes_def)

lemma and_127: "(x :: u64) AND 127 = take_bit 7 x" "(y :: byte) AND 127 = take_bit 7 y"
  by (simp_all add: take_bit_eq_mask mask_eq_exp_minus_1)

lemma take_bit_step: "take_bit k l OR push_bit k (drop_bit k l AND 127) = take_bit (k + 7) (l :: u64)"
  unfolding and_127 by (intro bit_word_eqI) (auto simp: bit_simps)

lemma and_128: "(y :: byte) AND 128 = 0 \<longleftrightarrow> unat y < 128"
  using lp_classes(1) [of y] by (simp add: LP_ENCODING_IS_7BIT_UINT_def)

lemma seven_bits:
  fixes x :: u64
  shows "ucast ((ucast (x AND 127) OR 128 :: byte) AND 127) = x AND 127" "(ucast (x AND 127) OR 128 :: byte) AND 128 \<noteq> 0"
    "unat x < 128 \<Longrightarrow> ucast ((ucast x :: byte) AND 127) = x" "unat x < 128 \<Longrightarrow> (ucast x :: byte) AND 128 = 0"
proof -
  have s: "unat (ucast w :: byte) = unat w" "ucast (ucast w :: byte) = w" if "unat w < 128" for w :: u64
    using that by (simp_all add: word_unat_eq_iff unsigned_ucast_eq unsigned_take_bit_eq take_bit_nat_eq_self)
  have "unat (x AND 127) < 128"
    unfolding and_127 using take_bit_nat_less_exp [of 7 "unat x"] by (simp add: unsigned_take_bit_eq)
  note u = s [OF this] this
  have "(ucast (x AND 127) OR 128 :: byte) AND mask 7 = ucast (x AND 127)" "unat (ucast (x AND 127) OR 128 :: byte) = unat (x AND 127) + 128"
    using or_high [of "ucast (x AND 127)" 7 128] u by (simp_all add: take_bit_eq_mod word_mod_def)
  with u show "ucast ((ucast (x AND 127) OR 128 :: byte) AND 127) = x AND 127" "(ucast (x AND 127) OR 128 :: byte) AND 128 \<noteq> 0"
    unfolding and_128 by (simp_all add: mask_eq_exp_minus_1)
  assume x: "unat x < 128"
  with s [OF x] show "(ucast x :: byte) AND 128 = 0" "ucast ((ucast x :: byte) AND 127) = x"
    unfolding and_128 and_127 by (simp_all add: take_bit_id)
qed

lemma decode_step:
  "get_at m (Suc q) = Some (ucast (drop_bit k l AND 127) OR 128) \<Longrightarrow> k \<le> 21 \<Longrightarrow>
     decode_backlen_loop m (int (Suc q)) (take_bit k l) k = decode_backlen_loop m (int q) (take_bit (k + 7) l) (k + 7)"
  using take_bit_step [of k l] seven_bits(1,2) [of "drop_bit k l"]
  by (subst decode_backlen_loop.simps) (simp add: Let_def nat_add_distrib)

lemma decode_last:
  assumes "get_at m q = Some (ucast (drop_bit k l))" "unat l < 2 ^ (k + 7)"
  shows "decode_backlen_loop m (int q) (take_bit k l) k = Some l"
proof -
  have u: "unat (drop_bit k l) < 128"
    unfolding unat_drop using assms(2) by (simp add: less_mult_imp_div_less power_add mult.commute)
  have "drop_bit k l AND 127 = drop_bit k l" unfolding and_127 using u by (simp add: take_bit_id)
  moreover have "take_bit (k + 7) l = l"
    using assms(2) by (rule take_bit_id)
  ultimately have "take_bit k l OR push_bit k (drop_bit k l) = l" using take_bit_step [of k l] by simp
  then show ?thesis using assms(1) seven_bits(3,4) [OF u]
    by (subst decode_backlen_loop.simps) (simp add: Let_def)
qed

lemma decode_groups:
  assumes hi: "get_at m q = Some (ucast (drop_bit (7 * j) l))" and j: "j \<le> 4" and l: "unat l < 2 ^ (7 * j + 7)"
    and lo: "\<forall>i<j. get_at m (q + (j - i)) = Some (ucast (drop_bit (7 * i) l AND 127) OR 128)"
  shows "list_pack_decode_backlen m (int (q + j)) = Some l"
proof -
  have "decode_backlen_loop m (int (q + j)) 0 0 = decode_backlen_loop m (int (q + (j - i))) (take_bit (7 * i) l) (7 * i)"
    if "i \<le> j" for i
    using that
  proof (induction i)
    case (Suc i)
    then have e: "q + (j - i) = Suc (q + (j - Suc i))" and i: "i < j" by simp_all
    have s: "7 * Suc i = 7 * i + 7" by simp
    have "get_at m (Suc (q + (j - Suc i))) = Some (ucast (drop_bit (7 * i) l AND 127) OR 128)" using lo i e by metis
    from decode_step [OF this] i j have "decode_backlen_loop m (int (q + (j - i))) (take_bit (7 * i) l) (7 * i) =
        decode_backlen_loop m (int (q + (j - Suc i))) (take_bit (7 * Suc i) l) (7 * Suc i)" unfolding e s by simp
    with Suc.IH i show ?case by simp
  qed simp
  from this [of j] show ?thesis
    using decode_last [OF hi l] by (simp add: list_pack_decode_backlen_def)
qed

lemma decode_encode_backlen:
  assumes l: "unat l < 2 ^ 35"
  shows "list_pack_decode_backlen (A @ list_pack_encode_backlen l @ C)
     (int (length A + length (list_pack_encode_backlen l)) - 1) = Some l"
proof -
  have "list_pack_decode_backlen (A @ list_pack_encode_backlen l @ C) (int (length A + j)) = Some l"
    if "length (list_pack_encode_backlen l) = Suc j" for j
  proof (rule decode_groups)
    show "j \<le> 4" using that by (simp add: list_pack_encode_backlen_def split: if_splits)
    show "unat l < 2 ^ (7 * j + 7)"
      using that l by (auto simp: list_pack_encode_backlen_def word_le_nat_alt word_less_nat_alt split: if_splits)
    show "get_at (A @ list_pack_encode_backlen l @ C) (length A) = Some (ucast (drop_bit (7 * j) l))"
      using that by (auto simp: list_pack_encode_backlen_def get_at_def nth_append split: if_splits)
    show "\<forall>i<j. get_at (A @ list_pack_encode_backlen l @ C) (length A + (j - i)) = Some (ucast (drop_bit (7 * i) l AND 127) OR 128)"
    proof (intro allI impI)
      fix i assume i: "i < j"
      have "get_at (A @ list_pack_encode_backlen l @ C) (length A + (j - i)) = Some (list_pack_encode_backlen l ! (j - i))"
        using that i by (intro get_at_mid) simp
      moreover have "list_pack_encode_backlen l ! (j - i) = ucast (drop_bit (7 * i) l AND 127) OR 128"
        using that i by (auto simp: list_pack_encode_backlen_def less_Suc_eq split: if_splits)
      ultimately show "get_at (A @ list_pack_encode_backlen l @ C) (length A + (j - i)) = Some (ucast (drop_bit (7 * i) l AND 127) OR 128)"
        by simp
    qed
  qed
  moreover obtain j where "length (list_pack_encode_backlen l) = Suc j"
    unfolding length_encode_backlen list_pack_encode_backlen_bytes_def by (cases "list_pack_encode_backlen_bytes l") (auto simp: list_pack_encode_backlen_bytes_def split: if_splits)
  ultimately show ?thesis by simp
qed

section \<open>Properties\<close>

text \<open>C8. Wherever the bytes lie that \<open>list_pack_encode_integer_get_type\<close> makes of a 64-bit integer, or
  \<open>list_pack_encode_get_type\<close> of a string, \<open>list_pack_current_encode_size_unsafe\<close> finds their number and
  \<open>list_pack_get_value\<close> the value again: the integer (\<open>list_pack_get\<close> its digits), or the string unless it is the decimal form of an
  integer. The length written behind an entry has \<open>list_pack_encode_backlen_bytes\<close> bytes, and reading
  it backwards gives the length.\<close>

theorem list_pack_encoding_roundtrip:
  "(in_int64 v \<longrightarrow> list_pack_get_value (A @ list_pack_encode_integer_get_type v @ C) (length A) = Some (LInt v)
      \<and> list_pack_current_encode_size_unsafe (A @ list_pack_encode_integer_get_type v @ C) (length A)
          = Some (of_nat (length (list_pack_encode_integer_get_type v)))
      \<and> (21 \<le> length buf \<longrightarrow> map_option fst (list_pack_get (A @ list_pack_encode_integer_get_type v @ C) (length A) (Some buf))
          = Some (LStr (dec_int v))))
   \<and> (length s + 5 < 2 ^ 32 \<longrightarrow>
        list_pack_get_value (A @ list_pack_encode_get_type s @ C) (length A)
          = Some (case string2ll s of Some i \<Rightarrow> LInt i | None \<Rightarrow> LStr s)
        \<and> list_pack_current_encode_size_unsafe (A @ list_pack_encode_get_type s @ C) (length A)
          = Some (of_nat (length (list_pack_encode_get_type s))))
   \<and> length (list_pack_encode_backlen l) = list_pack_encode_backlen_bytes l
   \<and> (unat l < 2 ^ 35 \<longrightarrow>
        list_pack_decode_backlen (A @ list_pack_encode_backlen l @ C)
          (int (length A + length (list_pack_encode_backlen l)) - 1) = Some l)"
proof (intro conjI impI)
  show "length (list_pack_encode_backlen l) = list_pack_encode_backlen_bytes l" by (rule length_encode_backlen)
  show "map_option fst (list_pack_get (A @ list_pack_encode_integer_get_type v @ C) (length A) (Some buf)) = Some (LStr (dec_int v))"
    if "in_int64 v" "21 \<le> length buf"
    using int_encodes [OF that(1)] that by (intro list_pack_get_digits) (auto simp only: encodes_def)
qed (use int_encodes [of v] get_type_encodes [of s] decode_encode_backlen [of l A C] in
    \<open>auto simp only: encodes_def stored_value_def\<close>)

theorem list_pack_encoding_roundtrip_witness:
  "list_pack_get_value ([1, 2] @ list_pack_encode_integer_get_type (- 300) @ [9]) (length [1 :: byte, 2]) = Some (LInt (- 300))
   \<and> list_pack_get_value ([1, 2] @ list_pack_encode_get_type [97, 98] @ [9]) (length [1 :: byte, 2])
        = Some (case string2ll [97, 98] of Some i \<Rightarrow> LInt i | None \<Rightarrow> LStr [97, 98])
   \<and> list_pack_decode_backlen ([1, 2] @ list_pack_encode_backlen 200 @ [9])
        (int (length [1 :: byte, 2] + length (list_pack_encode_backlen 200)) - 1) = Some 200"
proof -
  have "in_int64 (- 300)" "length [97 :: byte, 98] + 5 < 2 ^ 32" "unat (200 :: u64) < 2 ^ 35" by (simp_all add: in_int64_def)
  then show ?thesis
    using list_pack_encoding_roundtrip [of "- 300" "[1, 2]" "[9]" "[]" "[97, 98]" 200] by blast
qed

text \<open>\<open>list_pack_string_to_int64\<close>, the copy of \<open>string2ll\<close> that the listpack carries and that gives up
  on 21 bytes and more, is the same function as \<open>string2ll\<close>: it accepts exactly the decimal
  representations of the 64-bit integers.\<close>

theorem list_pack_string_to_int64_is_string2ll:
  "list_pack_string_to_int64 s = string2ll s
   \<and> (list_pack_string_to_int64 s = Some v \<longleftrightarrow> in_int64 v \<and> s = dec_int v)"
  by (simp add: list_pack_string_to_int64_eq string2ll_iff)

end
