(* ===== verification/ListpackSeq.thy ===== *)
theory ListpackSeq
  imports Listpack
begin

text \<open>
  The listpack as a sequence of elements: a block of memory represents the list of the encodings it
  holds, every operation of \<open>src/listpack/listpack.c\<close> is the list operation it names, and the
  iterators visit the elements in order and in reverse order.
\<close>

section \<open>The block and the sequence it represents\<close>

definition le32 :: "u32 \<Rightarrow> byte list" where
  "le32 v = [ucast v, ucast (drop_bit 8 v), ucast (drop_bit 16 v), ucast (drop_bit 24 v)]"

definition le16 :: "u32 \<Rightarrow> byte list" where
  "le16 v = [ucast v, ucast (drop_bit 8 v)]"

definition lp_entry :: "byte list \<Rightarrow> byte list" where
  "lp_entry bs = bs @ list_pack_encode_backlen (of_nat (length bs))"

definition lp_body :: "byte list list \<Rightarrow> byte list" where
  "lp_body bss = concat (map lp_entry bss)"

text \<open>The counter of the header: exact, or 65535 for unknown.\<close>

definition lp_count :: "u32 \<Rightarrow> nat \<Rightarrow> bool" where
  "lp_count c n \<longleftrightarrow> c = 0xFFFF \<or> unat c = n \<and> n < 65535"

definition lp_entries_ok :: "byte list list \<Rightarrow> bool" where
  "lp_entries_ok bss \<longleftrightarrow> (\<forall>bs \<in> set bss. \<exists>v. encodes bs v)"

definition lp_ok :: "lp \<Rightarrow> byte list list \<Rightarrow> bool" where
  "lp_ok m bss \<longleftrightarrow> (\<exists>t c slack. m = le32 t @ le16 c @ lp_body bss @ LP_EOF # slack
     \<and> unat t = 7 + length (lp_body bss) \<and> lp_count c (length bss) \<and> lp_entries_ok bss)"

text \<open>The offset of the element behind \<open>bss\<close>.\<close>

definition lp_off :: "byte list list \<Rightarrow> nat" where
  "lp_off bss = 6 + length (lp_body bss)"

lemma length_le [simp]: "length (le32 t) = 4" "length (le16 c) = 2"
  by (simp_all add: le32_def le16_def)

lemma lp_body_simps [simp]:
  "lp_body [] = []" "lp_body (bs # bss) = lp_entry bs @ lp_body bss" "lp_body (xs @ ys) = lp_body xs @ lp_body ys"
  by (simp_all add: lp_body_def)

lemma lp_off_simps [simp]: "lp_off [] = 6" "lp_off (xs @ [x]) = lp_off xs + length (lp_entry x)"
  by (simp_all add: lp_off_def)

lemma lp_entries_ok_simps [simp]:
  "lp_entries_ok []" "lp_entries_ok (bs # bss) \<longleftrightarrow> (\<exists>v. encodes bs v) \<and> lp_entries_ok bss"
  "lp_entries_ok (xs @ ys) \<longleftrightarrow> lp_entries_ok xs \<and> lp_entries_ok ys"
  by (auto simp: lp_entries_ok_def)

lemma length_lp_entry: "length (lp_entry bs) = length bs + list_pack_encode_backlen_bytes (of_nat (length bs))"
  by (simp add: lp_entry_def length_encode_backlen)

section \<open>The header\<close>

lemma total_bytes_image [simp]:
  "list_pack_get_total_bytes (le32 t @ R) = Some t"
  "list_pack_bytes (le32 t @ R) = Some (unat t)"
  "list_pack_set_total_bytes (le32 t @ R) v = Some (le32 v @ R)"
  using word32_of_bytes [of t]
  by (simp_all add: list_pack_bytes_def list_pack_get_total_bytes_def list_pack_set_total_bytes_def le32_def mem_write_def)

lemma num_elements_image [simp]:
  "c \<le> 0xFFFF \<Longrightarrow> list_pack_get_num_elements (le32 t @ le16 c @ R) = Some c"
  "list_pack_set_num_elements (le32 t @ le16 c @ R) v = Some (le32 t @ le16 v @ R)"
proof -
  show "list_pack_set_num_elements (le32 t @ le16 c @ R) v = Some (le32 t @ le16 v @ R)"
    by (simp add: list_pack_set_num_elements_def le32_def le16_def mem_write_def)
  assume "c \<le> 0xFFFF"
  then have "unat c \<le> 65535" by (simp add: word_le_nat_alt)
  then have "drop_bit 16 c = 0" "drop_bit 24 c = 0"
    by (simp_all only: word_unat_eq_iff unat_drop unsigned_0) simp_all
  with word32_of_bytes [of c] show "list_pack_get_num_elements (le32 t @ le16 c @ R) = Some c"
    by (simp add: list_pack_get_num_elements_def le32_def le16_def)
qed

lemma lp_count_le: "lp_count c n \<Longrightarrow> c \<le> 0xFFFF"
  by (auto simp: lp_count_def word_le_nat_alt)

lemma update_num_elements_image:
  assumes "lp_count c n" "d \<Longrightarrow> 0 < n"
  obtains c' where "update_num_elements (le32 t @ le16 c @ R) d = Some (le32 t @ le16 c' @ R)"
    "lp_count c' (if d then n - 1 else n + 1)"
proof (cases "c = 0xFFFF")
  case True
  show ?thesis by (rule that [of c]) (simp_all add: True update_num_elements_def lp_count_def)
next
  case False
  with assms have u: "unat c = n" "n < 65535" by (auto simp: lp_count_def)
  have "lp_count (if \<not> d then c + 1 else c - 1) (if d then n - 1 else n + 1)"
    using u assms(2) by (auto simp: lp_count_def unat_word_ariths word_unat_eq_iff unat_sub_if_size word_size)
  with False lp_count_le [OF assms(1)] show ?thesis by (intro that) (simp_all add: update_num_elements_def)
qed

section \<open>Splicing bytes\<close>

lemma splice:
  assumes m: "m = P @ Y @ Z @ S" and u: "new \<le> usable new"
    and new: "new = length P + n + length Z" and old: "old = length P + length Y + length Z"
  obtains m2 G S' where "mem_move (if new > old \<and> new > length m then realloc junk m (usable new) else m)
      (length P + n) (length P + length Y) (length Z) = Some m2"
    "(if new < old then realloc junk m2 (usable new) else m2) = P @ G @ Z @ S'" "length G = n"
proof -
  let ?m1 = "if new > old \<and> new > length m then realloc junk m (usable new) else m"
  have len: "new \<le> length ?m1" "old \<le> length ?m1" using u m new old by auto
  have pre: "take old ?m1 = P @ Y @ Z"
    using m old u by (auto simp: take_realloc)
  then have t: "take (length P) ?m1 = P" "take (length Z) (drop (length P + length Y) ?m1) = Z"
  proof -
    have "take (length P) (take old ?m1) = P" unfolding pre by simp
    then show "take (length P) ?m1 = P" using old by (simp add: min_def)
    have "drop (length P + length Y) (take old ?m1) = Z" unfolding pre by simp
    then show "take (length Z) (drop (length P + length Y) ?m1) = Z" using old by (simp add: drop_take)
  qed
  define G where "G = take n (drop (length P) ?m1)"
  define m2 where "m2 = P @ G @ Z @ drop new ?m1"
  have G: "length G = n" using len new by (simp add: G_def)
  have "take (length P + n) ?m1 = P @ G" using t(1) by (simp add: take_add G_def)
  then have mv: "mem_move ?m1 (length P + n) (length P + length Y) (length Z) = Some m2"
    using len new old t by (simp add: mem_move_Some m2_def)
  have "\<exists>S'. (if new < old then realloc junk m2 (usable new) else m2) = P @ G @ Z @ S'"
  proof (cases "new < old")
    case True
    have "take new (realloc junk m2 (usable new)) = take new m2" using u len G new by (intro take_realloc) (auto simp: m2_def)
    also have "\<dots> = P @ G @ Z" using G new by (simp add: m2_def)
    finally have "realloc junk m2 (usable new) = P @ G @ Z @ drop new (realloc junk m2 (usable new))"
      by (metis append_take_drop_id append.assoc)
    then show ?thesis using True by (simp only: if_True) blast
  qed (auto simp: m2_def)
  with mv G that show thesis by blast
qed

section \<open>Insertion, replacement, removal\<close>

definition inserted_bytes :: "lp_elem \<Rightarrow> byte list" where
  "inserted_bytes ele = (if ele = None then [] else lp_entry (elem_encoding ele))"

definition elements_after :: "lp_elem \<Rightarrow> lp_where \<Rightarrow> nat \<Rightarrow> nat" where
  "elements_after ele whr k = (if ele = None then k - 1 else if whr = LIST_PACK_REPLACE then k else k + 1)"

lemma write_gap: "length G = length N \<Longrightarrow> mem_write (P @ G @ R) (length P) N = Some (P @ N @ R)"
  by (simp add: mem_write_def)

definition elem_backlen :: "lp_elem \<Rightarrow> byte list" where
  "elem_backlen ele = (if ele \<noteq> None then list_pack_encode_backlen (of_nat (length (elem_encoding ele))) else [])"

lemma encoding_backlen: "elem_encoding ele @ elem_backlen ele = inserted_bytes ele"
  by (auto simp: elem_backlen_def inserted_bytes_def lp_entry_def elem_encoding_def split: option.split)

text \<open>The element and its length are written into the gap.\<close>

lemma write_inserted:
  assumes "length G = length (inserted_bytes ele)" "length P = p"
  shows "(if ele \<noteq> None then mem_write (P @ G @ R) p (elem_encoding ele)
        \<bind> (\<lambda>m. mem_write m (p + length (elem_encoding ele)) (elem_backlen ele)) else Some (P @ G @ R))
      = Some (P @ inserted_bytes ele @ R)"
proof (cases "ele = None")
  case False
  let ?enc = "elem_encoding ele"
  have n: "length ?enc + length (elem_backlen ele) = length (inserted_bytes ele)" by (metis encoding_backlen length_append)
  obtain G1 G2 where G: "G = G1 @ G2" "length G1 = length ?enc" "length G2 = length (elem_backlen ele)"
    by (rule that [of "take (length ?enc) G" "drop (length ?enc) G"]) (use assms(1) n in simp_all)
  have "mem_write (P @ G @ R) p ?enc = Some ((P @ ?enc) @ G2 @ R)"
    using write_gap [OF G(2), of P "G2 @ R"] assms(2) by (simp add: G(1))
  moreover have "mem_write ((P @ ?enc) @ G2 @ R) (p + length ?enc) (elem_backlen ele) = Some ((P @ ?enc) @ elem_backlen ele @ R)"
    using write_gap [OF G(3), of "P @ ?enc" R] assms(2) by (simp add: add.assoc)
  ultimately show ?thesis using False by (simp flip: encoding_backlen)
qed (use assms(1) in \<open>simp add: inserted_bytes_def\<close>)

lemma count_after:
  assumes c: "lp_count c k" "ele = None \<Longrightarrow> 0 < k"
  obtains c' where "(if whr \<noteq> LIST_PACK_REPLACE \<or> ele = None then update_num_elements (le32 t @ le16 c @ R) (ele = None)
        else Some (le32 t @ le16 c @ R)) = Some (le32 t @ le16 c' @ R)"
    "lp_count c' (elements_after ele whr k)"
proof (cases "whr \<noteq> LIST_PACK_REPLACE \<or> ele = None")
  case True
  from update_num_elements_image [OF c, where t = t and R = R] obtain c' where
    "update_num_elements (le32 t @ le16 c @ R) (ele = None) = Some (le32 t @ le16 c' @ R)"
    "lp_count c' (if ele = None then k - 1 else k + 1)" by blast
  with True show ?thesis by (intro that [of c']) (auto simp: elements_after_def)
next
  case False
  with c show ?thesis by (intro that [of c]) (auto simp: elements_after_def)
qed

lemma insert_core:
  assumes m: "m = le32 t @ le16 c @ D @ Y @ Z @ S" and t: "unat t = 6 + length D + length Y + length Z"
    and c: "lp_count c k" "ele = None \<Longrightarrow> 0 < k" and u: "\<And>n. n \<le> usable n" and Z: "Z \<noteq> []"
    and whr: "ele \<noteq> None \<and> whr = LIST_PACK_BEFORE \<and> Y = [] \<or> whr = LIST_PACK_REPLACE \<and> replaced_bytes m (6 + length D) = Some (length Y)"
    and small: "6 + length D + length (inserted_bytes ele) + length Z < 2 ^ 32"
  shows "\<exists>t' c' S'. list_pack_insert usable junk m ele (6 + length D) whr =
      Some (le32 t' @ le16 c' @ D @ inserted_bytes ele @ Z @ S', if ele = None \<and> hd Z = LP_EOF then None else Some (6 + length D))
    \<and> unat t' = 6 + length D + length (inserted_bytes ele) + length Z \<and> lp_count c' (elements_after ele whr k)"
proof -
  let ?N = "inserted_bytes ele" and ?P = "le32 t @ le16 c @ D" and ?p = "6 + length D"
  define new where "new = ?p + length ?N + length Z"
  have n: "length (elem_encoding ele) + length (elem_backlen ele) = length ?N" by (metis encoding_backlen length_append)
  have P: "length ?P = ?p" by simp
  have mP: "m = ?P @ Y @ Z @ S" using m by simp
  have old: "unat t = length ?P + length Y + length Z" and newP: "new = length ?P + length ?N + length Z"
    using t by (simp_all add: new_def)
  from splice [where usable = usable and junk = junk and n = "length ?N", OF mP u [of new] newP old] obtain m2 G S' where
    m2: "mem_move (if new > unat t \<and> new > length m then realloc junk m (usable new) else m) (?p + length ?N) (?p + length Y) (length Z) = Some m2"
    "(if new < unat t then realloc junk m2 (usable new) else m2) = ?P @ G @ Z @ S'" "length G = length ?N"
    unfolding P by blast
  have bytes: "list_pack_bytes m = Some (unat t)" using m by simp
  have whr': "(if ele = None then LIST_PACK_REPLACE else whr) = whr" and not_after: "whr \<noteq> LIST_PACK_AFTER"
    and rep: "(if whr = LIST_PACK_REPLACE then replaced_bytes m ?p else Some 0) = Some (length Y)" using whr by auto
  have diff: "unat t + length ?N - length Y = new" "unat t - ?p - length Y = length Z" using t by (simp_all add: new_def)
  have mv: "(if whr = LIST_PACK_BEFORE then mem_move x (?p + length ?N) ?p (unat t - ?p)
       else mem_move x (?p + length ?N) (?p + length Y) (unat t - ?p - length Y))
      = mem_move x (?p + length ?N) (?p + length Y) (length Z)" for x
    using whr diff by auto
  have first: "(if ele = None then get_at (?P @ G @ Z @ S') ?p else Some 0) = Some (if ele = None then hd Z else 0)"
    using m2(3) get_at_mid0 [OF Z, of ?P S'] Z by (auto simp: inserted_bytes_def hd_conv_nth)
  note wr = write_inserted [OF m2(3) P, of "Z @ S'"]
  from count_after [where t = t and R = "D @ ?N @ Z @ S'" and whr = whr, OF c] obtain c' where
    c': "(if whr \<noteq> LIST_PACK_REPLACE \<or> ele = None then update_num_elements (?P @ ?N @ Z @ S') (ele = None) else Some (?P @ ?N @ Z @ S'))
      = Some (le32 t @ le16 c' @ D @ ?N @ Z @ S')" "lp_count c' (elements_after ele whr k)" by (auto simp only: append_assoc)
  have lt: "\<not> new > 2 ^ 32 - 1" "\<not> ?p > unat t" using small t by (simp_all add: new_def)
  have t': "unat (of_nat new :: u32) = new" using small by (intro unat_of_nat_id) (simp add: new_def)
  have nw: "(ele = None \<and> (if ele = None then hd Z else 0) = LP_EOF) \<longleftrightarrow> ele = None \<and> hd Z = LP_EOF" by auto
  have "list_pack_insert usable junk m ele ?p whr = Some (le32 (of_nat new) @ le16 c' @ D @ ?N @ Z @ S', if ele = None \<and> hd Z = LP_EOF then None else Some ?p)"
    unfolding list_pack_insert_def Let_def whr' not_after [THEN if_not_P]
    by (simp only: bind.bind_lunit prod.case bytes rep elem_backlen_def [symmetric] n diff(1) lt simp_thms if_False mv m2(1) m2(2) first wr nw c'(1) total_bytes_image)
  with c'(2) t' show ?thesis by (intro exI [of _ "of_nat new"] exI [of _ c'] exI [of _ S']) (simp add: new_def)
qed

section \<open>Finding an element\<close>

lemma lp_okE:
  assumes "lp_ok m (xs @ x # ys)"
  obtains A R v where "m = A @ x @ list_pack_encode_backlen (of_nat (length x)) @ R" "length A = lp_off xs" "encodes x v"
proof -
  from assms obtain t c S v where m: "m = le32 t @ le16 c @ lp_body (xs @ x # ys) @ LP_EOF # S" and v: "encodes x v"
    by (auto simp: lp_ok_def)
  show thesis
    by (rule that [of "le32 t @ le16 c @ lp_body xs" "lp_body ys @ LP_EOF # S"])
      (use v in \<open>simp_all add: m lp_entry_def lp_off_def\<close>)
qed

lemma u64_length: "length x < 2 ^ 32 \<Longrightarrow> (ucast (of_nat (length x) :: u32) :: u64) = of_nat (length x)"
  by (simp add: word_unat_eq_iff unat_ucast_up unat_of_nat_id)

lemma size_at: "lp_ok m (xs @ x # ys) \<Longrightarrow> list_pack_current_encode_size_unsafe m (lp_off xs) = Some (of_nat (length x)) \<and> length x < 2 ^ 32"
proof -
  assume "lp_ok m (xs @ x # ys)"
  then obtain A R v where "m = A @ x @ list_pack_encode_backlen (of_nat (length x)) @ R" "length A = lp_off xs" "encodes x v"
    by (rule lp_okE)
  then show ?thesis unfolding encodes_def by metis
qed

lemma value_at:
  assumes "lp_ok m (xs @ x # ys)" "encodes x v" shows "list_pack_get_value m (lp_off xs) = Some v"
proof -
  from assms(1) obtain A R where "m = A @ x @ list_pack_encode_backlen (of_nat (length x)) @ R" "length A = lp_off xs" by (rule lp_okE)
  with assms(2) show ?thesis unfolding encodes_def by metis
qed

lemma skip_at:
  assumes "lp_ok m (xs @ x # ys)" shows "list_pack_skip m (lp_off xs) = Some (lp_off (xs @ [x]))"
proof -
  from size_at [OF assms] have sz: "list_pack_current_encode_size_unsafe m (lp_off xs) = Some (of_nat (length x))" "length x < 2 ^ 32"
    by simp_all
  then show ?thesis by (simp add: list_pack_skip_def u64_length length_lp_entry unat_of_nat_id)
qed

lemma lp_bytes: "lp_ok m bss \<Longrightarrow> list_pack_bytes m = Some (lp_off bss + 1)"
  by (auto simp: lp_ok_def lp_off_def)

lemma lp_off_app: "lp_off (xs @ ys) = lp_off xs + length (lp_body ys)"
  by (simp add: lp_off_def)

lemma lp_off_less: "lp_ok m bss \<Longrightarrow> lp_off bss + 1 < 2 ^ 32"
proof -
  assume "lp_ok m bss"
  then obtain t :: u32 where "unat t = 7 + length (lp_body bss)" by (auto simp: lp_ok_def)
  then show ?thesis using unat_less_32 [of t] by (simp add: lp_off_def)
qed

lemma eof_at: "lp_ok m bss \<Longrightarrow> get_at m (lp_off bss) = Some LP_EOF"
proof -
  assume "lp_ok m bss"
  then obtain t c S where "m = (le32 t @ le16 c @ lp_body bss) @ LP_EOF # S" by (auto simp: lp_ok_def)
  then show ?thesis by (simp add: lp_off_def get_at_def nth_append)
qed

lemma elem_at: "lp_ok m (xs @ x # ys) \<Longrightarrow> get_at m (lp_off xs) = Some (x ! 0) \<and> x ! 0 \<noteq> LP_EOF"
proof -
  assume "lp_ok m (xs @ x # ys)"
  then obtain A R v where "m = A @ x @ list_pack_encode_backlen (of_nat (length x)) @ R" "length A = lp_off xs" "encodes x v"
    by (rule lp_okE)
  then show ?thesis using get_at_mid0 [of x A] unfolding encodes_def by metis
qed

lemma replaced_at:
  assumes "lp_ok m (xs @ x # ys)" shows "replaced_bytes m (lp_off xs) = Some (length (lp_entry x))"
proof -
  have sz: "list_pack_current_encode_size_unsafe m (lp_off xs) = Some (of_nat (length x))" "length x < 2 ^ 32"
    using size_at [OF assms] by simp_all
  have b: "lp_off xs + length (lp_entry x) + length (lp_body ys) + 1 < 2 ^ 32" using lp_off_less [OF assms] by (simp add: lp_off_app)
  have "unat (of_nat (length x) + of_nat (list_pack_encode_backlen_bytes (of_nat (length x))) :: u32) = length (lp_entry x)"
    using b unat_of_nat_id [of "length (lp_entry x)", where 'a = 32] by (simp add: length_lp_entry)
  then show ?thesis using lp_bytes [OF assms] sz
    by (simp add: replaced_bytes_def u64_length assert_integrity_len_def lp_off_app) (simp add: lp_off_def)
qed

section \<open>The edits\<close>

lemma lp_okI:
  "unat t = 7 + length (lp_body bss) \<Longrightarrow> lp_count c (length bss) \<Longrightarrow> lp_entries_ok bss \<Longrightarrow>
     lp_ok (le32 t @ le16 c @ lp_body bss @ LP_EOF # S) bss"
  by (auto simp: lp_ok_def)

definition new_elems :: "lp_elem \<Rightarrow> byte list list" where
  "new_elems ele = (if ele = None then [] else [elem_encoding ele])"

lemma new_elems_body: "inserted_bytes ele = lp_body (new_elems ele)"
  by (simp add: inserted_bytes_def new_elems_def)

lemma hd_body: "lp_entries_ok ys \<Longrightarrow> hd (lp_body ys @ [LP_EOF]) = LP_EOF \<longleftrightarrow> ys = []"
  by (cases ys) (auto simp: lp_entry_def encodes_def hd_append hd_conv_nth)

lemma insert_list:
  assumes m: "lp_ok m (xs @ zs @ ys)" and u: "\<forall>n. n \<le> usable n" and e: "lp_entries_ok (new_elems ele)"
    and whr: "ele \<noteq> None \<and> whr = LIST_PACK_BEFORE \<and> zs = [] \<or> whr = LIST_PACK_REPLACE \<and> length zs = 1"
    and small: "lp_off (xs @ new_elems ele @ ys) + 1 < 2 ^ 32"
  shows "\<exists>m'. list_pack_insert usable junk m ele (lp_off xs) whr = Some (m', if ele = None \<and> ys = [] then None else Some (lp_off xs))
    \<and> lp_ok m' (xs @ new_elems ele @ ys)"
proof -
  let ?Z = "lp_body ys @ [LP_EOF]" and ?n = "length (xs @ zs @ ys)"
  from m obtain t c S where lp: "m = le32 t @ le16 c @ lp_body xs @ lp_body zs @ ?Z @ S"
    "unat t = 6 + length (lp_body xs) + length (lp_body zs) + length ?Z" "lp_count c ?n"
    "lp_entries_ok xs" "lp_entries_ok ys"
    by (auto simp: lp_ok_def)
  have "replaced_bytes m (lp_off xs) = Some (length (lp_body zs))" if "length zs = 1"
    using that m replaced_at by (auto simp: length_Suc_conv)
  then have w: "ele \<noteq> None \<and> whr = LIST_PACK_BEFORE \<and> lp_body zs = []
      \<or> whr = LIST_PACK_REPLACE \<and> replaced_bytes m (6 + length (lp_body xs)) = Some (length (lp_body zs))"
    using whr by (auto simp: lp_off_def)
  have k: "ele = None \<Longrightarrow> 0 < ?n" using whr by auto
  have cnt: "elements_after ele whr ?n = length (xs @ new_elems ele @ ys)"
    using whr by (auto simp: elements_after_def new_elems_def)
  note core = insert_core [where ele = ele and whr = whr and junk = junk and usable = usable and Y = "lp_body zs"
      and Z = ?Z and D = "lp_body xs" and S = S and k = ?n and t = t and c = c and m = m, OF lp(1,2,3) k _ _ w]
  from core u small obtain t' c' S' where r:
    "list_pack_insert usable junk m ele (6 + length (lp_body xs)) whr =
       Some (le32 t' @ le16 c' @ lp_body xs @ inserted_bytes ele @ ?Z @ S',
         if ele = None \<and> hd ?Z = LP_EOF then None else Some (6 + length (lp_body xs)))"
    "unat t' = 6 + length (lp_body xs) + length (inserted_bytes ele) + length ?Z"
    "lp_count c' (elements_after ele whr ?n)"
    by (auto simp: new_elems_body lp_off_def)
  have "lp_ok (le32 t' @ le16 c' @ lp_body (xs @ new_elems ele @ ys) @ LP_EOF # S') (xs @ new_elems ele @ ys)"
    using r(2) r(3) [unfolded cnt] lp(4,5) e by (intro lp_okI) (simp_all add: new_elems_body)
  with r(1) show ?thesis by (simp add: hd_body [OF lp(5)] new_elems_body lp_off_def)
qed

text \<open>Behind an element is in front of the next one.\<close>

lemma insert_after_eq:
  "lp_ok m (xs @ x # ys) \<Longrightarrow> list_pack_insert usable junk m (Some e) (lp_off xs) LIST_PACK_AFTER
     = list_pack_insert usable junk m (Some e) (lp_off (xs @ [x])) LIST_PACK_BEFORE"
  by (simp add: list_pack_insert_def skip_at lp_bytes assert_integrity_def lp_off_app Let_def) (simp add: lp_off_def)

section \<open>Traversal\<close>

lemma decode_at:
  assumes "lp_ok m (xs @ x # ys)"
  shows "list_pack_decode_backlen m (int (lp_off (xs @ [x])) - 1) = Some (of_nat (length x))"
proof -
  from assms obtain A R where m: "m = (A @ x) @ list_pack_encode_backlen (of_nat (length x)) @ R" "length A = lp_off xs"
    by (rule lp_okE) simp
  have "unat (of_nat (length x) :: u64) = length x" using size_at [OF assms] by (simp add: unat_of_nat_id)
  then have "unat (of_nat (length x) :: u64) < 2 ^ 35" using size_at [OF assms] by simp
  from decode_encode_backlen [OF this, of "A @ x" R] show ?thesis
    by (simp add: m lp_entry_def add.assoc)
qed

lemma backlen_of_nat: "length x < 2 ^ 32 \<Longrightarrow> unat (of_nat (length x) :: u32) = length x \<and> unat (of_nat (length x) :: u64) = length x"
  by (simp add: unat_of_nat_id)

lemma validate_at:
  assumes "lp_ok m (xs @ x # ys)"
  shows "list_pack_validate_next m (Some (lp_off xs)) (lp_off (xs @ x # ys) + 1) = Some (Some (Some (lp_off (xs @ [x]))))"
proof -
  note sz = size_at [OF assms]
  from assms obtain v where v: "encodes x v" by (rule lp_okE)
  then have b: "0 < list_pack_current_encode_size_bytes (x ! 0)" "list_pack_current_encode_size_bytes (x ! 0) \<le> length x"
    by (simp_all add: encodes_def)
  have off: "lp_off (xs @ x # ys) = lp_off xs + length (lp_entry x) + length (lp_body ys)" "6 \<le> lp_off xs" "length x \<le> length (lp_entry x)"
    by (simp_all add: lp_off_def lp_entry_def)
  have e: "unat (of_nat (length x) :: u32) + list_pack_encode_backlen_bytes (ucast (of_nat (length x) :: u32)) = length (lp_entry x)"
    using sz by (simp add: u64_length length_lp_entry unat_of_nat_id)
  show ?thesis
    unfolding list_pack_validate_next_def Let_def
    using elem_at [OF assms] sz b off decode_at [OF assms]
    by (simp add: e) (simp add: length_lp_entry u64_length)
qed

lemma validate_end: "lp_ok m bss \<Longrightarrow> list_pack_validate_next m (Some (lp_off bss)) (lp_off bss + 1) = Some (Some None)"
  by (simp add: list_pack_validate_next_def eof_at) (simp add: lp_off_def)

lemma assert_valid_at: "lp_ok m (xs @ x # ys) \<Longrightarrow> list_pack_assert_valid_entry m (lp_off (xs @ x # ys) + 1) (lp_off xs) = Some ()"
  unfolding list_pack_assert_valid_entry_def by (simp only: validate_at bind.bind_lunit option.distinct if_False)

lemma assert_valid_end: "lp_ok m bss \<Longrightarrow> list_pack_assert_valid_entry m (lp_off bss + 1) (lp_off bss) = Some ()"
  unfolding list_pack_assert_valid_entry_def by (simp only: validate_end bind.bind_lunit option.distinct if_False)

lemma assert_valid_app:
  "lp_ok m (xs @ ys) \<Longrightarrow> list_pack_assert_valid_entry m (lp_off (xs @ ys) + 1) (lp_off xs) = Some ()"
  using assert_valid_at [of m xs] assert_valid_end [of m "xs @ ys"] by (cases ys) auto

lemma byte_at:
  "lp_ok m (xs @ ys) \<Longrightarrow> \<exists>b. get_at m (lp_off xs) = Some b \<and> (b = LP_EOF \<longleftrightarrow> ys = [])"
  using elem_at [of m xs] eof_at [of m "xs @ ys"] by (cases ys) auto

lemma first_at: "lp_ok m bss \<Longrightarrow> list_pack_first m = Some (if bss = [] then None else Some (lp_off []))"
  using byte_at [of m "[]" bss] assert_valid_app [of m "[]" bss] lp_bytes [of m bss]
  by (auto simp: list_pack_first_def)

lemma next_at:
  assumes "lp_ok m (xs @ x # ys)"
  shows "list_pack_next m (lp_off xs) = Some (if ys = [] then None else Some (lp_off (xs @ [x])))"
  using byte_at [of m "xs @ [x]" ys] assert_valid_app [of m "xs @ [x]" ys] lp_bytes [of m "xs @ x # ys"] skip_at [OF assms] assms
  by (auto simp: list_pack_next_def)

lemma prev_at:
  assumes "lp_ok m (xs @ x # ys)"
  shows "list_pack_prev m (lp_off (xs @ [x])) = Some (Some (lp_off xs))"
proof -
  have sz: "length x < 2 ^ 32" "0 < length x" using size_at [OF assms] elem_at [OF assms] assms
    by (auto elim: lp_okE simp: encodes_def)
  have b: "lp_off xs + length (lp_entry x) + length (lp_body ys) + 1 < 2 ^ 32" using lp_off_less [OF assms] by (simp add: lp_off_app)
  have "unat (of_nat (length x) + of_nat (list_pack_encode_backlen_bytes (of_nat (length x))) :: u64) = length (lp_entry x)"
    using b unat_of_nat_id [of "length (lp_entry x)", where 'a = 64] by (simp add: length_lp_entry)
  moreover have "lp_off (xs @ [x]) \<noteq> 6" using sz by (simp add: lp_off_def lp_entry_def)
  ultimately show ?thesis
    using decode_at [OF assms] lp_bytes [OF assms] assert_valid_at [OF assms] by (simp add: list_pack_prev_def)
qed

lemma last_at: "lp_ok m bss \<Longrightarrow> list_pack_last m = Some (if bss = [] then None else Some (lp_off (butlast bss)))"
  using prev_at [of m "butlast bss" "last bss" "[]"]
  by (cases "bss = []") (simp_all add: list_pack_last_def lp_bytes list_pack_prev_def)

lemma count_at:
  "lp_ok m (xs @ ys) \<Longrightarrow> list_pack_count m (if ys = [] then None else Some (lp_off xs)) cnt = Some (cnt + of_nat (length ys))"
proof (induction ys arbitrary: xs cnt)
  case Nil
  show ?case by (subst list_pack_count.simps) simp
next
  case (Cons y ys)
  from Cons.IH [of "xs @ [y]"] Cons.prems next_at [of m xs y ys] show ?case
    by (subst list_pack_count.simps) (simp add: algebra_simps)
qed

lemma entry_nonempty: "encodes x v \<Longrightarrow> 0 < length (lp_entry x)"
  by (simp add: lp_entry_def encodes_def)

lemma length_body_ge: "lp_entries_ok bss \<Longrightarrow> length bss \<le> length (lp_body bss)"
proof (induction bss)
  case (Cons x bss)
  then have "length bss \<le> length (lp_body bss)" "0 < length (lp_entry x)" using entry_nonempty by auto
  then show ?case unfolding lp_body_simps length_append list.size by linarith
qed simp

lemma count_small: "lp_ok m bss \<Longrightarrow> length bss < 2 ^ 32"
  using lp_off_less [of m bss] length_body_ge [of bss] by (auto simp: lp_ok_def lp_off_def)

lemma length_at:
  assumes "lp_ok m bss"
  shows "\<exists>m'. list_pack_length m = Some (m', of_nat (length bss)) \<and> lp_ok m' bss
    \<and> list_pack_get_num_elements m' = Some (if length bss < 65535 then of_nat (length bss) else 0xFFFF)"
proof -
  from assms obtain t c S where lp: "m = le32 t @ le16 c @ lp_body bss @ LP_EOF # S" "unat t = 7 + length (lp_body bss)"
    "lp_count c (length bss)" "lp_entries_ok bss" by (auto simp: lp_ok_def)
  show ?thesis
  proof (cases "c = 0xFFFF")
    case False
    with lp(3) have "c = of_nat (length bss)" "length bss < 65535" by (auto simp: lp_count_def word_unat_eq_iff unat_of_nat_id)
    with False assms lp(1) lp_count_le [OF lp(3)] show ?thesis by (simp add: list_pack_length_def)
  next
    case True
    let ?n = "of_nat (length bss) :: u32"
    have u: "unat ?n = length bss" using count_small [OF assms] by (simp add: unat_of_nat_id)
    have "list_pack_count m (if bss = [] then None else Some (lp_off [])) 0 = Some ?n"
      using count_at [of m "[]" bss 0] assms by simp
    then have "list_pack_length m = Some (if ?n < 0xFFFF then le32 t @ le16 ?n @ lp_body bss @ LP_EOF # S else m, ?n)"
      using True first_at [OF assms] lp(1) by (simp add: list_pack_length_def)
    moreover have "lp_ok (le32 t @ le16 ?n @ lp_body bss @ LP_EOF # S) bss" if "?n < 0xFFFF"
      using lp that u by (intro lp_okI) (auto simp: lp_count_def word_less_nat_alt)
    moreover have "?n < 0xFFFF \<longleftrightarrow> length bss < 65535" using u by (simp add: word_less_nat_alt)
    ultimately show ?thesis using assms lp(1) True by auto
  qed
qed

section \<open>The operations at the ends\<close>

lemma append_at:
  assumes "lp_ok m bss" "\<forall>n. n \<le> usable n" "encodes (elem_encoding (Some e)) v" "lp_off (bss @ [elem_encoding (Some e)]) + 1 < 2 ^ 32"
  shows "\<exists>m'. list_pack_insert usable junk m (Some e) (lp_off bss) LIST_PACK_BEFORE = Some (m', Some (lp_off bss))
    \<and> lp_ok m' (bss @ [elem_encoding (Some e)])"
  using insert_list [of m bss "[]" "[]" usable "Some e" LIST_PACK_BEFORE junk] assms by (auto simp: new_elems_def)

lemma elem_encoding_simps [simp]:
  "elem_encoding (Some (Inl s)) = list_pack_encode_get_type s" "elem_encoding (Some (Inr bs)) = bs"
  by (simp_all add: elem_encoding_def)

lemma append_string_at:
  assumes "lp_ok m bss" "\<forall>n. n \<le> usable n" "length s + 5 < 2 ^ 32" "lp_off (bss @ [list_pack_encode_get_type s]) + 1 < 2 ^ 32"
  shows "\<exists>m'. list_pack_append_string usable junk m s = Some m' \<and> lp_ok m' (bss @ [list_pack_encode_get_type s])"
  using append_at [OF assms(1,2), of "Inl s" "stored_value s" junk] get_type_encodes [OF assms(3)] assms(4)
  by (auto simp: list_pack_append_string_def lp_bytes [OF assms(1)])

lemma append_integer_at:
  assumes "lp_ok m bss" "\<forall>n. n \<le> usable n" "in_int64 v" "lp_off (bss @ [list_pack_encode_integer_get_type v]) + 1 < 2 ^ 32"
  shows "\<exists>m'. list_pack_append_integer usable junk m v = Some m' \<and> lp_ok m' (bss @ [list_pack_encode_integer_get_type v])"
  using append_at [OF assms(1,2), of "Inr (list_pack_encode_integer_get_type v)" "LInt v" junk] int_encodes [OF assms(3)] assms(4)
  by (auto simp: list_pack_append_integer_def list_pack_insert_integer_def lp_bytes [OF assms(1)])

lemma prepend_at:
  assumes "lp_ok m (b # bss)" "\<forall>n. n \<le> usable n" "encodes (elem_encoding (Some e)) v" "lp_off (elem_encoding (Some e) # b # bss) + 1 < 2 ^ 32"
  shows "\<exists>m'. list_pack_insert usable junk m (Some e) 6 LIST_PACK_BEFORE = Some (m', Some 6)
    \<and> lp_ok m' (elem_encoding (Some e) # b # bss)"
  using insert_list [of m "[]" "[]" "b # bss" usable "Some e" LIST_PACK_BEFORE junk] assms by (auto simp: new_elems_def)

lemma prepend_string_at:
  assumes "lp_ok m bss" "\<forall>n. n \<le> usable n" "length s + 5 < 2 ^ 32" "lp_off (list_pack_encode_get_type s # bss) + 1 < 2 ^ 32"
  shows "\<exists>m'. list_pack_prepend_string usable junk m s = Some m' \<and> lp_ok m' (list_pack_encode_get_type s # bss)"
proof (cases bss)
  case Nil
  then show ?thesis using append_string_at [of m "[]" usable s junk] assms by (simp add: list_pack_prepend_string_def first_at)
next
  case (Cons b bs)
  then show ?thesis
    using prepend_at [of m b bs usable "Inl s" "stored_value s" junk] get_type_encodes [OF assms(3)] assms first_at [OF assms(1)]
    by (auto simp: list_pack_prepend_string_def)
qed

lemma prepend_integer_at:
  assumes "lp_ok m bss" "\<forall>n. n \<le> usable n" "in_int64 v" "lp_off (list_pack_encode_integer_get_type v # bss) + 1 < 2 ^ 32"
  shows "\<exists>m'. list_pack_prepend_integer usable junk m v = Some m' \<and> lp_ok m' (list_pack_encode_integer_get_type v # bss)"
proof (cases bss)
  case Nil
  then show ?thesis using append_integer_at [of m "[]" usable v junk] assms by (simp add: list_pack_prepend_integer_def first_at)
next
  case (Cons b bs)
  then show ?thesis
    using prepend_at [of m b bs usable "Inr (list_pack_encode_integer_get_type v)" "LInt v" junk] int_encodes [OF assms(3)] assms first_at [OF assms(1)]
    by (auto simp: list_pack_prepend_integer_def list_pack_insert_integer_def)
qed

lemma new_at:
  assumes u: "\<forall>n. n \<le> usable n"
  shows "\<exists>m. list_pack_new usable junk capacity = Some m \<and> lp_ok m [] \<and> capacity \<le> length m"
proof -
  define n where "n = usable (if capacity > LP_HDR_SIZE + 1 then capacity else LP_HDR_SIZE + 1)"
  define blk where "blk = map junk [0..<n]"
  have "(if capacity > LP_HDR_SIZE + 1 then capacity else LP_HDR_SIZE + 1) \<le> n" using u unfolding n_def by blast
  then have l: "7 \<le> length blk" "capacity \<le> length blk" by (simp_all add: blk_def split: if_splits)
  have blk: "\<exists>a b c d e f g S. blk = [a, b, c, d, e, f, g] @ S"
  proof -
    have seven: "\<exists>a b c d e f g. xs = [a, b, c, d, e, f, g]" if "length xs = 7" for xs :: "byte list"
      using that by (auto simp: numeral_eq_Suc length_Suc_conv)
    have "length (take 7 blk) = 7" using l(1) by simp
    from seven [OF this] obtain a b c d e f g where "take 7 blk = [a, b, c, d, e, f, g]" by blast
    then show ?thesis by (metis append_take_drop_id)
  qed
  then obtain a b c d e f g S where b: "blk = [a, b, c, d, e, f, g] @ S" by blast
  have "list_pack_new usable junk capacity = Some (le32 7 @ le16 0 @ lp_body [] @ LP_EOF # S)"
    unfolding list_pack_new_def Let_def n_def [symmetric] blk_def [symmetric]
    by (simp add: b list_pack_set_total_bytes_def list_pack_set_num_elements_def mem_write_def put_at_def le32_def le16_def)
  moreover have "lp_ok (le32 7 @ le16 0 @ lp_body [] @ LP_EOF # S) []" by (rule lp_okI) (simp_all add: lp_count_def)
  moreover have "capacity \<le> length (le32 7 @ le16 0 @ lp_body [] @ LP_EOF # S)" using l(2) by (simp add: b)
  ultimately show ?thesis by blast
qed

lemma shrink_at:
  assumes "lp_ok m bss" "\<forall>n. n \<le> usable n"
  shows "\<exists>m'. list_pack_shrink_to_fit usable junk m = Some m' \<and> lp_ok m' bss"
proof -
  from assms obtain t c S where lp: "m = le32 t @ le16 c @ lp_body bss @ LP_EOF # S" "unat t = 7 + length (lp_body bss)"
    "lp_count c (length bss)" "lp_entries_ok bss" by (auto simp: lp_ok_def)
  have "take (unat t) (realloc junk m (usable (unat t))) = take (unat t) m"
    using assms(2) lp(1,2) by (intro take_realloc) auto
  also have "\<dots> = le32 t @ le16 c @ lp_body bss @ [LP_EOF]" using lp(1,2) by simp
  finally have "realloc junk m (usable (unat t)) = le32 t @ le16 c @ lp_body bss @ LP_EOF # drop (unat t) (realloc junk m (usable (unat t)))"
    by (metis append_Cons append_Nil append_assoc append_take_drop_id)
  with lp(2-4) have "lp_ok (realloc junk m (usable (unat t))) bss" by (metis lp_okI)
  then show ?thesis using assms(1) lp(1) by (auto simp: list_pack_shrink_to_fit_def)
qed

lemma range_loop_at:
  "lp_ok m (xs @ ys) \<Longrightarrow> ys \<noteq> [] \<Longrightarrow> remove_range_loop m (lp_off (xs @ ys) + 1) (lp_off xs) d n
     = Some (lp_off (xs @ take n ys), d + min n (length ys))"
proof (induction n arbitrary: xs ys d)
  case (Suc n)
  then obtain y zs where ys: "ys = y # zs" by (cases ys) auto
  have ok: "lp_ok m ((xs @ [y]) @ zs)" using Suc.prems ys by simp
  have sk: "list_pack_skip m (lp_off xs) = Some (lp_off (xs @ [y]))" using skip_at Suc.prems ys by simp
  show ?case
  proof (cases zs)
    case Nil
    then show ?thesis using eof_at [OF ok] sk ys by (simp add: lp_off_app)
  next
    case (Cons z zs')
    then obtain b where b: "get_at m (lp_off (xs @ [y])) = Some b" "b \<noteq> LP_EOF" using elem_at [of m "xs @ [y]" z zs'] ok by auto
    from Suc.IH [OF ok, of "d + 1"] assert_valid_app [OF ok] Cons b sk ys show ?thesis
      by (simp del: lp_off_simps)
  qed
qed simp

lemma count_minus: "lp_count c n \<Longrightarrow> c \<noteq> 0xFFFF \<Longrightarrow> d \<le> n \<Longrightarrow> lp_count (c - of_nat d) (n - d)"
proof -
  assume c: "lp_count c n" "c \<noteq> 0xFFFF" "d \<le> n"
  then have u: "unat c = n" "n < 65535" by (auto simp: lp_count_def)
  have "unat (of_nat d :: u32) = d" using c u by (intro unat_of_nat_id) simp
  then have "unat (c - of_nat d) = n - d" using u c(3) by (simp add: unat_sub_if_size)
  then show ?thesis using u unfolding lp_count_def by linarith
qed

lemma remove_range_at:
  assumes m: "lp_ok m (xs @ ys)" and ys: "ys \<noteq> []" and u: "\<forall>n. n \<le> usable n" and n: "0 < n"
  shows "\<exists>m'. list_pack_remove_range_with_entry usable junk m (lp_off xs) n
      = Some (m', if drop n ys = [] then None else Some (lp_off xs)) \<and> lp_ok m' (xs @ drop n ys)"
proof -
  let ?ts = "take n ys" and ?ds = "drop n ys"
  from m obtain t c S where lp: "m = le32 t @ le16 c @ lp_body (xs @ ys) @ LP_EOF # S" "unat t = 7 + length (lp_body (xs @ ys))"
    "lp_count c (length (xs @ ys))" "lp_entries_ok (xs @ ys)" by (auto simp: lp_ok_def)
  have body: "lp_body ys = lp_body ?ts @ lp_body ?ds" by (metis append_take_drop_id lp_body_simps(3))
  define Z where "Z = lp_body ?ds @ [LP_EOF]"
  let ?P = "le32 t @ le16 c @ lp_body xs"
  have mP: "m = ?P @ lp_body ?ts @ Z @ S" by (simp add: lp(1) body Z_def)
  have P: "length ?P = lp_off xs" by (simp add: lp_off_def)
  define b where "b = lp_off (xs @ ys) + 1"
  have b: "b = lp_off xs + length (lp_body ?ts) + length Z" by (simp add: b_def lp_off_app body Z_def)
  have ot: "lp_off (xs @ ?ts) = lp_off xs + length (lp_body ?ts)" by (simp add: lp_off_app)
  obtain S2 where mv: "mem_move m (lp_off xs) (lp_off (xs @ ?ts)) (b - 1 - lp_off (xs @ ?ts) + 1) = Some (?P @ Z @ S2)"
  proof -
    have len: "b - 1 - lp_off (xs @ ?ts) + 1 = length Z" unfolding b ot by (simp add: Z_def)
    have "take (lp_off xs) m = ?P" "take (length Z) (drop (lp_off (xs @ ?ts)) m) = Z"
      unfolding ot mP P [symmetric] by simp_all
    moreover have "lp_off (xs @ ?ts) + length Z \<le> length m" "lp_off xs + length Z \<le> length m"
      unfolding ot mP P [symmetric] by simp_all
    ultimately show thesis using that unfolding len by (auto simp: mem_move_Some)
  qed
  let ?t = "of_nat (b - (lp_off (xs @ ?ts) - lp_off xs)) :: u32"
  have nb: "b - (lp_off (xs @ ?ts) - lp_off xs) = 7 + length (lp_body (xs @ ?ds))" unfolding b ot by (simp add: Z_def lp_off_def)
  have "unat ?t = 7 + length (lp_body (xs @ ?ds))"
    unfolding nb using lp_off_less [OF m] by (intro unat_of_nat_id) (simp add: lp_off_def body)
  moreover define c' where "c' = (if c \<noteq> 0xFFFF then c - of_nat (min n (length ys)) else c)"
  moreover have "lp_count c' (length (xs @ ?ds))"
  proof -
    have "length (xs @ ys) - min n (length ys) = length (xs @ ?ds)" by simp
    then show ?thesis using count_minus [OF lp(3), of "min n (length ys)"] lp(3) by (auto simp: c'_def lp_count_def)
  qed
  moreover have "lp_entries_ok (xs @ ?ds)" using lp(4) by (auto simp: lp_entries_ok_def dest: in_set_dropD)
  ultimately have ok: "lp_ok (le32 ?t @ le16 c' @ lp_body (xs @ ?ds) @ LP_EOF # S2) (xs @ ?ds)" by (intro lp_okI)
  from shrink_at [OF ok u, of junk] obtain m' where m': "list_pack_shrink_to_fit usable junk
      (le32 ?t @ le16 c' @ lp_body (xs @ ?ds) @ LP_EOF # S2) = Some m'" "lp_ok m' (xs @ ?ds)" by blast
  from byte_at [OF m'(2)] obtain e where e: "get_at m' (lp_off xs) = Some e" "e = LP_EOF \<longleftrightarrow> ?ds = []" by blast
  have cu: "(if c \<noteq> 0xFFFF then list_pack_set_num_elements (le32 ?t @ le16 c @ lp_body xs @ Z @ S2) (c - of_nat (min n (length ys)))
      else Some (le32 ?t @ le16 c @ lp_body xs @ Z @ S2)) = Some (le32 ?t @ le16 c' @ lp_body (xs @ ?ds) @ LP_EOF # S2)"
    by (simp add: c'_def Z_def)
  have lt: "\<not> lp_off (xs @ ?ts) \<ge> b" unfolding b ot by (simp add: Z_def)
  have "list_pack_remove_range_with_entry usable junk m (lp_off xs) n = Some (m', if e = LP_EOF then None else Some (lp_off xs))"
    unfolding list_pack_remove_range_with_entry_def lp_bytes [OF m] b_def [symmetric]
    by (simp only: bind.bind_lunit range_loop_at [OF m ys, folded b_def] prod.case lt n [THEN less_imp_neq, symmetric] if_False mv total_bytes_image
        add_0 append_assoc num_elements_image(1) [OF lp_count_le [OF lp(3)]] cu m'(1) e(1))
  then show ?thesis using m'(2) e(2) by auto
qed

section \<open>The iterators\<close>

definition reads_as :: "byte list list \<Rightarrow> lp_value option list \<Rightarrow> bool" where
  "reads_as bss xs \<longleftrightarrow> list_all2 (\<lambda>bs x. \<exists>v. encodes bs v \<and> x = Some v) bss xs"

definition lp_left :: "lp_where \<Rightarrow> byte list list \<Rightarrow> byte list list \<Rightarrow> byte list list" where
  "lp_left whr pre post = (if whr = LIST_PACK_BEFORE then rev pre else post)"

definition lp_between :: "list_pack_iterator_data \<Rightarrow> lp_value option list \<Rightarrow> bool" where
  "lp_between d xs \<longleftrightarrow>
     lpi_p d = None \<and> (\<exists>bss. lp_ok (lpi_lp d) bss \<and> reads_as (lp_left (lpi_where d) bss bss) xs)
     \<or> (\<exists>pre b post. lp_ok (lpi_lp d) (pre @ b # post) \<and> lpi_p d = Some (lp_off pre)
          \<and> reads_as (lp_left (lpi_where d) pre post) xs)"

definition lp_at_elem :: "list_pack_iterator_data \<Rightarrow> lp_value option list \<Rightarrow> bool" where
  "lp_at_elem d xs \<longleftrightarrow> (\<exists>pre b post. lp_ok (lpi_lp d) (pre @ b # post) \<and> lpi_p d = Some (lp_off pre)
     \<and> reads_as (b # lp_left (lpi_where d) pre post) xs)"

lemma reads_as_simps [simp]: "reads_as [] xs \<longleftrightarrow> xs = []" "reads_as (b # bss) (x # xs) \<longleftrightarrow> (\<exists>v. encodes b v \<and> x = Some v) \<and> reads_as bss xs"
  "reads_as bss [] \<longleftrightarrow> bss = []"
  by (auto simp: reads_as_def)

text \<open>The steps of \<open>has_next\<close>: to the first element of the direction, and to the next one.\<close>

lemma has_next_start:
  assumes "lp_ok (lpi_lp d) bss" "lpi_p d = None" "reads_as (lp_left (lpi_where d) bss bss) xs"
  shows "\<exists>d'. list_pack_iterator_has_next d = Some (d', xs \<noteq> []) \<and> (xs \<noteq> [] \<longrightarrow> lp_at_elem d' xs)"
proof (cases "lpi_where d = LIST_PACK_BEFORE")
  case True
  show ?thesis
  proof (cases bss rule: rev_cases)
    case (snoc pre b)
    with assms True have "lp_at_elem (d\<lparr>lpi_p := Some (lp_off pre)\<rparr>) xs"
      unfolding lp_at_elem_def by (intro exI [of _ pre] exI [of _ b] exI [of _ "[]"]) (simp add: lp_left_def)
    then show ?thesis using assms True snoc last_at [OF assms(1)]
      by (auto simp: list_pack_iterator_has_next_def lp_left_def)
  qed (use assms True last_at [OF assms(1)] in \<open>simp add: list_pack_iterator_has_next_def lp_left_def\<close>)
next
  case False
  show ?thesis
  proof (cases bss)
    case (Cons b post)
    with assms False have "lp_at_elem (d\<lparr>lpi_p := Some (lp_off [])\<rparr>) xs"
      unfolding lp_at_elem_def by (intro exI [of _ "[]"] exI [of _ b] exI [of _ post]) (simp add: lp_left_def)
    then show ?thesis using assms False Cons first_at [OF assms(1)]
      by (auto simp: list_pack_iterator_has_next_def lp_left_def)
  qed (use assms False first_at [OF assms(1)] in \<open>simp add: list_pack_iterator_has_next_def lp_left_def\<close>)
qed

lemma has_next_later:
  assumes "lp_ok (lpi_lp d) (pre @ b # post)" "lpi_p d = Some (lp_off pre)" "reads_as (lp_left (lpi_where d) pre post) xs"
  shows "\<exists>d'. list_pack_iterator_has_next d = Some (d', xs \<noteq> []) \<and> (xs \<noteq> [] \<longrightarrow> lp_at_elem d' xs)"
proof (cases "lpi_where d = LIST_PACK_BEFORE")
  case True
  show ?thesis
  proof (cases pre rule: rev_cases)
    case Nil
    then show ?thesis using assms True by (simp add: list_pack_iterator_has_next_def lp_left_def list_pack_prev_def)
  next
    case (snoc pre' x)
    with assms True have "lp_at_elem (d\<lparr>lpi_p := Some (lp_off pre')\<rparr>) xs"
      unfolding lp_at_elem_def by (intro exI [of _ pre'] exI [of _ x] exI [of _ "b # post"]) (simp add: lp_left_def)
    then show ?thesis using assms True snoc prev_at [of "lpi_lp d" pre' x "b # post"]
      by (auto simp: list_pack_iterator_has_next_def lp_left_def)
  qed
next
  case False
  show ?thesis
  proof (cases post)
    case (Cons x post')
    with assms False have "lp_at_elem (d\<lparr>lpi_p := Some (lp_off (pre @ [b]))\<rparr>) xs"
      unfolding lp_at_elem_def by (intro exI [of _ "pre @ [b]"] exI [of _ x] exI [of _ post']) (simp add: lp_left_def)
    then show ?thesis using assms False Cons next_at [OF assms(1)]
      by (auto simp: list_pack_iterator_has_next_def lp_left_def)
  qed (use assms False next_at [OF assms(1)] in \<open>simp add: list_pack_iterator_has_next_def lp_left_def\<close>)
qed

interpretation lp_iter: iterator_steps list_pack_iterator_func lp_between lp_at_elem
proof unfold_locales
  show "\<exists>d'. it_has_next list_pack_iterator_func d = Some (d', xs \<noteq> []) \<and> (xs \<noteq> [] \<longrightarrow> lp_at_elem d' xs)"
    if "lp_between d xs" for d xs
    using that has_next_start has_next_later unfolding lp_between_def list_pack_iterator_func_def latte_iterator_func.simps by blast
  show "\<exists>d'. it_next list_pack_iterator_func d = Some (d', x) \<and> lp_between d' xs" if "lp_at_elem d (x # xs)" for d x xs
    using that value_at unfolding lp_at_elem_def lp_between_def
    by (fastforce simp: list_pack_iterator_func_def list_pack_iterator_next_def)
qed

lemma iterate_lp:
  "lp_ok m bss \<Longrightarrow> reads_as (lp_left whr bss bss) xs \<Longrightarrow> iterate_all (list_pack_get_iterator m whr) = Some xs"
  unfolding list_pack_get_iterator_def by (rule lp_iter.iterate_all_steps) (auto simp: lp_between_def)

lemma reads_as_map: "list_all2 encodes bss vs \<Longrightarrow> reads_as bss (map Some vs)"
  by (simp add: reads_as_def list_all2_conv_all_nth)

lemma reads_as_rev: "list_all2 encodes bss vs \<Longrightarrow> reads_as (rev bss) (map Some (rev vs))"
  by (rule reads_as_map) simp

section \<open>Properties\<close>

lemma insert_too_big:
  assumes "lp_ok m (xs @ ys)" "2 ^ 32 \<le> lp_off (xs @ elem_encoding (Some e) # ys) + 1"
  shows "list_pack_insert usable junk m (Some e) (lp_off xs) LIST_PACK_BEFORE = None"
  using assms(2)
  by (simp add: list_pack_insert_def lp_bytes [OF assms(1)] length_encode_backlen lp_off_def length_lp_entry)

lemma lp_off_comm: "lp_off (b # bss) = lp_off (bss @ [b])"
  by (simp add: lp_off_def)

lemma append_too_big:
  assumes "lp_ok m bss"
  shows "2 ^ 32 \<le> lp_off (bss @ [list_pack_encode_get_type s]) + 1 \<Longrightarrow> list_pack_append_string usable junk m s = None"
    "2 ^ 32 \<le> lp_off (bss @ [list_pack_encode_integer_get_type v]) + 1 \<Longrightarrow> list_pack_append_integer usable junk m v = None"
  using insert_too_big [of m bss "[]" "Inl s" usable junk] insert_too_big [of m bss "[]" "Inr (list_pack_encode_integer_get_type v)" usable junk] assms
  by (simp_all add: list_pack_append_string_def list_pack_append_integer_def list_pack_insert_integer_def lp_bytes [OF assms])

lemma prepend_too_big:
  assumes "lp_ok m bss"
  shows "2 ^ 32 \<le> lp_off (bss @ [list_pack_encode_get_type s]) + 1 \<Longrightarrow> list_pack_prepend_string usable junk m s = None"
    "2 ^ 32 \<le> lp_off (bss @ [list_pack_encode_integer_get_type v]) + 1 \<Longrightarrow> list_pack_prepend_integer usable junk m v = None"
proof -
  have ins: "list_pack_insert usable junk m (Some e) (lp_off []) LIST_PACK_BEFORE = None"
    if "2 ^ 32 \<le> lp_off (bss @ [elem_encoding (Some e)]) + 1" for e
    using insert_too_big [of m "[]" bss e usable junk] assms that lp_off_comm [of "elem_encoding (Some e)" bss] by (simp del: lp_off_simps)
  note f = first_at [OF assms]
  show "list_pack_prepend_string usable junk m s = None" if "2 ^ 32 \<le> lp_off (bss @ [list_pack_encode_get_type s]) + 1"
  proof (cases "bss = []")
    case True
    then show ?thesis using f append_too_big(1) [OF assms that] by (simp add: list_pack_prepend_string_def)
  next
    case False
    then show ?thesis using f ins [of "Inl s"] that by (simp add: list_pack_prepend_string_def del: lp_off_simps)
  qed
  show "list_pack_prepend_integer usable junk m v = None" if "2 ^ 32 \<le> lp_off (bss @ [list_pack_encode_integer_get_type v]) + 1"
  proof (cases "bss = []")
    case True
    then show ?thesis using f append_too_big(2) [OF assms that] by (simp add: list_pack_prepend_integer_def)
  next
    case False
    then show ?thesis using f ins [of "Inr (list_pack_encode_integer_get_type v)"] that
      by (simp add: list_pack_prepend_integer_def list_pack_insert_integer_def del: lp_off_simps)
  qed
qed

text \<open>C6. On a listpack that holds the encodings \<open>xs @ x # ys\<close>, with the position of \<open>x\<close>: inserting a
  string in front of \<open>x\<close>, behind it, replacing it, removing it and removing a range that starts with it
  leave a well-formed listpack with exactly the edited sequence, and the position returned is that of
  the element that now stands there, or NULL at the end. The allocator may give more than was asked
  for, and the new listpack must fit in 32 bits.\<close>

theorem list_pack_edits_refine_list:
  assumes "lp_ok m (xs @ x # ys)" "\<forall>n. n \<le> usable n" "length s + 5 < 2 ^ 32"
    "lp_off (xs @ x # list_pack_encode_get_type s # ys) + 1 < 2 ^ 32"
  shows "(\<exists>m'. list_pack_insert_string usable junk m s (lp_off xs) LIST_PACK_BEFORE = Some (m', Some (lp_off xs))
            \<and> lp_ok m' (xs @ list_pack_encode_get_type s # x # ys))
    \<and> (\<exists>m'. list_pack_insert_string usable junk m s (lp_off xs) LIST_PACK_AFTER = Some (m', Some (lp_off (xs @ [x])))
            \<and> lp_ok m' (xs @ x # list_pack_encode_get_type s # ys))
    \<and> (\<exists>m'. list_pack_replace_string usable junk m (lp_off xs) s = Some m' \<and> lp_ok m' (xs @ list_pack_encode_get_type s # ys))
    \<and> (\<exists>m'. list_pack_remove usable junk m (lp_off xs) = Some (m', if ys = [] then None else Some (lp_off xs)) \<and> lp_ok m' (xs @ ys))
    \<and> (0 < n \<longrightarrow> (\<exists>m'. list_pack_remove_range_with_entry usable junk m (lp_off xs) n
          = Some (m', if drop n (x # ys) = [] then None else Some (lp_off xs)) \<and> lp_ok m' (xs @ drop n (x # ys))))"
proof (intro conjI impI)
  note m = assms(1) and u = assms(2)
  have e: "lp_entries_ok (new_elems (Some (Inl s)))" using get_type_encodes [OF assms(3)] by (auto simp: new_elems_def)
  have le: "lp_off (xs @ list_pack_encode_get_type s # x # ys) + 1 < 2 ^ 32" "lp_off (xs @ list_pack_encode_get_type s # ys) + 1 < 2 ^ 32"
      "lp_off (xs @ ys) + 1 < 2 ^ 32"
    using assms(4) by (simp_all add: lp_off_app)
  show "\<exists>m'. list_pack_insert_string usable junk m s (lp_off xs) LIST_PACK_BEFORE = Some (m', Some (lp_off xs))
            \<and> lp_ok m' (xs @ list_pack_encode_get_type s # x # ys)"
    using insert_list [of m xs "[]" "x # ys" usable "Some (Inl s)" LIST_PACK_BEFORE junk] m u e le
    by (auto simp: list_pack_insert_string_def new_elems_def)
  show "\<exists>m'. list_pack_insert_string usable junk m s (lp_off xs) LIST_PACK_AFTER = Some (m', Some (lp_off (xs @ [x])))
            \<and> lp_ok m' (xs @ x # list_pack_encode_get_type s # ys)"
    using insert_list [of m "xs @ [x]" "[]" ys usable "Some (Inl s)" LIST_PACK_BEFORE junk] m u e assms(4)
    unfolding list_pack_insert_string_def insert_after_eq [OF m] by (simp add: new_elems_def)
  show "\<exists>m'. list_pack_replace_string usable junk m (lp_off xs) s = Some m' \<and> lp_ok m' (xs @ list_pack_encode_get_type s # ys)"
    using insert_list [of m xs "[x]" ys usable "Some (Inl s)" LIST_PACK_REPLACE junk] m u e le
    by (auto simp: list_pack_replace_string_def new_elems_def)
  show "\<exists>m'. list_pack_remove usable junk m (lp_off xs) = Some (m', if ys = [] then None else Some (lp_off xs)) \<and> lp_ok m' (xs @ ys)"
    using insert_list [of m xs "[x]" ys usable None LIST_PACK_REPLACE junk] m u le
    by (auto simp: list_pack_remove_def new_elems_def)
  show "\<exists>m'. list_pack_remove_range_with_entry usable junk m (lp_off xs) n
          = Some (m', if drop n (x # ys) = [] then None else Some (lp_off xs)) \<and> lp_ok m' (xs @ drop n (x # ys))" if "0 < n"
    using remove_range_at [OF m _ u that] by simp
qed

text \<open>A listpack with the single element 5.\<close>

lemma lp_five: "lp_ok [9, 0, 0, 0, 1, 0, 5, 1, 255] ([] @ [5] # [])"
proof -
  have "encodes [5] (LInt 5)" using int_encodes_7 [of 5] by simp
  moreover have "lp_body [[5]] = [5, 1]" by (simp add: lp_entry_def list_pack_encode_backlen_def)
  ultimately show ?thesis using lp_okI [of 9 "[[5]]" 1 "[]"] by (auto simp: le32_def le16_def lp_count_def)
qed

lemma lp_five_unknown: "lp_ok [9, 0, 0, 0, 255, 255, 5, 1, 255] ([] @ [5] # [])"
proof -
  have "encodes [5] (LInt 5)" using int_encodes_7 [of 5] by simp
  moreover have "lp_body [[5]] = [5, 1]" by (simp add: lp_entry_def list_pack_encode_backlen_def)
  moreover have "le16 0xFFFF = [255, 255]" by code_simp
  ultimately show ?thesis using lp_okI [of 9 "[[5]]" "0xFFFF" "[]"] by (auto simp: le32_def lp_count_def)
qed

theorem list_pack_edits_refine_list_witness:
  "(\<exists>m'. list_pack_insert_string id (\<lambda>_. 0) [9, 0, 0, 0, 1, 0, 5, 1, 255] [97] (lp_off []) LIST_PACK_BEFORE = Some (m', Some (lp_off []))
     \<and> lp_ok m' ([] @ list_pack_encode_get_type [97] # [5] # []))
   \<and> (\<exists>m'. list_pack_remove id (\<lambda>_. 0) [9, 0, 0, 0, 1, 0, 5, 1, 255] (lp_off []) = Some (m', None) \<and> lp_ok m' ([] @ []))"
proof -
  have "length (list_pack_encode_get_type [97]) = 2"
    by (simp add: list_pack_encode_get_type_def list_pack_string_to_int64_def list_pack_encode_string_def)
  then have "lp_off ([] @ [5] # list_pack_encode_get_type [97] # []) + 1 < 2 ^ 32"
    by (simp add: lp_off_def lp_entry_def list_pack_encode_backlen_def)
  from list_pack_edits_refine_list [OF lp_five _ _ this, of id "\<lambda>_. 0" 1] show ?thesis by simp
qed

text \<open>C9. \<open>list_pack_new\<close> makes an empty listpack, with room for the capacity asked for, however small that is. Appending a
  string or an integer puts its encoding behind the sequence and prepending in front of it, whatever the listpack holds,
  the empty one included; and a listpack that would need more than 32 bits for its size is refused, at both ends: the
  assertion in \<open>_list_pack_insert\<close> fails.\<close>

theorem list_pack_ends_refine_list:
  assumes "lp_ok m bss" "\<forall>n. n \<le> usable n" "length s + 5 < 2 ^ 32" "in_int64 v"
  shows "(\<exists>m0. list_pack_new usable junk capacity = Some m0 \<and> lp_ok m0 [] \<and> capacity \<le> length m0)
    \<and> (if lp_off (bss @ [list_pack_encode_get_type s]) + 1 < 2 ^ 32
       then (\<exists>m'. list_pack_append_string usable junk m s = Some m' \<and> lp_ok m' (bss @ [list_pack_encode_get_type s]))
          \<and> (\<exists>m'. list_pack_prepend_string usable junk m s = Some m' \<and> lp_ok m' (list_pack_encode_get_type s # bss))
       else list_pack_append_string usable junk m s = None \<and> list_pack_prepend_string usable junk m s = None)
    \<and> (if lp_off (bss @ [list_pack_encode_integer_get_type v]) + 1 < 2 ^ 32
       then (\<exists>m'. list_pack_append_integer usable junk m v = Some m' \<and> lp_ok m' (bss @ [list_pack_encode_integer_get_type v]))
          \<and> (\<exists>m'. list_pack_prepend_integer usable junk m v = Some m' \<and> lp_ok m' (list_pack_encode_integer_get_type v # bss))
       else list_pack_append_integer usable junk m v = None \<and> list_pack_prepend_integer usable junk m v = None)"
  using new_at [OF assms(2)] append_string_at [OF assms(1-3)] prepend_string_at [OF assms(1-3), unfolded lp_off_comm]
    append_integer_at [OF assms(1,2,4)] prepend_integer_at [OF assms(1,2,4), unfolded lp_off_comm]
    append_too_big [OF assms(1)] prepend_too_big [OF assms(1)]
  by (auto simp del: lp_off_simps)

theorem list_pack_ends_refine_list_witness:
  "(\<exists>m0. list_pack_new id (\<lambda>_. 0) 0 = Some m0 \<and> lp_ok m0 [])
   \<and> (\<exists>m'. list_pack_append_integer id (\<lambda>_. 0) [9, 0, 0, 0, 1, 0, 5, 1, 255] 7 = Some m' \<and> lp_ok m' (([] @ [5] # []) @ [list_pack_encode_integer_get_type 7]))"
proof -
  have "lp_off (([] @ [5] # []) @ [list_pack_encode_integer_get_type 7]) + 1 < 2 ^ 32"
    by (simp add: lp_off_def lp_entry_def list_pack_encode_integer_get_type_def list_pack_encode_backlen_def)
  moreover have "in_int64 7" "\<forall>n :: nat. n \<le> id n" "length ([] :: byte list) + 5 < 2 ^ 32" by (simp_all add: in_int64_def)
  note list_pack_ends_refine_list [OF lp_five this(2,3,1), of "\<lambda>_. 0" 0]
  ultimately show ?thesis by (simp only: if_True) blast
qed

text \<open>C10. \<open>list_pack_length\<close> returns the number of elements, whatever the counter of the header says: when it is 65535 the
  elements are counted, the count ends, and afterwards the counter of the header is the number of elements if that is
  less than 65535, and still 65535 otherwise. The elements are untouched.\<close>

theorem list_pack_length_exact:
  assumes "lp_ok m bss"
  shows "\<exists>m' k. list_pack_length m = Some (m', k) \<and> unat k = length bss \<and> lp_ok m' bss
    \<and> list_pack_get_num_elements m' = Some (if length bss < 65535 then of_nat (length bss) else 0xFFFF)"
proof -
  from length_at [OF assms] obtain m' where "list_pack_length m = Some (m', of_nat (length bss))" "lp_ok m' bss"
    "list_pack_get_num_elements m' = Some (if length bss < 65535 then of_nat (length bss) else 0xFFFF)" by blast
  moreover have "unat (of_nat (length bss) :: u32) = length bss" using count_small [OF assms] by (simp add: unat_of_nat_id)
  ultimately show ?thesis by blast
qed

theorem list_pack_length_exact_witness:
  "\<exists>m' k. list_pack_length [9, 0, 0, 0, 255, 255, 5, 1, 255] = Some (m', k) \<and> unat k = length ([] @ [5 :: byte] # []) \<and> lp_ok m' ([] @ [5] # [])
    \<and> list_pack_get_num_elements m' = Some (if length ([] @ [5 :: byte] # []) < 65535 then of_nat (length ([] @ [5 :: byte] # [])) else 0xFFFF)"
  by (rule list_pack_length_exact [OF lp_five_unknown])

text \<open>C7. The loop over the iterator of a listpack ends and returns the values of its elements, in order
  for \<open>LIST_PACK_AFTER\<close> and in reverse order, by the lengths written behind the entries, for
  \<open>LIST_PACK_BEFORE\<close>.\<close>

theorem list_pack_iterates_both_ways:
  assumes "lp_ok m bss" "list_all2 encodes bss vs"
  shows "iterate_all (list_pack_get_iterator m LIST_PACK_AFTER) = Some (map Some vs)
    \<and> iterate_all (list_pack_get_iterator m LIST_PACK_BEFORE) = Some (map Some (rev vs))"
  using iterate_lp [OF assms(1)] reads_as_map [OF assms(2)] reads_as_rev [OF assms(2)] by (simp add: lp_left_def)

theorem list_pack_iterates_both_ways_witness:
  "iterate_all (list_pack_get_iterator [9, 0, 0, 0, 1, 0, 5, 1, 255] LIST_PACK_AFTER) = Some (map Some [LInt 5])"
proof -
  have "list_all2 encodes ([] @ [5] # []) [LInt 5]" using int_encodes_7 [of 5] by simp
  from list_pack_iterates_both_ways [OF lp_five this] show ?thesis by blast
qed

end
