(* ===== verification/Odb.thy ===== *)
theory Odb
  imports Sds
begin

text \<open>
  \<open>src/odb/odb.c\<close>: serialisation of integers, strings and binary blocks over an object of input and
  output functions (\<open>oio\<close>), and the backend in memory. A backend is the pair of its \<open>read\<close> and \<open>write\<close>
  functions on its state, as the function pointers of \<open>struct _oio\<close> are; the backend on a \<open>FILE\<close> is
  stdio and is not modelled. The locale \<open>byte_stream\<close> states what the serialisation needs of a backend.
\<close>

section \<open>The interface\<close>

text \<open>\<open>read o len\<close> stores the bytes it returns in the caller's buffer; their number is the result of the
  C function, 0 on failure.\<close>

record 's oio_func =
  oio_read :: "'s \<Rightarrow> nat \<Rightarrow> ('s \<times> byte list) option"
  oio_write :: "'s \<Rightarrow> byte list \<Rightarrow> ('s \<times> nat) option"

section \<open>The buffer backend\<close>

record oio_buffer =
  ob_ptr :: sds
  ob_pos :: int
  processed_bytes :: u64

definition oio_buffer_read :: "oio_buffer \<Rightarrow> nat \<Rightarrow> (oio_buffer \<times> byte list) option" where
  "oio_buffer_read o1 len =
     (let avail = nat ((int (sds_len (ob_ptr o1)) - ob_pos o1) mod 2 ^ 64) in
      if avail < len then Some (o1, [])
      else if ob_pos o1 < 0 \<or> \<not> in_int64 (ob_pos o1 + int len) then None
      else do {
        d \<leftarrow> mem_read (s_buf (ob_ptr o1)) (nat (ob_pos o1)) len;
        Some (o1\<lparr>ob_pos := ob_pos o1 + int len, processed_bytes := processed_bytes o1 + of_nat len\<rparr>, d)
      })"

definition oio_buffer_write ::
  "(nat \<Rightarrow> nat) \<Rightarrow> (nat \<Rightarrow> byte) \<Rightarrow> oio_buffer \<Rightarrow> byte list \<Rightarrow> (oio_buffer \<times> nat) option" where
  "oio_buffer_write usable junk o1 d =
     do {
       p \<leftarrow> sds_cat_len usable junk (ob_ptr o1) d (length d);
       if \<not> in_int64 (ob_pos o1 + int (length d)) then None
       else Some (o1\<lparr>ob_ptr := p, ob_pos := ob_pos o1 + int (length d),
                   processed_bytes := processed_bytes o1 + of_nat (length d)\<rparr>, length d)
     }"

definition oio_buffer_func :: "(nat \<Rightarrow> nat) \<Rightarrow> (nat \<Rightarrow> byte) \<Rightarrow> oio_buffer oio_func" where
  "oio_buffer_func usable junk = \<lparr>oio_read = oio_buffer_read, oio_write = oio_buffer_write usable junk\<rparr>"

definition oio_buffer_tell :: "oio_buffer \<Rightarrow> int" where
  "oio_buffer_tell o1 = ob_pos o1"

definition odb_oio_create_buffer :: "(nat \<Rightarrow> nat) \<Rightarrow> (nat \<Rightarrow> byte) \<Rightarrow> oio_buffer option" where
  "odb_oio_create_buffer usable junk =
     do { p \<leftarrow> sds_empty usable junk; Some \<lparr>ob_ptr = p, ob_pos = 0, processed_bytes = 0\<rparr> }"

definition odb_oio_buffer_rewind :: "oio_buffer \<Rightarrow> oio_buffer" where
  "odb_oio_buffer_rewind o1 = o1\<lparr>ob_pos := 0\<rparr>"

section \<open>Integers\<close>

definition put_u32_le :: "u32 \<Rightarrow> byte list" where
  "put_u32_le v = [ucast v, ucast (drop_bit 8 v), ucast (drop_bit 16 v), ucast (drop_bit 24 v)]"

definition get_u32_le :: "byte list \<Rightarrow> u32 option" where
  "get_u32_le p =
     do {
       b0 \<leftarrow> get_at p 0; b1 \<leftarrow> get_at p 1; b2 \<leftarrow> get_at p 2; b3 \<leftarrow> get_at p 3;
       Some (ucast b0 OR push_bit 8 (ucast b1) OR push_bit 16 (ucast b2) OR push_bit 24 (ucast b3))
     }"

text \<open>Results: \<open>None\<close> inside is the failure the code reports, \<open>Some\<close> the value it stores.\<close>

definition odb_write_len32_le :: "'s oio_func \<Rightarrow> 's \<Rightarrow> u32 \<Rightarrow> ('s \<times> bool) option" where
  "odb_write_len32_le f o1 len = do { (o1, n) \<leftarrow> oio_write f o1 (put_u32_le len); Some (o1, n = 4) }"

definition odb_read_len32_le :: "'s oio_func \<Rightarrow> 's \<Rightarrow> ('s \<times> u32 option) option" where
  "odb_read_len32_le f o1 =
     do {
       (o1, buf) \<leftarrow> oio_read f o1 4;
       if length buf \<noteq> 4 then Some (o1, None) else do { v \<leftarrow> get_u32_le buf; Some (o1, Some v) }
     }"

definition odb_write_u8 :: "'s oio_func \<Rightarrow> 's \<Rightarrow> byte \<Rightarrow> ('s \<times> bool) option" where
  "odb_write_u8 f o1 v = do { (o1, n) \<leftarrow> oio_write f o1 [v]; Some (o1, n = 1) }"

definition odb_write_u16_le :: "'s oio_func \<Rightarrow> 's \<Rightarrow> u16 \<Rightarrow> ('s \<times> bool) option" where
  "odb_write_u16_le f o1 v = do { (o1, n) \<leftarrow> oio_write f o1 [ucast v, ucast (drop_bit 8 v)]; Some (o1, n = 2) }"

definition odb_write_u32_le :: "'s oio_func \<Rightarrow> 's \<Rightarrow> u32 \<Rightarrow> ('s \<times> bool) option" where
  "odb_write_u32_le f o1 v = do { (o1, n) \<leftarrow> oio_write f o1 (put_u32_le v); Some (o1, n = 4) }"

definition odb_write_u64_le :: "'s oio_func \<Rightarrow> 's \<Rightarrow> u64 \<Rightarrow> ('s \<times> bool) option" where
  "odb_write_u64_le f o1 v =
     do {
       (o1, n) \<leftarrow> oio_write f o1
         [ucast v, ucast (drop_bit 8 v), ucast (drop_bit 16 v), ucast (drop_bit 24 v),
          ucast (drop_bit 32 v), ucast (drop_bit 40 v), ucast (drop_bit 48 v), ucast (drop_bit 56 v)];
       Some (o1, n = 8)
     }"

definition odb_read_u8 :: "'s oio_func \<Rightarrow> 's \<Rightarrow> ('s \<times> byte option) option" where
  "odb_read_u8 f o1 =
     do {
       (o1, buf) \<leftarrow> oio_read f o1 1;
       if length buf \<noteq> 1 then Some (o1, None) else do { v \<leftarrow> get_at buf 0; Some (o1, Some v) }
     }"

definition odb_read_u16_le :: "'s oio_func \<Rightarrow> 's \<Rightarrow> ('s \<times> u16 option) option" where
  "odb_read_u16_le f o1 =
     do {
       (o1, buf) \<leftarrow> oio_read f o1 2;
       if length buf \<noteq> 2 then Some (o1, None)
       else do { b0 \<leftarrow> get_at buf 0; b1 \<leftarrow> get_at buf 1; Some (o1, Some (ucast b0 OR push_bit 8 (ucast b1))) }
     }"

definition odb_read_u32_le :: "'s oio_func \<Rightarrow> 's \<Rightarrow> ('s \<times> u32 option) option" where
  "odb_read_u32_le f o1 =
     do {
       (o1, buf) \<leftarrow> oio_read f o1 4;
       if length buf \<noteq> 4 then Some (o1, None) else do { v \<leftarrow> get_u32_le buf; Some (o1, Some v) }
     }"

definition odb_read_u64_le :: "'s oio_func \<Rightarrow> 's \<Rightarrow> ('s \<times> u64 option) option" where
  "odb_read_u64_le f o1 =
     do {
       (o1, buf) \<leftarrow> oio_read f o1 8;
       if length buf \<noteq> 8 then Some (o1, None)
       else do {
         b0 \<leftarrow> get_at buf 0; b1 \<leftarrow> get_at buf 1; b2 \<leftarrow> get_at buf 2; b3 \<leftarrow> get_at buf 3;
         b4 \<leftarrow> get_at buf 4; b5 \<leftarrow> get_at buf 5; b6 \<leftarrow> get_at buf 6; b7 \<leftarrow> get_at buf 7;
         Some (o1, Some (ucast b0 OR push_bit 8 (ucast b1) OR push_bit 16 (ucast b2) OR push_bit 24 (ucast b3)
           OR push_bit 32 (ucast b4) OR push_bit 40 (ucast b5) OR push_bit 48 (ucast b6) OR push_bit 56 (ucast b7)))
       }
     }"

section \<open>Strings and blocks\<close>

definition odb_write_string :: "'s oio_func \<Rightarrow> 's \<Rightarrow> byte list \<Rightarrow> nat \<Rightarrow> ('s \<times> bool) option" where
  "odb_write_string f o1 s len =
     (if len > 0xFFFFFFFF then Some (o1, False)
      else do {
        (o1, ok) \<leftarrow> odb_write_len32_le f o1 (of_nat len);
        if \<not> ok then Some (o1, False)
        else if len = 0 then Some (o1, True)
        else do { d \<leftarrow> mem_read s 0 len; (o1, n) \<leftarrow> oio_write f o1 d; Some (o1, n = len) }
      })"

definition odb_read_string ::
  "(nat \<Rightarrow> nat) \<Rightarrow> (nat \<Rightarrow> byte) \<Rightarrow> 's oio_func \<Rightarrow> 's \<Rightarrow> ('s \<times> sds option) option" where
  "odb_read_string usable junk f o1 =
     do {
       (o1, len) \<leftarrow> odb_read_len32_le f o1;
       case len of
         None \<Rightarrow> Some (o1, None)
       | Some len \<Rightarrow> do {
           s \<leftarrow> sds_new_len usable junk Init_NOINIT (unat len);
           if len = 0 then Some (o1, Some s)
           else do {
             (o1, d) \<leftarrow> oio_read f o1 (unat len);
             s \<leftarrow> write_buf s 0 d;
             Some (o1, if length d \<noteq> unat len then None else Some s)
           }
         }
     }"

definition odb_write_binary :: "'s oio_func \<Rightarrow> 's \<Rightarrow> byte list \<Rightarrow> nat \<Rightarrow> ('s \<times> bool) option" where
  "odb_write_binary f o1 buf len =
     (if len > 0xFFFFFFFF then Some (o1, False)
      else do {
        (o1, ok) \<leftarrow> odb_write_len32_le f o1 (of_nat len);
        if \<not> ok then Some (o1, False)
        else if len = 0 then Some (o1, True)
        else do { d \<leftarrow> mem_read buf 0 len; (o1, n) \<leftarrow> oio_write f o1 d; Some (o1, n = len) }
      })"

text \<open>\<open>odb_read_binary\<close>: \<open>None\<close> inside is \<open>-1\<close>; the block read is \<open>*out\<close> with \<open>*out_len\<close> bytes.\<close>

definition odb_read_binary :: "'s oio_func \<Rightarrow> 's \<Rightarrow> ('s \<times> byte list option) option" where
  "odb_read_binary f o1 =
     do {
       (o1, len) \<leftarrow> odb_read_len32_le f o1;
       case len of
         None \<Rightarrow> Some (o1, None)
       | Some len \<Rightarrow>
           if len = 0 then Some (o1, Some [])
           else do {
             (o1, d) \<leftarrow> oio_read f o1 (unat len);
             Some (o1, if length d \<noteq> unat len then None else Some d)
           }
     }"

section \<open>What a backend promises\<close>

locale byte_stream =
  fixes f :: "'s oio_func"
    and written :: "'s \<Rightarrow> byte list \<Rightarrow> bool"
    and unread :: "'s \<Rightarrow> byte list \<Rightarrow> bool"
    and capacity :: nat
  assumes write_law: "written s bs \<Longrightarrow> length bs + length d < capacity \<Longrightarrow>
      \<exists>s'. oio_write f s d = Some (s', length d) \<and> written s' (bs @ d)"
    and read_law: "unread s (d @ r) \<Longrightarrow> \<exists>s'. oio_read f s (length d) = Some (s', d) \<and> unread s' r"
    and short_read_law: "unread s r \<Longrightarrow> length r < n \<Longrightarrow> oio_read f s n = Some (s, [])"

section \<open>Sequences of items\<close>

text \<open>What a client writes and reads: a sequence of numbers, strings and blocks.\<close>

datatype odb_item = U8 byte | U16 u16 | U32 u32 | U64 u64 | Str "byte list" | Bin "byte list"
datatype odb_kind = K8 | K16 | K32 | K64 | KStr | KBin

fun kind_of :: "odb_item \<Rightarrow> odb_kind" where
  "kind_of (U8 _) = K8" | "kind_of (U16 _) = K16" | "kind_of (U32 _) = K32" | "kind_of (U64 _) = K64"
| "kind_of (Str _) = KStr" | "kind_of (Bin _) = KBin"

fun odb_put :: "'s oio_func \<Rightarrow> 's \<Rightarrow> odb_item \<Rightarrow> ('s \<times> bool) option" where
  "odb_put f o1 (U8 v) = odb_write_u8 f o1 v"
| "odb_put f o1 (U16 v) = odb_write_u16_le f o1 v"
| "odb_put f o1 (U32 v) = odb_write_u32_le f o1 v"
| "odb_put f o1 (U64 v) = odb_write_u64_le f o1 v"
| "odb_put f o1 (Str bs) = odb_write_string f o1 bs (length bs)"
| "odb_put f o1 (Bin bs) = odb_write_binary f o1 bs (length bs)"

fun odb_get :: "(nat \<Rightarrow> nat) \<Rightarrow> (nat \<Rightarrow> byte) \<Rightarrow> 's oio_func \<Rightarrow> 's \<Rightarrow> odb_kind \<Rightarrow> ('s \<times> odb_item option) option" where
  "odb_get usable junk f o1 K8 = map_option (apsnd (map_option U8)) (odb_read_u8 f o1)"
| "odb_get usable junk f o1 K16 = map_option (apsnd (map_option U16)) (odb_read_u16_le f o1)"
| "odb_get usable junk f o1 K32 = map_option (apsnd (map_option U32)) (odb_read_u32_le f o1)"
| "odb_get usable junk f o1 K64 = map_option (apsnd (map_option U64)) (odb_read_u64_le f o1)"
| "odb_get usable junk f o1 KStr = map_option (apsnd (map_option (\<lambda>s. Str (sds_val s)))) (odb_read_string usable junk f o1)"
| "odb_get usable junk f o1 KBin = map_option (apsnd (map_option Bin)) (odb_read_binary f o1)"

fun odb_put_all :: "'s oio_func \<Rightarrow> 's \<Rightarrow> odb_item list \<Rightarrow> ('s \<times> bool) option" where
  "odb_put_all f o1 [] = Some (o1, True)"
| "odb_put_all f o1 (i # is) =
     do { (o1, ok) \<leftarrow> odb_put f o1 i; if ok then odb_put_all f o1 is else Some (o1, False) }"

fun odb_get_all ::
  "(nat \<Rightarrow> nat) \<Rightarrow> (nat \<Rightarrow> byte) \<Rightarrow> 's oio_func \<Rightarrow> 's \<Rightarrow> odb_kind list \<Rightarrow> ('s \<times> odb_item list option) option" where
  "odb_get_all usable junk f o1 [] = Some (o1, Some [])"
| "odb_get_all usable junk f o1 (k # ks) =
     do {
       (o1, i) \<leftarrow> odb_get usable junk f o1 k;
       case i of
         None \<Rightarrow> Some (o1, None)
       | Some i \<Rightarrow> map_option (apsnd (map_option ((#) i))) (odb_get_all usable junk f o1 ks)
     }"

text \<open>The bytes of an item, and the items that can be written.\<close>

fun item_bytes :: "odb_item \<Rightarrow> byte list" where
  "item_bytes (U8 v) = [v]"
| "item_bytes (U16 v) = [ucast v, ucast (drop_bit 8 v)]"
| "item_bytes (U32 v) = put_u32_le v"
| "item_bytes (U64 v) = [ucast v, ucast (drop_bit 8 v), ucast (drop_bit 16 v), ucast (drop_bit 24 v),
     ucast (drop_bit 32 v), ucast (drop_bit 40 v), ucast (drop_bit 48 v), ucast (drop_bit 56 v)]"
| "item_bytes (Str bs) = put_u32_le (of_nat (length bs)) @ bs"
| "item_bytes (Bin bs) = put_u32_le (of_nat (length bs)) @ bs"

fun item_fits :: "odb_item \<Rightarrow> bool" where
  "item_fits (Str bs) \<longleftrightarrow> length bs < 2 ^ 32"
| "item_fits (Bin bs) \<longleftrightarrow> length bs < 2 ^ 32"
| "item_fits _ \<longleftrightarrow> True"

lemma length_put_u32 [simp]: "length (put_u32_le v) = 4"
  by (simp add: put_u32_le_def)

lemma get_put_u32 [simp]: "get_u32_le (put_u32_le v) = Some v"
  using word32_of_bytes [of v] by (simp add: get_u32_le_def put_u32_le_def get_at_def)

text \<open>A string without initial content is one whose content is what the memory held.\<close>

lemma sds_new_noinit:
  assumes "usable_ok usable" "n + 18 < 2 ^ 64"
  shows "\<exists>s. sds_new_len usable junk Init_NOINIT n = Some s \<and> sds_ok s \<and> s_len s = n"
proof -
  define t where "t = (if sdsReqType n = SDS_TYPE_5 \<and> n = 0 then SDS_TYPE_8 else sdsReqType n)"
  define h us where "h = sdsHdrSize t" and "us = usable (h + n + 1)"
  have us: "h + n + 1 \<le> us" using assms(1) by (simp add: us_def usable_okD)
  have h: "1 \<le> h" "h \<le> 17" using hdr_size [of t] req_type [of n] assms(2) by (auto simp: h_def t_def)
  define s0 where "s0 = \<lparr>s_type = t, s_len = n mod 2 ^ len_bits t,
     s_alloc = min (us - h - 1) (sdsTypeMaxSize t) mod 2 ^ len_bits t, s_buf = map junk [0..<us - h]\<rparr>"
  have "sds_new_len usable junk Init_NOINIT n = write_buf s0 n [0]"
    using assms(2) h by (simp add: sds_new_len_def sds_new_len_raw_def Let_def s0_def us_def flip: t_def h_def)
  moreover have "sds_new_len usable junk (Init_bytes (map junk [0..<n])) n =
      (do { s \<leftarrow> (if n \<noteq> 0 then do { d \<leftarrow> mem_read (map junk [0..<n]) 0 n; write_buf s0 0 d } else Some s0); write_buf s n [0] })"
    using assms(2) h by (simp add: sds_new_len_def sds_new_len_raw_def Let_def s0_def us_def flip: t_def h_def)
  moreover have "write_buf s0 0 (map junk [0..<n]) = Some s0"
  proof -
    have "take n (map junk [0..<us - h]) = map junk [0..<n]" using us by (simp add: take_map)
    then have "map junk [0..<n] @ drop n (map junk [0..<us - h]) = map junk [0..<us - h]" by (metis append_take_drop_id)
    then show ?thesis using us by (simp add: write_buf_Some s0_def)
  qed
  ultimately have "sds_new_len usable junk Init_NOINIT n = sds_new_len usable junk (Init_bytes (map junk [0..<n])) n"
    by (simp add: mem_read_def)
  with sds_new_len_ok [OF assms(1), of n "map junk [0..<n]" junk] assms(2) show ?thesis
    using length_sds_val by fastforce
qed

lemma write_whole:
  assumes "sds_ok s" "length d = s_len s"
  shows "\<exists>s'. write_buf s 0 d = Some s' \<and> sds_ok s' \<and> sds_val s' = d"
  using assms sds_okD(3) [OF assms(1)]
  by (auto simp: write_buf_Some sds_ok_def sds_val_def nth_append)

context byte_stream
begin

lemma put_item:
  assumes w: "written s bs" and c: "length bs + length (item_bytes i) < capacity" and i: "item_fits i"
  shows "\<exists>s'. odb_put f s i = Some (s', True) \<and> written s' (bs @ item_bytes i)"
proof -
  have len: "\<exists>s'. odb_write_string f s d (length d) = Some (s', True) \<and> odb_write_binary f s d (length d) = Some (s', True)
      \<and> written s' (bs @ put_u32_le (of_nat (length d)) @ d)"
    if d: "length d < 2 ^ 32" "length bs + 4 + length d < capacity" for d
  proof -
    from write_law [OF w, of "put_u32_le (of_nat (length d))"] d obtain s1 where
      s1: "oio_write f s (put_u32_le (of_nat (length d))) = Some (s1, 4)" "written s1 (bs @ put_u32_le (of_nat (length d)))" by auto
    from write_law [OF s1(2), of d] d obtain s2 where
      s2: "oio_write f s1 d = Some (s2, length d)" "written s2 ((bs @ put_u32_le (of_nat (length d))) @ d)" by auto
    show ?thesis
      using d s1 s2 by (cases "d = []")
        (auto simp: odb_write_string_def odb_write_binary_def odb_write_len32_le_def mem_read_def)
  qed
  have plain: "\<exists>s'. oio_write f s d = Some (s', length d) \<and> written s' (bs @ d)" if "length bs + length d < capacity" for d
    using write_law [OF w that] .
  show ?thesis
    using len plain [of "item_bytes i"] c i
    by (cases i) (fastforce simp: odb_write_u8_def odb_write_u16_le_def odb_write_u32_le_def odb_write_u64_le_def)+
qed

lemma put_items:
  "written s bs \<Longrightarrow> length bs + length (concat (map item_bytes is)) < capacity \<Longrightarrow> \<forall>i \<in> set is. item_fits i \<Longrightarrow>
     \<exists>s'. odb_put_all f s is = Some (s', True) \<and> written s' (bs @ concat (map item_bytes is))"
proof (induction "is" arbitrary: s bs)
  case (Cons i "is")
  from put_item [OF Cons.prems(1), of i] Cons.prems obtain s1 where
    "odb_put f s i = Some (s1, True)" "written s1 (bs @ item_bytes i)" by auto
  with Cons.IH [of s1 "bs @ item_bytes i"] Cons.prems show ?case by auto
qed auto

lemma read_len:
  assumes "unread s (put_u32_le v @ r)"
  shows "\<exists>s'. odb_read_len32_le f s = Some (s', Some v) \<and> unread s' r"
  using read_law [OF assms] by (auto simp: odb_read_len32_le_def)

lemma get_string:
  assumes u: "usable_ok usable" and d: "length d < 2 ^ 32" and r: "unread s (put_u32_le (of_nat (length d)) @ d @ r)"
  shows "\<exists>s' v. odb_read_string usable junk f s = Some (s', Some v) \<and> sds_ok v \<and> sds_val v = d \<and> unread s' r"
    "\<exists>s'. odb_read_binary f s = Some (s', Some d) \<and> unread s' r"
proof -
  from read_len [OF r] obtain s1 where
    s1: "odb_read_len32_le f s = Some (s1, Some (of_nat (length d)))" "unread s1 (d @ r)" by blast
  from read_law [OF s1(2)] obtain s2 where s2: "oio_read f s1 (length d) = Some (s2, d)" "unread s2 r" by blast
  have n: "unat (of_nat (length d) :: u32) = length d" "(of_nat (length d) :: u32) = 0 \<longleftrightarrow> d = []"
    using d by (simp_all add: unat_of_nat_id word_unat_eq_iff)
  show "\<exists>s'. odb_read_binary f s = Some (s', Some d) \<and> unread s' r"
    using s1 s2 n by (cases "d = []") (simp_all add: odb_read_binary_def)
  from sds_new_noinit [OF u, of "length d" junk] d obtain v where
    v: "sds_new_len usable junk Init_NOINIT (length d) = Some v" "sds_ok v" "s_len v = length d" by auto
  from write_whole [OF v(2), of d] v(3) obtain v' where v': "write_buf v 0 d = Some v'" "sds_ok v'" "sds_val v' = d" by auto
  have "sds_val v = []" if "d = []" using that v(3) by (simp add: sds_val_def)
  then show "\<exists>s' v. odb_read_string usable junk f s = Some (s', Some v) \<and> sds_ok v \<and> sds_val v = d \<and> unread s' r"
    using s1 s2 n v(1,2) v' by (cases "d = []") (simp_all add: odb_read_string_def)
qed

lemma get_item:
  assumes u: "usable_ok usable" and r: "unread s (item_bytes i @ r)" and i: "item_fits i"
  shows "\<exists>s'. odb_get usable junk f s (kind_of i) = Some (s', Some i) \<and> unread s' r"
proof (cases i)
  case (U8 v)
  then show ?thesis using read_law [OF r] by (auto simp: odb_read_u8_def get_at_def)
next
  case (U16 v)
  then have "length (item_bytes i) = 2" by simp
  with read_law [OF r] obtain s' where "oio_read f s 2 = Some (s', item_bytes i)" "unread s' r" by auto
  then show ?thesis using U16 word16_of_bytes [of v] by (simp add: odb_read_u16_le_def get_at_def)
next
  case (U32 v)
  then show ?thesis using read_law [OF r] by (auto simp: odb_read_u32_le_def)
next
  case (U64 v)
  then have "length (item_bytes i) = 8" by simp
  with read_law [OF r] obtain s' where "oio_read f s 8 = Some (s', item_bytes i)" "unread s' r" by auto
  then show ?thesis using U64 word64_of_bytes [of v] by (simp add: odb_read_u64_le_def get_at_def)
next
  case (Str d)
  then show ?thesis using get_string(1) [OF u, of d s r junk] r i by auto
next
  case (Bin d)
  then show ?thesis using get_string(2) [OF u, of d s r] r i by auto
qed

lemma get_items:
  "usable_ok usable \<Longrightarrow> unread s (concat (map item_bytes is) @ r) \<Longrightarrow> \<forall>i \<in> set is. item_fits i \<Longrightarrow>
     \<exists>s'. odb_get_all usable junk f s (map kind_of is) = Some (s', Some is) \<and> unread s' r"
proof (induction "is" arbitrary: s)
  case (Cons i "is")
  from get_item [OF Cons.prems(1), of s i "concat (map item_bytes is) @ r" junk] Cons.prems obtain s1 where
    "odb_get usable junk f s (kind_of i) = Some (s1, Some i)" "unread s1 (concat (map item_bytes is) @ r)" by auto
  with Cons.IH [OF Cons.prems(1), of s1] Cons.prems show ?case by auto
qed auto

text \<open>Reading a number past the end fails and leaves the stream as it was.\<close>

lemma short_number:
  "unread s r \<Longrightarrow> length r < 8 \<Longrightarrow> odb_read_u64_le f s = Some (s, None)"
  "unread s r \<Longrightarrow> length r < 4 \<Longrightarrow> odb_read_u32_le f s = Some (s, None)"
  "unread s r \<Longrightarrow> length r < 4 \<Longrightarrow> odb_read_string usable junk f s = Some (s, None)"
  "unread s r \<Longrightarrow> length r < 4 \<Longrightarrow> odb_read_binary f s = Some (s, None)"
  using short_read_law
  by (simp_all add: odb_read_u64_le_def odb_read_u32_le_def odb_read_string_def odb_read_binary_def odb_read_len32_le_def)

text \<open>A length that promises more than there is.\<close>

lemma short_block:
  assumes u: "usable_ok usable" and r: "unread s (put_u32_le n @ r)" and n: "length r < unat n"
  shows "\<exists>s'. odb_read_string usable junk f s = Some (s', None)" "\<exists>s'. odb_read_binary f s = Some (s', None)"
proof -
  from read_len [OF r] obtain s1 where s1: "odb_read_len32_le f s = Some (s1, Some n)" "unread s1 r" by blast
  note sh = short_read_law [OF s1(2) n]
  have nz: "n \<noteq> 0" using n by auto
  have lim: "unat n + 18 < 2 ^ 64" using unat_less_32 [of n] by simp
  from sds_new_noinit [OF u lim, of junk] obtain v where "sds_new_len usable junk Init_NOINIT (unat n) = Some v" by blast
  with s1 sh nz n show "\<exists>s'. odb_read_string usable junk f s = Some (s', None)"
    by (simp add: odb_read_string_def write_buf_def mem_write_def)
  show "\<exists>s'. odb_read_binary f s = Some (s', None)" using s1 sh nz n by (simp add: odb_read_binary_def)
qed

end

section \<open>The buffer is such a backend\<close>

definition buf_written :: "oio_buffer \<Rightarrow> byte list \<Rightarrow> bool" where
  "buf_written o1 bs \<longleftrightarrow> sds_ok (ob_ptr o1) \<and> sds_val (ob_ptr o1) = bs \<and> ob_pos o1 = int (length bs)"

definition buf_unread :: "oio_buffer \<Rightarrow> byte list \<Rightarrow> bool" where
  "buf_unread o1 r \<longleftrightarrow> sds_ok (ob_ptr o1) \<and> length (sds_val (ob_ptr o1)) < 2 ^ 63
     \<and> 0 \<le> ob_pos o1 \<and> ob_pos o1 \<le> int (length (sds_val (ob_ptr o1))) \<and> r = drop (nat (ob_pos o1)) (sds_val (ob_ptr o1))"

lemma buf_write:
  assumes u: "usable_ok usable" and w: "buf_written o1 bs" and n: "length bs + length d < 2 ^ 63"
  shows "\<exists>o2. oio_buffer_write usable junk o1 d = Some (o2, length d) \<and> buf_written o2 (bs @ d)"
proof -
  have ok: "sds_ok (ob_ptr o1)" "sds_val (ob_ptr o1) = bs" "s_len (ob_ptr o1) = length bs"
    using w length_sds_val [of "ob_ptr o1"] by (auto simp: buf_written_def)
  from sds_cat_len_ok [OF u ok(1), of "length d" d junk] n ok obtain p where
    "sds_cat_len usable junk (ob_ptr o1) d (length d) = Some p" "sds_ok p" "sds_val p = bs @ d" by auto
  then show ?thesis using w n by (simp add: oio_buffer_write_def buf_written_def in_int64_def)
qed

lemma buf_avail:
  assumes "buf_unread o1 r"
  shows "nat ((int (sds_len (ob_ptr o1)) - ob_pos o1) mod 2 ^ 64) = length r"
proof -
  have l: "sds_len (ob_ptr o1) = length (sds_val (ob_ptr o1))"
    using assms sds_okD(5) length_sds_val by (auto simp: buf_unread_def)
  have "(int (sds_len (ob_ptr o1)) - ob_pos o1) mod 2 ^ 64 = int (sds_len (ob_ptr o1)) - ob_pos o1"
    using assms unfolding l buf_unread_def by (intro mod_pos_pos_trivial) auto
  then show ?thesis using assms unfolding l buf_unread_def by (auto simp: nat_diff_distrib)
qed

lemma buf_read:
  assumes r: "buf_unread o1 (d @ r)"
  shows "\<exists>o2. oio_buffer_read o1 (length d) = Some (o2, d) \<and> buf_unread o2 r"
proof -
  let ?p = "nat (ob_pos o1)" and ?v = "sds_val (ob_ptr o1)"
  have v: "?v = take (s_len (ob_ptr o1)) (s_buf (ob_ptr o1))" "length ?v = s_len (ob_ptr o1)"
    using r length_sds_val by (auto simp: buf_unread_def sds_val_def)
  have dr: "drop ?p ?v = d @ r" "?p \<le> length ?v" "0 \<le> ob_pos o1" "length ?v < 2 ^ 63" using r by (auto simp: buf_unread_def)
  have "length ?v - ?p = length d + length r" using dr(1) by (metis length_append length_drop)
  then have lv: "?p + length d + length r = length ?v" using dr(2) by linarith
  have sl: "s_len (ob_ptr o1) < length (s_buf (ob_ptr o1))" using r sds_okD(3) by (auto simp: buf_unread_def)
  have "take (length d) (drop ?p (s_buf (ob_ptr o1))) = take (length d) (drop ?p ?v)"
    using lv v(2) unfolding v(1) by (simp add: drop_take min_def)
  then have rd: "mem_read (s_buf (ob_ptr o1)) ?p (length d) = Some d"
    using lv v(2) sl unfolding mem_read_def dr(1) by simp
  have i: "\<not> (ob_pos o1 < 0 \<or> \<not> in_int64 (ob_pos o1 + int (length d)))" using lv dr by (simp add: in_int64_def)
  have av: "\<not> nat ((int (sds_len (ob_ptr o1)) - ob_pos o1) mod 2 ^ 64) < length d" using buf_avail [OF r] by simp
  let ?o2 = "o1\<lparr>ob_pos := ob_pos o1 + int (length d), processed_bytes := processed_bytes o1 + of_nat (length d)\<rparr>"
  have "oio_buffer_read o1 (length d) = Some (?o2, d)"
    unfolding oio_buffer_read_def Let_def if_not_P [OF av] if_not_P [OF i] rd by simp
  moreover have "buf_unread ?o2 r"
  proof -
    have n: "nat (ob_pos o1 + int (length d)) = length d + ?p" using dr(3) by (simp add: nat_add_distrib)
    have "drop (length d + ?p) ?v = r" using arg_cong [OF dr(1), of "drop (length d)"] by simp
    moreover have "ob_pos o1 + int (length d) \<le> int (length ?v)" using lv dr(3) by linarith
    ultimately show ?thesis using r dr(3,4) unfolding buf_unread_def by (simp add: n)
  qed
  ultimately show ?thesis by blast
qed

lemma buf_short: "buf_unread o1 r \<Longrightarrow> length r < n \<Longrightarrow> oio_buffer_read o1 n = Some (o1, [])"
  using buf_avail [of o1 r] by (simp add: oio_buffer_read_def)

text \<open>The interpretation takes the smallest allocator; the lemma behind it holds for every one.\<close>

definition buffer_of :: "(nat \<Rightarrow> nat) \<Rightarrow> (nat \<Rightarrow> byte) \<Rightarrow> oio_buffer oio_func" where
  "buffer_of extra junk = oio_buffer_func (\<lambda>n. n + extra n) junk"

interpretation buffer: byte_stream "buffer_of extra junk" buf_written buf_unread "2 ^ 63" for extra junk
proof unfold_locales
  have u: "usable_ok (\<lambda>n. n + extra n)" by (simp add: usable_ok_def)
  show "\<exists>s'. oio_write (buffer_of extra junk) s d = Some (s', length d) \<and> buf_written s' (bs @ d)"
    if "buf_written s bs" "length bs + length d < 2 ^ 63" for s bs d
    using buf_write [OF u that] by (simp add: buffer_of_def oio_buffer_func_def)
qed (simp_all add: buffer_of_def oio_buffer_func_def buf_read buf_short)

lemma usable_extra: "usable_ok usable \<Longrightarrow> oio_buffer_func usable junk = buffer_of (\<lambda>n. usable n - n) junk"
  by (simp add: buffer_of_def usable_ok_def)

lemma new_buffer:
  assumes "usable_ok usable"
  shows "\<exists>o1. odb_oio_create_buffer usable junk = Some o1 \<and> buf_written o1 []"
  using sds_new_len_ok [OF assms, of 0 "[0]" junk] by (auto simp: odb_oio_create_buffer_def sds_empty_def buf_written_def)

lemma rewind_unread: "buf_written o1 bs \<Longrightarrow> length bs < 2 ^ 63 \<Longrightarrow> buf_unread (odb_oio_buffer_rewind o1) bs"
  by (simp add: buf_written_def buf_unread_def odb_oio_buffer_rewind_def)

section \<open>Properties\<close>

text \<open>C11. A sequence of numbers of all widths, strings and blocks written to a new buffer is what is read
  from it after a rewind, item by item, for every allocator; the buffer holds exactly their little-endian
  encodings, every call reports success, and at the end there is nothing left: reading a further
  number, string or block reports failure. A block whose length promises more bytes than follow is
  refused too.\<close>

theorem odb_roundtrip:
  assumes "usable_ok usable" "\<forall>i \<in> set is. item_fits i" "length (concat (map item_bytes is)) < 2 ^ 63"
    "buf_unread ob (put_u32_le n @ r)" "length r < unat n"
  shows "(\<exists>o0 o1 o2. odb_oio_create_buffer usable junk = Some o0
      \<and> odb_put_all (oio_buffer_func usable junk) o0 is = Some (o1, True)
      \<and> sds_val (ob_ptr o1) = concat (map item_bytes is)
      \<and> odb_get_all usable junk (oio_buffer_func usable junk) (odb_oio_buffer_rewind o1) (map kind_of is) = Some (o2, Some is)
      \<and> odb_read_u64_le (oio_buffer_func usable junk) o2 = Some (o2, None)
      \<and> odb_read_string usable junk (oio_buffer_func usable junk) o2 = Some (o2, None))
    \<and> (\<exists>o3. odb_read_string usable junk (oio_buffer_func usable junk) ob = Some (o3, None))
    \<and> (\<exists>o3. odb_read_binary (oio_buffer_func usable junk) ob = Some (o3, None))"
proof -
  let ?f = "buffer_of (\<lambda>n. usable n - n) junk"
  from new_buffer [OF assms(1)] obtain o0 where o0: "odb_oio_create_buffer usable junk = Some o0" "buf_written o0 []" by blast
  from buffer.put_items [OF o0(2), of "is" "\<lambda>n. usable n - n" junk] assms obtain o1 where
    o1: "odb_put_all ?f o0 is = Some (o1, True)" "buf_written o1 (concat (map item_bytes is))" by auto
  from rewind_unread [OF o1(2) assms(3)] have "buf_unread (odb_oio_buffer_rewind o1) (concat (map item_bytes is) @ [])" by simp
  from buffer.get_items [OF assms(1) this assms(2)] obtain o2 where
    o2: "odb_get_all usable junk ?f (odb_oio_buffer_rewind o1) (map kind_of is) = Some (o2, Some is)" "buf_unread o2 []" by blast
  have "odb_read_u64_le ?f o2 = Some (o2, None)" "odb_read_string usable junk ?f o2 = Some (o2, None)"
    using buffer.short_number [OF o2(2)] by simp_all
  with o0 o1 o2 buffer.short_block [OF assms(1,4,5)] show ?thesis
    unfolding usable_extra [OF assms(1)] by (auto simp: buf_written_def)
qed

theorem odb_roundtrip_witness:
  "\<exists>o0 o1 o2. odb_oio_create_buffer (\<lambda>n. n) (\<lambda>_. 0) = Some o0
      \<and> odb_put_all (oio_buffer_func (\<lambda>n. n) (\<lambda>_. 0)) o0 [U16 300, Str [104, 105]] = Some (o1, True)
      \<and> odb_get_all (\<lambda>n. n) (\<lambda>_. 0) (oio_buffer_func (\<lambda>n. n) (\<lambda>_. 0)) (odb_oio_buffer_rewind o1) (map kind_of [U16 300, Str [104, 105]])
          = Some (o2, Some [U16 300, Str [104, 105]])"
proof -
  have u: "usable_ok (\<lambda>n. n)" by (simp add: usable_ok_def)
  obtain s where s: "sds_ok s" "sds_val s = put_u32_le 5 @ [1]"
    using sds_new_len_ok [OF u, of 5 "put_u32_le 5 @ [1]" "\<lambda>_. 0"] by auto
  have "buf_unread \<lparr>ob_ptr = s, ob_pos = 0, processed_bytes = 0\<rparr> (put_u32_le 5 @ [1])" using s by (simp add: buf_unread_def)
  from odb_roundtrip [OF u _ _ this, of "[U16 300, Str [104, 105]]" "\<lambda>_. 0"] show ?thesis by simp blast
qed

end
