(* ===== verification/SdsPlugins.thy ===== *)
theory SdsPlugins
  imports SdsText
begin

text \<open>
  \<open>src/sds/sds_plugins.c\<close>: fixed-width and variable-width integers in strings, and slices, pairs of a
  pointer and a length of type \<open>int\<close>. A slice is the memory object its pointer points into, the offset, and
  the length as a 32-bit signed integer.
\<close>

section \<open>Fixed width\<close>

definition encode_fixed32 :: "u32 \<Rightarrow> byte list" where
  "encode_fixed32 v = [ucast v, ucast (drop_bit 8 v), ucast (drop_bit 16 v), ucast (drop_bit 24 v)]"

definition decode_fixed32 :: "byte list \<Rightarrow> u32 option" where
  "decode_fixed32 p =
     do {
       b0 \<leftarrow> get_at p 0; b1 \<leftarrow> get_at p 1; b2 \<leftarrow> get_at p 2; b3 \<leftarrow> get_at p 3;
       Some (ucast b0 OR push_bit 8 (ucast b1) OR push_bit 16 (ucast b2) OR push_bit 24 (ucast b3))
     }"

definition sds_append_fixed32 :: "(nat \<Rightarrow> nat) \<Rightarrow> (nat \<Rightarrow> byte) \<Rightarrow> sds \<Rightarrow> u32 \<Rightarrow> sds option" where
  "sds_append_fixed32 usable junk result v = sds_cat usable junk result (encode_fixed32 v)"

definition encode_fixed64 :: "u64 \<Rightarrow> byte list" where
  "encode_fixed64 v =
     [ucast v, ucast (drop_bit 8 v), ucast (drop_bit 16 v), ucast (drop_bit 24 v),
      ucast (drop_bit 32 v), ucast (drop_bit 40 v), ucast (drop_bit 48 v), ucast (drop_bit 56 v)]"

definition decode_fixed64 :: "byte list \<Rightarrow> u64 option" where
  "decode_fixed64 p =
     do {
       b0 \<leftarrow> get_at p 0; b1 \<leftarrow> get_at p 1; b2 \<leftarrow> get_at p 2; b3 \<leftarrow> get_at p 3;
       b4 \<leftarrow> get_at p 4; b5 \<leftarrow> get_at p 5; b6 \<leftarrow> get_at p 6; b7 \<leftarrow> get_at p 7;
       Some (ucast b0 OR push_bit 8 (ucast b1) OR push_bit 16 (ucast b2) OR push_bit 24 (ucast b3)
         OR push_bit 32 (ucast b4) OR push_bit 40 (ucast b5) OR push_bit 48 (ucast b6) OR push_bit 56 (ucast b7))
     }"

definition sds_append_fixed64 :: "(nat \<Rightarrow> nat) \<Rightarrow> (nat \<Rightarrow> byte) \<Rightarrow> sds \<Rightarrow> u64 \<Rightarrow> sds option" where
  "sds_append_fixed64 usable junk result v = sds_cat usable junk result (encode_fixed64 v)"

section \<open>Variable width\<close>

text \<open>The bytes written at \<open>dst\<close>; their number is the result.\<close>

definition encode_var_int32 :: "u32 \<Rightarrow> byte list" where
  "encode_var_int32 v =
     (if v < 2 ^ 7 then [ucast v]
      else if v < 2 ^ 14 then [ucast (v OR 128), ucast (drop_bit 7 v)]
      else if v < 2 ^ 21 then [ucast (v OR 128), ucast (drop_bit 7 v OR 128), ucast (drop_bit 14 v)]
      else if v < 2 ^ 28 then
        [ucast (v OR 128), ucast (drop_bit 7 v OR 128), ucast (drop_bit 14 v OR 128), ucast (drop_bit 21 v)]
      else
        [ucast (v OR 128), ucast (drop_bit 7 v OR 128), ucast (drop_bit 14 v OR 128), ucast (drop_bit 21 v OR 128),
         ucast (drop_bit 28 v)])"

definition sds_append_var_int32 :: "(nat \<Rightarrow> nat) \<Rightarrow> (nat \<Rightarrow> byte) \<Rightarrow> sds \<Rightarrow> u32 \<Rightarrow> sds option" where
  "sds_append_var_int32 usable junk result v =
     (let buf = encode_var_int32 v in
      if length buf > 5 then None else sds_cat_len usable junk result buf (length buf))"

function encode_var_int64 :: "u64 \<Rightarrow> byte list" where
  "encode_var_int64 v = (if v \<ge> 128 then ucast (v OR 128) # encode_var_int64 (drop_bit 7 v) else [ucast v])"
  by pat_completeness auto

termination
  by (relation "measure unat") (auto simp: unat_drop word_le_nat_alt simp del: drop_bit_eq_div)

declare encode_var_int64.simps [simp del]

function var_int_length :: "u64 \<Rightarrow> nat" where
  "var_int_length v = (if v \<ge> 128 then Suc (var_int_length (drop_bit 7 v)) else 1)"
  by pat_completeness auto

termination
  by (relation "measure unat") (auto simp: unat_drop word_le_nat_alt simp del: drop_bit_eq_div)

declare var_int_length.simps [simp del]

text \<open>\<open>buf\<close> has ten bytes.\<close>

definition sds_append_var_int64 :: "(nat \<Rightarrow> nat) \<Rightarrow> (nat \<Rightarrow> byte) \<Rightarrow> sds \<Rightarrow> u64 \<Rightarrow> sds option" where
  "sds_append_var_int64 usable junk result v =
     (let buf = encode_var_int64 v in
      if length buf > 10 then None else sds_cat_len usable junk result buf (length buf))"

text \<open>The loop of the two decoders, at the width and the largest shift of each: \<open>None\<close> inside is
  \<open>NULL\<close>, otherwise the pointer behind the number and the number.\<close>

function var_int_loop ::
  "nat \<Rightarrow> byte list \<Rightarrow> nat \<Rightarrow> int \<Rightarrow> 'a::len word \<Rightarrow> nat \<Rightarrow> (nat \<times> 'a word) option option" where
  "var_int_loop mx m p limit result shift =
     (if shift \<le> mx \<and> int p < limit then do {
        b \<leftarrow> get_at m p;
        if b AND 128 \<noteq> 0
        then var_int_loop mx m (p + 1) limit (result OR push_bit shift (ucast (b AND 127))) (shift + 7)
        else Some (Some (p + 1, result OR push_bit shift (ucast b)))
      }
      else Some None)"
  by pat_completeness auto

termination
  by (relation "measure (\<lambda>(mx, m, p, limit, result, shift). Suc mx - shift)") auto

declare var_int_loop.simps [simp del]

definition get_var_int32_ptr_fallback :: "byte list \<Rightarrow> nat \<Rightarrow> int \<Rightarrow> (nat \<times> u32) option option" where
  "get_var_int32_ptr_fallback m p limit = var_int_loop 28 m p limit 0 0"

definition get_var_int32_ptr :: "byte list \<Rightarrow> nat \<Rightarrow> int \<Rightarrow> (nat \<times> u32) option option" where
  "get_var_int32_ptr m p limit =
     (if int p < limit then do {
        b \<leftarrow> get_at m p;
        if b AND 128 = 0 then Some (Some (p + 1, ucast b)) else get_var_int32_ptr_fallback m p limit
      }
      else get_var_int32_ptr_fallback m p limit)"

definition get_var_int64_ptr :: "byte list \<Rightarrow> nat \<Rightarrow> int \<Rightarrow> (nat \<times> u64) option option" where
  "get_var_int64_ptr m p limit = var_int_loop 63 m p limit 0 0"

section \<open>Slices\<close>

record slice =
  sl_mem :: "byte list"
  sl_p :: nat
  sl_len :: int

definition to_int :: "int \<Rightarrow> int" where "to_int i = sint (word_of_int i :: u32)"
definition to_size :: "int \<Rightarrow> nat" where "to_size i = nat (i mod 2 ^ 64)"

definition get_var_int32 :: "slice \<Rightarrow> (slice \<times> u32 option) option" where
  "get_var_int32 sl =
     do {
       q \<leftarrow> get_var_int32_ptr (sl_mem sl) (sl_p sl) (int (sl_p sl) + sl_len sl);
       case q of
         None \<Rightarrow> Some (sl, None)
       | Some (q, v) \<Rightarrow> Some (sl\<lparr>sl_len := to_int (sl_len sl - (int q - int (sl_p sl))), sl_p := q\<rparr>, Some v)
     }"

definition get_var_int64 :: "slice \<Rightarrow> (slice \<times> u64 option) option" where
  "get_var_int64 sl =
     do {
       q \<leftarrow> get_var_int64_ptr (sl_mem sl) (sl_p sl) (int (sl_p sl) + sl_len sl);
       case q of
         None \<Rightarrow> Some (sl, None)
       | Some (q, v) \<Rightarrow> Some (sl\<lparr>sl_len := to_int (sl_len sl - (int q - int (sl_p sl))), sl_p := q\<rparr>, Some v)
     }"

definition sds_append_length_prefixed_slice ::
  "(nat \<Rightarrow> nat) \<Rightarrow> (nat \<Rightarrow> byte) \<Rightarrow> sds \<Rightarrow> slice \<Rightarrow> sds option" where
  "sds_append_length_prefixed_slice usable junk dst sl =
     do {
       dst \<leftarrow> sds_append_var_int32 usable junk dst (word_of_int (sl_len sl));
       sds_cat_len usable junk dst (drop (sl_p sl) (sl_mem sl)) (to_size (sl_len sl))
     }"

definition slice_remove_prefix :: "slice \<Rightarrow> nat \<Rightarrow> slice" where
  "slice_remove_prefix sl len = sl\<lparr>sl_p := sl_p sl + len, sl_len := to_int (sl_len sl - int len)\<rparr>"

text \<open>\<open>get_length_prefixed_slice\<close>: \<open>None\<close> is \<open>false\<close>; the new \<open>input\<close> and \<open>result\<close> otherwise. A pointer that
  is moved behind the end of its object is undefined behaviour only when it is used.\<close>

definition get_length_prefixed_slice :: "slice \<Rightarrow> (slice \<times> slice option) option" where
  "get_length_prefixed_slice input =
     do {
       (input, len) \<leftarrow> get_var_int32 input;
       case len of
         None \<Rightarrow> Some (input, None)
       | Some len \<Rightarrow>
           if sl_len input \<ge> to_int (uint len)
           then Some (slice_remove_prefix input (unat len), Some (input\<lparr>sl_len := to_int (uint len)\<rparr>))
           else Some (input, None)
     }"

definition slice_to_sds :: "(nat \<Rightarrow> nat) \<Rightarrow> (nat \<Rightarrow> byte) \<Rightarrow> slice \<Rightarrow> sds option" where
  "slice_to_sds usable junk sl = sds_new_len usable junk (Init_bytes (drop (sl_p sl) (sl_mem sl))) (to_size (sl_len sl))"

definition slice_operator :: "slice \<Rightarrow> nat \<Rightarrow> byte option" where
  "slice_operator sl n = get_at (sl_mem sl) (sl_p sl + n)"

definition slice_is_empty :: "slice \<Rightarrow> bool" where "slice_is_empty sl \<longleftrightarrow> sl_len sl = 0"
definition slice_size :: "slice \<Rightarrow> nat" where "slice_size sl = to_size (sl_len sl)"
definition slice_data :: "slice \<Rightarrow> byte list \<times> nat" where "slice_data sl = (sl_mem sl, sl_p sl)"
definition slice_clear :: "slice \<Rightarrow> slice" where "slice_clear sl = \<lparr>sl_mem = [0], sl_p = 0, sl_len = 0\<rparr>"

definition slice_init_from_sds :: "sds \<Rightarrow> slice" where
  "slice_init_from_sds s = \<lparr>sl_mem = s_buf s, sl_p = 0, sl_len = to_int (int (sds_len s))\<rparr>"

definition slice_compare :: "slice \<Rightarrow> slice \<Rightarrow> int option" where
  "slice_compare a b =
     do {
       let min_len = to_size (if sl_len a < sl_len b then sl_len a else sl_len b);
       r \<leftarrow> c_memcmp (drop (sl_p a) (sl_mem a)) (drop (sl_p b) (sl_mem b)) min_len;
       Some (if r = 0 then (if sl_len a < sl_len b then - 1 else if sl_len a > sl_len b then 1 else r) else r)
     }"

definition slice_starts_with :: "slice \<Rightarrow> slice \<Rightarrow> bool option" where
  "slice_starts_with sl x =
     (if sl_len sl \<ge> sl_len x then do {
        r \<leftarrow> c_memcmp (drop (sl_p sl) (sl_mem sl)) (drop (sl_p x) (sl_mem x)) (to_size (sl_len x));
        Some (r = 0)
      }
      else Some False)"

section \<open>The encoding of a number\<close>

text \<open>Seven bits in each byte, the lowest first; the eighth bit is set in all bytes but the last.\<close>

fun venc :: "nat \<Rightarrow> byte list" where
  "venc n = (if n < 128 then [of_nat n] else of_nat (n mod 128 + 128) # venc (n div 128))"

declare venc.simps [simp del]

lemma bit_128: "bit (128 :: 'a::len word) n \<longleftrightarrow> n = 7 \<and> n < LENGTH('a)"
  using bit_push_bit_iff [of 7 "1 :: 'a word" n] bit_imp_le_length [of "128 :: 'a word" n]
  by (auto simp: bit_1_iff push_bit_eq_mult)

lemma byte_or_128: "8 \<le> LENGTH('a::len) \<Longrightarrow> (ucast ((w :: 'a word) OR 128) :: byte) = of_nat (unat w mod 128 + 128)"
proof -
  assume l: "8 \<le> LENGTH('a)"
  have t: "unat (take_bit 7 (ucast w) :: byte) = unat w mod 128"
    by (simp add: unsigned_take_bit_eq unsigned_ucast_eq) (simp add: take_bit_eq_mod)
  have lt: "unat w mod 128 < 128" by simp
  have "(ucast (w OR 128) :: byte) = take_bit 7 (ucast w) OR 128"
    using l by (intro bit_word_eqI) (auto simp: bit_simps bit_128 simp del: bit_numeral_word_iff)
  also have "\<dots> = of_nat (unat w mod 128 + 128)"
  proof -
    have "take_bit 7 (128 :: byte) = 0" by (simp add: take_bit_eq_mod word_mod_def)
    then have "unat (take_bit 7 (ucast w) OR 128 :: byte) = unat w mod 128 + 128"
      using or_high(2) [of "take_bit 7 (ucast w) :: byte" 7 128] t lt by simp
    moreover have "unat (of_nat (unat w mod 128 + 128) :: byte) = unat w mod 128 + 128" using lt by (intro unat_of_nat_id) simp
    ultimately show ?thesis by (simp only: word_unat_eq_iff)
  qed
  finally show ?thesis .
qed

lemma encode_var_int64_venc: "encode_var_int64 v = venc (unat v)"
proof (induction v rule: encode_var_int64.induct)
  case (1 v)
  show ?case
  proof (cases "v \<ge> 128")
    case True
    then have "\<not> unat v < 128" by (simp add: word_le_nat_alt)
    with 1 [OF True] True show ?thesis
      by (subst encode_var_int64.simps, subst venc.simps) (simp add: byte_or_128 unat_drop del: drop_bit_eq_div)
  next
    case False
    then have "unat v < 128" by (simp add: word_le_nat_alt)
    then show ?thesis using False by (subst encode_var_int64.simps, subst venc.simps) (simp add: word_unat_eq_iff unsigned_ucast_eq unat_of_nat_id take_bit_nat_eq_self)
  qed
qed

lemma var_int_length_venc: "var_int_length v = length (venc (unat v))"
proof (induction v rule: var_int_length.induct)
  case (1 v)
  then show ?case
    by (subst var_int_length.simps, subst venc.simps) (auto simp: word_le_nat_alt unat_drop simp del: drop_bit_eq_div)
qed

lemma length_venc: "n < 128 ^ Suc k \<Longrightarrow> length (venc n) \<le> Suc k"
proof (induction k arbitrary: n)
  case 0
  then show ?case by (subst venc.simps) simp
next
  case (Suc k)
  then have "n div 128 < 128 ^ Suc k" by (simp add: less_mult_imp_div_less mult.commute)
  then have "length (venc (n div 128)) \<le> Suc k" by (rule Suc.IH)
  then show ?case by (subst venc.simps) simp
qed

lemma venc_cases: "n < 128 \<Longrightarrow> venc n = [of_nat n]" "\<not> n < 128 \<Longrightarrow> venc n = of_nat (n mod 128 + 128) # venc (n div 128)"
  by (simp_all add: venc.simps)

lemma encode_var_int32_venc: "encode_var_int32 v = venc (unat v)"
proof -
  have last: "(ucast (drop_bit k v) :: byte) = of_nat (unat v div 2 ^ k)" if "unat v div 2 ^ k < 128" for k
    using that by (simp add: word_unat_eq_iff unsigned_ucast_eq unat_drop unat_of_nat_id take_bit_nat_eq_self del: drop_bit_eq_div)
  have mid: "(ucast (drop_bit k v OR 128) :: byte) = of_nat ((unat v div 2 ^ k) mod 128 + 128)" for k
    by (simp add: byte_or_128 unat_drop del: drop_bit_eq_div)
  have b: "unat v < 4294967296" by (rule unat_less_32)
  note lt = word_less_nat_alt
  have c: "v < 2 ^ 7 \<longleftrightarrow> unat v < 128" "v < 2 ^ 14 \<longleftrightarrow> unat v < 16384" "v < 2 ^ 21 \<longleftrightarrow> unat v < 2097152" "v < 2 ^ 28 \<longleftrightarrow> unat v < 268435456"
    by (simp_all add: lt)
  have d: "n div 128 div 128 = n div 16384" "n div 16384 div 128 = n div 2097152" "n div 2097152 div 128 = n div 268435456" for n :: nat
    by (simp_all add: div_mult2_eq [symmetric])
  have l: "n div 128 < 128 \<longleftrightarrow> n < 16384" "n div 16384 < 128 \<longleftrightarrow> n < 2097152" "n div 2097152 < 128 \<longleftrightarrow> n < 268435456"
    "n < 4294967296 \<Longrightarrow> n div 268435456 < 128" for n :: nat
    by (simp_all add: div_less_iff_less_mult)
  consider "unat v < 128" | "\<not> unat v < 128" "unat v < 16384" | "\<not> unat v < 128" "\<not> unat v < 16384" "unat v < 2097152"
    | "\<not> unat v < 128" "\<not> unat v < 16384" "\<not> unat v < 2097152" "unat v < 268435456"
    | "\<not> unat v < 128" "\<not> unat v < 16384" "\<not> unat v < 2097152" "\<not> unat v < 268435456" by blast
  then show ?thesis
  proof cases
    case 1
    then show ?thesis unfolding encode_var_int32_def c using last [of 0] by (simp add: venc_cases)
  next
    case 2
    then show ?thesis unfolding encode_var_int32_def c using last [of 7] mid [of 0] by (simp add: venc_cases l)
  next
    case 3
    then show ?thesis unfolding encode_var_int32_def c using last [of 14] mid [of 0] mid [of 7] by (simp add: venc_cases l d)
  next
    case 4
    then show ?thesis unfolding encode_var_int32_def c using last [of 21] mid [of 0] mid [of 7] mid [of 14] by (simp add: venc_cases l d)
  next
    case 5
    then show ?thesis unfolding encode_var_int32_def c using last [of 28] mid [of 0] mid [of 7] mid [of 14] mid [of 21] l(4) [OF b] by (simp add: venc_cases l d)
  qed
qed

section \<open>Decoding\<close>

lemma take_bit_seven: "take_bit k v OR push_bit k (take_bit 7 (drop_bit k v)) = take_bit (k + 7) (v :: 'a::len word)"
  by (intro bit_word_eqI) (auto simp: bit_simps)

lemma take_push_all: "take_bit k v OR push_bit k (drop_bit k v) = (v :: 'a::len word)"
proof (rule bit_word_eqI)
  fix n assume "n < LENGTH('a)"
  then show "bit (take_bit k v OR push_bit k (drop_bit k v)) n = bit v n" by (cases "n < k") (auto simp: bit_simps)
qed

lemma byte_and_128: "(x :: byte) AND 128 = 0 \<longleftrightarrow> \<not> bit x 7"
proof
  assume "x AND 128 = 0"
  then have "\<not> bit (x AND 128) 7" by simp
  then show "\<not> bit x 7" by (simp add: bit_and_iff bit_128 del: bit_numeral_word_iff)
next
  assume "\<not> bit x 7"
  then show "x AND 128 = 0" by (intro bit_word_eqI) (auto simp: bit_and_iff bit_128 simp del: bit_numeral_word_iff)
qed

lemma byte_and_127: "(x :: byte) AND 127 = take_bit 7 x"
  by (simp add: take_bit_eq_mask mask_eq_exp_minus_1)

lemma venc_byte:
  fixes w :: "'a::len word"
  assumes l: "8 \<le> LENGTH('a)"
  shows "unat w < 128 \<Longrightarrow> (of_nat (unat w) :: byte) AND 128 = 0 \<and> ucast (of_nat (unat w) :: byte) = w"
    "(of_nat (unat w mod 128 + 128) :: byte) AND 128 \<noteq> 0"
    "ucast ((of_nat (unat w mod 128 + 128) :: byte) AND 127) = take_bit 7 w"
proof -
  show "(of_nat (unat w mod 128 + 128) :: byte) AND 128 \<noteq> 0"
    unfolding byte_or_128 [OF l, of w, symmetric] byte_and_128 using l by (simp add: bit_simps bit_128 del: bit_numeral_word_iff)
  show "ucast ((of_nat (unat w mod 128 + 128) :: byte) AND 127) = take_bit 7 w"
    unfolding byte_or_128 [OF l, of w, symmetric] byte_and_127 using l
    by (intro bit_word_eqI) (auto simp: bit_simps bit_128 simp del: bit_numeral_word_iff)
  assume "unat w < 128"
  then have t: "take_bit 7 w = w" by (intro take_bit_id) simp
  have e: "(of_nat (unat w) :: byte) = ucast w" by simp
  have "\<not> bit w n" if "7 \<le> n" for n using t that by (metis bit_take_bit_iff linorder_not_less)
  then show "(of_nat (unat w) :: byte) AND 128 = 0 \<and> ucast (of_nat (unat w) :: byte) = w"
    unfolding e byte_and_128 using l by (auto simp: bit_simps intro!: bit_word_eqI intro: ccontr)
qed

text \<open>The loop reads back a number that lies in memory.\<close>

lemma var_int_loop_venc:
  fixes v :: "'a::len word"
  assumes l: "8 \<le> LENGTH('a)" and mx: "\<forall>t. t mod 7 = 0 \<and> t < LENGTH('a) \<longrightarrow> t \<le> mx"
  shows "k mod 7 = 0 \<Longrightarrow> k \<le> mx \<Longrightarrow> m = A @ venc (unat (drop_bit k v)) @ R \<Longrightarrow>
     int (length A + length (venc (unat (drop_bit k v)))) \<le> limit \<Longrightarrow>
     var_int_loop mx m (length A) limit (take_bit k v) k = Some (Some (length A + length (venc (unat (drop_bit k v))), v))"
proof (induction "unat (drop_bit k v)" arbitrary: A k rule: less_induct)
  case less
  let ?w = "drop_bit k v"
  show ?case
  proof (cases "unat ?w < 128")
    case True
    then have m: "m = A @ of_nat (unat ?w) # R" "length (venc (unat ?w)) = 1" using less.prems by (simp_all add: venc_cases)
    have "get_at m (length A) = Some (of_nat (unat ?w))" by (simp add: m(1) get_at_def)
    then show ?thesis
      using venc_byte(1) [OF l True] less.prems m(2) take_push_all [of k v]
      by (subst var_int_loop.simps) (simp del: of_nat_unat)
  next
    case False
    let ?b = "of_nat (unat ?w mod 128 + 128) :: byte"
    have dd: "drop_bit (k + 7) v = drop_bit 7 ?w" by (simp add: add.commute)
    have u: "unat (drop_bit (k + 7) v) = unat ?w div 128" unfolding dd unat_drop [of 7] by simp
    have m: "venc (unat ?w) = ?b # venc (unat (drop_bit (k + 7) v))"
      using False u by (simp add: venc_cases)
    have nz: "unat (drop_bit (k + 7) v) \<noteq> 0" "unat (drop_bit (k + 7) v) < unat ?w"
      using False unfolding u by (simp_all add: div_greater_zero_iff)
    have "k + 7 < LENGTH('a)"
    proof (rule ccontr)
      assume "\<not> k + 7 < LENGTH('a)"
      then have "drop_bit (k + 7) v = 0" by (intro bit_word_eqI) (simp add: bit_simps bit_imp_le_length)
      then show False using nz(1) by simp
    qed
    then have k7: "k + 7 \<le> mx" "(k + 7) mod 7 = 0" using mx less.prems(1) by simp_all
    have "get_at m (length A) = Some ?b" using less.prems(3) m by (simp add: get_at_def)
    then have "var_int_loop mx m (length A) limit (take_bit k v) k
        = var_int_loop mx m (length (A @ [?b])) limit (take_bit (k + 7) v) (k + 7)"
      using venc_byte(2,3) [OF l, of ?w] less.prems m take_bit_seven [of k v]
      by (subst var_int_loop.simps) (simp del: of_nat_add of_nat_mod)
    also have "\<dots> = Some (Some (length (A @ [?b]) + length (venc (unat (drop_bit (k + 7) v))), v))"
      by (rule less.hyps [OF nz(2) k7(2,1)]) (use less.prems m in simp_all)
    finally show ?thesis using m by simp
  qed
qed

section \<open>Reading from a slice\<close>

definition slice_ok :: "slice \<Rightarrow> bool" where
  "slice_ok sl \<longleftrightarrow> 0 \<le> sl_len sl \<and> sl_len sl < 2 ^ 31 \<and> sl_p sl + nat (sl_len sl) \<le> length (sl_mem sl)"

definition slice_val :: "slice \<Rightarrow> byte list" where
  "slice_val sl = take (nat (sl_len sl)) (drop (sl_p sl) (sl_mem sl))"

lemma to_int_id: "- (2 ^ 31) \<le> i \<Longrightarrow> i < 2 ^ 31 \<Longrightarrow> to_int i = i"
  unfolding to_int_def by (simp add: sint_sbintrunc' signed_take_bit_int_eq_self)

lemma to_size_id: "0 \<le> i \<Longrightarrow> i < 2 ^ 64 \<Longrightarrow> to_size i = nat i"
  by (simp add: to_size_def)

lemma length_slice_val: "slice_ok sl \<Longrightarrow> length (slice_val sl) = nat (sl_len sl)"
  by (auto simp: slice_ok_def slice_val_def min_def)

text \<open>Memory around the content of a slice.\<close>

lemma slice_split:
  assumes "slice_ok sl" "slice_val sl = bs @ r"
  obtains A R where "sl_mem sl = A @ bs @ R" "length A = sl_p sl"
    "int (length A + length bs) \<le> int (sl_p sl) + sl_len sl" "sl_len sl = int (length bs + length r)"
proof -
  have "sl_mem sl = take (sl_p sl) (sl_mem sl) @ slice_val sl @ drop (nat (sl_len sl)) (drop (sl_p sl) (sl_mem sl))"
    unfolding slice_val_def by (metis append_take_drop_id)
  moreover have "length (take (sl_p sl) (sl_mem sl)) = sl_p sl" using assms(1) by (simp add: slice_ok_def)
  moreover have "nat (sl_len sl) = length bs + length r" using length_slice_val [OF assms(1)] assms(2) by simp
  then have "sl_len sl = int (length bs + length r)" using assms(1) unfolding slice_ok_def by linarith
  ultimately show thesis
    using assms(2) by (intro that [of "take (sl_p sl) (sl_mem sl)" "r @ drop (nat (sl_len sl)) (drop (sl_p sl) (sl_mem sl))"]) simp_all
qed

text \<open>Advancing behind a prefix.\<close>

lemma slice_advance:
  assumes "slice_ok sl" "slice_val sl = bs @ r"
  shows "slice_ok (sl\<lparr>sl_len := sl_len sl - int (length bs), sl_p := sl_p sl + length bs\<rparr>)"
    "slice_val (sl\<lparr>sl_len := sl_len sl - int (length bs), sl_p := sl_p sl + length bs\<rparr>) = r"
    "to_int (sl_len sl - int (length bs)) = sl_len sl - int (length bs)"
    "slice_val (sl\<lparr>sl_len := int (length bs)\<rparr>) = bs"
proof -
  from slice_split [OF assms] obtain A R where m: "sl_mem sl = A @ bs @ R" "length A = sl_p sl" "sl_len sl = int (length bs + length r)"
    by blast
  have len: "sl_len sl < 2 ^ 31" "sl_p sl + nat (sl_len sl) \<le> length (sl_mem sl)" using assms(1) by (simp_all add: slice_ok_def)
  show "to_int (sl_len sl - int (length bs)) = sl_len sl - int (length bs)" using m(3) len by (intro to_int_id) simp_all
  show "slice_ok (sl\<lparr>sl_len := sl_len sl - int (length bs), sl_p := sl_p sl + length bs\<rparr>)"
    using m(3) len by (simp add: slice_ok_def)
  have n: "nat (int (length bs + length r)) = length bs + length r" by simp
  have "take (length bs + length r) (bs @ R) = bs @ r" using assms(2) m unfolding slice_val_def by (simp only: n) simp
  then show "slice_val (sl\<lparr>sl_len := sl_len sl - int (length bs), sl_p := sl_p sl + length bs\<rparr>) = r"
    using m by (simp add: slice_val_def)
  show "slice_val (sl\<lparr>sl_len := int (length bs)\<rparr>) = bs" using m by (simp add: slice_val_def)
qed

lemma get_var_int32_ptr_eq: "get_var_int32_ptr m p limit = var_int_loop 28 m p limit 0 0"
proof -
  have "ucast b OR push_bit 0 0 = (ucast b :: u32)" for b :: byte by simp
  then show ?thesis
    by (cases "get_at m p") (auto simp: get_var_int32_ptr_def get_var_int32_ptr_fallback_def var_int_loop.simps [of 28 m p])
qed

lemma loop_32: "m = A @ venc (unat v) @ R \<Longrightarrow> int (length A + length (venc (unat v))) \<le> limit \<Longrightarrow>
    var_int_loop 28 m (length A) limit 0 0 = Some (Some (length A + length (venc (unat v)), v :: u32))"
proof -
  have mx: "\<forall>t. t mod 7 = 0 \<and> t < LENGTH(32) \<longrightarrow> t \<le> 28"
  proof (intro allI impI)
    fix t :: nat assume "t mod 7 = 0 \<and> t < LENGTH(32)"
    then obtain q where "t = 7 * q" "t < 32" by (auto simp: mod_eq_0_iff_dvd)
    then show "t \<le> 28" by simp
  qed
  show "m = A @ venc (unat v) @ R \<Longrightarrow> int (length A + length (venc (unat v))) \<le> limit \<Longrightarrow>
    var_int_loop 28 m (length A) limit 0 0 = Some (Some (length A + length (venc (unat v)), v))"
    using var_int_loop_venc [OF _ mx, of 0 m A v R limit] by simp
qed

lemma loop_64: "m = A @ venc (unat v) @ R \<Longrightarrow> int (length A + length (venc (unat v))) \<le> limit \<Longrightarrow>
    var_int_loop 63 m (length A) limit 0 0 = Some (Some (length A + length (venc (unat v)), v :: u64))"
  using var_int_loop_venc [of 63 0 m A v R limit] by simp

lemma get_var_int32_ok:
  assumes "slice_ok sl" "slice_val sl = venc (unat v) @ r"
  shows "get_var_int32 sl = Some (sl\<lparr>sl_len := sl_len sl - int (length (venc (unat v))), sl_p := sl_p sl + length (venc (unat v))\<rparr>, Some v)"
proof -
  from slice_split [OF assms] obtain A R where m: "sl_mem sl = A @ venc (unat v) @ R" "length A = sl_p sl"
    "int (length A + length (venc (unat v))) \<le> int (sl_p sl) + sl_len sl" by blast
  show ?thesis
    using loop_32 [OF m(1,3)] slice_advance(3) [OF assms] by (simp add: get_var_int32_def get_var_int32_ptr_eq m(2))
qed

lemma get_var_int64_ok:
  assumes "slice_ok sl" "slice_val sl = venc (unat v) @ r"
  shows "get_var_int64 sl = Some (sl\<lparr>sl_len := sl_len sl - int (length (venc (unat v))), sl_p := sl_p sl + length (venc (unat v))\<rparr>, Some v)"
proof -
  from slice_split [OF assms] obtain A R where m: "sl_mem sl = A @ venc (unat v) @ R" "length A = sl_p sl"
    "int (length A + length (venc (unat v))) \<le> int (sl_p sl) + sl_len sl" by blast
  show ?thesis
    using loop_64 [OF m(1,3)] slice_advance(3) [OF assms] by (simp add: get_var_int64_def get_var_int64_ptr_def m(2))
qed

lemma venc_32: "length (venc (unat (v :: u32))) \<le> 5"
  using length_venc [of "unat v" 4] unat_less_32 [of v] by simp

lemma venc_64: "length (venc (unat (v :: u64))) \<le> 10"
  using length_venc [of "unat v" 9] unat_less_64 [of v] by simp

lemma append_var_int_ok:
  assumes u: "usable_ok usable" and s: "sds_ok s" "s_len s + 10 < 2 ^ 63"
  shows "\<exists>s'. sds_append_var_int32 usable junk s v = Some s' \<and> sds_ok s' \<and> sds_val s' = sds_val s @ venc (unat v)"
    "\<exists>s'. sds_append_var_int64 usable junk s w = Some s' \<and> sds_ok s' \<and> sds_val s' = sds_val s @ venc (unat w)"
  using sds_cat_len_ok [OF u s(1), of "length (venc (unat v))" "venc (unat v)" junk] venc_32 [of v]
    sds_cat_len_ok [OF u s(1), of "length (venc (unat w))" "venc (unat w)" junk] venc_64 [of w] s(2)
  by (auto simp: sds_append_var_int32_def sds_append_var_int64_def encode_var_int32_venc encode_var_int64_venc)

lemma append_prefixed_ok:
  assumes u: "usable_ok usable" and s: "sds_ok s" "s_len s + 10 + nat (sl_len sl) < 2 ^ 63" and sl: "slice_ok sl"
  shows "\<exists>s'. sds_append_length_prefixed_slice usable junk s sl = Some s' \<and> sds_ok s'
    \<and> sds_val s' = sds_val s @ venc (nat (sl_len sl)) @ slice_val sl"
proof -
  have n: "unat (word_of_int (sl_len sl) :: u32) = nat (sl_len sl)" using sl by (intro unat_of_int_id) (auto simp: slice_ok_def)
  from append_var_int_ok(1) [OF u s(1), of junk "word_of_int (sl_len sl)"] s n obtain s1 where
    s1: "sds_append_var_int32 usable junk s (word_of_int (sl_len sl)) = Some s1" "sds_ok s1"
      "sds_val s1 = sds_val s @ venc (nat (sl_len sl))" by auto
  have "s_len s1 \<le> s_len s + 5"
    using length_sds_val [OF s1(2)] length_sds_val [OF s(1)] s1(3) venc_32 [of "word_of_int (sl_len sl)"] n by simp
  then have b: "s_len s1 + nat (sl_len sl) < 2 ^ 63" using s by linarith
  have "nat (sl_len sl) \<le> length (drop (sl_p sl) (sl_mem sl))" "to_size (sl_len sl) = nat (sl_len sl)"
    using sl by (auto simp: slice_ok_def to_size_def)
  with sds_cat_len_ok [OF u s1(2) b, of "drop (sl_p sl) (sl_mem sl)" junk] s1 show ?thesis
    by (auto simp: sds_append_length_prefixed_slice_def slice_val_def)
qed

lemma get_prefixed_ok:
  assumes sl: "slice_ok sl" "slice_val sl = venc (length d) @ d @ r"
  shows "\<exists>sl' res. get_length_prefixed_slice sl = Some (sl', Some res) \<and> slice_val res = d \<and> slice_ok sl' \<and> slice_val sl' = r"
proof -
  let ?v = "of_nat (length d) :: u32" and ?n = "length (venc (length d))"
  have ld: "length d < 2 ^ 31" using length_slice_val [OF sl(1)] sl by (auto simp: slice_ok_def)
  then have u: "unat ?v = length d" by (intro unat_of_nat_id) simp
  have ui: "uint ?v = int (length d)" using u by (metis uint_nat)
  let ?s1 = "sl\<lparr>sl_len := sl_len sl - int ?n, sl_p := sl_p sl + ?n\<rparr>"
  have g: "get_var_int32 sl = Some (?s1, Some ?v)" using get_var_int32_ok [of sl ?v] sl u by simp
  note a1 = slice_advance [OF sl]
  note a2 = slice_advance [OF a1(1,2)]
  have ti: "to_int (int (length d)) = int (length d)" using ld by (intro to_int_id) simp_all
  from slice_split [OF a1(1,2)] have le: "int (length d) \<le> sl_len ?s1" by (metis of_nat_le_iff le_add1)
  have "get_length_prefixed_slice sl = Some (slice_remove_prefix ?s1 (length d), Some (?s1\<lparr>sl_len := int (length d)\<rparr>))"
    unfolding get_length_prefixed_slice_def g using le by (simp add: ui ti u)
  moreover have "slice_remove_prefix ?s1 (length d) = ?s1\<lparr>sl_len := sl_len ?s1 - int (length d), sl_p := sl_p ?s1 + length d\<rparr>"
    unfolding slice_remove_prefix_def a2(3) by simp
  ultimately show ?thesis using a2 by metis
qed

section \<open>Properties\<close>

text \<open>C12. Numbers in variable width: what \<open>sds_append_var_int32\<close>, \<open>sds_append_var_int64\<close> and
  \<open>sds_append_length_prefixed_slice\<close> append to a string (at most five and ten bytes of the buffers on
  the stack; \<open>var_int_length\<close> is that number) is read back from a slice, with the rest of the slice left,
  by \<open>get_var_int32\<close>, \<open>get_var_int64\<close> and \<open>get_length_prefixed_slice\<close>.\<close>

theorem var_int_roundtrip:
  assumes "usable_ok usable" "sds_ok s" "s_len s + 10 + length d < 2 ^ 63" "slice_ok sl" "slice_val sl = d"
  shows "(\<exists>s'. sds_append_var_int32 usable junk s v = Some s' \<and> sds_ok s' \<and> sds_val s' = sds_val s @ encode_var_int32 v)
    \<and> (\<exists>s'. sds_append_var_int64 usable junk s w = Some s' \<and> sds_ok s' \<and> sds_val s' = sds_val s @ encode_var_int64 w)
    \<and> length (encode_var_int32 v) \<le> 5 \<and> length (encode_var_int64 w) \<le> 10 \<and> var_int_length w = length (encode_var_int64 w)
    \<and> (slice_ok a \<and> slice_val a = encode_var_int32 v @ r \<longrightarrow>
         (\<exists>a'. get_var_int32 a = Some (a', Some v) \<and> slice_ok a' \<and> slice_val a' = r))
    \<and> (slice_ok a \<and> slice_val a = encode_var_int64 w @ r \<longrightarrow>
         (\<exists>a'. get_var_int64 a = Some (a', Some w) \<and> slice_ok a' \<and> slice_val a' = r))
    \<and> (\<exists>s' pre. sds_append_length_prefixed_slice usable junk s sl = Some s' \<and> sds_ok s' \<and> sds_val s' = sds_val s @ pre @ d
         \<and> (slice_ok a \<and> slice_val a = pre @ d @ r \<longrightarrow>
              (\<exists>a' res. get_length_prefixed_slice a = Some (a', Some res) \<and> slice_val res = d \<and> slice_ok a' \<and> slice_val a' = r)))"
proof -
  have len: "nat (sl_len sl) = length d" using length_slice_val [OF assms(4)] assms(5) by simp
  have s: "s_len s + 10 < 2 ^ 63" "s_len s + 10 + nat (sl_len sl) < 2 ^ 63" using assms(3) len by simp_all
  show ?thesis
    using append_var_int_ok(1) [OF assms(1,2) s(1), of junk v] append_var_int_ok(2) [OF assms(1,2) s(1), of junk w] append_prefixed_ok [OF assms(1,2) s(2) assms(4), of junk]
      get_var_int32_ok [of a v r] get_var_int64_ok [of a w r] slice_advance(1,2) [of a "venc (unat v)" r] slice_advance(1,2) [of a "venc (unat w)" r]
      get_prefixed_ok [of a d r] venc_32 [of v] venc_64 [of w]
    unfolding encode_var_int32_venc encode_var_int64_venc var_int_length_venc len assms(5) by blast
qed

theorem var_int_roundtrip_witness:
  "\<exists>a'. get_var_int32 \<lparr>sl_mem = encode_var_int32 300 @ [7], sl_p = 0, sl_len = 3\<rparr> = Some (a', Some 300) \<and> slice_ok a' \<and> slice_val a' = [7]"
proof -
  have u: "usable_ok (\<lambda>n. n)" by (simp add: usable_ok_def)
  obtain s where s: "sds_ok s" "sds_val s = []" using sds_new_len_ok [OF u, of 0 "[]" "\<lambda>_. 0"] by auto
  then have l: "s_len s + 10 + length ([] :: byte list) < 2 ^ 63" using length_sds_val [OF s(1)] by simp
  have o: "slice_ok \<lparr>sl_mem = [0], sl_p = 0, sl_len = 0\<rparr>" "slice_val \<lparr>sl_mem = [0], sl_p = 0, sl_len = 0\<rparr> = []"
    by (simp_all add: slice_ok_def slice_val_def)
  have e: "length (encode_var_int32 300) = 2" by (simp add: encode_var_int32_def)
  let ?a = "\<lparr>sl_mem = encode_var_int32 300 @ [7], sl_p = 0, sl_len = 3\<rparr>"
  have "slice_ok ?a \<and> slice_val ?a = encode_var_int32 300 @ [7]" using e by (simp add: slice_ok_def slice_val_def)
  with var_int_roundtrip [OF u s(1) l o, of "\<lambda>_. 0" 300 0 ?a "[7]"] show ?thesis by blast
qed

text \<open>The bytes in front of the first zero.\<close>

lemma c_strlen_takeWhile: "c_strlen bs = (if 0 \<in> set bs then Some (length (takeWhile (\<lambda>b. b \<noteq> 0) bs)) else None)"
  by (induction bs) auto

lemma sds_cat_binary:
  assumes "usable_ok usable" "sds_ok s" "s_len s + length bs < 2 ^ 63"
  shows "if 0 \<in> set bs
    then \<exists>s'. sds_cat usable junk s bs = Some s' \<and> sds_val s' = sds_val s @ takeWhile (\<lambda>b. b \<noteq> 0) bs
    else sds_cat usable junk s bs = None"
proof -
  have le: "length (takeWhile (\<lambda>b. b \<noteq> 0) bs) \<le> length bs" by (rule length_takeWhile_le)
  have t: "take (length (takeWhile (\<lambda>b. b \<noteq> 0) bs)) bs = takeWhile (\<lambda>b. b \<noteq> 0) bs" by (metis takeWhile_eq_take)
  from sds_cat_len_ok [OF assms(1,2) _ le, of junk] assms(3) le t show ?thesis
    by (auto simp: sds_cat_def c_strlen_takeWhile)
qed

text \<open>The fixed-width encodings are read back by their decoders, but appending one to a string never
  appends it: \<open>sds_append_fixed32\<close> and \<open>sds_append_fixed64\<close> measure the encoding with \<open>strlen\<close>, so that
  the bytes from the first zero byte on are lost, and without a zero byte the function reads outside its
  buffer. And \<open>get_length_prefixed_slice\<close> compares lengths as signed integers: a prefix of two
  gigabytes is accepted on an empty rest, and the slice it returns has a negative length.\<close>

theorem fixed_append_and_prefix_faults:
  assumes "usable_ok usable" "sds_ok s" "s_len s + 8 < 2 ^ 63"
  shows "decode_fixed32 (encode_fixed32 v @ r) = Some v \<and> decode_fixed64 (encode_fixed64 w @ r) = Some w
    \<and> (if 0 \<in> set (encode_fixed32 v)
       then \<exists>s'. sds_append_fixed32 usable junk s v = Some s' \<and> sds_val s' = sds_val s @ takeWhile (\<lambda>b. b \<noteq> 0) (encode_fixed32 v)
       else sds_append_fixed32 usable junk s v = None)
    \<and> (if 0 \<in> set (encode_fixed64 w)
       then \<exists>s'. sds_append_fixed64 usable junk s w = Some s' \<and> sds_val s' = sds_val s @ takeWhile (\<lambda>b. b \<noteq> 0) (encode_fixed64 w)
       else sds_append_fixed64 usable junk s w = None)
    \<and> get_length_prefixed_slice \<lparr>sl_mem = encode_var_int32 (2 ^ 31), sl_p = 0, sl_len = 5\<rparr>
        = Some (\<lparr>sl_mem = encode_var_int32 (2 ^ 31), sl_p = 5 + 2 ^ 31, sl_len = - (2 ^ 31)\<rparr>,
            Some \<lparr>sl_mem = encode_var_int32 (2 ^ 31), sl_p = 5, sl_len = - (2 ^ 31)\<rparr>)"
proof -
  have l: "length (encode_fixed32 v) = 4" "length (encode_fixed64 w) = 8" by (simp_all add: encode_fixed32_def encode_fixed64_def)
  have f: "decode_fixed32 (encode_fixed32 v @ r) = Some v" "decode_fixed64 (encode_fixed64 w @ r) = Some w"
    using word32_of_bytes [of v] word64_of_bytes [of w]
    by (simp_all add: decode_fixed32_def encode_fixed32_def decode_fixed64_def encode_fixed64_def get_at_def)
  have g: "get_length_prefixed_slice \<lparr>sl_mem = encode_var_int32 (2 ^ 31), sl_p = 0, sl_len = 5\<rparr>
        = Some (\<lparr>sl_mem = encode_var_int32 (2 ^ 31), sl_p = 5 + 2 ^ 31, sl_len = - (2 ^ 31)\<rparr>,
            Some \<lparr>sl_mem = encode_var_int32 (2 ^ 31), sl_p = 5, sl_len = - (2 ^ 31)\<rparr>)"
  proof -
    let ?v = "2 ^ 31 :: u32" and ?a = "\<lparr>sl_mem = encode_var_int32 (2 ^ 31), sl_p = 0, sl_len = 5\<rparr>"
    have e: "length (encode_var_int32 ?v) = 5" by (simp add: encode_var_int32_def)
    then have "slice_ok ?a" "slice_val ?a = encode_var_int32 ?v @ []" by (simp_all add: slice_ok_def slice_val_def)
    from get_var_int32_ok [OF this [unfolded encode_var_int32_venc], folded encode_var_int32_venc] have "get_var_int32 ?a = Some (\<lparr>sl_mem = encode_var_int32 (2 ^ 31), sl_p = 5, sl_len = 0\<rparr>, Some ?v)"
      using e by simp
    moreover have "to_int (uint ?v) = - (2 ^ 31)" "to_int (- (2 ^ 31)) = - (2 ^ 31)" by (simp_all add: to_int_def)
    ultimately show ?thesis unfolding get_length_prefixed_slice_def by (simp add: slice_remove_prefix_def)
  qed
  show ?thesis
    using sds_cat_binary [OF assms(1,2), of "encode_fixed32 v" junk] sds_cat_binary [OF assms(1,2), of "encode_fixed64 w" junk] assms(3) l f g
    by (simp add: sds_append_fixed32_def sds_append_fixed64_def)
qed

theorem fixed_append_and_prefix_faults_witness:
  "\<exists>s. sds_ok s \<and> sds_append_fixed32 (\<lambda>n. n) (\<lambda>_. 0) s 0x01020304 = None
     \<and> (\<exists>s'. sds_append_fixed32 (\<lambda>n. n) (\<lambda>_. 0) s 258 = Some s' \<and> sds_val s' = sds_val s @ [2, 1])"
proof -
  have u: "usable_ok (\<lambda>n. n)" by (simp add: usable_ok_def)
  obtain s where s: "sds_ok s" "sds_val s = []" using sds_new_len_ok [OF u, of 0 "[]" "\<lambda>_. 0"] by auto
  then have l: "s_len s + 8 < 2 ^ 63" using length_sds_val [OF s(1)] by simp
  have "encode_fixed32 0x01020304 = [4, 3, 2, 1]" "encode_fixed32 258 = [2, 1, 0, 0]" by (simp_all add: encode_fixed32_def)
  then show ?thesis
    using fixed_append_and_prefix_faults [OF u s(1) l, where v = "0x01020304" and junk = "\<lambda>_. 0"]
      fixed_append_and_prefix_faults [OF u s(1) l, where v = 258 and junk = "\<lambda>_. 0"] s(1)
    by (intro exI [of _ s]) simp
qed

end
