(* ===== verification/AvlTree.thy ===== *)
theory AvlTree
  imports Cmp IterSpec
begin

text \<open>
  \<open>src/tree/avl_tree.c\<close> and \<open>src/set/avl_set.c\<close>: a binary search tree with stored heights and rotations.
  The nodes form a tree and are not shared, so that a node is a value of the datatype below; the value
  field stands for what a client's \<open>create_node\<close> keeps behind the node. The \<open>max\<close> macro is expanded
  textually, without parentheses, as the preprocessor does it.
\<close>

section \<open>Nodes, heights and rotations\<close>

datatype ('k, 'v) avl_node =
  NULL_node
| Node (left: "('k, 'v) avl_node") (key: 'k) (val: 'v) (height: int) (right: "('k, 'v) avl_node")
where
  "left NULL_node = NULL_node"
| "right NULL_node = NULL_node"

fun avl_node_get_height :: "('k, 'v) avl_node \<Rightarrow> int" where
  "avl_node_get_height NULL_node = 0"
| "avl_node_get_height (Node l k v h r) = h"

text \<open>\<open>1 + max(a, b)\<close> is \<open>1 + a < b? b: a\<close>, and \<open>max(a, b) + 1\<close> is \<open>a < b? b: a + 1\<close>.\<close>

definition one_plus_max :: "int \<Rightarrow> int \<Rightarrow> int" where "one_plus_max a b = (if 1 + a < b then b else a)"
definition max_plus_one :: "int \<Rightarrow> int \<Rightarrow> int" where "max_plus_one a b = (if a < b then b else a + 1)"

fun get_balance :: "('k, 'v) avl_node \<Rightarrow> int" where
  "get_balance NULL_node = 0"
| "get_balance (Node l k v h r) = avl_node_get_height l - avl_node_get_height r"

fun rotate_right :: "('k, 'v) avl_node \<Rightarrow> ('k, 'v) avl_node option" where
  "rotate_right (Node (Node xl xk xv xh T2) yk yv yh yr) =
     (let y = Node T2 yk yv (max_plus_one (avl_node_get_height T2) (avl_node_get_height yr)) yr
      in Some (Node xl xk xv (max_plus_one (avl_node_get_height xl) (avl_node_get_height y)) y))"
| "rotate_right _ = None"

fun rotate_left :: "('k, 'v) avl_node \<Rightarrow> ('k, 'v) avl_node option" where
  "rotate_left (Node xl xk xv xh (Node T2 yk yv yh yr)) =
     (let x = Node xl xk xv (max_plus_one (avl_node_get_height xl) (avl_node_get_height T2)) T2
      in Some (Node x yk yv (max_plus_one (avl_node_get_height x) (avl_node_get_height yr)) yr))"
| "rotate_left _ = None"

text \<open>The key of a child that the code dereferences.\<close>

fun child_key :: "('k, 'v) avl_node \<Rightarrow> 'k option" where
  "child_key NULL_node = None"
| "child_key (Node l k v h r) = Some k"

section \<open>Insertion\<close>

text \<open>What follows the recursive call: the height and the four cases.\<close>

fun insert_rebalance :: "('k \<Rightarrow> 'k \<Rightarrow> int) \<Rightarrow> 'k \<Rightarrow> ('k, 'v) avl_node \<Rightarrow> ('k, 'v) avl_node option" where
  "insert_rebalance operator ky NULL_node = None"
| "insert_rebalance operator ky (Node l k v h r) =
     (let node = Node l k v (one_plus_max (avl_node_get_height l) (avl_node_get_height r)) r;
          balance = get_balance node
      in if balance > 1 then do {
           lk \<leftarrow> child_key l;
           if operator ky lk > 0 then rotate_right node
           else if operator ky lk < 0 then do {
             l \<leftarrow> rotate_left l;
             rotate_right (Node l k v (height node) r)
           }
           else Some node
         }
         else if balance < - 1 then do {
           rk \<leftarrow> child_key r;
           if operator ky rk < 0 then rotate_left node
           else if operator ky rk > 0 then do {
             r \<leftarrow> rotate_right r;
             rotate_left (Node l k v (height node) r)
           }
           else Some node
         }
         else Some node)"

fun avl_node_insert ::
  "('k \<Rightarrow> 'k \<Rightarrow> int) \<Rightarrow> 'k \<Rightarrow> 'v \<Rightarrow> ('k, 'v) avl_node \<Rightarrow> (('k, 'v) avl_node \<times> int) option" where
  "avl_node_insert operator ky value NULL_node = Some (Node NULL_node ky value 1 NULL_node, 1)"
| "avl_node_insert operator ky value (Node l k v h r) =
     (let cmp = operator ky k in
      do {
        (node, puted) \<leftarrow>
          (if cmp < 0 then map_option (\<lambda>(l, puted). (Node l k v h r, puted)) (avl_node_insert operator ky value l)
           else if cmp > 0 then map_option (\<lambda>(r, puted). (Node l k v h r, puted)) (avl_node_insert operator ky value r)
           else Some (Node l k value h r, 0));
        node \<leftarrow> insert_rebalance operator ky node;
        Some (node, puted)
      })"

definition avl_tree_put ::
  "('k \<Rightarrow> 'k \<Rightarrow> int) \<Rightarrow> ('k, 'v) avl_node \<Rightarrow> 'k \<Rightarrow> 'v \<Rightarrow> (('k, 'v) avl_node \<times> int) option" where
  "avl_tree_put operator root ky value = avl_node_insert operator ky value root"

section \<open>Lookup\<close>

fun avl_node_search :: "('k \<Rightarrow> 'k \<Rightarrow> int) \<Rightarrow> ('k, 'v) avl_node \<Rightarrow> 'k \<Rightarrow> ('k, 'v) avl_node" where
  "avl_node_search operator NULL_node ky = NULL_node"
| "avl_node_search operator (Node l k v h r) ky =
     (let result = operator k ky in
      if result = 0 then Node l k v h r
      else if result < 0 then avl_node_search operator l ky
      else avl_node_search operator r ky)"

definition avl_tree_get :: "('k \<Rightarrow> 'k \<Rightarrow> int) \<Rightarrow> ('k, 'v) avl_node \<Rightarrow> 'k \<Rightarrow> ('k, 'v) avl_node" where
  "avl_tree_get operator root ky = avl_node_search operator root ky"

fun find_min_value_node :: "('k, 'v) avl_node \<Rightarrow> ('k, 'v) avl_node" where
  "find_min_value_node NULL_node = NULL_node"
| "find_min_value_node (Node l k v h r) = (if l = NULL_node then Node l k v h r else find_min_value_node l)"

definition avl_tree_get_min :: "('k, 'v) avl_node \<Rightarrow> ('k, 'v) avl_node" where
  "avl_tree_get_min root = find_min_value_node root"

section \<open>Removal\<close>

fun delete_rebalance :: "('k, 'v) avl_node \<Rightarrow> ('k, 'v) avl_node option" where
  "delete_rebalance NULL_node = Some NULL_node"
| "delete_rebalance (Node l k v h r) =
     (let node = Node l k v (one_plus_max (avl_node_get_height l) (avl_node_get_height r)) r;
          balance = get_balance node
      in if balance > 1 \<and> get_balance l \<ge> 0 then rotate_right node
         else if balance > 1 \<and> get_balance l < 0 then do {
           l \<leftarrow> rotate_left l; rotate_right (Node l k v (height node) r)
         }
         else if balance < - 1 \<and> get_balance r \<le> 0 then rotate_left node
         else if balance < - 1 \<and> get_balance r > 0 then do {
           r \<leftarrow> rotate_right r; rotate_left (Node l k v (height node) r)
         }
         else Some node)"

text \<open>\<open>*node = *temp\<close> copies the fields of \<open>avl_node_t\<close>: the key, the children and the height, and not the
  value behind them. The second component is \<open>*deleted\<close>. The trees are values: \<open>release_node\<close>, which after such a copy
  frees the key that the copy still holds, has no counterpart.\<close>

function delete_child_node ::
  "('k \<Rightarrow> 'k \<Rightarrow> int) \<Rightarrow> ('k, 'v) avl_node \<Rightarrow> 'k \<Rightarrow> int \<Rightarrow> (('k, 'v) avl_node \<times> int) option" where
  "delete_child_node operator NULL_node ky deleted = Some (NULL_node, deleted)"
| "delete_child_node operator (Node l k v h r) ky deleted =
     (let result = operator ky k in
      do {
        (node, deleted) \<leftarrow>
          (if result > 0 then map_option (\<lambda>(l, d). (Node l k v h r, d)) (delete_child_node operator l ky deleted)
           else if result < 0 then map_option (\<lambda>(r, d). (Node l k v h r, d)) (delete_child_node operator r ky deleted)
           else if l = NULL_node \<or> r = NULL_node then
             (case if l \<noteq> NULL_node then l else r of
                NULL_node \<Rightarrow> Some (NULL_node, 1)
              | Node t1 tk tv th t2 \<Rightarrow> Some (Node t1 tk v th t2, 1))
           else do {
             tk \<leftarrow> child_key (find_min_value_node r);
             map_option (\<lambda>(r, d). (Node l tk v h r, d)) (delete_child_node operator r tk deleted)
           });
        node \<leftarrow> delete_rebalance node;
        Some (node, deleted)
      })"
  by pat_completeness auto

termination
  by (relation "measure (\<lambda>(_, n, _, _). size n)") auto

definition avl_tree_remove :: "('k \<Rightarrow> 'k \<Rightarrow> int) \<Rightarrow> ('k, 'v) avl_node \<Rightarrow> 'k \<Rightarrow> (('k, 'v) avl_node \<times> int) option" where
  "avl_tree_remove operator root ky = delete_child_node operator root ky 0"

fun node_length :: "('k, 'v) avl_node \<Rightarrow> int" where
  "node_length NULL_node = 0"
| "node_length (Node l k v h r) = 1 + node_length l + node_length r"

definition avl_tree_size :: "('k, 'v) avl_node \<Rightarrow> int" where "avl_tree_size root = node_length root"

section \<open>The iterator\<close>

text \<open>The stack of the iterator: \<open>stack ! 0\<close> is its bottom and its length is \<open>top\<close>; \<open>stackSize\<close> slots are
  allocated.\<close>

record ('k, 'v) avl_tree_iterator =
  stack :: "('k, 'v) avl_node list"
  stackSize :: nat

fun push_left :: "('k, 'v) avl_node \<Rightarrow> ('k, 'v) avl_tree_iterator \<Rightarrow> ('k, 'v) avl_tree_iterator option" where
  "push_left NULL_node it = Some it"
| "push_left (Node l k v h r) it =
     (if length (stack it) \<ge> stackSize it then None
      else let it = it\<lparr>stack := stack it @ [Node l k v h r]\<rparr>;
               it = (if length (stack it) = stackSize it then it\<lparr>stackSize := 2 * stackSize it\<rparr> else it)
           in push_left l it)"

definition avl_tree_iterator_new :: "('k, 'v) avl_node \<Rightarrow> ('k, 'v) avl_tree_iterator option" where
  "avl_tree_iterator_new root = push_left root \<lparr>stack = [], stackSize = 16\<rparr>"

text \<open>The pair of the element; the value is \<open>NULL\<close> when the type has no \<open>get_value\<close>.\<close>

definition avl_tree_iterator_next ::
  "(('k, 'v) avl_node \<Rightarrow> 'v) option \<Rightarrow> ('k, 'v) avl_tree_iterator
     \<Rightarrow> (('k, 'v) avl_tree_iterator \<times> ('k \<times> 'v option) option) option" where
  "avl_tree_iterator_next get_value it =
     (if stack it = [] then Some (it, None)
      else case last (stack it) of
          NULL_node \<Rightarrow> None
        | Node l k v h r \<Rightarrow> do {
            it \<leftarrow> push_left r (it\<lparr>stack := butlast (stack it)\<rparr>);
            Some (it, Some (k, map_option (\<lambda>g. g (Node l k v h r)) get_value))
          })"

definition avl_tree_iterator_has_next :: "('k, 'v) avl_tree_iterator \<Rightarrow> (('k, 'v) avl_tree_iterator \<times> bool) option" where
  "avl_tree_iterator_has_next it = Some (it, stack it \<noteq> [])"

definition avl_tree_iterator_tType ::
  "(('k, 'v) avl_node \<Rightarrow> 'v) option \<Rightarrow> (('k, 'v) avl_tree_iterator, ('k \<times> 'v option) option) latte_iterator_func" where
  "avl_tree_iterator_tType get_value =
     \<lparr>it_has_next = avl_tree_iterator_has_next, it_next = avl_tree_iterator_next get_value\<rparr>"

definition avl_tree_get_iterator ::
  "(('k, 'v) avl_node \<Rightarrow> 'v) option \<Rightarrow> ('k, 'v) avl_node
     \<Rightarrow> (('k, 'v) avl_tree_iterator, ('k \<times> 'v option) option) latte_iterator option" where
  "avl_tree_get_iterator get_value root =
     map_option (latte_iterator_new (avl_tree_iterator_tType get_value)) (avl_tree_iterator_new root)"

section \<open>The set\<close>

definition avl_set_add :: "('k \<Rightarrow> 'k \<Rightarrow> int) \<Rightarrow> ('k, unit) avl_node \<Rightarrow> 'k \<Rightarrow> (('k, unit) avl_node \<times> int) option" where
  "avl_set_add operator root ky = avl_tree_put operator root ky ()"

definition avl_set_contains :: "('k \<Rightarrow> 'k \<Rightarrow> int) \<Rightarrow> ('k, unit) avl_node \<Rightarrow> 'k \<Rightarrow> int" where
  "avl_set_contains operator root ky = (if avl_tree_get operator root ky = NULL_node then 0 else 1)"

section \<open>The tree as a sorted list\<close>

fun inorder :: "('k, 'v) avl_node \<Rightarrow> ('k \<times> 'v) list" where
  "inorder NULL_node = []"
| "inorder (Node l k v h r) = inorder l @ (k, v) # inorder r"

text \<open>Because of the macro no stored height ever exceeds 1.\<close>

fun low :: "('k, 'v) avl_node \<Rightarrow> bool" where
  "low NULL_node \<longleftrightarrow> True"
| "low (Node l k v h r) \<longleftrightarrow> (h = 0 \<or> h = 1) \<and> low l \<and> low r"

lemma low_height: "low t \<Longrightarrow> avl_node_get_height t = 0 \<or> avl_node_get_height t = 1"
  by (cases t) auto

lemma one_plus_max_low:
  "low l \<Longrightarrow> low r \<Longrightarrow> one_plus_max (avl_node_get_height l) (avl_node_get_height r) = avl_node_get_height l"
  using low_height [of l] low_height [of r] by (auto simp: one_plus_max_def)

text \<open>No rotation is ever made.\<close>

lemma insert_rebalance_low:
  "low l \<Longrightarrow> low r \<Longrightarrow> insert_rebalance operator ky (Node l k v h r) = Some (Node l k v (avl_node_get_height l) r)"
  using low_height [of l] low_height [of r] by (auto simp: one_plus_max_low)

lemma delete_rebalance_low:
  "low l \<Longrightarrow> low r \<Longrightarrow> delete_rebalance (Node l k v h r) = Some (Node l k v (avl_node_get_height l) r)"
  using low_height [of l] low_height [of r] by (auto simp: one_plus_max_low)

declare insert_rebalance.simps(2) [simp del] delete_rebalance.simps(2) [simp del]

fun upd_list :: "('k \<Rightarrow> 'k \<Rightarrow> int) \<Rightarrow> 'k \<Rightarrow> 'v \<Rightarrow> ('k \<times> 'v) list \<Rightarrow> ('k \<times> 'v) list" where
  "upd_list cmp k v [] = [(k, v)]"
| "upd_list cmp k v ((a, b) # xs) =
     (if cmp k a < 0 then (k, v) # (a, b) # xs else if cmp k a > 0 then (a, b) # upd_list cmp k v xs else (a, v) # xs)"

context comparator
begin

definition sorted_keys :: "('a \<times> 'v) list \<Rightarrow> bool" where
  "sorted_keys xs \<longleftrightarrow> sorted_wrt (\<lambda>x y. cmp (fst x) (fst y) < 0) xs"

lemma less_iff: "cmp a b < 0 \<longleftrightarrow> cmp b a > 0"
  using cmp_sym [of b a] by linarith

lemma less_not_le: "cmp a b < 0 \<longleftrightarrow> \<not> cmp b a \<le> 0"
  using cmp_sym [of b a] by linarith

lemma eq_le: "cmp a b = 0 \<Longrightarrow> cmp a b \<le> 0 \<and> cmp b a \<le> 0"
  using cmp_sym [of b a] by linarith

lemma less_trans: "cmp a b < 0 \<Longrightarrow> cmp b c < 0 \<Longrightarrow> cmp a c < 0"
  by (meson cmp_trans less_not_le not_le)

lemma eq_less_trans: "cmp a b = 0 \<Longrightarrow> cmp b c < 0 \<Longrightarrow> cmp a c < 0"
  by (meson cmp_trans less_not_le eq_le)

lemma less_eq_trans: "cmp a b < 0 \<Longrightarrow> cmp b c = 0 \<Longrightarrow> cmp a c < 0"
  by (meson cmp_trans less_not_le eq_le)

lemma sorted_keys_simps [simp]:
  "sorted_keys []" "sorted_keys (x # xs) \<longleftrightarrow> (\<forall>y \<in> set xs. cmp (fst x) (fst y) < 0) \<and> sorted_keys xs"
  "sorted_keys (xs @ ys) \<longleftrightarrow> sorted_keys xs \<and> sorted_keys ys \<and> (\<forall>x \<in> set xs. \<forall>y \<in> set ys. cmp (fst x) (fst y) < 0)"
  by (auto simp: sorted_keys_def sorted_wrt_append)

lemma upd_list_app:
  "sorted_keys (xs @ (a, b) # ys) \<Longrightarrow> upd_list cmp k v (xs @ (a, b) # ys) =
     (if cmp k a < 0 then upd_list cmp k v xs @ (a, b) # ys else xs @ upd_list cmp k v ((a, b) # ys))"
proof (induction xs)
  case (Cons x xs)
  obtain c d where x: "x = (c, d)" by (cases x)
  have ca: "cmp c a < 0" using Cons.prems x by simp
  show ?case
  proof (cases "cmp k a < 0")
    case True
    then show ?thesis using Cons x by auto
  next
    case False
    then have "cmp a k \<le> 0" using cmp_sym [of a k] by linarith
    have "cmp c k < 0"
    proof (cases "cmp a k = 0")
      case True
      then show ?thesis using less_eq_trans [OF ca] by blast
    next
      case f: False
      then show ?thesis using less_trans [OF ca, of k] \<open>cmp a k \<le> 0\<close> by linarith
    qed
    then have "cmp k c > 0" using less_iff by blast
    then show ?thesis using Cons x False by auto
  qed
qed auto

lemma fst_upd_list: "set (map fst (upd_list cmp k v xs)) \<subseteq> insert k (set (map fst xs))"
  by (induction xs rule: upd_list.induct [of _ cmp k v]) auto

lemma sorted_upd_list: "sorted_keys xs \<Longrightarrow> sorted_keys (upd_list cmp k v xs)"
proof (induction xs)
  case (Cons x xs)
  obtain a b where x: "x = (a, b)" by (cases x)
  have s: "sorted_keys (upd_list cmp k v xs)" using Cons by simp
  consider "cmp k a < 0" | "cmp k a > 0" | "cmp k a = 0" by linarith
  then show ?case
  proof cases
    case 1
    then show ?thesis using Cons.prems x less_trans [OF 1] by auto
  next
    case 2
    then have "cmp a k < 0" using less_iff by blast
    moreover have "cmp a (fst y) < 0 \<or> fst y = k" if "y \<in> set (upd_list cmp k v xs)" for y
      using fst_upd_list [of k v xs] that Cons.prems x by force
    ultimately show ?thesis using 2 s x by auto
  next
    case 3
    then show ?thesis using Cons.prems x by auto
  qed
qed auto

text \<open>Insertion is the update of the sorted list.\<close>

lemma insert_sorted:
  "low t \<Longrightarrow> sorted_keys (inorder t) \<Longrightarrow>
     \<exists>t'. avl_node_insert cmp ky vl t = Some (t', if \<exists>x \<in> set (inorder t). cmp ky (fst x) = 0 then 0 else 1)
       \<and> low t' \<and> inorder t' = upd_list cmp ky vl (inorder t)"
proof (induction t)
  case (Node l k v h r)
  have sl: "low l" "low r" "sorted_keys (inorder l)" "sorted_keys (inorder r)" using Node.prems by simp_all
  have lk: "\<forall>x \<in> set (inorder l). cmp (fst x) k < 0" "\<forall>x \<in> set (inorder r). cmp k (fst x) < 0" using Node.prems by auto
  note app = upd_list_app [OF Node.prems(2) [unfolded inorder.simps], of ky vl]
  have nl: "\<not> (\<exists>x \<in> set (inorder l). cmp ky (fst x) = 0)" if "\<not> cmp ky k < 0"
  proof
    assume "\<exists>x \<in> set (inorder l). cmp ky (fst x) = 0"
    then obtain x where "x \<in> set (inorder l)" "cmp ky (fst x) = 0" by blast
    then show False using eq_less_trans [of ky "fst x" k] lk(1) that by blast
  qed
  have nr: "\<not> (\<exists>x \<in> set (inorder r). cmp ky (fst x) = 0)" if "\<not> cmp ky k > 0"
  proof
    assume "\<exists>x \<in> set (inorder r). cmp ky (fst x) = 0"
    then obtain x where x: "x \<in> set (inorder r)" "cmp ky (fst x) = 0" by blast
    then have "cmp (fst x) ky = 0" using cmp_zero_sym by blast
    then have "cmp k ky < 0" using less_eq_trans [of k "fst x" ky] lk(2) x(1) by blast
    then show False using that less_iff [of k ky] by blast
  qed
  consider "cmp ky k < 0" | "cmp ky k > 0" | "cmp ky k = 0" by linarith
  then show ?case
  proof cases
    case 1
    then have p: "(\<exists>x \<in> set (inorder (Node l k v h r)). cmp ky (fst x) = 0) \<longleftrightarrow> (\<exists>x \<in> set (inorder l). cmp ky (fst x) = 0)"
      using nr by auto
    from Node.IH(1) [OF sl(1,3)] obtain t1 where
      "avl_node_insert cmp ky vl l = Some (t1, if \<exists>x \<in> set (inorder l). cmp ky (fst x) = 0 then 0 else 1)"
      "low t1" "inorder t1 = upd_list cmp ky vl (inorder l)" by blast
    then show ?thesis unfolding p using 1 app sl low_height [of t1] by (simp add: insert_rebalance_low)
  next
    case 2
    then have p: "(\<exists>x \<in> set (inorder (Node l k v h r)). cmp ky (fst x) = 0) \<longleftrightarrow> (\<exists>x \<in> set (inorder r). cmp ky (fst x) = 0)"
      using nl by auto
    from Node.IH(2) [OF sl(2,4)] obtain t1 where
      "avl_node_insert cmp ky vl r = Some (t1, if \<exists>x \<in> set (inorder r). cmp ky (fst x) = 0 then 0 else 1)"
      "low t1" "inorder t1 = upd_list cmp ky vl (inorder r)" by blast
    then show ?thesis unfolding p using 2 app sl low_height [OF sl(1)] by (simp add: insert_rebalance_low)
  next
    case 3
    then have p: "\<exists>x \<in> set (inorder (Node l k v h r)). cmp ky (fst x) = 0" by simp
    then show ?thesis using 3 app sl low_height [OF sl(1)] by (simp add: insert_rebalance_low)
  qed
qed simp

text \<open>Lookup takes the wrong turn at every node.\<close>

lemma search_absent: "\<forall>x \<in> set (inorder t). cmp (fst x) ky \<noteq> 0 \<Longrightarrow> avl_node_search cmp t ky = NULL_node"
  by (induction t) (auto simp: Let_def)

lemma search_root:
  assumes "sorted_keys (inorder (Node l k v h r))"
  shows "avl_node_search cmp (Node l k v h r) ky = (if cmp k ky = 0 then Node l k v h r else NULL_node)"
proof -
  have lk: "\<forall>x \<in> set (inorder l). cmp (fst x) k < 0" "\<forall>x \<in> set (inorder r). cmp k (fst x) < 0" using assms by auto
  consider "cmp k ky < 0" | "cmp k ky > 0" | "cmp k ky = 0" by linarith
  then show ?thesis
  proof cases
    case 1
    then have "\<forall>x \<in> set (inorder l). cmp (fst x) ky \<noteq> 0" using lk(1) less_trans by fastforce
    then show ?thesis using 1 by (simp add: search_absent)
  next
    case 2
    then have "cmp ky k < 0" using less_iff by blast
    then have "\<forall>x \<in> set (inorder r). cmp (fst x) ky \<noteq> 0" using lk(2) less_trans cmp_zero_sym by fastforce
    then show ?thesis using 2 by (simp add: search_absent)
  qed simp
qed

lemma delete_absent:
  "low t \<Longrightarrow> \<forall>x \<in> set (inorder t). cmp ky (fst x) \<noteq> 0 \<Longrightarrow>
     \<exists>t'. delete_child_node cmp t ky d = Some (t', d) \<and> low t' \<and> inorder t' = inorder t"
proof (induction t)
  case (Node l k v h r)
  have sl: "low l" "low r" using Node.prems by simp_all
  from Node obtain l' r' where
    "delete_child_node cmp l ky d = Some (l', d)" "low l'" "inorder l' = inorder l"
    "delete_child_node cmp r ky d = Some (r', d)" "low r'" "inorder r' = inorder r" by auto
  note ih = this
  have "cmp ky k \<noteq> 0" using Node.prems by simp
  then consider "cmp ky k > 0" | "cmp ky k < 0" by linarith
  then show ?case
  proof cases
    case 1
    then show ?thesis using ih sl low_height [OF ih(2)] by (simp add: delete_rebalance_low)
  next
    case 2
    then show ?thesis using ih sl low_height [OF sl(1)] by (simp add: delete_rebalance_low)
  qed
qed simp

lemma find_min_inorder: "t \<noteq> NULL_node \<Longrightarrow> \<exists>l k v h r. find_min_value_node t = Node l k v h r \<and> fst (hd (inorder t)) = k"
proof (induction t)
  case (Node l k v h r)
  show ?case
  proof (cases l)
    case (Node l1 k1 v1 h1 r1)
    then have "inorder l \<noteq> []" "l \<noteq> NULL_node" by simp_all
    with Node.IH(1) show ?thesis by auto
  qed simp
qed simp

text \<open>Removal, in all its cases.\<close>

lemma delete_at_root:
  assumes t: "low (Node l k v h r)" "sorted_keys (inorder (Node l k v h r))" and eq: "cmp ky k = 0"
  shows "\<exists>t'. delete_child_node cmp (Node l k v h r) ky 0
      = Some (t', if l = NULL_node \<or> r = NULL_node \<or> left r = NULL_node then 1 else 0)
    \<and> map fst (inorder t') = map fst (inorder l)
        @ (if l = NULL_node \<or> r = NULL_node \<or> left r = NULL_node then [] else [fst (hd (inorder r))]) @ map fst (inorder r)"
proof (cases "l = NULL_node \<or> r = NULL_node")
  case True
  have sl: "low l" "low r" using t by simp_all
  show ?thesis
  proof (cases "if l \<noteq> NULL_node then l else r")
    case NULL_node
    then show ?thesis using True eq by (auto split: if_splits)
  next
    case (Node t1 tk tv th t2)
    then have "low t1" "low t2" using sl by (auto split: if_splits)
    with Node True eq show ?thesis by (auto simp: delete_rebalance_low split: if_splits)
  qed
next
  case False
  then obtain rl rk rv rh rr where r: "r = Node rl rk rv rh rr" by (cases r) auto
  have sl: "low l" "low r" "low rl" "low rr" using t r by simp_all
  from find_min_inorder [of r] r obtain tk where tk: "child_key (find_min_value_node r) = Some tk" "fst (hd (inorder r)) = tk" by auto
  show ?thesis
  proof (cases rl)
    case NULL_node
    then have "tk = rk" using tk r by simp
    show ?thesis
    proof (cases rr)
      case (Node t1 k1 v1 h1 t2)
      then have "low t1" "low t2" using sl by auto
      then show ?thesis using NULL_node False eq r \<open>tk = rk\<close> sl low_height [OF sl(1)] low_height [OF \<open>low t1\<close>] Node
        by (simp add: delete_rebalance_low cmp_refl)
    qed (use NULL_node False eq r \<open>tk = rk\<close> sl low_height [OF sl(1)] in \<open>simp add: delete_rebalance_low cmp_refl\<close>)
  next
    case (Node a b c d e)
    have "inorder rl \<noteq> []" using Node by simp
    then have "hd (inorder r) \<in> set (inorder rl)" using r by simp
    then have less: "cmp tk rk < 0" using t(2) r tk(2) by force
    have "\<forall>x \<in> set (inorder rr). cmp rk (fst x) < 0" using t(2) r by auto
    then have "\<forall>x \<in> set (inorder rr). cmp tk (fst x) \<noteq> 0" using less less_trans by fastforce
    from delete_absent [OF sl(4) this, of 0] obtain rr' where
      rr': "delete_child_node cmp rr tk 0 = Some (rr', 0)" "low rr'" "inorder rr' = inorder rr" by blast
    then have "delete_child_node cmp r tk 0 = Some (Node rl rk rv (avl_node_get_height rl) rr', 0)"
      using less r sl by (simp add: delete_rebalance_low)
    then show ?thesis using False eq tk r rr' sl Node low_height [OF sl(3)]
      by (simp add: delete_rebalance_low)
  qed
qed

lemma delete_not_root:
  assumes t: "low (Node l k v h r)" "sorted_keys (inorder (Node l k v h r))" and ne: "cmp ky k \<noteq> 0"
  shows "\<exists>t'. delete_child_node cmp (Node l k v h r) ky 0 = Some (t', 0) \<and> inorder t' = inorder (Node l k v h r)"
proof -
  have sl: "low l" "low r" using t by simp_all
  have lk: "\<forall>x \<in> set (inorder l). cmp (fst x) k < 0" "\<forall>x \<in> set (inorder r). cmp k (fst x) < 0" using t by auto
  consider "cmp ky k > 0" | "cmp ky k < 0" using ne by linarith
  then show ?thesis
  proof cases
    case 1
    then have "cmp k ky < 0" using less_iff by blast
    then have "\<forall>x \<in> set (inorder l). cmp ky (fst x) \<noteq> 0" using lk(1) less_trans cmp_zero_sym by fastforce
    from delete_absent [OF sl(1) this, of 0] 1 sl show ?thesis by (auto simp: delete_rebalance_low)
  next
    case 2
    then have "\<forall>x \<in> set (inorder r). cmp ky (fst x) \<noteq> 0" using lk(2) less_trans by fastforce
    from delete_absent [OF sl(2) this, of 0] 2 sl show ?thesis by (auto simp: delete_rebalance_low)
  qed
qed

end

section \<open>The iterator visits the tree in order\<close>

fun nodes :: "('k, 'v) avl_node \<Rightarrow> ('k, 'v) avl_node list" where
  "nodes NULL_node = []"
| "nodes (Node l k v h r) = nodes l @ Node l k v h r # nodes r"

definition avl_it_ok :: "('k, 'v) avl_tree_iterator \<Rightarrow> bool" where
  "avl_it_ok it \<longleftrightarrow> length (stack it) < stackSize it \<and> NULL_node \<notin> set (stack it)"

definition avl_elem :: "(('k, 'v) avl_node \<Rightarrow> 'v) option \<Rightarrow> ('k, 'v) avl_node \<Rightarrow> ('k \<times> 'v option) option" where
  "avl_elem get_value n = Some (key n, map_option (\<lambda>g. g n) get_value)"

definition avl_rest :: "(('k, 'v) avl_node \<Rightarrow> 'v) option \<Rightarrow> ('k, 'v) avl_tree_iterator \<Rightarrow> ('k \<times> 'v option) option list" where
  "avl_rest get_value it = map (avl_elem get_value) (concat (map (\<lambda>n. n # nodes (right n)) (rev (stack it))))"

lemma push_left_ok:
  "avl_it_ok it \<Longrightarrow> \<exists>it'. push_left t it = Some it' \<and> avl_it_ok it'
     \<and> avl_rest gv it' = map (avl_elem gv) (nodes t) @ avl_rest gv it"
proof (induction t arbitrary: it)
  case (Node l k v h r)
  define it1 where "it1 = (let it = it\<lparr>stack := stack it @ [Node l k v h r]\<rparr>
    in if length (stack it) = stackSize it then it\<lparr>stackSize := 2 * stackSize it\<rparr> else it)"
  have ok: "avl_it_ok it1" "stack it1 = stack it @ [Node l k v h r]"
    using Node.prems by (auto simp: avl_it_ok_def it1_def Let_def)
  have "push_left (Node l k v h r) it = push_left l it1" using Node.prems by (simp add: avl_it_ok_def it1_def Let_def)
  with Node.IH(1) [OF ok(1)] show ?case by (auto simp: avl_rest_def ok(2))
qed simp

interpretation avl_iter: iterator_impl "avl_tree_iterator_tType get_value" avl_it_ok "\<lambda>_. True" "avl_rest get_value"
  for get_value
proof unfold_locales
  show "\<exists>it'. it_has_next (avl_tree_iterator_tType get_value) it = Some (it', avl_rest get_value it \<noteq> []) \<and> avl_it_ok it'
      \<and> avl_rest get_value it' = avl_rest get_value it \<and> (avl_rest get_value it \<noteq> [] \<longrightarrow> True)"
    if "avl_it_ok it" for it
    using that by (simp add: avl_tree_iterator_tType_def avl_tree_iterator_has_next_def avl_rest_def)
  show "\<exists>it'. it_next (avl_tree_iterator_tType get_value) it = Some (it', x) \<and> avl_it_ok it' \<and> avl_rest get_value it' = xs"
    if it: "avl_it_ok it" and r: "avl_rest get_value it = x # xs" for it x xs
  proof -
    have ne: "stack it \<noteq> []" using r by (auto simp: avl_rest_def)
    then obtain st n where st: "stack it = st @ [n]" by (metis rev_exhaust)
    then obtain l k v h r where n: "n = Node l k v h r" using it by (cases n) (auto simp: avl_it_ok_def)
    have ok: "avl_it_ok (it\<lparr>stack := st\<rparr>)" using it st by (simp add: avl_it_ok_def)
    from push_left_ok [OF ok, of r get_value] obtain it' where
      "push_left r (it\<lparr>stack := st\<rparr>) = Some it'" "avl_it_ok it'"
      "avl_rest get_value it' = map (avl_elem get_value) (nodes r) @ avl_rest get_value (it\<lparr>stack := st\<rparr>)" by blast
    then show ?thesis using \<open>avl_rest get_value it = x # xs\<close> st n
      by (auto simp: avl_tree_iterator_tType_def avl_tree_iterator_next_def avl_rest_def avl_elem_def)
  qed
qed

lemma map_nodes: "map (\<lambda>n. (key n, val n)) (nodes t) = inorder t"
  by (induction t) auto

lemma iterate_avl:
  "\<exists>it. avl_tree_get_iterator (Some val) t = Some it \<and> iterate_all it = Some (map (\<lambda>(k, v). Some (k, Some v)) (inorder t))"
proof -
  have "avl_it_ok \<lparr>stack = [], stackSize = 16\<rparr>" by (simp add: avl_it_ok_def)
  from push_left_ok [OF this, of t "Some val"] obtain it where
    it: "avl_tree_iterator_new t = Some it" "avl_it_ok it" "avl_rest (Some val) it = map (avl_elem (Some val)) (nodes t)"
    by (auto simp: avl_tree_iterator_new_def avl_rest_def)
  have e: "map (avl_elem (Some val)) (nodes t) = map (\<lambda>(k, v). Some (k, Some v)) (inorder t)"
    by (simp add: avl_elem_def flip: map_nodes)
  from avl_iter.iterate_all_rest [OF it(2), of "Some val"] it e show ?thesis
    by (simp add: avl_tree_get_iterator_def)
qed

section \<open>Properties\<close>

fun put_all :: "('k \<Rightarrow> 'k \<Rightarrow> int) \<Rightarrow> ('k, 'v) avl_node \<Rightarrow> ('k \<times> 'v) list \<Rightarrow> ('k, 'v) avl_node option" where
  "put_all operator root [] = Some root"
| "put_all operator root ((k, v) # kvs) = do { (root, _) \<leftarrow> avl_tree_put operator root k v; put_all operator root kvs }"

text \<open>Search trees without balancing: an insertion adds a leaf or replaces a value and moves no node.\<close>

datatype ('k, 'v) search_tree = Tip | Br "('k, 'v) search_tree" 'k 'v "('k, 'v) search_tree"

fun bst_put :: "('k \<Rightarrow> 'k \<Rightarrow> int) \<Rightarrow> 'k \<Rightarrow> 'v \<Rightarrow> ('k, 'v) search_tree \<Rightarrow> ('k, 'v) search_tree" where
  "bst_put operator ky value Tip = Br Tip ky value Tip"
| "bst_put operator ky value (Br l k v r) =
     (if operator ky k < 0 then Br (bst_put operator ky value l) k v r
      else if operator ky k > 0 then Br l k v (bst_put operator ky value r)
      else Br l k value r)"

fun shape :: "('k, 'v) avl_node \<Rightarrow> ('k, 'v) search_tree" where
  "shape NULL_node = Tip"
| "shape (Node l k v h r) = Br (shape l) k v (shape r)"

lemma shape_insert: "low t \<Longrightarrow> \<exists>t' p. avl_node_insert operator ky vl t = Some (t', p) \<and> low t' \<and> shape t' = bst_put operator ky vl (shape t)"
proof (induction t)
  case (Node l k v h r)
  then obtain l' r' p q where "avl_node_insert operator ky vl l = Some (l', p)" "low l'" "shape l' = bst_put operator ky vl (shape l)"
    "avl_node_insert operator ky vl r = Some (r', q)" "low r'" "shape r' = bst_put operator ky vl (shape r)" by auto
  with Node.prems show ?case
    using low_height [of l] low_height [of l'] by (auto simp: insert_rebalance_low Let_def)
qed simp

lemma shape_put_all: "low t \<Longrightarrow> put_all operator t kvs = Some t' \<Longrightarrow> shape t' = fold (\<lambda>(k, v). bst_put operator k v) kvs (shape t)"
proof (induction kvs arbitrary: t)
  case (Cons x kvs)
  obtain k v where x: "x = (k, v)" by (cases x)
  from shape_insert [OF Cons.prems(1), of operator k v] obtain t1 p where
    "avl_node_insert operator k v t = Some (t1, p)" "low t1" "shape t1 = bst_put operator k v (shape t)" by blast
  with Cons.IH [of t1] Cons.prems(2) x show ?case by (simp add: avl_tree_put_def)
qed simp

fun depth :: "('k, 'v) avl_node \<Rightarrow> nat" where
  "depth NULL_node = 0"
| "depth (Node l k v h r) = Suc (max (depth l) (depth r))"

text \<open>Trees that grow to the right only.\<close>

fun spine :: "('k, 'v) avl_node \<Rightarrow> bool" where
  "spine NULL_node \<longleftrightarrow> True"
| "spine (Node l k v h r) \<longleftrightarrow> l = NULL_node \<and> spine r"

lemma depth_spine: "spine t \<Longrightarrow> depth t = length (inorder t)"
  by (induction t) auto

lemma insert_spine:
  "low t \<Longrightarrow> spine t \<Longrightarrow> \<forall>x \<in> set (inorder t). operator ky (fst x) > 0 \<Longrightarrow>
     \<exists>t'. avl_node_insert operator ky vl t = Some (t', 1) \<and> low t' \<and> spine t' \<and> inorder t' = inorder t @ [(ky, vl)]"
proof (induction t)
  case (Node l k v h r)
  then obtain r' where "avl_node_insert operator ky vl r = Some (r', 1)" "low r'" "spine r'" "inorder r' = inorder r @ [(ky, vl)]"
    by auto
  with Node.prems show ?case by (auto simp: insert_rebalance_low Let_def)
qed simp

lemma put_all_spine:
  "low t \<Longrightarrow> spine t \<Longrightarrow> sorted_wrt (\<lambda>x y. operator (fst y) (fst x) > 0) (inorder t @ kvs) \<Longrightarrow>
     \<exists>t'. put_all operator t kvs = Some t' \<and> spine t' \<and> inorder t' = inorder t @ kvs"
proof (induction kvs arbitrary: t)
  case (Cons x kvs)
  obtain k v where x: "x = (k, v)" by (cases x)
  have "\<forall>y \<in> set (inorder t). operator k (fst y) > 0" using Cons.prems(3) x by (auto simp: sorted_wrt_append)
  with insert_spine [OF Cons.prems(1,2), of operator k v] obtain t' where
    t': "avl_node_insert operator k v t = Some (t', 1)" "low t'" "spine t'" "inorder t' = inorder t @ [(k, v)]" by auto
  with Cons.IH [OF t'(2,3)] Cons.prems(3) x show ?case by (auto simp: avl_tree_put_def)
qed simp

context comparator
begin

lemma put_all_sorted:
  "low t \<Longrightarrow> sorted_keys (inorder t) \<Longrightarrow>
     \<exists>t'. put_all cmp t kvs = Some t' \<and> low t' \<and> sorted_keys (inorder t')
       \<and> inorder t' = fold (\<lambda>(k, v). upd_list cmp k v) kvs (inorder t)"
proof (induction kvs arbitrary: t)
  case (Cons x kvs)
  obtain k v where x: "x = (k, v)" by (cases x)
  from insert_sorted [OF Cons.prems, of k v] obtain t' i where
    t': "avl_node_insert cmp k v t = Some (t', i)" "low t'" "inorder t' = upd_list cmp k v (inorder t)" by blast
  then have "sorted_keys (inorder t')" using sorted_upd_list [OF Cons.prems(2)] by simp
  with Cons.IH [OF t'(2)] t' x show ?case by (auto simp: avl_tree_put_def)
qed simp

lemma sorted_keys_eq: "sorted_keys xs = sorted_wrt (\<lambda>x y. cmp (fst x) (fst y) < 0) xs"
  by (simp add: sorted_keys_def)

end

text \<open>C13. For every comparator, a sequence of \<open>avl_tree_put\<close> on an empty tree never follows a null
  pointer, and the tree then holds the pairs in order: every put inserts its pair into the sorted list
  or replaces the value of an equal key, and tells which. The iterator returns exactly that list. The tree
  is never rebalanced, because the height macro lacks its parentheses and no stored height exceeds one: its shape is that of
  insertion into a plain search tree, which adds a leaf and moves no node, and ascending keys give a tree as deep as their
  number.\<close>

theorem avl_tree_put_sorted:
  assumes "comparator operator"
  shows "\<exists>t. put_all operator NULL_node kvs = Some t
    \<and> inorder t = fold (\<lambda>(k, v). upd_list operator k v) kvs []
    \<and> sorted_wrt (\<lambda>x y. operator (fst x) (fst y) < 0) (inorder t)
    \<and> (\<exists>t'. avl_tree_put operator t k v = Some (t', if \<exists>x \<in> set (inorder t). operator k (fst x) = 0 then 0 else 1)
         \<and> inorder t' = upd_list operator k v (inorder t))
    \<and> (\<exists>it. avl_tree_get_iterator (Some val) t = Some it
         \<and> iterate_all it = Some (map (\<lambda>(k, v). Some (k, Some v)) (inorder t)))
    \<and> shape t = fold (\<lambda>(k, v). bst_put operator k v) kvs Tip
    \<and> (sorted_wrt (\<lambda>x y. operator (fst y) (fst x) > 0) kvs \<longrightarrow> depth t = length kvs)"
proof -
  from comparator.put_all_sorted [OF assms, of NULL_node kvs] obtain t where
    t: "put_all operator NULL_node kvs = Some t" "low t" "comparator.sorted_keys operator (inorder t)"
      "inorder t = fold (\<lambda>(k, v). upd_list operator k v) kvs []"
    by (auto simp: comparator.sorted_keys_eq [OF assms])
  have "depth t = length kvs" if "sorted_wrt (\<lambda>x y. operator (fst y) (fst x) > 0) kvs"
    using put_all_spine [of NULL_node operator kvs] that t(1) depth_spine by auto
  moreover have "sorted_wrt (\<lambda>x y. operator (fst x) (fst y) < 0) (inorder t)"
    using t(3) by (simp add: comparator.sorted_keys_eq [OF assms])
  moreover have "\<exists>t'. avl_tree_put operator t k v = Some (t', if \<exists>x \<in> set (inorder t). operator k (fst x) = 0 then 0 else 1)
      \<and> inorder t' = upd_list operator k v (inorder t)"
    using comparator.insert_sorted [OF assms t(2,3), of k v] unfolding avl_tree_put_def by blast
  moreover have "shape t = fold (\<lambda>(k, v). bst_put operator k v) kvs Tip" using shape_put_all [OF _ t(1)] by simp
  ultimately show ?thesis using t(1,4) iterate_avl [of t] by blast
qed

theorem avl_tree_put_sorted_witness:
  "\<exists>t. put_all int64_cmp NULL_node [(1, 10 :: nat), (2, 20), (3, 30)] = Some t \<and> depth t = length [(1 :: u64, 10 :: nat), (2, 20), (3, 30)]"
proof -
  have "sorted_wrt (\<lambda>x y. int64_cmp (fst y) (fst x) > 0) [(1 :: u64, 10 :: nat), (2, 20), (3, 30)]"
    by (simp add: int64_cmp_def private_int64_cmp_def)
  then show ?thesis
    using avl_tree_put_sorted [OF int64.comparator_axioms, of "[(1, 10), (2, 20), (3, 30)]" 0 "0 :: nat"] by blast
qed

text \<open>C14. Lookup and removal compare in the direction opposite to insertion. In a tree made by
  \<open>avl_tree_put\<close>, \<open>avl_tree_get\<close> (and \<open>avl_set_contains\<close>) finds a key only when it is at the root;
  \<open>avl_tree_remove\<close> of any other key changes nothing and returns 0. At the root it removes the key and
  returns 1 if a child is missing or the right child has no left child; otherwise it replaces the key by its
  successor without removing the successor, so that this key is in the tree twice, and returns 0.\<close>

theorem avl_tree_get_remove_faults:
  assumes "comparator operator" "put_all operator NULL_node kvs = Some (Node l k v h r)"
  shows "avl_tree_get operator (Node l k v h r) ky = (if operator k ky = 0 then Node l k v h r else NULL_node)
    \<and> (operator ky k \<noteq> 0 \<longrightarrow>
        (\<exists>t'. avl_tree_remove operator (Node l k v h r) ky = Some (t', 0) \<and> inorder t' = inorder (Node l k v h r)))
    \<and> (operator ky k = 0 \<longrightarrow>
        (\<exists>t'. avl_tree_remove operator (Node l k v h r) ky
            = Some (t', if l = NULL_node \<or> r = NULL_node \<or> left r = NULL_node then 1 else 0)
          \<and> map fst (inorder t') = map fst (inorder l)
             @ (if l = NULL_node \<or> r = NULL_node \<or> left r = NULL_node then [] else [fst (hd (inorder r))]) @ map fst (inorder r)))"
proof -
  from comparator.put_all_sorted [OF assms(1), of NULL_node kvs] assms(2) have
    t: "low (Node l k v h r)" "comparator.sorted_keys operator (inorder (Node l k v h r))"
    by (auto simp: comparator.sorted_keys_eq [OF assms(1)])
  show ?thesis
    unfolding avl_tree_get_def avl_tree_remove_def
    using comparator.search_root [OF assms(1) t(2)] comparator.delete_not_root [OF assms(1) t] comparator.delete_at_root [OF assms(1) t]
    by blast
qed

theorem avl_tree_get_remove_faults_witness:
  "put_all int64_cmp NULL_node [(10, ()), (5, ()), (20, ()), (15, ())] =
     Some (Node (Node NULL_node 5 () 1 NULL_node) 10 () 1 (Node (Node NULL_node 15 () 1 NULL_node) 20 () 1 NULL_node))
   \<and> avl_set_contains int64_cmp
       (Node (Node NULL_node 5 () 1 NULL_node) 10 () 1 (Node (Node NULL_node 15 () 1 NULL_node) 20 () 1 NULL_node)) 15 = 0
   \<and> (\<exists>t'. avl_tree_remove int64_cmp
       (Node (Node NULL_node 5 () 1 NULL_node) 10 () 1 (Node (Node NULL_node 15 () 1 NULL_node) 20 () 1 NULL_node)) 10 = Some (t', 0)
       \<and> map fst (inorder t') = [5, 15, 15, 20])"
proof -
  have p: "put_all int64_cmp NULL_node [(10, ()), (5, ()), (20, ()), (15, ())] =
     Some (Node (Node NULL_node 5 () 1 NULL_node) 10 () 1 (Node (Node NULL_node 15 () 1 NULL_node) 20 () 1 NULL_node))"
    by (simp add: avl_tree_put_def int64_cmp_def private_int64_cmp_def insert_rebalance_low)
  from avl_tree_get_remove_faults [OF int64.comparator_axioms p, of 15] avl_tree_get_remove_faults [OF int64.comparator_axioms p, of 10] p
  show ?thesis by (simp add: avl_set_contains_def int64_cmp_def private_int64_cmp_def)
qed

end
