(* ===== verification/CrcSpec.thy ===== *)
theory CrcSpec
  imports Prelude
begin

text \<open>
  Reference definitions of the checksums of \<open>src/crc\<close>: the shift registers with feedback, one bit at a time,
  in the two orientations, and the facts from which the table-driven routines follow. A step of a register
  is linear over exclusive or; a byte that is shifted out of the register only selects the feedback, which
  is what a table stores.
\<close>

section \<open>Maps that are linear over exclusive or\<close>

locale xor_linear =
  fixes f :: "'a::len word \<Rightarrow> 'a word"
  assumes lin: "f (a XOR b) = f a XOR f b"
begin

lemma lin_0: "f 0 = 0"
  using lin [of 0 0] by simp

lemma lin_funpow: "(f ^^ n) (a XOR b) = (f ^^ n) a XOR (f ^^ n) b"
  by (induction n) (simp_all add: lin)

lemma funpow_0_lin: "(f ^^ n) 0 = 0"
  by (induction n) (simp_all add: lin_0)

end

section \<open>The register that shifts to the right\<close>

definition crc_shift :: "'a::len word \<Rightarrow> 'a word \<Rightarrow> 'a word" where
  "crc_shift poly l = drop_bit 1 l XOR (if bit l 0 then poly else 0)"

definition crc_byte :: "'a::len word \<Rightarrow> 'a word \<Rightarrow> byte \<Rightarrow> 'a word" where
  "crc_byte poly l b = (crc_shift poly ^^ 8) (l XOR ucast b)"

definition crc_bytes :: "'a::len word \<Rightarrow> 'a word \<Rightarrow> byte list \<Rightarrow> 'a word" where
  "crc_bytes poly l bs = foldl (crc_byte poly) l bs"

section \<open>The register that shifts to the left\<close>

definition crc_shiftl :: "'a::len word \<Rightarrow> 'a word \<Rightarrow> 'a word" where
  "crc_shiftl poly l = push_bit 1 l XOR (if bit l (LENGTH('a) - 1) then poly else 0)"

definition crc_bytel :: "'a::len word \<Rightarrow> 'a word \<Rightarrow> byte \<Rightarrow> 'a word" where
  "crc_bytel poly l b = (crc_shiftl poly ^^ 8) (l XOR push_bit (LENGTH('a) - 8) (ucast b))"

definition crc_bytesl :: "'a::len word \<Rightarrow> 'a word \<Rightarrow> byte list \<Rightarrow> 'a word" where
  "crc_bytesl poly l bs = foldl (crc_bytel poly) l bs"

section \<open>Linearity\<close>

interpretation shift: xor_linear "crc_shift poly" for poly :: "'a::len word"
  by unfold_locales (auto simp: crc_shift_def bit_eq_iff bit_simps)

interpretation shiftl: xor_linear "crc_shiftl poly" for poly :: "'a::len word"
  by unfold_locales (auto simp: crc_shiftl_def bit_eq_iff bit_simps)

interpretation shift_pow: xor_linear "crc_shift poly ^^ n" for poly :: "'a::len word" and n
  by unfold_locales (rule shift.lin_funpow)

text \<open>Zeros that leave the register select no feedback.\<close>

lemma shift_low_zeros:
  fixes w :: "'a::len word"
  assumes "\<And>i. i < n \<Longrightarrow> \<not> bit w i"
  shows "(crc_shift poly ^^ n) w = drop_bit n w"
  using assms
proof (induction n)
  case (Suc n)
  then have "(crc_shift poly ^^ n) w = drop_bit n w" and n: "\<not> bit w n" by auto
  moreover have "crc_shift poly (drop_bit n w) = drop_bit (Suc n) w"
    using n by (simp add: crc_shift_def bit_simps)
  ultimately show ?case by simp
qed simp

lemma shiftl_high_zeros:
  fixes w :: "'a::len word"
  assumes "\<And>i. LENGTH('a) - n \<le> i \<Longrightarrow> \<not> bit w i" "n \<le> LENGTH('a)"
  shows "(crc_shiftl poly ^^ n) w = push_bit n w"
  using assms
proof (induction n)
  case (Suc n)
  then have "(crc_shiftl poly ^^ n) w = push_bit n w" by auto
  moreover have "\<not> bit (push_bit n w) (LENGTH('a) - Suc 0)" using Suc.prems
    by (auto simp: bit_simps)
  then have "crc_shiftl poly (push_bit n w) = push_bit (Suc n) w"
    by (simp add: crc_shiftl_def push_bit_double ac_simps)
  ultimately show ?case by simp
qed simp

lemma split_low:
  fixes w :: "'a::len word"
  shows "w = take_bit n w XOR push_bit n (drop_bit n w)"
  by (auto simp: bit_eq_iff bit_simps)

lemma shift_split:
  "(crc_shift poly ^^ n) w = (crc_shift poly ^^ n) (take_bit n w) XOR drop_bit n w"
proof -
  have "(crc_shift poly ^^ n) w =
      (crc_shift poly ^^ n) (take_bit n w) XOR (crc_shift poly ^^ n) (push_bit n (drop_bit n w))"
    using split_low [of w n] by (metis shift.lin_funpow)
  also have "(crc_shift poly ^^ n) (push_bit n (drop_bit n w)) = drop_bit n (push_bit n (drop_bit n w))"
    by (rule shift_low_zeros) (simp add: bit_simps)
  also have "drop_bit n (push_bit n (drop_bit n w)) = drop_bit n w"
    by (auto simp: bit_eq_iff bit_simps dest: bit_imp_le_length)
  finally show ?thesis .
qed

lemma shiftl_split:
  fixes w :: "'a::len word"
  assumes "n \<le> LENGTH('a)"
  shows "(crc_shiftl poly ^^ n) w =
    (crc_shiftl poly ^^ n) (push_bit (LENGTH('a) - n) (drop_bit (LENGTH('a) - n) w)) XOR push_bit n w"
proof -
  let ?m = "LENGTH('a) - n"
  have "(crc_shiftl poly ^^ n) w =
      (crc_shiftl poly ^^ n) (take_bit ?m w) XOR (crc_shiftl poly ^^ n) (push_bit ?m (drop_bit ?m w))"
    using split_low [of w ?m] by (metis shiftl.lin_funpow)
  also have "(crc_shiftl poly ^^ n) (take_bit ?m w) = push_bit n (take_bit ?m w)"
    using assms by (intro shiftl_high_zeros) (auto simp: bit_simps)
  also have "push_bit n (take_bit ?m w) = push_bit n w"
    by (auto simp: bit_eq_iff bit_simps)
  finally show ?thesis by (simp add: xor.commute)
qed

text \<open>Shifting by several bytes at once.\<close>

lemma shift_push: 
  assumes "drop_bit n (push_bit n w) = w"
  shows "(crc_shift poly ^^ n) (push_bit n w) = w"
  using assms by (subst shift_low_zeros) (auto simp: bit_simps)

lemma shift_push_more:
  fixes w :: "'a::len word"
  assumes "n \<le> m" "drop_bit n (push_bit n w) = w"
  shows "(crc_shift poly ^^ m) (push_bit n w) = (crc_shift poly ^^ (m - n)) w"
proof -
  have "(crc_shift poly ^^ m) (push_bit n w) = (crc_shift poly ^^ (m - n)) ((crc_shift poly ^^ n) (push_bit n w))"
    using assms(1) by (metis comp_apply funpow_add le_add_diff_inverse2)
  with shift_push [OF assms(2)] show ?thesis by simp
qed

text \<open>A register whose polynomial has its top bit set forgets nothing.\<close>

lemma shift_zero_iff:
  fixes poly :: "'a::len word"
  assumes "bit poly (LENGTH('a) - 1)"
  shows "crc_shift poly w = 0 \<longleftrightarrow> w = 0"
proof
  assume z: "crc_shift poly w = 0"
  have "bit (crc_shift poly w) (LENGTH('a) - 1) \<longleftrightarrow> bit w 0"
    using assms by (auto simp: crc_shift_def bit_simps dest: bit_imp_le_length)
  with z have b0: "\<not> bit w 0" by simp
  with z have d: "drop_bit 1 w = 0" by (simp add: crc_shift_def)
  show "w = 0"
  proof (rule bit_eqI)
    fix n
    have "\<not> bit w (Suc m)" for m using d bit_drop_bit_eq [of 1 w] by (metis bit_0_eq bot_apply bot_bool_def comp_apply plus_1_eq_Suc)
    with b0 show "bit w n = bit 0 n" by (cases n) simp_all
  qed
qed (simp add: crc_shift_def)

lemma shift_funpow_zero_iff:
  fixes poly :: "'a::len word"
  assumes "bit poly (LENGTH('a) - 1)"
  shows "(crc_shift poly ^^ n) w = 0 \<longleftrightarrow> w = 0"
  by (induction n) (simp_all add: shift_zero_iff [OF assms])

section \<open>Concatenation\<close>

lemma crc_bytes_Nil [simp]: "crc_bytes poly l [] = l"
  by (simp add: crc_bytes_def)

lemma crc_bytes_Cons [simp]: "crc_bytes poly l (b # bs) = crc_bytes poly (crc_byte poly l b) bs"
  by (simp add: crc_bytes_def)

lemma crc_bytes_append: "crc_bytes poly l (xs @ ys) = crc_bytes poly (crc_bytes poly l xs) ys"
  by (simp add: crc_bytes_def)

text \<open>The checksum of a concatenation from the checksums of the parts: the first is shifted over as many
  zero bytes as the second part has.\<close>

lemma crc_bytes_xor:
  "crc_bytes poly (l XOR m) bs = (crc_shift poly ^^ (8 * length bs)) l XOR crc_bytes poly m bs"
proof (induction bs arbitrary: l m)
  case (Cons b bs)
  have "crc_byte poly (l XOR m) b = (crc_shift poly ^^ 8) l XOR crc_byte poly m b"
    by (simp add: crc_byte_def shift.lin_funpow xor.assoc)
  with Cons.IH show ?case by (simp add: funpow_add add.commute [of 8] mult.commute)
qed simp

lemma crc_bytes_split:
  "crc_bytes poly l (xs @ ys) = (crc_shift poly ^^ (8 * length ys)) (crc_bytes poly l xs) XOR crc_bytes poly 0 ys"
  using crc_bytes_xor [of poly "crc_bytes poly l xs" 0 ys] by (simp add: crc_bytes_append)

section \<open>Several bytes at once\<close>

fun le_word :: "byte list \<Rightarrow> 'a::len word" where
  "le_word [] = 0"
| "le_word (b # bs) = ucast b XOR push_bit 8 (le_word bs)"

lemma bit_le_word: "bit (le_word bs :: 'a::len word) i \<Longrightarrow> i < 8 * length bs"
proof (induction bs arbitrary: i)
  case (Cons b bs)
  from Cons.prems consider "bit (ucast b :: 'a word) i" | "8 \<le> i" "bit (le_word bs :: 'a word) (i - 8)"
    by (auto simp: bit_simps)
  then show ?case
  proof cases
    case 1
    then have "i < 8" by (auto simp: bit_simps dest: bit_imp_le_length)
    then show ?thesis by simp
  next
    case 2
    with Cons.IH [of "i - 8"] show ?thesis by simp
  qed
qed simp

lemma drop_push_le_word:
  assumes "8 * Suc (length bs) \<le> LENGTH('a)"
  shows "drop_bit 8 (push_bit 8 (le_word bs :: 'a::len word)) = le_word bs"
proof (rule bit_word_eqI)
  fix i assume "i < LENGTH('a)"
  with assms bit_le_word [of bs i, where ?'a = 'a]
  show "bit (drop_bit 8 (push_bit 8 (le_word bs :: 'a word))) i = bit (le_word bs :: 'a word) i"
    by (auto simp: bit_simps)
qed

lemma crc_bytes_word:
  fixes l :: "'a::len word"
  assumes "8 * length bs \<le> LENGTH('a)"
  shows "crc_bytes poly l bs = (crc_shift poly ^^ (8 * length bs)) (l XOR le_word bs)"
  using assms
proof (induction bs arbitrary: l)
  case (Cons b bs)
  let ?s = "crc_shift poly"
  have "(?s ^^ 8) (l XOR le_word (b # bs)) = (?s ^^ 8) (l XOR ucast b) XOR (?s ^^ 8) (push_bit 8 (le_word bs))"
    by (simp add: xor.assoc flip: shift.lin_funpow)
  also have "(?s ^^ 8) (push_bit 8 (le_word bs)) = le_word bs"
    using Cons.prems by (intro shift_push drop_push_le_word) simp
  finally have step: "(?s ^^ 8) (l XOR le_word (b # bs)) = crc_byte poly l b XOR le_word bs"
    by (simp add: crc_byte_def)
  have "(?s ^^ (8 * length (b # bs))) (l XOR le_word (b # bs))
      = (?s ^^ (8 * length bs)) ((?s ^^ 8) (l XOR le_word (b # bs)))"
    by (simp add: funpow_add add.commute [of 8])
  with step Cons show ?case by simp
qed simp

lemma and_ff: "w AND 0xff = take_bit 8 w" for w :: "'a::len word"
  by (simp add: take_bit_eq_mask mask_eq_exp_minus_1)

lemma low_byte: "unat (w AND 0xff) = unat (ucast w :: byte)" for w :: "'a::len word"
  by (simp add: and_ff unsigned_ucast_eq unsigned_take_bit_eq)

section \<open>Tables of a linear map\<close>

text \<open>The table of a linear map is determined by the entries at the powers of two.\<close>

definition xor_table :: "'a::len word list \<Rightarrow> 'a word list" where
  "xor_table bs = foldl (\<lambda>t b. t @ map (\<lambda>w. b XOR w) t) [0] bs"

lemma xor_table_append: "xor_table (bs @ [b]) = xor_table bs @ map (\<lambda>w. b XOR w) (xor_table bs)"
  by (simp add: xor_table_def)

lemma length_xor_table: "length (xor_table bs) = 2 ^ length bs"
proof (induction bs rule: rev_induct)
  case (snoc b bs)
  then show ?case by (simp add: xor_table_append)
qed (simp add: xor_table_def)

lemma of_nat_xor_pow:
  assumes "k < 2 ^ m"
  shows "(2 ^ m XOR of_nat k :: 'a::len word) = of_nat (2 ^ m + k)"
proof -
  have "take_bit m k = k" using assms by (simp add: take_bit_nat_eq_self)
  then have "\<not> bit k m" by (metis bit_take_bit_iff order_less_irrefl)
  then have "2 ^ m AND k = 0" by (intro bit_eqI) (simp add: bit_and_iff bit_exp_iff)
  then have "2 ^ m + k = 2 ^ m XOR k" by (rule disjunctive_add_eq_xor)
  then show ?thesis by (simp only: of_nat_xor_eq of_nat_power of_nat_numeral)
qed

context xor_linear
begin

lemma xor_table_nth: "n < 2 ^ m \<Longrightarrow> xor_table (map (\<lambda>j. f (2 ^ j)) [0..<m]) ! n = f (of_nat n)"
proof (induction m arbitrary: n)
  case 0
  then show ?case by (simp add: xor_table_def lin_0)
next
  case (Suc m)
  let ?t = "xor_table (map (\<lambda>j. f (2 ^ j)) [0..<m])"
  have len: "length ?t = 2 ^ m" by (simp add: length_xor_table)
  have eq: "xor_table (map (\<lambda>j. f (2 ^ j)) [0..<Suc m]) = ?t @ map (\<lambda>w. f (2 ^ m) XOR w) ?t"
    by (simp add: xor_table_append)
  show ?case
  proof (cases "n < 2 ^ m")
    case True
    then show ?thesis unfolding eq using Suc.IH [of n] by (simp add: nth_append len)
  next
    case False
    define k where "k = n - 2 ^ m"
    with False Suc.prems have k: "n = 2 ^ m + k" "k < 2 ^ m" by auto
    then have "(?t @ map (\<lambda>w. f (2 ^ m) XOR w) ?t) ! n = f (2 ^ m) XOR f (of_nat k)"
      using Suc.IH [of k] by (simp add: nth_append len)
    also have "\<dots> = f (of_nat n)" by (simp only: of_nat_xor_pow [OF k(2)] k(1) flip: lin)
    finally show ?thesis by (simp only: eq)
  qed
qed

end

section \<open>The byte table\<close>

text \<open>What every table-driven loop relies on: entry \<open>n\<close> is the register after the byte \<open>n\<close> has been
  shifted out.\<close>

locale crc_table =
  fixes poly :: "'a::len word" and tab :: "'a word list"
  assumes width: "8 \<le> LENGTH('a)"
    and tab_length: "length tab = 256"
    and tab_entry: "n < 256 \<Longrightarrow> tab ! n = (crc_shift poly ^^ 8) (of_nat n)"
begin

lemma tab_byte: "tab ! unat b = (crc_shift poly ^^ 8) (ucast b)" for b :: byte
  using tab_entry [of "unat b"] unat_less_8 [of b] by simp

lemma tab_get: "get_at tab (unat b) = Some ((crc_shift poly ^^ 8) (ucast b))" for b :: byte
  using tab_byte unat_less_8 [of b] by (simp add: get_at_def tab_length)

lemma table_shift: "tab ! unat (ucast l :: byte) XOR drop_bit 8 l = (crc_shift poly ^^ 8) l"
proof -
  have "ucast (ucast l :: byte) = take_bit 8 l" using width
    by (auto simp: bit_eq_iff bit_simps)
  then show ?thesis using shift_split [of 8 poly l] by (simp add: tab_byte)
qed

lemma table_step:
  "tab ! unat (ucast (l XOR ucast b) :: byte) XOR drop_bit 8 l = crc_byte poly l b" for b :: byte
proof -
  have "drop_bit 8 (l XOR ucast b) = drop_bit 8 l"
    by (auto simp: bit_eq_iff bit_simps dest: bit_imp_le_length)
  with table_shift [of "l XOR ucast b"] show ?thesis by (simp add: crc_byte_def)
qed

end

locale crc_tablel =
  fixes poly :: "'a::len word" and tab :: "'a word list"
  assumes width: "8 \<le> LENGTH('a)"
    and tab_length: "length tab = 256"
    and tab_entry: "n < 256 \<Longrightarrow> tab ! n = (crc_shiftl poly ^^ 8) (push_bit (LENGTH('a) - 8) (of_nat n))"
begin

lemma table_step:
  fixes b :: byte
  shows "push_bit 8 l XOR tab ! unat (ucast (drop_bit (LENGTH('a) - 8) l) XOR b) = crc_bytel poly l b"
proof -
  let ?m = "LENGTH('a) - 8"
  let ?i = "ucast (drop_bit ?m l) XOR b :: byte"
  have "tab ! unat ?i = (crc_shiftl poly ^^ 8) (push_bit ?m (ucast ?i))"
    using tab_entry [of "unat ?i"] unat_less_8 [of ?i] by simp
  also have "push_bit ?m (ucast ?i :: 'a word) = push_bit ?m (drop_bit ?m (l XOR push_bit ?m (ucast b)))"
    using width by (auto simp: bit_eq_iff bit_simps dest: bit_imp_le_length)
  finally have "tab ! unat ?i =
    (crc_shiftl poly ^^ 8) (push_bit ?m (drop_bit ?m (l XOR push_bit ?m (ucast b))))" .
  moreover have "push_bit 8 (l XOR push_bit ?m (ucast b)) = push_bit 8 l"
    by (auto simp: bit_eq_iff bit_simps dest: bit_imp_le_length)
  ultimately show ?thesis
    using shiftl_split [OF width, of poly "l XOR push_bit ?m (ucast b)"]
    by (simp add: crc_bytel_def xor.commute)
qed

end

end
