(* ===== verification/Crc32.thy ===== *)
theory Crc32
  imports CrcTables SdsPlugins
begin

text \<open>
  The 16-bit and 32-bit checksums: \<open>src/crc/crc16xmodem.c\<close> and \<open>src/crc/crc32c.c\<close> on the tables of \<open>CrcTables\<close>. A buffer
  is the list of the bytes of its memory object; a read outside of it is \<open>None\<close>. \<open>crc32c_extend\<close> first
  aligns its pointer, so its result is a function of the address of the buffer too: pointers are 64-bit
  addresses and \<open>base\<close> is the address of the object. \<open>HAVE_CRC32C\<close> is not defined by the build.
\<close>

section \<open>Loops over a buffer\<close>

primrec for_bytes :: "('s \<Rightarrow> byte \<Rightarrow> 's option) \<Rightarrow> byte list \<Rightarrow> nat \<Rightarrow> nat \<Rightarrow> 's \<Rightarrow> 's option" where
  "for_bytes step buf p 0 s = Some s"
| "for_bytes step buf p (Suc n) s = do { b \<leftarrow> get_at buf p; s \<leftarrow> step s b; for_bytes step buf (Suc p) n s }"

lemma for_bytes_fold:
  assumes "\<And>s b. step s b = Some (f s b)" "p + n \<le> length buf"
  shows "for_bytes step buf p n s = Some (foldl f s (take n (drop p buf)))"
  using assms(2)
proof (induction n arbitrary: p s)
  case (Suc n)
  then have "take (Suc n) (drop p buf) = buf ! p # take n (drop (Suc p) buf)"
    by (simp add: take_Suc_conv_app_nth Cons_nth_drop_Suc [symmetric])
  with Suc assms(1) show ?case by (simp add: get_at_def)
qed simp

section \<open>CRC-16/XMODEM\<close>

text \<open>\<open>crc\<close> is promoted to \<open>int\<close> and the byte is a signed \<open>char\<close>; the mask keeps their low bytes.\<close>

definition crc16xmodem_step :: "u16 \<Rightarrow> byte \<Rightarrow> u16 option" where
  "crc16xmodem_step crc b =
     do {
       t \<leftarrow> get_at crc16tab (unat ((ucast (drop_bit 8 crc) XOR scast b :: u32) AND 0x00FF));
       Some (push_bit 8 crc XOR t)
     }"

definition crc16xmodem :: "byte list \<Rightarrow> int \<Rightarrow> u16 option" where
  "crc16xmodem buf len = for_bytes crc16xmodem_step buf 0 (nat len) 0"

section \<open>CRC-32/JAMCRC\<close>

text \<open>The counter is unsigned, so a negative \<open>size\<close> is converted to a large number.\<close>

definition crc32jamcrc_step :: "u32 \<Rightarrow> byte \<Rightarrow> u32 option" where
  "crc32jamcrc_step crc b =
     do {
       t \<leftarrow> get_at crc_tab (unat ((crc XOR scast b) AND 0xff));
       Some (t XOR drop_bit 8 crc)
     }"

definition crc32jamcrc :: "byte list \<Rightarrow> int \<Rightarrow> u32 option" where
  "crc32jamcrc buffer sz =
     for_bytes crc32jamcrc_step buffer 0 (unat (word_of_int sz :: u32)) 0xffffffff"

section \<open>CRC-32C\<close>

abbreviation (input) kCRC32Xor :: u32 where
  "kCRC32Xor \<equiv> 0xffffffff"

abbreviation (input) kTestCRCValue :: u32 where
  "kTestCRCValue \<equiv> 0xdcbc59fa"

definition acceleratedCRC32C :: "u32 \<Rightarrow> byte list \<Rightarrow> int \<Rightarrow> u32" where
  "acceleratedCRC32C crc buf sz = 0"

definition canAccelerateCRC32C :: bool where
  "canAccelerateCRC32C \<longleftrightarrow>
     acceleratedCRC32C 0 (map (of_nat \<circ> of_char) ''TestCRCBuffer'') 13 = kTestCRCValue"

definition RoundUp :: "u64 \<Rightarrow> int \<Rightarrow> u64" where
  "RoundUp pointer N = (pointer + word_of_int (N - 1)) AND NOT (word_of_int (N - 1))"

definition read_u8 :: "byte list \<Rightarrow> u64 \<Rightarrow> u64 \<Rightarrow> byte option" where
  "read_u8 data base p = get_at data (unat (p - base))"

definition ReadUint32LE :: "byte list \<Rightarrow> u64 \<Rightarrow> u64 \<Rightarrow> u32 option" where
  "ReadUint32LE data base p = decode_fixed32 (drop (unat (p - base)) data)"

text \<open>Process one byte.\<close>

definition STEP1 :: "byte list \<Rightarrow> u64 \<Rightarrow> u64 \<Rightarrow> u32 \<Rightarrow> (u64 \<times> u32) option" where
  "STEP1 data base p l =
     do {
       b \<leftarrow> read_u8 data base p;
       t \<leftarrow> get_at kByteExtensionTable (unat ((l AND 0xff) XOR ucast b));
       Some (p + 1, t XOR drop_bit 8 l)
     }"

text \<open>Process one of the four strides.\<close>

definition STEP4 :: "byte list \<Rightarrow> u64 \<Rightarrow> u64 \<Rightarrow> u64 \<Rightarrow> u32 \<Rightarrow> u32 option" where
  "STEP4 data base p s crc =
     do {
       w \<leftarrow> ReadUint32LE data base (p + s * 4);
       t3 \<leftarrow> get_at kStrideExtensionTable3 (unat (crc AND 0xff));
       t2 \<leftarrow> get_at kStrideExtensionTable2 (unat (drop_bit 8 crc AND 0xff));
       t1 \<leftarrow> get_at kStrideExtensionTable1 (unat (drop_bit 16 crc AND 0xff));
       t0 \<leftarrow> get_at kStrideExtensionTable0 (unat (drop_bit 24 crc));
       Some (w XOR t3 XOR t2 XOR t1 XOR t0)
     }"

type_synonym strides = "u32 \<times> u32 \<times> u32 \<times> u32"

definition STEP16 :: "byte list \<Rightarrow> u64 \<Rightarrow> u64 \<Rightarrow> strides \<Rightarrow> (u64 \<times> strides) option" where
  "STEP16 data base p = (\<lambda>(crc0, crc1, crc2, crc3).
     do {
       crc0 \<leftarrow> STEP4 data base p 0 crc0;
       crc1 \<leftarrow> STEP4 data base p 1 crc1;
       crc2 \<leftarrow> STEP4 data base p 2 crc2;
       crc3 \<leftarrow> STEP4 data base p 3 crc3;
       Some (p + 16, crc0, crc1, crc2, crc3)
     })"

definition byte_ext :: "u32 \<Rightarrow> u32 option" where
  "byte_ext w = do { t \<leftarrow> get_at kByteExtensionTable (unat (w AND 0xff)); Some (drop_bit 8 w XOR t) }"

definition STEP4W :: "u32 \<Rightarrow> u32 \<Rightarrow> u32 option" where
  "STEP4W w l = do { w \<leftarrow> byte_ext (w XOR l); w \<leftarrow> byte_ext w; w \<leftarrow> byte_ext w; byte_ext w }"

text \<open>\<open>while (p != x) STEP1;\<close>\<close>

partial_function (option) bytes_until :: "byte list \<Rightarrow> u64 \<Rightarrow> u64 \<Rightarrow> u64 \<Rightarrow> u32 \<Rightarrow> (u64 \<times> u32) option" where
  [code]: "bytes_until data base x p l =
     (if p \<noteq> x then Option.bind (STEP1 data base p l) (\<lambda>(p, l). bytes_until data base x p l)
      else Some (p, l))"

partial_function (option) swaths :: "byte list \<Rightarrow> u64 \<Rightarrow> u64 \<Rightarrow> u64 \<Rightarrow> strides \<Rightarrow> (u64 \<times> strides) option" where
  [code]: "swaths data base e p cs =
     (if sint (e - p) \<ge> 16 then Option.bind (STEP16 data base p cs) (\<lambda>(p, cs). swaths data base e p cs)
      else Some (p, cs))"

definition word_step :: "byte list \<Rightarrow> u64 \<Rightarrow> u64 \<Rightarrow> strides \<Rightarrow> (u64 \<times> strides) option" where
  "word_step data base p = (\<lambda>(crc0, crc1, crc2, crc3).
     do { tmp \<leftarrow> STEP4 data base p 0 crc0; Some (p + 4, crc1, crc2, crc3, tmp) })"

partial_function (option) words :: "byte list \<Rightarrow> u64 \<Rightarrow> u64 \<Rightarrow> u64 \<Rightarrow> strides \<Rightarrow> (u64 \<times> strides) option" where
  [code]: "words data base e p cs =
     (if sint (e - p) \<ge> 4 then Option.bind (word_step data base p cs) (\<lambda>(p, cs). words data base e p cs)
      else Some (p, cs))"

definition load_strides :: "byte list \<Rightarrow> u64 \<Rightarrow> u64 \<Rightarrow> u32 \<Rightarrow> (u64 \<times> strides) option" where
  "load_strides data base p l =
     do {
       w0 \<leftarrow> ReadUint32LE data base (p + 0 * 4);
       crc1 \<leftarrow> ReadUint32LE data base (p + 1 * 4);
       crc2 \<leftarrow> ReadUint32LE data base (p + 2 * 4);
       crc3 \<leftarrow> ReadUint32LE data base (p + 3 * 4);
       Some (p + 16, w0 XOR l, crc1, crc2, crc3)
     }"

definition combine_strides :: "strides \<Rightarrow> u32 option" where
  "combine_strides = (\<lambda>(crc0, crc1, crc2, crc3).
     do { l \<leftarrow> STEP4W crc0 0; l \<leftarrow> STEP4W crc1 l; l \<leftarrow> STEP4W crc2 l; STEP4W crc3 l })"

definition align_bytes :: "byte list \<Rightarrow> u64 \<Rightarrow> u64 \<Rightarrow> u64 \<Rightarrow> u32 \<Rightarrow> (u64 \<times> u32) option" where
  "align_bytes data base e p l =
     (let x = RoundUp p 4 in if x \<le> e then bytes_until data base x p l else Some (p, l))"

definition process_strides :: "byte list \<Rightarrow> u64 \<Rightarrow> u64 \<Rightarrow> u64 \<Rightarrow> u32 \<Rightarrow> (u64 \<times> u32) option" where
  "process_strides data base e p l =
     (if sint (e - p) \<ge> 16 then
        do {
          (p, cs) \<leftarrow> load_strides data base p l;
          (p, cs) \<leftarrow> swaths data base e p cs;
          (p, cs) \<leftarrow> words data base e p cs;
          l \<leftarrow> combine_strides cs;
          Some (p, l)
        }
      else Some (p, l))"

definition crc32c_extend :: "u64 \<Rightarrow> u32 \<Rightarrow> byte list \<Rightarrow> int \<Rightarrow> u32 option" where
  "crc32c_extend base crc data len =
     (if canAccelerateCRC32C then Some (acceleratedCRC32C crc data len)
      else
        do {
          let e = base + word_of_int len;
          (p, l) \<leftarrow> align_bytes data base e base (crc XOR kCRC32Xor);
          (p, l) \<leftarrow> process_strides data base e p l;
          (p, l) \<leftarrow> bytes_until data base e p l;
          Some (l XOR kCRC32Xor)
        })"

definition crc32c :: "u64 \<Rightarrow> byte list \<Rightarrow> int \<Rightarrow> u32 option" where
  "crc32c base buf len = crc32c_extend base 0 buf len"

abbreviation (input) kMaskDelta :: u32 where
  "kMaskDelta \<equiv> 0xa282ead8"

definition crc32c_mask :: "u32 \<Rightarrow> u32" where
  "crc32c_mask crc = (drop_bit 15 crc OR push_bit 17 crc) + kMaskDelta"

definition crc32c_unmask :: "u32 \<Rightarrow> u32" where
  "crc32c_unmask masked_crc =
     (let rot = masked_crc - kMaskDelta in drop_bit 17 rot OR push_bit 15 rot)"

section \<open>Bytes and words\<close>

lemma ucast_low:
  fixes b :: byte
  shows "ucast (ucast (x :: u16) :: u32) = (ucast x :: byte)"
    "ucast (crc XOR scast b :: u32) = ucast crc XOR b"
    "ucast (crc XOR ucast b :: u32) = ucast crc XOR b"
  by (auto simp: bit_eq_iff bit_simps)

lemma decode_fixed32_word:
  "4 \<le> length d \<Longrightarrow> decode_fixed32 d = Some (le_word (take 4 d))"
proof -
  assume "4 \<le> length d"
  then obtain b0 b1 b2 b3 r where d: "d = b0 # b1 # b2 # b3 # r"
    by (cases d; cases "tl d"; cases "tl (tl d)"; cases "tl (tl (tl d))") auto
  have "(ucast b0 OR push_bit 8 (ucast b1) OR push_bit 16 (ucast b2) OR push_bit 24 (ucast b3) :: u32)
      = le_word [b0, b1, b2, b3]"
    by (rule bit_word_eqI) (auto simp: bit_simps dest: bit_imp_le_length)
  with d show ?thesis by (simp add: decode_fixed32_def get_at_def)
qed

section \<open>The table loops compute the polynomial checksums\<close>

lemma crc16xmodem_step_ok: "crc16xmodem_step crc b = Some (crc_bytel 0x1021 crc b)"
  using xmodem.table_step [of crc b] unat_less_8 [of "ucast (drop_bit 8 crc) XOR b"]
  by (simp add: crc16xmodem_step_def low_byte ucast_low get_at_def table_lengths)

lemma crc32jamcrc_step_ok: "crc32jamcrc_step crc b = Some (crc_byte POLY_CRC32 crc b)"
  using jamcrc.table_step [of crc b] unat_less_8 [of "ucast crc XOR b"]
  by (simp add: crc32jamcrc_step_def low_byte ucast_low get_at_def table_lengths)

lemma STEP1_ok:
  "read_u8 data base p = Some b \<Longrightarrow> STEP1 data base p l = Some (p + 1, crc_byte POLY_CRC32C l b)"
proof -
  have "(l AND 0xff) XOR ucast b = (l XOR ucast b) AND 0xff" unfolding and_ff
    by (rule bit_word_eqI) (auto simp: bit_simps dest: bit_imp_le_length)
  then show "read_u8 data base p = Some b \<Longrightarrow> ?thesis"
    using castagnoli.table_step [of l b] unat_less_8 [of "ucast l XOR b"]
    by (simp add: STEP1_def low_byte ucast_low get_at_def table_lengths)
qed

lemma byte_ext_ok: "byte_ext w = Some ((crc_shift POLY_CRC32C ^^ 8) w)"
  using castagnoli.table_shift [of w] unat_less_8 [of "ucast w"]
  by (simp add: byte_ext_def low_byte get_at_def table_lengths xor.commute)

lemma STEP4W_ok: "STEP4W w l = Some ((crc_shift POLY_CRC32C ^^ 32) (w XOR l))"
  by (simp add: STEP4W_def byte_ext_ok flip: funpow_add comp_apply [of "_ ^^ _" "_ ^^ _"])

lemma word_from_bytes32:
  fixes w :: u32
  shows "w = ucast (ucast w :: byte) XOR push_bit 8 (ucast (ucast (drop_bit 8 w) :: byte))
    XOR push_bit 16 (ucast (ucast (drop_bit 16 w) :: byte)) XOR push_bit 24 (ucast (ucast (drop_bit 24 w) :: byte))"
  by (rule bit_word_eqI) (auto simp: bit_xor_iff bit_byte_field bit_byte_field_0 simp del: bit_push_bit_iff bit_unsigned_iff)

lemma STEP4_ok:
  assumes "ReadUint32LE data base (p + s * 4) = Some w"
  shows "STEP4 data base p s crc = Some (w XOR (crc_shift POLY_CRC32C ^^ 128) crc)"
proof -
  let ?f = "crc_shift POLY_CRC32C ^^ 128"
  have "unat (drop_bit 24 crc) = unat (ucast (drop_bit 24 crc) :: byte)"
    using unat_less_32 [of crc] by (simp add: unsigned_ucast_eq take_bit_nat_eq_self unat_drop)
  then have "STEP4 data base p s crc = Some (w XOR ?f (ucast (ucast crc :: byte))
      XOR ?f (push_bit 8 (ucast (ucast (drop_bit 8 crc) :: byte)))
      XOR ?f (push_bit 16 (ucast (ucast (drop_bit 16 crc) :: byte)))
      XOR ?f (push_bit 24 (ucast (ucast (drop_bit 24 crc) :: byte))))"
    using assms by (simp add: STEP4_def low_byte stride_tables)
  also have "\<dots> = Some (w XOR ?f crc)"
    by (subst (4) word_from_bytes32 [of crc]) (simp only: shift.lin_funpow xor.assoc)
  finally show ?thesis .
qed

section \<open>Pointers into the buffer\<close>

abbreviation slice :: "byte list \<Rightarrow> nat \<Rightarrow> nat \<Rightarrow> byte list" where
  "slice data i j \<equiv> take (j - i) (drop i data)"

lemma slice_append: "i \<le> j \<Longrightarrow> j \<le> k \<Longrightarrow> slice data i j @ slice data j k = slice data i k"
proof -
  assume "i \<le> j" "j \<le> k"
  then have "k - i = (j - i) + (k - j)" "drop j data = drop (j - i) (drop i data)" by simp_all
  then show ?thesis by (simp only: take_add)
qed

lemma slice_append3:
  "i \<le> j \<Longrightarrow> j \<le> k \<Longrightarrow> k \<le> m \<Longrightarrow> slice data i m = slice data i j @ slice data j k @ slice data k m"
  by (metis slice_append le_trans)

lemma off_unat: "i < 2 ^ 63 \<Longrightarrow> unat (base + of_nat i - base :: u64) = i"
  by (simp add: unat_of_nat_id)

lemma off_diff:
  assumes "i \<le> j" "j < 2 ^ 63"
  shows "sint (base + of_nat j - (base + of_nat i) :: u64) = int (j - i)"
proof -
  have "base + of_nat j - (base + of_nat i) = (word_of_int (int (j - i)) :: u64)"
    using assms(1) by (simp add: of_nat_diff)
  then show ?thesis using assms by (simp only:) (subst sint_of_int64, simp_all add: in_int64_def)
qed

lemma off_eq_iff:
  assumes "i < 2 ^ 63" "j < 2 ^ 63"
  shows "base + of_nat i = (base + of_nat j :: u64) \<longleftrightarrow> i = j"
  by (metis assms off_unat)

lemma off_Suc: "base + of_nat i + 1 = (base + of_nat (Suc i) :: u64)"
  by simp

lemma read_u8_off:
  "i < length data \<Longrightarrow> length data < 2 ^ 63 \<Longrightarrow> read_u8 data base (base + of_nat i) = Some (data ! i)"
  by (simp only: read_u8_def off_unat get_at_def) simp

lemma read32_off:
  assumes "i + 4 \<le> length data" "length data < 2 ^ 63"
  shows "ReadUint32LE data base (base + of_nat i) = Some (le_word (slice data i (i + 4)))"
  using assms off_unat [of i base] by (simp only: ReadUint32LE_def) (simp add: decode_fixed32_word)

lemma bytes_until_ok:
  assumes "i \<le> j" "j \<le> length data" "length data < 2 ^ 63"
  shows "bytes_until data base (base + of_nat j) (base + of_nat i) l =
    Some (base + of_nat j, crc_bytes POLY_CRC32C l (slice data i j))"
  using assms
proof (induction "j - i" arbitrary: i l)
  case 0
  then show ?case by (subst bytes_until.simps) simp
next
  case (Suc n)
  then have i: "i < j" "i < length data" by auto
  with Suc.prems have ne: "base + of_nat i \<noteq> (base + of_nat j :: u64)" by (subst off_eq_iff) auto
  have sl: "slice data i j = data ! i # slice data (Suc i) j" using i
    by (metis Cons_nth_drop_Suc Suc_diff_Suc take_Suc_Cons)
  have "bytes_until data base (base + of_nat j) (base + of_nat i) l =
      bytes_until data base (base + of_nat j) (base + of_nat (Suc i)) (crc_byte POLY_CRC32C l (data ! i))"
    using ne by (subst bytes_until.simps)
      (simp only: STEP1_ok [OF read_u8_off [OF i(2) Suc.prems(3)]] off_Suc bind.bind_lunit prod.case if_True simp_thms)
  moreover have "bytes_until data base (base + of_nat j) (base + of_nat (Suc i)) (crc_byte POLY_CRC32C l (data ! i)) =
      Some (base + of_nat j, crc_bytes POLY_CRC32C (crc_byte POLY_CRC32C l (data ! i)) (slice data (Suc i) j))"
    using Suc.prems Suc.hyps(2) i by (intro Suc.hyps(1)) auto
  ultimately show ?case by (simp only: sl crc_bytes_Cons)
qed

section \<open>Strides\<close>

text \<open>The register that four stride results stand for.\<close>

fun lanes_val :: "strides \<Rightarrow> u32" where
  "lanes_val (c0, c1, c2, c3) =
     (let f = crc_shift POLY_CRC32C ^^ 32 in f (c3 XOR f (c2 XOR f (c1 XOR f c0))))"

lemma combine_strides_ok: "combine_strides cs = Some (lanes_val cs)"
  by (cases cs) (simp add: combine_strides_def STEP4W_ok Let_def)

lemma shift_add: "(crc_shift p ^^ m) ((crc_shift p ^^ n) x) = (crc_shift p ^^ (m + n)) x"
  by (simp add: funpow_add)

lemma lanes_val_xor:
  "lanes_val (c0, c1, c2, c3) =
     (crc_shift POLY_CRC32C ^^ 32) c3 XOR (crc_shift POLY_CRC32C ^^ 64) c2
     XOR (crc_shift POLY_CRC32C ^^ 96) c1 XOR (crc_shift POLY_CRC32C ^^ 128) c0"
  by (simp add: Let_def shift.lin_funpow shift_add xor.assoc)

lemma crc_bytes_4:
  fixes l :: u32
  shows "length bs = 4 \<Longrightarrow> crc_bytes p l bs = (crc_shift p ^^ 32) (l XOR le_word bs)"
  using crc_bytes_word [of bs p l] by simp

lemma word_step_ok:
  assumes "i + 4 \<le> length data" "length data < 2 ^ 63"
  obtains cs' where "word_step data base (base + of_nat i) cs = Some (base + of_nat (i + 4), cs')"
    "lanes_val cs' = crc_bytes POLY_CRC32C (lanes_val cs) (slice data i (i + 4))"
proof -
  obtain c0 c1 c2 c3 where cs: "cs = (c0, c1, c2, c3)" by (cases cs)
  let ?w = "le_word (slice data i (i + 4)) :: u32"
  let ?cs' = "(c1, c2, c3, ?w XOR (crc_shift POLY_CRC32C ^^ 128) c0)"
  have "STEP4 data base (base + of_nat i) 0 c0 = Some (?w XOR (crc_shift POLY_CRC32C ^^ 128) c0)"
    by (rule STEP4_ok) (simp only: mult_zero_left add_0_right read32_off [OF assms])
  then have s: "word_step data base (base + of_nat i) cs = Some (base + of_nat (i + 4), ?cs')"
    by (simp add: word_step_def cs)
  have "lanes_val ?cs' = crc_bytes POLY_CRC32C (lanes_val cs) (slice data i (i + 4))"
    using assms(1) unfolding cs lanes_val_xor
    by (simp add: crc_bytes_4 shift.lin_funpow shift_add ac_simps)
  with s show ?thesis by (rule that)
qed

lemma words_ok:
  assumes "i \<le> n" "n \<le> length data" "length data < 2 ^ 63"
  shows "\<exists>j cs'. words data base (base + of_nat n) (base + of_nat i) cs = Some (base + of_nat j, cs')
    \<and> i \<le> j \<and> j \<le> n \<and> lanes_val cs' = crc_bytes POLY_CRC32C (lanes_val cs) (slice data i j)"
  using assms
proof (induction "n - i" arbitrary: i cs rule: less_induct)
  case less
  have d: "sint (base + of_nat n - (base + of_nat i) :: u64) = int (n - i)"
    using less.prems by (intro off_diff) auto
  show ?case
  proof (cases "4 \<le> n - i")
    case False
    then have "words data base (base + of_nat n) (base + of_nat i) cs = Some (base + of_nat i, cs)"
      by (subst words.simps) (simp only: d, simp)
    with less.prems show ?thesis by (intro exI [of _ i] exI [of _ cs]) simp
  next
    case True
    then have i4: "i + 4 \<le> length data" using less.prems by linarith
    obtain cs1 where c: "word_step data base (base + of_nat i) cs = Some (base + of_nat (i + 4), cs1)"
      "lanes_val cs1 = crc_bytes POLY_CRC32C (lanes_val cs) (slice data i (i + 4))"
      by (rule word_step_ok [OF i4 less.prems(3)])
    have ge: "4 \<le> sint (base + of_nat n - (base + of_nat i) :: u64)" unfolding d using True by linarith
    have step: "words data base (base + of_nat n) (base + of_nat i) cs =
        words data base (base + of_nat n) (base + of_nat (i + 4)) cs1"
      by (subst words.simps) (simp only: ge c(1) bind.bind_lunit prod.case if_True)
    have "n - (i + 4) < n - i" "i + 4 \<le> n" using True by auto
    from less.hyps [OF this less.prems(2,3), of cs1] obtain j cs' where
      j: "words data base (base + of_nat n) (base + of_nat (i + 4)) cs1 = Some (base + of_nat j, cs')"
      "i + 4 \<le> j" "j \<le> n" "lanes_val cs' = crc_bytes POLY_CRC32C (lanes_val cs1) (slice data (i + 4) j)"
      by blast
    then have "lanes_val cs' = crc_bytes POLY_CRC32C (lanes_val cs) (slice data i j)"
      using slice_append [of i "i + 4" j data] by (simp add: c(2) flip: crc_bytes_append)
    with j step show ?thesis by (intro exI [of _ j] exI [of _ cs']) simp
  qed
qed

lemma load_strides_ok:
  assumes "i + 16 \<le> length data" "length data < 2 ^ 63"
  shows "load_strides data base (base + of_nat i) l = Some (base + of_nat (i + 16),
      le_word (slice data i (i + 4)) XOR l, le_word (slice data (i + 4) (i + 8)),
      le_word (slice data (i + 8) (i + 12)), le_word (slice data (i + 12) (i + 16)))"
proof -
  have r: "ReadUint32LE data base (base + of_nat i + of_nat k) = Some (le_word (slice data (i + k) (i + k + 4)))"
    if "k \<le> 12" for k
    using read32_off [of "i + k" data base] that assms by (simp add: add.assoc)
  from r [of 0] r [of 4] r [of 8] r [of 12] show ?thesis
    by (simp add: load_strides_def add.assoc)
qed

lemma load_strides_val:
  assumes "i + 16 \<le> length data"
  shows "lanes_val (le_word (slice data i (i + 4)) XOR l, le_word (slice data (i + 4) (i + 8)),
      le_word (slice data (i + 8) (i + 12)), le_word (slice data (i + 12) (i + 16)))
    = crc_bytes POLY_CRC32C l (slice data i (i + 16))"
proof -
  have "slice data i (i + 16) = slice data i (i + 4) @ slice data (i + 4) (i + 8) @ slice data (i + 8) (i + 12)
      @ slice data (i + 12) (i + 16)"
    using slice_append3 [of i "i + 4" "i + 8" "i + 16" data] slice_append [of "i + 8" "i + 12" "i + 16" data] by simp
  with assms show ?thesis
    by (simp only: crc_bytes_append) (simp add: crc_bytes_4 Let_def xor.commute)
qed

lemma STEP16_ok:
  assumes "i + 16 \<le> length data" "length data < 2 ^ 63"
  obtains cs' where "STEP16 data base (base + of_nat i) cs = Some (base + of_nat (i + 16), cs')"
    "lanes_val cs' = crc_bytes POLY_CRC32C (lanes_val cs) (slice data i (i + 16))"
proof -
  let ?f = "crc_shift POLY_CRC32C"
  obtain c0 c1 c2 c3 where cs: "cs = (c0, c1, c2, c3)" by (cases cs)
  define w where "w k = (le_word (slice data (i + k) (i + k + 4)) :: u32)" for k
  have r: "ReadUint32LE data base (base + of_nat i + of_nat k) = Some (w k)" if "k \<le> 12" for k
    using read32_off [of "i + k" data base] that assms by (simp add: add.assoc w_def)
  have s: "STEP4 data base (base + of_nat i) 0 c = Some (w 0 XOR (?f ^^ 128) c)"
    "STEP4 data base (base + of_nat i) 1 c = Some (w 4 XOR (?f ^^ 128) c)"
    "STEP4 data base (base + of_nat i) 2 c = Some (w 8 XOR (?f ^^ 128) c)"
    "STEP4 data base (base + of_nat i) 3 c = Some (w 12 XOR (?f ^^ 128) c)" for c
    using r [of 0] r [of 4] r [of 8] r [of 12] by (simp_all add: STEP4_ok)
  let ?cs' = "(w 0 XOR (?f ^^ 128) c0, w 4 XOR (?f ^^ 128) c1, w 8 XOR (?f ^^ 128) c2, w 12 XOR (?f ^^ 128) c3)"
  have "STEP16 data base (base + of_nat i) cs = Some (base + of_nat (i + 16), ?cs')"
    by (simp add: STEP16_def s cs)
  moreover
  have "crc_bytes POLY_CRC32C l (slice data i (i + 16)) = lanes_val (w 0 XOR l, w 4, w 8, w 12)" for l
    using load_strides_val [OF assms(1), of l] by (simp add: w_def add.assoc)
  then have "lanes_val ?cs' = crc_bytes POLY_CRC32C (lanes_val cs) (slice data i (i + 16))"
    unfolding lanes_val_xor cs by (simp add: shift.lin_funpow shift_add ac_simps)
  ultimately show ?thesis by (rule that)
qed

lemma swaths_ok:
  assumes "i \<le> n" "n \<le> length data" "length data < 2 ^ 63"
  shows "\<exists>j cs'. swaths data base (base + of_nat n) (base + of_nat i) cs = Some (base + of_nat j, cs')
    \<and> i \<le> j \<and> j \<le> n \<and> lanes_val cs' = crc_bytes POLY_CRC32C (lanes_val cs) (slice data i j)"
  using assms
proof (induction "n - i" arbitrary: i cs rule: less_induct)
  case less
  have d: "sint (base + of_nat n - (base + of_nat i) :: u64) = int (n - i)"
    using less.prems by (intro off_diff) auto
  show ?case
  proof (cases "16 \<le> n - i")
    case False
    then have "swaths data base (base + of_nat n) (base + of_nat i) cs = Some (base + of_nat i, cs)"
      by (subst swaths.simps) (simp only: d, simp)
    with less.prems show ?thesis by (intro exI [of _ i] exI [of _ cs]) simp
  next
    case True
    then have i16: "i + 16 \<le> length data" using less.prems by linarith
    obtain cs1 where c: "STEP16 data base (base + of_nat i) cs = Some (base + of_nat (i + 16), cs1)"
      "lanes_val cs1 = crc_bytes POLY_CRC32C (lanes_val cs) (slice data i (i + 16))"
      by (rule STEP16_ok [OF i16 less.prems(3)])
    have ge: "16 \<le> sint (base + of_nat n - (base + of_nat i) :: u64)" unfolding d using True by linarith
    have step: "swaths data base (base + of_nat n) (base + of_nat i) cs =
        swaths data base (base + of_nat n) (base + of_nat (i + 16)) cs1"
      by (subst swaths.simps) (simp only: ge c(1) bind.bind_lunit prod.case if_True)
    have "n - (i + 16) < n - i" "i + 16 \<le> n" using True by auto
    from less.hyps [OF this less.prems(2,3), of cs1] obtain j cs' where
      j: "swaths data base (base + of_nat n) (base + of_nat (i + 16)) cs1 = Some (base + of_nat j, cs')"
      "i + 16 \<le> j" "j \<le> n" "lanes_val cs' = crc_bytes POLY_CRC32C (lanes_val cs1) (slice data (i + 16) j)"
      by blast
    then have "lanes_val cs' = crc_bytes POLY_CRC32C (lanes_val cs) (slice data i j)"
      using slice_append [of i "i + 16" j data] by (simp add: c(2) flip: crc_bytes_append)
    with j step show ?thesis by (intro exI [of _ j] exI [of _ cs']) simp
  qed
qed

lemma process_strides_ok:
  assumes "i \<le> n" "n \<le> length data" "length data < 2 ^ 63"
  shows "\<exists>j. process_strides data base (base + of_nat n) (base + of_nat i) l =
      Some (base + of_nat j, crc_bytes POLY_CRC32C l (slice data i j)) \<and> i \<le> j \<and> j \<le> n"
proof -
  have d: "sint (base + of_nat n - (base + of_nat i) :: u64) = int (n - i)"
    using assms by (intro off_diff) auto
  show ?thesis
  proof (cases "16 \<le> n - i")
    case False
    then have "\<not> 16 \<le> sint (base + of_nat n - (base + of_nat i) :: u64)" unfolding d by linarith
    then have "process_strides data base (base + of_nat n) (base + of_nat i) l = Some (base + of_nat i, l)"
      by (simp only: process_strides_def if_False)
    then show ?thesis using assms by (intro exI [of _ i]) simp
  next
    case True
    then have ge: "16 \<le> sint (base + of_nat n - (base + of_nat i) :: u64)" unfolding d by linarith
    have i16: "i + 16 \<le> length data" "i + 16 \<le> n" using True assms by auto
    obtain cs where ld: "load_strides data base (base + of_nat i) l = Some (base + of_nat (i + 16), cs)"
      and cs: "lanes_val cs = crc_bytes POLY_CRC32C l (slice data i (i + 16))"
      using load_strides_ok [OF i16(1) assms(3), of base l] load_strides_val [OF i16(1), of l] by blast
    obtain k cs1 where sw: "swaths data base (base + of_nat n) (base + of_nat (i + 16)) cs = Some (base + of_nat k, cs1)"
      "i + 16 \<le> k" "k \<le> n" "lanes_val cs1 = crc_bytes POLY_CRC32C (lanes_val cs) (slice data (i + 16) k)"
      using swaths_ok [OF i16(2) assms(2,3), of base cs] by blast
    obtain j cs2 where w: "words data base (base + of_nat n) (base + of_nat k) cs1 = Some (base + of_nat j, cs2)"
      "k \<le> j" "j \<le> n" "lanes_val cs2 = crc_bytes POLY_CRC32C (lanes_val cs1) (slice data k j)"
      using words_ok [OF sw(3) assms(2,3), of base cs1] by blast
    have "process_strides data base (base + of_nat n) (base + of_nat i) l = Some (base + of_nat j, lanes_val cs2)"
      by (simp only: process_strides_def ge if_True ld sw(1) w(1) combine_strides_ok bind.bind_lunit prod.case)
    moreover have "slice data i j = slice data i (i + 16) @ slice data (i + 16) k @ slice data k j"
      using w(2) sw(2) by (intro slice_append3) auto
    then have "lanes_val cs2 = crc_bytes POLY_CRC32C l (slice data i j)"
      by (simp only: w(4) sw(4) cs crc_bytes_append)
    ultimately show ?thesis using sw(2) w(2,3) by (intro exI [of _ j]) simp
  qed
qed

section \<open>Alignment\<close>

definition pad4 :: "u64 \<Rightarrow> nat" where
  "pad4 p = (4 - unat p mod 4) mod 4"

lemma pad4_nat: "4 * ((m + 3) div 4) = m + (4 - m mod 4) mod 4" for m :: nat
proof -
  define q r where "q = m div 4" and "r = m mod 4"
  then have m: "m = 4 * q + r" and r: "r < 4" by simp_all
  have "(4 * q + r + 3) div 4 = q + (r + 3) div 4" by (simp add: add.assoc)
  with m r_def have "4 * ((m + 3) div 4) = 4 * q + 4 * ((r + 3) div 4)" by simp
  moreover from r consider "r = 0" | "r = 1" | "r = 2" | "r = 3" by linarith
  then have "4 * ((r + 3) div 4) = r + (4 - r) mod 4" by cases simp_all
  ultimately show ?thesis using m unfolding r_def by linarith
qed

lemma pad4_less: "pad4 p < 4"
  by (simp add: pad4_def)

lemma RoundUp_4:
  assumes "unat p + 3 < 2 ^ 64"
  shows "RoundUp p 4 = p + of_nat (pad4 p)"
proof -
  have m: "word_of_int (4 - 1) = (mask 2 :: u64)" by (simp add: mask_eq_exp_minus_1)
  have "w AND NOT (mask k) = push_bit k (drop_bit k w)" for w :: u64 and k
    by (rule bit_word_eqI) (auto simp: bit_simps)
  then have "RoundUp p 4 = push_bit 2 (drop_bit 2 (p + mask 2))" by (simp only: RoundUp_def m)
  then have r: "RoundUp p 4 = push_bit 2 (drop_bit 2 (p + 3))" by (simp add: mask_eq_exp_minus_1)
  have "unat (p + 3) = unat p + 3" using assms by (simp add: unat_word_ariths)
  then have "unat (push_bit 2 (drop_bit 2 (p + 3))) = 4 * ((unat p + 3) div 4)"
    using assms unat_less_64 [of p]
    by (simp add: push_bit_eq_mult unat_word_ariths unat_drop mult.commute)
  also have "\<dots> = unat p + pad4 p" by (simp only: pad4_def pad4_nat)
  finally have "unat (RoundUp p 4) = unat p + pad4 p" by (simp only: r)
  moreover have "unat p + pad4 p < 2 ^ 64" "pad4 p < 2 ^ 64" using assms pad4_less [of p] by auto
  ultimately show ?thesis
    by (simp add: word_unat_eq_iff unat_word_ariths unat_of_nat_id)
qed

lemma align_bytes_ok:
  assumes "n \<le> length data" "length data < 2 ^ 63" "unat base + n + 3 < 2 ^ 64"
  shows "\<exists>i. align_bytes data base (base + of_nat n) base l =
      Some (base + of_nat i, crc_bytes POLY_CRC32C l (slice data 0 i)) \<and> i \<le> n
      \<and> i = (if pad4 base \<le> n then pad4 base else 0)"
proof -
  have r: "RoundUp base 4 = base + of_nat (pad4 base)" using assms by (intro RoundUp_4) simp
  have pad: "pad4 base \<le> 3" using pad4_less [of base] by simp
  have u: "unat (base + of_nat k) = unat base + k" if "k \<le> n \<or> k \<le> 3" for k
    using that assms by (auto simp: unat_word_ariths unat_of_nat_id)
  have le: "RoundUp base 4 \<le> base + of_nat n \<longleftrightarrow> pad4 base \<le> n"
    unfolding r word_le_nat_alt using u [of n] u [of "pad4 base"] pad by simp
  show ?thesis
  proof (cases "pad4 base \<le> n")
    case True
    then show ?thesis using assms bytes_until_ok [of 0 "pad4 base" data base l] le
      by (simp add: align_bytes_def r)
  next
    case False
    with le show ?thesis by (simp add: align_bytes_def)
  qed
qed

lemma all_ones_32: "(- 1 :: u32) = 0xffffffff"
proof -
  have "(- 1 :: u32) = mask 32" by (rule bit_word_eqI) (simp add: bit_simps)
  also have "\<dots> = 0xffffffff" by (simp only: mask_eq_exp_minus_1) simp
  finally show ?thesis .
qed

lemma crc32c_extend_via:
  assumes "0 \<le> len" "nat len \<le> length data" "length data < 2 ^ 63" "unat base + nat len + 3 < 2 ^ 64"
    and al: "align_bytes data base (base + of_nat (nat len)) base (NOT crc) = Some (base + of_nat i, l)"
    and ps: "process_strides data base (base + of_nat (nat len)) (base + of_nat i) l = Some (base + of_nat j, l')"
    and j: "j \<le> nat len"
  shows "crc32c_extend base crc data len = Some (NOT (crc_bytes POLY_CRC32C l' (slice data j (nat len))))"
proof -
  have e: "base + word_of_int len = base + of_nat (nat len)" using assms(1) by simp
  have x: "w XOR 0xffffffff = NOT w" for w :: u32
    using bit.xor_one_right [of w] all_ones_32 by (simp only:)
  have "\<not> canAccelerateCRC32C" by (simp add: canAccelerateCRC32C_def acceleratedCRC32C_def)
  then show ?thesis unfolding crc32c_extend_def e x Let_def
    by (simp only: if_False al ps bytes_until_ok [OF j assms(2,3)] bind.bind_lunit prod.case)
qed

section \<open>Masking\<close>

lemma rotate_back: "drop_bit 17 (drop_bit 15 w OR push_bit 17 w) OR push_bit 15 (drop_bit 15 w OR push_bit 17 w) = w"
  for w :: u32
proof (rule bit_word_eqI)
  fix n assume "n < LENGTH(32)"
  then show "bit (drop_bit 17 (drop_bit 15 w OR push_bit 17 w) OR push_bit 15 (drop_bit 15 w OR push_bit 17 w)) n = bit w n"
    by (cases "n < 15") (auto simp: bit_simps dest: bit_imp_le_length)
qed

section \<open>Results\<close>

text \<open>The table loops compute the checksums of their polynomials, one bit at a time and without reading
  outside of the buffer: \<open>crc16xmodem\<close> the polynomial \<open>0x1021\<close> from the high end, \<open>crc32jamcrc\<close> the reflected
  polynomial of CRC-32 with initial value \<open>0xffffffff\<close>. \<open>crc32c_unmask\<close> undoes \<open>crc32c_mask\<close>.\<close>

theorem table_checksums_exact:
  assumes "0 \<le> len" "nat len \<le> length buf" "len < 2 ^ 31"
  shows "crc16xmodem buf len = Some (crc_bytesl 0x1021 0 (take (nat len) buf))
    \<and> crc32jamcrc buf len = Some (crc_bytes POLY_CRC32 0xffffffff (take (nat len) buf))
    \<and> crc32c_unmask (crc32c_mask c) = c"
proof -
  have n: "unat (word_of_int len :: u32) = nat len" using assms by (intro unat_of_int_id) auto
  have "crc16xmodem buf len = Some (crc_bytesl 0x1021 0 (take (nat len) buf))"
    unfolding crc16xmodem_def crc_bytesl_def
    using for_bytes_fold [OF crc16xmodem_step_ok, of 0 "nat len" buf] assms by simp
  moreover have "crc32jamcrc buf len = Some (crc_bytes POLY_CRC32 0xffffffff (take (nat len) buf))"
    unfolding crc32jamcrc_def crc_bytes_def n
    using for_bytes_fold [OF crc32jamcrc_step_ok, of 0 "nat len" buf] assms by simp
  moreover have "crc32c_unmask (crc32c_mask c) = c"
    by (simp only: crc32c_unmask_def crc32c_mask_def Let_def add_diff_cancel_right' rotate_back)
  ultimately show ?thesis by blast
qed

theorem table_checksums_exact_witness:
  "crc16xmodem [49, 50] 2 = Some (crc_bytesl 0x1021 0 [49, 50])
   \<and> crc32jamcrc [49, 50] 2 = Some (crc_bytes POLY_CRC32 0xffffffff [49, 50])
   \<and> crc32c_unmask (crc32c_mask 0xe3069283) = 0xe3069283"
  using table_checksums_exact [of 2 "[49, 50]", where c = "0xe3069283"] by simp

text \<open>C3. \<open>crc32c_extend\<close> returns CRC-32C for every length and every alignment of the buffer: the byte steps up
  to an aligned address, the four interleaved strides, their combination and the last bytes agree with the
  checksum computed bit by bit.\<close>

theorem crc32c_extend_exact:
  assumes "0 \<le> len" "nat len \<le> length data" "length data < 2 ^ 63" "unat base + nat len + 3 < 2 ^ 64"
  shows "crc32c_extend base crc data len = Some (NOT (crc_bytes POLY_CRC32C (NOT crc) (take (nat len) data)))"
proof -
  let ?n = "nat len"
  obtain i where i: "align_bytes data base (base + of_nat ?n) base (NOT crc) =
      Some (base + of_nat i, crc_bytes POLY_CRC32C (NOT crc) (slice data 0 i))"
    "i \<le> ?n" "i = (if pad4 base \<le> ?n then pad4 base else 0)"
    using align_bytes_ok [OF assms(2-4)] by blast
  obtain j where j: "process_strides data base (base + of_nat ?n) (base + of_nat i)
      (crc_bytes POLY_CRC32C (NOT crc) (slice data 0 i)) =
      Some (base + of_nat j, crc_bytes POLY_CRC32C (crc_bytes POLY_CRC32C (NOT crc) (slice data 0 i)) (slice data i j))"
    "i \<le> j" "j \<le> ?n"
    using process_strides_ok [OF i(2) assms(2,3)] by blast
  have "take ?n data = slice data 0 i @ slice data i j @ slice data j ?n"
    using slice_append3 [of 0 i j ?n data] j by simp
  then show ?thesis
    using crc32c_extend_via [OF assms(1-4) i(1) j(1,3)] by (simp only: crc_bytes_append)
qed

theorem crc32c_extend_exact_witness:
  "crc32c_extend 2 0 [49, 50] 2 = Some (NOT (crc_bytes POLY_CRC32C (NOT 0) [49, 50]))"
  using crc32c_extend_exact [of 2 "[49, 50]" 2 0] by simp

end
