(* ===== verification/Crc64.thy ===== *)
theory Crc64
  imports CrcSpec
begin

text \<open>
  The 64-bit checksum: \<open>src/crc/crc64.c\<close> and \<open>src/crc/crc64_redis.c\<close>. Eight slicing tables are computed from a
  bit-by-bit routine; long buffers are cut into two or three parts that are processed in parallel, and the
  results are merged by multiplication with matrices over GF(2), which are cached. The buffer is a list of
  bytes at the address \<open>base\<close>, pointers are offsets into it, and a read outside of it is \<open>None\<close>. The host is
  little endian; the variants for big-endian hosts are not modelled. The preprocessor symbols that would
  select the vector multiplication (\<open>__i386__\<close>, \<open>__X86_64__\<close>) are not those of a 64-bit compiler, so that
  \<open>CRC_MULTIPLY\<close> is \<open>gf2_matrix_times_switch\<close>.
\<close>

section \<open>Bit by bit: \<open>crc64_redis.c\<close>\<close>

abbreviation (input) POLY64 :: u64 where
  "POLY64 \<equiv> 0xad93d23594c935a9"

definition bswap64 :: "u64 \<Rightarrow> u64" where
  "bswap64 w =
     push_bit 56 (ucast (ucast w :: byte)) OR push_bit 48 (ucast (ucast (drop_bit 8 w) :: byte))
     OR push_bit 40 (ucast (ucast (drop_bit 16 w) :: byte)) OR push_bit 32 (ucast (ucast (drop_bit 24 w) :: byte))
     OR push_bit 24 (ucast (ucast (drop_bit 32 w) :: byte)) OR push_bit 16 (ucast (ucast (drop_bit 40 w) :: byte))
     OR push_bit 8 (ucast (ucast (drop_bit 48 w) :: byte)) OR ucast (ucast (drop_bit 56 w) :: byte)"

definition crc_reflect :: "u64 \<Rightarrow> nat \<Rightarrow> u64" where
  "crc_reflect data data_len =
     (let data = (drop_bit 1 data AND 0x5555555555555555) OR push_bit 1 (data AND 0x5555555555555555);
          data = (drop_bit 2 data AND 0x3333333333333333) OR push_bit 2 (data AND 0x3333333333333333);
          data = (drop_bit 4 data AND 0x0F0F0F0F0F0F0F0F) OR push_bit 4 (data AND 0x0F0F0F0F0F0F0F0F);
          data = bswap64 data
      in drop_bit (64 - data_len) data)"

text \<open>One iteration of the inner loop, for the mask \<open>i\<close>.\<close>

definition crc64_bit :: "byte \<Rightarrow> u64 \<Rightarrow> byte \<Rightarrow> u64" where
  "crc64_bit c crc i =
     (let b = (crc AND 0x8000000000000000 \<noteq> 0);
          b = (if c AND i \<noteq> 0 then \<not> b else b);
          crc = push_bit 1 crc
      in if b then crc XOR POLY64 else crc)"

text \<open>The mask runs through the bits of a byte until it is shifted out.\<close>

definition crc64_byte :: "u64 \<Rightarrow> byte \<Rightarrow> u64" where
  "crc64_byte crc c = foldl (crc64_bit c) crc [0x01, 0x02, 0x04, 0x08, 0x10, 0x20, 0x40, 0x80]"

fun crc64_loop :: "u64 \<Rightarrow> byte list \<Rightarrow> nat \<Rightarrow> nat \<Rightarrow> u64 option" where
  "crc64_loop crc data offset 0 = Some crc"
| "crc64_loop crc data offset (Suc n) =
     do { c \<leftarrow> get_at data offset; crc64_loop (crc64_byte crc c) data (Suc offset) n }"

definition crc64_bitwise :: "u64 \<Rightarrow> byte list \<Rightarrow> nat \<Rightarrow> u64 option" where
  "crc64_bitwise crc data len = do { crc \<leftarrow> crc64_loop crc data 0 len; Some (crc_reflect crc 64 XOR 0) }"

section \<open>Matrices over GF(2)\<close>

text \<open>The switch of \<open>gf2_matrix_times_switch\<close>: the columns that the low four bits select.\<close>

definition gf2_nibble :: "u64 list \<Rightarrow> nat \<Rightarrow> u64 \<Rightarrow> u64 option" where
  "gf2_nibble mat m nib =
     (let at = (\<lambda>k. get_at mat (m + k)) in
      if nib = 15 then do { a \<leftarrow> at 0; b \<leftarrow> at 1; c \<leftarrow> at 2; d \<leftarrow> at 3; Some (a XOR b XOR c XOR d) }
      else if nib = 14 then do { b \<leftarrow> at 1; c \<leftarrow> at 2; d \<leftarrow> at 3; Some (b XOR c XOR d) }
      else if nib = 13 then do { a \<leftarrow> at 0; c \<leftarrow> at 2; d \<leftarrow> at 3; Some (a XOR c XOR d) }
      else if nib = 12 then do { c \<leftarrow> at 2; d \<leftarrow> at 3; Some (c XOR d) }
      else if nib = 11 then do { a \<leftarrow> at 0; b \<leftarrow> at 1; d \<leftarrow> at 3; Some (a XOR b XOR d) }
      else if nib = 10 then do { b \<leftarrow> at 1; d \<leftarrow> at 3; Some (b XOR d) }
      else if nib = 9 then do { a \<leftarrow> at 0; d \<leftarrow> at 3; Some (a XOR d) }
      else if nib = 8 then at 3
      else if nib = 7 then do { a \<leftarrow> at 0; b \<leftarrow> at 1; c \<leftarrow> at 2; Some (a XOR b XOR c) }
      else if nib = 6 then do { b \<leftarrow> at 1; c \<leftarrow> at 2; Some (b XOR c) }
      else if nib = 5 then do { a \<leftarrow> at 0; c \<leftarrow> at 2; Some (a XOR c) }
      else if nib = 4 then at 2
      else if nib = 3 then do { a \<leftarrow> at 0; b \<leftarrow> at 1; Some (a XOR b) }
      else if nib = 2 then at 1
      else if nib = 1 then at 0
      else Some 0)"

function gf2_loop :: "u64 list \<Rightarrow> nat \<Rightarrow> u64 \<Rightarrow> u64 \<Rightarrow> u64 option" where
  "gf2_loop mat m vec acc =
     (if vec \<noteq> 0 then
        do { x \<leftarrow> gf2_nibble mat m (vec AND 15); gf2_loop mat (m + 4) (drop_bit 4 vec) (acc XOR x) }
      else Some acc)"
  by pat_completeness auto

termination
proof (relation "measure (\<lambda>(mat, m, vec, acc). unat vec)")
  fix mat :: "u64 list" and m and vec acc x :: u64
  assume "vec \<noteq> 0"
  then have "0 < unat vec" by (simp add: unat_gt_0)
  then have "unat vec div 2 ^ 4 < unat vec" by (simp add: div_less_dividend)
  then show "((mat, m + 4, drop_bit 4 vec, acc XOR x), (mat, m, vec, acc)) \<in> measure (\<lambda>(mat, m, vec, acc). unat vec)"
    by (simp only: in_measure prod.case unat_drop)
qed simp

declare gf2_loop.simps [simp del]

definition gf2_matrix_times_switch :: "u64 list \<Rightarrow> u64 \<Rightarrow> u64 option" where
  "gf2_matrix_times_switch mat vec = gf2_loop mat 0 vec 0"

fun square_loop :: "u64 list \<Rightarrow> u64 list \<Rightarrow> nat \<Rightarrow> nat \<Rightarrow> u64 list option" where
  "square_loop square mat n 0 = Some square"
| "square_loop square mat n (Suc k) =
     do {
       col \<leftarrow> get_at mat n;
       v \<leftarrow> gf2_matrix_times_switch mat col;
       square \<leftarrow> put_at square n v;
       square_loop square mat (Suc n) k
     }"

definition gf2_matrix_square :: "u64 list \<Rightarrow> u64 list \<Rightarrow> nat \<Rightarrow> u64 list option" where
  "gf2_matrix_square square mat dim = square_loop square mat 0 dim"

type_synonym matrices = "u64 list list"

definition square_into :: "matrices \<Rightarrow> nat \<Rightarrow> nat \<Rightarrow> nat \<Rightarrow> matrices option" where
  "square_into cache dst src dim =
     do {
       sq \<leftarrow> get_at cache dst;
       mat \<leftarrow> get_at cache src;
       row \<leftarrow> gf2_matrix_square sq mat dim;
       put_at cache dst row
     }"

fun init_rows :: "u64 list \<Rightarrow> u64 \<Rightarrow> nat \<Rightarrow> nat \<Rightarrow> u64 list option" where
  "init_rows mat row n 0 = Some mat"
| "init_rows mat row n (Suc k) = do { mat \<leftarrow> put_at mat n row; init_rows mat (push_bit 1 row) (Suc n) k }"

fun init_squares :: "matrices \<Rightarrow> nat \<Rightarrow> nat \<Rightarrow> nat \<Rightarrow> matrices option" where
  "init_squares cache dim cache_num 0 = Some cache"
| "init_squares cache dim cache_num (Suc k) =
     do {
       cache \<leftarrow> square_into cache cache_num (if cache_num = 0 then 1 else cache_num - 1) dim;
       init_squares cache dim (Suc cache_num) k
     }"

definition init_combine_cache :: "matrices \<Rightarrow> u64 \<Rightarrow> nat \<Rightarrow> matrices option" where
  "init_combine_cache cache poly dim =
     do {
       mat \<leftarrow> get_at cache 1;
       mat \<leftarrow> put_at mat 0 poly;
       mat \<leftarrow> init_rows mat 1 1 (dim - 1);
       cache \<leftarrow> put_at cache 1 mat;
       cache \<leftarrow> square_into cache 0 1 dim;
       cache \<leftarrow> square_into cache 1 0 dim;
       init_squares cache dim 0 64
     }"

function combine_loop :: "matrices \<Rightarrow> nat \<Rightarrow> nat \<Rightarrow> u64 \<Rightarrow> u64 option" where
  "combine_loop cache cache_num len2 crc1 =
     do {
       crc1 \<leftarrow> (if odd len2 then do { mat \<leftarrow> get_at cache cache_num; gf2_matrix_times_switch mat crc1 }
               else Some crc1);
       let len2 = len2 div 2;
       let cache_num = (cache_num + 1) mod 64;
       (if len2 \<noteq> 0 then combine_loop cache cache_num len2 crc1 else Some crc1)
     }"
  by pat_completeness auto

termination
  by (relation "measure (\<lambda>(cache, cache_num, len2, crc1). len2)") auto

declare combine_loop.simps [simp del]

definition crc64_combine :: "matrices \<Rightarrow> u64 \<Rightarrow> u64 \<Rightarrow> nat \<Rightarrow> u64 \<Rightarrow> nat \<Rightarrow> (matrices \<times> u64) option" where
  "crc64_combine cache crc1 crc2 len2 poly dim =
     (if len2 = 0 then Some (cache, crc1)
      else
        do {
          mat \<leftarrow> get_at cache 0;
          x \<leftarrow> get_at mat 0;
          cache \<leftarrow> (if x = 0 then init_combine_cache cache poly dim else Some cache);
          crc1 \<leftarrow> combine_loop cache 0 len2 crc1;
          Some (cache, crc1 XOR crc2)
        })"

section \<open>Slicing\<close>

abbreviation (input) CRC64_REVERSED_POLY :: u64 where
  "CRC64_REVERSED_POLY \<equiv> 0x95ac9329ac4bc9b5"

abbreviation (input) CRC64_LEN_MASK :: u64 where
  "CRC64_LEN_MASK \<equiv> 0x7ffffffffffffff8"

text \<open>The entries \<open>table[1][n]\<close> to \<open>table[7][n]\<close> are computed from \<open>table[0][n]\<close> one after the other.\<close>

primrec nested_crc :: "u64 list \<Rightarrow> nat \<Rightarrow> u64 \<Rightarrow> u64 option" where
  "nested_crc t0 0 crc = Some crc"
| "nested_crc t0 (Suc k) crc =
     do {
       crc \<leftarrow> nested_crc t0 k crc;
       t \<leftarrow> get_at t0 (unat (crc AND 0xff));
       Some (t XOR drop_bit 8 crc)
     }"

fun mapM :: "('a \<Rightarrow> 'b option) \<Rightarrow> 'a list \<Rightarrow> 'b list option" where
  "mapM f [] = Some []"
| "mapM f (x # xs) = do { y \<leftarrow> f x; ys \<leftarrow> mapM f xs; Some (y # ys) }"

definition crcspeed64little_init :: "(u64 \<Rightarrow> byte list \<Rightarrow> nat \<Rightarrow> u64 option) \<Rightarrow> u64 list list option" where
  "crcspeed64little_init crcfn =
     do {
       t0 \<leftarrow> mapM (\<lambda>n. crcfn 0 [of_nat n] 1) [0..<256];
       mapM (\<lambda>k. mapM (nested_crc t0 k) t0) [0..<8]
     }"

definition table_at :: "u64 list list \<Rightarrow> nat \<Rightarrow> byte \<Rightarrow> u64 option" where
  "table_at tab k b = do { row \<leftarrow> get_at tab k; get_at row (unat b) }"

definition load_u64 :: "byte list \<Rightarrow> nat \<Rightarrow> u64 option" where
  "load_u64 buf p = map_option le_word (mem_read buf p 8)"

definition DO_8_1 :: "byte list \<Rightarrow> u64 \<Rightarrow> nat \<Rightarrow> (u64 \<times> nat) option" where
  "DO_8_1 buf crc p = do { w \<leftarrow> load_u64 buf p; Some (crc XOR w, p + 8) }"

definition DO_8_2 :: "u64 list list \<Rightarrow> u64 \<Rightarrow> u64 option" where
  "DO_8_2 tab crc =
     do {
       t7 \<leftarrow> table_at tab 7 (ucast crc);
       t6 \<leftarrow> table_at tab 6 (ucast (drop_bit 8 crc));
       t5 \<leftarrow> table_at tab 5 (ucast (drop_bit 16 crc));
       t4 \<leftarrow> table_at tab 4 (ucast (drop_bit 24 crc));
       t3 \<leftarrow> table_at tab 3 (ucast (drop_bit 32 crc));
       t2 \<leftarrow> table_at tab 2 (ucast (drop_bit 40 crc));
       t1 \<leftarrow> table_at tab 1 (ucast (drop_bit 48 crc));
       t0 \<leftarrow> table_at tab 0 (ucast (drop_bit 56 crc));
       Some (t7 XOR t6 XOR t5 XOR t4 XOR t3 XOR t2 XOR t1 XOR t0)
     }"

text \<open>One byte: \<open>little_table[0][(crc1 ^ *next1++) & 0xff] ^ (crc1 >> 8)\<close>.\<close>

definition byte_step :: "u64 list list \<Rightarrow> byte list \<Rightarrow> nat \<Rightarrow> u64 \<Rightarrow> u64 option" where
  "byte_step tab buf p crc =
     do { b \<leftarrow> get_at buf p; t \<leftarrow> table_at tab 0 (ucast (crc XOR ucast b)); Some (t XOR drop_bit 8 crc) }"

fun align_loop :: "u64 list list \<Rightarrow> u64 \<Rightarrow> byte list \<Rightarrow> nat \<Rightarrow> nat \<Rightarrow> u64 \<Rightarrow> (nat \<times> nat \<times> u64) option" where
  "align_loop tab base buf p 0 crc = Some (p, 0, crc)"
| "align_loop tab base buf p (Suc len) crc =
     (if (base + of_nat p) AND 7 \<noteq> 0
      then do { crc \<leftarrow> byte_step tab buf p crc; align_loop tab base buf (p + 1) len crc }
      else Some (p, Suc len, crc))"

fun eights :: "u64 list list \<Rightarrow> byte list \<Rightarrow> nat \<Rightarrow> nat \<Rightarrow> u64 \<Rightarrow> (nat \<times> nat \<times> u64) option" where
  "eights tab buf p len crc =
     (if len \<ge> 8 then
        do {
          (crc, p) \<leftarrow> DO_8_1 buf crc p;
          crc \<leftarrow> DO_8_2 tab crc;
          eights tab buf p (len - 8) crc
        }
      else Some (p, len, crc))"

declare eights.simps [simp del]

fun bytes_loop :: "u64 list list \<Rightarrow> byte list \<Rightarrow> nat \<Rightarrow> nat \<Rightarrow> u64 \<Rightarrow> u64 option" where
  "bytes_loop tab buf p 0 crc = Some crc"
| "bytes_loop tab buf p (Suc len) crc =
     do { crc \<leftarrow> byte_step tab buf p crc; bytes_loop tab buf (p + 1) len crc }"

fun dual_loop :: "u64 list list \<Rightarrow> byte list \<Rightarrow> nat \<Rightarrow> nat \<Rightarrow> nat \<Rightarrow> u64 \<Rightarrow> u64 \<Rightarrow> (nat \<times> nat \<times> u64 \<times> u64) option" where
  "dual_loop tab buf len p1 p2 crc1 crc2 =
     (if len \<ge> 8 then
        do {
          (crc1, p1) \<leftarrow> DO_8_1 buf crc1 p1;
          (crc2, p2) \<leftarrow> DO_8_1 buf crc2 p2;
          crc1 \<leftarrow> DO_8_2 tab crc1;
          crc2 \<leftarrow> DO_8_2 tab crc2;
          dual_loop tab buf (len - 8) p1 p2 crc1 crc2
        }
      else Some (p1, p2, crc1, crc2))"

declare dual_loop.simps [simp del]

fun tri_loop :: "u64 list list \<Rightarrow> byte list \<Rightarrow> nat \<Rightarrow> nat \<Rightarrow> nat \<Rightarrow> nat \<Rightarrow> u64 \<Rightarrow> u64 \<Rightarrow> u64
    \<Rightarrow> (nat \<times> nat \<times> nat \<times> u64 \<times> u64 \<times> u64) option" where
  "tri_loop tab buf len p1 p2 p3 crc1 crc2 crc3 =
     (if len \<ge> 8 then
        do {
          (crc1, p1) \<leftarrow> DO_8_1 buf crc1 p1;
          (crc2, p2) \<leftarrow> DO_8_1 buf crc2 p2;
          (crc3, p3) \<leftarrow> DO_8_1 buf crc3 p3;
          crc1 \<leftarrow> DO_8_2 tab crc1;
          crc2 \<leftarrow> DO_8_2 tab crc2;
          crc3 \<leftarrow> DO_8_2 tab crc3;
          tri_loop tab buf (len - 8) p1 p2 p3 crc1 crc2 crc3
        }
      else Some (p1, p2, p3, crc1, crc2, crc3))"

declare tri_loop.simps [simp del]

definition CRC64_SPLIT :: "nat \<Rightarrow> nat \<Rightarrow> nat" where
  "CRC64_SPLIT len d = unat ((of_nat (len div d) :: u64) AND CRC64_LEN_MASK)"

text \<open>The static variables of the two files.\<close>

record crc64_state =
  CRC64_DUAL_CUTOFF :: nat
  CRC64_TRI_CUTOFF :: nat
  combine_cache :: matrices
  crc64_table :: "u64 list list"
  crc64_redis_inited :: bool

definition crc64_static :: crc64_state where
  "crc64_static = \<lparr>CRC64_DUAL_CUTOFF = 1024, CRC64_TRI_CUTOFF = 16 * 1024,
     combine_cache = replicate 64 (replicate 64 0), crc64_table = replicate 8 (replicate 256 0),
     crc64_redis_inited = False\<rparr>"

definition set_crc64_cutoffs :: "crc64_state \<Rightarrow> nat \<Rightarrow> nat \<Rightarrow> crc64_state" where
  "set_crc64_cutoffs st dual_cutoff tri_cutoff =
     st\<lparr>CRC64_DUAL_CUTOFF := dual_cutoff, CRC64_TRI_CUTOFF := tri_cutoff\<rparr>"

text \<open>The two and three lanes: the offset and the length that remain, and the merged checksum.\<close>

definition two_lanes :: "u64 list list \<Rightarrow> matrices \<Rightarrow> byte list \<Rightarrow> nat \<Rightarrow> nat \<Rightarrow> u64
    \<Rightarrow> (matrices \<times> nat \<times> nat \<times> u64) option" where
  "two_lanes tab cache buf next1 olen crc1 =
     do {
       let len = CRC64_SPLIT olen 2;
       let next2 = next1 + len;
       (p1, p2, crc1, crc2) \<leftarrow> dual_loop tab buf len next1 next2 crc1 0;
       (cache, crc1) \<leftarrow> crc64_combine cache crc1 crc2 (p2 - p1) CRC64_REVERSED_POLY 64;
       Some (cache, p2, olen - (p2 - p1) * 2, crc1)
     }"

definition three_lanes :: "u64 list list \<Rightarrow> matrices \<Rightarrow> byte list \<Rightarrow> nat \<Rightarrow> nat \<Rightarrow> u64
    \<Rightarrow> (matrices \<times> nat \<times> nat \<times> u64) option" where
  "three_lanes tab cache buf next1 olen crc1 =
     do {
       let len = CRC64_SPLIT olen 3;
       let next2 = next1 + len;
       let next3 = next2 + len;
       (p1, p2, p3, crc1, crc2, crc3) \<leftarrow> tri_loop tab buf len next1 next2 next3 crc1 0 0;
       (cache, crc1) \<leftarrow> crc64_combine cache crc1 crc2 (p2 - p1) CRC64_REVERSED_POLY 64;
       (cache, crc1) \<leftarrow> crc64_combine cache crc1 crc3 (p2 - p1) CRC64_REVERSED_POLY 64;
       Some (cache, p3, olen - (p2 - p1) * 3, crc1)
     }"

definition crcspeed64little ::
  "crc64_state \<Rightarrow> u64 list list \<Rightarrow> u64 \<Rightarrow> u64 \<Rightarrow> byte list \<Rightarrow> nat \<Rightarrow> (crc64_state \<times> u64) option" where
  "crcspeed64little st tab crc1 base buf len =
     (if CRC64_DUAL_CUTOFF st < 1 then do { crc1 \<leftarrow> bytes_loop tab buf 0 len crc1; Some (st, crc1) }
      else
        do {
          (next1, len, crc1) \<leftarrow> align_loop tab base buf 0 len crc1;
          (cache, next1, len, crc1) \<leftarrow>
            (if len > CRC64_TRI_CUTOFF st then three_lanes tab (combine_cache st) buf next1 len crc1
             else if len > CRC64_DUAL_CUTOFF st then two_lanes tab (combine_cache st) buf next1 len crc1
             else Some (combine_cache st, next1, len, crc1));
          (next1, len, crc1) \<leftarrow> eights tab buf next1 len crc1;
          crc1 \<leftarrow> bytes_loop tab buf next1 len crc1;
          Some (st\<lparr>combine_cache := cache\<rparr>, crc1)
        })"

text \<open>The selection by the byte order of the host, on a little-endian host.\<close>

definition crcspeed64native_init :: "(u64 \<Rightarrow> byte list \<Rightarrow> nat \<Rightarrow> u64 option) \<Rightarrow> u64 list list option" where
  "crcspeed64native_init fn = crcspeed64little_init fn"

definition crcspeed64native ::
  "crc64_state \<Rightarrow> u64 list list \<Rightarrow> u64 \<Rightarrow> u64 \<Rightarrow> byte list \<Rightarrow> nat \<Rightarrow> (crc64_state \<times> u64) option" where
  "crcspeed64native st tab crc base buf len = crcspeed64little st tab crc base buf len"

definition crc64_redis_init :: "crc64_state \<Rightarrow> crc64_state option" where
  "crc64_redis_init st = do { t \<leftarrow> crcspeed64native_init crc64_bitwise; Some (st\<lparr>crc64_table := t\<rparr>) }"

definition crc64_redis :: "crc64_state \<Rightarrow> u64 \<Rightarrow> u64 \<Rightarrow> byte list \<Rightarrow> nat \<Rightarrow> (crc64_state \<times> u64) option" where
  "crc64_redis st crc base s l =
     do {
       st \<leftarrow> (if \<not> crc64_redis_inited st
             then do { st \<leftarrow> crc64_redis_init st; Some (st\<lparr>crc64_redis_inited := True\<rparr>) }
             else Some st);
       crcspeed64native st (crc64_table st) crc base s l
     }"

section \<open>The bit-by-bit routine\<close>

lemma upt_64: "[0..<64] = [0, 1, 2, 3, 4, 5, 6, 7, 8, 9, 10, 11, 12, 13, 14, 15, 16, 17, 18, 19, 20, 21, 22, 23, 24, 25, 26, 27, 28, 29, 30, 31, 32, 33, 34, 35, 36, 37, 38, 39, 40, 41, 42, 43, 44, 45, 46, 47, 48, 49, 50, 51, 52, 53, 54, 55, 56, 57, 58, 59, 60, 61, 62, 63 :: nat]"
  by (simp add: upt_rec)

lemma below_64: "list_all P [0..<64] \<Longrightarrow> i < 64 \<Longrightarrow> P i"
  by (simp add: list_all_iff)

lemma swap_masks:
  "list_all (\<lambda>i. bit (0x5555555555555555 :: u64) i \<longleftrightarrow> even (i div 1)) [0..<64]"
  "list_all (\<lambda>i. bit (0x3333333333333333 :: u64) i \<longleftrightarrow> even (i div 2)) [0..<64]"
  "list_all (\<lambda>i. bit (0x0F0F0F0F0F0F0F0F :: u64) i \<longleftrightarrow> even (i div 4)) [0..<64]"
  unfolding upt_64 list.pred_inject by simp_all

abbreviation (input) swap_pos :: "nat \<Rightarrow> nat \<Rightarrow> nat" where
  "swap_pos s i \<equiv> if even (i div s) then i + s else i - s"

lemma bit_swap:
  fixes w M :: u64
  assumes "list_all (\<lambda>i. bit M i \<longleftrightarrow> even (i div s)) [0..<64]" "s \<in> {1, 2, 4}" "i < 64"
  shows "bit ((drop_bit s w AND M) OR push_bit s (w AND M)) i = bit w (swap_pos s i)"
proof -
  have M: "bit M j \<longleftrightarrow> even (j div s)" if "j < 64" for j using below_64 [OF assms(1) that] .
  have d: "(i - s) div s = i div s - 1" if "s \<le> i" using that by (cases "s = 0") (simp_all add: le_div_geq)
  show ?thesis
  proof (cases "even (i div s)")
    case True
    have "i + s < 64" using assms(2,3) True by auto presburger+
    have "\<not> bit M (i - s)" if "s \<le> i" 
      using that True assms(2,3) M [of "i - s"] d by (auto simp: div_greater_zero_iff)
    with True M [OF assms(3)] show ?thesis by (auto simp: bit_simps add.commute)
  next
    case False
    then have "s \<le> i" by (metis div_less even_zero not_le)
    with False M [of i] M [of "i - s"] d assms(2,3) show ?thesis
      by (auto simp: bit_simps dest: bit_imp_le_length)
  qed
qed

lemma bit_bswap64: "i < 64 \<Longrightarrow> bit (bswap64 w) i \<longleftrightarrow> bit w (56 - 8 * (i div 8) + i mod 8)"
proof (rule below_64 [where P = "\<lambda>i. bit (bswap64 w) i \<longleftrightarrow> bit w (56 - 8 * (i div 8) + i mod 8)"])
  show "list_all (\<lambda>i. bit (bswap64 w) i \<longleftrightarrow> bit w (56 - 8 * (i div 8) + i mod 8)) [0..<64]"
    unfolding upt_64 list.pred_inject bswap64_def bit_or_iff bit_push_bit_iff by (simp add: bit_simps flip: numeral_2_eq_2)
qed

lemma reflect_pos:
  "list_all (\<lambda>i. let a = 56 - 8 * (i div 8) + i mod 8; b = swap_pos 4 a; c = swap_pos 2 b; d = swap_pos 1 c
     in a < 64 \<and> b < 64 \<and> c < 64 \<and> d = 63 - i) [0..<64]"
  unfolding upt_64 list.pred_inject Let_def by simp

lemma bit_reflect:
  assumes "i < 64"
  shows "bit (crc_reflect w 64) i \<longleftrightarrow> bit w (63 - i)"
proof -
  define a where "a = 56 - 8 * (i div 8) + i mod 8"
  define b where "b = swap_pos 4 a"
  define c where "c = swap_pos 2 b"
  have p: "a < 64" "b < 64" "c < 64" "swap_pos 1 c = 63 - i"
    using below_64 [OF reflect_pos assms] unfolding Let_def a_def b_def c_def by blast+
  have m: "1 \<in> {1, 2, 4 :: nat}" "2 \<in> {1, 2, 4 :: nat}" "4 \<in> {1, 2, 4 :: nat}" by simp_all
  show ?thesis
    unfolding crc_reflect_def Let_def diff_self_eq_0 drop_bit_0 id_apply bit_bswap64 [OF assms]
    unfolding a_def [symmetric] bit_swap [OF swap_masks(3) m(3) p(1)] b_def [symmetric]
      bit_swap [OF swap_masks(2) m(2) p(2)] c_def [symmetric] bit_swap [OF swap_masks(1) m(1) p(3)] p(4) ..
qed

lemma reflect_poly: "crc_reflect POLY64 64 = CRC64_REVERSED_POLY"
  by (simp add: crc_reflect_def bswap64_def)

lemma reflect_xor: "crc_reflect (a XOR b) 64 = crc_reflect a 64 XOR crc_reflect b 64"
  by (rule bit_word_eqI) (simp add: bit_reflect bit_xor_iff)

lemma reflect_0: "crc_reflect 0 64 = 0"
  using reflect_xor [of 0 0] by simp

lemma reflect_push: "crc_reflect (push_bit 1 w) 64 = drop_bit 1 (crc_reflect w 64)"
proof (rule bit_word_eqI)
  fix i assume "i < LENGTH(64)"
  then have i: "i < 64" by simp
  have "bit (crc_reflect w 64) (1 + i) \<longleftrightarrow> i < 63 \<and> bit w (63 - i - 1)"
    using bit_reflect [of "1 + i" w] bit_imp_le_length [of "crc_reflect w 64" "1 + i"] by auto
  then show "bit (crc_reflect (push_bit 1 w) 64) i = bit (drop_bit 1 (crc_reflect w 64)) i"
    unfolding bit_reflect [OF i] bit_drop_bit_eq comp_apply bit_push_bit_iff using i by auto
qed

lemma top_bit: "crc AND 0x8000000000000000 \<noteq> 0 \<longleftrightarrow> bit crc 63" for crc :: u64
proof -
  have "(0x8000000000000000 :: u64) = 2 ^ 63" by simp
  then show ?thesis by (simp only: and_exp_eq_0_iff_not_bit simp_thms)
qed

lemma reflect_bit:
  "crc_reflect (crc64_bit c crc i) 64 =
     crc_shift CRC64_REVERSED_POLY (crc_reflect crc 64 XOR (if c AND i \<noteq> 0 then 1 else 0))"
proof -
  define d where "d = (if c AND i \<noteq> 0 then 1 else 0 :: u64)"
  have "drop_bit 1 (crc_reflect crc 64 XOR d) = drop_bit 1 (crc_reflect crc 64)"
    by (simp add: d_def drop_bit_xor)
  moreover have "bit (crc_reflect crc 64 XOR d) 0 \<longleftrightarrow> (bit crc 63 \<noteq> (c AND i \<noteq> 0))"
    using bit_reflect [of 0 crc] by (simp only: bit_xor_iff) (simp add: d_def)
  ultimately have "crc_shift CRC64_REVERSED_POLY (crc_reflect crc 64 XOR d) =
      crc_reflect (push_bit 1 crc) 64 XOR (if bit crc 63 \<noteq> (c AND i \<noteq> 0) then crc_reflect POLY64 64 else 0)"
    by (simp only: crc_shift_def reflect_push reflect_poly)
  moreover have "crc64_bit c crc i =
      push_bit 1 crc XOR (if bit crc 63 \<noteq> (c AND i \<noteq> 0) then POLY64 else 0)"
    unfolding crc64_bit_def Let_def top_bit by simp
  ultimately show ?thesis unfolding d_def [symmetric] by (auto simp: reflect_xor reflect_0)
qed

text \<open>Feeding a byte from its low bit on is the same as adding it at the low end of the register.\<close>

lemma feed_bit:
  "crc_shift p (r XOR (if bit c k then 1 else 0)) XOR drop_bit (Suc k) (ucast (c :: byte))
     = crc_shift p (r XOR drop_bit k (ucast c))" for r :: u64
proof -
  let ?d = "drop_bit k (ucast c) :: u64"
  let ?b = "if bit c k then 1 else 0 :: u64"
  have b0: "bit ?d 0 \<longleftrightarrow> bit c k" by (auto simp: bit_simps dest: bit_imp_le_length)
  have "?d = ?b XOR (?d XOR ?b)" by (simp only: xor.left_commute [of ?b ?d ?b] xor_self_eq xor.right_neutral)
  moreover have "\<not> bit (?d XOR ?b) 0" using b0 by (simp add: bit_xor_iff del: bit_0)
  then have "crc_shift p (?d XOR ?b) = drop_bit 1 (?d XOR ?b)" by (simp add: crc_shift_def)
  moreover have "drop_bit 1 (?d XOR ?b) = drop_bit (Suc k) (ucast c)" by (simp add: drop_bit_xor)
  moreover have "r XOR ?d = (r XOR ?b) XOR (?d XOR ?b)"
    by (subst \<open>?d = ?b XOR (?d XOR ?b)\<close>) (simp only: xor.assoc)
  ultimately show ?thesis by (simp only: shift.lin)
qed

lemma bit_mask_byte:
  fixes c :: byte
  shows "c AND 0x01 \<noteq> 0 \<longleftrightarrow> bit c 0" "c AND 0x02 \<noteq> 0 \<longleftrightarrow> bit c 1" "c AND 0x04 \<noteq> 0 \<longleftrightarrow> bit c 2"
    "c AND 0x08 \<noteq> 0 \<longleftrightarrow> bit c 3" "c AND 0x10 \<noteq> 0 \<longleftrightarrow> bit c 4" "c AND 0x20 \<noteq> 0 \<longleftrightarrow> bit c 5"
    "c AND 0x40 \<noteq> 0 \<longleftrightarrow> bit c 6" "c AND 0x80 \<noteq> 0 \<longleftrightarrow> bit c 7"
  using and_exp_eq_0_iff_not_bit [of c 0] and_exp_eq_0_iff_not_bit [of c 1] and_exp_eq_0_iff_not_bit [of c 2]
    and_exp_eq_0_iff_not_bit [of c 3] and_exp_eq_0_iff_not_bit [of c 4] and_exp_eq_0_iff_not_bit [of c 5]
    and_exp_eq_0_iff_not_bit [of c 6] and_exp_eq_0_iff_not_bit [of c 7]
  by simp_all

lemma reflect_byte: "crc_reflect (crc64_byte crc c) 64 = crc_byte CRC64_REVERSED_POLY (crc_reflect crc 64) c"
proof -
  let ?p = CRC64_REVERSED_POLY and ?u = "ucast c :: u64"
  let ?s = "\<lambda>r k. crc_shift ?p (r XOR (if bit c k then 1 else 0))"
  define r0 where "r0 = crc_reflect crc 64"
  have end8: "drop_bit 8 ?u = 0" by (auto simp: bit_eq_iff bit_simps dest: bit_imp_le_length)
  have step: "crc_shift ?p (r XOR drop_bit k ?u) = ?s r k XOR drop_bit (Suc k) ?u" for r k
    by (rule feed_bit [symmetric])
  have "(crc_shift ?p ^^ 8) (r0 XOR ?u) = ?s (?s (?s (?s (?s (?s (?s (?s r0 0) 1) 2) 3) 4) 5) 6) 7"
    using step [of _ 0] step [of _ 1] step [of _ 2] step [of _ 3] step [of _ 4] step [of _ 5] step [of _ 6]
      step [of _ 7] end8
    by (simp add: numeral_eq_Suc)
  then show ?thesis
    unfolding crc64_byte_def foldl.simps reflect_bit bit_mask_byte r0_def crc_byte_def by (simp only:)
qed

lemma crc64_loop_ok:
  "p + n \<le> length data \<Longrightarrow>
   \<exists>r. crc64_loop crc data p n = Some r
     \<and> crc_reflect r 64 = crc_bytes CRC64_REVERSED_POLY (crc_reflect crc 64) (take n (drop p data))"
proof (induction n arbitrary: p crc)
  case (Suc n)
  then have "take (Suc n) (drop p data) = data ! p # take n (drop (Suc p) data)"
    by (simp add: Cons_nth_drop_Suc [symmetric])
  with Suc.IH [of "Suc p" "crc64_byte crc (data ! p)"] Suc.prems show ?case
    by (simp add: get_at_def reflect_byte)
qed simp

lemma crc64_bitwise_ok:
  "n \<le> length data \<Longrightarrow>
   crc64_bitwise crc data n = Some (crc_bytes CRC64_REVERSED_POLY (crc_reflect crc 64) (take n data))"
  using crc64_loop_ok [of 0 n data crc] by (auto simp: crc64_bitwise_def)

section \<open>The slicing tables\<close>

definition slice_table :: "u64 list list" where
  "slice_table = map (\<lambda>k. map (\<lambda>n. (crc_shift CRC64_REVERSED_POLY ^^ (8 * Suc k)) (of_nat n)) [0..<256]) [0..<8]"

lemma mapM_ok: "(\<And>x. x \<in> set xs \<Longrightarrow> f x = Some (g x)) \<Longrightarrow> mapM f xs = Some (map g xs)"
  by (induction xs) auto

lemma table_at_ok:
  "k < 8 \<Longrightarrow> table_at slice_table k b = Some ((crc_shift CRC64_REVERSED_POLY ^^ (8 * Suc k)) (ucast b))"
  using unat_less_8 [of b] by (simp add: table_at_def slice_table_def get_at_def)

abbreviation (input) t0_64 :: "u64 list" where
  "t0_64 \<equiv> map (\<lambda>n. (crc_shift CRC64_REVERSED_POLY ^^ 8) (of_nat n)) [0..<256]"

interpretation t0: crc_table CRC64_REVERSED_POLY t0_64
  by unfold_locales simp_all

lemma nested_crc_ok:
  "nested_crc t0_64 k crc = Some ((crc_shift CRC64_REVERSED_POLY ^^ (8 * k)) crc)"
proof (induction k)
  case (Suc k)
  let ?c = "(crc_shift CRC64_REVERSED_POLY ^^ (8 * k)) crc"
  have "unat (?c AND 0xff) = unat (ucast ?c :: byte)"
    by (rule low_byte)
  with Suc t0.table_shift [of ?c] unat_less_8 [of "ucast ?c"] show ?case
    by (simp add: get_at_def funpow_add)
qed simp

lemma shift_8: "(f ^^ (8 * k)) ((f ^^ 8) x) = (f ^^ (8 + 8 * k)) x"
  by (simp only: add.commute [of 8] funpow_add comp_apply)

lemma crcspeed64little_init_ok: "crcspeed64little_init crc64_bitwise = Some slice_table"
proof -
  have "crc64_bitwise 0 [of_nat n] 1 = Some ((crc_shift CRC64_REVERSED_POLY ^^ 8) (of_nat n))" if "n < 256" for n
  proof -
    have "(ucast (of_nat n :: byte) :: u64) = of_nat n"
      using that by (simp add: word_unat_eq_iff unat_ucast_up unat_of_nat_id)
    then show ?thesis by (simp add: crc64_bitwise_ok reflect_0 crc_byte_def)
  qed
  then have "mapM (\<lambda>n. crc64_bitwise 0 [of_nat n] 1) [0..<256] = Some t0_64" by (intro mapM_ok) simp
  moreover have "mapM (\<lambda>k. mapM (nested_crc t0_64 k) t0_64) [0..<8] = Some slice_table"
    unfolding slice_table_def
    by (intro mapM_ok) (subst mapM_ok [OF nested_crc_ok], simp add: shift_8)
  ultimately show ?thesis by (simp add: crcspeed64little_init_def)
qed

section \<open>The loops over the buffer\<close>

abbreviation crc64_ref :: "u64 \<Rightarrow> byte list \<Rightarrow> u64" where
  "crc64_ref \<equiv> crc_bytes CRC64_REVERSED_POLY"

lemma byte_step_ok:
  assumes "p < length buf"
  shows "byte_step slice_table buf p crc = Some (crc_byte CRC64_REVERSED_POLY crc (buf ! p))"
  using assms t0.table_step [of crc "buf ! p"] t0.tab_byte [of "ucast (crc XOR ucast (buf ! p))"]
  by (simp add: byte_step_def get_at_def table_at_ok)

lemma bytes_loop_ok:
  "p + n \<le> length buf \<Longrightarrow> bytes_loop slice_table buf p n crc = Some (crc64_ref crc (take n (drop p buf)))"
proof (induction n arbitrary: p crc)
  case (Suc n)
  then have "take (Suc n) (drop p buf) = buf ! p # take n (drop (Suc p) buf)"
    by (simp add: Cons_nth_drop_Suc [symmetric])
  with Suc show ?case by (simp add: byte_step_ok)
qed simp

lemma align_loop_ok:
  "p + n \<le> length buf \<Longrightarrow>
   \<exists>k. k \<le> n \<and> align_loop slice_table base buf p n crc = Some (p + k, n - k, crc64_ref crc (take k (drop p buf)))"
proof (induction n arbitrary: p crc)
  case (Suc n)
  show ?case
  proof (cases "(base + of_nat p) AND 7 \<noteq> 0")
    case True
    obtain k where k: "k \<le> n" "align_loop slice_table base buf (p + 1) n (crc_byte CRC64_REVERSED_POLY crc (buf ! p)) =
        Some (p + 1 + k, n - k, crc64_ref (crc_byte CRC64_REVERSED_POLY crc (buf ! p)) (take k (drop (p + 1) buf)))"
      using Suc.IH [of "p + 1"] Suc.prems by auto
    have "take (Suc k) (drop p buf) = buf ! p # take k (drop (p + 1) buf)" using Suc.prems
      by (simp add: Cons_nth_drop_Suc [symmetric])
    with True k Suc.prems show ?thesis by (intro exI [of _ "Suc k"]) (simp add: byte_step_ok)
  next
    case False
    then show ?thesis by (intro exI [of _ 0]) simp
  qed
qed simp

lemma word_from_bytes64:
  fixes w :: u64
  shows "w = ucast (ucast w :: byte) XOR push_bit 8 (ucast (ucast (drop_bit 8 w) :: byte))
    XOR push_bit 16 (ucast (ucast (drop_bit 16 w) :: byte)) XOR push_bit 24 (ucast (ucast (drop_bit 24 w) :: byte))
    XOR push_bit 32 (ucast (ucast (drop_bit 32 w) :: byte)) XOR push_bit 40 (ucast (ucast (drop_bit 40 w) :: byte))
    XOR push_bit 48 (ucast (ucast (drop_bit 48 w) :: byte)) XOR push_bit 56 (ucast (ucast (drop_bit 56 w) :: byte))"
    (is "_ = ?r")
proof (rule bit_word_eqI)
  fix n assume "n < LENGTH(64)"
  then consider "n < 8" | "8 \<le> n" "n < 16" | "16 \<le> n" "n < 24" | "24 \<le> n" "n < 32" | "32 \<le> n" "n < 40"
    | "40 \<le> n" "n < 48" | "48 \<le> n" "n < 56" | "56 \<le> n" "n < 64" by simp linarith
  then show "bit w n = bit ?r n"
    unfolding bit_xor_iff bit_byte_field bit_byte_field_0 by cases simp_all
qed

lemma DO_8_2_ok: "DO_8_2 slice_table crc = Some ((crc_shift CRC64_REVERSED_POLY ^^ 64) crc)"
proof -
  let ?s = "crc_shift CRC64_REVERSED_POLY"
  have p: "(?s ^^ 64) (push_bit k (ucast b)) = (?s ^^ (64 - k)) (ucast b)" if "k \<le> 56" for k and b :: byte
  proof (rule shift_push_more)
    show "drop_bit k (push_bit k (ucast b)) = (ucast b :: u64)" using that
      by (auto simp: bit_eq_iff bit_simps dest: bit_imp_le_length)
  qed (use that in simp)
  have "(?s ^^ 64) crc = (?s ^^ 64) (ucast (ucast crc :: byte)) XOR (?s ^^ 56) (ucast (ucast (drop_bit 8 crc) :: byte))
    XOR (?s ^^ 48) (ucast (ucast (drop_bit 16 crc) :: byte)) XOR (?s ^^ 40) (ucast (ucast (drop_bit 24 crc) :: byte))
    XOR (?s ^^ 32) (ucast (ucast (drop_bit 32 crc) :: byte)) XOR (?s ^^ 24) (ucast (ucast (drop_bit 40 crc) :: byte))
    XOR (?s ^^ 16) (ucast (ucast (drop_bit 48 crc) :: byte)) XOR (?s ^^ 8) (ucast (ucast (drop_bit 56 crc) :: byte))"
    by (subst (1) word_from_bytes64 [of crc]) (simp add: shift.lin_funpow p)
  then show ?thesis by (simp add: DO_8_2_def table_at_ok)
qed

lemma eight_bytes_ok:
  assumes "p + 8 \<le> length buf"
  shows "\<exists>w. DO_8_1 buf crc p = Some (w, p + 8) \<and> DO_8_2 slice_table w = Some (crc64_ref crc (take 8 (drop p buf)))"
  using assms crc_bytes_word [of "take 8 (drop p buf)" CRC64_REVERSED_POLY crc]
  by (simp add: DO_8_1_def load_u64_def mem_read_def DO_8_2_ok)

lemma take_drop_add: "take (a + b) (drop p xs) = take a (drop p xs) @ take b (drop (p + a) xs)"
  by (simp add: take_add add.commute)

lemma take_drop_8: "8 \<le> n \<Longrightarrow> take n (drop p buf) = take 8 (drop p buf) @ take (n - 8) (drop (p + 8) buf)"
  using take_add [of 8 "n - 8" "drop p buf"] by (simp add: add.commute)

lemma eights_ok:
  "p + n \<le> length buf \<Longrightarrow>
   eights slice_table buf p n crc = Some (p + 8 * (n div 8), n mod 8, crc64_ref crc (take (8 * (n div 8)) (drop p buf)))"
proof (induction n arbitrary: p crc rule: less_induct)
  case (less n)
  show ?case
  proof (cases "8 \<le> n")
    case True
    from less.prems True obtain w where w: "DO_8_1 buf crc p = Some (w, p + 8)"
      "DO_8_2 slice_table w = Some (crc64_ref crc (take 8 (drop p buf)))"
      using eight_bytes_ok [of p buf crc] by auto
    have d: "n div 8 = Suc ((n - 8) div 8)" "n mod 8 = (n - 8) mod 8" using True by (simp_all add: le_div_geq le_mod_geq)
    have "take (8 * (n div 8)) (drop p buf) = take 8 (drop p buf) @ take (8 * ((n - 8) div 8)) (drop (p + 8) buf)"
      using take_drop_8 [of "8 * (n div 8)" p buf] d by simp
    with less.IH [of "n - 8" "p + 8" "crc64_ref crc (take 8 (drop p buf))"] True less.prems w d show ?thesis
      by (subst eights.simps) (simp add: crc_bytes_append)
  next
    case False
    then show ?thesis by (subst eights.simps) simp
  qed
qed

lemma dual_loop_ok:
  "p1 + n \<le> length buf \<Longrightarrow> p2 + n \<le> length buf \<Longrightarrow> 8 dvd n \<Longrightarrow>
   dual_loop slice_table buf n p1 p2 c1 c2 =
     Some (p1 + n, p2 + n, crc64_ref c1 (take n (drop p1 buf)), crc64_ref c2 (take n (drop p2 buf)))"
proof (induction n arbitrary: p1 p2 c1 c2 rule: less_induct)
  case (less n)
  show ?case
  proof (cases "8 \<le> n")
    case True
    with less.prems obtain w1 w2 where w: "DO_8_1 buf c1 p1 = Some (w1, p1 + 8)"
      "DO_8_2 slice_table w1 = Some (crc64_ref c1 (take 8 (drop p1 buf)))"
      "DO_8_1 buf c2 p2 = Some (w2, p2 + 8)"
      "DO_8_2 slice_table w2 = Some (crc64_ref c2 (take 8 (drop p2 buf)))"
      using eight_bytes_ok [of p1 buf c1] eight_bytes_ok [of p2 buf c2] by auto
    have "8 dvd n - 8" using less.prems(3) True by (simp add: dvd_diff_nat)
    with less.IH [of "n - 8" "p1 + 8" "p2 + 8"] True less.prems w show ?thesis
      by (subst dual_loop.simps) (simp add: crc_bytes_append take_drop_8 [OF True])
  next
    case False
    with less.prems(3) have "n = 0" using dvd_imp_le by fastforce
    then show ?thesis by (subst dual_loop.simps) simp
  qed
qed

lemma tri_loop_ok:
  "p1 + n \<le> length buf \<Longrightarrow> p2 + n \<le> length buf \<Longrightarrow> p3 + n \<le> length buf \<Longrightarrow> 8 dvd n \<Longrightarrow>
   tri_loop slice_table buf n p1 p2 p3 c1 c2 c3 =
     Some (p1 + n, p2 + n, p3 + n, crc64_ref c1 (take n (drop p1 buf)), crc64_ref c2 (take n (drop p2 buf)),
       crc64_ref c3 (take n (drop p3 buf)))"
proof (induction n arbitrary: p1 p2 p3 c1 c2 c3 rule: less_induct)
  case (less n)
  show ?case
  proof (cases "8 \<le> n")
    case True
    with less.prems obtain w1 w2 w3 where w: "DO_8_1 buf c1 p1 = Some (w1, p1 + 8)"
      "DO_8_2 slice_table w1 = Some (crc64_ref c1 (take 8 (drop p1 buf)))"
      "DO_8_1 buf c2 p2 = Some (w2, p2 + 8)"
      "DO_8_2 slice_table w2 = Some (crc64_ref c2 (take 8 (drop p2 buf)))"
      "DO_8_1 buf c3 p3 = Some (w3, p3 + 8)"
      "DO_8_2 slice_table w3 = Some (crc64_ref c3 (take 8 (drop p3 buf)))"
      using eight_bytes_ok [of p1 buf c1] eight_bytes_ok [of p2 buf c2] eight_bytes_ok [of p3 buf c3] by auto
    have "8 dvd n - 8" using less.prems(4) True by (simp add: dvd_diff_nat)
    with less.IH [of "n - 8" "p1 + 8" "p2 + 8" "p3 + 8"] True less.prems w show ?thesis
      by (subst tri_loop.simps) (simp add: crc_bytes_append take_drop_8 [OF True])
  next
    case False
    with less.prems(4) have "n = 0" using dvd_imp_le by fastforce
    then show ?thesis by (subst tri_loop.simps) simp
  qed
qed

section \<open>The matrix of a linear map\<close>

definition mat_of :: "(u64 \<Rightarrow> u64) \<Rightarrow> u64 list" where
  "mat_of f = map (\<lambda>i. f (2 ^ i)) [0..<64]"

lemma length_mat_of [simp]: "length (mat_of f) = 64"
  by (simp add: mat_of_def)

lemma get_at_mat_of: "i < 64 \<Longrightarrow> get_at (mat_of f) i = Some (f (2 ^ i))"
  by (simp add: mat_of_def get_at_def)

lemma nibble_cases:
  fixes x :: u64
  assumes "unat x < 16"
  shows "x \<in> {0, 1, 2, 3, 4, 5, 6, 7, 8, 9, 10, 11, 12, 13, 14, 15}"
proof -
  have "x = of_nat (unat x)" by simp
  moreover have "unat x \<in> {0, 1, 2, 3, 4, 5, 6, 7, 8, 9, 10, 11, 12, 13, 14, 15}"
    using assms by (simp add: numeral_eq_Suc less_Suc_eq)
  then have "of_nat (unat x) \<in> {0, 1, 2, 3, 4, 5, 6, 7, 8, 9, 10, 11, 12, 13, 14, 15 :: u64}"
    by (elim insertE) (simp_all)
  ultimately show ?thesis by simp
qed

locale xor_linear64 = xor_linear f for f :: "u64 \<Rightarrow> u64"
begin

lemma nibble_ok:
  assumes "unat nib < 16" "m + 4 \<le> 64"
  shows "gf2_nibble (mat_of f) m nib = Some (f (push_bit m nib))"
proof -
  define g where "g x = f (push_bit m x)" for x
  have g: "g (a XOR b) = g a XOR g b" for a b by (simp add: g_def push_bit_xor lin)
  have c: "get_at (mat_of f) (m + 0) = Some (g 1)" "get_at (mat_of f) (m + 1) = Some (g 2)"
    "get_at (mat_of f) (m + 2) = Some (g 4)" "get_at (mat_of f) (m + 3) = Some (g 8)"
    using assms(2) by (simp_all only: get_at_mat_of) (simp_all add: g_def push_bit_eq_mult power_add mult.commute)
  have lows: "g 0 = 0" "g 3 = g 1 XOR g 2" "g 5 = g 1 XOR g 4" "g 6 = g 2 XOR g 4" "g 9 = g 1 XOR g 8"
    "g 10 = g 2 XOR g 8" "g 12 = g 4 XOR g 8"
    using g [of 0 0] g [of 1 2] g [of 1 4] g [of 2 4] g [of 1 8] g [of 2 8] g [of 4 8] by simp_all
  have highs: "g 7 = g 1 XOR g 2 XOR g 4" "g 11 = g 1 XOR g 2 XOR g 8" "g 13 = g 1 XOR g 4 XOR g 8"
    "g 14 = g 2 XOR g 4 XOR g 8" "g 15 = g 1 XOR g 2 XOR g 4 XOR g 8"
    using g [of 3 4] g [of 3 8] g [of 5 8] g [of 6 8] g [of 3 12] lows by (simp_all add: xor.assoc)
  from nibble_cases [OF assms(1)] have "gf2_nibble (mat_of f) m nib = Some (g nib)"
    unfolding gf2_nibble_def Let_def c
    by (elim insertE) (simp_all add: lows highs xor.assoc)
  then show ?thesis by (simp add: g_def)
qed

lemma loop_ok:
  "m + 4 * j = 64 \<Longrightarrow> unat vec < 2 ^ (4 * j) \<Longrightarrow> gf2_loop (mat_of f) m vec acc = Some (acc XOR f (push_bit m vec))"
proof (induction j arbitrary: m vec acc)
  case 0
  then have "vec = 0" by (simp add: unat_eq_0)
  then show ?case by (simp add: gf2_loop.simps lin_0)
next
  case (Suc j)
  show ?case
  proof (cases "vec = 0")
    case True
    then show ?thesis by (simp add: gf2_loop.simps lin_0)
  next
    case False
    have low: "vec AND 15 = take_bit 4 vec" by (simp add: take_bit_eq_mask mask_eq_exp_minus_1)
    have "unat (take_bit 4 vec) < 2 ^ 4" by (simp only: unsigned_take_bit_eq take_bit_nat_less_exp)
    then have n: "gf2_nibble (mat_of f) m (vec AND 15) = Some (f (push_bit m (take_bit 4 vec)))"
      using nibble_ok [of "take_bit 4 vec" m] Suc.prems(1) unfolding low by auto
    have "unat vec < 2 ^ (4 * j) * 16" using Suc.prems(2) by (simp add: power_add mult.commute)
    then have "unat (drop_bit 4 vec) < 2 ^ (4 * j)" by (simp add: unat_drop less_mult_imp_div_less)
    then have "gf2_loop (mat_of f) (m + 4) (drop_bit 4 vec) (acc XOR f (push_bit m (take_bit 4 vec)))
        = Some ((acc XOR f (push_bit m (take_bit 4 vec))) XOR f (push_bit (m + 4) (drop_bit 4 vec)))"
      using Suc.prems(1) by (intro Suc.IH) simp_all
    moreover have "push_bit m vec = push_bit m (take_bit 4 vec) XOR push_bit (m + 4) (drop_bit 4 vec)"
      by (subst split_low [of vec 4]) (simp add: push_bit_xor)
    ultimately show ?thesis using False n by (subst gf2_loop.simps) (simp add: lin xor.assoc)
  qed
qed

lemma times_ok: "gf2_matrix_times_switch (mat_of f) v = Some (f v)"
  using loop_ok [of 0 16 v 0] unat_less_64 [of v] by (simp add: gf2_matrix_times_switch_def)

lemma square_loop_ok:
  "length sq = 64 \<Longrightarrow> n + k = 64 \<Longrightarrow>
   square_loop sq (mat_of f) n k = Some (take n sq @ map (\<lambda>i. f (f (2 ^ i))) [n..<64])"
proof (induction k arbitrary: n sq)
  case (Suc k)
  then have "square_loop (sq[n := f (f (2 ^ n))]) (mat_of f) (Suc n) k =
      Some (take (Suc n) (sq[n := f (f (2 ^ n))]) @ map (\<lambda>i. f (f (2 ^ i))) [Suc n..<64])"
    by (intro Suc.IH) simp_all
  moreover have "take (Suc n) (sq[n := f (f (2 ^ n))]) = take n sq @ [f (f (2 ^ n))]"
    using Suc.prems by (simp add: take_Suc_conv_app_nth)
  moreover have "[n..<64] = n # [Suc n..<64]" using Suc.prems by (simp add: upt_conv_Cons)
  ultimately show ?case using Suc.prems by (simp add: get_at_mat_of times_ok put_at_def)
qed simp

lemma square_ok: "length sq = 64 \<Longrightarrow> gf2_matrix_square sq (mat_of f) 64 = Some (mat_of (f ^^ 2))"
  using square_loop_ok [of sq 0 64] by (simp add: gf2_matrix_square_def mat_of_def numeral_2_eq_2)

end

interpretation zeros: xor_linear64 "crc_shift poly ^^ n" for poly :: u64 and n
  by unfold_locales

section \<open>The cache of the combination matrices\<close>

abbreviation zero_bits :: "nat \<Rightarrow> u64 \<Rightarrow> u64" where
  "zero_bits n \<equiv> crc_shift CRC64_REVERSED_POLY ^^ n"

definition good_cache :: matrices where
  "good_cache = map (\<lambda>k. mat_of (zero_bits (8 * 2 ^ k))) [0..<64]"

definition cache_shape :: "matrices \<Rightarrow> bool" where
  "cache_shape cache \<longleftrightarrow> length cache = 64 \<and> (\<forall>row \<in> set cache. length row = 64)"

lemma cache_shape_upd: "cache_shape cache \<Longrightarrow> length row = 64 \<Longrightarrow> cache_shape (cache[i := row])"
  using set_update_subset_insert [of cache i row] by (auto simp: cache_shape_def)

lemma cs_len: "cache_shape cache \<Longrightarrow> length cache = 64"
  by (simp add: cache_shape_def)

lemma cache_row: "cache_shape cache \<Longrightarrow> i < 64 \<Longrightarrow> length (cache ! i) = 64 \<and> cache ! i \<noteq> []"
  by (simp add: cache_shape_def) (metis length_0_conv nth_mem zero_neq_numeral)

lemma square_into_ok:
  assumes "cache_shape cache" "dst < 64" "src < 64" "cache ! src = mat_of (zero_bits n)"
  shows "square_into cache dst src 64 = Some (cache[dst := mat_of (zero_bits (2 * n))])"
proof -
  have "length (cache ! dst) = 64" using assms by (simp add: cache_shape_def)
  moreover have "(zero_bits n) ^^ 2 = zero_bits (2 * n)" by (simp add: funpow_mult mult.commute)
  ultimately show ?thesis using assms zeros.square_ok [of "cache ! dst" n CRC64_REVERSED_POLY]
    by (simp add: square_into_def get_at_def put_at_def cache_shape_def)
qed

lemma init_rows_ok:
  "length mat = 64 \<Longrightarrow> 1 \<le> n \<Longrightarrow> n + k = 64 \<Longrightarrow>
   init_rows mat (2 ^ (n - 1)) n k = Some (take n mat @ map (\<lambda>i. 2 ^ (i - 1)) [n..<64])"
proof (induction k arbitrary: n mat)
  case (Suc k)
  have p: "push_bit 1 (2 ^ (n - 1)) = (2 ^ (Suc n - 1) :: u64)"
    using Suc.prems(2) by (cases n) (simp_all add: push_bit_eq_mult)
  have "init_rows (mat[n := 2 ^ (n - 1)]) (2 ^ (Suc n - 1)) (Suc n) k =
      Some (take (Suc n) (mat[n := 2 ^ (n - 1)]) @ map (\<lambda>i. 2 ^ (i - 1)) [Suc n..<64])"
    using Suc.prems by (intro Suc.IH) simp_all
  moreover have "take (Suc n) (mat[n := 2 ^ (n - 1)]) = take n mat @ [2 ^ (n - 1)]"
    using Suc.prems by (simp add: take_Suc_conv_app_nth)
  moreover have "[n..<64] = n # [Suc n..<64]" using Suc.prems by (simp add: upt_conv_Cons)
  ultimately show ?case using Suc.prems unfolding init_rows.simps p by (simp add: put_at_def)
qed simp

lemma first_matrix: "CRC64_REVERSED_POLY # map (\<lambda>i. 2 ^ (i - 1)) [1..<64] = mat_of (zero_bits 1)"
proof -
  have "crc_shift CRC64_REVERSED_POLY (2 ^ i) = 2 ^ (i - 1)" if "1 \<le> i" "i < 64" for i
  proof -
    have "\<not> bit (2 ^ i :: u64) 0" using that by (simp add: bit_exp_iff del: bit_0)
    moreover have "drop_bit 1 (2 ^ i :: u64) = 2 ^ (i - 1)"
      using that by (intro bit_word_eqI) (auto simp: bit_drop_bit_eq bit_exp_iff)
    ultimately show ?thesis by (simp add: crc_shift_def)
  qed
  moreover have "crc_shift CRC64_REVERSED_POLY 1 = CRC64_REVERSED_POLY" by (simp add: crc_shift_def)
  moreover have "[0..<64] = 0 # [1..<64 :: nat]" by (simp add: upt_conv_Cons)
  ultimately show ?thesis by (simp add: mat_of_def)
qed

lemma init_squares_ok:
  "cache_shape cache \<Longrightarrow> c + k = 64 \<Longrightarrow> (c = 0 \<Longrightarrow> cache ! 1 = mat_of (zero_bits 4)) \<Longrightarrow>
   (\<And>j. j < c \<Longrightarrow> cache ! j = mat_of (zero_bits (8 * 2 ^ j))) \<Longrightarrow>
   init_squares cache 64 c k = Some good_cache"
proof (induction k arbitrary: c cache)
  case 0
  then show ?case by (auto simp: good_cache_def cache_shape_def intro: nth_equalityI)
next
  case (Suc k)
  let ?src = "if c = 0 then 1 else c - 1"
  let ?cache = "cache[c := mat_of (zero_bits (8 * 2 ^ c))]"
  have "cache ! ?src = mat_of (zero_bits (4 * 2 ^ c))"
    using Suc.prems(3,4) by (cases c) simp_all
  moreover have "?src < 64" using Suc.prems(2) by auto
  ultimately have "square_into cache c ?src 64 = Some ?cache"
    using square_into_ok [OF Suc.prems(1), of c ?src "4 * 2 ^ c"] Suc.prems(2) by simp
  moreover have "init_squares ?cache 64 (Suc c) k = Some good_cache"
    using Suc.prems cs_len [OF Suc.prems(1)] by (intro Suc.IH)
      (auto simp: cache_shape_upd nth_list_update less_Suc_eq)
  ultimately show ?case by simp
qed

lemma init_combine_cache_ok:
  assumes "cache_shape cache"
  shows "init_combine_cache cache CRC64_REVERSED_POLY 64 = Some good_cache"
proof -
  have l: "length cache = 64" "length (cache ! 1) = 64" "cache ! 1 \<noteq> []"
    using assms cache_row [of cache 1] by (simp_all add: cs_len)
  let ?m = "mat_of (zero_bits 1)"
  have "init_rows ((cache ! 1)[0 := CRC64_REVERSED_POLY]) 1 1 63 = Some ?m"
    using init_rows_ok [of "(cache ! 1)[0 := CRC64_REVERSED_POLY]" 1 63] l first_matrix
    by (simp add: take_Suc_conv_app_nth)
  moreover define c1 where "c1 = cache[1 := ?m]"
  then have c1: "cache_shape c1" "c1 ! 1 = ?m" using assms l by (simp_all add: cache_shape_upd)
  moreover define c2 where "c2 = c1[0 := mat_of (zero_bits 2)]"
  then have c2: "cache_shape c2" "c2 ! 0 = mat_of (zero_bits 2)" "square_into c1 0 1 64 = Some c2"
    using c1 cs_len [OF c1(1)] square_into_ok [OF c1(1), of 0 1 1] by (simp_all add: cache_shape_upd)
  moreover define c3 where "c3 = c2[1 := mat_of (zero_bits 4)]"
  then have c3: "cache_shape c3" "c3 ! 1 = mat_of (zero_bits 4)" "square_into c2 1 0 64 = Some c3"
    using c2 cs_len [OF c2(1)] square_into_ok [OF c2(1), of 1 0 2] by (simp_all add: cache_shape_upd)
  moreover have "init_squares c3 64 0 64 = Some good_cache" using c3 by (intro init_squares_ok) simp_all
  moreover have "cache[Suc 0 := mat_of (crc_shift CRC64_REVERSED_POLY)] = c1" by (simp add: c1_def)
  ultimately show ?thesis using l
    by (simp add: init_combine_cache_def get_at_def put_at_def)
qed

definition cache_inv :: "matrices \<Rightarrow> bool" where
  "cache_inv cache \<longleftrightarrow> cache_shape cache \<and> (cache ! 0 ! 0 = 0 \<or> cache = good_cache)"

lemma good_cache_inv: "cache_inv good_cache"
  by (auto simp: cache_inv_def cache_shape_def good_cache_def)

lemma combine_loop_ok:
  "0 < len2 \<Longrightarrow> c < 64 \<Longrightarrow> len2 < 2 ^ (64 - c) \<Longrightarrow>
   combine_loop good_cache c len2 crc = Some (zero_bits (8 * 2 ^ c * len2) crc)"
proof (induction len2 arbitrary: c crc rule: less_induct)
  case (less len2)
  let ?crc = "if odd len2 then zero_bits (8 * 2 ^ c) crc else crc"
  have first: "(if odd len2 then do { mat \<leftarrow> get_at good_cache c; gf2_matrix_times_switch mat crc } else Some crc) = Some ?crc"
    using less.prems(2) by (simp add: good_cache_def get_at_def zeros.times_ok)
  have val: "zero_bits (8 * 2 ^ Suc c * (len2 div 2)) ?crc = zero_bits (8 * 2 ^ c * len2) crc"
  proof -
    have "8 * 2 ^ c * len2 = 8 * 2 ^ Suc c * (len2 div 2) + (if odd len2 then 8 * 2 ^ c else 0)"
      by (cases "odd len2") (auto elim!: oddE evenE simp: algebra_simps)
    then show ?thesis by (simp add: funpow_add)
  qed
  show ?case
  proof (cases "len2 div 2 = 0")
    case True
    with val first show ?thesis by (subst combine_loop.simps) simp
  next
    case False
    have "len2 div 2 < 2 ^ (64 - Suc c)"
    proof -
      have "64 - c = Suc (64 - Suc c)" using less.prems(2) by simp
      then have "len2 < 2 ^ (64 - Suc c) * 2" using less.prems(3) by simp
      then show ?thesis by (simp add: less_mult_imp_div_less)
    qed
    moreover from this False have "c < 63" by (cases "c = 63") (use less.prems(2) in auto)
    ultimately have "combine_loop good_cache (Suc c) (len2 div 2) ?crc = Some (zero_bits (8 * 2 ^ Suc c * (len2 div 2)) ?crc)"
      using False by (intro less.IH) auto
    with val first False \<open>c < 63\<close> show ?thesis by (subst combine_loop.simps) simp
  qed
qed

lemma crc64_combine_ok:
  assumes "cache_inv cache" "n < 2 ^ 64" "n = 0 \<Longrightarrow> crc2 = 0"
  shows "\<exists>cache'. crc64_combine cache crc1 crc2 n CRC64_REVERSED_POLY 64 =
    Some (cache', zero_bits (8 * n) crc1 XOR crc2) \<and> cache_inv cache'"
proof (cases "n = 0")
  case True
  with assms show ?thesis by (simp add: crc64_combine_def)
next
  case False
  have sh: "cache_shape cache" "length cache = 64" "length (cache ! 0) = 64" "cache ! 0 \<noteq> []"
    using assms(1) cache_row [of cache 0] by (simp_all add: cache_inv_def cs_len)
  have "(if cache ! 0 ! 0 = 0 then init_combine_cache cache CRC64_REVERSED_POLY 64 else Some cache) = Some good_cache"
    using assms(1) init_combine_cache_ok [OF sh(1)] by (auto simp: cache_inv_def)
  then show ?thesis using False combine_loop_ok [of n 0 crc1] assms(2) sh good_cache_inv
    by (simp add: crc64_combine_def get_at_def)
qed

section \<open>Merging the lanes\<close>

lemma CRC64_SPLIT_ok:
  assumes "n < 2 ^ 63" "0 < d"
  shows "8 dvd CRC64_SPLIT n d" "d * CRC64_SPLIT n d \<le> n" "CRC64_SPLIT n d < 2 ^ 63"
proof -
  let ?q = "n div d"
  have q: "?q < 2 ^ 63" using assms(1) by (meson div_le_dividend le_less_trans)
  have mask: "(CRC64_LEN_MASK :: u64) = push_bit 3 (mask 60)" by (simp add: mask_eq_exp_minus_1)
  have "(of_nat ?q :: u64) AND CRC64_LEN_MASK = push_bit 3 (drop_bit 3 (of_nat ?q))"
  proof (rule bit_word_eqI)
    fix i assume "i < LENGTH(64)"
    have "bit (of_nat ?q :: u64) i \<Longrightarrow> i - 3 < 60"
    proof -
      assume b: "bit (of_nat ?q :: u64) i"
      have "take_bit 63 ?q = ?q" using q by (simp add: take_bit_nat_eq_self)
      moreover have "bit ?q i" using b by (simp add: bit_simps)
      ultimately have "i < 63" by (metis bit_take_bit_iff)
      then show ?thesis by simp
    qed
    then show "bit ((of_nat ?q :: u64) AND CRC64_LEN_MASK) i = bit (push_bit 3 (drop_bit 3 (of_nat ?q :: u64))) i"
      unfolding mask by (auto simp: bit_simps simp del: push_bit_mask_eq)
  qed
  then have "CRC64_SPLIT n d = 8 * (?q div 8)"
    unfolding CRC64_SPLIT_def using q
    by (simp add: push_bit_eq_mult unat_word_ariths unat_drop unat_of_nat_id mult.commute)
  moreover from this have le: "CRC64_SPLIT n d \<le> ?q" by simp
  moreover have "d * CRC64_SPLIT n d \<le> n"
    using mult_le_mono2 [OF le, of d] times_div_less_eq_dividend [of d n] by (rule le_trans)
  ultimately show "8 dvd CRC64_SPLIT n d" "d * CRC64_SPLIT n d \<le> n" "CRC64_SPLIT n d < 2 ^ 63"
    using q by auto
qed

lemma merge_ok: "zero_bits (8 * length ys) (crc64_ref c xs) XOR crc64_ref 0 ys = crc64_ref c (xs @ ys)"
  by (simp add: crc_bytes_split)

lemma two_lanes_ok:
  assumes "cache_inv cache" "p + n \<le> length buf" "length buf < 2 ^ 63"
  shows "\<exists>cache' k. two_lanes slice_table cache buf p n crc =
      Some (cache', p + k, n - k, crc64_ref crc (take k (drop p buf))) \<and> k \<le> n \<and> cache_inv cache'"
proof -
  define L where "L = CRC64_SPLIT n 2"
  have L: "8 dvd L" "2 * L \<le> n" "L < 2 ^ 64"
    using CRC64_SPLIT_ok [of n 2] assms(2,3) unfolding L_def by auto
  let ?a = "take L (drop p buf)" and ?b = "take L (drop (p + L) buf)"
  have "length ?b = L" using L assms by simp
  then obtain cache' where c: "crc64_combine cache (crc64_ref crc ?a) (crc64_ref 0 ?b) L CRC64_REVERSED_POLY 64 =
      Some (cache', crc64_ref crc (?a @ ?b))" "cache_inv cache'"
    using crc64_combine_ok [OF assms(1) L(3), of "crc64_ref 0 ?b" "crc64_ref crc ?a"] merge_ok [of ?b crc ?a] by auto
  have "?a @ ?b = take (L * 2) (drop p buf)" using take_add [of L L "drop p buf"] by (simp add: add.commute mult_2_right)
  moreover have "dual_loop slice_table buf L p (p + L) crc 0 = Some (p + L, p + L + L, crc64_ref crc ?a, crc64_ref 0 ?b)"
    using L assms by (intro dual_loop_ok) auto
  ultimately show ?thesis using c L
    by (intro exI [of _ cache'] exI [of _ "L * 2"]) (simp add: two_lanes_def L_def [symmetric] add.assoc mult_2_right)
qed

lemma three_lanes_ok:
  assumes "cache_inv cache" "p + n \<le> length buf" "length buf < 2 ^ 63"
  shows "\<exists>cache' k. three_lanes slice_table cache buf p n crc =
      Some (cache', p + k, n - k, crc64_ref crc (take k (drop p buf))) \<and> k \<le> n \<and> cache_inv cache'"
proof -
  define L where "L = CRC64_SPLIT n 3"
  have L: "8 dvd L" "3 * L \<le> n" "L < 2 ^ 64"
    using CRC64_SPLIT_ok [of n 3] assms(2,3) unfolding L_def by auto
  let ?a = "take L (drop p buf)" and ?b = "take L (drop (p + L) buf)" and ?c = "take L (drop (p + L + L) buf)"
  have len: "length ?b = L" "length ?c = L" using L assms by simp_all
  obtain cache1 where c1: "crc64_combine cache (crc64_ref crc ?a) (crc64_ref 0 ?b) L CRC64_REVERSED_POLY 64 =
      Some (cache1, crc64_ref crc (?a @ ?b))" "cache_inv cache1"
    using len crc64_combine_ok [OF assms(1) L(3), of "crc64_ref 0 ?b" "crc64_ref crc ?a"] merge_ok [of ?b crc ?a] by auto
  obtain cache2 where c2: "crc64_combine cache1 (crc64_ref crc (?a @ ?b)) (crc64_ref 0 ?c) L CRC64_REVERSED_POLY 64 =
      Some (cache2, crc64_ref crc ((?a @ ?b) @ ?c))" "cache_inv cache2"
    using len crc64_combine_ok [OF c1(2) L(3), of "crc64_ref 0 ?c" "crc64_ref crc (?a @ ?b)"]
      merge_ok [of ?c crc "?a @ ?b"] by auto
  have abc: "take (L * 3) (drop p buf) = (?a @ ?b) @ ?c"
    using take_drop_add [of "L + L" L p buf] take_drop_add [of L L p buf] by (simp add: add.assoc numeral_3_eq_3)
  have "tri_loop slice_table buf L p (p + L) (p + L + L) crc 0 0 =
      Some (p + L, p + L + L, p + L + L + L, crc64_ref crc ?a, crc64_ref 0 ?b, crc64_ref 0 ?c)"
    using L assms by (intro tri_loop_ok) auto
  then have "three_lanes slice_table cache buf p n crc =
      Some (cache2, p + L + L + L, n - L * 3, crc64_ref crc ((?a @ ?b) @ ?c))"
    using c1 c2 by (simp add: three_lanes_def L_def [symmetric] Let_def del: append_assoc)
  moreover have "p + L + L + L = p + L * 3" by simp
  ultimately show ?thesis using c2(2) L by (intro exI [of _ cache2] exI [of _ "L * 3"]) (simp only: abc, simp)
qed

section \<open>Results\<close>

text \<open>What the static variables satisfy at any time: they are initial, or hold the tables.\<close>

definition crc64_inv :: "crc64_state \<Rightarrow> bool" where
  "crc64_inv st \<longleftrightarrow> cache_inv (combine_cache st) \<and> (crc64_redis_inited st \<longrightarrow> crc64_table st = slice_table)"

lemma crcspeed64little_ok:
  assumes "cache_inv (combine_cache st)" "n \<le> length buf" "length buf < 2 ^ 63"
  shows "\<exists>cache. crcspeed64little st slice_table crc base buf n =
    Some (st\<lparr>combine_cache := cache\<rparr>, crc64_ref crc (take n buf)) \<and> cache_inv cache"
proof (cases "CRC64_DUAL_CUTOFF st < 1")
  case True
  then show ?thesis using assms bytes_loop_ok [of 0 n buf crc]
    by (intro exI [of _ "combine_cache st"]) (simp add: crcspeed64little_def)
next
  case False
  obtain k where k: "k \<le> n" "align_loop slice_table base buf 0 n crc = Some (k, n - k, crc64_ref crc (take k buf))"
    using align_loop_ok [of 0 n buf base crc] assms(2) by auto
  let ?crc = "crc64_ref crc (take k buf)"
  obtain cache m where m: "(if n - k > CRC64_TRI_CUTOFF st then three_lanes slice_table (combine_cache st) buf k (n - k) ?crc
      else if n - k > CRC64_DUAL_CUTOFF st then two_lanes slice_table (combine_cache st) buf k (n - k) ?crc
      else Some (combine_cache st, k, n - k, ?crc)) = Some (cache, k + m, n - k - m, crc64_ref ?crc (take m (drop k buf)))"
    "m \<le> n - k" "cache_inv cache"
  proof -
    have "k + (n - k) \<le> length buf" using k assms by simp
    from two_lanes_ok [OF assms(1) this assms(3), of ?crc] three_lanes_ok [OF assms(1) this assms(3), of ?crc]
    obtain c2 m2 c3 m3 where l: "two_lanes slice_table (combine_cache st) buf k (n - k) ?crc =
        Some (c2, k + m2, n - k - m2, crc64_ref ?crc (take m2 (drop k buf)))" "m2 \<le> n - k" "cache_inv c2"
      "three_lanes slice_table (combine_cache st) buf k (n - k) ?crc =
        Some (c3, k + m3, n - k - m3, crc64_ref ?crc (take m3 (drop k buf)))" "m3 \<le> n - k" "cache_inv c3"
      by blast
    consider "CRC64_TRI_CUTOFF st < n - k" | "\<not> CRC64_TRI_CUTOFF st < n - k" "CRC64_DUAL_CUTOFF st < n - k"
      | "\<not> CRC64_TRI_CUTOFF st < n - k" "\<not> CRC64_DUAL_CUTOFF st < n - k" by blast
    then show ?thesis
    proof cases
      case 1
      then show ?thesis using l by (intro that [of c3 m3]) (simp_all only: if_True)
    next
      case 2
      then show ?thesis using l by (intro that [of c2 m2]) (simp_all only: if_True if_False)
    next
      case 3
      then show ?thesis using assms(1) by (intro that [of "combine_cache st" 0]) simp_all
    qed
  qed
  define q where "q = n - k - m"
  then have qs: "n - (k + m) = q" by simp
  let ?crc2 = "crc64_ref ?crc (take m (drop k buf))"
  have q: "k + m + q \<le> length buf" "k + m + 8 * (q div 8) + q mod 8 \<le> length buf"
    using k m assms by (simp_all add: q_def)
  have e: "eights slice_table buf (k + m) q ?crc2 =
      Some (k + m + 8 * (q div 8), q mod 8, crc64_ref ?crc2 (take (8 * (q div 8)) (drop (k + m) buf)))"
    by (rule eights_ok [OF q(1)])
  have "n = k + (m + (8 * (q div 8) + q mod 8))" using k(1) m(2) by (simp add: q_def)
  then have "take n buf = take (k + (m + (8 * (q div 8) + q mod 8))) (drop 0 buf)" by simp
  then have "take n buf = take k buf @ take m (drop k buf) @ take (8 * (q div 8)) (drop (k + m) buf)
      @ take (q mod 8) (drop (k + m + 8 * (q div 8)) buf)"
    unfolding take_drop_add by (simp only: drop_0 add_0_left)
  then show ?thesis using False k m e bytes_loop_ok [OF q(2)]
    by (intro exI [of _ cache]) (simp add: crcspeed64little_def qs crc_bytes_append)
qed

text \<open>C2. \<open>crc64_redis\<close> computes the reflected 64-bit checksum with the polynomial of Jones, for every length,
  alignment and choice of the cut-offs, whether or not the static tables and matrices were initialised by an
  earlier call; it reads nothing outside of the buffer. Its bit-by-bit routine computes the same register
  from the reflected start value, and changing the cut-offs is harmless.\<close>

theorem crc64_redis_exact:
  assumes "crc64_inv st" "n \<le> length s" "length s < 2 ^ 63"
  shows "\<exists>st'. crc64_redis st crc base s n = Some (st', crc_bytes CRC64_REVERSED_POLY crc (take n s))
      \<and> crc64_inv st' \<and> crc64_inv (set_crc64_cutoffs st' dual tri)
    \<and> crc64_bitwise crc s n = Some (crc_bytes CRC64_REVERSED_POLY (crc_reflect crc 64) (take n s))
    \<and> crc64_inv crc64_static"
proof -
  define st1 where "st1 = (if crc64_redis_inited st then st else st\<lparr>crc64_table := slice_table, crc64_redis_inited := True\<rparr>)"
  have i: "crc64_redis st crc base s n = crcspeed64little st1 (crc64_table st1) crc base s n"
    by (simp add: crc64_redis_def crc64_redis_init_def crcspeed64native_init_def crcspeed64native_def
        crcspeed64little_init_ok st1_def)
  have "crc64_table st1 = slice_table" "cache_inv (combine_cache st1)" "crc64_redis_inited st1"
    using assms(1) by (simp_all add: crc64_inv_def st1_def)
  with crcspeed64little_ok [of st1 n s crc base] assms(2,3) i obtain cache where
    r: "crc64_redis st crc base s n = Some (st1\<lparr>combine_cache := cache\<rparr>, crc64_ref crc (take n s))" "cache_inv cache"
    by auto
  moreover have "crc64_inv (st1\<lparr>combine_cache := cache\<rparr>)"
    "crc64_inv (set_crc64_cutoffs (st1\<lparr>combine_cache := cache\<rparr>) dual tri)"
    using r(2) \<open>crc64_table st1 = slice_table\<close> by (simp_all add: crc64_inv_def set_crc64_cutoffs_def)
  moreover have "crc64_inv crc64_static"
    by (simp add: crc64_inv_def crc64_static_def cache_inv_def cache_shape_def)
  ultimately show ?thesis using crc64_bitwise_ok [OF assms(2)] by blast
qed

theorem crc64_redis_exact_witness:
  "\<exists>st'. crc64_redis crc64_static 0 3 [49, 50] 2 = Some (st', crc_bytes CRC64_REVERSED_POLY 0 [49, 50])"
proof -
  have "crc64_inv crc64_static"
    by (simp add: crc64_inv_def crc64_static_def cache_inv_def cache_shape_def)
  from crc64_redis_exact [OF this, of 2 "[49, 50]" 0 3] show ?thesis by auto
qed

end
