(* ===== verification/Lzf.thy ===== *)
theory Lzf
  imports Prelude
begin

text \<open>
  The LZF compressor and decompressor, \<open>src/lzf/lzf_c.c\<close> and \<open>src/lzf/lzf_d.c\<close>, with the configuration of
  \<open>lzfP.h\<close>: \<open>HLOG\<close> 16, \<open>VERY_FAST\<close>, \<open>INIT_HTAB\<close> 0, \<open>CHECK_INPUT\<close> 1, slots that hold pointers, unaligned 16-bit
  reads. Input and output are lists of bytes, pointers into them are offsets, an access outside is \<open>None\<close>.
  The hash table is not initialised: what it holds at the start is the parameter \<open>htab\<close>, over which the results
  are quantified; slots hold 64-bit addresses, and \<open>base\<close> is the address of the input.
\<close>

section \<open>Decompression: \<open>lzf_d.c\<close>\<close>

datatype errno = E2BIG | EINVAL

primrec lit_copy :: "byte list \<Rightarrow> nat \<Rightarrow> byte list \<Rightarrow> nat \<Rightarrow> nat \<Rightarrow> byte list option" where
  "lit_copy inp ip out op 0 = Some out"
| "lit_copy inp ip out op (Suc n) =
     do { b \<leftarrow> get_at inp ip; out \<leftarrow> put_at out op b; lit_copy inp (Suc ip) out (Suc op) n }"

primrec ref_copy :: "byte list \<Rightarrow> nat \<Rightarrow> nat \<Rightarrow> nat \<Rightarrow> byte list option" where
  "ref_copy out op ref 0 = Some out"
| "ref_copy out op ref (Suc n) =
     do { b \<leftarrow> get_at out ref; out \<leftarrow> put_at out op b; ref_copy out (Suc op) (Suc ref) n }"

text \<open>The switch over the length of a back reference: up to 9 the cases fall through byte by byte.\<close>

definition copy_ref :: "byte list \<Rightarrow> nat \<Rightarrow> nat \<Rightarrow> nat \<Rightarrow> byte list option" where
  "copy_ref out op ref len =
     (if len \<le> 9 then ref_copy out op ref (len + 2)
      else let len = len + 2 in
        if op \<ge> ref + len then mem_move out op ref len else ref_copy out op ref len)"

text \<open>One iteration: the literal run and the back reference. An error returns 0 and sets \<open>errno\<close>.\<close>

definition dec_literal ::
  "byte list \<Rightarrow> nat \<Rightarrow> nat \<Rightarrow> nat \<Rightarrow> byte list \<Rightarrow> nat \<Rightarrow> nat \<Rightarrow> (errno + nat \<times> byte list \<times> nat) option" where
  "dec_literal inp in_end ctrl ip out out_end op =
     (let ctrl = ctrl + 1 in
      if op + ctrl > out_end then Some (Inl E2BIG)
      else if ip + ctrl > in_end then Some (Inl EINVAL)
      else do { out \<leftarrow> lit_copy inp ip out op ctrl; Some (Inr (ip + ctrl, out, op + ctrl)) })"

definition dec_offset ::
  "byte list \<Rightarrow> nat \<Rightarrow> int \<Rightarrow> nat \<Rightarrow> byte list \<Rightarrow> nat \<Rightarrow> nat \<Rightarrow> (errno + nat \<times> byte list \<times> nat) option" where
  "dec_offset inp ip ref len out out_end op =
     do {
       b \<leftarrow> get_at inp ip;
       let ref = ref - int (unat b);
       (if op + len + 2 > out_end then Some (Inl E2BIG)
        else if ref < 0 then Some (Inl EINVAL)
        else do { out \<leftarrow> copy_ref out op (nat ref) len; Some (Inr (ip + 1, out, op + len + 2)) })
     }"

definition dec_reference ::
  "byte list \<Rightarrow> nat \<Rightarrow> nat \<Rightarrow> nat \<Rightarrow> byte list \<Rightarrow> nat \<Rightarrow> nat \<Rightarrow> (errno + nat \<times> byte list \<times> nat) option" where
  "dec_reference inp in_end ctrl ip out out_end op =
     (let len = ctrl div 32;
          ref = int op - int (ctrl mod 32 * 256) - 1 in
      if ip \<ge> in_end then Some (Inl EINVAL)
      else if len = 7 then
        do {
          b \<leftarrow> get_at inp ip;
          (if ip + 1 \<ge> in_end then Some (Inl EINVAL)
           else dec_offset inp (ip + 1) ref (len + unat b) out out_end op)
        }
      else dec_offset inp ip ref len out out_end op)"

definition dec_step ::
  "byte list \<Rightarrow> nat \<Rightarrow> nat \<Rightarrow> byte list \<Rightarrow> nat \<Rightarrow> nat \<Rightarrow> (errno + nat \<times> byte list \<times> nat) option" where
  "dec_step inp in_end ip out out_end op =
     do {
       b \<leftarrow> get_at inp ip;
       (if unat b < 32 then dec_literal inp in_end (unat b) (ip + 1) out out_end op
        else dec_reference inp in_end (unat b) (ip + 1) out out_end op)
     }"

partial_function (option) dec_loop ::
  "byte list \<Rightarrow> nat \<Rightarrow> nat \<Rightarrow> byte list \<Rightarrow> nat \<Rightarrow> nat \<Rightarrow> (errno + nat \<times> byte list) option" where
  [code]: "dec_loop inp in_end ip out out_end op =
     (if ip < in_end then
        Option.bind (dec_step inp in_end ip out out_end op) (\<lambda>r.
          case r of Inl e \<Rightarrow> Some (Inl e) | Inr (ip, out, op) \<Rightarrow> dec_loop inp in_end ip out out_end op)
      else Some (Inr (op, out)))"

text \<open>The error, for which the function returns 0, or the number of bytes written and the buffer.\<close>

definition lzf_decompress :: "byte list \<Rightarrow> nat \<Rightarrow> byte list \<Rightarrow> nat \<Rightarrow> (errno + nat \<times> byte list) option" where
  "lzf_decompress in_data in_len out_data out_len = dec_loop in_data in_len 0 out_data out_len 0"

section \<open>Compression: \<open>lzf_c.c\<close>\<close>

abbreviation (input) MAX_LIT :: nat where "MAX_LIT \<equiv> 32"
abbreviation (input) MAX_OFF :: u64 where "MAX_OFF \<equiv> 8192"
abbreviation (input) MAX_REF :: nat where "MAX_REF \<equiv> 264"

definition FRST :: "byte list \<Rightarrow> nat \<Rightarrow> u32 option" where
  "FRST inp p = do { a \<leftarrow> get_at inp p; b \<leftarrow> get_at inp (p + 1); Some (push_bit 8 (ucast a) OR ucast b) }"

definition NEXT :: "u32 \<Rightarrow> byte list \<Rightarrow> nat \<Rightarrow> u32 option" where
  "NEXT v inp p = do { c \<leftarrow> get_at inp (p + 2); Some (push_bit 8 v OR ucast c) }"

definition IDX :: "u32 \<Rightarrow> u32" where
  "IDX h = (drop_bit 8 h - h * 5) AND 0xffff"

record lzf_state =
  s_ip :: nat
  s_op :: nat
  s_lit :: nat
  s_hval :: u32
  s_htab :: "u32 \<Rightarrow> u64"
  s_out :: "byte list"

text \<open>\<open>op[- lit - 1] = lit - 1\<close>: the length of a literal run in front of it, 255 for an empty one.\<close>

definition stop_run :: "lzf_state \<Rightarrow> lzf_state option" where
  "stop_run s = do { out \<leftarrow> put_at (s_out s) (s_op s - s_lit s - 1) (word_of_int (int (s_lit s) - 1)); Some (s\<lparr>s_out := out\<rparr>) }"

text \<open>A byte of the input is copied to the pending run; a full run is closed.\<close>

definition put_literal :: "byte list \<Rightarrow> lzf_state \<Rightarrow> lzf_state option" where
  "put_literal inp s =
     do {
       b \<leftarrow> get_at inp (s_ip s);
       out \<leftarrow> put_at (s_out s) (s_op s) b;
       let s = s\<lparr>s_lit := s_lit s + 1, s_out := out, s_op := s_op s + 1, s_ip := s_ip s + 1\<rparr>;
       (if s_lit s = MAX_LIT
        then do { s \<leftarrow> stop_run s; Some (s\<lparr>s_lit := 0, s_op := s_op s + 1\<rparr>) }
        else Some s)
     }"

text \<open>The candidate of the hash table is used when it lies at most \<open>MAX_OFF\<close> before \<open>ip\<close>, behind the first byte
  of the input, and its first three bytes agree.\<close>

definition is_match :: "byte list \<Rightarrow> u64 \<Rightarrow> nat \<Rightarrow> u64 \<Rightarrow> bool option" where
  "is_match inp base ip ref =
     (if base + of_nat ip - ref - 1 < MAX_OFF \<and> ref > base
      then
        do {
          let r = unat (ref - base);
          r2 \<leftarrow> get_at inp (r + 2); i2 \<leftarrow> get_at inp (ip + 2);
          (if r2 = i2
           then
             do {
               r0 \<leftarrow> get_at inp r; r1 \<leftarrow> get_at inp (r + 1);
               i0 \<leftarrow> get_at inp ip; i1 \<leftarrow> get_at inp (ip + 1);
               Some (r0 = i0 \<and> r1 = i1)
             }
           else Some False)
        }
      else Some False)"

definition differ :: "byte list \<Rightarrow> nat \<Rightarrow> nat \<Rightarrow> nat \<Rightarrow> bool option" where
  "differ inp r ip len = do { a \<leftarrow> get_at inp (r + len); b \<leftarrow> get_at inp (ip + len); Some (a \<noteq> b) }"

text \<open>The unrolled comparisons: \<open>len++; if (ref[len] != ip[len]) break;\<close>\<close>

primrec unrolled :: "byte list \<Rightarrow> nat \<Rightarrow> nat \<Rightarrow> nat \<Rightarrow> nat \<Rightarrow> (nat \<times> bool) option" where
  "unrolled inp r ip 0 len = Some (len, False)"
| "unrolled inp r ip (Suc n) len =
     do {
       d \<leftarrow> differ inp r ip (len + 1);
       (if d then Some (len + 1, True) else unrolled inp r ip n (len + 1))
     }"

text \<open>\<open>do len++; while (len < maxlen && ref[len] == ip[len]);\<close>\<close>

partial_function (option) extend_match :: "byte list \<Rightarrow> nat \<Rightarrow> nat \<Rightarrow> nat \<Rightarrow> nat \<Rightarrow> nat option" where
  [code]: "extend_match inp r ip maxlen len =
     (if len + 1 < maxlen
      then Option.bind (differ inp r ip (len + 1)) (\<lambda>d.
        if d then Some (len + 1) else extend_match inp r ip maxlen (len + 1))
      else Some (len + 1))"

definition match_length :: "byte list \<Rightarrow> nat \<Rightarrow> nat \<Rightarrow> nat \<Rightarrow> nat option" where
  "match_length inp r ip maxlen =
     do {
       (len, stop) \<leftarrow> (if maxlen > 16 then unrolled inp r ip 16 2 else Some (2, False));
       (if stop then Some len else extend_match inp r ip maxlen len)
     }"

definition put_byte :: "lzf_state \<Rightarrow> byte \<Rightarrow> lzf_state option" where
  "put_byte s b = do { out \<leftarrow> put_at (s_out s) (s_op s) b; Some (s\<lparr>s_out := out, s_op := s_op s + 1\<rparr>) }"

text \<open>The bytes of a back reference; \<open>len\<close> is the number of octets less 2, \<open>off\<close> the distance less 1.\<close>

definition put_reference :: "lzf_state \<Rightarrow> nat \<Rightarrow> nat \<Rightarrow> lzf_state option" where
  "put_reference s off len =
     do {
       s \<leftarrow> (if len < 7 then put_byte s (of_nat (off div 256 + len * 32))
            else do { s \<leftarrow> put_byte s (of_nat (off div 256 + 7 * 32)); put_byte s (of_nat (len - 7)) });
       put_byte s (of_nat off)
     }"

text \<open>Behind a match, two positions are entered into the hash table (\<open>VERY_FAST\<close>).\<close>

definition rehash :: "byte list \<Rightarrow> u64 \<Rightarrow> lzf_state \<Rightarrow> lzf_state option" where
  "rehash inp base s =
     do {
       let p = s_ip s - 2;
       hval \<leftarrow> FRST inp p;
       hval \<leftarrow> NEXT hval inp p;
       let htab = (s_htab s)(IDX hval := base + of_nat p);
       let p = p + 1;
       hval \<leftarrow> NEXT hval inp p;
       let htab = htab(IDX hval := base + of_nat p);
       Some (s\<lparr>s_hval := hval, s_htab := htab, s_ip := p + 1\<rparr>)
     }"

datatype step_result = Return0 lzf_state | Break lzf_state | Continue lzf_state

definition match_step :: "byte list \<Rightarrow> u64 \<Rightarrow> nat \<Rightarrow> lzf_state \<Rightarrow> u64 \<Rightarrow> step_result option" where
  "match_step inp base out_end s ref =
     (let ip = s_ip s; maxlen = min (length inp - ip - 2) MAX_REF;
          nolit = (if s_lit s = 0 then 1 else 0 :: nat);
          off = unat (base + of_nat ip - ref - 1) in
      if s_op s + 4 \<ge> out_end \<and> s_op s - nolit + 4 \<ge> out_end then Some (Return0 s)
      else
        do {
          s \<leftarrow> stop_run s;
          let s = s\<lparr>s_op := s_op s - nolit\<rparr>;
          len \<leftarrow> match_length inp (unat (ref - base)) ip maxlen;
          let len = len - 2;
          s \<leftarrow> put_reference s off len;
          let s = s\<lparr>s_lit := 0, s_op := s_op s + 1, s_ip := ip + 1 + len + 1\<rparr>;
          (if s_ip s + 2 \<ge> length inp then Some (Break s)
           else do { s \<leftarrow> rehash inp base s; Some (Continue s) })
        })"

definition literal_step :: "byte list \<Rightarrow> nat \<Rightarrow> lzf_state \<Rightarrow> step_result option" where
  "literal_step inp out_end s =
     (if s_op s \<ge> out_end then Some (Return0 s) else do { s \<leftarrow> put_literal inp s; Some (Continue s) })"

text \<open>One iteration of the main loop. The variable \<open>ref\<close> is the old content of the slot, or NULL.\<close>

definition comp_step :: "byte list \<Rightarrow> u64 \<Rightarrow> nat \<Rightarrow> lzf_state \<Rightarrow> step_result option" where
  "comp_step inp base out_end s =
     do {
       hval \<leftarrow> NEXT (s_hval s) inp (s_ip s);
       let ref = s_htab s (IDX hval);
       let s = s\<lparr>s_hval := hval, s_htab := (s_htab s)(IDX hval := base + of_nat (s_ip s))\<rparr>;
       m \<leftarrow> is_match inp base (s_ip s) ref;
       (if m then match_step inp base out_end s ref else literal_step inp out_end s)
     }"

text \<open>The flag tells whether the function goes on behind the loop.\<close>

partial_function (option) comp_loop :: "byte list \<Rightarrow> u64 \<Rightarrow> nat \<Rightarrow> lzf_state \<Rightarrow> (bool \<times> lzf_state) option" where
  [code]: "comp_loop inp base out_end s =
     (if s_ip s + 2 < length inp
      then Option.bind (comp_step inp base out_end s) (\<lambda>r.
        case r of Return0 s \<Rightarrow> Some (False, s) | Break s \<Rightarrow> Some (True, s) | Continue s \<Rightarrow> comp_loop inp base out_end s)
      else Some (True, s))"

partial_function (option) tail_loop :: "byte list \<Rightarrow> lzf_state \<Rightarrow> lzf_state option" where
  [code]: "tail_loop inp s =
     (if s_ip s < length inp then Option.bind (put_literal inp s) (tail_loop inp) else Some s)"

text \<open>The number of bytes written, 0 when they do not fit, and the output buffer.\<close>

definition lzf_compress :: "(u32 \<Rightarrow> u64) \<Rightarrow> u64 \<Rightarrow> byte list \<Rightarrow> byte list \<Rightarrow> nat \<Rightarrow> (nat \<times> byte list) option" where
  "lzf_compress htab base inp out_data out_len =
     (if length inp = 0 \<or> out_len = 0 then Some (0, out_data)
      else
        do {
          hval \<leftarrow> FRST inp 0;
          (go_on, s) \<leftarrow> comp_loop inp base out_len
                 \<lparr>s_ip = 0, s_op = 1, s_lit = 0, s_hval = hval, s_htab = htab, s_out = out_data\<rparr>;
          (if \<not> go_on \<or> s_op s + 3 > out_len then Some (0, s_out s)
           else
             do {
               s \<leftarrow> tail_loop inp s;
               s \<leftarrow> stop_run s;
               Some (s_op s - (if s_lit s = 0 then 1 else 0), s_out s)
             })
        })"

section \<open>Tokens\<close>

text \<open>A compressed block is a sequence of tokens: literal runs of 1 to 32 bytes, and references \<open>off + 1\<close> bytes
  back of \<open>n\<close> octets.\<close>

datatype token = Lit "byte list" | Ref nat nat

fun enc :: "token \<Rightarrow> byte list" where
  "enc (Lit bs) = of_nat (length bs - 1) # bs"
| "enc (Ref off n) =
     (if n - 2 < 7 then [of_nat (off div 256 + (n - 2) * 32), of_nat off]
      else [of_nat (off div 256 + 7 * 32), of_nat (n - 9), of_nat off])"

primrec lz_copy :: "byte list \<Rightarrow> nat \<Rightarrow> nat \<Rightarrow> byte list" where
  "lz_copy xs off 0 = xs"
| "lz_copy xs off (Suc n) = lz_copy (xs @ [xs ! (length xs - off - 1)]) off n"

fun expand1 :: "byte list \<Rightarrow> token \<Rightarrow> byte list" where
  "expand1 xs (Lit bs) = xs @ bs"
| "expand1 xs (Ref off n) = lz_copy xs off n"

fun wf_token :: "byte list \<Rightarrow> token \<Rightarrow> bool" where
  "wf_token xs (Lit bs) \<longleftrightarrow> 1 \<le> length bs \<and> length bs \<le> 32"
| "wf_token xs (Ref off n) \<longleftrightarrow> off < length xs \<and> off < 8192 \<and> 3 \<le> n \<and> n \<le> 264"

fun wf_tokens :: "byte list \<Rightarrow> token list \<Rightarrow> bool" where
  "wf_tokens xs [] \<longleftrightarrow> True"
| "wf_tokens xs (t # ts) \<longleftrightarrow> wf_token xs t \<and> wf_tokens (expand1 xs t) ts"

definition expand :: "byte list \<Rightarrow> token list \<Rightarrow> byte list" where
  "expand = foldl expand1"

section \<open>Copying\<close>

lemma length_lz_copy [simp]: "length (lz_copy xs off n) = length xs + n"
  by (induction n arbitrary: xs) auto

lemma lz_copy_disjoint:
  "n \<le> off + 1 \<Longrightarrow> off < length xs \<Longrightarrow> lz_copy xs off n = xs @ take n (drop (length xs - off - 1) xs)"
proof (induction n arbitrary: xs)
  case (Suc n)
  let ?k = "length xs - off - 1"
  have "lz_copy (xs @ [xs ! ?k]) off n = (xs @ [xs ! ?k]) @ take n (drop (Suc ?k) (xs @ [xs ! ?k]))"
    using Suc.IH [of "xs @ [xs ! ?k]"] Suc.prems by (simp add: Suc_diff_Suc)
  moreover have "take n (drop (Suc ?k) (xs @ [xs ! ?k])) = take n (drop (Suc ?k) xs)" using Suc.prems by simp
  moreover have "drop ?k xs = xs ! ?k # drop (Suc ?k) xs" using Suc.prems by (simp add: Cons_nth_drop_Suc)
  ultimately show ?case by simp
qed simp

text \<open>A repeated stretch of a list is copied by a reference.\<close>

lemma lz_copy_match:
  "r < p \<Longrightarrow> p + n \<le> length inp \<Longrightarrow> (\<And>i. i < n \<Longrightarrow> inp ! (r + i) = inp ! (p + i)) \<Longrightarrow>
   lz_copy (take p inp) (p - r - 1) n = take (p + n) inp"
proof (induction n arbitrary: p r)
  case (Suc n)
  have x: "take p inp ! (length (take p inp) - (p - r - 1) - 1) = inp ! p"
    using Suc.prems(1,2) Suc.prems(3) [of 0] by simp
  have "take p inp @ [inp ! p] = take (Suc p) inp" using Suc.prems(2) by (simp add: take_Suc_conv_app_nth)
  moreover have "lz_copy (take (Suc p) inp) (Suc p - Suc r - 1) n = take (Suc p + n) inp"
    using Suc.prems(1,2) Suc.prems(3) [of "Suc i" for i] by (intro Suc.IH) auto
  ultimately show ?case unfolding lz_copy.simps x by simp
qed simp

lemma lit_copy_ok:
  "ip + n \<le> length inp \<Longrightarrow> op + n \<le> length out \<Longrightarrow>
   lit_copy inp ip out op n = Some (take op out @ take n (drop ip inp) @ drop (op + n) out)"
proof (induction n arbitrary: ip out op)
  case (Suc n)
  have "lit_copy inp (Suc ip) (out[op := inp ! ip]) (Suc op) n =
      Some (take (Suc op) (out[op := inp ! ip]) @ take n (drop (Suc ip) inp) @ drop (Suc op + n) (out[op := inp ! ip]))"
    using Suc.prems by (intro Suc.IH) simp_all
  moreover have "take (Suc op) (out[op := inp ! ip]) = take op out @ [inp ! ip]"
    using Suc.prems by (simp add: take_Suc_conv_app_nth)
  moreover have "take (Suc n) (drop ip inp) = inp ! ip # take n (drop (Suc ip) inp)"
    using Suc.prems by (simp add: Cons_nth_drop_Suc [symmetric])
  ultimately show ?case using Suc.prems by (simp add: get_at_def put_at_def)
qed simp

lemma ref_copy_ok:
  "r < op \<Longrightarrow> op + n \<le> length out \<Longrightarrow>
   ref_copy out op r n = Some (lz_copy (take op out) (op - r - 1) n @ drop (op + n) out)"
proof (induction n arbitrary: out op r)
  case (Suc n)
  have x: "take op out ! (length (take op out) - (op - r - 1) - 1) = out ! r" using Suc.prems by simp
  have "ref_copy (out[op := out ! r]) (Suc op) (Suc r) n =
      Some (lz_copy (take (Suc op) (out[op := out ! r])) (Suc op - Suc r - 1) n @ drop (Suc op + n) (out[op := out ! r]))"
    using Suc.prems by (intro Suc.IH) simp_all
  moreover have "take (Suc op) (out[op := out ! r]) = take op out @ [out ! r]"
    using Suc.prems by (simp add: take_Suc_conv_app_nth)
  ultimately show ?case using Suc.prems unfolding lz_copy.simps x by (simp add: get_at_def put_at_def)
qed simp

lemma copy_ref_ok:
  assumes "r < op" "op + len + 2 \<le> length out"
  shows "copy_ref out op r len = Some (lz_copy (take op out) (op - r - 1) (len + 2) @ drop (op + len + 2) out)"
proof (cases "len > 9 \<and> r + (len + 2) \<le> op")
  case True
  then have "lz_copy (take op out) (op - r - 1) (len + 2) = take op out @ take (len + 2) (drop r (take op out))"
    using assms by (subst lz_copy_disjoint) auto
  also have "take (len + 2) (drop r (take op out)) = take (len + 2) (drop r out)" using True by (auto simp: drop_take min_def)
  finally have "lz_copy (take op out) (op - r - 1) (len + 2) @ drop (op + len + 2) out =
      take op out @ take (len + 2) (drop r out) @ drop (op + (len + 2)) out" by (simp only: append_assoc add.assoc)
  moreover have "mem_move out op r (len + 2) = Some (take op out @ take (len + 2) (drop r out) @ drop (op + (len + 2)) out)"
    using True assms by (intro mem_move_Some) auto
  moreover have "copy_ref out op r len = mem_move out op r (len + 2)" using True by (simp add: copy_ref_def Let_def)
  ultimately show ?thesis by (simp only:)
next
  case False
  then show ?thesis using ref_copy_ok [OF assms(1), of "len + 2" out] assms(2) by (auto simp: copy_ref_def Let_def)
qed

lemma copy_ref_some:
  "r < op \<Longrightarrow> op + len + 2 \<le> length out \<Longrightarrow> \<exists>out'. copy_ref out op r len = Some out' \<and> length out' = length out"
  using copy_ref_ok [of r op len out] by (simp del: lz_copy.simps add: length_lz_copy)

section \<open>Decoding a token\<close>

lemma unat_of_nat_byte: "n < 256 \<Longrightarrow> unat (of_nat n :: byte) = n"
  by (rule unat_of_nat_id) simp

lemma unat_of_nat_byte_mod: "unat (of_nat n :: byte) = n mod 256"
  by (simp add: unsigned_of_nat take_bit_eq_mod)

lemma ctrl_fields:
  assumes "a < 32" "k < 8"
  shows "unat (of_nat (a + k * 32) :: byte) = a + k * 32" "(a + k * 32) div 32 = k" "(a + k * 32) mod 32 = a"
proof -
  have "a + k * 32 < 256" using assms by linarith
  then show "unat (of_nat (a + k * 32) :: byte) = a + k * 32" by (rule unat_of_nat_byte)
qed (use assms in simp_all)

lemma get_at_append: "get_at (xs @ y # ys) (length xs) = Some y"
  by (simp add: get_at_def)

lemma get_at_append1: "get_at (xs @ a # y # ys) (length xs + 1) = Some y"
  using get_at_append [of "xs @ [a]" y ys] by simp

lemma get_at_append2: "get_at (xs @ a # b # y # ys) (length xs + 1 + 1) = Some y"
  using get_at_append [of "xs @ [a, b]" y ys] by simp

lemma dec_step_lit:
  assumes "wf_token xs (Lit bs)" "op + length bs \<le> out_end" "out_end \<le> length out"
    "length pre + 1 + length bs \<le> in_end" 
  shows "dec_step (pre @ enc (Lit bs) @ post) in_end (length pre) out out_end op =
    Some (Inr (length pre + length (enc (Lit bs)), take op out @ bs @ drop (op + length bs) out, op + length bs))"
proof -
  obtain m where m: "length bs = Suc m" "m < 32" using assms(1) by (cases "length bs") auto
  then have u: "unat (of_nat m :: byte) = m" by (intro unat_of_nat_byte) simp
  have "lit_copy (pre @ of_nat m # bs @ post) (Suc (length pre)) out op (Suc m) = Some (take op out @ bs @ drop (op + Suc m) out)"
    using assms m by (subst lit_copy_ok) auto
  with assms m u show ?thesis
    by (simp add: dec_step_def get_at_append dec_literal_def Let_def del: lit_copy.simps)
qed

lemma dec_offset_ok:
  assumes "get_at inp ip = Some (of_nat off)" "off < op" "off < 8192" "2 \<le> n" "op + n \<le> out_end" "out_end \<le> length out"
  shows "dec_offset inp ip (int op - int (off div 256 * 256) - 1) (n - 2) out out_end op =
    Some (Inr (ip + 1, lz_copy (take op out) off n @ drop (op + n) out, op + n))"
proof -
  have u: "unat (of_nat off :: byte) = off mod 256" by (rule unat_of_nat_byte_mod)
  have "off = off div 256 * 256 + off mod 256" by simp
  with assms(2) have ref: "int op - int (off div 256 * 256) - 1 - int (off mod 256) = int (op - off - 1)" by linarith
  have n: "n - 2 + 2 = n" "op + (n - 2) + 2 = op + n" "op - (op - off - 1) - 1 = off" "op - off - 1 < op" using assms by simp_all
  have "copy_ref out op (op - off - 1) (n - 2) = Some (lz_copy (take op out) off n @ drop (op + n) out)"
    using copy_ref_ok [OF n(4), of "n - 2" out] assms(5,6) unfolding n(1-3) by simp
  moreover have "\<not> out_end < op + n" using assms(5) by simp
  ultimately show ?thesis
    unfolding dec_offset_def assms(1) bind.bind_lunit u ref n(2) Let_def nat_int by simp
qed

lemma dec_step_ref:
  assumes "wf_token (take op out) (Ref off n)" "op + n \<le> out_end" "out_end \<le> length out"
    "length pre + length (enc (Ref off n)) \<le> in_end"
  shows "dec_step (pre @ enc (Ref off n) @ post) in_end (length pre) out out_end op =
    Some (Inr (length pre + length (enc (Ref off n)), lz_copy (take op out) off n @ drop (op + n) out, op + n))"
proof -
  have off: "off < op" "off < 8192" "3 \<le> n" "n \<le> 264" using assms(1) by auto
  then have h: "off div 256 < 32" "2 \<le> n" by simp_all
  note ok = dec_offset_ok [OF _ off(1,2) h(2) assms(2,3)]
  show ?thesis
  proof (cases "n - 2 < 7")
    case True
    have f: "unat (of_nat (off div 256 + (n - 2) * 32) :: byte) = off div 256 + (n - 2) * 32"
      "(off div 256 + (n - 2) * 32) div 32 = n - 2" "(off div 256 + (n - 2) * 32) mod 32 = off div 256"
      using ctrl_fields [OF h(1), of "n - 2"] True by simp_all
    have c: "\<not> off div 256 + (n - 2) * 32 < 32" "n - 2 \<noteq> 7" using off(3) True by linarith+
    have e: "enc (Ref off n) = [of_nat (off div 256 + (n - 2) * 32), of_nat off]" using True by simp
    have "\<not> in_end \<le> length pre + 1" using assms(4) e by simp
    with c show ?thesis unfolding e
      by (simp only: append.simps dec_step_def get_at_append bind.bind_lunit f dec_reference_def Let_def if_False
          ok [OF get_at_append1]) simp
  next
    case False
    have f: "unat (of_nat (off div 256 + 7 * 32) :: byte) = off div 256 + 7 * 32"
      "(off div 256 + 7 * 32) div 32 = 7" "(off div 256 + 7 * 32) mod 32 = off div 256"
      using ctrl_fields [OF h(1), of 7] by simp_all
    have "n - 9 < 256" "7 + (n - 9) = n - 2" using off(4) False by simp_all
    note n = unat_of_nat_byte [OF this(1)] this(2)
    have c: "\<not> off div 256 + 7 * 32 < 32" by linarith
    have e: "enc (Ref off n) = [of_nat (off div 256 + 7 * 32), of_nat (n - 9), of_nat off]" using False by simp
    have "\<not> in_end \<le> length pre + 1" "\<not> in_end \<le> length pre + 1 + 1" using assms(4) e by simp_all
    with c show ?thesis unfolding e
      by (simp only: append.simps dec_step_def get_at_append get_at_append1 bind.bind_lunit f n dec_reference_def Let_def
          if_False if_True ok [OF get_at_append2]) simp
  qed
qed

lemma dec_step_token:
  assumes "wf_token (take op out) t" "length (expand1 (take op out) t) \<le> out_end" "out_end \<le> length out" "op \<le> length out"
    "length pre + length (enc t) \<le> in_end"
  shows "\<exists>out'. dec_step (pre @ enc t @ post) in_end (length pre) out out_end op =
      Some (Inr (length pre + length (enc t), out', length (expand1 (take op out) t)))
    \<and> take (length (expand1 (take op out) t)) out' = expand1 (take op out) t \<and> length out' = length out"
proof (cases t)
  case (Lit bs)
  with assms show ?thesis using dec_step_lit [of "take op out" bs op out_end out pre in_end post] by auto
next
  case (Ref off n)
  with assms show ?thesis using dec_step_ref [of op out off n out_end pre in_end post] by auto
qed

lemma length_expand1: "length xs \<le> length (expand1 xs t)"
  by (cases t) auto

lemma expand_Cons: "expand xs (t # ts) = expand (expand1 xs t) ts"
  by (simp add: expand_def)

lemma length_expand: "length xs \<le> length (expand xs ts)"
proof (induction ts arbitrary: xs)
  case (Cons t ts)
  then show ?case using length_expand1 [of xs t] by (metis expand_Cons le_trans)
qed (simp add: expand_def)

text \<open>A well-formed sequence of tokens is decompressed to what it stands for.\<close>

lemma dec_loop_tokens:
  assumes "wf_tokens (take op out) ts" "length (expand (take op out) ts) \<le> out_end" "out_end \<le> length out" "op \<le> length out"
  shows "\<exists>out'. dec_loop (pre @ concat (map enc ts) @ post) (length pre + length (concat (map enc ts))) (length pre) out out_end op
      = Some (Inr (length (expand (take op out) ts), out'))
    \<and> take (length (expand (take op out) ts)) out' = expand (take op out) ts"
  using assms
proof (induction ts arbitrary: pre out op)
  case Nil
  then show ?case by (subst dec_loop.simps) (simp add: expand_def)
next
  case (Cons t ts)
  let ?xs = "take op out" and ?rest = "concat (map enc ts)"
  let ?ys = "expand1 ?xs t"
  have le: "length ?ys \<le> out_end" using Cons.prems(2) length_expand [of ?ys ts] by (simp add: expand_Cons)
  let ?e = "length pre + (length (enc t) + length ?rest)"
  obtain out1 where o1: "dec_step (pre @ enc t @ ?rest @ post) ?e (length pre) out out_end op =
      Some (Inr (length pre + length (enc t), out1, length ?ys))" "take (length ?ys) out1 = ?ys" "length out1 = length out"
    using dec_step_token [of op out t out_end pre ?e "?rest @ post"] Cons.prems le by auto
  obtain out2 where o2: "dec_loop ((pre @ enc t) @ ?rest @ post) (length (pre @ enc t) + length ?rest) (length (pre @ enc t))
      out1 out_end (length ?ys) = Some (Inr (length (expand ?ys ts), out2))"
    "take (length (expand ?ys ts)) out2 = expand ?ys ts"
    using Cons.IH [of "length ?ys" out1 "pre @ enc t"] Cons.prems o1 le by (auto simp: expand_Cons)
  have "enc t \<noteq> []" by (cases t) auto
  then have "length pre < ?e" by simp
  then have "dec_loop (pre @ enc t @ ?rest @ post) ?e (length pre) out out_end op = Some (Inr (length (expand ?ys ts), out2))"
    using o2(1) by (subst dec_loop.simps)
      (simp only: o1(1) bind.bind_lunit sum.case prod.case if_True append_assoc length_append add.assoc)
  with o2(2) show ?case by (simp add: expand_Cons)
qed

section \<open>Decompression is safe\<close>

lemma dec_step_total:
  assumes "ip < in_end" "in_end \<le> length inp" "op \<le> out_end" "out_end \<le> length out"
  shows "(\<exists>e. dec_step inp in_end ip out out_end op = Some (Inl e))
    \<or> (\<exists>ip' out' op'. dec_step inp in_end ip out out_end op = Some (Inr (ip', out', op'))
        \<and> ip < ip' \<and> op' \<le> out_end \<and> length out' = length out)"
proof -
  have off: "(\<exists>e. dec_offset inp ip' (int op - int k - 1) len out out_end op = Some (Inl e))
      \<or> (\<exists>out'. dec_offset inp ip' (int op - int k - 1) len out out_end op = Some (Inr (ip' + 1, out', op + len + 2))
          \<and> op + len + 2 \<le> out_end \<and> length out' = length out)" if "ip' < in_end" for ip' k len
  proof -
    define ref where "ref = int op - int k - 1 - int (unat (inp ! ip'))"
    have g: "get_at inp ip' = Some (inp ! ip')" using that assms by (simp add: get_at_def)
    show ?thesis
    proof (cases "op + len + 2 > out_end \<or> ref < 0")
      case True
      then show ?thesis by (auto simp: dec_offset_def g Let_def ref_def)
    next
      case False
      then have "0 \<le> ref" "op + len + 2 \<le> length out" using assms(4) by simp_all
      moreover have "ref < int op" unfolding ref_def by linarith
      ultimately have "nat ref < op" "op + len + 2 \<le> length out" by linarith+
      from copy_ref_some [OF this] False show ?thesis
        unfolding dec_offset_def g bind.bind_lunit Let_def ref_def [symmetric] by auto
    qed
  qed
  show ?thesis
  proof (cases "unat (inp ! ip) < 32")
    case True
    then show ?thesis using assms
      by (auto simp: dec_step_def get_at_def dec_literal_def Let_def lit_copy_ok simp del: lit_copy.simps)
  next
    case False
    then have "dec_step inp in_end ip out out_end op = dec_reference inp in_end (unat (inp ! ip)) (ip + 1) out out_end op"
      using assms by (simp add: dec_step_def get_at_def)
    moreover have "get_at inp (ip + 1) = Some (inp ! (ip + 1))" if "ip + 1 < in_end" using that assms by (simp add: get_at_def)
    ultimately show ?thesis
      using off [of "ip + 1 + 1" "unat (inp ! ip) mod 32 * 256" "unat (inp ! ip) div 32 + unat (inp ! (ip + 1))"]
        off [of "ip + 1" "unat (inp ! ip) mod 32 * 256" "unat (inp ! ip) div 32"]
      unfolding dec_reference_def Let_def
      by (cases "ip + 1 < in_end"; cases "unat (inp ! ip) div 32 = 7"; cases "ip + 1 + 1 < in_end") auto
  qed
qed

lemma dec_loop_total:
  assumes "in_end \<le> length inp" "op \<le> out_end" "out_end \<le> length out"
  shows "\<exists>r. dec_loop inp in_end ip out out_end op = Some r
    \<and> (\<forall>n out'. r = Inr (n, out') \<longrightarrow> n \<le> out_end \<and> length out' = length out)"
  using assms
proof (induction "in_end - ip" arbitrary: ip out op rule: less_induct)
  case less
  show ?case
  proof (cases "ip < in_end")
    case True
    from dec_step_total [OF True less.prems] show ?thesis
    proof (elim disjE exE conjE)
      fix e assume "dec_step inp in_end ip out out_end op = Some (Inl e)"
      then show ?thesis using True by (subst dec_loop.simps) simp
    next
      fix ip' out' op'
      assume s: "dec_step inp in_end ip out out_end op = Some (Inr (ip', out', op'))"
        "ip < ip'" "op' \<le> out_end" "length out' = length out"
      have "in_end - ip' < in_end - ip" using True s(2) by simp
      from less.hyps [OF this less.prems(1) s(3), of out'] less.prems(3) s True show ?thesis
        by (subst dec_loop.simps) simp
    qed
  next
    case False
    then show ?thesis using less.prems by (subst dec_loop.simps) simp
  qed
qed

section \<open>What the compressor has written\<close>

lemma expand_snoc: "expand xs (ts @ [t]) = expand1 (expand xs ts) t"
  by (simp add: expand_def)

lemma wf_tokens_snoc: "wf_tokens xs (ts @ [t]) \<longleftrightarrow> wf_tokens xs ts \<and> wf_token (expand xs ts) t"
  by (induction ts arbitrary: xs) (simp_all add: expand_def)

abbreviation encs :: "token list \<Rightarrow> byte list" where
  "encs ts \<equiv> concat (map enc ts)"

text \<open>The output holds tokens that expand to the input up to position \<open>x\<close>.\<close>

definition written :: "byte list \<Rightarrow> nat \<Rightarrow> byte list \<Rightarrow> token list \<Rightarrow> bool" where
  "written inp x out toks \<longleftrightarrow> x \<le> length inp \<and> wf_tokens [] toks \<and> expand [] toks = take x inp
     \<and> length (encs toks) \<le> length out \<and> take (length (encs toks)) out = encs toks"

text \<open>Behind the tokens, one byte is kept free for the length of the pending run of literals. The tokens need at
  most one byte more for each 32 bytes of the input.\<close>

definition pending :: "byte list \<Rightarrow> lzf_state \<Rightarrow> token list \<Rightarrow> bool" where
  "pending inp s toks \<longleftrightarrow>
     written inp (s_ip s - s_lit s) (s_out s) toks \<and> s_lit s \<le> s_ip s \<and> s_ip s \<le> length inp \<and> s_lit s \<le> 32
     \<and> s_op s = length (encs toks) + 1 + s_lit s \<and> (s_lit s > 0 \<longrightarrow> s_op s \<le> length (s_out s))
     \<and> take (s_lit s) (drop (length (encs toks) + 1) (s_out s)) = take (s_lit s) (drop (s_ip s - s_lit s) inp)
     \<and> length (encs toks) \<le> (s_ip s - s_lit s) + (s_ip s - s_lit s) div 32"

lemma written_update:
  "written inp x out toks \<Longrightarrow> length (encs toks) \<le> i \<Longrightarrow> written inp x (out[i := b]) toks"
  by (simp add: written_def)

lemma written_snoc:
  assumes "written inp x out toks" "wf_token (take x inp) t" "expand1 (take x inp) t = take y inp" "y \<le> length inp"
    "length (encs toks) + length (enc t) \<le> length out" "take (length (enc t)) (drop (length (encs toks)) out) = enc t"
  shows "written inp y out (toks @ [t])"
  using assms by (simp add: written_def wf_tokens_snoc expand_snoc take_add)

text \<open>Closing the pending run. An empty run is undone by the caller, which takes one byte back.\<close>

definition no_run :: "lzf_state \<Rightarrow> nat" where
  "no_run s = (if s_lit s = 0 then 1 else 0)"

lemma stop_run_ok:
  assumes "pending inp s toks" "length (encs toks) < length (s_out s)"
  shows "\<exists>out' toks'. stop_run s = Some (s\<lparr>s_out := out'\<rparr>) \<and> length out' = length (s_out s)
    \<and> written inp (s_ip s) out' toks' \<and> length (encs toks') = s_op s - no_run s"
proof -
  let ?E = "encs toks" and ?k = "s_lit s" and ?x = "s_ip s - s_lit s"
  have p: "written inp ?x (s_out s) toks" "?k \<le> s_ip s" "s_ip s \<le> length inp" "?k \<le> 32" "s_op s = length ?E + 1 + ?k"
    using assms(1) by (auto simp: pending_def)
  let ?out = "(s_out s)[length ?E := word_of_int (int ?k - 1)]"
  have run: "stop_run s = Some (s\<lparr>s_out := ?out\<rparr>)" using assms(2) p(5) by (simp add: stop_run_def put_at_def)
  have w: "written inp ?x ?out toks" using p(1) by (rule written_update) simp
  show ?thesis
  proof (cases "?k = 0")
    case True
    with run w p show ?thesis by (auto simp: no_run_def)
  next
    case False
    let ?bs = "take ?k (drop ?x inp)"
    have len: "length ?bs = ?k" using p(2,3) by simp
    have b: "word_of_int (int ?k - 1) = (of_nat (?k - 1) :: byte)" using False by simp
    have "drop (length ?E) ?out = word_of_int (int ?k - 1) # drop (length ?E + 1) (s_out s)"
      using assms(2) by (simp add: drop_update_swap flip: Cons_nth_drop_Suc)
    then have "take (length (enc (Lit ?bs))) (drop (length ?E) ?out) = enc (Lit ?bs)"
      using assms(1) len b False by (simp add: pending_def)
    moreover have "expand1 (take ?x inp) (Lit ?bs) = take (s_ip s) inp"
      using take_add [of ?x ?k inp] p(2) by simp
    moreover have "wf_token (take ?x inp) (Lit ?bs)" using len False p(4) by simp
    moreover have "length ?E + length (enc (Lit ?bs)) \<le> length ?out"
      using assms(1) False len by (simp add: pending_def)
    ultimately have "written inp (s_ip s) ?out (toks @ [Lit ?bs])" using w p(3) by (intro written_snoc)
    moreover have "length (encs (toks @ [Lit ?bs])) = s_op s" using len p(5) by simp
    ultimately show ?thesis using run False
      by (intro exI [of _ ?out] exI [of _ "toks @ [Lit ?bs]"]) (simp add: no_run_def)
  qed
qed

section \<open>Literals\<close>

lemma put_literal_ok:
  assumes "pending inp s toks" "s_lit s < 32" "s_ip s < length inp" "s_op s < length (s_out s)"
  shows "\<exists>s' toks'. put_literal inp s = Some s' \<and> pending inp s' toks' \<and> s_lit s' < 32 \<and> s_ip s' = s_ip s + 1
    \<and> length (s_out s') = length (s_out s) \<and> s_op s' \<le> s_op s + (if s_lit s = 31 then 2 else 1)
    \<and> s_lit s' = (if s_lit s = 31 then 0 else s_lit s + 1)"
proof -
  let ?E = "encs toks" and ?k = "s_lit s" and ?x = "s_ip s - s_lit s"
  define s1 where "s1 = s\<lparr>s_lit := ?k + 1, s_out := (s_out s)[s_op s := inp ! s_ip s], s_op := s_op s + 1, s_ip := s_ip s + 1\<rparr>"
  have p: "?k \<le> s_ip s" "s_op s = length ?E + 1 + ?k"
    "take ?k (drop (length ?E + 1) (s_out s)) = take ?k (drop ?x inp)"
    using assms(1) by (auto simp: pending_def)
  have "take (?k + 1) (drop (length ?E + 1) ((s_out s)[s_op s := inp ! s_ip s])) = take (?k + 1) (drop ?x inp)"
  proof -
    have "drop (length ?E + 1) ((s_out s)[s_op s := inp ! s_ip s]) = (drop (length ?E + 1) (s_out s))[?k := inp ! s_ip s]"
      using p(2) by (simp add: drop_update_swap)
    moreover have "take (?k + 1) ((drop (length ?E + 1) (s_out s))[?k := inp ! s_ip s]) =
        take ?k (drop (length ?E + 1) (s_out s)) @ [inp ! s_ip s]"
      using assms(4) p(2) by (simp add: take_Suc_conv_app_nth)
    moreover have "take (?k + 1) (drop ?x inp) = take ?k (drop ?x inp) @ [inp ! s_ip s]"
      using assms(3) p(1) by (simp add: take_Suc_conv_app_nth)
    ultimately show ?thesis using p(3) by (simp only:)
  qed
  moreover have "s_ip s + 1 - (?k + 1) = ?x" by simp
  moreover have "written inp ?x ((s_out s)[s_op s := inp ! s_ip s]) toks"
    using assms(1) p(2) by (intro written_update) (simp_all add: pending_def)
  ultimately have s1: "pending inp s1 toks"
    using assms p unfolding pending_def s1_def by (simp add: pending_def)
  have put: "put_literal inp s = (if s_lit s1 = MAX_LIT
      then do { s \<leftarrow> stop_run s1; Some (s\<lparr>s_lit := 0, s_op := s_op s + 1\<rparr>) } else Some s1)"
    using assms(3,4) by (simp add: put_literal_def get_at_def put_at_def s1_def)
  show ?thesis
  proof (cases "s_lit s1 = 32")
    case False
    with put s1 assms(2) show ?thesis by (intro exI [of _ s1] exI [of _ toks]) (auto simp: s1_def)
  next
    case True
    have "length ?E < length (s_out s1)" using assms(4) p(2) by (simp add: s1_def)
    from stop_run_ok [OF s1 this] obtain out' toks' where
      r: "stop_run s1 = Some (s1\<lparr>s_out := out'\<rparr>)" "length out' = length (s_out s1)"
      "written inp (s_ip s1) out' toks'" "length (encs toks') = s_op s1"
      using True by (auto simp: no_run_def)
    define s2 where "s2 = s1\<lparr>s_out := out', s_lit := 0, s_op := s_op s1 + 1\<rparr>"
    have "length (encs toks') \<le> s_ip s1 + s_ip s1 div 32"
    proof -
      have "s_ip s1 = (s_ip s1 - 32) + 32" using s1 True by (simp add: pending_def)
      then have "s_ip s1 div 32 = (s_ip s1 - 32) div 32 + 1" by (metis div_add_self2 zero_neq_numeral)
      with s1 True r(4) show ?thesis by (auto simp: pending_def)
    qed
    then have "pending inp s2 toks'" using r(3,4) s1 by (simp add: pending_def s2_def)
    moreover have "put_literal inp s = Some s2" using put True r(1) by (simp add: s2_def)
    ultimately show ?thesis using r(2) True
      by (intro exI [of _ s2] exI [of _ toks']) (auto simp: s2_def s1_def)
  qed
qed

section \<open>Matches\<close>

lemma is_match_ok:
  assumes "8192 \<le> unat base" "unat base + length inp < 2 ^ 64" "ip + 2 < length inp"
  shows "\<exists>b. is_match inp base ip ref = Some b
    \<and> (b \<longrightarrow> (let r = unat (ref - base) in r < ip \<and> unat (base + of_nat ip - ref - 1) = ip - r - 1 \<and> ip - r - 1 < 8192
        \<and> (\<forall>i < 3. inp ! (r + i) = inp ! (ip + i))))"
proof (cases "base + of_nat ip - ref - 1 < MAX_OFF \<and> ref > base")
  case False
  then show ?thesis unfolding is_match_def by (intro exI [of _ False]) (simp only: if_False simp_thms)
next
  case True
  define k where "k = unat (base + of_nat ip - ref - 1)"
  define r where "r = unat (ref - base)"
  have k: "k < 8192" using True by (simp add: k_def word_less_nat_alt)
  have "base + of_nat ip - ref - 1 = of_nat k" by (simp add: k_def)
  then have "ref = base + of_nat ip - of_nat (k + 1)" by (simp add: algebra_simps)
  also have "\<dots> = of_nat (unat base + ip - (k + 1))" using k assms(1) by (simp add: of_nat_diff)
  finally have u: "unat ref = unat base + ip - (k + 1)" using assms by (simp add: unat_of_nat_id)
  moreover have "unat base < unat ref" using True by (simp add: word_less_nat_alt)
  moreover have "r = unat ref - unat base" unfolding r_def using True by (intro unat_sub) (simp add: word_le_nat_alt word_less_nat_alt)
  ultimately have r: "r < ip" "k = ip - r - 1" by linarith+
  then have "is_match inp base ip ref =
      Some (inp ! (r + 2) = inp ! (ip + 2) \<and> inp ! r = inp ! ip \<and> inp ! (r + 1) = inp ! (ip + 1))"
    using assms(3) True by (simp add: is_match_def get_at_def flip: r_def)
  moreover have "(\<forall>i < 3. inp ! (r + i) = inp ! (ip + i)) \<longleftrightarrow>
      inp ! (r + 2) = inp ! (ip + 2) \<and> inp ! r = inp ! ip \<and> inp ! (r + 1) = inp ! (ip + 1)"
    by (auto simp: numeral_3_eq_3 less_Suc_eq numeral_2_eq_2)
  ultimately show ?thesis using r k by (simp flip: r_def k_def)
qed

lemma differ_ok:
  "r < ip \<Longrightarrow> ip + len < length inp \<Longrightarrow> differ inp r ip len = Some (inp ! (r + len) \<noteq> inp ! (ip + len))"
  by (simp add: differ_def get_at_def)

lemma unrolled_ok:
  assumes "r < ip" "ip + len + n < length inp" "\<forall>i \<le> len. inp ! (r + i) = inp ! (ip + i)"
  shows "\<exists>len' stop. unrolled inp r ip n len = Some (len', stop) \<and> len \<le> len' \<and> len' \<le> len + n
    \<and> (if stop then len < len' \<and> (\<forall>i < len'. inp ! (r + i) = inp ! (ip + i))
       else len' = len + n \<and> (\<forall>i \<le> len'. inp ! (r + i) = inp ! (ip + i)))"
  using assms
proof (induction n arbitrary: len)
  case (Suc n)
  have d: "differ inp r ip (len + 1) = Some (inp ! (r + (len + 1)) \<noteq> inp ! (ip + (len + 1)))"
    using Suc.prems by (intro differ_ok) auto
  show ?case
  proof (cases "inp ! (r + (len + 1)) = inp ! (ip + (len + 1))")
    case True
    then have "\<forall>i \<le> len + 1. inp ! (r + i) = inp ! (ip + i)" using Suc.prems(3) by (simp add: le_Suc_eq)
    with Suc.IH [of "len + 1"] Suc.prems(1,2) d True show ?thesis by fastforce
  next
    case False
    with d Suc.prems(3) show ?thesis by (auto simp: less_Suc_eq_le)
  qed
qed auto

lemma extend_match_ok:
  assumes "r < ip" "ip + maxlen + 2 \<le> length inp" "ip + len + 1 \<le> length inp" "\<forall>i \<le> len. inp ! (r + i) = inp ! (ip + i)"
  shows "\<exists>n. extend_match inp r ip maxlen len = Some n \<and> len < n \<and> n \<le> max maxlen (len + 1) \<and> ip + n \<le> length inp
    \<and> (\<forall>i < n. inp ! (r + i) = inp ! (ip + i))"
  using assms
proof (induction "maxlen - len" arbitrary: len rule: less_induct)
  case less
  show ?case
  proof (cases "len + 1 < maxlen")
    case False
    then show ?thesis using less.prems by (subst extend_match.simps) (auto simp: less_Suc_eq_le)
  next
    case True
    have d: "differ inp r ip (len + 1) = Some (inp ! (r + (len + 1)) \<noteq> inp ! (ip + (len + 1)))"
      using less.prems True by (intro differ_ok) auto
    show ?thesis
    proof (cases "inp ! (r + (len + 1)) = inp ! (ip + (len + 1))")
      case eq: True
      then have "\<forall>i \<le> len + 1. inp ! (r + i) = inp ! (ip + i)" using less.prems(4) by (simp add: le_Suc_eq)
      moreover have "maxlen - (len + 1) < maxlen - len" "ip + (len + 1) + 1 \<le> length inp" using True less.prems by auto
      ultimately obtain n where "extend_match inp r ip maxlen (len + 1) = Some n" "len + 1 < n" "n \<le> max maxlen (len + 1 + 1)"
        "ip + n \<le> length inp" "\<forall>i < n. inp ! (r + i) = inp ! (ip + i)"
        using less.hyps [of "len + 1"] less.prems(1,2) by blast
      then show ?thesis using True d eq by (subst extend_match.simps) auto
    next
      case False
      then show ?thesis using True d less.prems by (subst extend_match.simps) (auto simp: less_Suc_eq_le)
    qed
  qed
qed

lemma match_length_ok:
  assumes "r < ip" "ip + 2 < length inp" "\<forall>i < 3. inp ! (r + i) = inp ! (ip + i)"
    "maxlen = min (length inp - ip - 2) MAX_REF"
  shows "\<exists>n. match_length inp r ip maxlen = Some n \<and> 3 \<le> n \<and> n \<le> 264 \<and> ip + n \<le> length inp
    \<and> (\<forall>i < n. inp ! (r + i) = inp ! (ip + i))"
proof -
  have m2: "\<forall>i \<le> 2. inp ! (r + i) = inp ! (ip + i)" using assms(3) by simp
  have mx: "ip + maxlen + 2 \<le> length inp" "maxlen \<le> 264" using assms(2,4) by auto
  show ?thesis
  proof (cases "maxlen > 16")
    case False
    then show ?thesis using extend_match_ok [OF assms(1) mx(1) _ m2] assms(2) mx by (auto simp: match_length_def)
  next
    case True
    then obtain len stop where u: "unrolled inp r ip 16 2 = Some (len, stop)" "2 \<le> len" "len \<le> 18"
      "if stop then 2 < len \<and> (\<forall>i < len. inp ! (r + i) = inp ! (ip + i))
       else len = 18 \<and> (\<forall>i \<le> len. inp ! (r + i) = inp ! (ip + i))"
      using unrolled_ok [OF assms(1) _ m2, of 16] mx by auto
    show ?thesis
    proof (cases stop)
      case stop: True
      then show ?thesis using u True mx by (auto simp: match_length_def)
    next
      case False
      then have "ip + len + 1 \<le> length inp" "\<forall>i \<le> len. inp ! (r + i) = inp ! (ip + i)" using u True mx by auto
      from extend_match_ok [OF assms(1) mx(1) this] show ?thesis using False u True mx by (auto simp: match_length_def)
    qed
  qed
qed


lemma take2_update: "i + 1 < length xs \<Longrightarrow> take 2 (drop i (xs[i := a, i + 1 := b])) = [a, b]"
  by (rule nth_equalityI) (auto simp: less_Suc_eq numeral_2_eq_2)

lemma take3_update: "i + 2 < length xs \<Longrightarrow> take 3 (drop i (xs[i := a, i + 1 := b, i + 2 := c])) = [a, b, c]"
  by (rule nth_equalityI) (auto simp: less_Suc_eq numeral_3_eq_3 numeral_2_eq_2)

lemma put_byte_Some:
  "s_op s < length (s_out s) \<Longrightarrow> put_byte s b = Some (s\<lparr>s_out := (s_out s)[s_op s := b], s_op := s_op s + 1\<rparr>)"
  by (simp add: put_byte_def put_at_def)

text \<open>The reference is one more token of the output.\<close>

lemma put_reference_ok:
  assumes "written inp x (s_out s) toks" "s_op s = length (encs toks)" "s_op s + 3 \<le> length (s_out s)"
    "wf_token (take x inp) (Ref off n)" "lz_copy (take x inp) off n = take y inp" "y \<le> length inp"
  shows "\<exists>out'. put_reference s off (n - 2) = Some (s\<lparr>s_out := out', s_op := s_op s + length (enc (Ref off n))\<rparr>)
    \<and> length out' = length (s_out s) \<and> written inp y out' (toks @ [Ref off n])"
proof (cases "n - 2 < 7")
  case True
  let ?out = "(s_out s)[s_op s := of_nat (off div 256 + (n - 2) * 32), s_op s + 1 := of_nat off]"
  have "put_reference s off (n - 2) = Some (s\<lparr>s_out := ?out, s_op := s_op s + length (enc (Ref off n))\<rparr>)"
    using True assms(3) by (simp add: put_reference_def put_byte_Some)
  moreover have "written inp y ?out (toks @ [Ref off n])"
  proof (rule written_snoc)
    show "written inp x ?out toks" using assms(1,2) by (intro written_update) simp_all
    show "take (length (enc (Ref off n))) (drop (length (encs toks)) ?out) = enc (Ref off n)"
      using True assms(2,3) take2_update [of "s_op s" "s_out s"] by (simp add: numeral_2_eq_2)
  qed (use True assms in simp_all)
  ultimately show ?thesis by (intro exI [of _ ?out]) simp
next
  case False
  let ?out = "(s_out s)[s_op s := of_nat (off div 256 + 7 * 32), s_op s + 1 := of_nat (n - 9), s_op s + 2 := of_nat off]"
  have n: "n - 2 - 7 = n - 9" by simp
  have "put_reference s off (n - 2) = Some (s\<lparr>s_out := ?out, s_op := s_op s + length (enc (Ref off n))\<rparr>)"
    using False assms(3) by (simp add: put_reference_def put_byte_Some n)
  moreover have "written inp y ?out (toks @ [Ref off n])"
  proof (rule written_snoc)
    show "written inp x ?out toks" using assms(1,2) by (intro written_update) simp_all
    show "take (length (enc (Ref off n))) (drop (length (encs toks)) ?out) = enc (Ref off n)"
      using False assms(2,3) take3_update [of "s_op s" "s_out s"] by (simp add: numeral_3_eq_3 numeral_2_eq_2)
  qed (use False assms in simp_all)
  ultimately show ?thesis by (intro exI [of _ ?out]) simp
qed


text \<open>One iteration gives up only near the end of the output, and else keeps the invariant and advances.\<close>

definition advances :: "byte list \<Rightarrow> lzf_state \<Rightarrow> lzf_state \<Rightarrow> bool" where
  "advances inp s s' \<longleftrightarrow> (\<exists>toks. pending inp s' toks) \<and> s_lit s' < 32 \<and> s_ip s < s_ip s' \<and> length (s_out s') = length (s_out s)"

fun step_good :: "byte list \<Rightarrow> nat \<Rightarrow> lzf_state \<Rightarrow> step_result \<Rightarrow> bool" where
  "step_good inp out_end s (Return0 s') \<longleftrightarrow> out_end \<le> s_op s + 4 \<and> s_ip s + 2 < length inp"
| "step_good inp out_end s (Break s') \<longleftrightarrow> advances inp s s' \<and> length inp \<le> s_ip s' + 2"
| "step_good inp out_end s (Continue s') \<longleftrightarrow> advances inp s s'"

lemma pending_hash [simp]:
  "pending inp (s\<lparr>s_hval := h, s_htab := t\<rparr>) toks \<longleftrightarrow> pending inp s toks"
  by (simp add: pending_def)

lemma rehash_ok:
  assumes "2 \<le> s_ip s" "s_ip s + 2 < length inp"
  shows "\<exists>h t. rehash inp base s = Some (s\<lparr>s_hval := h, s_htab := t\<rparr>)"
proof -
  obtain p where p: "s_ip s = p + 2" using assms(1) by (metis le_add_diff_inverse2)
  then have g: "get_at inp p = Some (inp ! p)" "get_at inp (p + 1) = Some (inp ! (p + 1))"
    "get_at inp (p + 2) = Some (inp ! (p + 2))" "get_at inp (p + 1 + 2) = Some (inp ! (p + 1 + 2))"
    using assms(2) by (simp_all add: get_at_def)
  have "s\<lparr>s_hval := h, s_htab := t, s_ip := p + 1 + 1\<rparr> = s\<lparr>s_hval := h, s_htab := t\<rparr>" for h t
    using p by (cases s) simp
  then show ?thesis unfolding rehash_def FRST_def NEXT_def p Let_def add_diff_cancel_right' g bind.bind_lunit by blast
qed

text \<open>A match ends the pending run and appends the reference: three or more bytes of the input for two or three
  bytes of the output.\<close>

lemma pending_reference:
  assumes "pending inp s toks" "written inp (s_ip s + n) out (toks1 @ [Ref off n])" "length (encs toks1) = s_op s - no_run s"
    "3 \<le> n" "s_ip s' = s_ip s + n" "s_lit s' = 0" "s_out s' = out" "s_op s' = s_op s - no_run s + length (enc (Ref off n)) + 1"
  shows "pending inp s' (toks1 @ [Ref off n])"
proof -
  let ?x = "s_ip s - s_lit s"
  have x: "s_lit s \<le> s_ip s" "s_op s = length (encs toks) + 1 + s_lit s" "length (encs toks) \<le> ?x + ?x div 32"
    using assms(1) unfolding pending_def by blast+
  have "length (enc (Ref off n)) \<le> n - 1" using assms(4) by auto
  moreover have "s_op s - no_run s \<le> s_ip s + 1 + ?x div 32" using x by (simp add: no_run_def)
  moreover have "?x div 32 \<le> (s_ip s + n) div 32" by (intro div_le_mono) simp
  moreover have "s_lit s = 0 \<Longrightarrow> s_op s - no_run s \<le> s_ip s + ?x div 32" using x by (simp add: no_run_def)
  ultimately have "s_op s - no_run s + length (enc (Ref off n)) \<le> s_ip s + n + (s_ip s + n) div 32" using assms(4) by linarith
  moreover have "s_ip s + n \<le> length inp" using assms(2) by (simp add: written_def)
  ultimately show ?thesis using assms(2,3,5-8) by (simp add: pending_def del: enc.simps)
qed

lemma match_step_ok:
  assumes "pending inp s toks" "s_ip s + 2 < length inp" "out_end \<le> length (s_out s)"
    "r = unat (ref - base)" "r < s_ip s" "unat (base + of_nat (s_ip s) - ref - 1) = s_ip s - r - 1" "s_ip s - r - 1 < 8192"
    "\<forall>i < 3. inp ! (r + i) = inp ! (s_ip s + i)"
  shows "\<exists>q. match_step inp base out_end s ref = Some q \<and> step_good inp out_end s q"
proof (cases "out_end \<le> s_op s - no_run s + 4")
  case True
  then have "out_end \<le> s_op s + 4" by linarith
  with True have "match_step inp base out_end s ref = Some (Return0 s)"
    unfolding match_step_def Let_def no_run_def by (simp only: simp_thms if_True)
  moreover have "step_good inp out_end s (Return0 s)" using True assms(2) by simp
  ultimately show ?thesis by blast
next
  case False
  define off where "off = s_ip s - r - 1"
  define op where "op = s_op s - no_run s"
  have "length (encs toks) < length (s_out s)" using assms(1,3) False by (auto simp: pending_def no_run_def split: if_splits)
  from stop_run_ok [OF assms(1) this] obtain out1 toks1 where
    o1: "stop_run s = Some (s\<lparr>s_out := out1\<rparr>)" "length out1 = length (s_out s)" "written inp (s_ip s) out1 toks1"
      "length (encs toks1) = op" unfolding op_def by blast
  obtain n where n: "match_length inp r (s_ip s) (min (length inp - s_ip s - 2) MAX_REF) = Some n" "3 \<le> n" "n \<le> 264"
    "s_ip s + n \<le> length inp" "\<forall>i < n. inp ! (r + i) = inp ! (s_ip s + i)"
    using match_length_ok [OF assms(5,2,8) refl] by blast
  let ?s1 = "s\<lparr>s_out := out1, s_op := op\<rparr>"
  have "wf_token (take (s_ip s) inp) (Ref off n)" using assms(2,5,7) n(2,3) by (simp add: off_def)
  moreover have "lz_copy (take (s_ip s) inp) off n = take (s_ip s + n) inp" unfolding off_def using assms(5) n(4,5) by (intro lz_copy_match) auto
  moreover have "op + 3 \<le> length out1" using False assms(3) o1(2) by (simp add: op_def)
  ultimately obtain out2 where o2: "put_reference ?s1 off (n - 2) =
      Some (?s1\<lparr>s_out := out2, s_op := op + length (enc (Ref off n))\<rparr>)"
    "length out2 = length out1" "written inp (s_ip s + n) out2 (toks1 @ [Ref off n])"
    using put_reference_ok [of inp "s_ip s" ?s1 toks1 off n "s_ip s + n"] o1(3,4) n(4) by (auto simp del: enc.simps)
  define s2 where "s2 = s\<lparr>s_out := out2, s_lit := 0, s_op := op + length (enc (Ref off n)) + 1, s_ip := s_ip s + n\<rparr>"
  obtain m where m: "n = m + 2" using n(2) le_Suc_ex [of 2 n] by auto
  have nolit: "(if s_lit s = 0 then 1 else 0) = no_run s" by (simp add: no_run_def)
  have c: "\<not> (out_end \<le> s_op s + 4 \<and> out_end \<le> op + 4)" using False by (simp add: op_def)
  have step: "match_step inp base out_end s ref = (if s_ip s2 + 2 \<ge> length inp then Some (Break s2)
      else do { s \<leftarrow> rehash inp base s2; Some (Continue s) })"
    using o1(1) n(1) o2(1)
    unfolding match_step_def Let_def nolit assms(4) [symmetric] assms(6) off_def [symmetric] op_def [symmetric] if_not_P [OF c]
    by (simp add: s2_def m del: enc.simps flip: op_def)
  have p: "pending inp s2 (toks1 @ [Ref off n])"
    using pending_reference [OF assms(1) o2(3) o1(4) [unfolded op_def] n(2)] by (simp add: s2_def op_def)
  have adv: "advances inp s s2" unfolding advances_def
    by (intro conjI exI [of _ "toks1 @ [Ref off n]"] p) (use n(2) o1(2) o2(2) in \<open>simp_all add: s2_def\<close>)
  show ?thesis
  proof (cases "s_ip s2 + 2 \<ge> length inp")
    case True
    with step adv show ?thesis by (intro exI [of _ "Break s2"]) simp
  next
    case False
    moreover have "2 \<le> s_ip s2" using n(2) by (simp add: s2_def)
    ultimately obtain h t where "rehash inp base s2 = Some (s2\<lparr>s_hval := h, s_htab := t\<rparr>)"
      using rehash_ok [of s2 inp base] by auto
    with step adv False show ?thesis
      by (intro exI [of _ "Continue (s2\<lparr>s_hval := h, s_htab := t\<rparr>)"]) (simp add: advances_def)
  qed
qed

lemma literal_step_ok:
  assumes "pending inp s toks" "s_lit s < 32" "s_ip s + 2 < length inp" "out_end \<le> length (s_out s)"
  shows "\<exists>q. literal_step inp out_end s = Some q \<and> step_good inp out_end s q"
proof (cases "out_end \<le> s_op s")
  case True
  with assms(3) show ?thesis by (intro exI [of _ "Return0 s"]) (simp add: literal_step_def)
next
  case False
  then obtain s' toks' where "put_literal inp s = Some s'" "pending inp s' toks'" "s_lit s' < 32" "s_ip s' = s_ip s + 1"
    "length (s_out s') = length (s_out s)"
    using put_literal_ok [OF assms(1,2)] assms(3,4) by auto
  with False show ?thesis by (intro exI [of _ "Continue s'"]) (auto simp: literal_step_def advances_def)
qed

lemma step_good_hash: "step_good inp out_end (s\<lparr>s_hval := h, s_htab := t\<rparr>) q \<longleftrightarrow> step_good inp out_end s q"
  by (cases q) (simp_all add: advances_def)

lemma comp_step_ok:
  assumes "pending inp s toks" "s_lit s < 32" "s_ip s + 2 < length inp" "out_end \<le> length (s_out s)"
    "8192 \<le> unat base" "unat base + length inp < 2 ^ 64"
  shows "\<exists>q. comp_step inp base out_end s = Some q \<and> step_good inp out_end s q"
proof -
  obtain h where h: "NEXT (s_hval s) inp (s_ip s) = Some h" using assms(3) by (simp add: NEXT_def get_at_def)
  define ref where "ref = s_htab s (IDX h)"
  define s1 where "s1 = s\<lparr>s_hval := h, s_htab := (s_htab s)(IDX h := base + of_nat (s_ip s))\<rparr>"
  obtain b where b: "is_match inp base (s_ip s) ref = Some b"
    "b \<longrightarrow> (let r = unat (ref - base) in r < s_ip s \<and> unat (base + of_nat (s_ip s) - ref - 1) = s_ip s - r - 1 \<and> s_ip s - r - 1 < 8192
        \<and> (\<forall>i < 3. inp ! (r + i) = inp ! (s_ip s + i)))"
    using is_match_ok [OF assms(5,6,3)] by blast
  have step: "comp_step inp base out_end s = (if b then match_step inp base out_end s1 ref else literal_step inp out_end s1)"
    using h b(1) by (simp add: comp_step_def s1_def flip: ref_def)
  have s1: "pending inp s1 toks" "s_lit s1 < 32" "s_ip s1 + 2 < length inp" "out_end \<le> length (s_out s1)" "s_ip s1 = s_ip s"
    using assms by (simp_all add: s1_def)
  have "\<exists>q. (if b then match_step inp base out_end s1 ref else literal_step inp out_end s1) = Some q \<and> step_good inp out_end s1 q"
    using match_step_ok [OF s1(1,3,4) refl] literal_step_ok [OF s1(1-4)] b(2) s1(5) by (auto simp: Let_def)
  then show ?thesis unfolding step by (simp add: s1_def step_good_hash)
qed


section \<open>The whole compressor\<close>

lemma pending_op: "pending inp s toks \<Longrightarrow> s_op s \<le> s_ip s + s_ip s div 32 + 1"
  using div_le_mono [of "s_ip s - s_lit s" "s_ip s" 32] by (auto simp: pending_def)

lemma comp_loop_ok:
  assumes "pending inp s toks" "s_lit s < 32" "out_end \<le> length (s_out s)" "8192 \<le> unat base" "unat base + length inp < 2 ^ 64"
  shows "\<exists>go s'. comp_loop inp base out_end s = Some (go, s')
    \<and> (if go then (\<exists>toks'. pending inp s' toks') \<and> s_lit s' < 32 \<and> length inp \<le> s_ip s' + 2 \<and> length (s_out s') = length (s_out s)
       else out_end < length inp + length inp div 32 + 4)"
  using assms
proof (induction "length inp - s_ip s" arbitrary: s toks rule: less_induct)
  case less
  show ?case
  proof (cases "s_ip s + 2 < length inp")
    case False
    with less.prems show ?thesis by (subst comp_loop.simps) auto
  next
    case True
    obtain q where q: "comp_step inp base out_end s = Some q" "step_good inp out_end s q"
      using comp_step_ok [OF less.prems(1,2) True less.prems(3-5)] by blast
    then have loop: "comp_loop inp base out_end s =
        (case q of Return0 s \<Rightarrow> Some (False, s) | Break s \<Rightarrow> Some (True, s) | Continue s \<Rightarrow> comp_loop inp base out_end s)"
      using True by (subst comp_loop.simps) simp
    show ?thesis
    proof (cases q)
      case (Return0 s')
      have "s_ip s div 32 \<le> length inp div 32" using True by (intro div_le_mono) simp
      then have "out_end < length inp + length inp div 32 + 4"
        using pending_op [OF less.prems(1)] q(2) Return0 True by simp
      with loop Return0 show ?thesis by auto
    next
      case (Break s')
      with loop q(2) show ?thesis by (auto simp: advances_def)
    next
      case (Continue s')
      then obtain toks' where s': "pending inp s' toks'" "s_lit s' < 32" "s_ip s < s_ip s'" "length (s_out s') = length (s_out s)"
        using q(2) by (auto simp: advances_def)
      have "length inp - s_ip s' < length inp - s_ip s" using s'(3) True by linarith
      moreover have "out_end \<le> length (s_out s')" using less.prems(3) s'(4) by (simp only:)
      ultimately show ?thesis
        using less.hyps [OF _ s'(1,2) _ less.prems(4,5)] unfolding loop Continue step_result.case s'(4) by blast
    qed
  qed
qed

text \<open>At most two bytes are left for the last loop, for which three bytes of the output are free.\<close>

lemma tail_loop_ok:
  assumes "pending inp s toks" "s_lit s < 32" "s_op s + room \<le> length (s_out s)"
    "length inp - s_ip s + (if s_lit s + (length inp - s_ip s) \<ge> 32 then 1 else 0) \<le> room" "length inp - s_ip s \<le> 2"
  shows "\<exists>s' toks'. tail_loop inp s = Some s' \<and> pending inp s' toks' \<and> s_lit s' < 32 \<and> s_ip s' = length inp
    \<and> length (s_out s') = length (s_out s) \<and> s_op s' \<le> length (s_out s)"
  using assms
proof (induction "length inp - s_ip s" arbitrary: s toks room)
  case 0
  then have "s_ip s = length inp" by (auto simp: pending_def)
  moreover have "s_op s \<le> length (s_out s)" using 0 by simp
  ultimately show ?case using 0 by (subst tail_loop.simps) auto
next
  case (Suc n)
  then have lt: "s_ip s < length inp" "s_op s < length (s_out s)" by auto
  obtain s1 toks1 where s1: "put_literal inp s = Some s1" "pending inp s1 toks1" "s_lit s1 < 32" "s_ip s1 = s_ip s + 1"
    "length (s_out s1) = length (s_out s)" "s_op s1 \<le> s_op s + (if s_lit s = 31 then 2 else 1)"
    "s_lit s1 = (if s_lit s = 31 then 0 else s_lit s + 1)"
    using put_literal_ok [OF Suc.prems(1,2) lt] by blast
  let ?room = "room - (if s_lit s = 31 then 2 else 1)"
  have "n = length inp - s_ip s1" "n \<le> 1" using Suc.hyps(2) s1(4) Suc.prems(5) by simp_all
  moreover have "s_op s1 + ?room \<le> length (s_out s1)" using s1(5,6) Suc.prems(3,4) lt by (auto split: if_splits)
  moreover have "n + (if s_lit s1 + n \<ge> 32 then 1 else 0) \<le> ?room"
    using Suc.prems(2,4) Suc.hyps(2) s1(7) \<open>n \<le> 1\<close> by (auto split: if_splits)
  ultimately obtain s' toks' where "tail_loop inp s1 = Some s'" "pending inp s' toks'" "s_lit s' < 32" "s_ip s' = length inp"
    "length (s_out s') = length (s_out s1)" "s_op s' \<le> length (s_out s1)"
    using Suc.hyps(1) [of s1 toks1 ?room] s1(2,3) by auto
  then show ?case using s1(1,5) lt by (subst tail_loop.simps) auto
qed

lemma tail_ok:
  assumes "pending inp s toks" "s_lit s < 32" "s_op s + 3 \<le> length (s_out s)" "length inp \<le> s_ip s + 2"
  shows "\<exists>s' s'' toks'. tail_loop inp s = Some s' \<and> stop_run s' = Some s'' \<and> s_op s'' = s_op s' \<and> s_lit s'' = s_lit s'
    \<and> written inp (length inp) (s_out s'') toks' \<and> length (encs toks') = s_op s' - no_run s' \<and> s_op s' \<le> length (s_out s)
    \<and> length (s_out s'') = length (s_out s)"
proof -
  obtain s' toks' where s': "tail_loop inp s = Some s'" "pending inp s' toks'" "s_ip s' = length inp"
    "length (s_out s') = length (s_out s)" "s_op s' \<le> length (s_out s)"
  proof -
    have "length inp - s_ip s + (if s_lit s + (length inp - s_ip s) \<ge> 32 then 1 else 0) \<le> 3" "length inp - s_ip s \<le> 2"
      using assms(4) by auto
    from tail_loop_ok [OF assms(1-3) this] that show ?thesis by blast
  qed
  then have "length (encs toks') < length (s_out s')" by (auto simp: pending_def)
  from stop_run_ok [OF s'(2) this] s' show ?thesis by auto
qed


lemma lzf_compress_ok:
  assumes "2 \<le> length inp" "length out_data = out_len" "8192 \<le> unat base" "unat base + length inp < 2 ^ 64"
  shows "\<exists>n out. lzf_compress htab base inp out_data out_len = Some (n, out) \<and> n \<le> out_len
    \<and> (n = 0 \<longrightarrow> out_len < length inp + length inp div 32 + 4)
    \<and> (n \<noteq> 0 \<longrightarrow> (\<exists>toks. written inp (length inp) out toks \<and> n = length (encs toks)))"
proof (cases "out_len = 0")
  case True
  then show ?thesis using assms(1) by (simp add: lzf_compress_def)
next
  case False
  have "inp \<noteq> []" using assms(1) by auto
  then obtain h where h: "FRST inp 0 = Some h" using assms(1) by (simp add: FRST_def get_at_def)
  let ?s = "\<lparr>s_ip = 0, s_op = 1, s_lit = 0, s_hval = h, s_htab = htab, s_out = out_data\<rparr>"
  have s: "pending inp ?s []" "s_lit ?s < 32" "out_len \<le> length (s_out ?s)"
    using assms(2) by (simp_all add: pending_def written_def expand_def)
  obtain go s where
    loop: "comp_loop inp base out_len ?s = Some (go, s)"
      "if go then (\<exists>toks'. pending inp s toks') \<and> s_lit s < 32 \<and> length inp \<le> s_ip s + 2 \<and> length (s_out s) = length out_data
       else out_len < length inp + length inp div 32 + 4"
    using comp_loop_ok [OF s assms(3,4), unfolded lzf_state.select_convs] by blast
  have c: "\<not> (length inp = 0 \<or> out_len = 0)" using False assms(1) by auto
  note run = lzf_compress_def if_not_P [OF c] h bind.bind_lunit loop(1) prod.case
  show ?thesis
  proof (cases "\<not> go \<or> s_op s + 3 > out_len")
    case True
    have "out_len < length inp + length inp div 32 + 4"
    proof (cases go)
      case go: True
      then obtain toks where "pending inp s toks" using loop(2) by auto
      from pending_op [OF this] this have "s_op s \<le> length inp + length inp div 32 + 1"
        using div_le_mono [of "s_ip s" "length inp" 32] by (simp add: pending_def)
      with go True show ?thesis by simp
    qed (use loop(2) in simp)
    then show ?thesis unfolding run if_P [OF True] by auto
  next
    case fits: False
    then obtain toks where p: "pending inp s toks" "s_lit s < 32" "s_op s + 3 \<le> length (s_out s)" "length inp \<le> s_ip s + 2"
      "length (s_out s) = out_len" using loop(2) assms(2) by auto
    obtain s1 s2 toks' where t: "tail_loop inp s = Some s1" "stop_run s1 = Some s2" "s_op s2 = s_op s1" "s_lit s2 = s_lit s1"
      "written inp (length inp) (s_out s2) toks'" "length (encs toks') = s_op s1 - no_run s1" "s_op s1 \<le> out_len"
      using tail_ok [OF p(1-4)] unfolding p(5) by blast
    have "toks' \<noteq> []" using t(5) assms(1) by (auto simp: written_def expand_def)
    then have "encs toks' \<noteq> []" by (cases toks'; cases "hd toks'") auto
    then have "length (encs toks') \<noteq> 0" by (simp only: length_0_conv not_False_eq_True)
    moreover have "lzf_compress htab base inp out_data out_len = Some (length (encs toks'), s_out s2)"
      unfolding run if_not_P [OF fits] using t(1-4) by (simp add: t(6) no_run_def)
    moreover have "length (encs toks') \<le> out_len" using t(6,7) by simp
    ultimately show ?thesis using t(5) by blast
  qed
qed

section \<open>Properties\<close>

text \<open>C1. What \<open>lzf_compress\<close> returns, whatever the uninitialised hash table holds, is decompressed by
  \<open>lzf_decompress\<close> to the input, in any buffer that is large enough.\<close>

theorem lzf_roundtrip:
  assumes "2 \<le> length inp" "length out_data = out_len" "8192 \<le> unat base" "unat base + length inp < 2 ^ 64"
    "lzf_compress htab base inp out_data out_len = Some (n, out)" "n \<noteq> 0" "length inp \<le> length buf"
  shows "\<exists>buf'. lzf_decompress out n buf (length buf) = Some (Inr (length inp, buf')) \<and> take (length inp) buf' = inp"
proof -
  obtain toks where w: "written inp (length inp) out toks" "n = length (encs toks)"
    using lzf_compress_ok [OF assms(1-4), of htab] assms(5,6) by auto
  then have "out = encs toks @ drop n out" "expand [] toks = inp" "wf_tokens [] toks"
    by (auto simp: written_def) (metis append_take_drop_id)
  with dec_loop_tokens [of 0 buf toks "length buf" "[]" "drop n out"] w(2) assms(7) show ?thesis
    by (simp add: lzf_decompress_def)
qed

lemma compress_example:
  "lzf_compress (\<lambda>_. 0) 65536 [9, 1, 2, 3, 1, 2, 3, 1, 2, 3, 1, 2] (replicate 20 0) 20 =
   Some (10, [3, 9, 1, 2, 3, 128, 2, 1, 1, 2, 0, 0, 0, 0, 0, 0, 0, 0, 0, 0])"
  by code_simp

theorem lzf_roundtrip_witness:
  "\<exists>buf'. lzf_decompress [3, 9, 1, 2, 3, 128, 2, 1, 1, 2, 0, 0, 0, 0, 0, 0, 0, 0, 0, 0] 10 (replicate 12 0) 12 = Some (Inr (12, buf'))
     \<and> take 12 buf' = [9, 1, 2, 3, 1, 2, 3, 1, 2, 3, 1, 2]"
proof -
  have len: "length [9, 1, 2, 3, 1, 2, 3, 1, 2, 3, 1, 2 :: byte] = 12" by simp
  show ?thesis using lzf_roundtrip [OF _ _ _ _ compress_example, of "replicate 12 0", unfolded len] by simp
qed



text \<open>C4. On arbitrary bytes, \<open>lzf_decompress\<close> ends and accesses neither the input nor the output out of bounds.\<close>

theorem lzf_decompress_safe:
  assumes "in_len \<le> length in_data" "out_len \<le> length out_data"
  shows "\<exists>r. lzf_decompress in_data in_len out_data out_len = Some r
    \<and> (\<forall>n out. r = Inr (n, out) \<longrightarrow> n \<le> out_len \<and> length out = length out_data)"
  unfolding lzf_decompress_def using assms by (intro dec_loop_total) simp_all


theorem lzf_decompress_safe_witness:
  "\<exists>r. lzf_decompress [255, 255, 255, 3] 4 (replicate 8 0) 8 = Some r
     \<and> (\<forall>n out. r = Inr (n, out) \<longrightarrow> n \<le> 8 \<and> length out = 8)"
  using lzf_decompress_safe [of 4 "[255, 255, 255, 3]" 8 "replicate 8 0"] by simp

text \<open>An input of one byte is read past its end: \<open>FRST\<close> reads two bytes before the loop tests the length.\<close>

lemma lzf_compress_one_byte: "0 < out_len \<Longrightarrow> lzf_compress htab base [b] out_data out_len = None"
  by (simp add: lzf_compress_def FRST_def get_at_def)

end
