(* ===== verification/Skiplist.thy ===== *)
theory Skiplist
  imports Cmp
begin

text \<open>
  \<open>src/skiplist/skiplist.c\<close>: ordered lists with express lanes. Nodes live in a heap, a partial map from addresses
  to records; a pointer is an optional address, and following NULL or a freed address is \<open>None\<close>. The address
  that \<open>zmalloc\<close> returns and the numbers that \<open>random\<close> returns are parameters. An element is the content of its
  sds string, which \<open>sds_cmp\<close> compares like \<open>strcmp\<close> (\<open>sds_cmp_eq\<close> of \<open>SdsText\<close>). The comparator is the one of the client,
  which reads both scores; the score of the header is NULL. Spans are \<open>unsigned long\<close>, ranks are \<open>int\<close>.
\<close>

section \<open>Nodes and lists\<close>

type_synonym addr = nat

record skiplistLevel =
  forward :: "addr option"
  span :: u64

record 's skiplist_node =
  ele :: "byte list option"
  score :: "'s option"
  backward :: "addr option"
  levels :: "skiplistLevel list"

type_synonym 's sl_heap = "addr \<rightharpoonup> 's skiplist_node"
type_synonym 's sl_comparator = "byte list option \<Rightarrow> 's \<Rightarrow> byte list option \<Rightarrow> 's \<Rightarrow> int"

record 's skiplist =
  header :: addr
  tail :: "addr option"
  sl_length :: u64
  level :: nat
  sl_cmp :: "'s sl_comparator"

abbreviation (input) ZSKIPLIST_MAXLEVEL :: nat where
  "ZSKIPLIST_MAXLEVEL \<equiv> 32"

definition call_cmp :: "'s skiplist \<Rightarrow> byte list option \<Rightarrow> 's option \<Rightarrow> byte list option \<Rightarrow> 's option \<Rightarrow> int option" where
  "call_cmp sl a_ele a b_ele b = do { a \<leftarrow> a; b \<leftarrow> b; Some (sl_cmp sl a_ele a b_ele b) }"

definition read_level :: "'s sl_heap \<Rightarrow> addr \<Rightarrow> nat \<Rightarrow> skiplistLevel option" where
  "read_level h a i = do { n \<leftarrow> h a; get_at (levels n) i }"

definition write_level :: "'s sl_heap \<Rightarrow> addr \<Rightarrow> nat \<Rightarrow> skiplistLevel \<Rightarrow> 's sl_heap option" where
  "write_level h a i l = do { n \<leftarrow> h a; ls \<leftarrow> put_at (levels n) i l; Some (h(a \<mapsto> n\<lparr>levels := ls\<rparr>)) }"

definition skipListCreateNode :: "nat \<Rightarrow> 's option \<Rightarrow> byte list option \<Rightarrow> 's skiplist_node" where
  "skipListCreateNode lv s e =
     \<lparr>ele = e, score = s, backward = None, levels = replicate lv \<lparr>forward = None, span = 0\<rparr>\<rparr>"

definition skipListFreeNode :: "'s sl_heap \<Rightarrow> addr \<Rightarrow> ('s sl_heap \<times> 's option) option" where
  "skipListFreeNode h a = do { n \<leftarrow> h a; Some (h(a := None), score n) }"

text \<open>The new list at the address \<open>hdr\<close> of its header.\<close>

definition skipListNew :: "'s sl_heap \<Rightarrow> addr \<Rightarrow> 's sl_comparator \<Rightarrow> 's sl_heap \<times> 's skiplist" where
  "skipListNew h new c =
     (h(new \<mapsto> skipListCreateNode ZSKIPLIST_MAXLEVEL None None),
      \<lparr>header = new, tail = None, sl_length = 0, level = 1, sl_cmp = c\<rparr>)"

text \<open>\<open>random() & 0xFFFF\<close> is compared with \<open>0.25 * 0xFFFF = 16383.75\<close>; \<open>rnd k\<close> is the result of the \<open>k\<close>-th call.
  The counter \<open>level\<close> is an \<open>int\<close>; it is a natural number here, and the two differ only after more than \<open>2 ^ 31\<close> small
  random numbers in a row.\<close>

partial_function (option) random_level_loop :: "(nat \<Rightarrow> u64) \<Rightarrow> nat \<Rightarrow> nat \<Rightarrow> nat option" where
  [code]: "random_level_loop rnd k lv =
     (if rnd k AND 0xFFFF \<le> 16383 then random_level_loop rnd (k + 1) (lv + 1) else Some lv)"

definition skipListRandomLevel :: "(nat \<Rightarrow> u64) \<Rightarrow> nat option" where
  "skipListRandomLevel rnd =
     do { lv \<leftarrow> random_level_loop rnd 0 1; Some (if lv < ZSKIPLIST_MAXLEVEL then lv else ZSKIPLIST_MAXLEVEL) }"

section \<open>Searching\<close>

text \<open>The inner loop at level \<open>i\<close>: \<open>while (x->level[i].forward && P(x->level[i].forward)) x = x->level[i].forward;\<close>
  \<open>rank[i] += span\<close> adds in \<open>unsigned long\<close> and keeps the low 32 bits; only \<open>skipListInsert\<close> uses the rank.\<close>

partial_function (option) skip_forward ::
  "'s sl_heap \<Rightarrow> ('s skiplist_node \<Rightarrow> bool option) \<Rightarrow> nat \<Rightarrow> addr \<Rightarrow> u32 \<Rightarrow> (addr \<times> u32) option" where
  [code]: "skip_forward h P i x rank =
     Option.bind (read_level h x i) (\<lambda>l.
       case forward l of
         None \<Rightarrow> Some (x, rank)
       | Some y \<Rightarrow> Option.bind (h y) (\<lambda>n. Option.bind (P n) (\<lambda>b.
           if b then skip_forward h P i y (rank + ucast (span l)) else Some (x, rank))))"

text \<open>The outer loop, from level \<open>i - 1\<close> down to 0: the list of \<open>update[i]\<close> and \<open>rank[i]\<close>.\<close>

fun descend :: "'s sl_heap \<Rightarrow> ('s skiplist_node \<Rightarrow> bool option) \<Rightarrow> nat \<Rightarrow> addr \<Rightarrow> u32 \<Rightarrow> (addr \<times> u32) list option" where
  "descend h P 0 x rank = Some []"
| "descend h P (Suc i) x rank =
     do {
       (x, rank) \<leftarrow> skip_forward h P i x rank;
       us \<leftarrow> descend h P i x rank;
       Some (us @ [(x, rank)])
     }"

definition last_x :: "addr \<Rightarrow> (addr \<times> u32) list \<Rightarrow> addr" where
  "last_x x us = (case us of [] \<Rightarrow> x | u # _ \<Rightarrow> fst u)"

definition before :: "'s skiplist \<Rightarrow> 's option \<Rightarrow> byte list option \<Rightarrow> 's skiplist_node \<Rightarrow> bool option" where
  "before sl s e n = do { c \<leftarrow> call_cmp sl (ele n) (score n) e s; Some (c < 0) }"

section \<open>Insertion\<close>

text \<open>\<open>for (i = sl->level; i < level; i++) update[i]->level[i].span = sl->length;\<close> where \<open>update[i]\<close> is the header.\<close>

fun new_levels :: "'s sl_heap \<Rightarrow> addr \<Rightarrow> nat \<Rightarrow> nat \<Rightarrow> u64 \<Rightarrow> 's sl_heap option" where
  "new_levels h hdr i 0 len = Some h"
| "new_levels h hdr i (Suc k) len =
     do {
       l \<leftarrow> read_level h hdr i;
       h \<leftarrow> write_level h hdr i (l\<lparr>span := len\<rparr>);
       new_levels h hdr (Suc i) k len
     }"

definition rank_diff :: "u32 \<Rightarrow> u32 \<Rightarrow> u64" where
  "rank_diff a b = scast (a - b)"

definition link_level :: "'s sl_heap \<Rightarrow> addr \<Rightarrow> (addr \<times> u32) list \<Rightarrow> nat \<Rightarrow> 's sl_heap option" where
  "link_level h x us i =
     do {
       (u, r) \<leftarrow> get_at us i;
       (_, r0) \<leftarrow> get_at us 0;
       ul \<leftarrow> read_level h u i;
       xl \<leftarrow> read_level h x i;
       h \<leftarrow> write_level h x i (xl\<lparr>forward := forward ul, span := span ul - rank_diff r0 r\<rparr>);
       write_level h u i (ul\<lparr>forward := Some x, span := rank_diff r0 r + 1\<rparr>)
     }"

fun link_loop :: "'s sl_heap \<Rightarrow> addr \<Rightarrow> (addr \<times> u32) list \<Rightarrow> nat \<Rightarrow> nat \<Rightarrow> 's sl_heap option" where
  "link_loop h x us i 0 = Some h"
| "link_loop h x us i (Suc k) = do { h \<leftarrow> link_level h x us i; link_loop h x us (Suc i) k }"

fun span_loop :: "'s sl_heap \<Rightarrow> (addr \<times> u32) list \<Rightarrow> nat \<Rightarrow> nat \<Rightarrow> 's sl_heap option" where
  "span_loop h us i 0 = Some h"
| "span_loop h us i (Suc k) =
     do {
       (u, _) \<leftarrow> get_at us i;
       l \<leftarrow> read_level h u i;
       h \<leftarrow> write_level h u i (l\<lparr>span := span l + 1\<rparr>);
       span_loop h us (Suc i) k
     }"

definition set_backward :: "'s sl_heap \<Rightarrow> addr \<Rightarrow> addr option \<Rightarrow> 's sl_heap option" where
  "set_backward h a p = do { n \<leftarrow> h a; Some (h(a \<mapsto> n\<lparr>backward := p\<rparr>)) }"

text \<open>\<open>if (x->level[0].forward) x->level[0].forward->backward = p; else sl->tail = q;\<close>\<close>

definition fix_backward ::
  "'s sl_heap \<Rightarrow> 's skiplist \<Rightarrow> addr \<Rightarrow> addr option \<Rightarrow> addr option \<Rightarrow> ('s sl_heap \<times> 's skiplist) option" where
  "fix_backward h sl x p q =
     do {
       l \<leftarrow> read_level h x 0;
       (case forward l of
          Some y \<Rightarrow> do { h \<leftarrow> set_backward h y p; Some (h, sl) }
        | None \<Rightarrow> Some (h, sl\<lparr>tail := q\<rparr>))
     }"

text \<open>The new node \<open>x\<close> is linked at its \<open>lv\<close> levels, the spans above are increased, and the backward pointers are set.\<close>

definition link_node ::
  "'s sl_heap \<Rightarrow> 's skiplist \<Rightarrow> addr \<Rightarrow> (addr \<times> u32) list \<Rightarrow> nat \<Rightarrow> ('s sl_heap \<times> 's skiplist) option" where
  "link_node h sl x us lv =
     do {
       h \<leftarrow> link_loop h x us 0 lv;
       h \<leftarrow> span_loop h us lv (level sl - lv);
       (u, _) \<leftarrow> get_at us 0;
       h \<leftarrow> set_backward h x (if u = header sl then None else Some u);
       fix_backward h sl x (Some x) (Some x)
     }"

definition skipListInsert ::
  "'s sl_heap \<Rightarrow> 's skiplist \<Rightarrow> addr \<Rightarrow> (nat \<Rightarrow> u64) \<Rightarrow> 's option \<Rightarrow> byte list option \<Rightarrow> ('s sl_heap \<times> 's skiplist) option" where
  "skipListInsert h sl new rnd s e =
     do {
       us \<leftarrow> descend h (before sl s e) (level sl) (header sl) 0;
       lv \<leftarrow> skipListRandomLevel rnd;
       h \<leftarrow> (if lv > level sl then new_levels h (header sl) (level sl) (lv - level sl) (sl_length sl) else Some h);
       let us = us @ replicate (lv - level sl) (header sl, 0);
       let sl = (if lv > level sl then sl\<lparr>level := lv\<rparr> else sl);
       let h = h(new \<mapsto> skipListCreateNode lv s e);
       (h, sl) \<leftarrow> link_node h sl new us lv;
       Some (h, sl\<lparr>sl_length := sl_length sl + 1\<rparr>)
     }"

section \<open>Deletion\<close>

text \<open>\<open>update[i]->level->forward = x->level[i].forward\<close> writes to level 0 in every iteration.\<close>

definition unlink_level :: "'s sl_heap \<Rightarrow> addr \<Rightarrow> (addr \<times> u32) list \<Rightarrow> nat \<Rightarrow> 's sl_heap option" where
  "unlink_level h x us i =
     do {
       (u, _) \<leftarrow> get_at us i;
       ul \<leftarrow> read_level h u i;
       (if forward ul = Some x
        then
          do {
            xl \<leftarrow> read_level h x i;
            h \<leftarrow> write_level h u i (ul\<lparr>span := span ul + (span xl - 1)\<rparr>);
            ul0 \<leftarrow> read_level h u 0;
            write_level h u 0 (ul0\<lparr>forward := forward xl\<rparr>)
          }
        else write_level h u i (ul\<lparr>span := span ul - 1\<rparr>))
     }"

fun unlink_loop :: "'s sl_heap \<Rightarrow> addr \<Rightarrow> (addr \<times> u32) list \<Rightarrow> nat \<Rightarrow> nat \<Rightarrow> 's sl_heap option" where
  "unlink_loop h x us i 0 = Some h"
| "unlink_loop h x us i (Suc k) = do { h \<leftarrow> unlink_level h x us i; unlink_loop h x us (Suc i) k }"

text \<open>\<open>while (sl->level > 1 && sl->header->level[sl->level-1].forward == NULL) sl->level--;\<close>\<close>

fun drop_levels :: "'s sl_heap \<Rightarrow> addr \<Rightarrow> nat \<Rightarrow> nat option" where
  "drop_levels h hdr lv =
     (if lv > 1
      then do { l \<leftarrow> read_level h hdr (lv - 1); (if forward l = None then drop_levels h hdr (lv - 1) else Some lv) }
      else Some lv)"

declare drop_levels.simps [simp del]

definition skiplistDeleteNode ::
  "'s sl_heap \<Rightarrow> 's skiplist \<Rightarrow> addr \<Rightarrow> (addr \<times> u32) list \<Rightarrow> ('s sl_heap \<times> 's skiplist) option" where
  "skiplistDeleteNode h sl x us =
     do {
       h \<leftarrow> unlink_loop h x us 0 (level sl);
       xn \<leftarrow> h x;
       (h, sl) \<leftarrow> fix_backward h sl x (backward xn) (backward xn);
       lv \<leftarrow> drop_levels h (header sl) (level sl);
       Some (h, sl\<lparr>level := lv, sl_length := sl_length sl - 1\<rparr>)
     }"

text \<open>The second copy of the function, which nothing calls.\<close>

definition sl_unlink_level :: "'s sl_heap \<Rightarrow> addr \<Rightarrow> (addr \<times> u32) list \<Rightarrow> nat \<Rightarrow> 's sl_heap option" where
  "sl_unlink_level h x us i =
     do {
       (u, _) \<leftarrow> get_at us i;
       ul \<leftarrow> read_level h u i;
       (if forward ul = Some x
        then do { xl \<leftarrow> read_level h x i; write_level h u i (ul\<lparr>span := span ul + (span xl - 1), forward := forward xl\<rparr>) }
        else write_level h u i (ul\<lparr>span := span ul - 1\<rparr>))
     }"

fun sl_unlink_loop :: "'s sl_heap \<Rightarrow> addr \<Rightarrow> (addr \<times> u32) list \<Rightarrow> nat \<Rightarrow> nat \<Rightarrow> 's sl_heap option" where
  "sl_unlink_loop h x us i 0 = Some h"
| "sl_unlink_loop h x us i (Suc k) = do { h \<leftarrow> sl_unlink_level h x us i; sl_unlink_loop h x us (Suc i) k }"

definition slDeleteNode ::
  "'s sl_heap \<Rightarrow> 's skiplist \<Rightarrow> addr \<Rightarrow> (addr \<times> u32) list \<Rightarrow> ('s sl_heap \<times> 's skiplist) option" where
  "slDeleteNode h sl x us =
     do {
       h \<leftarrow> sl_unlink_loop h x us 0 (level sl);
       xn \<leftarrow> h x;
       (h, sl) \<leftarrow> fix_backward h sl x (backward xn) (backward xn);
       lv \<leftarrow> drop_levels h (header sl) (level sl);
       Some (h, sl\<lparr>level := lv, sl_length := sl_length sl - 1\<rparr>)
     }"

text \<open>\<open>node\<close> tells whether the caller passes a place for the node, which is then not freed. The result is the
  score, or NULL when the pair is not in the list.\<close>

definition skipListDelete ::
  "'s sl_heap \<Rightarrow> 's skiplist \<Rightarrow> 's option \<Rightarrow> byte list option \<Rightarrow> bool \<Rightarrow> ('s sl_heap \<times> 's skiplist \<times> 's option) option" where
  "skipListDelete h sl s e node =
     do {
       us \<leftarrow> descend h (before sl s e) (level sl) (header sl) 0;
       l \<leftarrow> read_level h (last_x (header sl) us) 0;
       (case forward l of
          None \<Rightarrow> Some (h, sl, None)
        | Some x \<Rightarrow>
            do {
              n \<leftarrow> h x;
              c \<leftarrow> call_cmp sl None (score n) None s;
              same \<leftarrow> (if c = 0 then do { a \<leftarrow> ele n; b \<leftarrow> e; Some (strcmp a b = 0) } else Some False);
              (if same
               then
                 do {
                   (h, sl) \<leftarrow> skiplistDeleteNode h sl x us;
                   (if node then do { n \<leftarrow> h x; Some (h, sl, score n) }
                    else do { (h, v) \<leftarrow> skipListFreeNode h x; Some (h, sl, v) })
                 }
               else Some (h, sl, None))
            })
     }"

section \<open>Ranges\<close>

record 's zrangespec =
  zmin :: "'s option"
  zmax :: "'s option"
  minex :: bool
  maxex :: bool

definition slValueGteMin :: "'s skiplist \<Rightarrow> 's option \<Rightarrow> 's zrangespec \<Rightarrow> bool option" where
  "slValueGteMin sl s zs =
     do { r \<leftarrow> call_cmp sl None s None (zmin zs); Some (if minex zs then r > 0 else r \<ge> 0) }"

definition slValueLteMax :: "'s skiplist \<Rightarrow> 's option \<Rightarrow> 's zrangespec \<Rightarrow> bool option" where
  "slValueLteMax sl s zs =
     do { r \<leftarrow> call_cmp sl None s None (zmax zs); Some (if maxex zs then r < 0 else r \<le> 0) }"

definition slIsInRange :: "'s sl_heap \<Rightarrow> 's skiplist \<Rightarrow> 's zrangespec \<Rightarrow> bool option" where
  "slIsInRange h sl zr =
     do {
       r \<leftarrow> call_cmp sl None (zmin zr) None (zmax zr);
       (if r > 0 \<or> (r = 0 \<and> (minex zr \<or> maxex zr)) then Some False
        else
          case tail sl of
            None \<Rightarrow> Some False
          | Some x \<Rightarrow>
              do {
                n \<leftarrow> h x;
                ge \<leftarrow> slValueGteMin sl (score n) zr;
                (if \<not> ge then Some False
                 else
                   do {
                     l \<leftarrow> read_level h (header sl) 0;
                     (case forward l of
                        None \<Rightarrow> Some False
                      | Some y \<Rightarrow> do { n \<leftarrow> h y; slValueLteMax sl (score n) zr })
                   })
              })
     }"

definition skiplist_firstInRange :: "'s sl_heap \<Rightarrow> 's skiplist \<Rightarrow> 's zrangespec \<Rightarrow> addr option option" where
  "skiplist_firstInRange h sl zr =
     do {
       ok \<leftarrow> slIsInRange h sl zr;
       (if \<not> ok then Some None
        else
          do {
            us \<leftarrow> descend h (\<lambda>n. map_option Not (slValueGteMin sl (score n) zr)) (level sl) (header sl) 0;
            l \<leftarrow> read_level h (last_x (header sl) us) 0;
            x \<leftarrow> forward l;
            n \<leftarrow> h x;
            le \<leftarrow> slValueLteMax sl (score n) zr;
            Some (if \<not> le then None else Some x)
          })
     }"

definition skiplist_lastInRange :: "'s sl_heap \<Rightarrow> 's skiplist \<Rightarrow> 's zrangespec \<Rightarrow> addr option option" where
  "skiplist_lastInRange h sl zr =
     do {
       ok \<leftarrow> slIsInRange h sl zr;
       (if \<not> ok then Some None
        else
          do {
            us \<leftarrow> descend h (\<lambda>n. slValueLteMax sl (score n) zr) (level sl) (header sl) 0;
            let x = last_x (header sl) us;
            n \<leftarrow> h x;
            ge \<leftarrow> slValueGteMin sl (score n) zr;
            Some (if \<not> ge then None else Some x)
          })
     }"

section \<open>Freeing\<close>

text \<open>The values that \<open>free_value\<close> is called with, in order.\<close>

partial_function (option) free_loop :: "'s sl_heap \<Rightarrow> addr option \<Rightarrow> ('s sl_heap \<times> 's option list) option" where
  [code]: "free_loop h node =
     (case node of
        None \<Rightarrow> Some (h, [])
      | Some a \<Rightarrow>
          Option.bind (read_level h a 0) (\<lambda>l.
          Option.bind (skipListFreeNode h a) (\<lambda>p.
          Option.bind (free_loop (fst p) (forward l)) (\<lambda>q. Some (fst q, snd p # snd q)))))"

definition skipListFree :: "'s sl_heap \<Rightarrow> 's skiplist \<Rightarrow> ('s sl_heap \<times> 's option list) option" where
  "skipListFree h sl =
     do { l \<leftarrow> read_level h (header sl) 0; free_loop (h(header sl := None)) (forward l) }"

definition zslFreeNode :: "'s sl_heap \<Rightarrow> addr \<Rightarrow> 's sl_heap option" where
  "zslFreeNode h a = do { n \<leftarrow> h a; Some (h(a := None)) }"

section \<open>A comparator\<close>

text \<open>The comparator of the test program: by score, then by element, where NULL is smaller than a string. A score
  stands for a \<open>double\<close> other than NaN.\<close>

definition doubleComparator :: "('s :: linorder) sl_comparator" where
  "doubleComparator a_ele a b_ele b =
     (if a < b then - 1
      else if a > b then 1
      else
        case (a_ele, b_ele) of
          (None, None) \<Rightarrow> 0
        | (None, Some _) \<Rightarrow> - 1
        | (Some _, None) \<Rightarrow> 1
        | (Some x, Some y) \<Rightarrow> strcmp x y)"


section \<open>What a list represents\<close>

text \<open>Positions: the header is at position 0, the nodes at 1 to \<open>n\<close>; \<open>hs\<close> lists the heights of their towers. At level
  \<open>i\<close> a node points to the next tower that is high enough, and its span is the distance to it, or to the end.\<close>

definition nxt :: "nat list \<Rightarrow> nat \<Rightarrow> nat \<Rightarrow> nat option" where
  "nxt hs i p = List.find (\<lambda>q. i < hs ! q) [Suc p..<length hs]"

definition dist :: "nat list \<Rightarrow> nat \<Rightarrow> nat \<Rightarrow> nat" where
  "dist hs i p = (case nxt hs i p of Some q \<Rightarrow> q - p | None \<Rightarrow> length hs - 1 - p)"

fun prv :: "nat list \<Rightarrow> nat \<Rightarrow> nat \<Rightarrow> nat" where
  "prv hs i 0 = 0"
| "prv hs i (Suc r) = (if i < hs ! Suc r then Suc r else prv hs i r)"

lemma nxt_eq_Some:
  "nxt hs i p = Some q \<longleftrightarrow> p < q \<and> q < length hs \<and> i < hs ! q \<and> (\<forall>k. p < k \<and> k < q \<longrightarrow> \<not> i < hs ! k)"
proof
  assume "nxt hs i p = Some q"
  then obtain j where j: "j < length [Suc p..<length hs]" "i < hs ! q" "q = [Suc p..<length hs] ! j"
    "\<forall>k<j. \<not> i < hs ! ([Suc p..<length hs] ! k)"
    unfolding nxt_def find_Some_iff by auto
  have "\<not> i < hs ! k" if "p < k" "k < q" for k
    using j that by (auto dest: spec [of _ "k - Suc p"])
  with j show "p < q \<and> q < length hs \<and> i < hs ! q \<and> (\<forall>k. p < k \<and> k < q \<longrightarrow> \<not> i < hs ! k)" by auto
next
  assume *: "p < q \<and> q < length hs \<and> i < hs ! q \<and> (\<forall>k. p < k \<and> k < q \<longrightarrow> \<not> i < hs ! k)"
  then show "nxt hs i p = Some q" unfolding nxt_def find_Some_iff
    by (intro exI [of _ "q - Suc p"]) auto
qed

lemma nxt_eq_None: "nxt hs i p = None \<longleftrightarrow> (\<forall>q. p < q \<and> q < length hs \<longrightarrow> \<not> i < hs ! q)"
  unfolding nxt_def find_None_iff by (auto simp: Suc_le_eq)

lemma prv_le: "prv hs i r \<le> r"
  by (induction r) auto

lemma prv_high: "i < hs ! 0 \<Longrightarrow> i < hs ! prv hs i r"
  by (induction r) auto

lemma prv_gap: "prv hs i r < k \<Longrightarrow> k \<le> r \<Longrightarrow> \<not> i < hs ! k"
proof (induction r)
  case (Suc r)
  then show ?case by (cases "k = Suc r") (auto split: if_splits)
qed simp

lemma prv_unique: "u \<le> r \<Longrightarrow> i < hs ! u \<Longrightarrow> (\<And>k. u < k \<Longrightarrow> k \<le> r \<Longrightarrow> \<not> i < hs ! k) \<Longrightarrow> prv hs i r = u"
  using prv_gap [of hs i r u] prv_le [of hs i r] prv_high [of i hs r]
proof (induction r)
  case (Suc r)
  then show ?case
  proof (cases "i < hs ! Suc r")
    case True
    then have "u = Suc r" using Suc.prems(1,3) by (metis le_neq_implies_less order_refl)
    with True show ?thesis by simp
  next
    case False
    then have "u \<le> r" using Suc.prems(1,2) by (metis le_SucE)
    then have "prv hs i r = u"
      using Suc.prems prv_gap prv_le prv_high by (intro Suc.IH) (auto intro: le_SucI)
    with False show ?thesis by simp
  qed
qed simp

text \<open>The next tower behind the search position, and the towers before it.\<close>

lemma nxt_prv: "nxt hs i (prv hs i r) = Some q \<Longrightarrow> r < q"
  using prv_gap [of hs i r q] by (force simp: nxt_eq_Some not_le [symmetric])

lemma nxt_before_prv:
  assumes "p \<le> r" "p \<noteq> prv hs i r" "i < hs ! p" "i < hs ! 0" "r < length hs"
  obtains q where "nxt hs i p = Some q" "q \<le> r"
proof -
  have lt: "p < prv hs i r" using prv_gap [of hs i r p] assms by (metis linorder_neqE_nat)
  then obtain q where "nxt hs i p = Some q"
    using prv_high [of i hs r] prv_le [of hs i r] assms by (metis nxt_eq_None not_Some_eq le_less_trans)
  moreover from this have "q \<le> prv hs i r"
    using lt prv_high [of i hs r] assms by (metis nxt_eq_Some not_le)
  ultimately show ?thesis using that prv_le [of hs i r] by (meson le_trans)
qed

text \<open>A node without its towers, and the towers, as the heap shows them.\<close>

definition core_at :: "'s sl_heap \<Rightarrow> addr \<Rightarrow> (byte list option \<times> 's option \<times> addr option \<times> nat) option" where
  "core_at h a = map_option (\<lambda>n. (ele n, score n, backward n, length (levels n))) (h a)"

lemma read_level_Some:
  "core_at h a = Some (e, s, b, k) \<Longrightarrow> i < k \<Longrightarrow> \<exists>l. read_level h a i = Some l"
  by (auto simp: core_at_def read_level_def get_at_def)

lemma write_level_ok:
  assumes "read_level h a i = Some l"
  obtains h' where "write_level h a i l' = Some h'" "\<And>b. core_at h' b = core_at h b"
    "\<And>b j. read_level h' b j = (if b = a \<and> j = i then Some l' else read_level h b j)"
proof -
  obtain n where n: "h a = Some n" "i < length (levels n)"
    using assms by (auto simp: read_level_def get_at_def bind_eq_Some_conv split: if_splits)
  then have "write_level h a i l' = Some (h(a \<mapsto> n\<lparr>levels := (levels n)[i := l']\<rparr>))"
    by (simp add: write_level_def put_at_def)
  then show ?thesis
  proof (rule that)
    show "core_at (h(a \<mapsto> n\<lparr>levels := (levels n)[i := l']\<rparr>)) b = core_at h b" for b
      using n by (simp add: core_at_def)
    show "read_level (h(a \<mapsto> n\<lparr>levels := (levels n)[i := l']\<rparr>)) b j = (if b = a \<and> j = i then Some l' else read_level h b j)" for b j
      using n by (simp add: read_level_def get_at_def)
  qed
qed

definition sl_repr :: "'s sl_heap \<Rightarrow> 's skiplist \<Rightarrow> addr list \<Rightarrow> nat list \<Rightarrow> (byte list \<times> 's) list \<Rightarrow> bool" where
  "sl_repr h sl ns hs xs \<longleftrightarrow>
     length hs = Suc (length ns) \<and> length xs = length ns \<and> distinct (header sl # ns)
     \<and> hs ! 0 = 32 \<and> (\<forall>p. 1 \<le> p \<and> p \<le> length ns \<longrightarrow> 1 \<le> hs ! p \<and> hs ! p \<le> level sl) \<and> 1 \<le> level sl \<and> level sl \<le> 32
     \<and> (\<forall>p \<le> length ns. core_at h ((header sl # ns) ! p) =
           Some (if p = 0 then (None, None, None, 32)
                 else (Some (fst (xs ! (p - 1))), Some (snd (xs ! (p - 1))),
                   (if p = 1 then None else Some ((header sl # ns) ! (p - 1))), hs ! p)))
     \<and> (\<forall>p \<le> length ns. \<forall>i < hs ! p. \<exists>l. read_level h ((header sl # ns) ! p) i = Some l
           \<and> forward l = map_option (nth (header sl # ns)) (nxt hs i p)
           \<and> (i < level sl \<longrightarrow> span l = of_nat (dist hs i p)))
     \<and> tail sl = (if ns = [] then None else Some (last ns)) \<and> sl_length sl = of_nat (length ns)"

lemma sl_reprD:
  assumes "sl_repr h sl ns hs xs"
  shows "length hs = Suc (length ns)" "length xs = length ns" "distinct (header sl # ns)" "hs ! 0 = 32"
    "1 \<le> level sl" "level sl \<le> 32"
    "tail sl = (if ns = [] then None else Some (last ns))" "sl_length sl = of_nat (length ns)"
  using assms unfolding sl_repr_def by blast+

lemma sl_repr_core:
  assumes "sl_repr h sl ns hs xs" "p \<le> length ns"
  shows "core_at h ((header sl # ns) ! p) =
           Some (if p = 0 then (None, None, None, 32)
                 else (Some (fst (xs ! (p - 1))), Some (snd (xs ! (p - 1))),
                   (if p = 1 then None else Some ((header sl # ns) ! (p - 1))), hs ! p))"
  using assms unfolding sl_repr_def by blast

lemma sl_repr_level:
  assumes "sl_repr h sl ns hs xs" "p \<le> length ns" "i < hs ! p"
  shows "\<exists>l. read_level h ((header sl # ns) ! p) i = Some l \<and> forward l = map_option (nth (header sl # ns)) (nxt hs i p)
    \<and> (i < level sl \<longrightarrow> span l = of_nat (dist hs i p))"
  using assms unfolding sl_repr_def by blast

lemma sl_repr_height:
  assumes "sl_repr h sl ns hs xs" "1 \<le> p" "p \<le> length ns"
  shows "1 \<le> hs ! p" "hs ! p \<le> level sl"
  using assms unfolding sl_repr_def by blast+

lemma sl_repr_node:
  assumes "sl_repr h sl ns hs xs" "1 \<le> p" "p \<le> length ns"
  obtains n where "h ((header sl # ns) ! p) = Some n" "ele n = Some (fst (xs ! (p - 1)))" "score n = Some (snd (xs ! (p - 1)))"
    "backward n = (if p = 1 then None else Some ((header sl # ns) ! (p - 1)))" "length (levels n) = hs ! p"
  using sl_repr_core [OF assms(1,3)] assms(2) unfolding core_at_def by auto

lemma skipListNew_repr:
  "skipListNew h new c = (h', sl) \<Longrightarrow> sl_repr h' sl [] [32] []"
  by (auto simp: skipListNew_def sl_repr_def core_at_def skipListCreateNode_def read_level_def get_at_def nxt_def dist_def)

section \<open>Searching\<close>

lemma ucast_of_nat_32: "ucast (of_nat k :: u64) = (of_nat k :: u32)"
  by (rule bit_word_eqI) (simp add: bit_simps)

text \<open>The loops stop behind the last position up to which the predicate holds.\<close>

definition holds_upto :: "'s sl_heap \<Rightarrow> ('s skiplist_node \<Rightarrow> bool option) \<Rightarrow> addr list \<Rightarrow> nat \<Rightarrow> bool" where
  "holds_upto h P ns r \<longleftrightarrow> r \<le> length ns \<and> (\<forall>p < length ns. \<exists>n. h (ns ! p) = Some n \<and> P n = Some (p < r))"

lemma skip_forward_ok:
  assumes "sl_repr h sl ns hs xs" "holds_upto h P ns r" "p \<le> r" "i < hs ! p" "i < level sl"
  shows "skip_forward h P i ((header sl # ns) ! p) (of_nat p) = Some ((header sl # ns) ! prv hs i r, of_nat (prv hs i r))"
  using assms(3,4)
proof (induction "r - p" arbitrary: p rule: less_induct)
  case less
  let ?A = "header sl # ns"
  have r: "r \<le> length ns" using assms(2) by (simp add: holds_upto_def)
  then obtain l where l: "read_level h (?A ! p) i = Some l" "forward l = map_option (nth ?A) (nxt hs i p)" "span l = of_nat (dist hs i p)"
    using sl_repr_level [OF assms(1) _ less.prems(2)] less.prems(1) assms(5) by auto
  note len = sl_reprD(1) [OF assms(1)]
  show ?case
  proof (cases "nxt hs i p")
    case None
    then have "prv hs i r = p" using less.prems r len by (intro prv_unique) (auto simp: nxt_eq_None)
    with l None show ?thesis by (subst skip_forward.simps) simp
  next
    case (Some q)
    then have q: "p < q" "q \<le> length ns" "i < hs ! q" "\<And>k. p < k \<Longrightarrow> k < q \<Longrightarrow> \<not> i < hs ! k" using len by (auto simp: nxt_eq_Some)
    obtain n where n: "h (?A ! q) = Some n" "P n = Some (q \<le> r)"
      using assms(2) q unfolding holds_upto_def by (cases q) (auto simp: Suc_le_eq)
    show ?thesis
    proof (cases "q \<le> r")
      case True
      have "r - q < r - p" using q(1) True by simp
      from less.hyps [OF this True q(3)]
      have "skip_forward h P i (?A ! q) (of_nat q) = Some (?A ! prv hs i r, of_nat (prv hs i r))" .
      moreover have "of_nat p + ucast (of_nat (dist hs i p) :: u64) = (of_nat q :: u32)"
        unfolding ucast_of_nat_32 using q(1) Some by (simp add: dist_def of_nat_diff)
      ultimately show ?thesis using l n Some True by (subst skip_forward.simps) simp
    next
      case False
      then have "prv hs i r = p" using less.prems q by (intro prv_unique) auto
      with l n Some False show ?thesis by (subst skip_forward.simps) simp
    qed
  qed
qed

lemma descend_ok:
  assumes "sl_repr h sl ns hs xs" "holds_upto h P ns r" "p \<le> r" "\<forall>j < i. j < hs ! p" "i \<le> level sl"
  shows "descend h P i ((header sl # ns) ! p) (of_nat p) =
    Some (map (\<lambda>j. ((header sl # ns) ! prv hs j r, of_nat (prv hs j r))) [0..<i])"
  using assms(3-5)
proof (induction i arbitrary: p)
  case (Suc i)
  have z: "i < hs ! 0" using Suc.prems(3) sl_reprD(4,6) [OF assms(1)] by simp
  have "skip_forward h P i ((header sl # ns) ! p) (of_nat p) = Some ((header sl # ns) ! prv hs i r, of_nat (prv hs i r))"
    using Suc.prems by (intro skip_forward_ok [OF assms(1,2)]) auto
  moreover have "descend h P i ((header sl # ns) ! prv hs i r) (of_nat (prv hs i r)) =
      Some (map (\<lambda>j. ((header sl # ns) ! prv hs j r, of_nat (prv hs j r))) [0..<i])"
    using Suc.prems prv_le [of hs i r] prv_high [OF z, of r] by (intro Suc.IH) auto
  ultimately show ?case by simp
qed simp

abbreviation path :: "addr list \<Rightarrow> nat list \<Rightarrow> nat \<Rightarrow> nat \<Rightarrow> (addr \<times> u32) list" where
  "path A hs r k \<equiv> map (\<lambda>j. (A ! prv hs j r, of_nat (prv hs j r))) [0..<k]"

lemma descend_header:
  assumes "sl_repr h sl ns hs xs" "holds_upto h P ns r"
  shows "descend h P (level sl) (header sl) 0 = Some (path (header sl # ns) hs r (level sl))"
  using descend_ok [OF assms, of 0 "level sl"] sl_reprD(4,6) [OF assms(1)] by simp

lemma last_x_path:
  assumes "sl_repr h sl ns hs xs" "r \<le> length ns"
  shows "last_x (header sl) (path (header sl # ns) hs r (level sl)) = (header sl # ns) ! r"
proof -
  have "prv hs 0 r = r" using sl_repr_height(1) [OF assms(1), of r] assms(2) sl_reprD(4) [OF assms(1)]
    by (cases r) auto
  then show ?thesis using sl_reprD(5) [OF assms(1)] by (cases "level sl") (simp_all add: last_x_def upt_rec)
qed


section \<open>The loops of insertion\<close>

lemma new_levels_view:
  assumes "\<forall>j. i \<le> j \<and> j < i + k \<longrightarrow> (\<exists>l. read_level h hdr j = Some l)"
  shows "\<exists>h'. new_levels h hdr i k len = Some h' \<and> (\<forall>a. core_at h' a = core_at h a)
    \<and> (\<forall>a j. read_level h' a j = (if a = hdr \<and> i \<le> j \<and> j < i + k
         then map_option (\<lambda>l. l\<lparr>span := len\<rparr>) (read_level h a j) else read_level h a j))"
  using assms
proof (induction k arbitrary: i h)
  case (Suc k)
  then obtain l where l: "read_level h hdr i = Some l" by auto
  obtain h1 where h1: "write_level h hdr i (l\<lparr>span := len\<rparr>) = Some h1" "\<And>b. core_at h1 b = core_at h b"
    "\<And>b j. read_level h1 b j = (if b = hdr \<and> j = i then Some (l\<lparr>span := len\<rparr>) else read_level h b j)"
    using write_level_ok [OF l] by blast
  have "\<forall>j. Suc i \<le> j \<and> j < Suc i + k \<longrightarrow> (\<exists>l. read_level h1 hdr j = Some l)" using Suc.prems h1(3) by simp
  then obtain h2 where h2: "new_levels h1 hdr (Suc i) k len = Some h2" "\<And>a. core_at h2 a = core_at h1 a"
    "\<And>a j. read_level h2 a j = (if a = hdr \<and> Suc i \<le> j \<and> j < Suc i + k
         then map_option (\<lambda>l. l\<lparr>span := len\<rparr>) (read_level h1 a j) else read_level h1 a j)"
    using Suc.IH [of "Suc i" h1] by blast
  have "read_level h2 a j = (if a = hdr \<and> i \<le> j \<and> j < i + Suc k
      then map_option (\<lambda>l. l\<lparr>span := len\<rparr>) (read_level h a j) else read_level h a j)" for a j
    using l by (cases "j = i") (auto simp: h2(3) h1(3))
  with l h1(1,2) h2(1,2) show ?case by (intro exI [of _ h2]) simp
qed auto

lemma span_loop_view:
  assumes "\<forall>j. i \<le> j \<and> j < i + k \<longrightarrow> j < length us \<and> (\<exists>l. read_level h (fst (us ! j)) j = Some l)"
  shows "\<exists>h'. span_loop h us i k = Some h' \<and> (\<forall>a. core_at h' a = core_at h a)
    \<and> (\<forall>a j. read_level h' a j = (if i \<le> j \<and> j < i + k \<and> a = fst (us ! j)
         then map_option (\<lambda>l. l\<lparr>span := span l + 1\<rparr>) (read_level h a j) else read_level h a j))"
  using assms
proof (induction k arbitrary: i h)
  case (Suc k)
  then obtain l where i: "i < length us" and l: "read_level h (fst (us ! i)) i = Some l" by auto
  obtain h1 where h1: "write_level h (fst (us ! i)) i (l\<lparr>span := span l + 1\<rparr>) = Some h1" "\<And>b. core_at h1 b = core_at h b"
    "\<And>b j. read_level h1 b j = (if b = fst (us ! i) \<and> j = i then Some (l\<lparr>span := span l + 1\<rparr>) else read_level h b j)"
    using write_level_ok [OF l] by blast
  have "\<forall>j. Suc i \<le> j \<and> j < Suc i + k \<longrightarrow> j < length us \<and> (\<exists>l. read_level h1 (fst (us ! j)) j = Some l)"
    using Suc.prems h1(3) by simp
  then obtain h2 where h2: "span_loop h1 us (Suc i) k = Some h2" "\<And>a. core_at h2 a = core_at h1 a"
    "\<And>a j. read_level h2 a j = (if Suc i \<le> j \<and> j < Suc i + k \<and> a = fst (us ! j)
         then map_option (\<lambda>l. l\<lparr>span := span l + 1\<rparr>) (read_level h1 a j) else read_level h1 a j)"
    using Suc.IH [of "Suc i" h1] by blast
  have "span_loop h us i (Suc k) = Some h2" using i l h1(1) h2(1) by (simp add: get_at_def case_prod_beta)
  moreover have "read_level h2 a j = (if i \<le> j \<and> j < i + Suc k \<and> a = fst (us ! j)
      then map_option (\<lambda>l. l\<lparr>span := span l + 1\<rparr>) (read_level h a j) else read_level h a j)" for a j
    using l by (cases "j = i") (auto simp: h2(3) h1(3))
  ultimately show ?case using h1(2) h2(2) by (intro exI [of _ h2]) simp
qed auto

definition linked :: "'s sl_heap \<Rightarrow> addr \<Rightarrow> (addr \<times> u32) list \<Rightarrow> nat \<Rightarrow> addr \<Rightarrow> skiplistLevel option" where
  "linked h x us j a =
     (let ul = the (read_level h (fst (us ! j)) j); d = rank_diff (snd (us ! 0)) (snd (us ! j)) in
      if a = x then Some \<lparr>forward = forward ul, span = span ul - d\<rparr>
      else if a = fst (us ! j) then Some \<lparr>forward = Some x, span = d + 1\<rparr> else read_level h a j)"

lemma link_level_view:
  assumes "i < length us" "fst (us ! i) \<noteq> x" "read_level h (fst (us ! i)) i = Some ul" "read_level h x i = Some xl"
  shows "\<exists>h'. link_level h x us i = Some h' \<and> (\<forall>a. core_at h' a = core_at h a)
    \<and> (\<forall>a j. read_level h' a j = (if j = i then linked h x us j a else read_level h a j))"
proof -
  let ?u = "fst (us ! i)" and ?d = "rank_diff (snd (us ! 0)) (snd (us ! i))"
  obtain h1 where h1: "write_level h x i (xl\<lparr>forward := forward ul, span := span ul - ?d\<rparr>) = Some h1" "\<And>b. core_at h1 b = core_at h b"
    "\<And>b j. read_level h1 b j = (if b = x \<and> j = i then Some (xl\<lparr>forward := forward ul, span := span ul - ?d\<rparr>) else read_level h b j)"
    using write_level_ok [OF assms(4)] by blast
  have "read_level h1 ?u i = Some ul" using h1(3) assms(2,3) by simp
  then obtain h2 where h2: "write_level h1 ?u i (ul\<lparr>forward := Some x, span := ?d + 1\<rparr>) = Some h2" "\<And>b. core_at h2 b = core_at h1 b"
    "\<And>b j. read_level h2 b j = (if b = ?u \<and> j = i then Some (ul\<lparr>forward := Some x, span := ?d + 1\<rparr>) else read_level h1 b j)"
    using write_level_ok by blast
  have "us \<noteq> []" using assms(1) by auto
  then have "link_level h x us i = Some h2" using assms h1(1) h2(1) by (simp add: link_level_def get_at_def case_prod_beta)
  moreover have "l\<lparr>forward := f, span := n\<rparr> = \<lparr>forward = f, span = n\<rparr>" for l :: skiplistLevel and f n by (cases l) simp
  ultimately show ?thesis using assms h1 h2 by (intro exI [of _ h2]) (auto simp: linked_def Let_def)
qed

lemma link_loop_view:
  assumes "\<forall>j. i \<le> j \<and> j < i + k \<longrightarrow> j < length us \<and> fst (us ! j) \<noteq> x
      \<and> (\<exists>l. read_level h (fst (us ! j)) j = Some l) \<and> (\<exists>l. read_level h x j = Some l)"
  shows "\<exists>h'. link_loop h x us i k = Some h' \<and> (\<forall>a. core_at h' a = core_at h a)
    \<and> (\<forall>a j. read_level h' a j = (if i \<le> j \<and> j < i + k then linked h x us j a else read_level h a j))"
  using assms
proof (induction k arbitrary: i h)
  case (Suc k)
  then obtain ul xl where "i < length us" "fst (us ! i) \<noteq> x" "read_level h (fst (us ! i)) i = Some ul" "read_level h x i = Some xl"
    by auto
  then obtain h1 where h1: "link_level h x us i = Some h1" "\<And>a. core_at h1 a = core_at h a"
    "\<And>a j. read_level h1 a j = (if j = i then linked h x us j a else read_level h a j)"
    using link_level_view by blast
  have "\<forall>j. Suc i \<le> j \<and> j < Suc i + k \<longrightarrow> j < length us \<and> fst (us ! j) \<noteq> x
      \<and> (\<exists>l. read_level h1 (fst (us ! j)) j = Some l) \<and> (\<exists>l. read_level h1 x j = Some l)"
    using Suc.prems h1(3) by simp
  then obtain h2 where h2: "link_loop h1 x us (Suc i) k = Some h2" "\<And>a. core_at h2 a = core_at h1 a"
    "\<And>a j. read_level h2 a j = (if Suc i \<le> j \<and> j < Suc i + k then linked h1 x us j a else read_level h1 a j)"
    using Suc.IH [of "Suc i" h1] by blast
  moreover have "linked h1 x us j a = linked h x us j a" if "j \<noteq> i" for j a
    using that h1(3) by (simp add: linked_def Let_def)
  then have "read_level h2 a j = (if i \<le> j \<and> j < i + Suc k then linked h x us j a else read_level h a j)" for a j
    by (cases "j = i") (auto simp: h2(3) h1(3))
  ultimately show ?case using h1(1,2) by (intro exI [of _ h2]) simp
qed auto

lemma set_backward_ok:
  assumes "core_at h a = Some (e, s, b, k)"
  obtains h' where "set_backward h a p = Some h'" "\<And>c. core_at h' c = (if c = a then Some (e, s, p, k) else core_at h c)"
    "\<And>c j. read_level h' c j = read_level h c j"
proof -
  obtain n where n: "h a = Some n" "ele n = e" "score n = s" "length (levels n) = k" using assms by (auto simp: core_at_def)
  then have "set_backward h a p = Some (h(a \<mapsto> n\<lparr>backward := p\<rparr>))" by (simp add: set_backward_def)
  then show ?thesis
  proof (rule that)
    show "core_at (h(a \<mapsto> n\<lparr>backward := p\<rparr>)) c = (if c = a then Some (e, s, p, k) else core_at h c)" for c
      using n by (simp add: core_at_def)
    show "read_level (h(a \<mapsto> n\<lparr>backward := p\<rparr>)) c j = read_level h c j" for c j
      using n by (simp add: read_level_def)
  qed
qed

lemma core_at_None: "core_at h a = None \<longleftrightarrow> h a = None"
  by (simp add: core_at_def)

section \<open>Positions after an insertion\<close>

definition ins_at :: "nat \<Rightarrow> 'a \<Rightarrow> 'a list \<Rightarrow> 'a list" where
  "ins_at k y zs = take k zs @ y # drop k zs"

lemma length_ins_at [simp]: "length (ins_at k y zs) = Suc (length zs)"
  by (simp add: ins_at_def)

lemma ins_at_Cons: "ins_at (Suc k) y (z # zs) = z # ins_at k y zs"
  by (simp add: ins_at_def)

lemma nth_ins_at:
  "k \<le> length zs \<Longrightarrow> p \<le> length zs \<Longrightarrow> ins_at k y zs ! p = (if p < k then zs ! p else if p = k then y else zs ! (p - 1))"
  by (cases "p < k"; cases "p = k") (auto simp: ins_at_def nth_append min_def nth_Cons')

lemma nxt_ins_after:
  assumes "r < p" "p < length hs"
  shows "nxt (ins_at (Suc r) lv hs) i (Suc p) = map_option Suc (nxt hs i p)"
proof (cases "nxt hs i p")
  case None
  have "\<not> i < ins_at (Suc r) lv hs ! q" if "Suc p < q" "q < Suc (length hs)" for q
    using that assms None by (cases q) (auto simp: nxt_eq_None nth_ins_at)
  then have "nxt (ins_at (Suc r) lv hs) i (Suc p) = None" by (simp add: nxt_eq_None)
  with None show ?thesis by simp
next
  case (Some q)
  have "\<not> i < ins_at (Suc r) lv hs ! k" if "Suc p < k" "k < Suc q" for k
    using that assms Some by (cases k) (auto simp: nxt_eq_Some nth_ins_at)
  then have "nxt (ins_at (Suc r) lv hs) i (Suc p) = Some (Suc q)"
    using Some assms by (auto simp: nxt_eq_Some nth_ins_at)
  with Some show ?thesis by simp
qed

lemma nxt_ins_before:
  assumes "nxt hs i p = Some q" "q \<le> r" "r < length hs"
  shows "nxt (ins_at (Suc r) lv hs) i p = Some q"
  using assms by (auto simp: nxt_eq_Some nth_ins_at)

lemma nxt_None_pred: "nxt hs i u = None \<Longrightarrow> u \<le> r \<Longrightarrow> Suc r < k \<Longrightarrow> k \<le> length hs \<Longrightarrow> \<not> i < hs ! (k - Suc 0)"
  unfolding nxt_eq_None by (drule spec [of _ "k - Suc 0"]) auto

lemma nxt_Some_pred: "nxt hs i u = Some q \<Longrightarrow> u \<le> r \<Longrightarrow> Suc r < k \<Longrightarrow> k < Suc q \<Longrightarrow> \<not> i < hs ! (k - Suc 0)"
  unfolding nxt_eq_Some by (elim conjE, drule spec [of _ "k - Suc 0"]) auto

lemma nxt_ins_prv:
  assumes "r < length hs" "i < hs ! 0"
  shows "nxt (ins_at (Suc r) lv hs) i (prv hs i r) =
    (if i < lv then Some (Suc r) else map_option Suc (nxt hs i (prv hs i r)))"
proof -
  let ?u = "prv hs i r"
  have gap: "\<not> i < ins_at (Suc r) lv hs ! k" if "?u < k" "k < Suc r" for k
    using that prv_gap [of hs i r k] assms by (simp add: nth_ins_at)
  show ?thesis
  proof (cases "i < lv")
    case True
    with gap assms prv_le [of hs i r] show ?thesis by (auto simp: nxt_eq_Some nth_ins_at)
  next
    case False
    have old: "i < ins_at (Suc r) lv hs ! k \<longleftrightarrow> r + 2 \<le> k \<and> i < hs ! (k - 1)" if "?u < k" "k \<le> length hs" for k
      using that False gap [of k] assms(1) by (auto simp: nth_ins_at not_less_eq)
    show ?thesis
    proof (cases "nxt hs i ?u")
      case None
      then have "nxt (ins_at (Suc r) lv hs) i ?u = None"
        using old prv_le [of hs i r] nxt_None_pred [OF None prv_le]
        by (subst nxt_eq_None) (auto simp: less_Suc_eq_le Suc_le_eq)
      with None False show ?thesis by simp
    next
      case (Some q)
      have q: "r < q" using nxt_prv [OF Some] .
      have "\<not> i < ins_at (Suc r) lv hs ! k" if "?u < k" "k < Suc q" for k
        using old [of k] that q Some nxt_Some_pred [OF Some prv_le, of k] by (auto simp: nxt_eq_Some)
      then have "nxt (ins_at (Suc r) lv hs) i ?u = Some (Suc q)"
        using Some q assms(1) by (subst nxt_eq_Some) (auto simp: nxt_eq_Some nth_ins_at)
      with Some False show ?thesis by simp
    qed
  qed
qed

lemma nxt_ins_new:
  assumes "r < length hs" "i < hs ! 0"
  shows "nxt (ins_at (Suc r) lv hs) i (Suc r) = map_option Suc (nxt hs i (prv hs i r))"
proof (cases "nxt hs i (prv hs i r)")
  case None
  then have "nxt (ins_at (Suc r) lv hs) i (Suc r) = None"
    using assms nxt_None_pred [OF None prv_le] by (subst nxt_eq_None) (auto simp: nth_ins_at)
  with None show ?thesis by simp
next
  case (Some q)
  then have "nxt (ins_at (Suc r) lv hs) i (Suc r) = Some (Suc q)"
    using assms nxt_prv [OF Some] Some nxt_Some_pred [OF Some prv_le]
    by (subst nxt_eq_Some) (auto simp: nxt_eq_Some nth_ins_at)
  with Some show ?thesis by simp
qed


lemma dist_cases:
  "nxt hs i p = Some q \<Longrightarrow> dist hs i p = q - p"
  "nxt hs i p = None \<Longrightarrow> dist hs i p = length hs - 1 - p"
  by (simp_all add: dist_def)

lemma dist_ins_after: "r < p \<Longrightarrow> p < length hs \<Longrightarrow> dist (ins_at (Suc r) lv hs) i (Suc p) = dist hs i p"
  by (cases "nxt hs i p") (auto simp: dist_def nxt_ins_after)

lemma dist_ins_prv:
  assumes "r < length hs" "i < hs ! 0"
  shows "dist (ins_at (Suc r) lv hs) i (prv hs i r) = (if i < lv then r - prv hs i r + 1 else dist hs i (prv hs i r) + 1)"
proof (cases "nxt hs i (prv hs i r)")
  case None
  then show ?thesis using assms prv_le [of hs i r] by (auto simp: dist_def nxt_ins_prv)
next
  case (Some q)
  then show ?thesis using assms prv_le [of hs i r] nxt_prv [OF Some] by (auto simp: dist_def nxt_ins_prv)
qed

lemma dist_ins_new:
  assumes "r < length hs" "i < hs ! 0"
  shows "dist (ins_at (Suc r) lv hs) i (Suc r) = dist hs i (prv hs i r) - (r - prv hs i r)"
    "r - prv hs i r \<le> dist hs i (prv hs i r)"
proof -
  show "dist (ins_at (Suc r) lv hs) i (Suc r) = dist hs i (prv hs i r) - (r - prv hs i r)"
    using assms prv_le [of hs i r] nxt_prv [of hs i r]
    by (cases "nxt hs i (prv hs i r)") (auto simp: dist_def nxt_ins_new)
  show "r - prv hs i r \<le> dist hs i (prv hs i r)"
    using assms prv_le [of hs i r] nxt_prv [of hs i r]
    by (cases "nxt hs i (prv hs i r)") (auto simp: dist_def)
qed

lemma nth_shift:
  assumes "\<And>q. X = Some q \<Longrightarrow> r < q \<and> q < length A" "r < length A"
  shows "map_option (nth (ins_at (Suc r) x A)) (map_option Suc X) = map_option (nth A) X"
  using assms by (cases X) (auto simp: nth_ins_at)

lemma rank_diff_of_nat:
  assumes "u \<le> r" "r < 2 ^ 31"
  shows "rank_diff (of_nat r) (of_nat u) = of_nat (r - u)"
proof -
  have "of_nat r - of_nat u = (of_nat (r - u) :: u32)" using assms(1) by (simp add: of_nat_diff)
  moreover have "signed_take_bit 31 (int (r - u)) = int (r - u)"
    using assms by (intro signed_take_bit_int_eq_self) auto
  then have "scast (of_nat (r - u) :: u32) = (of_nat (r - u) :: u64)" by (simp only: signed_of_nat) simp
  ultimately show ?thesis by (simp only: rank_diff_def)
qed


section \<open>Insertion keeps the representation\<close>

lemma nth_A_eq: "sl_repr h sl ns hs xs \<Longrightarrow> p \<le> length ns \<Longrightarrow> q \<le> length ns \<Longrightarrow> (header sl # ns) ! p = (header sl # ns) ! q \<longleftrightarrow> p = q"
  using sl_reprD(3) [of h sl ns hs xs] by (subst nth_eq_iff_index_eq) auto

lemma nxt_above_level:
  assumes "sl_repr h sl ns hs xs" "level sl \<le> i"
  shows "nxt hs i p = None"
proof -
  have "\<not> i < hs ! q" if "p < q" "q < length hs" for q
    using sl_repr_height(2) [OF assms(1), of q] that assms(2) sl_reprD(1) [OF assms(1)] by auto
  then show ?thesis unfolding nxt_eq_None by blast
qed

lemma new_levels_repr:
  assumes "sl_repr h sl ns hs xs" "level sl \<le> lv" "lv \<le> 32"
  shows "\<exists>h'. new_levels h (header sl) (level sl) (lv - level sl) (sl_length sl) = Some h'
    \<and> sl_repr h' (sl\<lparr>level := lv\<rparr>) ns hs xs \<and> (\<forall>a. core_at h' a = core_at h a)"
proof -
  let ?A = "header sl # ns"
  have "\<exists>l. read_level h (header sl) j = Some l" if "j < 32" for j
    using sl_repr_level [OF assms(1), of 0 j] sl_reprD(4) [OF assms(1)] that by auto
  then obtain h' where h': "new_levels h (header sl) (level sl) (lv - level sl) (sl_length sl) = Some h'"
    "\<And>a. core_at h' a = core_at h a"
    "\<And>a j. read_level h' a j = (if a = header sl \<and> level sl \<le> j \<and> j < lv
         then map_option (\<lambda>l. l\<lparr>span := sl_length sl\<rparr>) (read_level h a j) else read_level h a j)"
    using new_levels_view [of "level sl" "lv - level sl" h "header sl" "sl_length sl"] assms(2,3) by auto
  have "\<exists>l. read_level h' (?A ! p) i = Some l \<and> forward l = map_option (nth ?A) (nxt hs i p)
      \<and> (i < lv \<longrightarrow> span l = of_nat (dist hs i p))" if p: "p \<le> length ns" and i: "i < hs ! p" for p i
  proof -
    obtain l where l: "read_level h (?A ! p) i = Some l" "forward l = map_option (nth ?A) (nxt hs i p)"
      "i < level sl \<longrightarrow> span l = of_nat (dist hs i p)" using sl_repr_level [OF assms(1) p i] by blast
    show ?thesis
    proof (cases "level sl \<le> i")
      case True
      then have "p = 0" using sl_repr_height(2) [OF assms(1) _ p] i by (cases p) auto
      moreover have "dist hs i 0 = length ns" using nxt_above_level [OF assms(1) True] sl_reprD(1) [OF assms(1)] by (simp add: dist_def)
      ultimately show ?thesis using l True by (auto simp: h'(3) sl_reprD(8) [OF assms(1)])
    next
      case False
      with l show ?thesis by (auto simp: h'(3))
    qed
  qed
  moreover have "hs ! p \<le> lv" if "1 \<le> p" "p \<le> length ns" for p
    using sl_repr_height(2) [OF assms(1) that] assms(2) by simp
  ultimately have "sl_repr h' (sl\<lparr>level := lv\<rparr>) ns hs xs"
    using assms unfolding sl_repr_def by (simp add: h'(2))
  with h' show ?thesis by blast
qed

lemma core_at_upd: "core_at (h(x \<mapsto> n)) a = (if a = x then Some (ele n, score n, backward n, length (levels n)) else core_at h a)"
  by (simp add: core_at_def)

lemma read_level_upd: "read_level (h(x \<mapsto> n)) a i = (if a = x then get_at (levels n) i else read_level h a i)"
  by (simp add: read_level_def)

lemma not_in_list: "sl_repr h sl ns hs xs \<Longrightarrow> h x = None \<Longrightarrow> p \<le> length ns \<Longrightarrow> (header sl # ns) ! p \<noteq> x"
  using sl_repr_core [of h sl ns hs xs p] by (auto simp: core_at_def)

text \<open>The towers after the two loops.\<close>

lemma insert_towers:
  fixes s e
  assumes repr: "sl_repr h sl ns hs xs" and "r \<le> length ns" "length ns < 2 ^ 31" "h new = None" "1 \<le> lv" "lv \<le> level sl"
  defines "A \<equiv> header sl # ns"
  defines "us \<equiv> path A hs r (level sl)"
  defines "h1 \<equiv> h(new \<mapsto> skipListCreateNode lv s e)"
  shows "\<exists>h3. do { h \<leftarrow> link_loop h1 new us 0 lv; span_loop h us lv (level sl - lv) } = Some h3
    \<and> (\<forall>a. core_at h3 a = core_at h1 a)
    \<and> (\<forall>p \<le> length ns. \<forall>i < hs ! p. read_level h3 (A ! p) i =
          (if i < level sl \<and> p = prv hs i r
           then (if i < lv then Some \<lparr>forward = Some new, span = of_nat (r - p) + 1\<rparr>
                 else map_option (\<lambda>l. l\<lparr>span := span l + 1\<rparr>) (read_level h (A ! p) i))
           else read_level h (A ! p) i))
    \<and> (\<forall>i < lv. \<exists>l. read_level h3 new i = Some l \<and> forward l = map_option (nth A) (nxt hs i (prv hs i r))
          \<and> span l = of_nat (dist hs i (prv hs i r)) - of_nat (r - prv hs i r))"
proof -
  note D = sl_reprD [OF repr]
  have len: "length us = level sl" by (simp add: us_def)
  have us: "us ! j = (A ! prv hs j r, of_nat (prv hs j r))" if "j < level sl" for j using that by (simp add: us_def)
  have high: "j < hs ! prv hs j r" if "j < level sl" for j using that D(4,6) by (intro prv_high) simp
  have prv: "prv hs j r \<le> length ns" for j using prv_le [of hs j r] assms(2) by simp
  have ne: "A ! p \<noteq> new" if "p \<le> length ns" for p using not_in_list [OF repr assms(4) that] by (simp add: A_def)
  have rd: "read_level h1 (A ! p) i = read_level h (A ! p) i" if "p \<le> length ns" for p i
    using ne [OF that] by (simp add: h1_def read_level_upd)
  have lev: "\<exists>l. read_level h1 (A ! prv hs j r) j = Some l \<and> forward l = map_option (nth A) (nxt hs j (prv hs j r))
      \<and> span l = of_nat (dist hs j (prv hs j r))" if "j < level sl" for j
    using sl_repr_level [OF repr prv high [OF that]] that rd [OF prv] by (auto simp: A_def)
  have x: "\<exists>l. read_level h1 new j = Some l" if "j < lv" for j
    using that by (simp add: h1_def read_level_upd skipListCreateNode_def get_at_def)
  have r0: "prv hs 0 r = r" using sl_repr_height(1) [OF repr, of r] assms(2) D(4) by (cases r) auto
  have rd0: "rank_diff (snd (us ! 0)) (snd (us ! j)) = of_nat (r - prv hs j r)" if "j < level sl" for j
    using rank_diff_of_nat [OF prv_le, of r hs j] assms(2,3) that us [OF that] us [of 0] r0 D(5) by simp
  have "j < length us \<and> fst (us ! j) \<noteq> new \<and> (\<exists>l. read_level h1 (fst (us ! j)) j = Some l) \<and> (\<exists>l. read_level h1 new j = Some l)"
    if "j < lv" for j
  proof -
    have j: "j < level sl" using that assms(6) by simp
    from lev [OF j] x [OF that] ne [OF prv, of j] show ?thesis by (auto simp: us [OF j] len j)
  qed
  then obtain h2 where h2: "link_loop h1 new us 0 lv = Some h2" "\<And>a. core_at h2 a = core_at h1 a"
    "\<And>a j. read_level h2 a j = (if j < lv then linked h1 new us j a else read_level h1 a j)"
    using link_loop_view [of 0 lv us new h1] by auto
  have "j < length us \<and> (\<exists>l. read_level h2 (fst (us ! j)) j = Some l)" if "lv \<le> j" "j < level sl" for j
    using lev [OF that(2)] that(1) by (auto simp: us [OF that(2)] len that(2) h2(3))
  then obtain h3 where h3: "span_loop h2 us lv (level sl - lv) = Some h3" "\<And>a. core_at h3 a = core_at h2 a"
    "\<And>a j. read_level h3 a j = (if lv \<le> j \<and> j < level sl \<and> a = fst (us ! j)
         then map_option (\<lambda>l. l\<lparr>span := span l + 1\<rparr>) (read_level h2 a j) else read_level h2 a j)"
    using span_loop_view [of lv "level sl - lv" us h2] assms(6) by auto
  have "read_level h3 (A ! p) i =
      (if i < level sl \<and> p = prv hs i r
       then (if i < lv then Some \<lparr>forward = Some new, span = of_nat (r - p) + 1\<rparr>
             else map_option (\<lambda>l. l\<lparr>span := span l + 1\<rparr>) (read_level h (A ! p) i))
       else read_level h (A ! p) i)" if p: "p \<le> length ns" and "i < hs ! p" for p i
  proof (cases "i < level sl")
    case True
    have "A ! p = A ! prv hs i r \<longleftrightarrow> p = prv hs i r" using nth_A_eq [OF repr p prv] by (simp add: A_def)
    then show ?thesis using True ne [OF p] rd [OF p] ne [OF prv, of i] rd [OF prv, of i] rd0 [OF True] us [OF True]
      by (auto simp: h3(3) h2(3) linked_def Let_def)
  next
    case False
    then show ?thesis using assms(6) rd [OF p] by (simp add: h3(3) h2(3))
  qed
  moreover have "\<exists>l. read_level h3 new i = Some l \<and> forward l = map_option (nth A) (nxt hs i (prv hs i r))
          \<and> span l = of_nat (dist hs i (prv hs i r)) - of_nat (r - prv hs i r)" if "i < lv" for i
    using lev [of i] that assms(6) rd0 [of i] us [of i] by (auto simp: h3(3) h2(3) linked_def Let_def)
  ultimately show ?thesis using h2(1,2) h3(1,2) by (intro exI [of _ h3]) simp
qed


text \<open>The towers are those of the list with the new node at its position.\<close>

lemma insert_towers_repr:
  fixes new :: addr
  assumes repr: "sl_repr h sl ns hs xs" and r: "r \<le> length ns" and lv: "lv \<le> level sl"
  defines "A \<equiv> header sl # ns"
  defines "A' \<equiv> ins_at (Suc r) new A" and "hs' \<equiv> ins_at (Suc r) lv hs"
  assumes old: "\<And>p i. p \<le> length ns \<Longrightarrow> i < hs ! p \<Longrightarrow> read_level h3 (A ! p) i =
          (if i < level sl \<and> p = prv hs i r
           then (if i < lv then Some \<lparr>forward = Some new, span = of_nat (r - p) + 1\<rparr>
                 else map_option (\<lambda>l. l\<lparr>span := span l + 1\<rparr>) (read_level h (A ! p) i))
           else read_level h (A ! p) i)"
    and node: "\<And>i. i < lv \<Longrightarrow> \<exists>l. read_level h3 new i = Some l \<and> forward l = map_option (nth A) (nxt hs i (prv hs i r))
          \<and> span l = of_nat (dist hs i (prv hs i r)) - of_nat (r - prv hs i r)"
    and p': "p' \<le> Suc (length ns)" "i < hs' ! p'"
  shows "\<exists>l. read_level h3 (A' ! p') i = Some l \<and> forward l = map_option (nth A') (nxt hs' i p')
    \<and> (i < level sl \<longrightarrow> span l = of_nat (dist hs' i p'))"
proof -
  note D = sl_reprD [OF repr]
  have z: "i < level sl \<Longrightarrow> i < hs ! 0" using D(4,6) by simp
  have rl: "r < length hs" "r < length A" using D(1) r by (simp_all add: A_def)
  have shift: "map_option (nth A') (map_option Suc (nxt hs i p)) = map_option (nth A) (nxt hs i p)"
    if "\<And>q. nxt hs i p = Some q \<Longrightarrow> r < q" for p
    unfolding A'_def using that rl(2) D(1) by (intro nth_shift) (auto simp: nxt_eq_Some A_def)
  consider "p' \<le> r" | "p' = Suc r" | "Suc r < p'" by linarith
  then show ?thesis
  proof cases
    case 1
    have hi: "i < hs ! p'" "A' ! p' = A ! p'" using 1 p' D(1) r by (auto simp: hs'_def A'_def A_def nth_ins_at)
    obtain l where l: "read_level h (A ! p') i = Some l" "forward l = map_option (nth A) (nxt hs i p')"
      "i < level sl \<longrightarrow> span l = of_nat (dist hs i p')"
      using sl_repr_level [OF repr, of p' i] 1 r hi(1) by (auto simp: A_def)
    have upd: "read_level h3 (A ! p') i = (if i < level sl \<and> p' = prv hs i r
        then (if i < lv then Some \<lparr>forward = Some new, span = of_nat (r - p') + 1\<rparr> else Some (l\<lparr>span := span l + 1\<rparr>)) else Some l)"
      using old [OF le_trans [OF 1 r] hi(1)] unfolding l(1) option.map .
    show ?thesis
    proof (cases "i < level sl")
      case False
      then have "nxt hs i p' = None" using nxt_above_level [OF repr] by simp
      moreover have "nxt hs' i p' = None"
        using False \<open>nxt hs i p' = None\<close> lv 1 rl nxt_None_pred [OF \<open>nxt hs i p' = None\<close> 1]
        by (subst nxt_eq_None) (auto simp: nxt_eq_None hs'_def nth_ins_at)
      ultimately show ?thesis using upd l(2) False hi(2) by simp
    next
      case True
      show ?thesis
      proof (cases "p' = prv hs i r")
        case prv: True
        note nx = nxt_ins_prv [OF rl(1) z [OF True], of lv, folded hs'_def]
          and di = dist_ins_prv [OF rl(1) z [OF True], of lv, folded hs'_def]
        have "A' ! Suc r = new" using rl(2) by (simp add: A'_def nth_ins_at)
        moreover have "map_option (nth A') (map_option Suc (nxt hs i p')) = map_option (nth A) (nxt hs i p')"
          using nxt_prv [of hs i r] prv by (intro shift) simp
        ultimately show ?thesis using upd l True prv hi(2) by (simp add: nx di del: option.map_comp)
      next
        case False
        obtain q where q: "nxt hs i p' = Some q" "q \<le> r" using nxt_before_prv [OF 1 False hi(1) z [OF True] rl(1)] .
        have "nxt hs' i p' = Some q" unfolding hs'_def by (rule nxt_ins_before [OF q rl(1)])
        with q l upd False hi(2) rl(2) show ?thesis by (simp add: dist_def A'_def nth_ins_at)
      qed
    qed
  next
    case 2
    have i: "i < lv" "A' ! p' = new" using 2 p'(2) rl by (auto simp: hs'_def A'_def nth_ins_at)
    then have il: "i < level sl" using lv by simp
    note nx = nxt_ins_new [OF rl(1) z [OF il], of lv, folded hs'_def]
      and di = dist_ins_new(1) [OF rl(1) z [OF il], of lv, folded hs'_def] dist_ins_new(2) [OF rl(1) z [OF il]]
    have "map_option (nth A') (map_option Suc (nxt hs i (prv hs i r))) = map_option (nth A) (nxt hs i (prv hs i r))"
      using nxt_prv [of hs i r] by (intro shift) simp
    with node [OF i(1)] 2 i di(2) show ?thesis by (auto simp add: nx di(1) of_nat_diff simp del: option.map_comp)
  next
    case gt: 3
    define p where "p = p' - 1"
    have 3: "p' = Suc p" "r < p" "p \<le> length ns" using gt p'(1) by (auto simp: p_def)
    have hi: "i < hs ! p" "A' ! p' = A ! p" using 3 p'(2) rl D(1) by (auto simp: hs'_def A'_def A_def nth_ins_at)
    obtain l where l: "read_level h (A ! p) i = Some l" "forward l = map_option (nth A) (nxt hs i p)"
      "i < level sl \<longrightarrow> span l = of_nat (dist hs i p)"
      using sl_repr_level [OF repr, of p i] 3 hi(1) by (auto simp: A_def)
    have "p \<noteq> prv hs i r" using 3 prv_le [of hs i r] by simp
    then have "read_level h3 (A ! p) i = Some l" using old [of p i] 3 hi(1) l(1) by simp
    moreover have "p < length hs" using 3 D(1) by simp
    moreover have "map_option (nth A') (map_option Suc (nxt hs i p)) = map_option (nth A) (nxt hs i p)"
      using 3 by (intro shift) (auto simp: nxt_eq_Some)
    ultimately show ?thesis using l 3 hi(2) by (simp add: hs'_def nxt_ins_after dist_ins_after del: option.map_comp)
  qed
qed


text \<open>The backward pointers and the tail.\<close>

lemma nxt_0: "sl_repr h sl ns hs xs \<Longrightarrow> r \<le> length ns \<Longrightarrow> nxt hs 0 r = (if r < length ns then Some (Suc r) else None)"
  using sl_repr_height(1) [of h sl ns hs xs] sl_reprD(1) [of h sl ns hs xs]
  by (auto simp: nxt_eq_None nxt_eq_Some Suc_le_eq)

lemma prv_0: "sl_repr h sl ns hs xs \<Longrightarrow> r \<le> length ns \<Longrightarrow> prv hs 0 r = r"
  using sl_repr_height(1) [of h sl ns hs xs r] by (cases r) auto

lemma ins_at_last: "ins_at r y zs \<noteq> []" "last (ins_at r y zs) = (if r < length zs then last zs else y)"
  by (auto simp: ins_at_def)

lemma distinct_ins_at: "distinct (ins_at r y zs) \<longleftrightarrow> distinct zs \<and> y \<notin> set zs"
proof -
  have "distinct zs \<longleftrightarrow> distinct (take r zs @ drop r zs)" by simp
  moreover have "set zs = set (take r zs @ drop r zs)" by simp
  ultimately show ?thesis unfolding ins_at_def by (auto simp only: distinct_append distinct.simps set_append list.set)
qed


lemma fix_backward_ok:
  assumes "read_level h x 0 = Some l" "\<And>y. forward l = Some y \<Longrightarrow> \<exists>e s b k. core_at h y = Some (e, s, b, k)"
  shows "\<exists>h'. fix_backward h sl x p q = Some (h', if forward l = None then sl\<lparr>tail := q\<rparr> else sl)
    \<and> (\<forall>c j. read_level h' c j = read_level h c j)
    \<and> (\<forall>c. core_at h' c = (if forward l = Some c then map_option (\<lambda>(e, s, b, k). (e, s, p, k)) (core_at h c) else core_at h c))"
proof (cases "forward l")
  case None
  with assms(1) show ?thesis by (simp add: fix_backward_def)
next
  case (Some y)
  then obtain e s b k where "core_at h y = Some (e, s, b, k)" using assms(2) by blast
  moreover from this obtain h' where "set_backward h y p = Some h'"
    "\<And>c. core_at h' c = (if c = y then Some (e, s, p, k) else core_at h c)" "\<And>c j. read_level h' c j = read_level h c j"
    by (rule set_backward_ok) blast
  ultimately show ?thesis using Some assms(1) by (intro exI [of _ h']) (simp add: fix_backward_def)
qed

lemma insert_cores:
  fixes new :: addr and lv :: nat and bs :: "byte list" and v
  assumes repr: "sl_repr h sl ns hs xs" and r: "r \<le> length ns" and fresh: "h new = None"
  defines "A \<equiv> header sl # ns"
  defines "A' \<equiv> ins_at (Suc r) new A" and "hs' \<equiv> ins_at (Suc r) lv hs" and "xs' \<equiv> ins_at r (bs, v) xs"
  assumes core: "\<And>a. core_at h' a =
      (if a = new then Some (Some bs, Some v, if r = 0 then None else Some (A ! r), lv)
       else if r < length ns \<and> a = ns ! r then map_option (\<lambda>(e, s, b, k). (e, s, Some new, k)) (core_at h a) else core_at h a)"
    and p: "p \<le> Suc (length ns)"
  shows "core_at h' (A' ! p) =
           Some (if p = 0 then (None, None, None, 32)
                 else (Some (fst (xs' ! (p - 1))), Some (snd (xs' ! (p - 1))), (if p = 1 then None else Some (A' ! (p - 1))), hs' ! p))"
proof -
  note D = sl_reprD [OF repr]
  have A': "A' ! q = (if q < Suc r then A ! q else if q = Suc r then new else A ! (q - 1))" if "q \<le> Suc (length ns)" for q
    unfolding A'_def using that r by (intro nth_ins_at) (simp_all add: A_def)
  have xs': "xs' ! q = (if q < r then xs ! q else if q = r then (bs, v) else xs ! (q - 1))" if "q \<le> length ns" for q
    unfolding xs'_def using that r D(2) by (intro nth_ins_at) simp_all
  have hs': "hs' ! q = (if q < Suc r then hs ! q else if q = Suc r then lv else hs ! (q - 1))" if "q \<le> Suc (length ns)" for q
    unfolding hs'_def using that r D(1) by (intro nth_ins_at) simp_all
  have ne: "A ! q \<noteq> new" if "q \<le> length ns" for q using not_in_list [OF repr fresh that] by (simp add: A_def)
  have c: "core_at h' (A ! q) = (if q = Suc r then map_option (\<lambda>(e, s, b, k). (e, s, Some new, k)) (core_at h (A ! q)) else core_at h (A ! q))"
    if "q \<le> length ns" for q
    using nth_A_eq [OF repr that, of "Suc r"] ne [OF that] that by (auto simp: core A_def)
  have old: "core_at h (A ! q) = Some (if q = 0 then (None, None, None, 32)
        else (Some (fst (xs ! (q - 1))), Some (snd (xs ! (q - 1))), (if q = 1 then None else Some (A ! (q - 1))), hs ! q))"
    if "q \<le> length ns" for q
    using sl_repr_core [OF repr that] unfolding A_def .
  consider "p \<le> r" | "p = Suc r" | "Suc r < p" by linarith
  then show ?thesis
  proof cases
    case 1
    then have "A' ! p = A ! p" "hs' ! p = hs ! p" "p > 0 \<Longrightarrow> A' ! (p - 1) = A ! (p - 1)" "p > 0 \<Longrightarrow> xs' ! (p - 1) = xs ! (p - 1)"
      using r A' [of p] A' [of "p - 1"] hs' [of p] xs' [of "p - 1"] by auto
    with 1 r c [of p] old [of p] show ?thesis by auto
  next
    case 2
    then show ?thesis using r A' [of p] A' [of "p - 1"] hs' [of p] xs' [of "p - 1"] core [of new] by auto
  next
    case 3
    define q where "q = p - 1"
    have q: "p = Suc q" "r < q" "q \<le> length ns" using 3 p by (auto simp: q_def)
    have "A' ! p = A ! q" "hs' ! p = hs ! q" "xs' ! q = xs ! (q - 1)" "A' ! q = (if q = Suc r then new else A ! (q - 1))"
      using q A' [of p] A' [of q] hs' [of p] xs' [of q] by auto
    with q c [of q] old [of q] show ?thesis by auto
  qed
qed

lemma insert_at_repr:
  fixes h :: "'s sl_heap" and new :: addr and bs :: "byte list" and v :: 's
  assumes repr: "sl_repr h sl ns hs xs" and r: "r \<le> length ns" and "length ns < 2 ^ 31" "h new = None" "1 \<le> lv" "lv \<le> level sl"
  defines "us \<equiv> path (header sl # ns) hs r (level sl)"
  shows "\<exists>h' sl'. link_node (h(new \<mapsto> skipListCreateNode lv (Some v) (Some bs))) sl new us lv = Some (h', sl')
    \<and> sl_repr h' (sl'\<lparr>sl_length := sl_length sl' + 1\<rparr>) (ins_at r new ns) (ins_at (Suc r) lv hs) (ins_at r (bs, v) xs)
    \<and> (\<forall>a. h' a = None \<longleftrightarrow> h a = None \<and> a \<noteq> new) \<and> sl_cmp sl' = sl_cmp sl"
proof -
  let ?A = "header sl # ns"
  let ?A' = "ins_at (Suc r) new ?A" and ?hs' = "ins_at (Suc r) lv hs"
  let ?h1 = "h(new \<mapsto> skipListCreateNode lv (Some v) (Some bs))"
  note D = sl_reprD [OF repr]
  obtain h3 where h3: "do { h \<leftarrow> link_loop ?h1 new us 0 lv; span_loop h us lv (level sl - lv) } = Some h3"
    "\<And>a. core_at h3 a = core_at ?h1 a"
    "\<And>p i. p \<le> length ns \<Longrightarrow> i < hs ! p \<Longrightarrow> read_level h3 (?A ! p) i =
          (if i < level sl \<and> p = prv hs i r
           then (if i < lv then Some \<lparr>forward = Some new, span = of_nat (r - p) + 1\<rparr>
                 else map_option (\<lambda>l. l\<lparr>span := span l + 1\<rparr>) (read_level h (?A ! p) i))
           else read_level h (?A ! p) i)"
    "\<And>i. i < lv \<Longrightarrow> \<exists>l. read_level h3 new i = Some l \<and> forward l = map_option (nth ?A) (nxt hs i (prv hs i r))
          \<and> span l = of_nat (dist hs i (prv hs i r)) - of_nat (r - prv hs i r)"
    using insert_towers [OF repr r assms(3-6), of "Some v" "Some bs"] unfolding us_def by blast
  have u0: "get_at us 0 = Some (?A ! r, of_nat r)" using D(5) prv_0 [OF repr r] by (simp add: us_def get_at_def)
  have hd: "?A ! r = header sl \<longleftrightarrow> r = 0" using nth_A_eq [OF repr r, of 0] by simp
  define b where "b = (if r = 0 then None else Some (?A ! r))"
  have c3: "core_at h3 a = (if a = new then Some (Some bs, Some v, None, lv) else core_at h a)" for a
    by (simp add: h3(2) core_at_upd skipListCreateNode_def)
  then have "core_at h3 new = Some (Some bs, Some v, None, lv)" by simp
  then obtain h4 where h4: "set_backward h3 new b = Some h4"
    "\<And>c. core_at h4 c = (if c = new then Some (Some bs, Some v, b, lv) else core_at h3 c)"
    "\<And>c j. read_level h4 c j = read_level h3 c j"
    by (rule set_backward_ok) blast
  obtain l where l: "read_level h4 new 0 = Some l" "forward l = (if r < length ns then Some (ns ! r) else None)"
    using h3(4) [of 0] assms(5) by (auto simp: h4(3) prv_0 [OF repr r] nxt_0 [OF repr r])
  have ne: "?A ! p \<noteq> new" if "p \<le> length ns" for p using not_in_list [OF repr assms(4) that] .
  have "\<exists>e s b k. core_at h4 y = Some (e, s, b, k)" if "forward l = Some y" for y
    using sl_repr_core [OF repr, of "Suc r"] ne [of "Suc r"] that l(2) by (auto simp: h4(2) c3 split: if_splits)
  from fix_backward_ok [OF l(1) this, of sl "Some new" "Some new"] obtain h5 where
    h5: "fix_backward h4 sl new (Some new) (Some new) = Some (h5, if forward l = None then sl\<lparr>tail := Some new\<rparr> else sl)"
      "\<And>c j. read_level h5 c j = read_level h4 c j"
      "\<And>c. core_at h5 c = (if forward l = Some c then map_option (\<lambda>(e, s, b, k). (e, s, Some new, k)) (core_at h4 c) else core_at h4 c)"
    by blast
  define sl' where "sl' = (if forward l = None then sl\<lparr>tail := Some new\<rparr> else sl)"
  have run: "link_node ?h1 sl new us lv = Some (h5, sl')"
    unfolding link_node_def using h3(1) h4(1) h5(1) by (auto simp: u0 hd b_def sl'_def bind_eq_Some_conv split: if_splits)
  have sl': "header sl' = header sl" "level sl' = level sl" "sl_length sl' = sl_length sl" "sl_cmp sl' = sl_cmp sl"
    "tail sl' = Some (last (ins_at r new ns))"
    using l(2) D(7) r by (auto simp: sl'_def ins_at_last)
  have lev: "\<exists>l. read_level h5 (?A' ! p) i = Some l \<and> forward l = map_option (nth ?A') (nxt ?hs' i p)
      \<and> (i < level sl \<longrightarrow> span l = of_nat (dist ?hs' i p))" if "p \<le> Suc (length ns)" "i < ?hs' ! p" for p i
    using insert_towers_repr [OF repr r assms(6) h3(3,4) that] by (simp add: h5(2) h4(3))
  have "core_at h5 a = (if a = new then Some (Some bs, Some v, if r = 0 then None else Some (?A ! r), lv)
       else if r < length ns \<and> a = ns ! r then map_option (\<lambda>(e, s, b, k). (e, s, Some new, k)) (core_at h a) else core_at h a)" for a
    using ne [of "Suc r"] by (auto simp: h5(3) h4(2) c3 l(2) b_def)
  note core = insert_cores [OF repr r assms(4) this]
  have A': "header sl # ins_at r new ns = ?A'" by (simp add: ins_at_Cons)
  have "new \<notin> set ?A" using ne by (metis in_set_conv_nth length_Cons less_Suc_eq_le)
  then have "distinct ?A'" using D(3) by (simp only: distinct_ins_at simp_thms)
  moreover have "1 \<le> ?hs' ! p \<and> ?hs' ! p \<le> level sl" if "1 \<le> p" "p \<le> Suc (length ns)" for p
    using that r assms(5,6) D(1) sl_repr_height [OF repr] by (auto simp: nth_ins_at)
  moreover have "?hs' ! 0 = 32" using D(4) r D(1) by (simp add: nth_ins_at)
  ultimately have "sl_repr h5 (sl'\<lparr>sl_length := sl_length sl' + 1\<rparr>) (ins_at r new ns) ?hs' (ins_at r (bs, v) xs)"
    unfolding sl_repr_def using core lev D(1,2,5,6,8) ins_at_last(1) [of r new ns] by (simp add: sl' A')
  moreover have "h5 a = None \<longleftrightarrow> h a = None \<and> a \<noteq> new" for a
    unfolding core_at_None [symmetric] h5(3) h4(2) c3 by auto
  ultimately show ?thesis using run sl'(4) by (intro exI [of _ h5] exI [of _ sl']) simp
qed


section \<open>The contract of the comparator\<close>

text \<open>Pairs are ordered by score and then by element; scores alone are compared by passing NULL for the elements.\<close>

definition pair_cmp :: "'s sl_comparator \<Rightarrow> byte list \<times> 's \<Rightarrow> byte list \<times> 's \<Rightarrow> int" where
  "pair_cmp cmp a b = cmp (Some (fst a)) (snd a) (Some (fst b)) (snd b)"

definition score_cmp :: "'s sl_comparator \<Rightarrow> 's \<Rightarrow> 's \<Rightarrow> int" where
  "score_cmp cmp a b = cmp None a None b"

definition sl_sorted :: "'s sl_comparator \<Rightarrow> (byte list \<times> 's) list \<Rightarrow> bool" where
  "sl_sorted cmp = sorted_wrt (\<lambda>a b. pair_cmp cmp a b \<le> 0)"

text \<open>The position of a pair: behind the pairs that are smaller.\<close>

definition pos_of :: "'s sl_comparator \<Rightarrow> byte list \<times> 's \<Rightarrow> (byte list \<times> 's) list \<Rightarrow> nat" where
  "pos_of cmp x xs = length (takeWhile (\<lambda>y. pair_cmp cmp y x < 0) xs)"

lemma prefix_length:
  assumes "\<And>i j. i < j \<Longrightarrow> j < length xs \<Longrightarrow> P (xs ! j) \<Longrightarrow> P (xs ! i)" "p < length xs"
  shows "P (xs ! p) \<longleftrightarrow> p < length (takeWhile P xs)"
proof
  assume "P (xs ! p)"
  then have "\<forall>i \<le> p. P (xs ! i)" using assms by (metis le_neq_implies_less)
  with assms(2) show "p < length (takeWhile P xs)" using nth_length_takeWhile [of P xs] by (meson le_less_trans not_less)
next
  assume "p < length (takeWhile P xs)"
  then show "P (xs ! p)" by (metis set_takeWhileD nth_mem takeWhile_nth)
qed

definition above_min :: "'s sl_comparator \<Rightarrow> 's zrangespec \<Rightarrow> 's \<Rightarrow> 's \<Rightarrow> bool" where
  "above_min cmp zr lo s = (if minex zr then score_cmp cmp s lo > 0 else score_cmp cmp s lo \<ge> 0)"

definition below_max :: "'s sl_comparator \<Rightarrow> 's zrangespec \<Rightarrow> 's \<Rightarrow> 's \<Rightarrow> bool" where
  "below_max cmp zr hi s = (if maxex zr then score_cmp cmp s hi < 0 else score_cmp cmp s hi \<le> 0)"

text \<open>The positions in a range, in ascending order.\<close>

definition in_range :: "'s sl_comparator \<Rightarrow> 's zrangespec \<Rightarrow> 's \<Rightarrow> 's \<Rightarrow> (byte list \<times> 's) list \<Rightarrow> nat list" where
  "in_range cmp zr lo hi xs = filter (\<lambda>p. above_min cmp zr lo (snd (xs ! p)) \<and> below_max cmp zr hi (snd (xs ! p))) [0..<length xs]"

lemma holds_prefix:
  assumes "sl_repr h sl ns hs xs" "\<And>i j. i < j \<Longrightarrow> j < length xs \<Longrightarrow> Q (xs ! j) \<Longrightarrow> Q (xs ! i)"
    "\<And>n x. ele n = Some (fst x) \<Longrightarrow> score n = Some (snd x) \<Longrightarrow> P n = Some (Q x)"
  shows "holds_upto h P ns (length (takeWhile Q xs))"
proof -
  have "\<exists>n. h (ns ! p) = Some n \<and> P n = Some (p < length (takeWhile Q xs))" if p: "p < length ns" for p
  proof -
    obtain n where n: "h (ns ! p) = Some n" "ele n = Some (fst (xs ! p))" "score n = Some (snd (xs ! p))"
      using sl_repr_node [OF assms(1), of "Suc p"] p by auto
    have "Q (xs ! p) \<longleftrightarrow> p < length (takeWhile Q xs)"
      using prefix_length [of xs Q p, OF assms(2)] p sl_reprD(2) [OF assms(1)] by simp
    with n assms(3) [OF n(2,3)] show ?thesis by simp
  qed
  moreover have "length (takeWhile Q xs) \<le> length ns" using length_takeWhile_le [of Q xs] sl_reprD(2) [OF assms(1)] by simp
  ultimately show ?thesis by (simp add: holds_upto_def)
qed

locale skiplist_order =
  fixes cmp :: "'s sl_comparator"
  assumes pair_sym: "pair_cmp cmp a b \<le> 0 \<longleftrightarrow> pair_cmp cmp b a \<ge> 0"
    and pair_trans: "pair_cmp cmp a b \<le> 0 \<Longrightarrow> pair_cmp cmp b c \<le> 0 \<Longrightarrow> pair_cmp cmp a c \<le> 0"
    and score_sym: "score_cmp cmp s t \<le> 0 \<longleftrightarrow> score_cmp cmp t s \<ge> 0"
    and score_trans: "score_cmp cmp s t \<le> 0 \<Longrightarrow> score_cmp cmp t u \<le> 0 \<Longrightarrow> score_cmp cmp s u \<le> 0"
    and score_first: "score_cmp cmp s t < 0 \<Longrightarrow> pair_cmp cmp (e, s) (f, t) < 0"
    and element_second: "score_cmp cmp s t = 0 \<Longrightarrow> pair_cmp cmp (e, s) (f, t) = 0 \<longleftrightarrow> strcmp e f = 0"
begin

lemma pair_le_less: "pair_cmp cmp a b \<le> 0 \<Longrightarrow> pair_cmp cmp b c < 0 \<Longrightarrow> pair_cmp cmp a c < 0"
  using pair_sym pair_trans by (metis not_le order_le_less)

lemma score_le_less: "score_cmp cmp a b \<le> 0 \<Longrightarrow> score_cmp cmp b c < 0 \<Longrightarrow> score_cmp cmp a c < 0"
  using score_sym score_trans by (metis not_le order_le_less)

lemma score_less_le: "score_cmp cmp a b < 0 \<Longrightarrow> score_cmp cmp b c \<le> 0 \<Longrightarrow> score_cmp cmp a c < 0"
  using score_sym score_trans by (metis not_le order_le_less)

lemma score_flip: "0 < score_cmp cmp s t \<longleftrightarrow> score_cmp cmp t s < 0" "0 \<le> score_cmp cmp s t \<longleftrightarrow> score_cmp cmp t s \<le> 0"
  using score_sym [of s t] score_sym [of t s] by linarith+

lemma score_of_pair: "pair_cmp cmp a b \<le> 0 \<Longrightarrow> score_cmp cmp (snd a) (snd b) \<le> 0"
  using score_first [of "snd b" "snd a" "fst b" "fst a"] pair_sym [of a b] score_sym [of "snd a" "snd b"] by force

lemma before_pos:
  assumes "sl_sorted cmp xs" "p < length xs"
  shows "pair_cmp cmp (xs ! p) x < 0 \<longleftrightarrow> p < pos_of cmp x xs"
  unfolding pos_of_def using assms
  by (intro prefix_length) (auto simp: sl_sorted_def sorted_wrt_iff_nth_less intro: pair_le_less)

lemma sorted_insert:
  assumes "sl_sorted cmp xs"
  shows "sl_sorted cmp (ins_at (pos_of cmp x xs) x xs)"
proof -
  let ?r = "pos_of cmp x xs"
  have r: "?r \<le> length xs" by (simp add: pos_of_def length_takeWhile_le)
  have "pair_cmp cmp y x \<le> 0" if "y \<in> set (take ?r xs)" for y
    using that before_pos [OF assms, of _ x] by (auto simp: in_set_conv_nth intro: less_imp_le)
  moreover have "pair_cmp cmp x y \<le> 0" if y: "y \<in> set (drop ?r xs)" for y
  proof -
    obtain k where "y = xs ! (?r + k)" "?r + k < length xs" using y r by (auto simp: in_set_conv_nth)
    then have "\<not> pair_cmp cmp y x < 0" using before_pos [OF assms, of "?r + k" x] by simp
    then show ?thesis using pair_sym [of x y] by simp
  qed
  moreover have "sorted_wrt (\<lambda>a b. pair_cmp cmp a b \<le> 0) (take ?r xs @ drop ?r xs)"
    using assms by (simp add: sl_sorted_def)
  ultimately show ?thesis unfolding sl_sorted_def ins_at_def sorted_wrt_append by simp
qed

lemma holds_before:
  assumes "sl_repr h sl ns hs xs" "sl_cmp sl = cmp" "sl_sorted cmp xs"
  shows "holds_upto h (before sl (Some v) (Some bs)) ns (pos_of cmp (bs, v) xs)"
  unfolding pos_of_def
proof (rule holds_prefix [OF assms(1)])
  show "pair_cmp cmp (xs ! i) (bs, v) < 0" if "i < j" "j < length xs" "pair_cmp cmp (xs ! j) (bs, v) < 0" for i j
    using that assms(3) by (auto simp: sl_sorted_def sorted_wrt_iff_nth_less intro: pair_le_less)
qed (use assms(2) in \<open>simp add: before_def call_cmp_def pair_cmp_def\<close>)

lemma insert_ok:
  fixes bs v
  assumes "sl_repr h sl ns hs xs" "sl_cmp sl = cmp" "sl_sorted cmp xs" "length ns < 2 ^ 31" "h new = None"
    "skipListRandomLevel rnd = Some lv" "1 \<le> lv" "lv \<le> 32"
  defines "r \<equiv> pos_of cmp (bs, v) xs"
  shows "\<exists>h' sl'. skipListInsert h sl new rnd (Some v) (Some bs) = Some (h', sl') \<and> sl_cmp sl' = cmp
    \<and> sl_repr h' sl' (ins_at r new ns) (ins_at (Suc r) lv hs) (ins_at r (bs, v) xs)
    \<and> (\<forall>a. h' a = None \<longleftrightarrow> h a = None \<and> a \<noteq> new)"
proof -
  let ?sl = "if lv > level sl then sl\<lparr>level := lv\<rparr> else sl"
  have up: "holds_upto h (before sl (Some v) (Some bs)) ns r" unfolding r_def by (rule holds_before [OF assms(1-3)])
  note us = descend_header [OF assms(1) this]
  have r: "r \<le> length ns" using up by (simp add: holds_upto_def)
  obtain h1 where h1: "(if lv > level sl then new_levels h (header sl) (level sl) (lv - level sl) (sl_length sl) else Some h) = Some h1"
    "sl_repr h1 ?sl ns hs xs" "\<And>a. core_at h1 a = core_at h a"
    using new_levels_repr [OF assms(1) _ assms(8)] assms(1) by (cases "lv > level sl") auto
  have p0: "prv hs j r = 0" if "level sl \<le> j" for j
    using that r sl_repr_height(2) [OF assms(1)] by (induction r) fastforce+
  have path: "path (header sl # ns) hs r (level sl) @ replicate (lv - level sl) (header sl, 0) = path (header ?sl # ns) hs r (level ?sl)"
    by (rule nth_equalityI) (auto simp: nth_append p0)
  have "lv \<le> level ?sl" by simp
  moreover have "h1 new = None" using h1(3) assms(5) by (metis core_at_None)
  ultimately obtain h' sl' where
    ins: "link_node (h1(new \<mapsto> skipListCreateNode lv (Some v) (Some bs))) ?sl new (path (header ?sl # ns) hs r (level ?sl)) lv = Some (h', sl')"
    "sl_repr h' (sl'\<lparr>sl_length := sl_length sl' + 1\<rparr>) (ins_at r new ns) (ins_at (Suc r) lv hs) (ins_at r (bs, v) xs)"
    "\<forall>a. h' a = None \<longleftrightarrow> h1 a = None \<and> a \<noteq> new" "sl_cmp sl' = sl_cmp ?sl"
    using insert_at_repr [OF h1(2) r assms(4) _ assms(7)] by blast
  have "skipListInsert h sl new rnd (Some v) (Some bs) = Some (h', sl'\<lparr>sl_length := sl_length sl' + 1\<rparr>)"
    unfolding skipListInsert_def us assms(6) bind.bind_lunit h1(1) Let_def path ins(1) by simp
  moreover have "sl_cmp sl' = cmp" using ins(4) assms(2) by (simp split: if_splits)
  moreover have "\<forall>a. h' a = None \<longleftrightarrow> h a = None \<and> a \<noteq> new" using ins(3) h1(3) by (metis core_at_None)
  ultimately show ?thesis using ins(2) by (intro exI [of _ h'] exI [of _ "sl'\<lparr>sl_length := sl_length sl' + 1\<rparr>"]) simp
qed

lemma above_mono:
  assumes "sl_sorted cmp xs" "i < j" "j < length xs" "above_min cmp zr lo (snd (xs ! i))"
  shows "above_min cmp zr lo (snd (xs ! j))"
proof -
  have "score_cmp cmp (snd (xs ! i)) (snd (xs ! j)) \<le> 0"
    using assms by (intro score_of_pair) (simp add: sl_sorted_def sorted_wrt_iff_nth_less)
  then show ?thesis using assms(4) score_trans [of lo] score_less_le [of lo] unfolding above_min_def score_flip
    by (simp split: if_splits)
qed

lemma below_mono:
  assumes "sl_sorted cmp xs" "i < j" "j < length xs" "below_max cmp zr hi (snd (xs ! j))"
  shows "below_max cmp zr hi (snd (xs ! i))"
proof -
  have "score_cmp cmp (snd (xs ! i)) (snd (xs ! j)) \<le> 0"
    using assms by (intro score_of_pair) (simp add: sl_sorted_def sorted_wrt_iff_nth_less)
  then show ?thesis using assms(4) score_trans [of _ _ hi] score_le_less [of _ _ hi] unfolding below_max_def
    by (simp split: if_splits)
qed

lemma value_tests:
  assumes "sl_cmp sl = cmp"
  shows "zmin zr = Some lo \<Longrightarrow> slValueGteMin sl (Some s) zr = Some (above_min cmp zr lo s)"
    "zmax zr = Some hi \<Longrightarrow> slValueLteMax sl (Some s) zr = Some (below_max cmp zr hi s)"
  using assms by (simp_all add: slValueGteMin_def slValueLteMax_def call_cmp_def above_min_def below_max_def score_cmp_def)

lemma empty_bounds:
  assumes "score_cmp cmp lo hi > 0 \<or> (score_cmp cmp lo hi = 0 \<and> (minex zr \<or> maxex zr))"
  shows "\<not> (above_min cmp zr lo s \<and> below_max cmp zr hi s)"
proof
  assume *: "above_min cmp zr lo s \<and> below_max cmp zr hi s"
  then have "score_cmp cmp lo s \<le> 0" "score_cmp cmp s hi \<le> 0"
    by (auto simp: above_min_def below_max_def score_flip split: if_splits)
  then have le: "score_cmp cmp lo hi \<le> 0" by (rule score_trans)
  have "score_cmp cmp lo hi < 0" if "minex zr \<or> maxex zr"
    using that * score_less_le [of lo s hi] score_le_less [of lo s hi] \<open>score_cmp cmp lo s \<le> 0\<close> \<open>score_cmp cmp s hi \<le> 0\<close>
    by (auto simp: above_min_def below_max_def score_flip split: if_splits)
  with le assms show False by linarith
qed

text \<open>The early exit is taken only when no element is in the range.\<close>

lemma slIsInRange_ok:
  assumes "sl_repr h sl ns hs xs" "sl_cmp sl = cmp" "sl_sorted cmp xs" "zmin zr = Some lo" "zmax zr = Some hi"
  shows "\<exists>ok. slIsInRange h sl zr = Some ok \<and> (if ok then xs \<noteq> [] \<and> above_min cmp zr lo (snd (last xs)) \<and> below_max cmp zr hi (snd (xs ! 0))
    else in_range cmp zr lo hi xs = [])"
proof -
  note D = sl_reprD [OF assms(1)]
  have r: "call_cmp sl None (zmin zr) None (zmax zr) = Some (score_cmp cmp lo hi)"
    using assms(2,4,5) by (simp add: call_cmp_def score_cmp_def)
  show ?thesis
  proof (cases "score_cmp cmp lo hi > 0 \<or> (score_cmp cmp lo hi = 0 \<and> (minex zr \<or> maxex zr))")
    case True
    then have "slIsInRange h sl zr = Some False" by (auto simp: slIsInRange_def r)
    moreover have "in_range cmp zr lo hi xs = []" using empty_bounds [OF True] by (simp add: in_range_def)
    ultimately show ?thesis by (intro exI [of _ False]) simp
  next
    case bounds: False
    show ?thesis
    proof (cases "ns = []")
      case True
      then have "slIsInRange h sl zr = Some False" using bounds D(7) by (auto simp: slIsInRange_def r)
      moreover have "in_range cmp zr lo hi xs = []" using True D(2) by (simp add: in_range_def)
      ultimately show ?thesis by (intro exI [of _ False]) simp
    next
      case False
      let ?n = "length ns"
      have "xs \<noteq> []" using False D(2) by auto
      then have xs: "xs \<noteq> []" "last xs = xs ! (?n - 1)" using D(2) by (simp_all add: last_conv_nth)
      obtain n1 where n1: "h (last ns) = Some n1" "score n1 = Some (snd (last xs))"
        using sl_repr_node [OF assms(1), of ?n] False xs(2) by (auto simp: last_conv_nth nth_Cons' Suc_le_eq)
      obtain n2 where n2: "h (ns ! 0) = Some n2" "score n2 = Some (snd (xs ! 0))"
        using sl_repr_node [OF assms(1), of 1] False by (auto simp: Suc_le_eq)
      have "0 < hs ! 0" using D(4) by simp
      from sl_repr_level [OF assms(1) _ this] obtain l where l: "read_level h (header sl) 0 = Some l" "forward l = Some (ns ! 0)"
        using nxt_0 [OF assms(1), of 0] False by auto
      have "slIsInRange h sl zr = Some (above_min cmp zr lo (snd (last xs)) \<and> below_max cmp zr hi (snd (xs ! 0)))"
        using False D(7) n1 n2 l value_tests [OF assms(2)] assms(4,5)
        unfolding slIsInRange_def r bind.bind_lunit if_not_P [OF bounds] by simp
      moreover have "in_range cmp zr lo hi xs = []" if none: "\<not> (above_min cmp zr lo (snd (last xs)) \<and> below_max cmp zr hi (snd (xs ! 0)))"
      proof -
        have "\<not> (above_min cmp zr lo (snd (xs ! p)) \<and> below_max cmp zr hi (snd (xs ! p)))" if "p < length xs" for p
        proof
          assume *: "above_min cmp zr lo (snd (xs ! p)) \<and> below_max cmp zr hi (snd (xs ! p))"
          have "p = ?n - 1 \<or> p < ?n - 1" "?n - 1 < length xs" "p = 0 \<or> 0 < p" using \<open>p < length xs\<close> D(2) False by auto
          then have "above_min cmp zr lo (snd (last xs))"
            using * above_mono [OF assms(3), of p "?n - 1" zr lo] unfolding xs(2) by blast
          moreover have "below_max cmp zr hi (snd (xs ! 0))"
            using * below_mono [OF assms(3), of 0 p zr hi] \<open>p < length xs\<close> by (cases "p = 0") simp_all
          ultimately show False using none by blast
        qed
        then show ?thesis by (simp add: in_range_def filter_empty_conv)
      qed
      ultimately show ?thesis using xs(1) by auto
    qed
  qed
qed

lemma hd_filter_upt: "k < n \<Longrightarrow> P k \<Longrightarrow> (\<And>p. p < k \<Longrightarrow> \<not> P p) \<Longrightarrow> filter P [0..<n] \<noteq> [] \<and> hd (filter P [0..<n]) = k"
  using upt_add_eq_append [of 0 k "n - k"] upt_conv_Cons [of k n] by (simp add: filter_empty_conv [THEN iffD2])

lemma last_filter_upt: "k < n \<Longrightarrow> P k \<Longrightarrow> (\<And>p. k < p \<Longrightarrow> p < n \<Longrightarrow> \<not> P p) \<Longrightarrow> filter P [0..<n] \<noteq> [] \<and> last (filter P [0..<n]) = k"
  using upt_add_eq_append [of 0 "Suc k" "n - Suc k"] by (simp add: filter_empty_conv [THEN iffD2])

lemma firstInRange_ok:
  assumes "sl_repr h sl ns hs xs" "sl_cmp sl = cmp" "sl_sorted cmp xs" "zmin zr = Some lo" "zmax zr = Some hi"
  shows "skiplist_firstInRange h sl zr =
    Some (if in_range cmp zr lo hi xs = [] then None else Some (ns ! hd (in_range cmp zr lo hi xs)))"
proof -
  note D = sl_reprD [OF assms(1)]
  obtain ok where ok: "slIsInRange h sl zr = Some ok" "if ok then xs \<noteq> [] \<and> above_min cmp zr lo (snd (last xs)) \<and> below_max cmp zr hi (snd (xs ! 0))
    else in_range cmp zr lo hi xs = []" using slIsInRange_ok [OF assms] by blast
  show ?thesis
  proof (cases ok)
    case False
    with ok show ?thesis by (simp add: skiplist_firstInRange_def)
  next
    case True
    let ?Q = "\<lambda>x. \<not> above_min cmp zr lo (snd x)"
    define k where "k = length (takeWhile ?Q xs)"
    have up: "holds_upto h (\<lambda>n. map_option Not (slValueGteMin sl (score n) zr)) ns k" unfolding k_def
      using above_mono [OF assms(3)] value_tests(1) [OF assms(2,4)] by (intro holds_prefix [OF assms(1)]) auto
    have pre: "?Q (xs ! p) \<longleftrightarrow> p < k" if "p < length xs" for p
      unfolding k_def using above_mono [OF assms(3)] that by (intro prefix_length) auto
    have "0 < length xs" "above_min cmp zr lo (snd (xs ! (length xs - 1)))" using True ok(2) by (auto simp: last_conv_nth)
    then have "k < length ns" using pre [of "length xs - 1"] D(2) by linarith
    then have k: "k < length ns" "k \<le> length ns" by simp_all
    obtain l where l: "read_level h ((header sl # ns) ! k) 0 = Some l" "forward l = Some (ns ! k)"
      using sl_repr_level [OF assms(1) k(2), of 0] sl_repr_height(1) [OF assms(1) _ k(2)] nxt_0 [OF assms(1) k(2)] k(1) D(4)
      by (cases k) auto
    obtain n where n: "h (ns ! k) = Some n" "score n = Some (snd (xs ! k))"
      using sl_repr_node [OF assms(1), of "Suc k"] k by auto
    have res: "skiplist_firstInRange h sl zr = Some (if \<not> below_max cmp zr hi (snd (xs ! k)) then None else Some (ns ! k))"
      using True ok(1) value_tests(2) [OF assms(2,5)] n l
      by (simp add: skiplist_firstInRange_def descend_header [OF assms(1) up] last_x_path [OF assms(1) k(2)])
    show ?thesis
    proof (cases "below_max cmp zr hi (snd (xs ! k))")
      case below: True
      have "in_range cmp zr lo hi xs \<noteq> [] \<and> hd (in_range cmp zr lo hi xs) = k"
        unfolding in_range_def using below pre k D(2) by (intro hd_filter_upt) auto
      with res below show ?thesis by simp
    next
      case False
      then have "in_range cmp zr lo hi xs = []"
        using pre below_mono [OF assms(3), of k _ zr hi] k D(2) by (auto simp: in_range_def filter_empty_conv not_less le_less)
      with res False show ?thesis by simp
    qed
  qed
qed

lemma lastInRange_ok:
  assumes "sl_repr h sl ns hs xs" "sl_cmp sl = cmp" "sl_sorted cmp xs" "zmin zr = Some lo" "zmax zr = Some hi"
  shows "skiplist_lastInRange h sl zr =
    Some (if in_range cmp zr lo hi xs = [] then None else Some (ns ! last (in_range cmp zr lo hi xs)))"
proof -
  note D = sl_reprD [OF assms(1)]
  obtain ok where ok: "slIsInRange h sl zr = Some ok" "if ok then xs \<noteq> [] \<and> above_min cmp zr lo (snd (last xs)) \<and> below_max cmp zr hi (snd (xs ! 0))
    else in_range cmp zr lo hi xs = []" using slIsInRange_ok [OF assms] by blast
  show ?thesis
  proof (cases ok)
    case False
    with ok show ?thesis by (simp add: skiplist_lastInRange_def)
  next
    case True
    let ?Q = "\<lambda>x. below_max cmp zr hi (snd x)"
    define k where "k = length (takeWhile ?Q xs)"
    have up: "holds_upto h (\<lambda>n. slValueLteMax sl (score n) zr) ns k" unfolding k_def
      using below_mono [OF assms(3)] value_tests(2) [OF assms(2,5)] by (intro holds_prefix [OF assms(1)]) auto
    have pre: "?Q (xs ! p) \<longleftrightarrow> p < k" if "p < length xs" for p
      unfolding k_def using below_mono [OF assms(3)] that by (intro prefix_length) auto
    have k: "k \<le> length ns" unfolding k_def D(2) [symmetric] by (rule length_takeWhile_le)
    moreover have "0 < k" using pre [of 0] True ok(2) by simp
    ultimately obtain j where j: "k = Suc j" "j < length ns" "(header sl # ns) ! k = ns ! j" by (cases k) auto
    obtain n where n: "h (ns ! j) = Some n" "score n = Some (snd (xs ! j))"
      using sl_repr_node [OF assms(1), of "Suc j"] j by auto
    have res: "skiplist_lastInRange h sl zr = Some (if \<not> above_min cmp zr lo (snd (xs ! j)) then None else Some (ns ! j))"
      using True ok(1) value_tests(1) [OF assms(2,4)] n
      by (simp add: skiplist_lastInRange_def descend_header [OF assms(1) up] last_x_path [OF assms(1) k] j(3))
    show ?thesis
    proof (cases "above_min cmp zr lo (snd (xs ! j))")
      case above: True
      have "in_range cmp zr lo hi xs \<noteq> [] \<and> last (in_range cmp zr lo hi xs) = j"
        unfolding in_range_def using above pre j D(2) by (intro last_filter_upt) auto
      with res above show ?thesis by simp
    next
      case False
      then have "in_range cmp zr lo hi xs = []"
        using pre above_mono [OF assms(3), of _ j zr lo] j D(2) by (auto simp: in_range_def filter_empty_conv less_Suc_eq_le le_less)
      with res False show ?thesis by simp
    qed
  qed
qed

end


lemma pair_cmp_double:
  "pair_cmp doubleComparator a b = (if snd a < snd b then - 1 else if snd a > snd b then 1 else strcmp (fst a) (fst b))"
  by (simp add: pair_cmp_def doubleComparator_def)

lemma score_cmp_double: "score_cmp doubleComparator s t = (if s < t then - 1 else if s > t then 1 else 0)"
  by (simp add: score_cmp_def doubleComparator_def)

interpretation double: skiplist_order "doubleComparator :: ('s :: linorder) sl_comparator"
proof
  fix a b c :: "byte list \<times> ('s :: linorder)"
  show "pair_cmp doubleComparator a b \<le> 0 \<longleftrightarrow> pair_cmp doubleComparator b a \<ge> 0"
    using strcmp_sym [of "fst a" "fst b"] by (auto simp: pair_cmp_double)
  show "pair_cmp doubleComparator a b \<le> 0 \<Longrightarrow> pair_cmp doubleComparator b c \<le> 0 \<Longrightarrow> pair_cmp doubleComparator a c \<le> 0"
    using strcmp_trans [of "fst a" "fst b" "fst c"] by (auto simp: pair_cmp_double split: if_splits)
qed (auto simp: pair_cmp_double score_cmp_double split: if_splits)

section \<open>The towers after a deletion\<close>

lemma set_ins_at: "set (ins_at r y zs) = insert y (set zs)"
proof -
  have "set zs = set (take r zs) \<union> set (drop r zs)" by (metis append_take_drop_id set_append)
  then show ?thesis by (auto simp: ins_at_def)
qed

lemma prv_ins: "r < length hs \<Longrightarrow> k \<le> r \<Longrightarrow> prv (ins_at (Suc r) lv hs) i k = prv hs i k"
  by (induction k) (auto simp: nth_ins_at)

definition unlinked :: "'s sl_heap \<Rightarrow> addr \<Rightarrow> addr \<Rightarrow> nat \<Rightarrow> skiplistLevel" where
  "unlinked h x u j =
     (let ul = the (read_level h u j); xl = the (read_level h x j) in
      if forward ul = Some x then ul\<lparr>span := span ul + (span xl - 1), forward := forward xl\<rparr> else ul\<lparr>span := span ul - 1\<rparr>)"

lemma sl_unlink_loop_view:
  assumes "\<forall>j. i \<le> j \<and> j < i + k \<longrightarrow> j < length us \<and> fst (us ! j) \<noteq> x
      \<and> (\<exists>l. read_level h (fst (us ! j)) j = Some l \<and> (forward l = Some x \<longrightarrow> (\<exists>xl. read_level h x j = Some xl)))"
  shows "\<exists>h'. sl_unlink_loop h x us i k = Some h' \<and> (\<forall>a. core_at h' a = core_at h a)
    \<and> (\<forall>a j. read_level h' a j = (if i \<le> j \<and> j < i + k \<and> a = fst (us ! j) then Some (unlinked h x a j) else read_level h a j))"
  using assms
proof (induction k arbitrary: i h)
  case (Suc k)
  then obtain l where i: "i < length us" "fst (us ! i) \<noteq> x" and l: "read_level h (fst (us ! i)) i = Some l"
    "forward l = Some x \<longrightarrow> (\<exists>xl. read_level h x i = Some xl)" by auto
  obtain h1 where h1: "write_level h (fst (us ! i)) i (unlinked h x (fst (us ! i)) i) = Some h1" "\<And>b. core_at h1 b = core_at h b"
    "\<And>b j. read_level h1 b j = (if b = fst (us ! i) \<and> j = i then Some (unlinked h x (fst (us ! i)) i) else read_level h b j)"
    using write_level_ok [OF l(1)] by blast
  have step: "sl_unlink_level h x us i = Some h1"
    using i(1) l h1(1) by (auto simp: sl_unlink_level_def get_at_def case_prod_beta unlinked_def)
  have same: "read_level h1 a j = read_level h a j" "unlinked h1 x a j = unlinked h x a j" if "j \<noteq> i" for a j
    using that h1(3) by (auto simp: unlinked_def)
  have "\<forall>j. Suc i \<le> j \<and> j < Suc i + k \<longrightarrow> j < length us \<and> fst (us ! j) \<noteq> x
      \<and> (\<exists>l. read_level h1 (fst (us ! j)) j = Some l \<and> (forward l = Some x \<longrightarrow> (\<exists>xl. read_level h1 x j = Some xl)))"
    using Suc.prems same(1) by simp
  then obtain h2 where h2: "sl_unlink_loop h1 x us (Suc i) k = Some h2" "\<And>a. core_at h2 a = core_at h1 a"
    "\<And>a j. read_level h2 a j = (if Suc i \<le> j \<and> j < Suc i + k \<and> a = fst (us ! j) then Some (unlinked h1 x a j) else read_level h1 a j)"
    using Suc.IH [of "Suc i" h1] by blast
  have "read_level h2 a j = (if i \<le> j \<and> j < i + Suc k \<and> a = fst (us ! j) then Some (unlinked h x a j) else read_level h a j)" for a j
    using same by (cases "j = i") (auto simp: h2(3) h1(3))
  with step h1(2) h2(1,2) show ?case by (intro exI [of _ h2]) simp
qed auto

text \<open>Taking the node at position \<open>Suc r\<close> out of a list undoes an insertion.\<close>

lemma before_delete:
  fixes h :: "'s sl_heap" and x :: addr
  assumes repr: "sl_repr h sl (ins_at r x ns) (ins_at (Suc r) lv hs) xs'" and r: "r \<le> length ns" and len: "length hs = Suc (length ns)"
  defines "A \<equiv> header sl # ns"
  defines "A' \<equiv> ins_at (Suc r) x A"
  shows "\<And>p. p \<le> length ns \<Longrightarrow> A ! p \<noteq> x"
    "\<And>j. j < lv \<Longrightarrow> \<exists>l. read_level h x j = Some l \<and> forward l = map_option (nth A) (nxt hs j (prv hs j r))
      \<and> span l = of_nat (dist hs j (prv hs j r)) - of_nat (r - prv hs j r)"
    "\<And>j. j < level sl \<Longrightarrow> \<exists>l. read_level h (A ! prv hs j r) j = Some l
      \<and> (if j < lv then forward l = Some x \<and> span l = of_nat (r - prv hs j r + 1)
         else forward l = map_option (nth A) (nxt hs j (prv hs j r)) \<and> forward l \<noteq> Some x \<and> span l = of_nat (dist hs j (prv hs j r) + 1))"
    "\<And>p i. p \<le> length ns \<Longrightarrow> i < hs ! p \<Longrightarrow> \<not> (i < level sl \<and> p = prv hs i r) \<Longrightarrow>
      \<exists>l. read_level h (A ! p) i = Some l \<and> forward l = map_option (nth A) (nxt hs i p) \<and> (i < level sl \<longrightarrow> span l = of_nat (dist hs i p))"
    "lv \<le> level sl" "hs ! 0 = 32" "\<And>p. 1 \<le> p \<Longrightarrow> p \<le> length ns \<Longrightarrow> 1 \<le> hs ! p \<and> hs ! p \<le> level sl"
proof -
  let ?hs = "ins_at (Suc r) lv hs"
  note D = sl_reprD [OF repr]
  have A': "header sl # ins_at r x ns = A'" by (simp add: A'_def A_def ins_at_Cons)
  have rl: "r < length hs" "r < length A" "length A' = Suc (Suc (length ns))" using r len by (simp_all add: A'_def A_def)
  have z: "hs ! 0 = 32" using D(4) rl(1) by (simp add: nth_ins_at)
  have nth': "A' ! p = A ! p" if "p \<le> r" for p using that rl(2) by (simp add: A'_def nth_ins_at)
  have nthS: "A' ! Suc p = A ! p" if "r < p" "p \<le> length ns" for p using that by (simp add: A'_def A_def nth_ins_at)
  have x: "A' ! Suc r = x" using rl(2) by (simp add: A'_def nth_ins_at)
  have inj: "A' ! p = A' ! q \<longleftrightarrow> p = q" if "p \<le> Suc (length ns)" "q \<le> Suc (length ns)" for p q
    using nth_A_eq [OF repr, of p q] that by (simp add: A')
  have pl: "prv hs j r \<le> r" "prv hs j r \<le> Suc (length ns)" for j using prv_le [of hs j r] r by simp_all
  have lev: "\<exists>l. read_level h (A' ! p) i = Some l \<and> forward l = map_option (nth A') (nxt ?hs i p)
      \<and> (i < level sl \<longrightarrow> span l = of_nat (dist ?hs i p))" if "p \<le> Suc (length ns)" "i < ?hs ! p" for p i
    using sl_repr_level [OF repr _ that(2)] that(1) by (simp add: A')
  have shift: "map_option (nth A') (map_option Suc (nxt hs i p)) = map_option (nth A) (nxt hs i p)"
    if "\<And>q. nxt hs i p = Some q \<Longrightarrow> r < q" for p i
    unfolding A'_def using that rl len by (intro nth_shift) (auto simp: nxt_eq_Some A_def)
  have heights: "1 \<le> ?hs ! p" "?hs ! p \<le> level sl" if "1 \<le> p" "p \<le> Suc (length ns)" for p
    using sl_repr_height [OF repr, of p] that by simp_all
  have "?hs ! Suc r = lv" using rl(1) by (simp add: nth_ins_at)
  then show lv: "lv \<le> level sl" using heights [of "Suc r"] r by simp
  show "hs ! 0 = 32" by (rule z)
  show old: "1 \<le> hs ! p \<and> hs ! p \<le> level sl" if "1 \<le> p" "p \<le> length ns" for p
    using that heights [of p] heights [of "Suc p"] rl(1) len by (auto simp: nth_ins_at split: if_splits)
  show "A ! p \<noteq> x" if "p \<le> length ns" for p
    using that inj [of p "Suc r"] inj [of "Suc p" "Suc r"] r nth' [of p] nthS [of p] x by (cases "p \<le> r") auto
  show "\<exists>l. read_level h x j = Some l \<and> forward l = map_option (nth A) (nxt hs j (prv hs j r))
      \<and> span l = of_nat (dist hs j (prv hs j r)) - of_nat (r - prv hs j r)" if "j < lv" for j
  proof -
    have jl: "j < level sl" using that lv by simp
    have zj: "j < hs ! 0" using z D(6) jl by simp
    have "j < ?hs ! Suc r" using that rl(1) by (simp add: nth_ins_at)
    from lev [OF _ this] r x jl shift [of j "prv hs j r", OF nxt_prv] show ?thesis
      by (auto simp: nxt_ins_new [OF rl(1) zj] dist_ins_new(1) [OF rl(1) zj] dist_ins_new(2) [OF rl(1) zj] of_nat_diff simp del: option.map_comp)
  qed
  show "\<exists>l. read_level h (A ! prv hs j r) j = Some l
      \<and> (if j < lv then forward l = Some x \<and> span l = of_nat (r - prv hs j r + 1)
         else forward l = map_option (nth A) (nxt hs j (prv hs j r)) \<and> forward l \<noteq> Some x \<and> span l = of_nat (dist hs j (prv hs j r) + 1))"
    if "j < level sl" for j
  proof -
    have zj: "j < hs ! 0" using z D(6) that by simp
    have "j < ?hs ! prv hs j r" using prv_high [OF zj, of r] pl(1) [of j] rl(1) by (simp add: nth_ins_at)
    with lev [OF pl(2)] that obtain l where l: "read_level h (A ! prv hs j r) j = Some l"
      "forward l = map_option (nth A') (nxt ?hs j (prv hs j r))" "span l = of_nat (dist ?hs j (prv hs j r))"
      unfolding nth' [OF pl(1)] by blast
    note nx = nxt_ins_prv [OF rl(1) zj, of lv] and di = dist_ins_prv [OF rl(1) zj, of lv]
    have "forward l \<noteq> Some x" if "\<not> j < lv"
    proof -
      have "nxt hs j (prv hs j r) = Some q \<Longrightarrow> A' ! Suc q \<noteq> x" for q
        using nxt_prv [of hs j r q] inj [of "Suc q" "Suc r"] r len x by (auto simp: nxt_eq_Some)
      then show ?thesis using l(2) that by (cases "nxt hs j (prv hs j r)") (auto simp: nx)
    qed
    with l shift [of j "prv hs j r", OF nxt_prv] show ?thesis by (auto simp: nx di x simp del: option.map_comp)
  qed
  show "\<exists>l. read_level h (A ! p) i = Some l \<and> forward l = map_option (nth A) (nxt hs i p) \<and> (i < level sl \<longrightarrow> span l = of_nat (dist hs i p))"
    if p: "p \<le> length ns" and i: "i < hs ! p" and np: "\<not> (i < level sl \<and> p = prv hs i r)" for p i
  proof (cases "p \<le> r")
    case le: True
    have ip: "i < ?hs ! p" using le i rl(1) by (simp add: nth_ins_at)
    obtain l where l: "read_level h (A ! p) i = Some l" "forward l = map_option (nth A') (nxt ?hs i p)"
      "i < level sl \<longrightarrow> span l = of_nat (dist ?hs i p)" using lev [OF _ ip] p nth' [OF le] by auto
    show ?thesis
    proof (cases "i < level sl")
      case True
      have zi: "i < hs ! 0" using True z D(6) by simp
      from True np have "p \<noteq> prv hs i r" by blast
      then obtain q where q: "nxt hs i p = Some q" "q \<le> r" by (rule nxt_before_prv [OF le _ i zi rl(1)])
      with nxt_ins_before [OF q rl(1), of lv] l nth' [OF q(2)] show ?thesis by (simp add: dist_def)
    next
      case False
      then have "nxt ?hs i p = None" using nxt_above_level [OF repr] by simp
      moreover have "nxt hs i p = None" using old False len unfolding nxt_eq_None
        by (metis One_nat_def Suc_leI le_less_trans less_Suc_eq_le not_le zero_le)
      ultimately show ?thesis using l False by simp
    qed
  next
    case False
    then have gt: "r < p" "p < length hs" using p len by simp_all
    have "i < ?hs ! Suc p" using gt i by (simp add: nth_ins_at)
    from lev [OF _ this] p nthS [OF gt(1) p] shift [of i p] gt show ?thesis
      by (auto simp: nxt_ins_after dist_ins_after nxt_eq_Some simp del: option.map_comp)
  qed
qed

text \<open>The loop makes the towers those of the list without the node.\<close>

lemma delete_towers:
  fixes h :: "'s sl_heap" and x :: addr
  assumes repr: "sl_repr h sl (ins_at r x ns) (ins_at (Suc r) lv hs) xs'" and r: "r \<le> length ns" and len: "length hs = Suc (length ns)"
  defines "A \<equiv> header sl # ns"
  assumes us: "length us = level sl" "\<And>j. j < level sl \<Longrightarrow> fst (us ! j) = A ! prv hs j r"
  shows "\<exists>h'. sl_unlink_loop h x us 0 (level sl) = Some h' \<and> (\<forall>a. core_at h' a = core_at h a)
    \<and> (\<forall>i. read_level h' x i = read_level h x i)
    \<and> (\<forall>p \<le> length ns. \<forall>i < hs ! p. \<exists>l. read_level h' (A ! p) i = Some l \<and> forward l = map_option (nth A) (nxt hs i p)
          \<and> (i < level sl \<longrightarrow> span l = of_nat (dist hs i p)))"
proof -
  note B = before_delete [OF repr r len, folded A_def]
  have pl: "prv hs j r \<le> length ns" for j using prv_le [of hs j r] r by simp
  have "\<forall>j. 0 \<le> j \<and> j < 0 + level sl \<longrightarrow> j < length us \<and> fst (us ! j) \<noteq> x
      \<and> (\<exists>l. read_level h (fst (us ! j)) j = Some l \<and> (forward l = Some x \<longrightarrow> (\<exists>xl. read_level h x j = Some xl)))"
  proof (intro allI impI)
    fix j assume "0 \<le> j \<and> j < 0 + level sl"
    then have j: "j < level sl" by simp
    from B(1) [OF pl, of j] B(3) [OF j] B(2) [of j] us(1) j
    show "j < length us \<and> fst (us ! j) \<noteq> x
      \<and> (\<exists>l. read_level h (fst (us ! j)) j = Some l \<and> (forward l = Some x \<longrightarrow> (\<exists>xl. read_level h x j = Some xl)))"
      unfolding us(2) [OF j] by (cases "j < lv") auto
  qed
  from sl_unlink_loop_view [OF this] obtain h' where
    h': "sl_unlink_loop h x us 0 (level sl) = Some h'" "\<And>a. core_at h' a = core_at h a"
      "\<And>a j. read_level h' a j = (if j < level sl \<and> a = fst (us ! j) then Some (unlinked h x a j) else read_level h a j)"
    by auto
  have "\<exists>l. read_level h' (A ! p) i = Some l \<and> forward l = map_option (nth A) (nxt hs i p)
          \<and> (i < level sl \<longrightarrow> span l = of_nat (dist hs i p))" if p: "p \<le> length ns" and i: "i < hs ! p" for p i
  proof (cases "i < level sl \<and> p = prv hs i r")
    case True
    then have zi: "i < hs ! 0" using B(6) sl_reprD(6) [OF repr] by simp
    have il: "i < level sl" using True by simp
    have "of_nat (r - prv hs i r + 1) + (of_nat (dist hs i (prv hs i r)) - of_nat (r - prv hs i r) - 1) = (of_nat (dist hs i (prv hs i r)) :: u64)"
      by simp
    with B(3) [OF il] B(2) [of i] True show ?thesis
      by (cases "i < lv") (auto simp: h'(3) us(2) [OF il] unlinked_def Let_def)
  next
    case False
    have "\<not> (i < level sl \<and> A ! p = fst (us ! i))"
    proof
      assume *: "i < level sl \<and> A ! p = fst (us ! i)"
      have "distinct A" using sl_reprD(3) [OF repr] by (auto simp: A_def distinct_ins_at set_ins_at)
      with * us(2) [of i] p pl [of i] False show False by (simp add: A_def nth_eq_iff_index_eq)
    qed
    then have "read_level h' (A ! p) i = read_level h (A ! p) i" by (auto simp: h'(3))
    with B(4) [OF p i False] show ?thesis by simp
  qed
  moreover have "read_level h' x i = read_level h x i" for i using us(2) [of i] B(1) [OF pl, of i] by (auto simp: h'(3))
  ultimately show ?thesis using h'(1,2) by (intro exI [of _ h']) simp
qed


lemma delete_cores:
  fixes x :: addr
  assumes repr: "sl_repr h sl (ins_at r x ns) (ins_at (Suc r) lv hs) (ins_at r y xs)"
    and r: "r \<le> length ns" and len: "length hs = Suc (length ns)" "length xs = length ns"
  defines "A \<equiv> header sl # ns"
  assumes core: "\<And>a. a \<noteq> x \<Longrightarrow> core_at h' a =
      (if r < length ns \<and> a = ns ! r then map_option (\<lambda>(e, s, b, k). (e, s, if r = 0 then None else Some (A ! r), k)) (core_at h a) else core_at h a)"
    and p: "p \<le> length ns"
  shows "core_at h' (A ! p) =
           Some (if p = 0 then (None, None, None, 32)
                 else (Some (fst (xs ! (p - 1))), Some (snd (xs ! (p - 1))), (if p = 1 then None else Some (A ! (p - 1))), hs ! p))"
proof -
  define A' hs' xs' where "A' = ins_at (Suc r) x A" and "hs' = ins_at (Suc r) lv hs" and "xs' = ins_at r y xs"
  have A: "header sl # ins_at r x ns = A'" by (simp add: A'_def A_def ins_at_Cons)
  have A': "A' ! q = (if q < Suc r then A ! q else if q = Suc r then x else A ! (q - 1))" if "q \<le> Suc (length ns)" for q
    unfolding A'_def using that r by (intro nth_ins_at) (simp_all add: A_def)
  have xs': "xs' ! q = (if q < r then xs ! q else if q = r then y else xs ! (q - 1))" if "q \<le> length ns" for q
    unfolding xs'_def using that r len(2) by (intro nth_ins_at) simp_all
  have hs': "hs' ! q = (if q < Suc r then hs ! q else if q = Suc r then lv else hs ! (q - 1))" if "q \<le> Suc (length ns)" for q
    unfolding hs'_def using that r len(1) by (intro nth_ins_at) simp_all
  have old: "core_at h (A' ! q) = Some (if q = 0 then (None, None, None, 32)
        else (Some (fst (xs' ! (q - 1))), Some (snd (xs' ! (q - 1))), (if q = 1 then None else Some (A' ! (q - 1))), hs' ! q))"
    if "q \<le> Suc (length ns)" for q
    using sl_repr_core [OF repr] that by (simp add: A hs'_def xs'_def)
  have ne: "A ! p \<noteq> x" using before_delete(1) [OF repr r len(1) p] by (simp add: A_def)
  have dist: "distinct A" using sl_reprD(3) [OF repr] by (auto simp: A_def distinct_ins_at set_ins_at)
  then have nx: "r < length ns \<Longrightarrow> A ! p = ns ! r \<longleftrightarrow> p = Suc r"
    using nth_eq_iff_index_eq [OF dist, of p "Suc r"] p by (simp add: A_def)
  show ?thesis
  proof (cases "p \<le> r")
    case True
    then have "A' ! p = A ! p" "hs' ! p = hs ! p" "p > 0 \<Longrightarrow> A' ! (p - 1) = A ! (p - 1)" "p > 0 \<Longrightarrow> xs' ! (p - 1) = xs ! (p - 1)"
      using r A' [of p] A' [of "p - 1"] hs' [of p] xs' [of "p - 1"] by auto
    then show ?thesis using True r old [of p] nx core [OF ne] by auto
  next
    case False
    then have "A' ! Suc p = A ! p" "hs' ! Suc p = hs ! p" "xs' ! p = xs ! (p - 1)" "p \<noteq> Suc r \<Longrightarrow> A' ! p = A ! (p - 1)"
      using p A' [of p] A' [of "Suc p"] hs' [of "Suc p"] xs' [of p] by auto
    then show ?thesis using False p old [of "Suc p"] nx core [OF ne] by (cases "p = Suc r") auto
  qed
qed

text \<open>Empty levels are dropped.\<close>

lemma drop_levels_ok:
  assumes "sl_repr h sl ns hs xs"
  shows "\<exists>lv. drop_levels h (header sl) (level sl) = Some lv \<and> sl_repr h (sl\<lparr>level := lv\<rparr>) ns hs xs"
  using assms
proof (induction "level sl" arbitrary: sl rule: less_induct)
  case less
  note D = sl_reprD [OF less.prems]
  show ?case
  proof (cases "level sl > 1")
    case False
    then show ?thesis using less.prems by (subst drop_levels.simps) simp
  next
    case True
    have lt: "level sl - 1 < hs ! 0" using D(4,6) True by simp
    from sl_repr_level [OF less.prems _ this] obtain l where
      l: "read_level h (header sl) (level sl - 1) = Some l" "forward l = map_option (nth (header sl # ns)) (nxt hs (level sl - 1) 0)"
      using D(4) lt by auto
    show ?thesis
    proof (cases "nxt hs (level sl - 1) 0")
      case None
      let ?sl = "sl\<lparr>level := level sl - 1\<rparr>"
      have "hs ! p \<le> level sl - 1" if "1 \<le> p" "p \<le> length ns" for p
        using None that D(1) by (auto simp: nxt_eq_None not_less)
      moreover have "\<exists>l. read_level h ((header sl # ns) ! p) i = Some l \<and> forward l = map_option (nth (header sl # ns)) (nxt hs i p)
          \<and> (i < level sl - 1 \<longrightarrow> span l = of_nat (dist hs i p))" if "p \<le> length ns" "i < hs ! p" for p i
      proof -
        have "i < level sl - 1 \<longrightarrow> i < level sl" by (intro impI) linarith
        with sl_repr_level [OF less.prems that] show ?thesis by blast
      qed
      moreover have "1 \<le> level sl - 1" "level sl - 1 \<le> 32" using True D(6) by linarith+
      ultimately have "sl_repr h ?sl ns hs xs" using less.prems unfolding sl_repr_def by simp
      with less.hyps [of ?sl] True obtain lv where "drop_levels h (header sl) (level sl - 1) = Some lv" "sl_repr h (sl\<lparr>level := lv\<rparr>) ns hs xs"
        by auto
      then show ?thesis using True l None by (subst drop_levels.simps) auto
    next
      case (Some q)
      then show ?thesis using True l less.prems by (subst drop_levels.simps) simp
    qed
  qed
qed


lemma slDeleteNode_repr:
  fixes h :: "'s sl_heap" and x :: addr
  assumes repr: "sl_repr h sl (ins_at r x ns) (ins_at (Suc r) lv hs) (ins_at r y xs)"
    and r: "r \<le> length ns" and len: "length hs = Suc (length ns)" "length xs = length ns"
    and us: "length us = level sl" "\<And>j. j < level sl \<Longrightarrow> fst (us ! j) = (header sl # ns) ! prv hs j r"
  shows "\<exists>h' sl'. slDeleteNode h sl x us = Some (h', sl') \<and> sl_repr h' sl' ns hs xs \<and> sl_cmp sl' = sl_cmp sl \<and> x \<notin> set (header sl # ns)
    \<and> header sl' = header sl \<and> (\<exists>n. h' x = Some n \<and> score n = Some (snd y)) \<and> (\<forall>a. h' a = None \<longleftrightarrow> h a = None)"
proof -
  let ?A = "header sl # ns"
  note D = sl_reprD [OF repr] and B = before_delete [OF repr r len(1)]
  obtain h1 where h1: "sl_unlink_loop h x us 0 (level sl) = Some h1" "\<And>a. core_at h1 a = core_at h a"
    "\<And>i. read_level h1 x i = read_level h x i"
    "\<And>p i. p \<le> length ns \<Longrightarrow> i < hs ! p \<Longrightarrow> \<exists>l. read_level h1 (?A ! p) i = Some l \<and> forward l = map_option (nth ?A) (nxt hs i p)
          \<and> (i < level sl \<longrightarrow> span l = of_nat (dist hs i p))"
    using delete_towers [OF repr r len(1) us] by blast
  have x: "(header sl # ins_at r x ns) ! Suc r = x" "ins_at r y xs ! r = y" using r len(2) by (simp_all add: nth_ins_at)
  have hx: "ins_at (Suc r) lv hs ! Suc r = lv" "1 \<le> lv"
    using sl_repr_height(1) [OF repr, of "Suc r"] r len(1) by (simp_all add: nth_ins_at)
  have bx: "(header sl # ins_at r x ns) ! r = ?A ! r" using r by (cases r) (simp_all add: nth_ins_at)
  define b where "b = (if r = 0 then None else Some (?A ! r))"
  have core_x: "core_at h x = Some (Some (fst y), Some (snd y), b, lv)"
    using sl_repr_core [OF repr, of "Suc r"] r x bx hx(1) by (auto simp: b_def)
  then obtain xn where xn: "h1 x = Some xn" "backward xn = b" using h1(2) [of x] by (auto simp: core_at_def)
  have nx0: "nxt hs 0 r = (if r < length ns then Some (Suc r) else None)" "prv hs 0 r = r"
    using B(6,7) r len(1) by (auto simp: nxt_eq_None nxt_eq_Some Suc_le_eq, cases r, auto)
  obtain l where l: "read_level h1 x 0 = Some l" "forward l = (if r < length ns then Some (ns ! r) else None)"
    using B(2) [of 0] hx(2) nx0 by (auto simp: h1(3))
  have "\<exists>e s b k. core_at h1 z = Some (e, s, b, k)" if z: "forward l = Some z" for z
  proof -
    have "r < length ns" "z = (header sl # ins_at r x ns) ! Suc (Suc r)" using z l(2) by (auto simp: nth_ins_at split: if_splits)
    with sl_repr_core [OF repr, of "Suc (Suc r)"] show ?thesis by (auto simp: h1(2))
  qed
  from fix_backward_ok [OF l(1) this, of sl b b] obtain h2 where
    h2: "fix_backward h1 sl x b b = Some (h2, if forward l = None then sl\<lparr>tail := b\<rparr> else sl)"
      "\<And>c j. read_level h2 c j = read_level h1 c j"
      "\<And>c. core_at h2 c = (if forward l = Some c then map_option (\<lambda>(e, s, b', k). (e, s, b, k)) (core_at h1 c) else core_at h1 c)"
    by blast
  define sl1 where "sl1 = (if forward l = None then sl\<lparr>tail := b\<rparr> else sl)\<lparr>sl_length := sl_length sl - 1\<rparr>"
  have sl1: "header sl1 = header sl" "level sl1 = level sl" "sl_cmp sl1 = sl_cmp sl" "sl_length sl1 = of_nat (length ns)"
    "tail sl1 = (if ns = [] then None else Some (last ns))"
    using D(7,8) l(2) r by (auto simp: sl1_def b_def ins_at_last last_conv_nth nth_Cons' split: if_splits)
  have core: "core_at h2 a = (if r < length ns \<and> a = ns ! r then map_option (\<lambda>(e, s, b', k). (e, s, if r = 0 then None else Some (?A ! r), k)) (core_at h a)
      else core_at h a)" for a by (simp add: h2(3) h1(2) l(2) b_def)
  have dist: "distinct ?A" "x \<notin> set ?A" using D(3) by (auto simp: distinct_ins_at set_ins_at)
  have "sl_repr h2 sl1 ns hs xs"
    unfolding sl_repr_def sl1 using dist(1) len B(6,7) D(5,6) delete_cores [OF repr r len core] h1(4) by (simp add: h2(2))
  from drop_levels_ok [OF this] obtain lv' where lv': "drop_levels h2 (header sl) (level sl) = Some lv'"
    "sl_repr h2 (sl1\<lparr>level := lv'\<rparr>) ns hs xs" unfolding sl1 by blast
  have "slDeleteNode h sl x us = Some (h2, sl1\<lparr>level := lv'\<rparr>)"
    using h1(1) xn h2(1) lv'(1) by (auto simp: slDeleteNode_def sl1_def split: if_splits)
  moreover have "\<exists>n. h2 x = Some n \<and> score n = Some (snd y)"
    using core [of x] core_x dist(2) r by (auto simp: core_at_def in_set_conv_nth split: if_splits)
  moreover have "h2 a = None \<longleftrightarrow> h a = None" for a unfolding core_at_None [symmetric] core by auto
  ultimately show ?thesis using lv'(2) dist(2) sl1 by (intro exI [of _ h2] exI [of _ "sl1\<lparr>level := lv'\<rparr>"]) simp
qed

lemma sl_repr_free: "sl_repr h sl ns hs xs \<Longrightarrow> x \<notin> set (header sl # ns) \<Longrightarrow> sl_repr (h(x := None)) sl ns hs xs"
proof -
  assume repr: "sl_repr h sl ns hs xs" and x: "x \<notin> set (header sl # ns)"
  have "(header sl # ns) ! p \<noteq> x" if "p \<le> length ns" for p using x that nth_mem [of p "header sl # ns"] by auto
  then have "core_at (h(x := None)) ((header sl # ns) ! p) = core_at h ((header sl # ns) ! p)"
    "read_level (h(x := None)) ((header sl # ns) ! p) i = read_level h ((header sl # ns) ! p) i" if "p \<le> length ns" for p i
    using that by (simp_all add: core_at_def read_level_def)
  with repr show ?thesis unfolding sl_repr_def by auto
qed


section \<open>The deletion that is called\<close>

text \<open>For a node of one level the misplaced write hits the right pointer.\<close>

lemma write_write: "write_level h a i l = Some h1 \<Longrightarrow> write_level h1 a i l' = write_level h a i l'"
  by (auto simp: write_level_def put_at_def bind_eq_Some_conv split: if_splits)

lemma unlink_level_0: "unlink_level h x us 0 = sl_unlink_level h x us 0"
proof (cases "get_at us 0")
  case (Some ur)
  show ?thesis
  proof (cases "read_level h (fst ur) 0")
    case (Some ul)
    have "do { h1 \<leftarrow> write_level h (fst ur) 0 l; ul0 \<leftarrow> read_level h1 (fst ur) 0; write_level h1 (fst ur) 0 (ul0\<lparr>forward := f\<rparr>) }
        = write_level h (fst ur) 0 (l\<lparr>forward := f\<rparr>)" for l f
    proof -
      obtain h1 where h1: "write_level h (fst ur) 0 l = Some h1" "\<And>b. core_at h1 b = core_at h b"
        "\<And>b j. read_level h1 b j = (if b = fst ur \<and> j = 0 then Some l else read_level h b j)"
        using write_level_ok [OF Some] by blast
      then show ?thesis using write_write [OF h1(1)] by simp
    qed
    then show ?thesis using Some \<open>get_at us 0 = Some ur\<close>
      by (simp add: unlink_level_def sl_unlink_level_def case_prod_beta)
  qed (use Some in \<open>simp add: unlink_level_def sl_unlink_level_def case_prod_beta\<close>)
qed (simp add: unlink_level_def sl_unlink_level_def)

lemma unlink_level_other:
  "(\<And>l. read_level h (fst (us ! i)) i = Some l \<Longrightarrow> forward l \<noteq> Some x) \<Longrightarrow> unlink_level h x us i = sl_unlink_level h x us i"
  by (cases "read_level h (fst (us ! i)) i") (auto simp: unlink_level_def sl_unlink_level_def get_at_def case_prod_beta)

lemma write_level_other: "write_level h u i l = Some h1 \<Longrightarrow> j \<noteq> i \<Longrightarrow> read_level h1 a j = read_level h a j"
  by (auto simp: write_level_def read_level_def put_at_def get_at_def bind_eq_Some_conv split: if_splits)

lemma sl_unlink_level_other: "sl_unlink_level h x us i = Some h1 \<Longrightarrow> j \<noteq> i \<Longrightarrow> read_level h1 a j = read_level h a j"
  unfolding sl_unlink_level_def
  by (auto simp: bind_eq_Some_conv write_level_other split: if_splits prod.splits)

lemma unlink_loop_same:
  assumes "\<And>j l. 0 < j \<Longrightarrow> i \<le> j \<Longrightarrow> j < i + k \<Longrightarrow> read_level h (fst (us ! j)) j = Some l \<Longrightarrow> forward l \<noteq> Some x"
  shows "unlink_loop h x us i k = sl_unlink_loop h x us i k"
  using assms
proof (induction k arbitrary: i h)
  case (Suc k)
  have step: "unlink_level h x us i = sl_unlink_level h x us i"
    using Suc.prems [of i] unlink_level_0 [of h x us] unlink_level_other [of h us i x] by (cases "i = 0") auto
  have "unlink_loop h1 x us (Suc i) k = sl_unlink_loop h1 x us (Suc i) k" if h1: "sl_unlink_level h x us i = Some h1" for h1
  proof (rule Suc.IH)
    fix j l assume j: "0 < j" "Suc i \<le> j" "j < Suc i + k" "read_level h1 (fst (us ! j)) j = Some l"
    have "read_level h1 a j = read_level h a j" for a using sl_unlink_level_other [OF h1, of j a] j(2) by simp
    with Suc.prems [of j l] j show "forward l \<noteq> Some x" by simp
  qed
  with step show ?case by (cases "sl_unlink_level h x us i") auto
qed simp

text \<open>In general it only touches level 0: all pointers to the node above stay.\<close>

lemma unlink_level_view:
  assumes "i < length us" "fst (us ! i) \<noteq> x" "read_level h (fst (us ! i)) i = Some l" "read_level h (fst (us ! i)) 0 = Some l0"
    "forward l = Some x \<longrightarrow> (\<exists>xl. read_level h x i = Some xl)"
  shows "\<exists>h'. unlink_level h x us i = Some h' \<and> (\<forall>a. core_at h' a = core_at h a) \<and> (\<forall>j. read_level h' x j = read_level h x j)
    \<and> (\<forall>a j. 0 < j \<longrightarrow> map_option forward (read_level h' a j) = map_option forward (read_level h a j))
    \<and> (\<forall>a j. read_level h' a j = None \<longleftrightarrow> read_level h a j = None)"
proof (cases "forward l = Some x")
  case True
  then obtain xl where xl: "read_level h x i = Some xl" using assms(5) by blast
  obtain h1 where h1: "write_level h (fst (us ! i)) i (l\<lparr>span := span l + (span xl - 1)\<rparr>) = Some h1" "\<And>b. core_at h1 b = core_at h b"
    "\<And>b j. read_level h1 b j = (if b = fst (us ! i) \<and> j = i then Some (l\<lparr>span := span l + (span xl - 1)\<rparr>) else read_level h b j)"
    using write_level_ok [OF assms(3)] by blast
  obtain l1 where l1: "read_level h1 (fst (us ! i)) 0 = Some l1" using assms(4) by (cases "i = 0") (simp_all add: h1(3))
  obtain h2 where h2: "write_level h1 (fst (us ! i)) 0 (l1\<lparr>forward := forward xl\<rparr>) = Some h2" "\<And>b. core_at h2 b = core_at h1 b"
    "\<And>b j. read_level h2 b j = (if b = fst (us ! i) \<and> j = 0 then Some (l1\<lparr>forward := forward xl\<rparr>) else read_level h1 b j)"
    using write_level_ok [OF l1] by blast
  have "unlink_level h x us i = Some h2"
    using assms(1,3) True xl h1(1) l1 h2(1) by (simp add: unlink_level_def get_at_def case_prod_beta)
  moreover have "read_level h2 x j = read_level h x j" for j using assms(2) by (simp add: h2(3) h1(3))
  moreover have "map_option forward (read_level h2 a j) = map_option forward (read_level h a j)" if "0 < j" for a j
    using that assms(3) by (simp add: h2(3) h1(3))
  moreover have "read_level h2 a j = None \<longleftrightarrow> read_level h a j = None" for a j
    using assms(3,4) by (simp add: h2(3) h1(3))
  ultimately show ?thesis by (intro exI [of _ h2]) (simp add: h2(2) h1(2))
next
  case False
  obtain h1 where h1: "write_level h (fst (us ! i)) i (l\<lparr>span := span l - 1\<rparr>) = Some h1" "\<And>b. core_at h1 b = core_at h b"
    "\<And>b j. read_level h1 b j = (if b = fst (us ! i) \<and> j = i then Some (l\<lparr>span := span l - 1\<rparr>) else read_level h b j)"
    using write_level_ok [OF assms(3)] by blast
  have "unlink_level h x us i = Some h1" using assms(1,3) False h1(1) by (simp add: unlink_level_def get_at_def case_prod_beta)
  moreover have "map_option forward (read_level h1 a j) = map_option forward (read_level h a j)"
    "read_level h1 a j = None \<longleftrightarrow> read_level h a j = None" for a j
    using assms(3) by (simp_all add: h1(3))
  ultimately show ?thesis using assms(2) by (intro exI [of _ h1]) (simp add: h1(2,3))
qed

lemma unlink_loop_view:
  assumes "\<forall>j. i \<le> j \<and> j < i + k \<longrightarrow> j < length us \<and> fst (us ! j) \<noteq> x \<and> read_level h (fst (us ! j)) 0 \<noteq> None
      \<and> (\<exists>l. read_level h (fst (us ! j)) j = Some l \<and> (forward l = Some x \<longrightarrow> read_level h x j \<noteq> None))"
  shows "\<exists>h'. unlink_loop h x us i k = Some h' \<and> (\<forall>a. core_at h' a = core_at h a) \<and> (\<forall>j. read_level h' x j = read_level h x j)
    \<and> (\<forall>a j. 0 < j \<longrightarrow> map_option forward (read_level h' a j) = map_option forward (read_level h a j))"
  using assms
proof (induction k arbitrary: i h)
  case (Suc k)
  from Suc.prems have i: "i < length us" "fst (us ! i) \<noteq> x" "read_level h (fst (us ! i)) 0 \<noteq> None"
    "\<exists>l. read_level h (fst (us ! i)) i = Some l \<and> (forward l = Some x \<longrightarrow> read_level h x i \<noteq> None)" by auto
  then obtain l l0 where "read_level h (fst (us ! i)) i = Some l" "read_level h (fst (us ! i)) 0 = Some l0"
    "forward l = Some x \<longrightarrow> (\<exists>xl. read_level h x i = Some xl)" by auto
  from unlink_level_view [OF i(1,2) this] obtain h1 where h1: "unlink_level h x us i = Some h1" "\<And>a. core_at h1 a = core_at h a" "\<And>j. read_level h1 x j = read_level h x j"
    "\<And>a j. 0 < j \<Longrightarrow> map_option forward (read_level h1 a j) = map_option forward (read_level h a j)"
    "\<And>a j. read_level h1 a j = None \<longleftrightarrow> read_level h a j = None"
    by blast
  have "\<forall>j. Suc i \<le> j \<and> j < Suc i + k \<longrightarrow> j < length us \<and> fst (us ! j) \<noteq> x \<and> read_level h1 (fst (us ! j)) 0 \<noteq> None
      \<and> (\<exists>l. read_level h1 (fst (us ! j)) j = Some l \<and> (forward l = Some x \<longrightarrow> read_level h1 x j \<noteq> None))"
  proof (intro allI impI)
    fix j assume j: "Suc i \<le> j \<and> j < Suc i + k"
    then have "i \<le> j \<and> j < i + Suc k" by simp
    from Suc.prems [rule_format, OF this] obtain l where
      l: "read_level h (fst (us ! j)) j = Some l" "forward l = Some x \<longrightarrow> read_level h x j \<noteq> None"
      "j < length us" "fst (us ! j) \<noteq> x" "read_level h (fst (us ! j)) 0 \<noteq> None" by blast
    from h1(4) [of j "fst (us ! j)"] j l(1) obtain l' where "read_level h1 (fst (us ! j)) j = Some l'" "forward l' = forward l" by auto
    with l h1(3,5) show "j < length us \<and> fst (us ! j) \<noteq> x \<and> read_level h1 (fst (us ! j)) 0 \<noteq> None
      \<and> (\<exists>l. read_level h1 (fst (us ! j)) j = Some l \<and> (forward l = Some x \<longrightarrow> read_level h1 x j \<noteq> None))" by simp
  qed
  from Suc.IH [OF this] h1 show ?case by auto
qed auto


definition del_at :: "nat \<Rightarrow> 'a list \<Rightarrow> 'a list" where
  "del_at k zs = take k zs @ drop (Suc k) zs"

lemma ins_del: "k < length zs \<Longrightarrow> ins_at k (zs ! k) (del_at k zs) = zs"
  using id_take_nth_drop [of k zs] by (simp add: ins_at_def del_at_def)

lemma length_del_at: "k < length zs \<Longrightarrow> length (del_at k zs) = length zs - 1"
  by (simp add: del_at_def)

lemma drop_levels_cong:
  assumes "\<And>j. 0 < j \<Longrightarrow> map_option forward (read_level h' hdr j) = map_option forward (read_level h hdr j)"
  shows "drop_levels h' hdr lv = drop_levels h hdr lv"
proof (induction lv)
  case (Suc lv)
  show ?case
  proof (cases "0 < lv")
    case True
    with assms [of lv] Suc show ?thesis by (subst (1 2) drop_levels.simps) (auto simp: map_option_case split: option.splits)
  qed (simp add: drop_levels.simps)
qed (simp add: drop_levels.simps)

text \<open>A list and the position of one of its nodes, split for the lemmas on deletion.\<close>

lemma split_repr:
  assumes repr: "sl_repr h sl ns hs xs" and r: "r < length ns"
  shows "sl_repr h sl (ins_at r (ns ! r) (del_at r ns)) (ins_at (Suc r) (hs ! Suc r) (del_at (Suc r) hs)) (ins_at r (xs ! r) (del_at r xs))"
  "r \<le> length (del_at r ns)" "length (del_at (Suc r) hs) = Suc (length (del_at r ns))" "length (del_at r xs) = length (del_at r ns)"
  using repr r sl_reprD(1,2) [OF repr] by (simp_all add: ins_del length_del_at)

lemma us_fst:
  assumes repr: "sl_repr h sl ns hs xs" and r: "r < length ns"
  defines "us \<equiv> path (header sl # ns) hs r (level sl)"
  shows "length us = level sl" "j < level sl \<Longrightarrow> fst (us ! j) = (header sl # (del_at r ns)) ! prv (del_at (Suc r) hs) j r"
proof -
  assume j: "j < level sl"
  have "prv hs j r = prv (del_at (Suc r) hs) j r"
    using prv_ins [of r "del_at (Suc r) hs" r "hs ! Suc r" j] split_repr(2,3) [OF repr r] r sl_reprD(1) [OF repr] by (simp add: ins_del)
  moreover have "(header sl # ns) ! q = (header sl # (del_at r ns)) ! q" if "q \<le> r" for q
    using that r by (cases q) (simp_all add: del_at_def nth_append)
  ultimately show "fst (us ! j) = (header sl # (del_at r ns)) ! prv (del_at (Suc r) hs) j r" using j prv_le [of hs j r] by (simp add: us_def)
qed (simp add: us_def)

lemma deleteNode_short:
  assumes repr: "sl_repr h sl ns hs xs" and r: "r < length ns"
    and "hs ! Suc r = 1"
  defines "us \<equiv> path (header sl # ns) hs r (level sl)"
  shows "skiplistDeleteNode h sl (ns ! r) us = slDeleteNode h sl (ns ! r) us"
proof -
  note before = before_delete [OF split_repr(1-3) [OF repr r]] and us_fst = us_fst [OF repr r, folded us_def]
  have "unlink_loop h (ns ! r) us 0 (level sl) = sl_unlink_loop h (ns ! r) us 0 (level sl)"
  proof (rule unlink_loop_same)
    fix j l assume j: "0 < j" "0 \<le> j" "j < 0 + level sl" "read_level h (fst (us ! j)) j = Some l"
    then show "forward l \<noteq> Some (ns ! r)" using before(3) [of j] us_fst(2) [of j] assms(3) by auto
  qed
  then show ?thesis by (simp add: skiplistDeleteNode_def slDeleteNode_def)
qed

text \<open>A taller node stays linked at its upper levels.\<close>

lemma deleteNode_tall:
  assumes repr: "sl_repr h sl ns hs xs" and r: "r < length ns"
    and tall: "2 \<le> hs ! Suc r"
  defines "us \<equiv> path (header sl # ns) hs r (level sl)"
  shows "\<exists>h' sl' a l. skiplistDeleteNode h sl (ns ! r) us = Some (h', sl') \<and> header sl' = header sl \<and> hs ! Suc r \<le> level sl'
    \<and> a \<in> set (header sl # ns) \<and> a \<noteq> ns ! r \<and> read_level h' a (hs ! Suc r - 1) = Some l \<and> forward l = Some (ns ! r)
    \<and> (\<exists>n. h' (ns ! r) = Some n \<and> score n = Some (snd (xs ! r))) \<and> (\<forall>a. h' a = None \<longleftrightarrow> h a = None)"
proof -
  let ?x = "ns ! r" and ?lv = "hs ! Suc r"
  note D = sl_reprD [OF repr] and before = before_delete [OF split_repr(1-3) [OF repr r]] and us_fst = us_fst [OF repr r, folded us_def]
  have pl: "prv (del_at (Suc r) hs) j r \<le> length (del_at r ns)" for j using prv_le [of "del_at (Suc r) hs" j r] split_repr(2) [OF repr r] by simp
  have A: "\<exists>q \<le> length ns. (header sl # (del_at r ns)) ! prv (del_at (Suc r) hs) j r = (header sl # ns) ! q" for j
    using prv_le [of "del_at (Suc r) hs" j r] r by (intro exI [of _ "prv (del_at (Suc r) hs) j r"]) (cases "prv (del_at (Suc r) hs) j r"; simp add: del_at_def nth_append)
  have lv0: "(header sl # (del_at r ns)) ! prv (del_at (Suc r) hs) j r \<in> set (header sl # ns)" "read_level h ((header sl # (del_at r ns)) ! prv (del_at (Suc r) hs) j r) 0 \<noteq> None" for j
  proof -
    obtain q where q: "q \<le> length ns" "(header sl # (del_at r ns)) ! prv (del_at (Suc r) hs) j r = (header sl # ns) ! q" using A by blast
    then show "(header sl # (del_at r ns)) ! prv (del_at (Suc r) hs) j r \<in> set (header sl # ns)" using nth_mem [of q "header sl # ns"] by simp
    have "0 < hs ! q" using sl_repr_height(1) [OF repr, of q] D(4) q(1) by (cases q) auto
    then show "read_level h ((header sl # (del_at r ns)) ! prv (del_at (Suc r) hs) j r) 0 \<noteq> None" using sl_repr_level [OF repr q(1)] q(2) by auto
  qed
  have "\<forall>j. 0 \<le> j \<and> j < 0 + level sl \<longrightarrow> j < length us \<and> fst (us ! j) \<noteq> ?x \<and> read_level h (fst (us ! j)) 0 \<noteq> None
      \<and> (\<exists>l. read_level h (fst (us ! j)) j = Some l \<and> (forward l = Some ?x \<longrightarrow> read_level h ?x j \<noteq> None))"
  proof (intro allI impI)
    fix j assume "0 \<le> j \<and> j < 0 + level sl"
    then have j: "j < level sl" by simp
    from before(1) [OF pl, of j] before(3) [OF j] before(2) [of j] lv0(2) [of j] us_fst(1) j
    show "j < length us \<and> fst (us ! j) \<noteq> ?x \<and> read_level h (fst (us ! j)) 0 \<noteq> None
      \<and> (\<exists>l. read_level h (fst (us ! j)) j = Some l \<and> (forward l = Some ?x \<longrightarrow> read_level h ?x j \<noteq> None))"
      unfolding us_fst(2) [OF j] by (cases "j < ?lv") auto
  qed
  from unlink_loop_view [OF this] obtain h1 where
    h1: "unlink_loop h ?x us 0 (level sl) = Some h1" "\<And>a. core_at h1 a = core_at h a" "\<And>j. read_level h1 ?x j = read_level h ?x j"
      "\<And>a j. 0 < j \<Longrightarrow> map_option forward (read_level h1 a j) = map_option forward (read_level h a j)" by blast
  have "core_at h1 ?x \<noteq> None" using sl_repr_core [OF repr, of "Suc r"] r by (simp add: h1(2))
  then obtain xn where xn: "h1 ?x = Some xn" by (auto simp: core_at_None)
  have "Suc r \<le> length ns" "0 < hs ! Suc r" using tall r by simp_all
  from sl_repr_level [OF repr this] obtain l0 where
    l0: "read_level h1 ?x 0 = Some l0" "forward l0 = map_option (nth (header sl # ns)) (nxt hs 0 (Suc r))"
    unfolding nth_Cons_Suc h1(3) by blast
  have "\<exists>e s b k. core_at h1 z = Some (e, s, b, k)" if "forward l0 = Some z" for z
    using that l0(2) nxt_0 [OF repr, of "Suc r"] r sl_repr_core [OF repr, of "Suc (Suc r)"] by (auto simp: h1(2) split: if_splits)
  from fix_backward_ok [OF l0(1) this, of sl "backward xn" "backward xn"] obtain h2 where
    fix_b: "fix_backward h1 sl ?x (backward xn) (backward xn) = Some (h2, if forward l0 = None then sl\<lparr>tail := backward xn\<rparr> else sl)"
      and reads: "\<And>c j. read_level h2 c j = read_level h1 c j"
      and cores: "\<And>c. core_at h2 c = (if forward l0 = Some c then map_option (\<lambda>(e, s, b, k). (e, s, backward xn, k)) (core_at h1 c) else core_at h1 c)"
    by blast
  define sl1 where "sl1 = (if forward l0 = None then sl\<lparr>tail := backward xn\<rparr> else sl)"
  have "header sl1 = header sl" "level sl1 = level sl" by (simp_all add: sl1_def)
  note h2 = fix_b [folded sl1_def] reads cores this
  obtain lv' where lv': "drop_levels h (header sl) (level sl) = Some lv'" "?lv \<le> lv'"
    using drop_levels_ok [OF repr] sl_repr_height(2) [of h _ ns hs xs "Suc r"] r by fastforce
  have "drop_levels h2 (header sl) (level sl) = Some lv'"
    using drop_levels_cong [of h2 "header sl" h "level sl"] h1(4) lv'(1) by (simp add: h2(2))
  then have run: "skiplistDeleteNode h sl ?x us = Some (h2, sl1\<lparr>level := lv', sl_length := sl_length sl1 - 1\<rparr>)"
    using h1(1) xn h2(1,4,5) by (simp add: skiplistDeleteNode_def)
  have top: "?lv - 1 < level sl" "?lv - 1 < ?lv" "0 < ?lv - 1" using sl_repr_height(2) [OF repr, of "Suc r"] r tall by auto
  obtain l where "read_level h2 ((header sl # (del_at r ns)) ! prv (del_at (Suc r) hs) (?lv - 1) r) (?lv - 1) = Some l" "forward l = Some ?x"
    using before(3) [OF top(1)] top(2) h1(4) [OF top(3), of "(header sl # (del_at r ns)) ! prv (del_at (Suc r) hs) (?lv - 1) r"] by (auto simp: h2(2))
  moreover have "\<exists>n. h2 ?x = Some n \<and> score n = Some (snd (xs ! r))"
  proof -
    obtain e b k where "core_at h ?x = Some (e, Some (snd (xs ! r)), b, k)" using sl_repr_core [OF repr, of "Suc r"] r by auto
    then obtain b' where "core_at h2 ?x = Some (e, Some (snd (xs ! r)), b', k)" using h2(3) [of ?x] h1(2) by (auto split: if_splits)
    then show ?thesis unfolding core_at_def by auto
  qed
  moreover have "h2 a = None \<longleftrightarrow> h a = None" for a unfolding core_at_None [symmetric] h2(3) h1(2) by auto
  ultimately show ?thesis using run lv'(2) h2(4) lv0(1) [of "?lv - 1"] before(1) [OF pl, of "?lv - 1"]
    by (intro exI [of _ h2] exI [of _ "sl1\<lparr>level := lv', sl_length := sl_length sl1 - 1\<rparr>"]
      exI [of _ "(header sl # del_at r ns) ! prv (del_at (Suc r) hs) (?lv - 1) r"] exI [of _ l]) simp
qed


context skiplist_order
begin

lemma pair_zero: "pair_cmp cmp (e, s) (f, t) = 0 \<longleftrightarrow> score_cmp cmp s t = 0 \<and> strcmp e f = 0"
proof (cases "score_cmp cmp s t = 0")
  case True
  then show ?thesis by (simp add: element_second)
next
  case False
  then consider "score_cmp cmp s t < 0" | "score_cmp cmp t s < 0" using score_flip(1) [of s t] by linarith
  then have "pair_cmp cmp (e, s) (f, t) \<noteq> 0"
  proof cases
    case 1
    then show ?thesis using score_first [of s t e f] by simp
  next
    case 2
    then show ?thesis using score_first [of t s f e] pair_sym [of "(e, s)" "(f, t)"] pair_sym [of "(f, t)" "(e, s)"] by linarith
  qed
  with False show ?thesis by simp
qed

text \<open>An equal pair, if there is one, is at the position where the search ends.\<close>

lemma equal_at_pos:
  assumes "sl_sorted cmp xs" "y \<in> set xs" "pair_cmp cmp y x = 0"
  shows "pos_of cmp x xs < length xs \<and> pair_cmp cmp (xs ! pos_of cmp x xs) x = 0"
proof -
  obtain k where k: "k < length xs" "xs ! k = y" using assms(2) by (auto simp: in_set_conv_nth)
  let ?r = "pos_of cmp x xs"
  have "\<not> k < ?r" using before_pos [OF assms(1) k(1), of x] k(2) assms(3) by simp
  then have r: "?r \<le> k" "?r < length xs" using k(1) by simp_all
  then have "\<not> pair_cmp cmp (xs ! ?r) x < 0" using before_pos [OF assms(1), of ?r x] by simp
  moreover have "pair_cmp cmp (xs ! ?r) y \<le> 0"
    using assms(1) r(1) k pair_sym [of y y] by (cases "?r = k") (auto simp: sl_sorted_def sorted_wrt_iff_nth_less)
  then have "pair_cmp cmp (xs ! ?r) x \<le> 0" by (rule pair_trans) (simp add: assms(3))
  ultimately show ?thesis using r(2) by simp
qed

lemma delete_search:
  fixes bs v
  assumes "sl_repr h sl ns hs xs" "sl_cmp sl = cmp" "sl_sorted cmp xs"
  defines "r \<equiv> pos_of cmp (bs, v) xs"
  shows "skipListDelete h sl (Some v) (Some bs) node =
    (if r < length ns \<and> pair_cmp cmp (xs ! r) (bs, v) = 0
     then do {
       (h, sl) \<leftarrow> skiplistDeleteNode h sl (ns ! r) (path (header sl # ns) hs r (level sl));
       (if node then do { n \<leftarrow> h (ns ! r); Some (h, sl, score n) }
        else do { (h, s) \<leftarrow> skipListFreeNode h (ns ! r); Some (h, sl, s) })
     }
     else Some (h, sl, None))"
proof -
  note up = holds_before [OF assms(1-3), of v bs, folded r_def]
  have r: "r \<le> length ns" using up by (simp add: holds_upto_def)
  have "0 < hs ! r" using sl_repr_height(1) [OF assms(1), of r] sl_reprD(4) [OF assms(1)] r by (cases r) auto
  then obtain l where l: "read_level h ((header sl # ns) ! r) 0 = Some l" "forward l = (if r < length ns then Some (ns ! r) else None)"
    using sl_repr_level [OF assms(1) r, of 0] nxt_0 [OF assms(1) r] by (auto split: if_splits)
  note run = skipListDelete_def descend_header [OF assms(1) up] last_x_path [OF assms(1) r] l(1) bind.bind_lunit
  show ?thesis
  proof (cases "r < length ns")
    case False
    then show ?thesis using l(2) unfolding run by simp
  next
    case True
    obtain n where n: "h (ns ! r) = Some n" "ele n = Some (fst (xs ! r))" "score n = Some (snd (xs ! r))"
      using sl_repr_node [OF assms(1), of "Suc r"] True by auto
    have "call_cmp sl None (score n) None (Some v) = Some (score_cmp cmp (snd (xs ! r)) v)"
      using n assms(2) by (simp add: call_cmp_def score_cmp_def)
    moreover have "pair_cmp cmp (xs ! r) (bs, v) = 0 \<longleftrightarrow> score_cmp cmp (snd (xs ! r)) v = 0 \<and> strcmp (fst (xs ! r)) bs = 0"
      using pair_zero [of "fst (xs ! r)" "snd (xs ! r)" bs v] by simp
    ultimately show ?thesis using l(2) True n unfolding run by simp
  qed
qed

end

section \<open>Freeing a list\<close>

lemma zslFreeNode_eq: "zslFreeNode h a = map_option fst (skipListFreeNode h a)"
  by (cases "h a") (simp_all add: zslFreeNode_def skipListFreeNode_def)

lemma free_loop_ok:
  assumes repr: "sl_repr h sl ns hs xs"
  shows "p \<le> length ns \<Longrightarrow> (\<And>q. p \<le> q \<Longrightarrow> q < length ns \<Longrightarrow> h' (ns ! q) = h (ns ! q)) \<Longrightarrow>
    free_loop h' (if p < length ns then Some (ns ! p) else None)
      = Some (h' |` (- set (drop p ns)), map (\<lambda>(_, s). Some s) (drop p xs))"
proof (induction "length ns - p" arbitrary: p h')
  case 0
  then have "drop p ns = []" "drop p xs = []" "\<not> p < length ns" using sl_reprD(2) [OF repr] by simp_all
  then show ?case by (subst free_loop.simps) (simp add: restrict_map_def)
next
  case (Suc k)
  then have p: "p < length ns" by simp
  note D = sl_reprD [OF repr]
  obtain n where n: "h (ns ! p) = Some n" "score n = Some (snd (xs ! p))" using sl_repr_node [OF repr, of "Suc p"] p by auto
  have "0 < hs ! Suc p" "Suc p \<le> length ns" using sl_repr_height(1) [OF repr, of "Suc p"] p by simp_all
  from sl_repr_level [OF repr this(2,1)] obtain l where l: "read_level h (ns ! p) 0 = Some l"
    "forward l = (if Suc p < length ns then Some (ns ! Suc p) else None)"
    using nxt_0 [OF repr, of "Suc p"] p by (auto split: if_splits)
  have h': "h' (ns ! p) = Some n" using Suc.prems(2) [of p] p n(1) by simp
  then have "read_level h' (ns ! p) 0 = Some l" using l(1) n(1) by (simp add: read_level_def)
  moreover have "free_loop (h'(ns ! p := None)) (forward l)
      = Some ((h'(ns ! p := None)) |` (- set (drop (Suc p) ns)), map (\<lambda>(_, s). Some s) (drop (Suc p) xs))"
    unfolding l(2)
  proof (rule Suc.hyps(1))
    fix q assume "Suc p \<le> q" "q < length ns"
    then show "(h'(ns ! p := None)) (ns ! q) = h (ns ! q)" using Suc.prems(2) [of q] D(3) p by (simp add: nth_eq_iff_index_eq)
  qed (use Suc.hyps(2) p in simp_all)
  moreover have "(h'(ns ! p := None)) |` (- set (drop (Suc p) ns)) = h' |` (- set (drop p ns))"
    using p by (auto simp: restrict_map_def fun_eq_iff simp flip: Cons_nth_drop_Suc)
  moreover have "map (\<lambda>(_, s). Some s) (drop p xs) = Some (snd (xs ! p)) # map (\<lambda>(_, s). Some s) (drop (Suc p) xs)"
    using p D(2) by (simp add: case_prod_beta flip: Cons_nth_drop_Suc)
  ultimately show ?case using p h' n(2) by (subst free_loop.simps) (simp add: skipListFreeNode_def)
qed

text \<open>All nodes of the list are freed, each once, nothing else is, and every score is handed to the caller's function.\<close>

lemma skipListFree_ok:
  assumes repr: "sl_repr h sl ns hs xs"
  shows "skipListFree h sl = Some (h |` (- set (header sl # ns)), map (\<lambda>(_, s). Some s) xs)"
proof -
  have "0 < hs ! 0" using sl_reprD(4) [OF repr] by simp
  from sl_repr_level [OF repr _ this] obtain l where l: "read_level h (header sl) 0 = Some l"
    "forward l = (if 0 < length ns then Some (ns ! 0) else None)"
    using nxt_0 [OF repr, of 0] by (auto split: if_splits)
  have "free_loop (h(header sl := None)) (forward l) = Some ((h(header sl := None)) |` (- set ns), map (\<lambda>(_, s). Some s) xs)"
    unfolding l(2)
  proof (rule free_loop_ok [OF repr, of 0, unfolded drop_0])
    fix q assume "q < length ns"
    then have "ns ! q \<noteq> header sl" using sl_reprD(3) [OF repr] nth_mem [of q ns] by (metis distinct.simps(2))
    then show "(h(header sl := None)) (ns ! q) = h (ns ! q)" by simp
  qed simp
  moreover have "(h(header sl := None)) |` (- set ns) = h |` (- set (header sl # ns))" by (auto simp: restrict_map_def)
  ultimately show ?thesis using l(1) by (simp add: skipListFree_def)
qed

section \<open>Properties\<close>

text \<open>The client of a list that only grows.\<close>

fun sl_inserts :: "'s sl_heap \<Rightarrow> 's skiplist \<Rightarrow> (addr \<times> (nat \<Rightarrow> u64) \<times> byte list \<times> 's) list \<Rightarrow> ('s sl_heap \<times> 's skiplist) option" where
  "sl_inserts h sl [] = Some (h, sl)"
| "sl_inserts h sl ((new, rnd, bs, v) # ops) =
     do { (h, sl) \<leftarrow> skipListInsert h sl new rnd (Some v) (Some bs); sl_inserts h sl ops }"

lemma random_level_loop_ok:
  "(\<forall>i < k. rnd (j + i) AND 0xFFFF \<le> 16383) \<Longrightarrow> \<not> rnd (j + k) AND 0xFFFF \<le> 16383 \<Longrightarrow> random_level_loop rnd j lv = Some (lv + k)"
proof (induction k arbitrary: j lv)
  case 0
  then show ?case by (subst random_level_loop.simps) simp
next
  case (Suc k)
  have "random_level_loop rnd (j + 1) (lv + 1) = Some (lv + 1 + k)"
    using Suc.prems by (intro Suc.IH) (auto dest: spec [of _ "Suc _"])
  then show ?case using Suc.prems(1) by (subst random_level_loop.simps) (auto dest: spec [of _ 0])
qed

lemma random_level_range:
  assumes "\<exists>k. 16383 < rnd k AND 0xFFFF"
  shows "\<exists>lv. skipListRandomLevel rnd = Some lv \<and> 1 \<le> lv \<and> lv \<le> 32"
proof -
  define k where "k = (LEAST k. 16383 < rnd k AND 0xFFFF)"
  have "16383 < rnd k AND 0xFFFF" unfolding k_def using assms by (rule LeastI_ex)
  moreover have "rnd i AND 0xFFFF \<le> 16383" if "i < k" for i using not_less_Least that by (metis k_def not_le)
  ultimately have "random_level_loop rnd 0 1 = Some (1 + k)" by (intro random_level_loop_ok) auto
  then show ?thesis by (simp add: skipListRandomLevel_def)
qed

lemma mset_ins_at: "mset (ins_at k y zs) = add_mset y (mset zs)"
proof -
  have "mset (take k zs) + mset (drop k zs) = mset zs" by (metis append_take_drop_id mset_append)
  then show ?thesis by (simp add: ins_at_def)
qed

context skiplist_order
begin

lemma inserts_ok:
  assumes "sl_repr h sl ns hs xs" "sl_cmp sl = cmp" "sl_sorted cmp xs" "length ns + length ops < 2 ^ 31"
    "distinct (map fst ops)" "\<forall>(new, rnd, _) \<in> set ops. h new = None \<and> (\<exists>k. 16383 < rnd k AND 0xFFFF)"
  shows "\<exists>h' sl' ns' hs' xs'. sl_inserts h sl ops = Some (h', sl') \<and> sl_repr h' sl' ns' hs' xs' \<and> sl_cmp sl' = cmp
    \<and> sl_sorted cmp xs' \<and> mset xs' = mset xs + mset (map (\<lambda>(_, _, x). x) ops)"
  using assms
proof (induction ops arbitrary: h sl ns hs xs)
  case Nil
  show ?case using Nil.prems(1-3) by (intro exI [of _ h] exI [of _ sl] exI [of _ ns] exI [of _ hs] exI [of _ xs]) simp
next
  case (Cons op ops)
  obtain new rnd bs v where op: "op = (new, rnd, bs, v)" by (cases op)
  obtain lv where lv: "skipListRandomLevel rnd = Some lv" "1 \<le> lv" "lv \<le> 32"
    using random_level_range [of rnd] Cons.prems(6) by (auto simp: op)
  let ?r = "pos_of cmp (bs, v) xs"
  obtain h1 sl1 where ins: "skipListInsert h sl new rnd (Some v) (Some bs) = Some (h1, sl1)" "sl_cmp sl1 = cmp"
    "sl_repr h1 sl1 (ins_at ?r new ns) (ins_at (Suc ?r) lv hs) (ins_at ?r (bs, v) xs)" "\<forall>a. h1 a = None \<longleftrightarrow> h a = None \<and> a \<noteq> new"
    using insert_ok [OF Cons.prems(1-3) _ _ lv, where new = new and bs = bs and v = v] Cons.prems(4,6) by (auto simp: op)
  have "\<forall>(new', rnd, _) \<in> set ops. h1 new' = None \<and> (\<exists>k. 16383 < rnd k AND 0xFFFF)"
    using Cons.prems(5,6) ins(4) by (force simp: op)
  moreover have "length (ins_at ?r new ns) + length ops < 2 ^ 31" "distinct (map fst ops)" using Cons.prems(4,5) by (simp_all add: op)
  ultimately obtain h' sl' ns' hs' xs' where "sl_inserts h1 sl1 ops = Some (h', sl')" "sl_repr h' sl' ns' hs' xs'" "sl_cmp sl' = cmp"
    "sl_sorted cmp xs'" "mset xs' = mset (ins_at ?r (bs, v) xs) + mset (map (\<lambda>(_, _, x). x) ops)"
    using Cons.IH [OF ins(3,2) sorted_insert [OF Cons.prems(3)]] by blast
  then show ?case using ins(1) by (auto simp: op mset_ins_at)
qed

end

text \<open>A new list, and the random numbers that give a tower of one and of two levels.\<close>

definition demo :: "int sl_heap \<times> int skiplist" where
  "demo = skipListNew Map.empty 0 doubleComparator"

definition short :: "nat \<Rightarrow> u64" where
  "short k = 0xFFFF"

definition tall :: "nat \<Rightarrow> u64" where
  "tall k = (if k = 0 then 0 else 0xFFFF)"

lemma short_ends: "\<exists>k. 16383 < short k AND 0xFFFF"
  by (simp add: short_def)

lemma tall_ends: "\<exists>k. 16383 < tall k AND 0xFFFF"
  by (rule exI [of _ 1]) (simp add: tall_def)

lemma demo_levels: "skipListRandomLevel short = Some 1" "skipListRandomLevel tall = Some 2"
  by code_simp+

lemma demo_insert:
  "\<exists>h sl. skipListInsert (fst demo) (snd demo) 1 short (Some 5) (Some [97]) = Some (h, sl) \<and> sl_cmp sl = doubleComparator
     \<and> sl_repr h sl [1] [32, 1] [([97], 5)]"
  "\<exists>h sl. skipListInsert (fst demo) (snd demo) 1 tall (Some 5) (Some [97]) = Some (h, sl) \<and> sl_cmp sl = doubleComparator
     \<and> sl_repr h sl [1] [32, 2] [([97], 5)]"
proof -
  have "skipListNew Map.empty 0 doubleComparator = (fst demo, snd demo)" by (simp add: demo_def)
  note new = skipListNew_repr [OF this]
  have "sl_cmp (snd demo) = doubleComparator" "sl_sorted doubleComparator ([] :: (byte list \<times> int) list)" "fst demo 1 = None"
    by (simp_all add: demo_def skipListNew_def sl_sorted_def)
  note ins = double.insert_ok [OF new this(1,2) _ this(3), where bs = "[97]" and v = 5]
  note demo = ins [OF _ demo_levels(1)] ins [OF _ demo_levels(2)]
  show "\<exists>h sl. skipListInsert (fst demo) (snd demo) 1 short (Some 5) (Some [97]) = Some (h, sl) \<and> sl_cmp sl = doubleComparator
     \<and> sl_repr h sl [1] [32, 1] [([97], 5)]" 
    using demo(1) by (auto simp: ins_at_def pos_of_def)
  show "\<exists>h sl. skipListInsert (fst demo) (snd demo) 1 tall (Some 5) (Some [97]) = Some (h, sl) \<and> sl_cmp sl = doubleComparator
     \<and> sl_repr h sl [1] [32, 2] [([97], 5)]" 
    using demo(2) by (auto simp: ins_at_def pos_of_def)
qed

lemmas demo_simps = pos_of_def pair_cmp_def score_cmp_def doubleComparator_def sl_sorted_def in_range_def above_min_def below_max_def
  del_at_def

text \<open>C23. Inserting pairs into a new skiplist, for every outcome of the random levels, gives a well-formed list: all
  express lanes link the towers that are high enough, the spans are the distances, the backward pointers and the
  tail are right, and the pairs are sorted and exactly those inserted. No bad pointer is followed.\<close>

theorem skiplist_inserts_sorted:
  assumes "skiplist_order cmp" "skipListNew h hdr cmp = (h0, sl0)" "length ops < 2 ^ 31" "distinct (map fst ops)"
    "\<forall>(new, rnd, _) \<in> set ops. h new = None \<and> new \<noteq> hdr \<and> (\<exists>k. 16383 < rnd k AND 0xFFFF)"
  shows "\<exists>h' sl' ns hs xs. sl_inserts h0 sl0 ops = Some (h', sl') \<and> sl_repr h' sl' ns hs xs
    \<and> sl_sorted cmp xs \<and> mset xs = mset (map (\<lambda>(_, _, x). x) ops)"
proof -
  have "sl_cmp sl0 = cmp" "\<And>a. a \<noteq> hdr \<Longrightarrow> h0 a = h a" using assms(2) by (auto simp: skipListNew_def)
  moreover have "sl_sorted cmp []" by (simp add: sl_sorted_def)
  moreover have "\<forall>(new, rnd, _) \<in> set ops. h0 new = None \<and> (\<exists>k. 16383 < rnd k AND 0xFFFF)"
    using assms(5) calculation(2) by fastforce
  ultimately show ?thesis
    using skiplist_order.inserts_ok [OF assms(1) skipListNew_repr [OF assms(2)], of ops] assms(3,4) by (auto simp: add.commute) blast
qed

theorem skiplist_inserts_sorted_witness:
  "\<exists>h' sl' ns hs xs. sl_inserts (fst demo) (snd demo) [(1, tall, [98], 7), (2, short, [97], 3), (3, tall, [99], 3)] = Some (h', sl')
    \<and> sl_repr h' sl' ns hs xs \<and> sl_sorted doubleComparator xs \<and> mset xs = {#([98], 7), ([97], 3), ([99], 3)#}"
  using skiplist_inserts_sorted [OF double.skiplist_order_axioms, of Map.empty 0 "fst demo" "snd demo"
      "[(1, tall, [98], 7), (2, short, [97], 3), (3, tall, [99], 3)]"] short_ends tall_ends
  by (simp add: demo_def)

text \<open>C24. \<open>skiplist_firstInRange\<close> and \<open>skiplist_lastInRange\<close> return the first and the last node whose score lies between
  the bounds, inclusive or exclusive as they say, and NULL when there is none.\<close>

theorem skiplist_ranges_exact:
  assumes "skiplist_order (sl_cmp sl)" "sl_repr h sl ns hs xs" "sl_sorted (sl_cmp sl) xs" "zmin zr = Some lo" "zmax zr = Some hi"
  shows "skiplist_firstInRange h sl zr =
      Some (if in_range (sl_cmp sl) zr lo hi xs = [] then None else Some (ns ! hd (in_range (sl_cmp sl) zr lo hi xs)))
    \<and> skiplist_lastInRange h sl zr =
      Some (if in_range (sl_cmp sl) zr lo hi xs = [] then None else Some (ns ! last (in_range (sl_cmp sl) zr lo hi xs)))"
  using skiplist_order.firstInRange_ok [OF assms(1,2) refl assms(3-5)] skiplist_order.lastInRange_ok [OF assms(1,2) refl assms(3-5)] by simp

theorem skiplist_ranges_exact_witness:
  "\<exists>h sl. skipListInsert (fst demo) (snd demo) 1 tall (Some 5) (Some [97]) = Some (h, sl)
    \<and> skiplist_firstInRange h sl \<lparr>zmin = Some 4, zmax = Some 5, minex = True, maxex = False\<rparr> = Some (Some 1)
    \<and> skiplist_lastInRange h sl \<lparr>zmin = Some 4, zmax = Some 5, minex = True, maxex = True\<rparr> = Some None"
proof -
  obtain h sl where i: "skipListInsert (fst demo) (snd demo) 1 tall (Some 5) (Some [97]) = Some (h, sl)" "sl_cmp sl = doubleComparator"
    "sl_repr h sl [1] [32, 2] [([97], 5)]" using demo_insert(2) by blast
  have "skiplist_order (sl_cmp sl)" unfolding i(2) by (rule double.skiplist_order_axioms)
  note run = skiplist_ranges_exact [OF this i(3), where lo = 4 and hi = 5]
  show ?thesis using i run [of "\<lparr>zmin = Some 4, zmax = Some 5, minex = True, maxex = False\<rparr>"]
    run [of "\<lparr>zmin = Some 4, zmax = Some 5, minex = True, maxex = True\<rparr>"] by (simp add: demo_simps)
qed

text \<open>\<open>skipListDelete\<close> leaves the list alone and returns NULL when no equal pair is in it; when the node of the
  pair has one level, it is taken out, the list stays well formed, and the node is freed unless the caller
  takes it.\<close>

theorem skiplist_delete_short:
  assumes "skiplist_order (sl_cmp sl)" "sl_repr h sl ns hs xs" "sl_sorted (sl_cmp sl) xs" "r = pos_of (sl_cmp sl) (bs, v) xs"
  shows "((\<forall>y \<in> set xs. pair_cmp (sl_cmp sl) y (bs, v) \<noteq> 0) \<longrightarrow> skipListDelete h sl (Some v) (Some bs) node = Some (h, sl, None))
    \<and> ((\<exists>y \<in> set xs. pair_cmp (sl_cmp sl) y (bs, v) = 0) \<and> hs ! Suc r = 1 \<longrightarrow>
        (\<exists>h' sl'. skipListDelete h sl (Some v) (Some bs) node = Some (h', sl', Some (snd (xs ! r)))
          \<and> sl_repr h' sl' (del_at r ns) (del_at (Suc r) hs) (del_at r xs) \<and> (h' (ns ! r) = None \<longleftrightarrow> \<not> node)))"
proof (intro conjI impI)
  note run = skiplist_order.delete_search [OF assms(1,2) refl assms(3), of v bs node, folded assms(4)]
  note len = sl_reprD(2) [OF assms(2)]
  show "skipListDelete h sl (Some v) (Some bs) node = Some (h, sl, None)" if "\<forall>y \<in> set xs. pair_cmp (sl_cmp sl) y (bs, v) \<noteq> 0"
    using that len nth_mem [of r xs] unfolding run by auto
  assume *: "(\<exists>y \<in> set xs. pair_cmp (sl_cmp sl) y (bs, v) = 0) \<and> hs ! Suc r = 1"
  then have r: "r < length ns" "pair_cmp (sl_cmp sl) (xs ! r) (bs, v) = 0"
    using skiplist_order.equal_at_pos [OF assms(1,3)] len unfolding assms(4) by auto
  note sp = split_repr [OF assms(2) r(1)] and us = us_fst [OF assms(2) r(1)]
  obtain h1 sl1 n where d: "slDeleteNode h sl (ns ! r) (path (header sl # ns) hs r (level sl)) = Some (h1, sl1)"
    "sl_repr h1 sl1 (del_at r ns) (del_at (Suc r) hs) (del_at r xs)" "ns ! r \<notin> set (header sl # del_at r ns)" "header sl1 = header sl"
    "h1 (ns ! r) = Some n" "score n = Some (snd (xs ! r))"
    using slDeleteNode_repr [OF sp us] by blast
  note run' = run if_P [OF conjI [OF r]] deleteNode_short [OF assms(2) r(1) conjunct2 [OF *]] d(1) bind.bind_lunit prod.case
  show "\<exists>h' sl'. skipListDelete h sl (Some v) (Some bs) node = Some (h', sl', Some (snd (xs ! r)))
      \<and> sl_repr h' sl' (del_at r ns) (del_at (Suc r) hs) (del_at r xs) \<and> (h' (ns ! r) = None \<longleftrightarrow> \<not> node)"
  proof (cases node)
    case True
    then show ?thesis unfolding run' using d(2,5,6) by simp
  next
    case False
    have "sl_repr (h1(ns ! r := None)) sl1 (del_at r ns) (del_at (Suc r) hs) (del_at r xs)"
      using d(2-4) by (intro sl_repr_free) simp_all
    with False d(5,6) show ?thesis unfolding run' by (simp add: skipListFreeNode_def)
  qed
qed

theorem skiplist_delete_short_witness:
  "\<exists>h sl h' sl'. skipListInsert (fst demo) (snd demo) 1 short (Some 5) (Some [97]) = Some (h, sl)
    \<and> skipListDelete h sl (Some 5) (Some [98]) False = Some (h, sl, None)
    \<and> skipListDelete h sl (Some 5) (Some [97]) False = Some (h', sl', Some 5) \<and> sl_repr h' sl' [] [32] [] \<and> h' 1 = None"
proof -
  obtain h sl where i: "skipListInsert (fst demo) (snd demo) 1 short (Some 5) (Some [97]) = Some (h, sl)" "sl_cmp sl = doubleComparator"
    "sl_repr h sl [1] [32, 1] [([97], 5)]" using demo_insert(1) by blast
  have "skiplist_order (sl_cmp sl)" unfolding i(2) by (rule double.skiplist_order_axioms)
  note run = skiplist_delete_short [OF this i(3) _ refl, where v = 5 and node = False]
  show ?thesis using i run [of "[98]"] run [of "[97]"] by (auto simp: demo_simps)
qed

text \<open>C25. When the node of the pair has two or more levels, \<open>skipListDelete\<close> frees it while another node of the list
  still points to it at its highest level, which stays in use.\<close>

theorem skiplist_delete_tall_dangles:
  assumes "skiplist_order (sl_cmp sl)" "sl_repr h sl ns hs xs" "sl_sorted (sl_cmp sl) xs" "r = pos_of (sl_cmp sl) (bs, v) xs"
    "\<exists>y \<in> set xs. pair_cmp (sl_cmp sl) y (bs, v) = 0" "2 \<le> hs ! Suc r"
  shows "\<exists>h' sl' a l. skipListDelete h sl (Some v) (Some bs) False = Some (h', sl', Some (snd (xs ! r)))
    \<and> h' (ns ! r) = None \<and> a \<in> set (header sl # ns) \<and> h' a \<noteq> None \<and> hs ! Suc r \<le> level sl'
    \<and> read_level h' a (hs ! Suc r - 1) = Some l \<and> forward l = Some (ns ! r)"
proof -
  note run = skiplist_order.delete_search [OF assms(1,2) refl assms(3), of v bs False, folded assms(4)]
  have r: "r < length ns" "pair_cmp (sl_cmp sl) (xs ! r) (bs, v) = 0"
    using skiplist_order.equal_at_pos [OF assms(1,3)] sl_reprD(2) [OF assms(2)] assms(5) unfolding assms(4) by auto
  obtain h1 sl1 a l n where d: "skiplistDeleteNode h sl (ns ! r) (path (header sl # ns) hs r (level sl)) = Some (h1, sl1)"
    "hs ! Suc r \<le> level sl1" "a \<in> set (header sl # ns)" "a \<noteq> ns ! r" "read_level h1 a (hs ! Suc r - 1) = Some l" "forward l = Some (ns ! r)"
    "h1 (ns ! r) = Some n" "score n = Some (snd (xs ! r))"
    using deleteNode_tall [OF assms(2) r(1) assms(6)] by blast
  then have "skipListDelete h sl (Some v) (Some bs) False = Some (h1(ns ! r := None), sl1, Some (snd (xs ! r)))"
    unfolding run if_P [OF conjI [OF r]] by (simp add: skipListFreeNode_def)
  moreover have "read_level (h1(ns ! r := None)) a (hs ! Suc r - 1) = Some l" "h1 a \<noteq> None"
    using d(4,5) by (cases "h1 a"; simp add: read_level_def)+
  ultimately show ?thesis using d by (intro exI [of _ "h1(ns ! r := None)"] exI [of _ sl1] exI [of _ a] exI [of _ l]) simp
qed

theorem skiplist_delete_tall_dangles_witness:
  "\<exists>h sl h' sl' a l. skipListInsert (fst demo) (snd demo) 1 tall (Some 5) (Some [97]) = Some (h, sl)
    \<and> skipListDelete h sl (Some 5) (Some [97]) False = Some (h', sl', Some 5)
    \<and> h' 1 = None \<and> h' a \<noteq> None \<and> 2 \<le> level sl' \<and> read_level h' a 1 = Some l \<and> forward l = Some 1"
proof -
  obtain h sl where i: "skipListInsert (fst demo) (snd demo) 1 tall (Some 5) (Some [97]) = Some (h, sl)" "sl_cmp sl = doubleComparator"
    "sl_repr h sl [1] [32, 2] [([97], 5)]" using demo_insert(2) by blast
  have "skiplist_order (sl_cmp sl)" unfolding i(2) by (rule double.skiplist_order_axioms)
  from skiplist_delete_tall_dangles [OF this i(3) _ refl, of "[97]" 5] show ?thesis
    using i by (auto simp: demo_simps)
qed

end
