(* ===== verification/ThreadJob.thy ===== *)
theory ThreadJob
  imports Vector
begin

text \<open>
  \<open>src/thread_job/thread_job.c\<close> and \<open>src/thread_job/thread_consumer_job.c\<close>: jobs, the ring buffer through which the main
  thread hands them to a consumer thread without a lock, the loop of the consumer and its life cycle. The functions are
  modelled twice: as they are when nothing interferes, and as a step relation in which the main thread and the consumer
  interleave between any two accesses to shared memory. A function pointer is an opaque value, NULL is 0; running a job is
  recorded in the history \<open>ran\<close>.

  Memory is not sequentially consistent: a thread may read an old value of the index that the other one writes. The code
  publishes an index with \<open>memory_order_relaxed\<close>, so whether the fields of a slot that were written before become visible
  before it depends on the platform: the relation \<open>step\<close> has a parameter that says whether the stores of a thread become visible
  in the order of the program, as they do on x86 if the compiler does not move them. If they do not, the consumer
  may read the fields of a slot as they were before the push, and its own clearing of a slot may overwrite a later push.
  The assertions \<open>is_main_thread()\<close> and \<open>!is_main_thread()\<close> are arguments of the sequential functions; in the step relation
  each function is run by its thread, and they hold.
\<close>

section \<open>Jobs\<close>

record latte_job =
  run :: ptr
  job_result :: ptr
  argc :: int
  args :: ptr
  error_code :: nat
  error_state :: ptr

definition latte_job_init :: "latte_job \<Rightarrow> ptr \<Rightarrow> int \<Rightarrow> ptr \<Rightarrow> latte_job" where
  "latte_job_init job f n as =
     job\<lparr>run := f, argc := n, args := as, job_result := NULL, error_code := 0, error_state := NULL\<rparr>"

definition latte_job_new :: "latte_job \<Rightarrow> ptr \<Rightarrow> int \<Rightarrow> ptr \<Rightarrow> latte_job" where
  "latte_job_new junk f n as = latte_job_init junk f n as"

text \<open>\<open>call\<close> is what the function behind a pointer does with its arguments and the error it may set.\<close>

definition latte_job_run :: "(ptr \<Rightarrow> int \<Rightarrow> ptr \<Rightarrow> nat \<times> ptr \<Rightarrow> ptr \<times> nat \<times> ptr) \<Rightarrow> latte_job \<Rightarrow> latte_job option" where
  "latte_job_run call job =
     (if run job = NULL then None
      else case call (run job) (argc job) (args job) (error_code job, error_state job) of
             (r, c, s) \<Rightarrow> Some (job\<lparr>job_result := r, error_code := c, error_state := s\<rparr>))"

section \<open>The ring buffer\<close>

record latte_job_consumer_queue =
  ring_buffer :: "latte_job list"
  q_size :: u64
  q_head :: u64
  q_tail :: u64

definition empty_job :: latte_job where
  "empty_job = \<lparr>run = NULL, job_result = NULL, argc = 0, args = NULL, error_code = 0, error_state = NULL\<rparr>"

definition latte_job_consumer_queue_new :: "u64 \<Rightarrow> latte_job_consumer_queue" where
  "latte_job_consumer_queue_new n =
     \<lparr>ring_buffer = replicate (unat n) empty_job, q_size = n, q_head = 0, q_tail = 0\<rparr>"

definition latte_job_consumer_queue_delete :: "bool \<Rightarrow> latte_job_consumer_queue \<Rightarrow> unit option" where
  "latte_job_consumer_queue_delete main q = (if q_tail q = q_head q \<and> main then Some () else None)"

definition latte_job_consumer_queue_is_empty :: "latte_job_consumer_queue \<Rightarrow> bool" where
  "latte_job_consumer_queue_is_empty q \<longleftrightarrow> q_head q = q_tail q"

text \<open>The remainder by a size of 0 is undefined.\<close>

definition next_index :: "latte_job_consumer_queue \<Rightarrow> u64 \<Rightarrow> u64 option" where
  "next_index q i = (if q_size q = 0 then None else Some ((i + 1) mod q_size q))"

definition latte_job_consumer_queue_is_full :: "latte_job_consumer_queue \<Rightarrow> bool option" where
  "latte_job_consumer_queue_is_full q = do { next_head \<leftarrow> next_index q (q_head q); Some (next_head = q_tail q) }"

definition put_slot :: "latte_job_consumer_queue \<Rightarrow> u64 \<Rightarrow> (latte_job \<Rightarrow> latte_job) \<Rightarrow> latte_job_consumer_queue option" where
  "put_slot q i f =
     do {
       slot \<leftarrow> get_at (ring_buffer q) (unat i);
       rb \<leftarrow> put_at (ring_buffer q) (unat i) (f slot);
       Some (q\<lparr>ring_buffer := rb\<rparr>)
     }"

definition latte_job_consumer_queue_push :: "bool \<Rightarrow> latte_job_consumer_queue \<Rightarrow> latte_job \<Rightarrow> latte_job_consumer_queue option" where
  "latte_job_consumer_queue_push main q job =
     do {
       full \<leftarrow> latte_job_consumer_queue_is_full q;
       (if full \<or> \<not> main then None
        else
          do {
            let current_head = q_head q;
            next_head \<leftarrow> next_index q current_head;
            q \<leftarrow> put_slot q current_head (run_update (\<lambda>_. run job));
            q \<leftarrow> put_slot q current_head (argc_update (\<lambda>_. argc job));
            q \<leftarrow> put_slot q current_head (args_update (\<lambda>_. args job));
            Some (q\<lparr>q_head := next_head\<rparr>)
          })
     }"

definition available :: "latte_job_consumer_queue \<Rightarrow> u64 \<Rightarrow> u64 \<Rightarrow> u64" where
  "available q current_head current_tail =
     (if current_head \<ge> current_tail then current_head - current_tail
      else q_size q - (current_tail - current_head))"

definition latte_job_consumer_queue_available :: "bool \<Rightarrow> latte_job_consumer_queue \<Rightarrow> u64 option" where
  "latte_job_consumer_queue_available main q = (if main then None else Some (available q (q_head q) (q_tail q)))"

definition latte_job_consumer_queue_peek :: "bool \<Rightarrow> latte_job_consumer_queue \<Rightarrow> latte_job option" where
  "latte_job_consumer_queue_peek main q =
     (if main then None
      else do { slot \<leftarrow> get_at (ring_buffer q) (unat (q_tail q)); (if run slot = NULL then None else Some slot) })"

definition latte_job_consumer_queue_remove :: "bool \<Rightarrow> latte_job_consumer_queue \<Rightarrow> latte_job_consumer_queue option" where
  "latte_job_consumer_queue_remove main q =
     (if main then None
      else
        do {
          let current_tail = q_tail q;
          slot \<leftarrow> get_at (ring_buffer q) (unat current_tail);
          (if run slot = NULL then None
           else
             do {
               q \<leftarrow> put_slot q current_tail (run_update (\<lambda>_. NULL));
               q \<leftarrow> put_slot q current_tail (argc_update (\<lambda>_. 0));
               q \<leftarrow> put_slot q current_tail (args_update (\<lambda>_. NULL));
               next_tail \<leftarrow> next_index q current_tail;
               Some (q\<lparr>q_tail := next_tail\<rparr>)
             })
        })"

section \<open>The two threads\<close>

text \<open>Where the main thread is: idle, inside \<open>latte_job_consumer_queue_push\<close>, or inside \<open>delete_thread_consumer\<close>. The values
  loaded so far are kept with the position.\<close>

datatype main_pc =
    M_idle
  | M_full_head latte_job
  | M_full_tail latte_job u64
  | M_head latte_job
  | M_run latte_job u64
  | M_argc latte_job u64
  | M_args latte_job u64
  | M_store latte_job u64
  | M_lock
  | M_join
  | M_deleted

text \<open>Where the consumer is in \<open>thread_consumer_main\<close>: \<open>i\<close> counts the polls, \<open>n\<close> the jobs of the current batch.\<close>

datatype consumer_pc =
    C_head nat
  | C_tail nat u64
  | C_status
  | C_mutex
  | C_unlock
  | C_peek nat
  | C_run nat latte_job
  | C_remove nat
  | C_clear_run nat u64
  | C_clear_argc nat u64
  | C_clear_args nat u64
  | C_store nat u64
  | C_exit

datatype thread = Main | Consumer
datatype fault = Queue_full | Queue_empty | Queue_not_empty | Undefined

abbreviation (input) LATTE_THREAD_STOP :: int where
  "LATTE_THREAD_STOP \<equiv> 1"

abbreviation (input) MAX_POLLS :: nat where
  "MAX_POLLS \<equiv> 1000000"

type_synonym payload = "ptr \<times> int \<times> ptr"

definition payload :: "latte_job \<Rightarrow> payload" where
  "payload job = (run job, argc job, args job)"

text \<open>The state of a thread of the pool and its queue. \<open>pushed\<close>, \<open>ran\<close> and \<open>removed\<close> are history: the jobs handed over, the jobs
  run, and the number of slots given back.\<close>

record consumer_thread =
  ctx :: latte_job_consumer_queue
  status :: int
  mutex :: "thread option"
  mpc :: main_pc
  cpc :: consumer_pc
  fault :: "fault option"
  pushed :: "payload list"
  ran :: "payload list"
  removed :: nat

text \<open>\<open>create_thread_consumer\<close> does not set the status; the main thread holds the mutex.\<close>

definition create_thread_consumer :: "u64 \<Rightarrow> int \<Rightarrow> consumer_thread" where
  "create_thread_consumer n junk =
     \<lparr>ctx = latte_job_consumer_queue_new n, status = junk, mutex = Some Main, mpc = M_idle, cpc = C_head 0, fault = None,
      pushed = [], ran = [], removed = 0\<rparr>"

definition upd :: "consumer_thread \<Rightarrow> latte_job_consumer_queue option \<Rightarrow> (consumer_thread \<Rightarrow> consumer_thread) \<Rightarrow> consumer_thread" where
  "upd s q f = (case q of None \<Rightarrow> s\<lparr>fault := Some Undefined\<rparr> | Some q \<Rightarrow> f (s\<lparr>ctx := q\<rparr>))"

fun main_next :: "consumer_thread \<Rightarrow> main_pc \<Rightarrow> consumer_thread option" where
  "main_next s M_idle = None"
| "main_next s (M_full_head job) = Some (s\<lparr>mpc := M_full_tail job (q_head (ctx s))\<rparr>)"
| "main_next s (M_full_tail job h) =
     (case next_index (ctx s) h of
        None \<Rightarrow> Some (s\<lparr>fault := Some Undefined\<rparr>)
      | Some n \<Rightarrow> Some (if n = q_tail (ctx s) then s\<lparr>fault := Some Queue_full\<rparr> else s\<lparr>mpc := M_head job\<rparr>))"
| "main_next s (M_head job) = Some (s\<lparr>mpc := M_run job (q_head (ctx s))\<rparr>)"
| "main_next s (M_run job h) = Some (upd s (put_slot (ctx s) h (run_update (\<lambda>_. run job))) (\<lambda>s. s\<lparr>mpc := M_argc job h\<rparr>))"
| "main_next s (M_argc job h) = Some (upd s (put_slot (ctx s) h (argc_update (\<lambda>_. argc job))) (\<lambda>s. s\<lparr>mpc := M_args job h\<rparr>))"
| "main_next s (M_args job h) = Some (upd s (put_slot (ctx s) h (args_update (\<lambda>_. args job))) (\<lambda>s. s\<lparr>mpc := M_store job h\<rparr>))"
| "main_next s (M_store job h) =
     Some (upd s (do { n \<leftarrow> next_index (ctx s) h; Some ((ctx s)\<lparr>q_head := n\<rparr>) })
       (\<lambda>s. s\<lparr>mpc := M_idle, pushed := pushed s @ [payload job]\<rparr>))"
| "main_next s M_lock = (if mutex s = None then Some (s\<lparr>mutex := Some Main, mpc := M_join\<rparr>) else None)"
| "main_next s M_join =
     (if cpc s \<noteq> C_exit then None
      else Some (case latte_job_consumer_queue_delete True (ctx s) of
                   None \<Rightarrow> s\<lparr>fault := Some Queue_not_empty\<rparr>
                 | Some _ \<Rightarrow> s\<lparr>mutex := None, mpc := M_deleted\<rparr>))"
| "main_next s M_deleted = None"

fun consumer_next :: "consumer_thread \<Rightarrow> consumer_pc \<Rightarrow> consumer_thread option" where
  "consumer_next s (C_head i) = Some (s\<lparr>cpc := C_tail i (q_head (ctx s))\<rparr>)"
| "consumer_next s (C_tail i h) =
     (let n = available (ctx s) h (q_tail (ctx s)) in
      Some (s\<lparr>cpc := (if n > 0 then C_peek (unat n) else if i + 1 < MAX_POLLS then C_head (i + 1) else C_status)\<rparr>))"
| "consumer_next s C_status = Some (s\<lparr>cpc := (if status s = LATTE_THREAD_STOP then C_exit else C_mutex)\<rparr>)"
| "consumer_next s C_mutex = (if mutex s = None then Some (s\<lparr>mutex := Some Consumer, cpc := C_unlock\<rparr>) else None)"
| "consumer_next s C_unlock = Some (s\<lparr>mutex := None, cpc := C_head 0\<rparr>)"
| "consumer_next s (C_peek n) =
     Some (case get_at (ring_buffer (ctx s)) (unat (q_tail (ctx s))) of
             None \<Rightarrow> s\<lparr>fault := Some Undefined\<rparr>
           | Some slot \<Rightarrow> if run slot = NULL then s\<lparr>fault := Some Queue_empty\<rparr> else s\<lparr>cpc := C_run n slot\<rparr>)"
| "consumer_next s (C_run n job) = Some (s\<lparr>ran := ran s @ [payload job], cpc := C_remove n\<rparr>)"
| "consumer_next s (C_remove n) =
     Some (case get_at (ring_buffer (ctx s)) (unat (q_tail (ctx s))) of
             None \<Rightarrow> s\<lparr>fault := Some Undefined\<rparr>
           | Some slot \<Rightarrow> if run slot = NULL then s\<lparr>fault := Some Queue_empty\<rparr> else s\<lparr>cpc := C_clear_run n (q_tail (ctx s))\<rparr>)"
| "consumer_next s (C_clear_run n t) = Some (upd s (put_slot (ctx s) t (run_update (\<lambda>_. NULL))) (\<lambda>s. s\<lparr>cpc := C_clear_argc n t\<rparr>))"
| "consumer_next s (C_clear_argc n t) = Some (upd s (put_slot (ctx s) t (argc_update (\<lambda>_. 0))) (\<lambda>s. s\<lparr>cpc := C_clear_args n t\<rparr>))"
| "consumer_next s (C_clear_args n t) = Some (upd s (put_slot (ctx s) t (args_update (\<lambda>_. NULL))) (\<lambda>s. s\<lparr>cpc := C_store n t\<rparr>))"
| "consumer_next s (C_store n t) =
     Some (upd s (do { m \<leftarrow> next_index (ctx s) t; Some ((ctx s)\<lparr>q_tail := m\<rparr>) })
       (\<lambda>s. s\<lparr>removed := removed s + 1, cpc := (if n \<le> 1 then C_head 0 else C_peek (n - 1))\<rparr>))"
| "consumer_next s C_exit = None"

text \<open>What the consumer may see of a slot \<open>x\<close> when stores are not ordered: each field as it is or as it was cleared; and where the main
  thread is behind a store that a late clearing of the slot has overwritten.\<close>

definition stale :: "latte_job \<Rightarrow> latte_job \<Rightarrow> bool" where
  "stale x y \<longleftrightarrow> y = x\<lparr>run := run y, argc := argc y, args := args y\<rparr>
     \<and> run y \<in> {run x, NULL} \<and> argc y \<in> {argc x, 0} \<and> args y \<in> {args x, NULL}"

fun after_store :: "main_pc \<Rightarrow> main_pc option" where
  "after_store (M_run job h) = Some (M_argc job h)"
| "after_store (M_argc job h) = Some (M_args job h)"
| "after_store (M_args job h) = Some (M_store job h)"
| "after_store _ = None"

text \<open>A step of the system. An idle main thread may push a job, activate or deactivate the thread as
  \<open>latte_thread_consumer_job_manager_adjust\<close> does, or delete it. A failed assertion aborts the process.
  \<open>old_head\<close> and \<open>old_tail\<close>: the index read is that of an earlier store of the other thread, but not older than what the reader
  has made use of already. \<open>stale_slot\<close> and \<open>late_clear\<close>: the effects of stores that are not ordered; a slot is cleared only after its
  first use.\<close>

inductive step :: "bool \<Rightarrow> consumer_thread \<Rightarrow> consumer_thread \<Rightarrow> bool" for ordered where
  push: "fault s = None \<Longrightarrow> mpc s = M_idle \<Longrightarrow> run job \<noteq> NULL \<Longrightarrow> step ordered s (s\<lparr>mpc := M_full_head job\<rparr>)"
| main: "fault s = None \<Longrightarrow> main_next s (mpc s) = Some s' \<Longrightarrow> step ordered s s'"
| consumer: "fault s = None \<Longrightarrow> consumer_next s (cpc s) = Some s' \<Longrightarrow> step ordered s s'"
| activate: "fault s = None \<Longrightarrow> mpc s = M_idle \<Longrightarrow> mutex s = Some Main \<Longrightarrow> step ordered s (s\<lparr>mutex := None\<rparr>)"
| deactivate: "fault s = None \<Longrightarrow> mpc s = M_idle \<Longrightarrow> mutex s = None \<Longrightarrow> latte_job_consumer_queue_is_empty (ctx s)
    \<Longrightarrow> step ordered s (s\<lparr>mutex := Some Main\<rparr>)"
| stop: "fault s = None \<Longrightarrow> mpc s = M_idle \<Longrightarrow> step ordered s (s\<lparr>status := LATTE_THREAD_STOP, mpc := M_lock\<rparr>)"
| old_head: "fault s = None \<Longrightarrow> cpc s = C_head i \<Longrightarrow> removed s \<le> k \<Longrightarrow> k \<le> length (pushed s) \<Longrightarrow> unat h = k mod unat (q_size (ctx s))
    \<Longrightarrow> step ordered s (s\<lparr>cpc := C_tail i h\<rparr>)"
| old_tail: "fault s = None \<Longrightarrow> mpc s = M_full_tail job h \<Longrightarrow> r \<le> removed s \<Longrightarrow> length (pushed s) < r + unat (q_size (ctx s))
    \<Longrightarrow> unat t = r mod unat (q_size (ctx s)) \<Longrightarrow> next_index (ctx s) h = Some n
    \<Longrightarrow> step ordered s (if n = t then s\<lparr>fault := Some Queue_full\<rparr> else s\<lparr>mpc := M_head job\<rparr>)"
| stale_slot: "\<not> ordered \<Longrightarrow> fault s = None \<Longrightarrow> cpc s = C_peek n \<Longrightarrow> get_at (ring_buffer (ctx s)) (unat (q_tail (ctx s))) = Some x \<Longrightarrow> stale x y
    \<Longrightarrow> step ordered s (if run y = NULL then s\<lparr>fault := Some Queue_empty\<rparr> else s\<lparr>cpc := C_run n y\<rparr>)"
| late_clear: "\<not> ordered \<Longrightarrow> fault s = None \<Longrightarrow> unat (q_size (ctx s)) \<le> length (pushed s) \<Longrightarrow> after_store (mpc s) = Some p
    \<Longrightarrow> step ordered s (s\<lparr>mpc := p\<rparr>)"

inductive_cases stepE: "step ordered s s'"

abbreviation reaches :: "bool \<Rightarrow> consumer_thread \<Rightarrow> consumer_thread \<Rightarrow> bool" where
  "reaches ordered \<equiv> (step ordered)\<^sup>*\<^sup>*"

section \<open>The ring and the histories\<close>

text \<open>The \<open>k\<close>-th job ever pushed is in slot \<open>k mod N\<close>; those from \<open>removed\<close> on are in the queue, and one slot stays free.\<close>

abbreviation cap :: "consumer_thread \<Rightarrow> nat" where
  "cap s \<equiv> unat (q_size (ctx s))"

abbreviation slot :: "consumer_thread \<Rightarrow> nat \<Rightarrow> latte_job" where
  "slot s k \<equiv> ring_buffer (ctx s) ! (k mod cap s)"

fun clearing :: "consumer_pc \<Rightarrow> bool" where
  "clearing (C_clear_argc n t) = True"
| "clearing (C_clear_args n t) = True"
| "clearing (C_store n t) = True"
| "clearing _ = False"

definition ring_inv :: "consumer_thread \<Rightarrow> bool" where
  "ring_inv s \<longleftrightarrow> 0 < cap s \<and> length (ring_buffer (ctx s)) = cap s
     \<and> unat (q_head (ctx s)) = length (pushed s) mod cap s \<and> unat (q_tail (ctx s)) = removed s mod cap s
     \<and> removed s \<le> length (pushed s) \<and> length (pushed s) < removed s + cap s
     \<and> (\<forall>k. removed s \<le> k \<and> k < length (pushed s) \<and> (k = removed s \<longrightarrow> \<not> clearing (cpc s)) \<longrightarrow> payload (slot s k) = pushed s ! k)
     \<and> (\<forall>k < length (pushed s). fst (pushed s ! k) \<noteq> NULL)"

definition room :: "consumer_thread \<Rightarrow> bool" where
  "room s \<longleftrightarrow> Suc (length (pushed s)) < removed s + cap s"

fun main_inv :: "consumer_thread \<Rightarrow> main_pc \<Rightarrow> bool" where
  "main_inv s (M_full_head job) \<longleftrightarrow> run job \<noteq> NULL"
| "main_inv s (M_full_tail job h) \<longleftrightarrow> run job \<noteq> NULL \<and> h = q_head (ctx s)"
| "main_inv s (M_head job) \<longleftrightarrow> run job \<noteq> NULL \<and> room s"
| "main_inv s (M_run job h) \<longleftrightarrow> run job \<noteq> NULL \<and> room s \<and> h = q_head (ctx s)"
| "main_inv s (M_argc job h) \<longleftrightarrow> run job \<noteq> NULL \<and> room s \<and> h = q_head (ctx s) \<and> run (slot s (length (pushed s))) = run job"
| "main_inv s (M_args job h) \<longleftrightarrow> run job \<noteq> NULL \<and> room s \<and> h = q_head (ctx s) \<and> run (slot s (length (pushed s))) = run job
     \<and> argc (slot s (length (pushed s))) = argc job"
| "main_inv s (M_store job h) \<longleftrightarrow> run job \<noteq> NULL \<and> room s \<and> h = q_head (ctx s) \<and> payload (slot s (length (pushed s))) = payload job"
| "main_inv s _ \<longleftrightarrow> True"

abbreviation batch :: "consumer_thread \<Rightarrow> nat \<Rightarrow> bool" where
  "batch s n \<equiv> 0 < n \<and> removed s + n \<le> length (pushed s)"

fun cons_inv :: "consumer_thread \<Rightarrow> consumer_pc \<Rightarrow> bool" where
  "cons_inv s (C_tail i h) \<longleftrightarrow> ran s = take (removed s) (pushed s)
     \<and> (\<exists>k. removed s \<le> k \<and> k \<le> length (pushed s) \<and> unat h = k mod cap s)"
| "cons_inv s (C_peek n) \<longleftrightarrow> ran s = take (removed s) (pushed s) \<and> batch s n"
| "cons_inv s (C_run n job) \<longleftrightarrow> ran s = take (removed s) (pushed s) \<and> batch s n \<and> payload job = pushed s ! removed s"
| "cons_inv s (C_remove n) \<longleftrightarrow> ran s = take (Suc (removed s)) (pushed s) \<and> batch s n"
| "cons_inv s (C_clear_run n t) \<longleftrightarrow> ran s = take (Suc (removed s)) (pushed s) \<and> batch s n \<and> t = q_tail (ctx s)"
| "cons_inv s (C_clear_argc n t) \<longleftrightarrow> ran s = take (Suc (removed s)) (pushed s) \<and> batch s n \<and> t = q_tail (ctx s)"
| "cons_inv s (C_clear_args n t) \<longleftrightarrow> ran s = take (Suc (removed s)) (pushed s) \<and> batch s n \<and> t = q_tail (ctx s)"
| "cons_inv s (C_store n t) \<longleftrightarrow> ran s = take (Suc (removed s)) (pushed s) \<and> batch s n \<and> t = q_tail (ctx s)"
| "cons_inv s _ \<longleftrightarrow> ran s = take (removed s) (pushed s)"

definition inv :: "consumer_thread \<Rightarrow> bool" where
  "inv s \<longleftrightarrow> ring_inv s \<and> main_inv s (mpc s) \<and> cons_inv s (cpc s) \<and> fault s \<in> {None, Some Queue_full, Some Queue_not_empty}"

subsection \<open>Indices\<close>

lemma mod_window: "a mod N = b mod N \<Longrightarrow> b \<le> a \<Longrightarrow> a < b + N \<Longrightarrow> a = b" for a b N :: nat
  by (metis (no_types) add_diff_inverse_nat mod_eq_dvd_iff_nat dvd_imp_le leD less_diff_conv2 linorder_not_less
      nat_add_left_cancel_less not_gr_zero order_le_less zero_less_diff)

lemma next_index_Some:
  assumes "unat i = k mod unat (q_size q)" "0 < unat (q_size q)"
  shows "\<exists>n. next_index q i = Some n \<and> unat n = Suc k mod unat (q_size q)"
proof -
  have "unat i < unat (q_size q)" using assms by simp
  moreover have "unat (q_size q) < 2 ^ 64" using unsigned_less [of "q_size q"] by simp
  ultimately have "unat (i + 1) = Suc (unat i)" by (subst unat_add_lem [THEN iffD1]) simp_all
  then have "unat ((i + 1) mod q_size q) = Suc k mod unat (q_size q)" using assms(1) by (simp add: unat_mod mod_Suc_eq)
  moreover have "q_size q \<noteq> 0" using assms(2) by auto
  ultimately show ?thesis by (simp add: next_index_def)
qed

lemma mod_add_window: "d < N \<Longrightarrow> (j + d) mod N = (if j mod N + d < N then j mod N + d else j mod N + d - N)" for d j N :: nat
proof -
  assume "d < N"
  then have "j mod N < N" by simp
  then have "j mod N + d - N < N" using \<open>d < N\<close> by linarith
  have "(j + d) mod N = (j mod N + d) mod N" by (simp add: mod_add_left_eq)
  also have "\<dots> = (if j mod N + d < N then j mod N + d else j mod N + d - N)"
    using \<open>j mod N + d - N < N\<close> le_mod_geq [of N "j mod N + d"] by simp
  finally show ?thesis .
qed

lemma available_window:
  assumes "unat h = k mod unat (q_size q)" "unat t = j mod unat (q_size q)" "j \<le> k" "k < j + unat (q_size q)"
  shows "unat (available q h t) = k - j"
proof -
  let ?N = "unat (q_size q)"
  have k: "k mod ?N = (if j mod ?N + (k - j) < ?N then j mod ?N + (k - j) else j mod ?N + (k - j) - ?N)"
    using mod_add_window [of "k - j" ?N j] assms(3,4) by simp
  have j: "j mod ?N < ?N" using assms(3,4) by simp
  show ?thesis
  proof (cases "t \<le> h")
    case True
    then show ?thesis using assms k j by (auto simp: available_def unat_sub word_le_nat_alt split: if_splits)
  next
    case False
    then have lt: "unat h < unat t" "h \<le> t" by (simp_all add: word_le_nat_alt)
    then have "unat (t - h) = unat t - unat h" by (simp add: unat_sub)
    moreover have "t - h \<le> q_size q" using calculation assms(2) j by (simp add: word_le_nat_alt)
    ultimately show ?thesis using False lt assms k j by (auto simp: available_def unat_sub split: if_splits)
  qed
qed


subsection \<open>The invariant is kept\<close>

lemma put_slot_Some:
  assumes "unat i < length (ring_buffer q)"
  shows "put_slot q i f = Some (q\<lparr>ring_buffer := (ring_buffer q)[unat i := f (ring_buffer q ! unat i)]\<rparr>)"
  using assms by (simp add: put_slot_def get_at_def put_at_def)

lemma ring_invD:
  assumes "ring_inv s"
  shows "0 < cap s" "length (ring_buffer (ctx s)) = cap s" "unat (q_head (ctx s)) = length (pushed s) mod cap s"
    "unat (q_tail (ctx s)) = removed s mod cap s" "removed s \<le> length (pushed s)" "length (pushed s) < removed s + cap s"
    "\<And>k. removed s \<le> k \<Longrightarrow> k < length (pushed s) \<Longrightarrow> (k = removed s \<Longrightarrow> \<not> clearing (cpc s)) \<Longrightarrow> payload (slot s k) = pushed s ! k"
    "\<And>k. k < length (pushed s) \<Longrightarrow> fst (pushed s ! k) \<noteq> NULL"
  using assms unfolding ring_inv_def by blast+

lemma head_slot_free:
  assumes "ring_inv s" "removed s \<le> k" "k < length (pushed s)"
  shows "k mod cap s \<noteq> length (pushed s) mod cap s"
  using mod_window [of "length (pushed s)" "cap s" k] ring_invD(6) [OF assms(1)] assms(2,3) by auto

lemma tail_slot_other:
  assumes "ring_inv s" "removed s < k" "k \<le> length (pushed s)"
  shows "k mod cap s \<noteq> removed s mod cap s"
  using mod_window [of k "cap s" "removed s"] ring_invD(6) [OF assms(1)] assms(2,3) by auto

text \<open>Writing the free slot at the head.\<close>

lemma write_head:
  fixes f :: "latte_job \<Rightarrow> latte_job"
  assumes "ring_inv s" "unat h = length (pushed s) mod cap s"
  defines "q \<equiv> (ctx s)\<lparr>ring_buffer := (ring_buffer (ctx s))[unat h := f (slot s (length (pushed s)))]\<rparr>"
  shows "put_slot (ctx s) h f = Some q" "ring_inv (s\<lparr>ctx := q, mpc := p\<rparr>)"
    "cons_inv (s\<lparr>ctx := q, mpc := p\<rparr>) c = cons_inv s c"
proof -
  note D = ring_invD [OF assms(1)]
  have len: "unat h < length (ring_buffer (ctx s))" using assms(2) D(1,2) by simp
  then show "put_slot (ctx s) h f = Some q" using assms(2) by (simp add: put_slot_Some q_def)
  have "ring_buffer q ! (k mod cap s) = slot s k" if "removed s \<le> k" "k < length (pushed s)" for k
    using head_slot_free [OF assms(1) that] assms(2) by (simp add: q_def)
  then show "ring_inv (s\<lparr>ctx := q, mpc := p\<rparr>)" using D unfolding ring_inv_def by (auto simp: q_def)
  show "cons_inv (s\<lparr>ctx := q, mpc := p\<rparr>) c = cons_inv s c" by (cases c) (simp_all add: q_def)
qed


text \<open>What the other fields do not change.\<close>

lemma ring_frame [simp]:
  "ring_inv (s\<lparr>mpc := p\<rparr>) = ring_inv s" "ring_inv (s\<lparr>mutex := mx\<rparr>) = ring_inv s" "ring_inv (s\<lparr>status := st\<rparr>) = ring_inv s"
  "ring_inv (s\<lparr>fault := ft\<rparr>) = ring_inv s"
  by (simp_all add: ring_inv_def)

lemma cons_frame [simp]:
  "cons_inv (s\<lparr>mpc := p\<rparr>) c = cons_inv s c" "cons_inv (s\<lparr>mutex := mx\<rparr>) c = cons_inv s c" "cons_inv (s\<lparr>status := st\<rparr>) c = cons_inv s c"
  "cons_inv (s\<lparr>fault := ft\<rparr>) c = cons_inv s c" "cons_inv (s\<lparr>cpc := c'\<rparr>) c = cons_inv s c"
  by (cases c; simp)+

lemma room_frame [simp]: "room (s\<lparr>mpc := p\<rparr>) = room s" "room (s\<lparr>cpc := c\<rparr>) = room s"
  by (simp_all add: room_def)

lemma main_frame [simp]:
  "main_inv (s\<lparr>mpc := p\<rparr>) m = main_inv s m" "main_inv (s\<lparr>mutex := mx\<rparr>) m = main_inv s m" "main_inv (s\<lparr>status := st\<rparr>) m = main_inv s m"
  "main_inv (s\<lparr>fault := ft\<rparr>) m = main_inv s m" "main_inv (s\<lparr>cpc := c'\<rparr>) m = main_inv s m"
  by (cases m; simp add: room_def)+

lemma ring_inv_cpc: "ring_inv s \<Longrightarrow> clearing (cpc s) = clearing c \<Longrightarrow> ring_inv (s\<lparr>cpc := c\<rparr>)"
  by (simp add: ring_inv_def)

lemma main_write_keeps:
  fixes f :: "latte_job \<Rightarrow> latte_job"
  assumes "inv s" "fault s = None" "h = q_head (ctx s)" "room s" "run job \<noteq> NULL"
    and "\<And>s'. slot s' (length (pushed s')) = f (slot s (length (pushed s))) \<Longrightarrow> room s' \<Longrightarrow> q_head (ctx s') = q_head (ctx s) \<Longrightarrow> main_inv s' p"
  shows "inv (upd s (put_slot (ctx s) h f) (\<lambda>s. s\<lparr>mpc := p\<rparr>))"
proof -
  have ring: "ring_inv s" using assms(1) by (simp add: inv_def)
  note D = ring_invD [OF ring]
  have h: "unat h = length (pushed s) mod cap s" using D(3) assms(3) by simp
  let ?q = "(ctx s)\<lparr>ring_buffer := (ring_buffer (ctx s))[unat h := f (slot s (length (pushed s)))]\<rparr>"
  note w = write_head [OF ring h, where f = f]
  have "main_inv (s\<lparr>ctx := ?q, mpc := p\<rparr>) p" using assms(4) h D(1,2) by (intro assms(6)) (simp_all add: room_def)
  then show ?thesis using w assms(1,2) by (simp add: inv_def upd_def)
qed

lemma store_head_keeps:
  assumes "inv s" "fault s = None" "mpc s = M_store job h"
  shows "inv (upd s (do { n \<leftarrow> next_index (ctx s) h; Some ((ctx s)\<lparr>q_head := n\<rparr>) })
       (\<lambda>s. s\<lparr>mpc := M_idle, pushed := pushed s @ [payload job]\<rparr>))"
proof -
  have i: "ring_inv s" "main_inv s (M_store job h)" "cons_inv s (cpc s)" using assms by (simp_all add: inv_def)
  note D = ring_invD [OF i(1)]
  have "unat h = length (pushed s) mod cap s" using i(2) D(3) by simp
  then obtain n where n: "next_index (ctx s) h = Some n" "unat n = Suc (length (pushed s)) mod cap s"
    using next_index_Some D(1) by blast
  let ?s = "s\<lparr>ctx := (ctx s)\<lparr>q_head := n\<rparr>, mpc := M_idle, pushed := pushed s @ [payload job]\<rparr>"
  have "room s" using i(2) by simp
  then have "ring_inv ?s" using D n(2) i(2) unfolding ring_inv_def room_def by (auto simp: nth_append payload_def less_Suc_eq)
  moreover have "cons_inv ?s (cpc s)" using i(3) D(5) by (cases "cpc s") (auto intro: le_SucI simp: nth_append)
  ultimately show ?thesis using n(1) assms(2) by (simp add: inv_def upd_def)
qed

lemma main_keeps:
  assumes "inv s" "fault s = None" "main_next s (mpc s) = Some s'"
  shows "inv s'"
proof -
  have i: "ring_inv s" "main_inv s (mpc s)" "cons_inv s (cpc s)" using assms(1) by (simp_all add: inv_def)
  note D = ring_invD [OF i(1)]
  show ?thesis
  proof (cases "mpc s")
    case (M_full_tail job h)
    then have "unat h = length (pushed s) mod cap s" using i(2) D(3) by simp
    then obtain n where n: "next_index (ctx s) h = Some n" "unat n = Suc (length (pushed s)) mod cap s"
      using next_index_Some D(1) by blast
    have "room s" if "n \<noteq> q_tail (ctx s)"
    proof (rule ccontr)
      assume "\<not> room s"
      then have "Suc (length (pushed s)) = removed s + cap s" using D(6) by (simp add: room_def)
      then have "unat n = unat (q_tail (ctx s))" using n(2) D(4) by simp
      with that show False by (simp add: word_unat_eq_iff)
    qed
    then show ?thesis using assms M_full_tail n(1) i by (auto simp: inv_def split: if_splits)
  next
    case (M_run job h)
    then have "inv (upd s (put_slot (ctx s) h (run_update (\<lambda>_. run job))) (\<lambda>s. s\<lparr>mpc := M_argc job h\<rparr>))"
      using i(2) by (intro main_write_keeps [OF assms(1,2)]) auto
    then show ?thesis using assms(3) M_run by simp
  next
    case (M_argc job h)
    then have "inv (upd s (put_slot (ctx s) h (argc_update (\<lambda>_. argc job))) (\<lambda>s. s\<lparr>mpc := M_args job h\<rparr>))"
      using i(2) by (intro main_write_keeps [OF assms(1,2)]) auto
    then show ?thesis using assms(3) M_argc by simp
  next
    case (M_args job h)
    then have "inv (upd s (put_slot (ctx s) h (args_update (\<lambda>_. args job))) (\<lambda>s. s\<lparr>mpc := M_store job h\<rparr>))"
      using i(2) by (intro main_write_keeps [OF assms(1,2)]) (auto simp: payload_def)
    then show ?thesis using assms(3) M_args by simp
  next
    case (M_store job h)
    then show ?thesis using store_head_keeps [OF assms(1,2) M_store] assms(3) by simp
  qed (use assms i in \<open>auto simp: inv_def latte_job_consumer_queue_delete_def split: if_splits\<close>)
qed


lemma tail_ready:
  assumes "ring_inv s" "batch s n" "\<not> clearing (cpc s)"
  shows "\<exists>x. get_at (ring_buffer (ctx s)) (unat (q_tail (ctx s))) = Some x \<and> run x \<noteq> NULL \<and> payload x = pushed s ! removed s"
proof -
  note D = ring_invD [OF assms(1)]
  have "payload (slot s (removed s)) = pushed s ! removed s" using D(7) [of "removed s"] assms(2,3) by simp
  moreover have "fst (pushed s ! removed s) \<noteq> NULL" using D(8) [of "removed s"] assms(2) by simp
  ultimately have "run (slot s (removed s)) \<noteq> NULL" by (metis fst_conv payload_def)
  then show ?thesis using D(1,2,4) \<open>payload (slot s (removed s)) = pushed s ! removed s\<close> by (simp add: get_at_def)
qed

lemma write_tail_keeps:
  fixes f :: "latte_job \<Rightarrow> latte_job"
  assumes "inv s" "fault s = None" "t = q_tail (ctx s)" "batch s n" "clearing c" "cons_inv s c"
    and same: "\<And>s'. removed s' = removed s \<Longrightarrow> pushed s' = pushed s \<Longrightarrow> ran s' = ran s \<Longrightarrow> q_tail (ctx s') = q_tail (ctx s) \<Longrightarrow> cons_inv s' c"
  shows "inv (upd s (put_slot (ctx s) t f) (\<lambda>s. s\<lparr>cpc := c\<rparr>))"
proof -
  have i: "ring_inv s" "main_inv s (mpc s)" using assms(1) by (simp_all add: inv_def)
  note D = ring_invD [OF i(1)]
  have t: "unat t = removed s mod cap s" using D(4) assms(3) by simp
  let ?q = "(ctx s)\<lparr>ring_buffer := (ring_buffer (ctx s))[unat t := f (slot s (removed s))]\<rparr>"
  let ?s = "s\<lparr>ctx := ?q, cpc := c\<rparr>"
  have q: "put_slot (ctx s) t f = Some ?q" using t D(1,2) by (simp add: put_slot_Some)
  have other: "ring_buffer ?q ! (k mod cap s) = slot s k" if "removed s < k" "k \<le> length (pushed s)" for k
    using tail_slot_other [OF i(1) that] t by simp
  have "payload (slot ?s k) = pushed s ! k" if "removed s < k" "k < length (pushed s)" for k
    using other [of k] that D(7) [of k] by simp
  then have "ring_inv ?s" using D assms(5) unfolding ring_inv_def by (auto simp: le_less)
  moreover have "slot ?s (length (pushed s)) = slot s (length (pushed s))" using other [of "length (pushed s)"] assms(4) by simp
  then have "main_inv ?s (mpc s)" using i(2) by (cases "mpc s") (simp_all add: room_def)
  moreover have "cons_inv ?s c" by (rule same) simp_all
  ultimately show ?thesis using assms(2) by (simp add: inv_def upd_def q)
qed

lemma store_tail_keeps:
  assumes "inv s" "fault s = None" "cpc s = C_store n t"
  shows "inv (upd s (do { m \<leftarrow> next_index (ctx s) t; Some ((ctx s)\<lparr>q_tail := m\<rparr>) })
       (\<lambda>s. s\<lparr>removed := removed s + 1, cpc := (if n \<le> 1 then C_head 0 else C_peek (n - 1))\<rparr>))"
proof -
  have i: "ring_inv s" "main_inv s (mpc s)" "cons_inv s (C_store n t)" using assms by (simp_all add: inv_def)
  note D = ring_invD [OF i(1)]
  have "unat t = removed s mod cap s" using i(3) D(4) by simp
  then obtain m where m: "next_index (ctx s) t = Some m" "unat m = Suc (removed s) mod cap s"
    using next_index_Some D(1) by blast
  let ?c = "if n \<le> 1 then C_head 0 else C_peek (n - 1)"
  let ?s = "s\<lparr>ctx := (ctx s)\<lparr>q_tail := m\<rparr>, removed := removed s + 1, cpc := ?c\<rparr>"
  have "ring_inv ?s" using D m(2) i(3) unfolding ring_inv_def by (auto simp: Suc_le_eq)
  moreover have "main_inv ?s (mpc s)" using i(2) by (cases "mpc s") (auto simp: room_def)
  moreover have "cons_inv ?s ?c" using i(3) by auto
  ultimately show ?thesis using m(1) assms(2) by (simp add: inv_def upd_def)
qed

lemma consumer_keeps:
  assumes "inv s" "fault s = None" "consumer_next s (cpc s) = Some s'"
  shows "inv s'"
proof -
  have i: "ring_inv s" "main_inv s (mpc s)" "cons_inv s (cpc s)" using assms(1) by (simp_all add: inv_def)
  note D = ring_invD [OF i(1)]
  show ?thesis
  proof (cases "cpc s")
    case (C_head j)
    then show ?thesis using assms(2,3) i D(3,5) by (auto simp: inv_def intro!: ring_inv_cpc)
  next
    case (C_tail j h)
    then obtain k where k: "removed s \<le> k" "k \<le> length (pushed s)" "unat h = k mod cap s" using i(3) by auto
    have "unat (available (ctx s) h (q_tail (ctx s))) = k - removed s"
      using k D(4,6) by (intro available_window) auto
    then show ?thesis using assms(2,3) C_tail i k by (auto simp: inv_def word_less_nat_alt Let_def intro!: ring_inv_cpc split: if_splits)
  next
    case (C_peek n)
    then show ?thesis using assms(2,3) i tail_ready [OF i(1), of n] by (auto simp: inv_def intro!: ring_inv_cpc)
  next
    case (C_run n job)
    have "ring_inv (s\<lparr>ran := ran s @ [payload job], cpc := C_remove n\<rparr>)" using i(1) C_run by (simp add: ring_inv_def)
    moreover have "main_inv (s\<lparr>ran := ran s @ [payload job], cpc := C_remove n\<rparr>) (mpc s)"
      using i(2) by (cases "mpc s") (simp_all add: room_def)
    ultimately show ?thesis using assms(2,3) C_run i(3) by (auto simp: inv_def take_Suc_conv_app_nth)
  next
    case (C_remove n)
    then show ?thesis using assms(2,3) i tail_ready [OF i(1), of n] by (auto simp: inv_def intro!: ring_inv_cpc)
  next
    case (C_clear_run n t)
    then have "inv (upd s (put_slot (ctx s) t (run_update (\<lambda>_. NULL))) (\<lambda>s. s\<lparr>cpc := C_clear_argc n t\<rparr>))"
      using i(3) by (intro write_tail_keeps [OF assms(1,2), of _ n]) auto
    then show ?thesis using assms(3) C_clear_run by simp
  next
    case (C_clear_argc n t)
    then have "inv (upd s (put_slot (ctx s) t (argc_update (\<lambda>_. 0))) (\<lambda>s. s\<lparr>cpc := C_clear_args n t\<rparr>))"
      using i(3) by (intro write_tail_keeps [OF assms(1,2), of _ n]) auto
    then show ?thesis using assms(3) C_clear_argc by simp
  next
    case (C_clear_args n t)
    then have "inv (upd s (put_slot (ctx s) t (args_update (\<lambda>_. NULL))) (\<lambda>s. s\<lparr>cpc := C_store n t\<rparr>))"
      using i(3) by (intro write_tail_keeps [OF assms(1,2), of _ n]) auto
    then show ?thesis using assms(3) C_clear_args by simp
  next
    case (C_store n t)
    then show ?thesis using store_tail_keeps [OF assms(1,2) C_store] assms(3) by simp
  qed (use assms i in \<open>auto simp: inv_def intro!: ring_inv_cpc split: if_splits\<close>)
qed

lemma old_tail_keeps:
  assumes "inv s" "mpc s = M_full_tail job h" "r \<le> removed s" "length (pushed s) < r + cap s" "unat t = r mod cap s" "next_index (ctx s) h = Some n"
  shows "inv (if n = t then s\<lparr>fault := Some Queue_full\<rparr> else s\<lparr>mpc := M_head job\<rparr>)"
proof -
  have i: "ring_inv s" "main_inv s (mpc s)" "cons_inv s (cpc s)" using assms(1) by (simp_all add: inv_def)
  note D = ring_invD [OF i(1)]
  have "unat h = length (pushed s) mod cap s" using i(2) assms(2) D(3) by simp
  then have n: "unat n = Suc (length (pushed s)) mod cap s" using next_index_Some D(1) assms(6) by fastforce
  have "room s" if "n \<noteq> t"
  proof (rule ccontr)
    assume "\<not> room s"
    then have "Suc (length (pushed s)) = r + cap s" using assms(3,4) by (simp add: room_def)
    then have "unat n = unat t" using n assms(5) by simp
    with that show False by (simp add: word_unat_eq_iff)
  qed
  then show ?thesis using assms(1,2) i by (auto simp: inv_def)
qed

lemma step_keeps: "step ordered s s' \<Longrightarrow> ordered \<Longrightarrow> inv s \<Longrightarrow> inv s'"
proof (induction rule: step.induct)
  case (main s s')
  then show ?case by (intro main_keeps [of s s'])
next
  case (consumer s s')
  then show ?case by (intro consumer_keeps [of s s'])
next
  case (old_head s i k h)
  then show ?case by (auto simp: inv_def intro!: ring_inv_cpc)
next
  case (old_tail s job h r t n)
  then show ?case by (intro old_tail_keeps)
qed (auto simp: inv_def)

lemma create_inv: "0 < unat n \<Longrightarrow> inv (create_thread_consumer n junk)"
  by (simp add: inv_def ring_inv_def create_thread_consumer_def latte_job_consumer_queue_new_def)

lemma reaches_inv: "reaches True s s' \<Longrightarrow> inv s \<Longrightarrow> inv s'"
  by (induction rule: rtranclp_induct) (auto intro: step_keeps)


section \<open>Progress of the consumer\<close>

definition cstep :: "consumer_thread \<Rightarrow> consumer_thread \<Rightarrow> bool" where
  "cstep s s' \<longleftrightarrow> fault s = None \<and> consumer_next s (cpc s) = Some s'"

lemma cstep_reaches: "cstep\<^sup>*\<^sup>* s s' \<Longrightarrow> reaches ordered s s'"
  by (induction rule: rtranclp_induct) (auto simp: cstep_def intro: rtranclp.rtrancl_into_rtrancl step.consumer)

text \<open>The jobs left of a batch, and the steps left for them.\<close>

fun left_of :: "consumer_pc \<Rightarrow> nat" where
  "left_of (C_peek n) = n"
| "left_of (C_run n job) = n"
| "left_of (C_remove n) = n"
| "left_of (C_clear_run n t) = n"
| "left_of (C_clear_argc n t) = n"
| "left_of (C_clear_args n t) = n"
| "left_of (C_store n t) = n"
| "left_of _ = 0"

fun steps_of :: "consumer_pc \<Rightarrow> nat" where
  "steps_of (C_peek n) = 7 * n"
| "steps_of (C_run n job) = 7 * n - 1"
| "steps_of (C_remove n) = 7 * n - 2"
| "steps_of (C_clear_run n t) = 7 * n - 3"
| "steps_of (C_clear_argc n t) = 7 * n - 4"
| "steps_of (C_clear_args n t) = 7 * n - 5"
| "steps_of (C_store n t) = 7 * n - 6"
| "steps_of _ = 0"

lemma tail_write_Some: "ring_inv s \<Longrightarrow> t = q_tail (ctx s) \<Longrightarrow> put_slot (ctx s) t f \<noteq> None"
  using ring_invD(1,2,4) [of s] by (simp add: put_slot_Some)

lemma batch_step:
  assumes "inv s" "fault s = None" "0 < left_of (cpc s)"
  shows "\<exists>s'. cstep s s' \<and> fault s' = None \<and> mpc s' = mpc s \<and> pushed s' = pushed s \<and> steps_of (cpc s') < steps_of (cpc s)
    \<and> removed s' + left_of (cpc s') = removed s + left_of (cpc s) \<and> (left_of (cpc s') = 0 \<longrightarrow> cpc s' = C_head 0)"
proof -
  have i: "ring_inv s" "cons_inv s (cpc s)" using assms(1) by (simp_all add: inv_def)
  note w = tail_write_Some [OF i(1)]
  show ?thesis
  proof (cases "cpc s")
    case (C_peek n)
    then obtain x where "get_at (ring_buffer (ctx s)) (unat (q_tail (ctx s))) = Some x" "run x \<noteq> NULL"
      using tail_ready [OF i(1), of n] i(2) by auto
    then show ?thesis using C_peek i(2) assms(2) by (auto simp: cstep_def)
  next
    case (C_remove n)
    then obtain x where "get_at (ring_buffer (ctx s)) (unat (q_tail (ctx s))) = Some x" "run x \<noteq> NULL"
      using tail_ready [OF i(1), of n] i(2) by auto
    then show ?thesis using C_remove i(2) assms(2) by (auto simp: cstep_def)
  next
    case (C_clear_run n t)
    then show ?thesis using i(2) assms(2) w [of t "run_update (\<lambda>_. NULL)"] by (auto simp: cstep_def upd_def)
  next
    case (C_clear_argc n t)
    then show ?thesis using i(2) assms(2) w [of t "argc_update (\<lambda>_. 0)"] by (auto simp: cstep_def upd_def)
  next
    case (C_clear_args n t)
    then show ?thesis using i(2) assms(2) w [of t "args_update (\<lambda>_. NULL)"] by (auto simp: cstep_def upd_def)
  next
    case (C_store n t)
    then obtain m where "next_index (ctx s) t = Some m"
      using next_index_Some [of t "removed s" "ctx s"] ring_invD(1,4) [OF i(1)] i(2) by auto
    then show ?thesis using C_store i(2) assms(2) by (auto simp: cstep_def upd_def)
  qed (use assms(2,3) i(2) in \<open>auto simp: cstep_def\<close>)
qed

lemma batch_runs:
  assumes "inv s" "fault s = None" "0 < left_of (cpc s)"
  shows "\<exists>s'. cstep\<^sup>*\<^sup>* s s' \<and> fault s' = None \<and> mpc s' = mpc s \<and> pushed s' = pushed s \<and> cpc s' = C_head 0
    \<and> removed s' = removed s + left_of (cpc s)"
  using assms
proof (induction "steps_of (cpc s)" arbitrary: s rule: less_induct)
  case less
  obtain s1 where s1: "cstep s s1" "fault s1 = None" "mpc s1 = mpc s" "pushed s1 = pushed s" "steps_of (cpc s1) < steps_of (cpc s)"
    "removed s1 + left_of (cpc s1) = removed s + left_of (cpc s)" "left_of (cpc s1) = 0 \<longrightarrow> cpc s1 = C_head 0"
    using batch_step [OF less.prems] by (elim exE conjE) (rule that)
  have "inv s1" using reaches_inv [OF cstep_reaches less.prems(1)] s1(1) by blast
  show ?case
  proof (cases "left_of (cpc s1) = 0")
    case True
    then have "cpc s1 = C_head 0" "removed s1 = removed s + left_of (cpc s)" using s1(6,7) by simp_all
    then show ?thesis using s1(2-4) r_into_rtranclp [of cstep, OF s1(1)] by blast
  next
    case False
    then obtain s' where "cstep\<^sup>*\<^sup>* s1 s'" "fault s' = None" "mpc s' = mpc s1" "pushed s' = pushed s1" "cpc s' = C_head 0"
      "removed s' = removed s1 + left_of (cpc s1)"
      using less.hyps [OF s1(5) \<open>inv s1\<close> s1(2)] by blast
    moreover have "cstep\<^sup>*\<^sup>* s s'" using converse_rtranclp_into_rtranclp [of cstep, OF s1(1)] calculation(1) by blast
    ultimately show ?thesis using s1(3,4,6) by (intro exI [of _ s']) simp
  qed
qed


section \<open>Runs of the system\<close>

text \<open>A push that nothing interrupts is the function of the queue.\<close>

lemma push_alone:
  assumes "latte_job_consumer_queue_push True (ctx s) job = Some q" "fault s = None" "mpc s = M_idle" "run job \<noteq> NULL"
  shows "reaches ordered s (s\<lparr>ctx := q, pushed := pushed s @ [payload job]\<rparr>)"
proof -
  let ?h = "q_head (ctx s)"
  obtain n q1 q2 q3 where q: "next_index (ctx s) ?h = Some n" "n \<noteq> q_tail (ctx s)"
    "put_slot (ctx s) ?h (run_update (\<lambda>_. run job)) = Some q1" "put_slot q1 ?h (argc_update (\<lambda>_. argc job)) = Some q2"
    "put_slot q2 ?h (args_update (\<lambda>_. args job)) = Some q3" "q = q3\<lparr>q_head := n\<rparr>"
    using assms(1) by (auto simp: latte_job_consumer_queue_push_def latte_job_consumer_queue_is_full_def Let_def
        split: bind_splits if_splits)
  have sz: "q_size q3 = q_size (ctx s)" using q(3-5) by (auto simp: put_slot_def split: bind_splits)
  then have n: "next_index q3 ?h = Some n" using q(1) by (simp add: next_index_def split: if_splits)
  let ?m = "\<lambda>q p. s\<lparr>ctx := q, mpc := p\<rparr>"
  have "step ordered s (?m (ctx s) (M_full_head job))" using step.push [OF assms(2-4)] by simp
  moreover have "step ordered (?m (ctx s) (M_full_head job)) (?m (ctx s) (M_full_tail job ?h))"
    "step ordered (?m (ctx s) (M_full_tail job ?h)) (?m (ctx s) (M_head job))" "step ordered (?m (ctx s) (M_head job)) (?m (ctx s) (M_run job ?h))"
    "step ordered (?m (ctx s) (M_run job ?h)) (?m q1 (M_argc job ?h))" "step ordered (?m q1 (M_argc job ?h)) (?m q2 (M_args job ?h))"
    "step ordered (?m q2 (M_args job ?h)) (?m q3 (M_store job ?h))"
    "step ordered (?m q3 (M_store job ?h)) (?m q M_idle\<lparr>pushed := pushed s @ [payload job]\<rparr>)"
    using q n assms(2) by (auto intro!: step.main simp: upd_def)
  ultimately have "reaches ordered s (?m q M_idle\<lparr>pushed := pushed s @ [payload job]\<rparr>)"
    by (meson converse_rtranclp_into_rtranclp rtranclp.rtrancl_refl)
  moreover have "?m q M_idle\<lparr>pushed := pushed s @ [payload job]\<rparr> = s\<lparr>ctx := q, pushed := pushed s @ [payload job]\<rparr>"
    using assms(3) by (cases s) simp
  ultimately show ?thesis by simp
qed

lemma poll_empty:
  assumes "fault s = None" "q_head (ctx s) = q_tail (ctx s)" "cpc s = C_head i" "i < MAX_POLLS"
  shows "reaches ordered s (s\<lparr>cpc := C_status\<rparr>)"
  using assms
proof (induction "MAX_POLLS - i" arbitrary: s i)
  case (Suc k)
  let ?t = "s\<lparr>cpc := C_tail i (q_head (ctx s))\<rparr>" and ?c = "if i + 1 < MAX_POLLS then C_head (i + 1) else C_status"
  have "step ordered s ?t" using Suc.prems by (intro step.consumer) simp_all
  moreover have "step ordered ?t (s\<lparr>cpc := ?c\<rparr>)" using Suc.prems by (intro step.consumer) (simp_all add: available_def)
  ultimately have two: "reaches ordered s (s\<lparr>cpc := ?c\<rparr>)" by auto
  show ?case
  proof (cases "i + 1 < MAX_POLLS")
    case True
    then have "reaches ordered (s\<lparr>cpc := C_head (i + 1)\<rparr>) (s\<lparr>cpc := C_head (i + 1), cpc := C_status\<rparr>)"
      using Suc.hyps(2) Suc.prems by (intro Suc.hyps(1)) auto
    with two True show ?thesis by simp
  next
    case False
    with two show ?thesis by simp
  qed
qed simp


lemma push_size: "latte_job_consumer_queue_push main q job = Some q' \<Longrightarrow> q_size q' = q_size q"
  by (auto simp: latte_job_consumer_queue_push_def put_slot_def Let_def split: bind_splits if_splits)

lemma first_push:
  assumes "2 \<le> unat n"
  shows "\<exists>q. latte_job_consumer_queue_push True (latte_job_consumer_queue_new n) job = Some q \<and> q_head q \<noteq> q_tail q"
proof -
  let ?q = "latte_job_consumer_queue_new n"
  have "unat (q_head ?q) = 0 mod unat (q_size ?q)" "0 < unat (q_size ?q)" using assms by (simp_all add: latte_job_consumer_queue_new_def)
  then obtain m where m: "next_index ?q (q_head ?q) = Some m" "unat m = Suc 0 mod unat (q_size ?q)" using next_index_Some by blast
  then have "m \<noteq> 0" using assms by (auto simp: latte_job_consumer_queue_new_def)
  moreover have "0 < unat n" using assms by simp
  ultimately show ?thesis using m(1)
    by (auto simp: latte_job_consumer_queue_push_def latte_job_consumer_queue_is_full_def latte_job_consumer_queue_new_def put_slot_def
        get_at_def put_at_def next_index_def split: if_splits)
qed

section \<open>Properties\<close>

definition demo_job :: latte_job where
  "demo_job = latte_job_new empty_job 7 1 9"

lemma demo_run: "\<exists>s. reaches ordered (create_thread_consumer 3 0) s \<and> pushed s = [(7, 1, 9)] \<and> cpc s = C_head 0 \<and> fault s = None \<and> q_size (ctx s) = 3"
proof -
  let ?s = "create_thread_consumer 3 0"
  obtain q where q: "latte_job_consumer_queue_push True (ctx ?s) demo_job = Some q"
    using first_push [of 3 demo_job] by (auto simp: create_thread_consumer_def)
  have "q_size q = 3" using push_size [OF q] by (simp add: create_thread_consumer_def latte_job_consumer_queue_new_def)
  have "reaches ordered ?s (?s\<lparr>ctx := q, pushed := pushed ?s @ [payload demo_job]\<rparr>)"
    by (rule push_alone [OF q]) (simp_all add: create_thread_consumer_def demo_job_def latte_job_new_def latte_job_init_def)
  then show ?thesis using \<open>q_size q = 3\<close> by (intro exI [of _ "?s\<lparr>ctx := q, pushed := pushed ?s @ [payload demo_job]\<rparr>"])
    (simp add: create_thread_consumer_def payload_def demo_job_def latte_job_new_def latte_job_init_def)
qed

lemma runs_in_order:
  assumes "0 < unat n" "reaches True (create_thread_consumer n junk) s"
  shows "\<exists>waiting. pushed s = ran s @ waiting \<and> length waiting < unat (q_size (ctx s))
    \<and> fault s \<in> {None, Some Queue_full, Some Queue_not_empty}"
proof -
  have i: "inv s" using reaches_inv [OF assms(2) create_inv [OF assms(1)]] .
  then have r: "ring_inv s" "cons_inv s (cpc s)" by (simp_all add: inv_def)
  note D = ring_invD [OF r(1)]
  obtain m where m: "ran s = take m (pushed s)" "removed s \<le> m" "m \<le> length (pushed s)"
    using r(2) D(5) by (cases "cpc s") (auto intro: that [of "Suc (removed s)"] that [of "removed s"])
  have "pushed s = ran s @ drop m (pushed s)" using m(1) by simp
  moreover have "length (drop m (pushed s)) < cap s" using m(2) D(5,6) by simp
  ultimately show ?thesis using i by (auto simp: inv_def)
qed

text \<open>A consumer that has seen the first job and is about to read its slot.\<close>

lemma first_peek:
  assumes "2 \<le> unat n" "run job \<noteq> NULL"
  shows "\<exists>s x. reaches ordered (create_thread_consumer n junk) s \<and> fault s = None \<and> pushed s = [payload job] \<and> ran s = [] \<and> cpc s = C_peek 1
    \<and> get_at (ring_buffer (ctx s)) (unat (q_tail (ctx s))) = Some x \<and> payload x = payload job"
proof -
  let ?init = "create_thread_consumer n junk"
  obtain q where q: "latte_job_consumer_queue_push True (ctx ?init) job = Some q"
    using first_push [OF assms(1)] by (auto simp: create_thread_consumer_def)
  let ?s = "?init\<lparr>ctx := q, pushed := pushed ?init @ [payload job]\<rparr>"
  have s: "fault ?s = None" "cpc ?s = C_head 0" "pushed ?s = [payload job]" "removed ?s = 0" "ran ?s = []" by (simp_all add: create_thread_consumer_def)
  have r: "reaches ord ?init ?s" for ord using push_alone [OF q] assms(2) by (simp add: create_thread_consumer_def)
  have i: "inv ?s" using reaches_inv [OF r create_inv] assms(1) by simp
  then have ri: "ring_inv ?s" by (simp add: inv_def)
  note D = ring_invD [OF ri]
  have av: "unat (available (ctx ?s) (q_head (ctx ?s)) (q_tail (ctx ?s))) = 1 - 0"
    using D(3,4,6) s by (intro available_window) simp_all
  let ?p = "?s\<lparr>cpc := C_peek 1\<rparr>"
  have "step ordered ?s (?s\<lparr>cpc := C_tail 0 (q_head (ctx ?s))\<rparr>)" using s by (intro step.consumer) simp_all
  moreover have "step ordered (?s\<lparr>cpc := C_tail 0 (q_head (ctx ?s))\<rparr>) ?p"
    using s av by (intro step.consumer) (simp_all add: word_less_nat_alt)
  ultimately have "reaches ordered ?init ?p" using r [of ordered] by (meson rtranclp.rtrancl_into_rtrancl)
  moreover obtain x where "get_at (ring_buffer (ctx ?s)) (unat (q_tail (ctx ?s))) = Some x" "payload x = payload job"
    using tail_ready [OF ri, of 1] s by auto
  ultimately show ?thesis using s by (intro exI [of _ ?p] exI [of _ x]) simp
qed

lemma sees_no_function:
  assumes "2 \<le> unat n" "run job \<noteq> NULL"
  shows "\<exists>s. reaches False (create_thread_consumer n junk) s \<and> pushed s = [payload job] \<and> ran s = [] \<and> fault s = Some Queue_empty"
proof -
  obtain s x where s: "reaches False (create_thread_consumer n junk) s" "fault s = None" "pushed s = [payload job]" "ran s = []"
    "cpc s = C_peek 1" "get_at (ring_buffer (ctx s)) (unat (q_tail (ctx s))) = Some x" using first_peek [OF assms] by blast
  have "step False s (s\<lparr>fault := Some Queue_empty\<rparr>)"
    using step.stale_slot [of False s 1 x "x\<lparr>run := NULL\<rparr>"] s by (simp add: stale_def)
  with s(1) have "reaches False (create_thread_consumer n junk) (s\<lparr>fault := Some Queue_empty\<rparr>)" by (rule rtranclp.rtrancl_into_rtrancl)
  then show ?thesis using s(3,4) by (intro exI [of _ "s\<lparr>fault := Some Queue_empty\<rparr>"]) simp
qed

lemma sees_no_arguments:
  assumes "2 \<le> unat n" "run job \<noteq> NULL"
  shows "\<exists>s. reaches False (create_thread_consumer n junk) s \<and> pushed s = [payload job] \<and> ran s = [(run job, argc job, NULL)] \<and> fault s = None"
proof -
  obtain s x where s: "reaches False (create_thread_consumer n junk) s" "fault s = None" "pushed s = [payload job]" "ran s = []"
    "cpc s = C_peek 1" "get_at (ring_buffer (ctx s)) (unat (q_tail (ctx s))) = Some x" "payload x = payload job" using first_peek [OF assms] by blast
  let ?y = "x\<lparr>args := NULL\<rparr>" and ?t = "s\<lparr>ran := [(run job, argc job, NULL)], cpc := C_remove 1\<rparr>"
  have x: "run x = run job" "argc x = argc job" using s(7) by (simp_all add: payload_def)
  have "step False s (s\<lparr>cpc := C_run 1 ?y\<rparr>)"
    using step.stale_slot [of False s 1 x ?y] s x assms(2) by (simp add: stale_def)
  moreover have "step False (s\<lparr>cpc := C_run 1 ?y\<rparr>) ?t" using s x by (intro step.consumer) (simp_all add: payload_def)
  ultimately have "reaches False (create_thread_consumer n junk) ?t" using s(1) by (meson rtranclp.rtrancl_into_rtrancl)
  then show ?thesis using s(2,3) by (intro exI [of _ ?t]) simp
qed

text \<open>C19. Where the stores of a thread become visible in the order of the program, however the main thread and a consumer
  interleave and however late they see each other's indices, the consumer runs the jobs in the order in which they were
  pushed, each at most once and unchanged; fewer jobs are waiting than the ring has slots; and neither the assertions
  of the consumer nor an access to the ring can fail, whatever the uninitialised status holds. This order is needed, and
  the relaxed store of the head does not ask for it: without it the consumer may not see the function of the first job and
  abort, or may run it without its arguments.\<close>

theorem consumer_runs_in_order:
  assumes "2 \<le> unat n" "run job \<noteq> NULL"
  shows "(\<forall>s. reaches True (create_thread_consumer n junk) s \<longrightarrow>
      (\<exists>waiting. pushed s = ran s @ waiting \<and> length waiting < unat (q_size (ctx s))
        \<and> fault s \<in> {None, Some Queue_full, Some Queue_not_empty}))
    \<and> (\<exists>s. reaches False (create_thread_consumer n junk) s \<and> pushed s = [payload job] \<and> ran s = [] \<and> fault s = Some Queue_empty)
    \<and> (\<exists>s. reaches False (create_thread_consumer n junk) s \<and> pushed s = [payload job] \<and> ran s = [(run job, argc job, NULL)] \<and> fault s = None)"
proof -
  have "0 < unat n" using assms(1) by simp
  then show ?thesis using runs_in_order sees_no_function [OF assms] sees_no_arguments [OF assms] by blast
qed

theorem consumer_runs_in_order_witness:
  "(\<exists>s waiting. reaches True (create_thread_consumer 3 0) s \<and> pushed s = [(7, 1, 9)] \<and> [(7, 1, 9)] = ran s @ waiting \<and> length waiting < 3
      \<and> fault s \<in> {None, Some Queue_full, Some Queue_not_empty})
    \<and> (\<exists>s. reaches False (create_thread_consumer 3 0) s \<and> pushed s = [(7, 1, 9)] \<and> ran s = [(7, 1, 0)])"
proof -
  obtain s where s: "reaches True (create_thread_consumer 3 0) s" "pushed s = [(7, 1, 9)]" "q_size (ctx s) = 3" using demo_run by blast
  have d: "run demo_job = 7" "payload demo_job = (7, 1, 9)" "argc demo_job = 1"
    by (simp_all add: demo_job_def latte_job_new_def latte_job_init_def payload_def)
  have "2 \<le> unat (3 :: u64)" "run demo_job \<noteq> NULL" by (simp_all add: d)
  note t = consumer_runs_in_order [OF this, of 0, unfolded d]
  then obtain waiting where "pushed s = ran s @ waiting" "length waiting < unat (q_size (ctx s))"
    "fault s \<in> {None, Some Queue_full, Some Queue_not_empty}" using s(1) by blast
  moreover obtain s2 where "reaches False (create_thread_consumer 3 0) s2" "pushed s2 = [(7, 1, 9)]" "ran s2 = [(7, 1, 0)]" using t by blast
  ultimately show ?thesis using s by auto
qed

text \<open>C20. Where the stores of a thread become visible in the order of the program, a consumer that is at the start of its loop runs
  every job that has been pushed, when it is left alone and what the main thread has stored has become visible to it.\<close>

theorem consumer_drains:
  assumes "0 < unat n" "reaches True (create_thread_consumer n junk) s" "fault s = None" "cpc s = C_head 0"
  shows "\<exists>s'. cstep\<^sup>*\<^sup>* s s' \<and> fault s' = None \<and> cpc s' = C_head 0 \<and> pushed s' = pushed s \<and> ran s' = pushed s'"
proof -
  have i: "inv s" using reaches_inv [OF assms(2) create_inv [OF assms(1)]] .
  then have r: "ring_inv s" "cons_inv s (cpc s)" by (simp_all add: inv_def)
  note D = ring_invD [OF r(1)]
  show ?thesis
  proof (cases "removed s = length (pushed s)")
    case True
    then show ?thesis using r(2) assms(3,4) by (intro exI [of _ s]) simp
  next
    case False
    let ?n = "length (pushed s) - removed s" and ?s1 = "s\<lparr>cpc := C_tail 0 (q_head (ctx s))\<rparr>"
    let ?s2 = "s\<lparr>cpc := C_peek ?n\<rparr>"
    have n: "unat (available (ctx s) (q_head (ctx s)) (q_tail (ctx s))) = ?n" using D by (intro available_window) simp_all
    then have "cstep s ?s1" "cstep ?s1 ?s2" using assms(3,4) False D(5) by (simp_all add: cstep_def word_less_nat_alt)
    then have run: "cstep\<^sup>*\<^sup>* s ?s2" by auto
    then have "inv ?s2" using cstep_reaches reaches_inv i by blast
    from batch_runs [OF this] obtain s' where s': "cstep\<^sup>*\<^sup>* ?s2 s'" "fault s' = None" "pushed s' = pushed s" "cpc s' = C_head 0"
      "removed s' = length (pushed s)" using assms(3) False D(5) by auto
    have "cstep\<^sup>*\<^sup>* s s'" using run s'(1) by (rule rtranclp_trans)
    then have "inv s'" using cstep_reaches reaches_inv i by blast
    then show ?thesis using s' \<open>cstep\<^sup>*\<^sup>* s s'\<close> by (intro exI [of _ s']) (simp add: inv_def)
  qed
qed

theorem consumer_drains_witness:
  "\<exists>s s'. reaches True (create_thread_consumer 3 0) s \<and> pushed s = [(7, 1, 9)] \<and> cstep\<^sup>*\<^sup>* s s' \<and> ran s' = [(7, 1, 9)]"
proof -
  obtain s where s: "reaches True (create_thread_consumer 3 0) s" "pushed s = [(7, 1, 9)]" "cpc s = C_head 0" "fault s = None" using demo_run by blast
  from consumer_drains [OF _ s(1,4,3)] obtain s' where "cstep\<^sup>*\<^sup>* s s'" "pushed s' = pushed s" "ran s' = pushed s'" by auto
  then show ?thesis using s(1,2) by (intro exI [of _ s] exI [of _ s']) simp
qed

text \<open>C21. Deleting a consumer thread is not safe, whether stores are ordered or not. A job that is pushed between the last poll of the consumer and its look at
  the status is never run, and the process aborts because the queue is not empty. When the consumer has found
  the status unchanged and is about to take the mutex, the main thread takes the mutex and waits for the consumer, which
  waits for the mutex. And for a thread that was never activated the main thread waits for the mutex that it holds itself.\<close>

theorem deleting_consumer_fails:
  assumes "2 \<le> unat n" "run job \<noteq> NULL" "junk \<noteq> 1"
  shows "(\<exists>s. reaches ordered (create_thread_consumer n junk) s \<and> fault s = Some Queue_not_empty \<and> pushed s = [payload job] \<and> ran s = [])
    \<and> (\<exists>s. reaches ordered (create_thread_consumer n junk) s \<and> fault s = None \<and> mpc s = M_join \<and> cpc s = C_mutex \<and> (\<nexists>s'. step ordered s s'))
    \<and> (\<exists>s. reaches ordered (create_thread_consumer n junk) s \<and> fault s = None \<and> mpc s = M_lock \<and> cpc s = C_exit \<and> (\<nexists>s'. step ordered s s'))"
proof (intro conjI)
  let ?s0 = "create_thread_consumer n junk"
  have s0: "fault ?s0 = None" "mpc ?s0 = M_idle" "cpc ?s0 = C_head 0" "mutex ?s0 = Some Main" "ctx ?s0 = latte_job_consumer_queue_new n"
    "q_head (ctx ?s0) = q_tail (ctx ?s0)" "status ?s0 = junk" "pushed ?s0 = []" "ran ?s0 = []"
    by (simp_all add: create_thread_consumer_def latte_job_consumer_queue_new_def)
  let ?p = "?s0\<lparr>cpc := C_status\<rparr>"
  have p: "reaches ordered ?s0 ?p" using poll_empty [OF s0(1,6,3)] by simp
  let ?a = "?p\<lparr>mutex := None\<rparr>"
  have a: "reaches ordered ?s0 ?a" using p step.activate [of ?p] s0 by (auto intro: rtranclp.rtrancl_into_rtrancl)
  show "\<exists>s. reaches ordered ?s0 s \<and> fault s = Some Queue_not_empty \<and> pushed s = [payload job] \<and> ran s = []"
  proof -
    obtain q where q: "latte_job_consumer_queue_push True (ctx ?a) job = Some q" "q_head q \<noteq> q_tail q"
      using first_push [OF assms(1)] s0(5) by auto
    let ?b = "?a\<lparr>ctx := q, pushed := pushed ?a @ [payload job]\<rparr>"
    let ?c = "?b\<lparr>status := 1, mpc := M_lock\<rparr>"
    have "reaches ordered ?a ?b" using push_alone [OF q(1)] assms(2) s0 by simp
    moreover have "step ordered ?b ?c" using s0 by (intro step.stop) simp_all
    moreover have "step ordered ?c (?c\<lparr>cpc := C_exit\<rparr>)" using s0 by (intro step.consumer) simp_all
    moreover have "step ordered (?c\<lparr>cpc := C_exit\<rparr>) (?c\<lparr>cpc := C_exit, mutex := Some Main, mpc := M_join\<rparr>)" using s0 by (intro step.main) simp_all
    moreover have "step ordered (?c\<lparr>cpc := C_exit, mutex := Some Main, mpc := M_join\<rparr>) (?c\<lparr>cpc := C_exit, mutex := Some Main, mpc := M_join, fault := Some Queue_not_empty\<rparr>)"
      using s0 q(2) by (intro step.main) (simp_all add: latte_job_consumer_queue_delete_def)
    ultimately have "reaches ordered ?s0 (?c\<lparr>cpc := C_exit, mutex := Some Main, mpc := M_join, fault := Some Queue_not_empty\<rparr>)"
      using a by (meson rtranclp.rtrancl_into_rtrancl rtranclp_trans)
    then show ?thesis using s0 by (intro exI conjI) (assumption | simp)+
  qed
  show "\<exists>s. reaches ordered ?s0 s \<and> fault s = None \<and> mpc s = M_join \<and> cpc s = C_mutex \<and> (\<nexists>s'. step ordered s s')"
  proof -
    let ?b = "?a\<lparr>cpc := C_mutex\<rparr>" and ?c = "?a\<lparr>cpc := C_mutex, status := 1, mpc := M_lock\<rparr>"
    let ?d = "?c\<lparr>mutex := Some Main, mpc := M_join\<rparr>"
    have "step ordered ?a ?b" using s0 assms(3) by (intro step.consumer) simp_all
    moreover have "step ordered ?b ?c" using s0 step.stop [of ?b] by simp
    moreover have "step ordered ?c ?d" using s0 by (intro step.main) simp_all
    ultimately have "reaches ordered ?s0 ?d" using a by (meson rtranclp.rtrancl_into_rtrancl)
    moreover have "\<nexists>s'. step ordered ?d s'" by (auto elim!: stepE)
    ultimately show ?thesis using s0 by (intro exI [of _ ?d]) simp
  qed
  show "\<exists>s. reaches ordered ?s0 s \<and> fault s = None \<and> mpc s = M_lock \<and> cpc s = C_exit \<and> (\<nexists>s'. step ordered s s')"
  proof -
    let ?b = "?p\<lparr>status := 1, mpc := M_lock\<rparr>"
    let ?c = "?b\<lparr>cpc := C_exit\<rparr>"
    have "step ordered ?p ?b" using s0 by (intro step.stop) simp_all
    moreover have "step ordered ?b ?c" using s0 by (intro step.consumer) simp_all
    ultimately have "reaches ordered ?s0 ?c" using p by (meson rtranclp.rtrancl_into_rtrancl)
    moreover have "\<nexists>s'. step ordered ?c s'" using s0 by (auto elim!: stepE)
    ultimately show ?thesis using s0 by (intro exI [of _ ?c]) simp
  qed
qed

theorem deleting_consumer_fails_witness:
  "(\<exists>s. reaches True (create_thread_consumer 2 0) s \<and> fault s = Some Queue_not_empty \<and> pushed s = [(7, 1, 9)] \<and> ran s = [])
    \<and> (\<exists>s. reaches True (create_thread_consumer 2 0) s \<and> fault s = None \<and> mpc s = M_join \<and> cpc s = C_mutex \<and> (\<nexists>s'. step True s s'))
    \<and> (\<exists>s. reaches True (create_thread_consumer 2 0) s \<and> fault s = None \<and> mpc s = M_lock \<and> cpc s = C_exit \<and> (\<nexists>s'. step True s s'))"
  using deleting_consumer_fails [of 2 demo_job 0] by (simp add: payload_def demo_job_def latte_job_new_def latte_job_init_def)

end
