(* ===== verification/ThreadPool.thy ===== *)
theory ThreadPool
  imports ThreadJob
begin

text \<open>
  \<open>src/thread_pool/thread_pool.c\<close> and the manager of \<open>src/thread_job/thread_consumer_job.c\<close>: a stack of threads that grows and
  shrinks at its end, and the distribution of jobs over it. The functions that create and delete a thread are
  those of the client: \<open>create\<close> gives the thread for a number, NULL on failure, and the threads that are deleted are
  returned. Threads live at addresses; a thread is the record of \<open>ThreadJob\<close>.
\<close>

section \<open>The pool\<close>

record thread_pool =
  threads :: vector
  max_thread_num :: u64
  min_thread_num :: u64

definition latte_thread_pool_add_thread ::
  "(nat \<Rightarrow> ptr) \<Rightarrow> (nat \<Rightarrow> ptr) \<Rightarrow> thread_pool \<Rightarrow> (thread_pool \<times> bool) option" where
  "latte_thread_pool_add_thread junk create pool =
     (if \<not> v_count (threads pool) < max_thread_num pool then None
      else
        let th = create (unat (v_count (threads pool))) in
        if th = NULL then Some (pool, False)
        else do { v \<leftarrow> vector_push junk (threads pool) th; Some (pool\<lparr>threads := v\<rparr>, True) })"

definition latte_thread_pool_delete_thread :: "thread_pool \<Rightarrow> (thread_pool \<times> ptr) option" where
  "latte_thread_pool_delete_thread pool = do { (v, th) \<leftarrow> vector_pop (threads pool); Some (pool\<lparr>threads := v\<rparr>, th) }"

fun add_threads :: "(nat \<Rightarrow> ptr) \<Rightarrow> (nat \<Rightarrow> ptr) \<Rightarrow> thread_pool \<Rightarrow> nat \<Rightarrow> thread_pool option" where
  "add_threads junk create pool 0 = Some pool"
| "add_threads junk create pool (Suc k) =
     do { (pool, ok) \<leftarrow> latte_thread_pool_add_thread junk create pool; (if ok then add_threads junk create pool k else None) }"

definition latte_thread_pool_new :: "(nat \<Rightarrow> ptr) \<Rightarrow> (nat \<Rightarrow> ptr) \<Rightarrow> u64 \<Rightarrow> u64 \<Rightarrow> thread_pool option" where
  "latte_thread_pool_new junk create min_num max_num =
     add_threads junk create \<lparr>threads = vector_new, max_thread_num = max_num, min_thread_num = min_num\<rparr> (unat min_num)"

text \<open>\<open>for (i = 0; i < vector_size(pool->threads); i++) latte_thread_pool_delete_thread(pool);\<close> where the size shrinks too.\<close>

partial_function (option) delete_threads :: "thread_pool \<Rightarrow> u64 \<Rightarrow> ptr list option" where
  [code]: "delete_threads pool i =
     (if i < v_count (threads pool)
      then Option.bind (latte_thread_pool_delete_thread pool) (\<lambda>r. Option.bind (delete_threads (fst r) (i + 1)) (\<lambda>ds. Some (snd r # ds)))
      else Some [])"

definition latte_thread_pool_delete :: "thread_pool \<Rightarrow> ptr list option" where
  "latte_thread_pool_delete pool = delete_threads pool 0"

section \<open>The manager\<close>

record job_manager =
  pool :: thread_pool
  active_io_threads_num :: u64
  push_count :: int

type_synonym thread_heap = "ptr \<rightharpoonup> consumer_thread"

definition latte_thread_consumer_job_manager_new :: "(nat \<Rightarrow> ptr) \<Rightarrow> (nat \<Rightarrow> ptr) \<Rightarrow> u64 \<Rightarrow> u64 \<Rightarrow> job_manager option" where
  "latte_thread_consumer_job_manager_new junk create min_num max_num =
     do { p \<leftarrow> latte_thread_pool_new junk create min_num max_num; Some \<lparr>pool = p, active_io_threads_num = 0, push_count = 0\<rparr> }"

definition latte_thread_consumer_job_manager_delete :: "job_manager \<Rightarrow> ptr list option" where
  "latte_thread_consumer_job_manager_delete m = latte_thread_pool_delete (pool m)"

definition select_thread_from_pool :: "job_manager \<Rightarrow> ptr option" where
  "select_thread_from_pool m =
     (let v = threads (pool m) in if v_count v = 0 then None else vector_get v (word_of_int (push_count m) mod v_count v))"

definition latte_thread_consumer_job_manager_push :: "thread_heap \<Rightarrow> job_manager \<Rightarrow> latte_job \<Rightarrow> (thread_heap \<times> job_manager) option" where
  "latte_thread_consumer_job_manager_push h m job =
     do {
       th \<leftarrow> select_thread_from_pool m;
       t \<leftarrow> h th;
       q \<leftarrow> latte_job_consumer_queue_push True (ctx t) job;
       Some (h(th \<mapsto> t\<lparr>ctx := q, pushed := pushed t @ [payload job]\<rparr>), m\<lparr>push_count := push_count m + 1\<rparr>)
     }"

text \<open>Locking a mutex that the main thread holds, or unlocking one that it does not hold, is \<open>None\<close>.\<close>

fun deactivate_loop :: "thread_heap \<Rightarrow> job_manager \<Rightarrow> nat \<Rightarrow> (thread_heap \<times> job_manager) option" where
  "deactivate_loop h m 0 = Some (h, m)"
| "deactivate_loop h m (Suc k) =
     do {
       th \<leftarrow> vector_get (threads (pool m)) (active_io_threads_num m - 1);
       t \<leftarrow> h th;
       (if \<not> latte_job_consumer_queue_is_empty (ctx t) then Some (h, m)
        else if mutex t = Some Main then None
        else deactivate_loop (h(th \<mapsto> t\<lparr>mutex := Some Main\<rparr>)) (m\<lparr>active_io_threads_num := active_io_threads_num m - 1\<rparr>) k)
     }"

fun activate_loop :: "thread_heap \<Rightarrow> job_manager \<Rightarrow> nat \<Rightarrow> (thread_heap \<times> job_manager) option" where
  "activate_loop h m 0 = Some (h, m)"
| "activate_loop h m (Suc k) =
     do {
       th \<leftarrow> vector_get (threads (pool m)) (active_io_threads_num m);
       t \<leftarrow> h th;
       (if mutex t \<noteq> Some Main then None
        else activate_loop (h(th \<mapsto> t\<lparr>mutex := None\<rparr>)) (m\<lparr>active_io_threads_num := active_io_threads_num m + 1\<rparr>) k)
     }"

text \<open>The number of threads to change is an \<open>int\<close>; a loop with a negative bound does nothing.\<close>

definition latte_thread_consumer_job_manager_adjust :: "thread_heap \<Rightarrow> job_manager \<Rightarrow> u64 \<Rightarrow> (thread_heap \<times> job_manager) option" where
  "latte_thread_consumer_job_manager_adjust h m target =
     (if target = active_io_threads_num m then Some (h, m)
      else if target < active_io_threads_num m
        then deactivate_loop h m (nat (sint (ucast (active_io_threads_num m - target) :: u32)))
        else activate_loop h m (nat (sint (ucast (target - active_io_threads_num m) :: u32))))"

section \<open>Creating and deleting a pool\<close>

lemma add_threads_ok:
  assumes "vector_ok (threads p)" "unat (v_count (threads p)) + k \<le> unat (max_thread_num p)" "unat (v_count (threads p)) + k \<le> 2 ^ 59"
    "\<And>i. i < unat (v_count (threads p)) + k \<Longrightarrow> create i \<noteq> NULL"
  shows "\<exists>v. add_threads junk create p k = Some (p\<lparr>threads := v\<rparr>) \<and> vector_ok v
    \<and> vector_list v = vector_list (threads p) @ map create [unat (v_count (threads p))..<unat (v_count (threads p)) + k]"
  using assms
proof (induction k arbitrary: p)
  case 0
  then show ?case by (intro exI [of _ "threads p"]) simp
next
  case (Suc k)
  let ?n = "unat (v_count (threads p))"
  obtain v where v: "vector_push junk (threads p) (create ?n) = Some v" "vector_ok v" "vector_list v = vector_list (threads p) @ [create ?n]"
    "unat (v_count v) = Suc ?n" using vector_push_ok [of "threads p"] Suc.prems(1,3) by auto
  have add: "latte_thread_pool_add_thread junk create p = Some (p\<lparr>threads := v\<rparr>, True)"
    using v(1) Suc.prems(2) Suc.prems(4) [of ?n] by (simp add: latte_thread_pool_add_thread_def word_less_nat_alt Let_def)
  have "\<exists>w. add_threads junk create (p\<lparr>threads := v\<rparr>) k = Some (p\<lparr>threads := v, threads := w\<rparr>) \<and> vector_ok w
    \<and> vector_list w = vector_list v @ map create [unat (v_count v)..<unat (v_count v) + k]"
    using Suc.IH [of "p\<lparr>threads := v\<rparr>"] Suc.prems(2-4) v(2,4) by simp
  then show ?case using add v(3,4) by (auto simp: upt_conv_Cons simp del: upt_Suc)
qed

lemma delete_threads_ok:
  assumes "vector_ok (threads p)" "unat (v_count (threads p)) = n" "unat i + n \<le> 2 ^ 60"
  shows "delete_threads p i = Some (rev (drop (n - (n - unat i + 1) div 2) (vector_list (threads p))))"
  using assms
proof (induction n arbitrary: p i)
  case 0
  then show ?case by (subst delete_threads.simps) (simp add: word_less_nat_alt vector_list_def)
next
  case (Suc n)
  note len = length_vector_list [OF Suc.prems(1)]
  show ?case
  proof (cases "unat i < Suc n")
    case False
    then show ?thesis using Suc.prems(2) len by (subst delete_threads.simps) (simp add: word_less_nat_alt)
  next
    case True
    have ne: "vector_list (threads p) \<noteq> []" using len Suc.prems(2) by auto
    obtain v where v: "vector_pop (threads p) = Some (v, last (vector_list (threads p)))" "vector_ok v" "vector_list v = butlast (vector_list (threads p))"
      using vector_pop_ok [OF Suc.prems(1)] ne by auto
    have n: "unat (v_count v) = n" using length_vector_list [OF v(2)] v(3) len Suc.prems(2) by simp
    have i: "unat (i + 1) = Suc (unat i)" using Suc.prems(3) by (simp add: unat_word_ariths)
    have "delete_threads (p\<lparr>threads := v\<rparr>) (i + 1) = Some (rev (drop (n - (n - unat (i + 1) + 1) div 2) (vector_list v)))"
      using Suc.IH [of "p\<lparr>threads := v\<rparr>" "i + 1"] True Suc.prems n v(2) i by simp
    moreover have "n - (n - Suc (unat i) + 1) div 2 = Suc n - (Suc n - unat i + 1) div 2" using True by (cases "unat i = n") arith+
    moreover have "rev (drop m (vector_list (threads p))) = last (vector_list (threads p)) # rev (drop m (vector_list v))" if "m \<le> n" for m
    proof -
      have "drop m (vector_list (threads p)) \<noteq> []" using that len Suc.prems(2) by simp
      from append_butlast_last_id [OF this] have "drop m (vector_list (threads p)) = drop m (vector_list v) @ [last (vector_list (threads p))]"
        using that len Suc.prems(2) by (simp add: v(3) drop_butlast)
      then show ?thesis by simp
    qed
    ultimately show ?thesis using True Suc.prems(2) v(1) i
      by (subst delete_threads.simps) (simp add: word_less_nat_alt latte_thread_pool_delete_thread_def)
  qed
qed


section \<open>Distributing jobs\<close>

fun manager_pushes :: "thread_heap \<Rightarrow> job_manager \<Rightarrow> latte_job list \<Rightarrow> (thread_heap \<times> job_manager) option" where
  "manager_pushes h m [] = Some (h, m)"
| "manager_pushes h m (job # jobs) =
     do { (h, m) \<leftarrow> latte_thread_consumer_job_manager_push h m job; manager_pushes h m jobs }"

lemma manager_pushes_append:
  "manager_pushes h m (as @ bs) = do { (h, m) \<leftarrow> manager_pushes h m as; manager_pushes h m bs }"
  by (induction as arbitrary: h m) (auto split: bind_splits)

lemma push_room:
  assumes "inv s" "room s"
  shows "\<exists>q. latte_job_consumer_queue_push True (ctx s) job = Some q"
proof -
  have r: "ring_inv s" using assms(1) by (simp add: inv_def)
  note D = ring_invD [OF r]
  obtain n where n: "next_index (ctx s) (q_head (ctx s)) = Some n" "unat n = Suc (length (pushed s)) mod cap s"
    using next_index_Some [OF D(3,1)] by blast
  have "Suc (length (pushed s)) mod cap s \<noteq> removed s mod cap s"
    using mod_window [of "Suc (length (pushed s))" "cap s" "removed s"] assms(2) D(5) by (auto simp: room_def)
  then have "n \<noteq> q_tail (ctx s)" using n(2) D(4) by auto
  moreover have "unat (q_head (ctx s)) < length (ring_buffer (ctx s))" using D(1-3) by simp
  ultimately show ?thesis using n(1)
    by (simp add: latte_job_consumer_queue_push_def latte_job_consumer_queue_is_full_def put_slot_Some Let_def)
qed

text \<open>The jobs for the thread at position \<open>i\<close> of \<open>k\<close>.\<close>

definition share :: "nat \<Rightarrow> nat \<Rightarrow> latte_job list \<Rightarrow> payload list" where
  "share k i jobs = map (\<lambda>j. payload (jobs ! j)) (filter (\<lambda>j. j mod k = i) [0..<length jobs])"

lemma share_snoc: "share k i (jobs @ [job]) = share k i jobs @ (if length jobs mod k = i then [payload job] else [])"
  unfolding share_def by (auto simp: nth_append intro!: map_cong filter_cong)

lemma length_share: "length (share k i jobs) \<le> length jobs"
  unfolding share_def using length_filter_le [of "\<lambda>j. j mod k = i" "[0..<length jobs]"] by simp

lemma pushes_ok:
  assumes "vector_ok (threads (pool m))" "vector_list (threads (pool m)) = ths" "ths \<noteq> []" "distinct ths" "push_count m = 0"
    "\<And>th. th \<in> set ths \<Longrightarrow> h th = Some (create_thread_consumer n junk)" "length jobs < unat n" "\<forall>job \<in> set jobs. run job \<noteq> NULL"
  shows "\<exists>h'. manager_pushes h m jobs = Some (h', m\<lparr>push_count := int (length jobs)\<rparr>)
    \<and> (\<forall>i < length ths. \<exists>t. h' (ths ! i) = Some t \<and> inv t \<and> fault t = None \<and> mpc t = M_idle \<and> removed t = 0 \<and> cap t = unat n
        \<and> pushed t = share (length ths) i jobs)"
  using assms(7,8)
proof (induction jobs rule: rev_induct)
  case Nil
  have "\<exists>t. h (ths ! i) = Some t \<and> inv t \<and> fault t = None \<and> mpc t = M_idle \<and> removed t = 0 \<and> cap t = unat n \<and> pushed t = share (length ths) i []"
    if "i < length ths" for i
    using assms(6) [of "ths ! i"] that create_inv [of n junk] Nil
    by (simp add: create_thread_consumer_def latte_job_consumer_queue_new_def share_def)
  then show ?case using assms(5) by (intro exI [of _ h]) (cases m, simp)
next
  case (snoc job jobs)
  let ?k = "length ths" and ?l = "length jobs"
  obtain h1 where h1: "manager_pushes h m jobs = Some (h1, m\<lparr>push_count := int ?l\<rparr>)"
    "\<And>i. i < ?k \<Longrightarrow> \<exists>t. h1 (ths ! i) = Some t \<and> inv t \<and> fault t = None \<and> mpc t = M_idle \<and> removed t = 0 \<and> cap t = unat n \<and> pushed t = share ?k i jobs"
    using snoc by auto
  have k: "0 < ?k" "unat (v_count (threads (pool m))) = ?k" using assms(1-3) length_vector_list by auto
  then have j: "?l mod ?k < ?k" by simp
  obtain t where t: "h1 (ths ! (?l mod ?k)) = Some t" "inv t" "fault t = None" "mpc t = M_idle" "removed t = 0" "cap t = unat n"
    "pushed t = share ?k (?l mod ?k) jobs" using h1(2) [OF j] by blast
  have "room t" using t(5-7) length_share [of ?k "?l mod ?k" jobs] snoc.prems(1) by (simp add: room_def)
  then obtain q where q: "latte_job_consumer_queue_push True (ctx t) job = Some q" using push_room [OF t(2)] by blast
  let ?t = "t\<lparr>ctx := q, pushed := pushed t @ [payload job]\<rparr>"
  have "inv ?t" using reaches_inv [OF push_alone [OF q t(3,4)] t(2)] snoc.prems(2) by simp
  have sel: "select_thread_from_pool (m\<lparr>push_count := int ?l\<rparr>) = Some (ths ! (?l mod ?k))"
  proof -
    have "unat n < 2 ^ 64" using unsigned_less [of n] by simp
    then have "?l < 2 ^ 64" using snoc.prems(1) by simp
    then have "unat (word_of_int (int ?l) :: u64) = ?l" by (simp add: unat_of_nat take_bit_nat_eq_self)
    then have "unat (word_of_int (int ?l) mod v_count (threads (pool m)) :: u64) = ?l mod ?k" using k(2) by (simp add: unat_mod)
    moreover have "v_count (threads (pool m)) \<noteq> 0" using k by auto
    ultimately show ?thesis using vector_get_ok [OF assms(1)] j k(2) assms(2) by (simp add: select_thread_from_pool_def Let_def)
  qed
  let ?h = "h1(ths ! (?l mod ?k) \<mapsto> ?t)"
  have "manager_pushes h m (jobs @ [job]) = Some (?h, m\<lparr>push_count := int (length (jobs @ [job]))\<rparr>)"
    using h1(1) sel t(1) q by (simp add: manager_pushes_append latte_thread_consumer_job_manager_push_def)
  moreover have "\<exists>t. ?h (ths ! i) = Some t \<and> inv t \<and> fault t = None \<and> mpc t = M_idle \<and> removed t = 0 \<and> cap t = unat n
      \<and> pushed t = share ?k i (jobs @ [job])" if i: "i < ?k" for i
  proof (cases "i = ?l mod ?k")
    case True
    then show ?thesis using \<open>inv ?t\<close> t push_size [OF q] by (simp add: share_snoc)
  next
    case False
    then have "ths ! i \<noteq> ths ! (?l mod ?k)" using assms(4) i j by (simp add: nth_eq_iff_index_eq)
    then show ?thesis using h1(2) [OF i] False by (simp add: share_snoc)
  qed
  ultimately show ?case by blast
qed


text \<open>Activating threads unlocks the next ones of the pool.\<close>

definition unlocked :: "ptr set \<Rightarrow> thread_heap \<Rightarrow> thread_heap" where
  "unlocked A h = (\<lambda>th. if th \<in> A then map_option (mutex_update (\<lambda>_. None)) (h th) else h th)"

lemma activate_ok:
  fixes m :: job_manager
  defines "ths \<equiv> vector_list (threads (pool m))" and "a \<equiv> unat (active_io_threads_num m)"
  assumes "vector_ok (threads (pool m))" "distinct ths" "a + k \<le> length ths"
    "\<And>th. th \<in> set (take k (drop a ths)) \<Longrightarrow> \<exists>t. h th = Some t \<and> mutex t = Some Main"
  shows "activate_loop h m k = Some (unlocked (set (take k (drop a ths))) h, m\<lparr>active_io_threads_num := active_io_threads_num m + of_nat k\<rparr>)"
  using assms(3-6) unfolding ths_def a_def
proof (induction k arbitrary: h m)
  case 0
  then show ?case by (simp add: unlocked_def)
next
  case (Suc k)
  let ?ths = "vector_list (threads (pool m))" and ?a = "unat (active_io_threads_num m)"
  let ?m = "m\<lparr>active_io_threads_num := active_io_threads_num m + 1\<rparr>" and ?R = "set (take k (drop (Suc ?a) ?ths))"
  note len = length_vector_list [OF Suc.prems(1)]
  have split: "take (Suc k) (drop ?a ?ths) = ?ths ! ?a # take k (drop (Suc ?a) ?ths)"
    using Suc.prems(3) by (simp add: Cons_nth_drop_Suc [symmetric])
  have new: "?ths ! ?a \<notin> ?R" using Suc.prems(2,3) distinct_take [OF distinct_drop [OF Suc.prems(2)], of "Suc k" ?a] split by simp
  obtain t where t: "h (?ths ! ?a) = Some t" "mutex t = Some Main" using Suc.prems(4) [of "?ths ! ?a"] split by auto
  let ?h = "h(?ths ! ?a \<mapsto> t\<lparr>mutex := None\<rparr>)"
  have "unat (v_count (threads (pool m))) < 2 ^ 64" using unsigned_less [of "v_count (threads (pool m))"] by simp
  then have "?a < 2 ^ 64 - 1" using Suc.prems(3) len by simp
  then have a: "unat (active_io_threads_num m + 1) = Suc ?a" by (simp add: unat_word_ariths)
  have "activate_loop ?h ?m k = Some (unlocked ?R ?h, ?m\<lparr>active_io_threads_num := active_io_threads_num ?m + of_nat k\<rparr>)"
  proof -
    have "\<exists>t. ?h th = Some t \<and> mutex t = Some Main" if "th \<in> ?R" for th
    proof -
      have "th \<in> set (take (Suc k) (drop ?a ?ths))" "th \<noteq> ?ths ! ?a" using that new unfolding split by auto
      then show ?thesis using Suc.prems(4) by auto
    qed
    then show ?thesis using Suc.IH [of ?m ?h] Suc.prems(1-3) by (simp add: a del: fun_upd_apply)
  qed
  moreover have "unlocked ?R ?h = unlocked (set (take (Suc k) (drop ?a ?ths))) h"
    using new t(1) unfolding split by (auto simp: unlocked_def fun_eq_iff)
  moreover have "vector_get (threads (pool m)) (active_io_threads_num m) = Some (?ths ! ?a)"
    using vector_get_ok [OF Suc.prems(1)] Suc.prems(3) len by simp
  ultimately show ?case using t by (simp add: add.assoc)
qed

section \<open>Properties\<close>

text \<open>A new pool creates its minimum of threads, numbered from 0; deleting it deletes only the upper half of them: the loop
  compares a growing index with a shrinking size.\<close>

theorem pool_delete_forgets_half:
  assumes "k = unat min_num" "min_num \<le> max_num" "k \<le> 2 ^ 59" "\<And>i. i < k \<Longrightarrow> create i \<noteq> NULL"
  shows "\<exists>p. latte_thread_pool_new junk create min_num max_num = Some p \<and> vector_list (threads p) = map create [0..<k]
    \<and> latte_thread_pool_delete p = Some (rev (map create [k div 2..<k]))"
proof -
  let ?p = "\<lparr>threads = vector_new, max_thread_num = max_num, min_thread_num = min_num\<rparr>"
  have new: "vector_ok (threads ?p)" "unat (v_count (threads ?p)) = 0" "vector_list (threads ?p) = []"
    by (simp_all add: vector_ok_def vector_new_def vector_list_def)
  then obtain v where v: "add_threads junk create ?p k = Some (?p\<lparr>threads := v\<rparr>)" "vector_ok v" "vector_list v = map create [0..<k]"
    using add_threads_ok [OF new(1), where k = k and create = create and junk = junk] assms by (auto simp: word_le_nat_alt)
  have "unat (v_count v) = k" using length_vector_list [OF v(2)] v(3) by simp
  then have "latte_thread_pool_delete (?p\<lparr>threads := v\<rparr>) = Some (rev (drop (k - (k + 1) div 2) (map create [0..<k])))"
    using delete_threads_ok [of "?p\<lparr>threads := v\<rparr>" k 0] v(2,3) assms(3) by (simp add: latte_thread_pool_delete_def)
  moreover have "k - (k + 1) div 2 = k div 2" by arith
  ultimately show ?thesis using v assms(1) by (simp add: latte_thread_pool_new_def drop_map)
qed

theorem pool_delete_forgets_half_witness:
  "\<exists>p. latte_thread_pool_new (\<lambda>_. 0) (\<lambda>i. if i = 0 then 1 else if i = 1 then 2 else 3) 3 8 = Some p \<and> vector_list (threads p) = [1, 2, 3]
    \<and> latte_thread_pool_delete p = Some [3, 2]"
  using pool_delete_forgets_half [of 3 3 8 "\<lambda>i. if i = 0 then 1 else if i = 1 then 2 else 3" "\<lambda>_. 0"] by (simp add: upt_rec)

text \<open>The manager hands the jobs to the threads of its pool in turn: the \<open>j\<close>-th job goes to thread \<open>j mod k\<close>, and every
  thread has its share in its ring in the order of pushing.\<close>

theorem manager_round_robin:
  assumes "k = unat min_num" "0 < k" "min_num \<le> max_num" "k \<le> 2 ^ 59" "\<And>i. i < k \<Longrightarrow> create i \<noteq> NULL" "inj_on create {..<k}"
    "\<And>i. i < k \<Longrightarrow> h (create i) = Some (create_thread_consumer n st)" "length jobs < unat n" "\<forall>job \<in> set jobs. run job \<noteq> NULL"
  shows "\<exists>m h' m'. latte_thread_consumer_job_manager_new junk create min_num max_num = Some m \<and> manager_pushes h m jobs = Some (h', m')
    \<and> (\<forall>i < k. \<exists>t. h' (create i) = Some t \<and> inv t \<and> pushed t = share k i jobs)"
proof -
  let ?p = "\<lparr>threads = vector_new, max_thread_num = max_num, min_thread_num = min_num\<rparr>"
  have new: "vector_ok (threads ?p)" "unat (v_count (threads ?p)) = 0" "vector_list (threads ?p) = []"
    by (simp_all add: vector_ok_def vector_new_def vector_list_def)
  then obtain v where v: "add_threads junk create ?p k = Some (?p\<lparr>threads := v\<rparr>)" "vector_ok v" "vector_list v = map create [0..<k]"
    using add_threads_ok [OF new(1), where k = k and create = create and junk = junk] assms(1,3-5) by (auto simp: word_le_nat_alt)
  let ?m = "\<lparr>pool = ?p\<lparr>threads := v\<rparr>, active_io_threads_num = 0, push_count = 0\<rparr>"
  have m: "latte_thread_consumer_job_manager_new junk create min_num max_num = Some ?m"
    using v(1) assms(1) by (simp add: latte_thread_consumer_job_manager_new_def latte_thread_pool_new_def)
  have "distinct (map create [0..<k])" using assms(6) by (simp add: distinct_map atLeast0LessThan)
  moreover have "h th = Some (create_thread_consumer n st)" if "th \<in> set (map create [0..<k])" for th using assms(7) that by auto
  ultimately obtain h' where h': "manager_pushes h ?m jobs = Some (h', ?m\<lparr>push_count := int (length jobs)\<rparr>)"
    "\<forall>i < k. \<exists>t. h' (create i) = Some t \<and> inv t \<and> fault t = None \<and> mpc t = M_idle \<and> removed t = 0 \<and> cap t = unat n \<and> pushed t = share k i jobs"
    using pushes_ok [of ?m "map create [0..<k]" h n st jobs] v(2,3) assms(2,8,9) by auto
  then have "\<forall>i < k. \<exists>t. h' (create i) = Some t \<and> inv t \<and> pushed t = share k i jobs" by blast
  then show ?thesis using m h'(1) by blast
qed

theorem manager_round_robin_witness:
  "\<exists>m h' m' t. latte_thread_consumer_job_manager_new (\<lambda>_. 0) (\<lambda>i. if i = 0 then 1 else 2) 2 8 = Some m
    \<and> manager_pushes (\<lambda>_. Some (create_thread_consumer 40000 0)) m [demo_job, demo_job, demo_job] = Some (h', m')
    \<and> h' 1 = Some t \<and> pushed t = [(7, 1, 9), (7, 1, 9)]"
proof -
  have "inj_on (\<lambda>i. if i = 0 then 1 else 2 :: ptr) {..<2 :: nat}" by (auto simp: inj_on_def)
  note rr = manager_round_robin [of 2 2 8, OF _ _ _ _ _ this, of "\<lambda>_. Some (create_thread_consumer 40000 0)" 40000 0 "[demo_job, demo_job, demo_job]" "\<lambda>_. 0"]
  have "\<exists>m h' m'. latte_thread_consumer_job_manager_new (\<lambda>_. 0) (\<lambda>i. if i = 0 then 1 else 2) 2 8 = Some m
    \<and> manager_pushes (\<lambda>_. Some (create_thread_consumer 40000 0)) m [demo_job, demo_job, demo_job] = Some (h', m')
    \<and> (\<forall>i < 2. \<exists>t. h' (if i = 0 then 1 else 2) = Some t \<and> inv t \<and> pushed t = share 2 i [demo_job, demo_job, demo_job])"
    by (rule rr) (simp_all add: demo_job_def latte_job_new_def latte_job_init_def)
  then obtain m h' m' where m: "latte_thread_consumer_job_manager_new (\<lambda>_. 0) (\<lambda>i. if i = 0 then 1 else 2) 2 8 = Some m"
    "manager_pushes (\<lambda>_. Some (create_thread_consumer 40000 0)) m [demo_job, demo_job, demo_job] = Some (h', m')"
    "\<forall>i < 2. \<exists>t. h' (if i = 0 then 1 else 2) = Some t \<and> inv t \<and> pushed t = share 2 i [demo_job, demo_job, demo_job]" by blast
  from m(3) [rule_format, of 0] obtain t where "h' 1 = Some t" "pushed t = share 2 0 [demo_job, demo_job, demo_job]" by auto
  moreover have "share 2 0 [demo_job, demo_job, demo_job] = [(7, 1, 9), (7, 1, 9)]"
    by (simp add: share_def payload_def demo_job_def latte_job_new_def latte_job_init_def upt_rec)
  ultimately show ?thesis using m(1,2) by auto
qed

end
