(* ===== verification/Localtime.thy ===== *)
theory Localtime
  imports Prelude
begin

text \<open>
  \<open>src/time/localtime.c\<close>: the conversion of a time in seconds to a calendar date without the locks of the C library. \<open>time_t\<close>
  is a signed 64-bit integer and \<open>int\<close> a signed 32-bit one; an overflow of either is \<open>None\<close>. Division and remainder
  truncate towards 0. The functions that ask the operating system for the time are not modelled.
\<close>

record tm =
  tm_sec :: int
  tm_min :: int
  tm_hour :: int
  tm_mday :: int
  tm_mon :: int
  tm_year :: int
  tm_wday :: int
  tm_yday :: int
  tm_isdst :: int

definition is_leap_year :: "int \<Rightarrow> int" where
  "is_leap_year year =
     (if year smod 4 \<noteq> 0 then 0
      else if year smod 100 \<noteq> 0 then 1
      else if year smod 400 \<noteq> 0 then 0
      else 1)"

definition checked64 :: "int \<Rightarrow> int option" where
  "checked64 v = (if in_int64 v then Some v else None)"

text \<open>The loop over the years: the year and the days left in it.\<close>

partial_function (option) year_loop :: "int \<Rightarrow> int \<Rightarrow> (int \<times> int) option" where
  [code]: "year_loop year days =
     (let days_this_year = 365 + is_leap_year year in
      if days_this_year > days then Some (year, days)
      else Option.bind (checked32 (year + 1)) (\<lambda>year. year_loop year (days - days_this_year)))"

text \<open>The loop over the months, which reads the table of their lengths.\<close>

partial_function (option) month_loop :: "int list \<Rightarrow> nat \<Rightarrow> int \<Rightarrow> (nat \<times> int) option" where
  [code]: "month_loop mdays mon days =
     Option.bind (get_at mdays mon) (\<lambda>n. if days \<ge> n then month_loop mdays (mon + 1) (days - n) else Some (mon, days))"

definition nolocks_localtime :: "int \<Rightarrow> int \<Rightarrow> int \<Rightarrow> tm option" where
  "nolocks_localtime t tz dst =
     do {
       t \<leftarrow> checked64 (t - tz);
       d \<leftarrow> checked32 (3600 * dst);
       t \<leftarrow> checked64 (t + d);
       let days = t sdiv 86400;
       let seconds = t smod 86400;
       (year, yday) \<leftarrow> year_loop 1970 days;
       let mdays = [31, 28 + is_leap_year year, 31, 30, 31, 30, 31, 31, 30, 31, 30, 31];
       (mon, days') \<leftarrow> month_loop mdays 0 yday;
       Some \<lparr>tm_sec = (seconds smod 3600) smod 60, tm_min = (seconds smod 3600) sdiv 60, tm_hour = seconds sdiv 3600,
         tm_mday = days' + 1, tm_mon = int mon, tm_year = year - 1900, tm_wday = (days + 4) smod 7, tm_yday = yday, tm_isdst = dst\<rparr>
     }"

section \<open>The Gregorian calendar\<close>

text \<open>The days before a year, counted from 1 January 1970, and the days before a month of a year, by the rules of the
  calendar: 365 days a year and a leap day every fourth year, but not every hundredth, but every four hundredth.\<close>

definition days_before_year :: "int \<Rightarrow> int" where
  "days_before_year y = 365 * (y - 1970) + ((y - 1) div 4 - (y - 1) div 100 + (y - 1) div 400 - 477)"

definition leap :: "int \<Rightarrow> bool" where
  "leap y \<longleftrightarrow> 4 dvd y \<and> (100 dvd y \<longrightarrow> 400 dvd y)"

definition month_lengths :: "int \<Rightarrow> int list" where
  "month_lengths y = [31, if leap y then 29 else 28, 31, 30, 31, 30, 31, 31, 30, 31, 30, 31]"

definition day_number :: "int \<Rightarrow> nat \<Rightarrow> int \<Rightarrow> int" where
  "day_number y m d = days_before_year y + sum_list (take m (month_lengths y)) + (d - 1)"

lemma smod_zero_iff: "a smod b = 0 \<longleftrightarrow> b dvd a" for a b :: int
  by (auto simp: smod_int_alt_def sgn_if simp flip: dvd_eq_mod_eq_0)

lemma centuries: "100 dvd y \<Longrightarrow> 4 dvd y" "400 dvd y \<Longrightarrow> 100 dvd y" for y :: int
  using dvd_trans [of 4 100 y] dvd_trans [of 100 400 y] by simp_all

lemma is_leap_year_leap: "is_leap_year y = (if leap y then 1 else 0)"
  unfolding is_leap_year_def leap_def smod_zero_iff
  by (cases "4 dvd y"; cases "100 dvd y"; cases "400 dvd y"; use centuries [of y] in \<open>simp only: if_True if_False simp_thms\<close>)

lemma div_pred: "0 < n \<Longrightarrow> y div n = (y - 1) div n + (if n dvd y then 1 else 0)" for n y :: int
proof -
  assume n: "0 < n"
  have y: "y = n * (y div n) + y mod n" by simp
  show ?thesis
  proof (cases "n dvd y")
    case True
    then have "(y - 1) div n = y div n - 1" using n y by (intro int_div_pos_eq [of _ _ _ "n - 1"]) (simp_all add: algebra_simps)
    with True show ?thesis by simp
  next
    case False
    then have "y mod n \<noteq> 0" "0 \<le> y mod n" "y mod n < n" using n by (simp_all add: dvd_eq_mod_eq_0)
    then have "0 < y mod n" "y mod n < n" by linarith+
    then have "(y - 1) div n = y div n" using n y by (intro int_div_pos_eq [of _ _ _ "y mod n - 1"]) linarith+
    with False show ?thesis by simp
  qed
qed

lemma nonneg_sdiv: "0 \<le> a \<Longrightarrow> 0 < b \<Longrightarrow> a sdiv b = a div b" for a b :: int
  by (cases "a = 0") (simp_all add: signed_divide_int_def)

lemma nonneg_smod: "0 \<le> a \<Longrightarrow> 0 < b \<Longrightarrow> a smod b = a mod b" for a b :: int
  by (simp add: smod_mod_positive)

lemma leap_count:
  "u = a + (if p then 1 else 0) \<Longrightarrow> v = b + (if q then 1 else 0) \<Longrightarrow> w = c + (if r then 1 else 0) \<Longrightarrow> (q \<Longrightarrow> p) \<Longrightarrow> (r \<Longrightarrow> q)
   \<Longrightarrow> 365 * (y - 1969) + (u - v + w - 477) = 365 * (y - 1970) + (a - b + c - 477) + 365 + (if p \<and> (q \<longrightarrow> r) then 1 else 0)"
  for u v w a b c y :: int
  by (cases p; cases q; cases r; simp)

lemma days_before_Suc: "days_before_year (y + 1) = days_before_year y + 365 + is_leap_year y"
proof -
  have "days_before_year (y + 1) = 365 * (y - 1969) + (y div 4 - y div 100 + y div 400 - 477)"
    unfolding days_before_year_def add_diff_cancel_right' by (simp only: right_diff_distrib distrib_left)
  also have "\<dots> = days_before_year y + 365 + is_leap_year y"
    unfolding days_before_year_def is_leap_year_leap leap_def
    by (rule leap_count [OF div_pred div_pred div_pred centuries, OF zero_less_numeral zero_less_numeral zero_less_numeral])
  finally show ?thesis .
qed

lemma days_before_mono: "y \<le> z \<Longrightarrow> days_before_year y \<le> days_before_year z"
  by (induction z rule: int_ge_induct) (simp_all add: days_before_Suc is_leap_year_leap)

lemma year_loop_ok:
  assumes "0 \<le> days" "1970 \<le> year" "days_before_year year + days < days_before_year (2 ^ 31)"
  shows "\<exists>y d. year_loop year days = Some (y, d) \<and> year \<le> y \<and> 0 \<le> d \<and> d < 365 + is_leap_year y
    \<and> days_before_year y + d = days_before_year year + days"
  using assms
proof (induction "nat days" arbitrary: year days rule: less_induct)
  case less
  let ?n = "365 + is_leap_year year"
  have n: "365 \<le> ?n" "?n \<le> 366" by (simp_all add: is_leap_year_leap)
  show ?case
  proof (cases "?n > days")
    case True
    then show ?thesis using less.prems by (subst year_loop.simps) simp
  next
    case False
    have left: "days_before_year (year + 1) + (days - ?n) = days_before_year year + days" by (simp add: days_before_Suc)
    then have "days_before_year (year + 1) < days_before_year (2 ^ 31)" using False less.prems(3) by linarith
    then have "year + 1 < 2 ^ 31" using days_before_mono [of "2 ^ 31" "year + 1"] by linarith
    moreover from this obtain y d where "year_loop (year + 1) (days - ?n) = Some (y, d)" "year + 1 \<le> y" "0 \<le> d" "d < 365 + is_leap_year y"
      "days_before_year y + d = days_before_year (year + 1) + (days - ?n)"
      using less.hyps [of "days - ?n" "year + 1"] less.prems False n by (auto simp: days_before_Suc)
    ultimately show ?thesis using False less.prems(2) by (subst year_loop.simps) (simp add: checked32_def days_before_Suc)
  qed
qed

lemma month_loop_ok:
  assumes "0 \<le> d" "m \<le> length ms" "d < sum_list (drop m ms)"
  shows "\<exists>m' d'. month_loop ms m d = Some (m', d') \<and> m' < length ms \<and> 0 \<le> d' \<and> d' < ms ! m'
    \<and> sum_list (take m' ms) + d' = sum_list (take m ms) + d"
  using assms
proof (induction "length ms - m" arbitrary: m d)
  case (Suc k)
  then have m: "m < length ms" by simp
  then have split: "sum_list (drop m ms) = ms ! m + sum_list (drop (Suc m) ms)" "sum_list (take (Suc m) ms) = sum_list (take m ms) + ms ! m"
    by (simp_all add: Cons_nth_drop_Suc [symmetric] take_Suc_conv_app_nth)
  show ?case
  proof (cases "d \<ge> ms ! m")
    case True
    then have "\<exists>m' d'. month_loop ms (Suc m) (d - ms ! m) = Some (m', d') \<and> m' < length ms \<and> 0 \<le> d' \<and> d' < ms ! m'
      \<and> sum_list (take m' ms) + d' = sum_list (take (Suc m) ms) + (d - ms ! m)"
      using Suc.hyps(2) Suc.prems m split(1) by (intro Suc.hyps(1)) auto
    then show ?thesis using True m split(2) by (subst month_loop.simps) (auto simp: get_at_def)
  next
    case False
    then show ?thesis using Suc.prems(1) m by (subst month_loop.simps) (auto simp: get_at_def)
  qed
qed simp

lemma recompose: "s = a * 86400 + q \<Longrightarrow> q = h * 3600 + r \<Longrightarrow> r = m * 60 + z \<Longrightarrow> s = ((a * 24 + h) * 60 + m) * 60 + z" for s :: int
  by simp

section \<open>Properties\<close>

text \<open>C22. For every time from 1970 on, up to the end of the year 2147483647, the last one an \<open>int\<close> holds, the conversion ends and returns the date of the
  Gregorian calendar: the fields are in their ranges, and day number, hour, minute and second make up the time; the weekday
  and the day of the year belong to it.\<close>

theorem localtime_is_gregorian:
  assumes "in_int64 (t - tz)" "dst \<in> {0, 1}" "s = t - tz + 3600 * dst" "0 \<le> s" "s < 86400 * days_before_year (2 ^ 31)"
  shows "\<exists>r y m. nolocks_localtime t tz dst = Some r \<and> y = tm_year r + 1900 \<and> m = nat (tm_mon r) \<and> tm_isdst r = dst
    \<and> 0 \<le> tm_sec r \<and> tm_sec r < 60 \<and> 0 \<le> tm_min r \<and> tm_min r < 60 \<and> 0 \<le> tm_hour r \<and> tm_hour r < 24
    \<and> 1970 \<le> y \<and> 0 \<le> tm_mon r \<and> m < 12 \<and> 1 \<le> tm_mday r \<and> tm_mday r \<le> month_lengths y ! m
    \<and> s = ((day_number y m (tm_mday r) * 24 + tm_hour r) * 60 + tm_min r) * 60 + tm_sec r
    \<and> tm_wday r = (day_number y m (tm_mday r) + 4) mod 7 \<and> tm_yday r = day_number y m (tm_mday r) - days_before_year y"
proof -
  have c: "checked64 (t - tz) = Some (t - tz)" "checked32 (3600 * dst) = Some (3600 * dst)" "checked64 (t - tz + 3600 * dst) = Some s"
    using assms by (auto simp: checked64_def checked32_def in_int64_def days_before_year_def)
  have pos: "s sdiv 86400 = s div 86400" "s smod 86400 = s mod 86400"
    using assms(4) by (simp_all add: nonneg_sdiv nonneg_smod)
  have start: "days_before_year 1970 = 0" by (simp add: days_before_year_def)
  have "0 \<le> s div 86400" "days_before_year 1970 + s div 86400 < days_before_year (2 ^ 31)" using assms(4,5) start by simp_all
  then obtain y d where y: "year_loop 1970 (s div 86400) = Some (y, d)" "1970 \<le> y" "0 \<le> d" "d < 365 + is_leap_year y"
    "days_before_year y + d = s div 86400" using year_loop_ok [of "s div 86400" 1970] by (auto simp: start)
  have ms: "[31, 28 + is_leap_year y, 31, 30, 31, 30, 31, 31, 30, 31, 30, 31] = month_lengths y" by (simp add: month_lengths_def is_leap_year_leap)
  have "d < sum_list (drop 0 (month_lengths y))" using y(4) by (simp add: month_lengths_def is_leap_year_leap split: if_splits)
  then obtain m d' where m: "month_loop (month_lengths y) 0 d = Some (m, d')" "m < 12" "0 \<le> d'" "d' < month_lengths y ! m"
    "sum_list (take m (month_lengths y)) + d' = d" using month_loop_ok [OF y(3), of 0 "month_lengths y"] by (auto simp: month_lengths_def)
  define D Q where "D = s div 86400" "Q = s mod 86400"
  define H M Z W where "H = Q div 3600" "M = Q mod 3600 div 60" "Z = Q mod 3600 mod 60" "W = (D + 4) mod 7"
  have Q: "0 \<le> Q" "Q < 86400" "0 \<le> D" using assms(4) by (simp_all add: D_Q_def)
  have q: "Q sdiv 3600 = H" "(Q smod 3600) sdiv 60 = M" "(Q smod 3600) smod 60 = Z" "(D + 4) smod 7 = W"
    using Q by (simp_all add: nonneg_sdiv nonneg_smod H_M_Z_W_def)
  let ?r = "\<lparr>tm_sec = Z, tm_min = M, tm_hour = H, tm_mday = d' + 1, tm_mon = int m, tm_year = y - 1900, tm_wday = W, tm_yday = d, tm_isdst = dst\<rparr>"
  have run: "nolocks_localtime t tz dst = Some ?r"
    using c y(1) m(1) unfolding nolocks_localtime_def by (simp add: Let_def pos ms q flip: D_Q_def)
  have day: "day_number y m (d' + 1) = D" "D = days_before_year y + d" using y(5) m(5) by (simp_all add: day_number_def D_Q_def)
  have "s = ((D * 24 + H) * 60 + M) * 60 + Z"
    by (rule recompose [of _ _ Q _ "Q mod 3600"]) (simp_all add: div_mult_mod_eq D_Q_def H_M_Z_W_def)
  moreover have "0 \<le> Z" "Z < 60" "0 \<le> M" "M < 60" "0 \<le> H" using Q(1) by (simp_all add: H_M_Z_W_def)
  moreover have "H < 24" using Q unfolding H_M_Z_W_def by linarith
  moreover have "M < 60" unfolding H_M_Z_W_def by simp
  ultimately show ?thesis using run y(2) m(2-4) day unfolding H_M_Z_W_def(4)
    by (intro exI [of _ ?r] exI [of _ y] exI [of _ m]) (simp add: H_M_Z_W_def(4))
qed

theorem localtime_is_gregorian_witness:
  "\<exists>r. nolocks_localtime 951782400 (- 3600) 1 = Some r \<and> 951789600 =
      ((day_number (tm_year r + 1900) (nat (tm_mon r)) (tm_mday r) * 24 + tm_hour r) * 60 + tm_min r) * 60 + tm_sec r
    \<and> r = \<lparr>tm_sec = 0, tm_min = 0, tm_hour = 2, tm_mday = 29, tm_mon = 1, tm_year = 100, tm_wday = 2, tm_yday = 59, tm_isdst = 1\<rparr>"
proof -
  have "nolocks_localtime 951782400 (- 3600) 1 =
      Some \<lparr>tm_sec = 0, tm_min = 0, tm_hour = 2, tm_mday = 29, tm_mon = 1, tm_year = 100, tm_wday = 2, tm_yday = 59, tm_isdst = 1\<rparr>"
    by code_simp
  with localtime_is_gregorian [of 951782400 "- 3600" 1, OF _ _ refl] show ?thesis by (auto simp: in_int64_def days_before_year_def)
qed

end
