(* ===== verification/ObjectManager.thy ===== *)
theory ObjectManager
  imports Odb Cmp
begin

text \<open>
  \<open>src/object/object.c\<close> and \<open>src/object/object_manager.c\<close>: objects with a type and a reference cnt, and the registry of types. A
  type is a name and five functions; they are the function pointers of the table, with NULL as \<open>None\<close>. They act on a world of
  objects at addresses and of whatever the types keep behind the pointers of their objects, and on the state of an input/output
  object of \<open>Odb\<close>. Reading an object that is not allocated is \<open>None\<close>. Of an error only its code is kept.
  The blob type of the tests (\<open>object_test.c\<close>) is the instance on which the contract of a type is interpreted.
\<close>

section \<open>Objects\<close>

datatype error_code = COk | CNotFound | CCorruption | CNotSupported | CInvalidArgument | CIOError

record latte_object =
  o_type :: byte
  o_lru :: "24 word"
  o_refcount :: u32
  o_ptr :: "nat option"

record 'd world =
  w_objs :: "nat \<rightharpoonup> latte_object"
  w_data :: 'd

record ('s, 'd) type_entry =
  used :: bool
  type_name :: "sds option"
  create_fn :: "('d world \<Rightarrow> ('d world \<times> nat option) option) option"
  release_fn :: "('d world \<Rightarrow> nat \<Rightarrow> 'd world option) option"
  save_fn :: "('d world \<Rightarrow> 's \<Rightarrow> nat \<Rightarrow> ('d world \<times> 's \<times> error_code) option) option"
  load_fn :: "('d world \<Rightarrow> 's \<Rightarrow> ('d world \<times> 's \<times> error_code option \<times> nat option) option) option"
  calc_fn :: "('d world \<Rightarrow> nat \<Rightarrow> u64 option) option"

abbreviation OBJECT_MANAGER_MAX_TYPES :: nat where
  "OBJECT_MANAGER_MAX_TYPES \<equiv> 256"

record ('s, 'd) object_manager =
  om_types :: "('s, 'd) type_entry list"

definition set_obj :: "'d world \<Rightarrow> nat \<Rightarrow> latte_object \<Rightarrow> 'd world" where
  "set_obj w a ob = w\<lparr>w_objs := (w_objs w)(a \<mapsto> ob)\<rparr>"

definition free_obj :: "'d world \<Rightarrow> nat \<Rightarrow> 'd world option" where
  "free_obj w a = do { ob \<leftarrow> w_objs w a; Some (w\<lparr>w_objs := (w_objs w)(a := None)\<rparr>) }"

section \<open>The registry\<close>

definition c_str :: "byte list \<Rightarrow> byte list option" where
  "c_str buf = do { n \<leftarrow> c_strlen buf; Some (take n buf) }"

text \<open>The test of the loop: \<open>used\<close>, a name, and \<open>strcmp\<close> gives 0.\<close>

definition name_matches :: "('s, 'd) type_entry \<Rightarrow> byte list \<Rightarrow> bool option" where
  "name_matches e nm =
     (if \<not> used e then Some False
      else case type_name e of
        None \<Rightarrow> Some False
      | Some s \<Rightarrow> do { a \<leftarrow> c_str (s_buf s); b \<leftarrow> c_str nm; Some (strcmp a b = 0) })"

fun find_name_loop :: "('s, 'd) object_manager \<Rightarrow> byte list \<Rightarrow> nat \<Rightarrow> nat \<Rightarrow> int option" where
  "find_name_loop m nm i 0 = Some (- 1)"
| "find_name_loop m nm i (Suc n) =
     do {
       e \<leftarrow> get_at (om_types m) i;
       hit \<leftarrow> name_matches e nm;
       if hit then Some (int i) else find_name_loop m nm (i + 1) n
     }"

definition find_type_id_by_name :: "('s, 'd) object_manager \<Rightarrow> byte list option \<Rightarrow> int option" where
  "find_type_id_by_name m nm =
     (case nm of None \<Rightarrow> Some (- 1) | Some nm \<Rightarrow> find_name_loop m nm 0 OBJECT_MANAGER_MAX_TYPES)"

fun free_slot_loop :: "('s, 'd) object_manager \<Rightarrow> nat \<Rightarrow> nat \<Rightarrow> int option" where
  "free_slot_loop m i 0 = Some (- 1)"
| "free_slot_loop m i (Suc n) =
     do { e \<leftarrow> get_at (om_types m) i; if \<not> used e then Some (int i) else free_slot_loop m (i + 1) n }"

definition first_free_slot :: "('s, 'd) object_manager \<Rightarrow> int option" where
  "first_free_slot m = free_slot_loop m 0 OBJECT_MANAGER_MAX_TYPES"

text \<open>The zeroed table.\<close>

definition empty_entry :: "('s, 'd) type_entry" where
  "empty_entry = \<lparr>used = False, type_name = None, create_fn = None, release_fn = None, save_fn = None, load_fn = None, calc_fn = None\<rparr>"

definition release_all_types :: "('s, 'd) object_manager \<Rightarrow> ('s, 'd) object_manager" where
  "release_all_types m = m\<lparr>om_types := map (\<lambda>e. e\<lparr>type_name := None\<rparr>) (om_types m)\<rparr>"

definition global_object_manager_init :: "('s, 'd) object_manager \<Rightarrow> ('s, 'd) object_manager" where
  "global_object_manager_init m =
     (let m = release_all_types m in m\<lparr>om_types := replicate OBJECT_MANAGER_MAX_TYPES empty_entry\<rparr>)"

definition global_object_manager_free :: "('s, 'd) object_manager \<Rightarrow> ('s, 'd) object_manager" where
  "global_object_manager_free m =
     (let m = release_all_types m in m\<lparr>om_types := replicate OBJECT_MANAGER_MAX_TYPES empty_entry\<rparr>)"

definition object_manager_register ::
  "(nat \<Rightarrow> nat) \<Rightarrow> (nat \<Rightarrow> byte) \<Rightarrow> ('s, 'd) object_manager \<Rightarrow> byte list option \<Rightarrow>
   ('d world \<Rightarrow> ('d world \<times> nat option) option) option \<Rightarrow> ('d world \<Rightarrow> nat \<Rightarrow> 'd world option) option \<Rightarrow>
   ('d world \<Rightarrow> 's \<Rightarrow> nat \<Rightarrow> ('d world \<times> 's \<times> error_code) option) option \<Rightarrow>
   ('d world \<Rightarrow> 's \<Rightarrow> ('d world \<times> 's \<times> error_code option \<times> nat option) option) option \<Rightarrow>
   ('d world \<Rightarrow> nat \<Rightarrow> u64 option) option \<Rightarrow> (('s, 'd) object_manager \<times> int) option" where
  "object_manager_register usable junk m nm create release save load calc =
     (if nm = None \<or> create = None \<or> release = None \<or> save = None \<or> load = None then Some (m, - 1 :: int)
      else do {
        id \<leftarrow> find_type_id_by_name m nm;
        if id \<ge> 0 then Some (m, - 1)
        else do {
          slot \<leftarrow> first_free_slot m;
          if slot < 0 then Some (m, - 1)
          else do {
            e \<leftarrow> get_at (om_types m) (nat slot);
            s \<leftarrow> sds_new usable junk nm;
            ts \<leftarrow> put_at (om_types m) (nat slot)
              (e\<lparr>type_name := Some s, used := True, create_fn := create, release_fn := release, save_fn := save,
                 load_fn := load, calc_fn := calc\<rparr>);
            Some (m\<lparr>om_types := ts\<rparr>, 0)
          }
        }
      })"

section \<open>Life of an object\<close>

definition object_manager_create_object ::
  "('s, 'd) object_manager \<Rightarrow> 'd world \<Rightarrow> byte list option \<Rightarrow> ('d world \<times> nat option) option" where
  "object_manager_create_object m w nm =
     do {
       id \<leftarrow> find_type_id_by_name m nm;
       if id < 0 then Some (w, None)
       else do {
         e \<leftarrow> get_at (om_types m) (nat id);
         case create_fn e of
           None \<Rightarrow> Some (w, None)
         | Some create \<Rightarrow> do {
             (w, obj) \<leftarrow> create w;
             case obj of
               None \<Rightarrow> Some (w, None)
             | Some a \<Rightarrow> do {
                 ob \<leftarrow> w_objs w a;
                 Some (set_obj w a (ob\<lparr>o_type := of_int id, o_refcount := 1\<rparr>), Some a)
               }
           }
       }
     }"

definition object_manager_create_wrapped ::
  "('s, 'd) object_manager \<Rightarrow> 'd world \<Rightarrow> byte list option \<Rightarrow> ('d world \<times> nat option) option" where
  "object_manager_create_wrapped m w nm = object_manager_create_object m w nm"

definition release_wrapped :: "('s, 'd) object_manager \<Rightarrow> 'd world \<Rightarrow> nat option \<Rightarrow> 'd world option" where
  "release_wrapped m w p =
     (case p of
        None \<Rightarrow> Some w
      | Some a \<Rightarrow> do {
          ob \<leftarrow> w_objs w a;
          w \<leftarrow> (if o_ptr ob \<noteq> None then
                 let type_id = o_type ob in
                 if unat type_id < OBJECT_MANAGER_MAX_TYPES then do {
                   e \<leftarrow> get_at (om_types m) (unat type_id);
                   (case release_fn e of
                      Some release \<Rightarrow> if used e then release w a else Some w
                    | None \<Rightarrow> Some w)
                 }
                 else Some w
               else Some w);
          free_obj w a
        })"

definition object_manager_release_object :: "('s, 'd) object_manager \<Rightarrow> 'd world \<Rightarrow> nat option \<Rightarrow> 'd world option" where
  "object_manager_release_object m w p = (case p of None \<Rightarrow> Some w | Some a \<Rightarrow> release_wrapped m w (Some a))"

definition object_manager_release_wrapped :: "('s, 'd) object_manager \<Rightarrow> 'd world \<Rightarrow> nat option \<Rightarrow> 'd world option" where
  "object_manager_release_wrapped m w p = release_wrapped m w p"

definition latte_object_incr_ref_count :: "'d world \<Rightarrow> nat option \<Rightarrow> 'd world option" where
  "latte_object_incr_ref_count w p =
     (case p of
        None \<Rightarrow> Some w
      | Some a \<Rightarrow> do { ob \<leftarrow> w_objs w a; Some (set_obj w a (ob\<lparr>o_refcount := o_refcount ob + 1\<rparr>)) })"

definition latte_object_decr_ref_count :: "('s, 'd) object_manager \<Rightarrow> 'd world \<Rightarrow> nat option \<Rightarrow> 'd world option" where
  "latte_object_decr_ref_count m w p =
     (case p of
        None \<Rightarrow> Some w
      | Some a \<Rightarrow> do {
          ob \<leftarrow> w_objs w a;
          if o_refcount ob = 0 then Some w
          else do {
            let w = set_obj w a (ob\<lparr>o_refcount := o_refcount ob - 1\<rparr>);
            if o_refcount ob - 1 = 0 then object_manager_release_wrapped m w (Some a) else Some w
          }
        })"

section \<open>Saving and loading\<close>

text \<open>The result is the error, \<open>None\<close> for success (NULL).\<close>

definition object_manager_save ::
  "('s, 'd) object_manager \<Rightarrow> 's oio_func \<Rightarrow> 'd world \<Rightarrow> 's \<Rightarrow> nat option \<Rightarrow> ('d world \<times> 's \<times> error_code option) option" where
  "object_manager_save m f w s p =
     (case p of
        None \<Rightarrow> Some (w, s, Some CInvalidArgument)
      | Some a \<Rightarrow> do {
          ob \<leftarrow> w_objs w a;
          let type_id = o_type ob;
          if unat type_id \<ge> OBJECT_MANAGER_MAX_TYPES then Some (w, s, Some CInvalidArgument)
          else do {
            e \<leftarrow> get_at (om_types m) (unat type_id);
            case save_fn e of
              None \<Rightarrow> Some (w, s, Some CInvalidArgument)
            | Some save \<Rightarrow>
                if \<not> used e then Some (w, s, Some CInvalidArgument)
                else do {
                  (s, ok) \<leftarrow> odb_write_u8 f s type_id;
                  if \<not> ok then Some (w, s, Some CIOError)
                  else do {
                    (w, s, err) \<leftarrow> save w s a;
                    Some (w, s, if err \<noteq> COk then Some err else None)
                  }
                }
          }
        })"

definition object_manager_load ::
  "('s, 'd) object_manager \<Rightarrow> 's oio_func \<Rightarrow> 'd world \<Rightarrow> 's \<Rightarrow> byte list option \<Rightarrow>
   ('d world \<times> 's \<times> error_code option \<times> nat option) option" where
  "object_manager_load m f w s id_map =
     do {
       (s, r) \<leftarrow> odb_read_u8 f s;
       case r of
         None \<Rightarrow> Some (w, s, Some CIOError, None)
       | Some saved_id \<Rightarrow> do {
           type_id \<leftarrow> (case id_map of None \<Rightarrow> Some saved_id | Some im \<Rightarrow> get_at im (unat saved_id));
           if id_map \<noteq> None \<and> type_id = 0xFF then Some (w, s, Some CCorruption, None)
           else if unat type_id \<ge> OBJECT_MANAGER_MAX_TYPES then Some (w, s, Some CInvalidArgument, None)
           else do {
             e \<leftarrow> get_at (om_types m) (unat type_id);
             case load_fn e of
               None \<Rightarrow> Some (w, s, Some CInvalidArgument, None)
             | Some load \<Rightarrow>
                 if \<not> used e then Some (w, s, Some CInvalidArgument, None)
                 else do {
                   (w, s, err, obj) \<leftarrow> load w s;
                   case err of
                     Some c \<Rightarrow> Some (w, s, Some c, None)
                   | None \<Rightarrow>
                       (case obj of
                          None \<Rightarrow> Some (w, s, Some CCorruption, None)
                        | Some a \<Rightarrow> do {
                            ob \<leftarrow> w_objs w a;
                            Some (set_obj w a (ob\<lparr>o_type := type_id, o_refcount := 1\<rparr>), s, None, Some a)
                          })
                 }
           }
         }
     }"

definition object_manager_get_type_name :: "('s, 'd) object_manager \<Rightarrow> byte \<Rightarrow> sds option option" where
  "object_manager_get_type_name m type_id =
     (if unat type_id \<ge> OBJECT_MANAGER_MAX_TYPES then Some None
      else do { e \<leftarrow> get_at (om_types m) (unat type_id); Some (if used e then type_name e else None) })"

definition object_manager_calc :: "('s, 'd) object_manager \<Rightarrow> 'd world \<Rightarrow> nat option \<Rightarrow> u64 option" where
  "object_manager_calc m w p =
     (case p of
        None \<Rightarrow> Some 0
      | Some a \<Rightarrow> do {
          ob \<leftarrow> w_objs w a;
          if unat (o_type ob) \<ge> OBJECT_MANAGER_MAX_TYPES then Some 0
          else do {
            e \<leftarrow> get_at (om_types m) (unat (o_type ob));
            case calc_fn e of Some calc \<Rightarrow> calc w a | None \<Rightarrow> Some 0
          }
        })"

fun count_loop :: "('s, 'd) object_manager \<Rightarrow> nat \<Rightarrow> nat \<Rightarrow> u32 \<Rightarrow> u32 option" where
  "count_loop m i 0 cnt = Some cnt"
| "count_loop m i (Suc n) cnt =
     do { e \<leftarrow> get_at (om_types m) i; count_loop m (i + 1) n (if used e then cnt + 1 else cnt) }"

fun save_types_loop :: "('s, 'd) object_manager \<Rightarrow> 's oio_func \<Rightarrow> 's \<Rightarrow> nat \<Rightarrow> nat \<Rightarrow> ('s \<times> error_code option) option" where
  "save_types_loop m f s i 0 = Some (s, None)"
| "save_types_loop m f s i (Suc n) =
     do {
       e \<leftarrow> get_at (om_types m) i;
       case type_name e of
         None \<Rightarrow> save_types_loop m f s (i + 1) n
       | Some nm \<Rightarrow>
           if \<not> used e then save_types_loop m f s (i + 1) n
           else do {
             (s, ok) \<leftarrow> odb_write_u8 f s (of_nat i);
             if \<not> ok then Some (s, Some CIOError)
             else do {
               (s, ok) \<leftarrow> odb_write_string f s (s_buf nm) (sds_len nm);
               if \<not> ok then Some (s, Some CIOError) else save_types_loop m f s (i + 1) n
             }
           }
     }"

definition object_manager_save_registry ::
  "('s, 'd) object_manager \<Rightarrow> 's oio_func \<Rightarrow> 's \<Rightarrow> ('s \<times> error_code option) option" where
  "object_manager_save_registry m f s =
     do {
       cnt \<leftarrow> count_loop m 0 OBJECT_MANAGER_MAX_TYPES 0;
       (s, ok) \<leftarrow> odb_write_u32_le f s cnt;
       if \<not> ok then Some (s, Some CIOError) else save_types_loop m f s 0 OBJECT_MANAGER_MAX_TYPES
     }"

fun load_types_loop ::
  "(nat \<Rightarrow> nat) \<Rightarrow> (nat \<Rightarrow> byte) \<Rightarrow> ('s, 'd) object_manager \<Rightarrow> 's oio_func \<Rightarrow> 's \<Rightarrow> byte list \<Rightarrow> nat \<Rightarrow>
   ('s \<times> byte list \<times> error_code option) option" where
  "load_types_loop usable junk m f s id_map 0 = Some (s, id_map, None)"
| "load_types_loop usable junk m f s id_map (Suc n) =
     do {
       (s, r) \<leftarrow> odb_read_u8 f s;
       case r of
         None \<Rightarrow> Some (s, id_map, Some CIOError)
       | Some saved_id \<Rightarrow> do {
           (s, nm) \<leftarrow> odb_read_string usable junk f s;
           case nm of
             None \<Rightarrow> Some (s, id_map, Some CIOError)
           | Some nm \<Rightarrow> do {
               current_id \<leftarrow> find_type_id_by_name m (Some (s_buf nm));
               if current_id < 0 then Some (s, id_map, Some CNotFound)
               else do {
                 id_map \<leftarrow> put_at id_map (unat saved_id) (of_int current_id);
                 load_types_loop usable junk m f s id_map n
               }
             }
         }
     }"

definition object_manager_load_registry ::
  "(nat \<Rightarrow> nat) \<Rightarrow> (nat \<Rightarrow> byte) \<Rightarrow> ('s, 'd) object_manager \<Rightarrow> 's oio_func \<Rightarrow> 's \<Rightarrow> byte list \<Rightarrow>
   ('s \<times> byte list \<times> error_code option) option" where
  "object_manager_load_registry usable junk m f s id_map =
     do {
       id_map \<leftarrow> mem_write id_map 0 (replicate 256 0xFF);
       (s, r) \<leftarrow> odb_read_u32_le f s;
       case r of
         None \<Rightarrow> Some (s, id_map, Some CIOError)
       | Some cnt \<Rightarrow> load_types_loop usable junk m f s id_map (unat cnt)
     }"

section \<open>The registry as a list of types\<close>

type_synonym ('s, 'd) type_fns =
  "('d world \<Rightarrow> ('d world \<times> nat option) option) option \<times> ('d world \<Rightarrow> nat \<Rightarrow> 'd world option) option
   \<times> ('d world \<Rightarrow> 's \<Rightarrow> nat \<Rightarrow> ('d world \<times> 's \<times> error_code) option) option
   \<times> ('d world \<Rightarrow> 's \<Rightarrow> ('d world \<times> 's \<times> error_code option \<times> nat option) option) option
   \<times> ('d world \<Rightarrow> nat \<Rightarrow> u64 option) option"

abbreviation type_fns :: "('s, 'd) type_entry \<Rightarrow> ('s, 'd) type_fns" where
  "type_fns e \<equiv> (create_fn e, release_fn e, save_fn e, load_fn e, calc_fn e)"

definition entry_is :: "('s, 'd) type_entry \<Rightarrow> byte list \<times> ('s, 'd) type_fns \<Rightarrow> bool" where
  "entry_is e t \<longleftrightarrow> used e \<and> (\<exists>s. type_name e = Some s \<and> sds_ok s \<and> sds_val s = fst t) \<and> 0 \<notin> set (fst t) \<and> type_fns e = snd t"

definition vacant :: "('s, 'd) type_entry \<Rightarrow> bool" where
  "vacant e \<longleftrightarrow> \<not> used e \<and> type_name e = None"

definition registered :: "('s, 'd) object_manager \<Rightarrow> (byte list \<times> ('s, 'd) type_fns) list \<Rightarrow> bool" where
  "registered m ts \<longleftrightarrow> length (om_types m) = 256 \<and> length ts \<le> 256 \<and> distinct (map fst ts)
     \<and> (\<forall>i < length ts. entry_is (om_types m ! i) (ts ! i)) \<and> (\<forall>i. length ts \<le> i \<longrightarrow> i < 256 \<longrightarrow> vacant (om_types m ! i))"

lemma registeredD:
  assumes "registered m ts"
  shows "length (om_types m) = 256" "length ts \<le> 256" "distinct (map fst ts)"
    "i < length ts \<Longrightarrow> entry_is (om_types m ! i) (ts ! i)" "length ts \<le> i \<Longrightarrow> i < 256 \<Longrightarrow> vacant (om_types m ! i)"
  using assms by (auto simp: registered_def)

lemma entry_at:
  assumes "registered m ts" "i < length ts"
  shows "get_at (om_types m) i = Some (om_types m ! i)" "entry_is (om_types m ! i) (ts ! i)" "i < 256"
  using registeredD [OF assms(1)] assms(2) by (auto simp: get_at_def)

lemma registered_init: "registered (global_object_manager_init m) []"
  by (simp add: registered_def global_object_manager_init_def vacant_def empty_entry_def)

lemma c_str_app: "0 \<notin> set a \<Longrightarrow> c_str (a @ 0 # r) = Some a"
proof -
  assume a: "0 \<notin> set a"
  then have "c_strlen (a @ 0 # r) = Some (length a)" by (induction a) auto
  then show ?thesis by (simp add: c_str_def)
qed

lemma sds_buf_val: "sds_ok s \<Longrightarrow> \<exists>r. s_buf s = sds_val s @ 0 # r"
  using sds_okD(3,4) [of s] by (metis id_take_nth_drop sds_val_def)

lemma c_str_sds: "sds_ok s \<Longrightarrow> 0 \<notin> set (sds_val s) \<Longrightarrow> c_str (s_buf s) = Some (sds_val s)"
  using sds_buf_val [of s] c_str_app by fastforce

lemma name_matches_entry: "entry_is e t \<Longrightarrow> c_str buf = Some nm \<Longrightarrow> name_matches e buf = Some (fst t = nm)"
  by (auto simp: entry_is_def name_matches_def c_str_sds strcmp_eq_0)

lemma name_matches_vacant: "vacant e \<Longrightarrow> name_matches e buf = Some False"
  by (simp add: vacant_def name_matches_def)

lemma find_loop_hit:
  assumes m: "registered m ts" and b: "c_str buf = Some nm" and j: "j < length ts" "fst (ts ! j) = nm"
  shows "i + n = 256 \<Longrightarrow> i \<le> j \<Longrightarrow> find_name_loop m buf i n = Some (int j)"
proof (induction n arbitrary: i)
  case 0
  then show ?case using j entry_at(3) [OF m j(1)] by simp
next
  case (Suc n)
  have i: "i < length ts" using Suc.prems j by simp
  have "fst (ts ! i) = nm \<longleftrightarrow> i = j"
    using nth_eq_iff_index_eq [OF registeredD(3) [OF m], of i j] i j by auto
  then show ?case
    using Suc entry_at [OF m i] name_matches_entry [OF entry_at(2) [OF m i] b] by (cases "i = j") auto
qed

lemma find_loop_miss:
  assumes m: "registered m ts" and b: "c_str buf = Some nm" and nm: "nm \<notin> fst ` set ts"
  shows "i + n = 256 \<Longrightarrow> find_name_loop m buf i n = Some (- 1)"
proof (induction n arbitrary: i)
  case (Suc n)
  have "name_matches (om_types m ! i) buf = Some False"
  proof (cases "i < length ts")
    case True
    then have "fst (ts ! i) \<noteq> nm" using nm by force
    then show ?thesis using name_matches_entry [OF entry_at(2) [OF m True] b] by simp
  next
    case False
    then show ?thesis using registeredD(5) [OF m, of i] Suc.prems by (simp add: name_matches_vacant)
  qed
  then show ?case using Suc registeredD(1) [OF m] by (simp add: get_at_def)
qed simp

lemma find_type:
  assumes "registered m ts" "c_str buf = Some nm"
  shows "j < length ts \<Longrightarrow> fst (ts ! j) = nm \<Longrightarrow> find_type_id_by_name m (Some buf) = Some (int j)"
    "nm \<notin> fst ` set ts \<Longrightarrow> find_type_id_by_name m (Some buf) = Some (- 1)"
  using find_loop_hit [OF assms, of j 0 256] find_loop_miss [OF assms, of 0 256]
  by (simp_all add: find_type_id_by_name_def)

lemma free_slot_loop:
  assumes m: "registered m ts"
  shows "i + n = 256 \<Longrightarrow> i \<le> length ts \<Longrightarrow> free_slot_loop m i n = Some (if length ts < 256 then int (length ts) else - 1)"
proof (induction n arbitrary: i)
  case 0
  then show ?case using registeredD(2) [OF m] by simp
next
  case (Suc n)
  show ?case
  proof (cases "i < length ts")
    case True
    then show ?thesis using Suc entry_at [OF m True] by (simp add: entry_is_def)
  next
    case False
    then have "i = length ts" using Suc.prems by simp
    then show ?thesis using Suc.prems registeredD(1) [OF m] registeredD(5) [OF m, of i] by (simp add: get_at_def vacant_def)
  qed
qed

text \<open>Registration appends to the list, or changes nothing and reports -1.\<close>

lemma register_type:
  assumes u: "usable_ok usable" and m: "registered m ts" and nm: "0 \<notin> set nm" "length nm + 18 < 2 ^ 64"
  shows "\<exists>m'. object_manager_register usable junk m (Some (nm @ 0 # rest)) (Some create) (Some release) (Some save) (Some load) calc =
      Some (m', if nm \<in> fst ` set ts \<or> length ts = 256 then - 1 else 0)
    \<and> registered m' (if nm \<in> fst ` set ts \<or> length ts = 256 then ts
        else ts @ [(nm, Some create, Some release, Some save, Some load, calc)])"
proof -
  note b = c_str_app [OF nm(1), of rest]
  have slot: "first_free_slot m = Some (if length ts < 256 then int (length ts) else - 1)"
    using free_slot_loop [OF m, of 0 256] by (simp add: first_free_slot_def)
  show ?thesis
  proof (cases "nm \<in> fst ` set ts")
    case True
    then obtain j where "j < length ts" "fst (ts ! j) = nm" by (auto simp: in_set_conv_nth)
    from find_type(1) [OF m b this] True m show ?thesis by (simp add: object_manager_register_def)
  next
    case False
    note miss = find_type(2) [OF m b False]
    show ?thesis
    proof (cases "length ts = 256")
      case True
      then show ?thesis using miss slot m by (simp add: object_manager_register_def)
    next
      case nf: False
      then have l: "length ts < 256" using registeredD(2) [OF m] by simp
      have "c_strlen (nm @ 0 # rest) = Some (length nm)" using nm(1) by (induction nm) auto
      then obtain s where s: "sds_new usable junk (Some (nm @ 0 # rest)) = Some s" "sds_ok s" "sds_val s = nm"
        using sds_new_len_ok [OF u nm(2), of "nm @ 0 # rest" junk] by (auto simp: sds_new_def)
      let ?e = "(om_types m ! length ts)\<lparr>type_name := Some s, used := True, create_fn := Some create, release_fn := Some release,
        save_fn := Some save, load_fn := Some load, calc_fn := calc\<rparr>"
      let ?m = "m\<lparr>om_types := (om_types m)[length ts := ?e]\<rparr>"
      have "registered ?m (ts @ [(nm, Some create, Some release, Some save, Some load, calc)])"
        using m False l s nm(1) unfolding registered_def
        by (auto simp: entry_is_def nth_append nth_list_update not_less_eq_eq)
      moreover have "object_manager_register usable junk m (Some (nm @ 0 # rest)) (Some create) (Some release) (Some save) (Some load) calc = Some (?m, 0)"
        using miss slot l s registeredD(1) [OF m] by (simp add: object_manager_register_def get_at_def put_at_def)
      ultimately show ?thesis using False nf by auto
    qed
  qed
qed

section \<open>Saving and loading over a byte stream\<close>

definition types_bytes :: "(byte list \<times> 'f) list \<Rightarrow> nat \<Rightarrow> byte list" where
  "types_bytes ts i = concat (map (\<lambda>j. of_nat j # item_bytes (Str (fst (ts ! j)))) [i..<length ts])"

definition registry_bytes :: "(byte list \<times> 'f) list \<Rightarrow> byte list" where
  "registry_bytes ts = put_u32_le (of_nat (length ts)) @ types_bytes ts 0"

definition names_fit :: "(byte list \<times> 'f) list \<Rightarrow> bool" where
  "names_fit ts \<longleftrightarrow> (\<forall>t \<in> set ts. length (fst t) < 2 ^ 32)"

text \<open>\<open>ids_map ts ts' k\<close>: \<open>k\<close> takes the position of a name in the one list to its position in the other.\<close>

definition ids_map :: "(byte list \<times> 'f) list \<Rightarrow> (byte list \<times> 'g) list \<Rightarrow> (nat \<Rightarrow> nat) \<Rightarrow> bool" where
  "ids_map ts ts' k \<longleftrightarrow> (\<forall>i < length ts. k i < length ts' \<and> fst (ts' ! k i) = fst (ts ! i))"

lemma types_bytes_Cons: "i < length ts \<Longrightarrow> types_bytes ts i = of_nat i # item_bytes (Str (fst (ts ! i))) @ types_bytes ts (Suc i)"
  by (simp add: types_bytes_def upt_rec)

lemma types_bytes_Nil: "length ts \<le> i \<Longrightarrow> types_bytes ts i = []"
  by (simp add: types_bytes_def)

lemma odb_write_sds: "sds_ok s \<Longrightarrow> odb_write_string f st (s_buf s) (sds_len s) = odb_write_string f st (sds_val s) (length (sds_val s))"
proof -
  assume ok: "sds_ok s"
  have r: "mem_read (s_buf s) 0 (s_len s) = mem_read (sds_val s) 0 (s_len s)"
    using sds_okD(3) [OF ok] by (simp add: mem_read_def sds_val_def)
  show ?thesis unfolding odb_write_string_def sds_okD(5) [OF ok] length_sds_val [OF ok] r ..
qed

lemma count_loop_ok:
  assumes m: "registered m ts"
  shows "i + n = 256 \<Longrightarrow> count_loop m i n c = Some (c + of_nat (length ts - i))"
proof (induction n arbitrary: i c)
  case 0
  then show ?case using registeredD(2) [OF m] by simp
next
  case (Suc n)
  have g: "get_at (om_types m) i = Some (om_types m ! i)" using Suc.prems registeredD(1) [OF m] by (simp add: get_at_def)
  show ?case
  proof (cases "i < length ts")
    case True
    then have "(of_nat (length ts - i) :: u32) = 1 + of_nat (length ts - Suc i)" by (simp only: Suc_diff_Suc [symmetric] of_nat_Suc)
    then show ?thesis using Suc g entry_at(2) [OF m True] by (simp add: entry_is_def)
  next
    case False
    then show ?thesis using Suc g registeredD(5) [OF m, of i] by (simp add: vacant_def)
  qed
qed

context byte_stream
begin

lemma put_u8: "written s bs \<Longrightarrow> length bs + 1 < capacity \<Longrightarrow> \<exists>s'. odb_write_u8 f s b = Some (s', True) \<and> written s' (bs @ [b])"
  using put_item [of s bs "U8 b"] by simp

lemma put_sds:
  "written s bs \<Longrightarrow> sds_ok v \<Longrightarrow> length (sds_val v) < 2 ^ 32 \<Longrightarrow> length bs + length (item_bytes (Str (sds_val v))) < capacity \<Longrightarrow>
   \<exists>s'. odb_write_string f s (s_buf v) (sds_len v) = Some (s', True) \<and> written s' (bs @ item_bytes (Str (sds_val v)))"
  using put_item [of s bs "Str (sds_val v)"] odb_write_sds [of v f s] by simp

lemma get_u8: "unread s (b # r) \<Longrightarrow> \<exists>s'. odb_read_u8 f s = Some (s', Some b) \<and> unread s' r"
  using read_law [of s "[b]" r] by (auto simp: odb_read_u8_def get_at_def)

lemma save_types:
  assumes m: "registered m ts" and fit: "names_fit ts"
  shows "i + n = 256 \<Longrightarrow> written s bs \<Longrightarrow> length bs + length (types_bytes ts i) < capacity \<Longrightarrow>
    \<exists>s'. save_types_loop m f s i n = Some (s', None) \<and> written s' (bs @ types_bytes ts i)"
proof (induction n arbitrary: i s bs)
  case 0
  then show ?case using registeredD(2) [OF m] by (simp add: types_bytes_Nil)
next
  case (Suc n)
  have g: "get_at (om_types m) i = Some (om_types m ! i)" using Suc.prems registeredD(1) [OF m] by (simp add: get_at_def)
  show ?case
  proof (cases "i < length ts")
    case False
    then show ?thesis
      using Suc.prems Suc.IH [of "i + 1" s bs] g registeredD(5) [OF m, of i] by (simp add: vacant_def types_bytes_Nil)
  next
    case True
    note tb = types_bytes_Cons [OF True]
    from entry_at(2) [OF m True] obtain v where v: "type_name (om_types m ! i) = Some v" "used (om_types m ! i)" "sds_ok v"
      "sds_val v = fst (ts ! i)" by (auto simp: entry_is_def)
    have lv: "length (sds_val v) < 2 ^ 32" using fit True v(4) by (simp add: names_fit_def)
    from put_u8 [OF Suc.prems(2), of "of_nat i"] Suc.prems(3) obtain s1 where
      s1: "odb_write_u8 f s (of_nat i) = Some (s1, True)" "written s1 (bs @ [of_nat i])" by (auto simp: tb)
    from put_sds [OF s1(2) v(3) lv] Suc.prems(3) obtain s2 where
      s2: "odb_write_string f s1 (s_buf v) (sds_len v) = Some (s2, True)" "written s2 ((bs @ [of_nat i]) @ item_bytes (Str (sds_val v)))"
      by (auto simp: tb v(4))
    from Suc.IH [of "i + 1", OF _ s2(2)] Suc.prems show ?thesis
      using g v s1(1) s2(1) by (simp add: tb)
  qed
qed

lemma save_registry:
  assumes m: "registered m ts" and fit: "names_fit ts" and s: "written s bs" "length bs + length (registry_bytes ts) < capacity"
  shows "\<exists>s'. object_manager_save_registry m f s = Some (s', None) \<and> written s' (bs @ registry_bytes ts)"
proof -
  have c: "count_loop m 0 256 0 = Some (of_nat (length ts))" using count_loop_ok [OF m, of 0 256 0] by simp
  from put_item [OF s(1), of "U32 (of_nat (length ts))"] s(2) obtain s1 where
    "odb_write_u32_le f s (of_nat (length ts)) = Some (s1, True)" "written s1 (bs @ put_u32_le (of_nat (length ts)))"
    by (auto simp: registry_bytes_def)
  moreover from save_types [OF m fit, of 0 256, OF _ this(2)] s(2) obtain s2 where
    "save_types_loop m f s1 0 256 = Some (s2, None)" "written s2 ((bs @ put_u32_le (of_nat (length ts))) @ types_bytes ts 0)"
    by (auto simp: registry_bytes_def)
  ultimately show ?thesis using c by (simp add: object_manager_save_registry_def registry_bytes_def)
qed

text \<open>Reading one entry: the id and the name.\<close>

lemma read_entry:
  assumes u: "usable_ok usable" and m: "registered m ts" and fit: "names_fit ts" and i: "i < length ts"
    and s: "unread s (types_bytes ts i @ r)"
  shows "\<exists>s1 s2 v. odb_read_u8 f s = Some (s1, Some (of_nat i)) \<and> odb_read_string usable junk f s1 = Some (s2, Some v)
    \<and> c_str (s_buf v) = Some (fst (ts ! i)) \<and> unread s2 (types_bytes ts (Suc i) @ r)"
proof -
  let ?nm = "fst (ts ! i)"
  from get_u8 [of s "of_nat i"] s obtain s1 where
    s1: "odb_read_u8 f s = Some (s1, Some (of_nat i))" "unread s1 (item_bytes (Str ?nm) @ types_bytes ts (Suc i) @ r)"
    by (auto simp: types_bytes_Cons [OF i])
  have "length ?nm < 2 ^ 32" "0 \<notin> set ?nm" using fit i entry_at(2) [OF m i] by (auto simp: names_fit_def entry_is_def)
  with get_string(1) [OF u, of ?nm s1 "types_bytes ts (Suc i) @ r" junk] s1(2) show ?thesis
    using s1(1) c_str_sds by fastforce
qed

lemma load_types:
  assumes u: "usable_ok usable" and m: "registered m ts" "registered m2 ts2" and fit: "names_fit ts" and k: "ids_map ts ts2 k"
  shows "i + n = length ts \<Longrightarrow> unread s (types_bytes ts i @ r) \<Longrightarrow> length im = 256 \<Longrightarrow>
    \<exists>s' im'. load_types_loop usable junk m2 f s im n = Some (s', im', None) \<and> unread s' r \<and> length im' = 256
      \<and> (\<forall>j < 256. im' ! j = (if i \<le> j \<and> j < length ts then of_nat (k j) else im ! j))"
proof (induction n arbitrary: i s im)
  case 0
  then show ?case by (auto simp: types_bytes_Nil)
next
  case (Suc n)
  have i: "i < length ts" using Suc.prems by simp
  from read_entry [OF u m(1) fit i Suc.prems(2)] obtain s1 s2 v where
    s: "odb_read_u8 f s = Some (s1, Some (of_nat i))" "odb_read_string usable junk f s1 = Some (s2, Some v)"
      "c_str (s_buf v) = Some (fst (ts ! i))" "unread s2 (types_bytes ts (Suc i) @ r)" by blast
  have f: "find_type_id_by_name m2 (Some (s_buf v)) = Some (int (k i))"
    using find_type(1) [OF m(2) s(3), of "k i"] k i by (auto simp: ids_map_def)
  have l: "i < 256" using entry_at(3) [OF m(1) i] .
  have p: "put_at im (unat (of_nat i :: byte)) (of_int (int (k i))) = Some (im[i := of_nat (k i)])"
    using l Suc.prems(3) by (simp add: put_at_def unat_of_nat)
  from Suc.IH [of "Suc i" s2 "im[i := of_nat (k i)]", OF _ s(4)] Suc.prems obtain s' im' where
    r: "load_types_loop usable junk m2 f s2 (im[i := of_nat (k i)]) n = Some (s', im', None)" "unread s' r" "length im' = 256"
      "\<forall>j < 256. im' ! j = (if Suc i \<le> j \<and> j < length ts then of_nat (k j) else im[i := of_nat (k i)] ! j)" by auto
  have "\<forall>j < 256. im' ! j = (if i \<le> j \<and> j < length ts then of_nat (k j) else im ! j)"
    using r(4) i l Suc.prems(3) by (auto simp: nth_list_update)
  then show ?case using s(1,2) f p r(1-3) by simp
qed

lemma load_types_missing:
  assumes u: "usable_ok usable" and m: "registered m ts" "registered m2 ts2" and fit: "names_fit ts"
    and j: "j < length ts" "fst (ts ! j) \<notin> fst ` set ts2"
  shows "i + n = length ts \<Longrightarrow> i \<le> j \<Longrightarrow> unread s (types_bytes ts i @ r) \<Longrightarrow> length im = 256 \<Longrightarrow>
    \<exists>s' im'. load_types_loop usable junk m2 f s im n = Some (s', im', Some CNotFound)"
proof (induction n arbitrary: i s im)
  case 0
  then show ?case using j by simp
next
  case (Suc n)
  have i: "i < length ts" using Suc.prems by simp
  from read_entry [OF u m(1) fit i Suc.prems(3)] obtain s1 s2 v where
    s: "odb_read_u8 f s = Some (s1, Some (of_nat i))" "odb_read_string usable junk f s1 = Some (s2, Some v)"
      "c_str (s_buf v) = Some (fst (ts ! i))" "unread s2 (types_bytes ts (Suc i) @ r)" by blast
  show ?case
  proof (cases "fst (ts ! i) \<in> fst ` set ts2")
    case False
    then show ?thesis using s(1,2) find_type(2) [OF m(2) s(3)] by simp
  next
    case True
    then obtain q where "q < length ts2" "fst (ts2 ! q) = fst (ts ! i)" by (auto simp: in_set_conv_nth)
    note f = find_type(1) [OF m(2) s(3) this]
    have l: "i < 256" using entry_at(3) [OF m(1) i] .
    have p: "put_at im (unat (of_nat i :: byte)) (of_int (int q)) = Some (im[i := of_nat q])"
      using l Suc.prems(4) by (simp add: put_at_def unat_of_nat)
    have "i \<noteq> j" using True j(2) by auto
    with Suc.IH [of "Suc i" s2 "im[i := of_nat q]", OF _ _ s(4)] Suc.prems show ?thesis using s(1,2) f p by auto
  qed
qed

lemma load_registry:
  assumes u: "usable_ok usable" and m: "registered m ts" "registered m2 ts2" and fit: "names_fit ts"
    and s: "unread s (registry_bytes ts @ r)" and im: "length im = 256"
  shows "ids_map ts ts2 k \<Longrightarrow> \<exists>s' im'. object_manager_load_registry usable junk m2 f s im = Some (s', im', None) \<and> unread s' r
      \<and> length im' = 256 \<and> (\<forall>j < 256. im' ! j = (if j < length ts then of_nat (k j) else 0xFF))"
    "j < length ts \<Longrightarrow> fst (ts ! j) \<notin> fst ` set ts2 \<Longrightarrow>
      \<exists>s' im'. object_manager_load_registry usable junk m2 f s im = Some (s', im', Some CNotFound)"
proof -
  from read_law [of s "put_u32_le (of_nat (length ts))" "types_bytes ts 0 @ r"] s obtain s1 where
    s1: "odb_read_u32_le f s = Some (s1, Some (of_nat (length ts)))" "unread s1 (types_bytes ts 0 @ r)"
    by (auto simp: odb_read_u32_le_def registry_bytes_def)
  have n: "unat (of_nat (length ts) :: u32) = length ts" using registeredD(2) [OF m(1)] by (simp add: unat_of_nat)
  have w: "mem_write im 0 (replicate 256 0xFF) = Some (replicate 256 0xFF)" using im by (simp add: mem_write_def)
  note d = object_manager_load_registry_def [of usable junk m2 f s im] s1(1) n w
  show "\<exists>s' im'. object_manager_load_registry usable junk m2 f s im = Some (s', im', None) \<and> unread s' r
      \<and> length im' = 256 \<and> (\<forall>j < 256. im' ! j = (if j < length ts then of_nat (k j) else 0xFF))" if "ids_map ts ts2 k"
  proof -
    from load_types [OF u m fit that, of 0 "length ts" s1 r "replicate 256 0xFF" junk] s1(2) obtain s' im' where
      "load_types_loop usable junk m2 f s1 (replicate 256 0xFF) (length ts) = Some (s', im', None)" "unread s' r" "length im' = 256"
      "\<forall>j < 256. im' ! j = (if j < length ts then of_nat (k j) else replicate 256 0xFF ! j)" by auto
    then show ?thesis by (intro exI [of _ s'] exI [of _ im']) (simp add: d)
  qed
  show "\<exists>s' im'. object_manager_load_registry usable junk m2 f s im = Some (s', im', Some CNotFound)"
    if "j < length ts" "fst (ts ! j) \<notin> fst ` set ts2"
    using load_types_missing [OF u m fit that, of 0 "length ts" s1 r "replicate 256 0xFF" junk] s1(2) by (simp add: d)
qed

end

section \<open>What a type promises\<close>

text \<open>The contract of the functions of a type: \<open>holds w a v\<close> says that the object at \<open>a\<close> represents \<open>v\<close>, and \<open>enc v\<close> is what is saved.\<close>

locale saved_type = byte_stream f written unread capacity
  for f :: "'s oio_func" and written :: "'s \<Rightarrow> byte list \<Rightarrow> bool" and unread :: "'s \<Rightarrow> byte list \<Rightarrow> bool" and capacity :: nat +
  fixes save :: "'d world \<Rightarrow> 's \<Rightarrow> nat \<Rightarrow> ('d world \<times> 's \<times> error_code) option"
    and load :: "'d world \<Rightarrow> 's \<Rightarrow> ('d world \<times> 's \<times> error_code option \<times> nat option) option"
    and holds :: "'d world \<Rightarrow> nat \<Rightarrow> 'v \<Rightarrow> bool"
    and enc :: "'v \<Rightarrow> byte list"
    and fits :: "'v \<Rightarrow> bool"
  assumes save_law: "holds w a v \<Longrightarrow> fits v \<Longrightarrow> written s bs \<Longrightarrow> length bs + length (enc v) < capacity \<Longrightarrow>
      \<exists>s'. save w s a = Some (w, s', COk) \<and> written s' (bs @ enc v)"
    and load_law: "fits v \<Longrightarrow> unread s (enc v @ r) \<Longrightarrow>
      \<exists>w' s' a ob. load w s = Some (w', s', None, Some a) \<and> w_objs w' a = Some ob \<and> holds w' a v \<and> unread s' r"
    and header_law: "holds w a v \<Longrightarrow> w_objs w a = Some ob \<Longrightarrow> holds (set_obj w a (ob\<lparr>o_type := t, o_refcount := c\<rparr>)) a v"
begin

lemma save_object:
  assumes m: "registered m ts" "i < length ts" "snd (ts ! i) = (c, rl, Some save, ld, ca)"
    and a: "w_objs w a = Some ob" "o_type ob = of_nat i" "holds w a v" "fits v"
    and s: "written s bs" "length bs + 1 + length (enc v) < capacity"
  shows "\<exists>s'. object_manager_save m f w s (Some a) = Some (w, s', None) \<and> written s' (bs @ of_nat i # enc v)"
proof -
  from put_u8 [OF s(1), of "of_nat i"] s(2) obtain s1 where
    s1: "odb_write_u8 f s (of_nat i) = Some (s1, True)" "written s1 (bs @ [of_nat i])" by auto
  from save_law [OF a(3,4) s1(2)] s(2) obtain s2 where "save w s1 a = Some (w, s2, COk)" "written s2 ((bs @ [of_nat i]) @ enc v)" by auto
  moreover have "unat (of_nat i :: byte) = i" using entry_at(3) [OF m(1,2)] by (simp add: unat_of_nat)
  ultimately show ?thesis
    using s1(1) a(1,2) entry_at [OF m(1,2)] m(3) by (simp add: object_manager_save_def entry_is_def)
qed

lemma load_object:
  assumes m: "registered m ts" "j < length ts" "snd (ts ! j) = (c, rl, sv, Some load, ca)"
    and im: "length im = 256" "i < 256" "im ! i = of_nat j" and v: "fits v" and s: "unread s (of_nat i # enc v @ r)"
  shows "j \<noteq> 255 \<Longrightarrow> \<exists>w' s' a ob. object_manager_load m f w s (Some im) = Some (w', s', None, Some a) \<and> holds w' a v
      \<and> w_objs w' a = Some ob \<and> o_type ob = of_nat j \<and> o_refcount ob = 1 \<and> unread s' r"
    "j = 255 \<Longrightarrow> \<exists>s'. object_manager_load m f w s (Some im) = Some (w, s', Some CCorruption, None)"
proof -
  have j: "j < 256" using entry_at(3) [OF m(1,2)] .
  from get_u8 [OF s] obtain s1 where s1: "odb_read_u8 f s = Some (s1, Some (of_nat i))" "unread s1 (enc v @ r)" by blast
  have n: "unat (of_nat i :: byte) = i" "unat (of_nat j :: byte) = j" using im(2) j by (simp_all add: unat_of_nat)
  then have g: "get_at im (unat (of_nat i :: byte)) = Some (of_nat j)" using im by (simp add: get_at_def)
  from load_law [OF v s1(2)] obtain w' s' a ob where
    l: "load w s1 = Some (w', s', None, Some a)" "w_objs w' a = Some ob" "holds w' a v" "unread s' r" by blast
  show "\<exists>w' s' a ob. object_manager_load m f w s (Some im) = Some (w', s', None, Some a) \<and> holds w' a v
      \<and> w_objs w' a = Some ob \<and> o_type ob = of_nat j \<and> o_refcount ob = 1 \<and> unread s' r" if "j \<noteq> 255"
  proof -
    have "(of_nat j :: byte) \<noteq> 0xFF" using that n(2) by (auto simp: word_unat_eq_iff)
    then show ?thesis
      using s1(1) n g l header_law [OF l(3,2)] entry_at [OF m(1,2)] m(3)
      by (simp add: object_manager_load_def entry_is_def set_obj_def)
  qed
  show "\<exists>s'. object_manager_load m f w s (Some im) = Some (w, s', Some CCorruption, None)" if "j = 255"
    using s1(1) g that by (simp add: object_manager_load_def)
qed

end

section \<open>The blob type\<close>

text \<open>The addresses that \<open>zmalloc\<close> returns are the parameters \<open>newo\<close> (objects) and \<open>newb\<close> (blobs).\<close>

record blob =
  b_s :: "sds option"

type_synonym blob_world = "(nat \<rightharpoonup> blob) world"

definition blob_create ::
  "(nat \<Rightarrow> nat) \<Rightarrow> (nat \<Rightarrow> byte) \<Rightarrow> (blob_world \<Rightarrow> nat) \<Rightarrow> (blob_world \<Rightarrow> nat) \<Rightarrow> blob_world \<Rightarrow> (blob_world \<times> nat option) option" where
  "blob_create usable junk newo newb w =
     do {
       let a = newo w;
       let b = newb w;
       s \<leftarrow> sds_empty usable junk;
       let w = w\<lparr>w_data := (w_data w)(b \<mapsto> \<lparr>b_s = Some s\<rparr>)\<rparr>;
       Some (set_obj w a \<lparr>o_type = 0, o_lru = 0, o_refcount = 0, o_ptr = Some b\<rparr>, Some a)
     }"

definition blob_release :: "blob_world \<Rightarrow> nat \<Rightarrow> blob_world option" where
  "blob_release w a =
     do {
       ob \<leftarrow> w_objs w a;
       case o_ptr ob of
         None \<Rightarrow> Some w
       | Some p \<Rightarrow> do { b \<leftarrow> w_data w p; Some (w\<lparr>w_data := (w_data w)(p := None)\<rparr>) }
     }"

definition blob_save :: "'s oio_func \<Rightarrow> blob_world \<Rightarrow> 's \<Rightarrow> nat \<Rightarrow> (blob_world \<times> 's \<times> error_code) option" where
  "blob_save f w s a =
     do {
       ob \<leftarrow> w_objs w a;
       case o_ptr ob of
         None \<Rightarrow> Some (w, s, CInvalidArgument)
       | Some p \<Rightarrow> do {
           b \<leftarrow> w_data w p;
           v \<leftarrow> b_s b;
           (s, ok) \<leftarrow> odb_write_string f s (s_buf v) (sds_len v);
           Some (w, s, if ok then COk else CIOError)
         }
     }"

definition blob_load ::
  "(nat \<Rightarrow> nat) \<Rightarrow> (nat \<Rightarrow> byte) \<Rightarrow> (blob_world \<Rightarrow> nat) \<Rightarrow> (blob_world \<Rightarrow> nat) \<Rightarrow> 's oio_func \<Rightarrow> blob_world \<Rightarrow> 's \<Rightarrow>
   (blob_world \<times> 's \<times> error_code option \<times> nat option) option" where
  "blob_load usable junk newo newb f w s =
     do {
       let p = newb w;
       (s, v) \<leftarrow> odb_read_string usable junk f s;
       case v of
         None \<Rightarrow> Some (w, s, Some CIOError, None)
       | Some v \<Rightarrow>
           (let w = w\<lparr>w_data := (w_data w)(p \<mapsto> \<lparr>b_s = Some v\<rparr>)\<rparr>;
                a = newo w
            in Some (set_obj w a \<lparr>o_type = 0, o_lru = 0, o_refcount = 0, o_ptr = Some p\<rparr>, s, None, Some a))
     }"

fun blob_hash :: "byte list \<Rightarrow> nat \<Rightarrow> nat \<Rightarrow> u64 \<Rightarrow> u64 option" where
  "blob_hash buf i 0 h = Some h"
| "blob_hash buf i (Suc n) h = do { c \<leftarrow> get_at buf i; blob_hash buf (i + 1) n (h * 31 + ucast c) }"

definition blob_calc :: "blob_world \<Rightarrow> nat \<Rightarrow> u64 option" where
  "blob_calc w a =
     do {
       ob \<leftarrow> w_objs w a;
       case o_ptr ob of
         None \<Rightarrow> Some 0
       | Some p \<Rightarrow> do {
           b \<leftarrow> w_data w p;
           case b_s b of None \<Rightarrow> Some 0 | Some v \<Rightarrow> blob_hash (s_buf v) 0 (sds_len v) 0
         }
     }"

text \<open>The arguments of the registration in the tests.\<close>

definition blob_type ::
  "(nat \<Rightarrow> nat) \<Rightarrow> (nat \<Rightarrow> byte) \<Rightarrow> (blob_world \<Rightarrow> nat) \<Rightarrow> (blob_world \<Rightarrow> nat) \<Rightarrow> 's oio_func \<Rightarrow> byte list \<Rightarrow>
   byte list \<times> ('s, nat \<rightharpoonup> blob) type_fns" where
  "blob_type usable junk newo newb f nm =
     (nm, Some (blob_create usable junk newo newb), Some blob_release, Some (blob_save f), Some (blob_load usable junk newo newb f), Some blob_calc)"

definition blob_holds :: "blob_world \<Rightarrow> nat \<Rightarrow> byte list \<Rightarrow> bool" where
  "blob_holds w a bs \<longleftrightarrow> (\<exists>ob p v. w_objs w a = Some ob \<and> o_ptr ob = Some p \<and> w_data w p = Some \<lparr>b_s = Some v\<rparr>
     \<and> sds_ok v \<and> sds_val v = bs)"

abbreviation blob_fits :: "byte list \<Rightarrow> bool" where
  "blob_fits bs \<equiv> length bs < 2 ^ 32"

context byte_stream
begin

lemma blob_save_law:
  assumes h: "blob_holds w a bs" and l: "blob_fits bs" and s: "written s cs" "length cs + length (item_bytes (Str bs)) < capacity"
  shows "\<exists>s'. blob_save f w s a = Some (w, s', COk) \<and> written s' (cs @ item_bytes (Str bs))"
proof -
  from h obtain ob p v where w: "w_objs w a = Some ob" "o_ptr ob = Some p" "w_data w p = Some \<lparr>b_s = Some v\<rparr>" "sds_ok v" "sds_val v = bs"
    by (auto simp: blob_holds_def)
  from put_sds [OF s(1) w(4)] l s(2) w(5) obtain s' where
    "odb_write_string f s (s_buf v) (sds_len v) = Some (s', True)" "written s' (cs @ item_bytes (Str bs))" by auto
  then show ?thesis using w by (simp add: blob_save_def)
qed

lemma blob_load_law:
  assumes u: "usable_ok usable" and l: "blob_fits bs" and s: "unread s (item_bytes (Str bs) @ r)"
  shows "\<exists>w' s' a ob. blob_load usable junk newo newb f w s = Some (w', s', None, Some a) \<and> w_objs w' a = Some ob
    \<and> blob_holds w' a bs \<and> unread s' r"
proof -
  from get_string(1) [OF u l, of s r junk] s obtain s' v where
    "odb_read_string usable junk f s = Some (s', Some v)" "sds_ok v" "sds_val v = bs" "unread s' r" by auto
  then show ?thesis by (auto simp: blob_load_def blob_holds_def set_obj_def Let_def)
qed

end

lemma blob_header: "blob_holds w a bs \<Longrightarrow> w_objs w a = Some ob \<Longrightarrow> blob_holds (set_obj w a (ob\<lparr>o_type := t, o_refcount := c\<rparr>)) a bs"
  by (simp add: blob_holds_def set_obj_def)

interpretation blob_buffer: saved_type "buffer_of extra junk" buf_written buf_unread "2 ^ 63" "blob_save (buffer_of extra junk)"
    "blob_load (\<lambda>n. n + extra n) junk newo newb (buffer_of extra junk)" blob_holds "\<lambda>bs. item_bytes (Str bs)" blob_fits
    for extra junk newo newb
proof unfold_locales
  have u: "usable_ok (\<lambda>n. n + extra n)" by (simp add: usable_ok_def)
  show "\<exists>s'. blob_save (buffer_of extra junk) w s a = Some (w, s', COk) \<and> buf_written s' (bs @ item_bytes (Str v))"
    if "blob_holds w a v" "blob_fits v" "buf_written s bs" "length bs + length (item_bytes (Str v)) < 2 ^ 63" for w a v s bs
    using buffer.blob_save_law that by blast
  show "\<exists>w' s' a ob. blob_load (\<lambda>n. n + extra n) junk newo newb (buffer_of extra junk) w s = Some (w', s', None, Some a)
      \<and> w_objs w' a = Some ob \<and> blob_holds w' a v \<and> buf_unread s' r"
    if "blob_fits v" "buf_unread s (item_bytes (Str v) @ r)" for v s r w
    using buffer.blob_load_law [OF u that] by blast
qed (rule blob_header)

section \<open>Sequences of calls\<close>

text \<open>Registrations in a row, with the codes they return, and what they do to the list of types.\<close>

fun register_all ::
  "(nat \<Rightarrow> nat) \<Rightarrow> (nat \<Rightarrow> byte) \<Rightarrow> ('s, 'd) object_manager \<Rightarrow> (byte list \<times> ('s, 'd) type_fns) list \<Rightarrow>
   (('s, 'd) object_manager \<times> int list) option" where
  "register_all usable junk m [] = Some (m, [])"
| "register_all usable junk m ((nm, create, release, save, load, calc) # ts) =
     do {
       (m, r) \<leftarrow> object_manager_register usable junk m (Some (nm @ [0])) create release save load calc;
       (m, rs) \<leftarrow> register_all usable junk m ts;
       Some (m, r # rs)
     }"

fun add_types :: "(byte list \<times> 'f) list \<Rightarrow> (byte list \<times> 'f) list \<Rightarrow> (byte list \<times> 'f) list \<times> int list" where
  "add_types ts [] = (ts, [])"
| "add_types ts (t # xs) =
     (if fst t \<in> fst ` set ts \<or> length ts = 256 then apsnd ((#) (- 1)) (add_types ts xs) else apsnd ((#) 0) (add_types (ts @ [t]) xs))"

definition complete :: "byte list \<times> ('s, 'd) type_fns \<Rightarrow> bool" where
  "complete t \<longleftrightarrow> (case t of (nm, create, release, save, load, calc) \<Rightarrow> 0 \<notin> set nm \<and> length nm < 2 ^ 32
     \<and> create \<noteq> None \<and> release \<noteq> None \<and> save \<noteq> None \<and> load \<noteq> None)"

lemma register_all_ok:
  assumes u: "usable_ok usable"
  shows "registered m ts \<Longrightarrow> \<forall>t \<in> set xs. complete t \<Longrightarrow>
    \<exists>m'. register_all usable junk m xs = Some (m', snd (add_types ts xs)) \<and> registered m' (fst (add_types ts xs))"
proof (induction xs arbitrary: m ts)
  case (Cons t xs)
  obtain nm cr rl sv ld calc where t: "t = (nm, Some cr, Some rl, Some sv, Some ld, calc)" "0 \<notin> set nm" "length nm < 2 ^ 32"
    using Cons.prems(2) by (cases t) (auto simp: complete_def)
  let ?ts = "if nm \<in> fst ` set ts \<or> length ts = 256 then ts else ts @ [t]"
  from register_type [OF u Cons.prems(1) t(2), of junk "[]" cr rl sv ld calc] t(1,3) obtain m' where
    m': "object_manager_register usable junk m (Some (nm @ [0])) (Some cr) (Some rl) (Some sv) (Some ld) calc =
      Some (m', if nm \<in> fst ` set ts \<or> length ts = 256 then - 1 else 0)" "registered m' ?ts" by auto
  from Cons.IH [OF m'(2)] Cons.prems(2) obtain m2 where
    "register_all usable junk m' xs = Some (m2, snd (add_types ?ts xs))" "registered m2 (fst (add_types ?ts xs))" by auto
  then show ?case using m'(1) t(1) by (cases "nm \<in> fst ` set ts \<or> length ts = 256") auto
qed simp

lemma add_types_distinct: "distinct (map fst (ts @ xs)) \<Longrightarrow> length (ts @ xs) \<le> 256 \<Longrightarrow> fst (add_types ts xs) = ts @ xs"
proof (induction xs arbitrary: ts)
  case (Cons t xs)
  then show ?case using Cons.IH [of "ts @ [t]"] by auto
qed simp

lemma some_registry:
  assumes "distinct (map fst xs)" "length xs \<le> 256" "\<forall>t \<in> set xs. complete t"
  shows "\<exists>m. registered m xs"
proof -
  have u: "usable_ok (\<lambda>n. n)" by (simp add: usable_ok_def)
  show ?thesis using register_all_ok [OF u registered_init assms(3)] add_types_distinct [of "[]" xs] assms(1,2) by fastforce
qed

lemma complete_blob: "complete (blob_type usable junk newo newb f nm) \<longleftrightarrow> 0 \<notin> set nm \<and> length nm < 2 ^ 32"
  by (simp add: complete_def blob_type_def)

text \<open>References taken (\<open>True\<close>) and dropped; \<open>live\<close> is the count as long as it neither reaches 0 nor overflows.\<close>

fun ref_run :: "('s, 'd) object_manager \<Rightarrow> 'd world \<Rightarrow> nat \<Rightarrow> bool list \<Rightarrow> 'd world option" where
  "ref_run m w a [] = Some w"
| "ref_run m w a (up # ops) =
     do {
       w \<leftarrow> (if up then latte_object_incr_ref_count w (Some a) else latte_object_decr_ref_count m w (Some a));
       ref_run m w a ops
     }"

fun live :: "nat \<Rightarrow> bool list \<Rightarrow> nat option" where
  "live n [] = Some n"
| "live n (True # ops) = (if n + 1 < 2 ^ 32 then live (n + 1) ops else None)"
| "live n (False # ops) = (if n > 1 then live (n - 1) ops else None)"

lemma set_obj_set [simp]: "set_obj (set_obj w a x) a y = set_obj w a y" "w_objs (set_obj w a x) a = Some x"
  "w_data (set_obj w a x) = w_data w"
  by (simp_all add: set_obj_def)

lemma of_nat_u32_zero: "n < 2 ^ 32 \<Longrightarrow> (of_nat n :: u32) = 0 \<longleftrightarrow> n = 0"
  by (simp add: word_unat_eq_iff unat_of_nat)

lemma ref_run_live:
  "live n ops = Some n' \<Longrightarrow> 0 < n \<Longrightarrow> n < 2 ^ 32 \<Longrightarrow>
   ref_run m (set_obj w a (ob\<lparr>o_refcount := of_nat n\<rparr>)) a ops = Some (set_obj w a (ob\<lparr>o_refcount := of_nat n'\<rparr>))"
proof (induction n ops arbitrary: n' rule: live.induct)
  case (2 n ops)
  then show ?case by (simp add: latte_object_incr_ref_count_def add.commute split: if_splits)
next
  case (3 n ops)
  then have l: "1 < n" by (simp split: if_splits)
  then have n: "(of_nat n :: u32) - 1 = of_nat (n - 1)" "(of_nat n :: u32) \<noteq> 0" "(of_nat (n - 1) :: u32) \<noteq> 0"
    using of_nat_u32_zero [of n] of_nat_u32_zero [of "n - 1"] 3(4) by (simp_all add: of_nat_diff)
  then have "(of_nat n :: u32) \<noteq> 1" by auto
  with l n 3 show ?case by (simp add: latte_object_decr_ref_count_def Let_def)
qed simp

lemma last_reference:
  assumes "registered m ts" "i < length ts" "snd (ts ! i) = (c, Some rel, sv, ld, ca)" "o_type ob = of_nat i" "o_ptr ob = Some p"
  shows "latte_object_decr_ref_count m (set_obj w a (ob\<lparr>o_refcount := 1\<rparr>)) (Some a) =
    rel (set_obj w a (ob\<lparr>o_refcount := 0\<rparr>)) a \<bind> (\<lambda>w. free_obj w a)"
proof -
  have "unat (of_nat i :: byte) = i" using entry_at(3) [OF assms(1,2)] by (simp add: unat_of_nat)
  then show ?thesis using assms entry_at [OF assms(1,2)]
    by (simp add: latte_object_decr_ref_count_def object_manager_release_wrapped_def release_wrapped_def entry_is_def Let_def)
qed

section \<open>Properties\<close>

text \<open>C15. Types may be registered in a different order when the program runs again: the registry and an object saved to a buffer
  are loaded by a manager that knows the same names under other ids, and the loaded object has the content of the saved one, a
  type of the same name, and one reference. No call fails, for every allocator, as long as the new id is not 255.\<close>

theorem objects_survive_restart:
  fixes usable junk defines "F \<equiv> oio_buffer_func usable junk"
  assumes "usable_ok usable" "registered m ts" "registered m2 ts2" "names_fit ts" "ids_map ts ts2 k"
    "i < length ts" "ts ! i = blob_type usable junk newo newb F nm" "ts2 ! k i = blob_type usable junk newo newb F nm" "k i \<noteq> 255"
    "w_objs w a = Some ob" "o_type ob = of_nat i" "blob_holds w a bs" "blob_fits bs"
    "length (registry_bytes ts) + length bs < 2 ^ 63 - 5" "length im = 256"
  shows "\<exists>o0 o1 o2 o3 o4 im' w' a' ob' v. odb_oio_create_buffer usable junk = Some o0
    \<and> object_manager_save_registry m F o0 = Some (o1, None) \<and> object_manager_save m F w o1 (Some a) = Some (w, o2, None)
    \<and> object_manager_load_registry usable junk m2 F (odb_oio_buffer_rewind o2) im = Some (o3, im', None)
    \<and> object_manager_load m2 F w2 o3 (Some im') = Some (w', o4, None, Some a')
    \<and> blob_holds w' a' bs \<and> w_objs w' a' = Some ob' \<and> o_refcount ob' = 1
    \<and> object_manager_get_type_name m2 (o_type ob') = Some (Some v) \<and> sds_val v = nm"
proof -
  let ?B = "registry_bytes ts @ of_nat i # item_bytes (Str bs)" and ?x = "\<lambda>n. usable n - n"
  have F: "F = buffer_of ?x junk" "usable = (\<lambda>n. n + ?x n)" using usable_extra [OF assms(2)] assms(2) by (auto simp: F_def usable_ok_def)
  have l: "length ?B < 2 ^ 63" using assms(15) by simp
  from new_buffer [OF assms(2)] obtain o0 where o0: "odb_oio_create_buffer usable junk = Some o0" "buf_written o0 []" by blast
  from buffer.save_registry [OF assms(3,5) o0(2), of ?x junk] l obtain o1 where
    o1: "object_manager_save_registry m F o0 = Some (o1, None)" "buf_written o1 (registry_bytes ts)" by (auto simp: F(1))
  have t: "snd (ts ! i) = (Some (blob_create usable junk newo newb), Some blob_release, Some (blob_save (buffer_of ?x junk)),
      Some (blob_load usable junk newo newb F), Some blob_calc)" "fst (ts ! i) = nm" using assms(8) F(1) by (simp_all add: blob_type_def)
  from blob_buffer.save_object [OF assms(3,7) t(1) assms(11-14) o1(2)] l obtain o2 where
    o2: "object_manager_save m F w o1 (Some a) = Some (w, o2, None)" "buf_written o2 ?B" by (auto simp: F(1))
  from buffer.load_registry(1) [OF assms(2-5) rewind_unread [OF o2(2) l] assms(16,6), of junk ?x junk] obtain o3 im' where
    o3: "object_manager_load_registry usable junk m2 F (odb_oio_buffer_rewind o2) im = Some (o3, im', None)"
      "buf_unread o3 (of_nat i # item_bytes (Str bs))" "length im' = 256" "\<forall>j < 256. im' ! j = (if j < length ts then of_nat (k j) else 0xFF)"
    by (auto simp: F(1))
  have k: "k i < length ts2" "fst (ts2 ! k i) = fst (ts ! i)" "i < 256" using assms(6,7) entry_at(3) [OF assms(3,7)] by (auto simp: ids_map_def)
  have "snd (ts2 ! k i) = (Some (blob_create usable junk newo newb), Some blob_release, Some (blob_save F),
      Some (blob_load (\<lambda>n. n + ?x n) junk newo newb (buffer_of ?x junk)), Some blob_calc)" using assms(9) F by (simp add: blob_type_def)
  from blob_buffer.load_object(1) [OF assms(4) k(1) this o3(3) k(3) _ assms(14) _ assms(10), of o3 "[]" w2] o3(2,4) k assms(7) obtain w' o4 a' ob' where
    "object_manager_load m2 F w2 o3 (Some im') = Some (w', o4, None, Some a')" "blob_holds w' a' bs" "w_objs w' a' = Some ob'"
    "o_refcount ob' = 1" "o_type ob' = of_nat (k i)" by (auto simp: F(1))
  moreover have "\<exists>v. object_manager_get_type_name m2 (of_nat (k i)) = Some (Some v) \<and> sds_val v = nm"
    using entry_at [OF assms(4) k(1)] k(2) t(2) by (auto simp: object_manager_get_type_name_def entry_is_def unat_of_nat)
  ultimately show ?thesis using o0(1) o1(1) o2(1) o3(1) by fastforce
qed

theorem objects_survive_restart_witness:
  fixes F defines "F \<equiv> oio_buffer_func (\<lambda>n. n) (\<lambda>_. 0)" fixes T defines "T \<equiv> blob_type (\<lambda>n. n) (\<lambda>_. 0) (\<lambda>_. 7) (\<lambda>_. 7) F"
  shows "\<exists>m m2 w o0 o1 o2 o3 o4 im' w' a'. registered m [T [98]] \<and> registered m2 [T [97], T [98]] \<and> blob_holds w 0 [104, 105]
    \<and> odb_oio_create_buffer (\<lambda>n. n) (\<lambda>_. 0) = Some o0
    \<and> object_manager_save_registry m F o0 = Some (o1, None) \<and> object_manager_save m F w o1 (Some 0) = Some (w, o2, None)
    \<and> object_manager_load_registry (\<lambda>n. n) (\<lambda>_. 0) m2 F (odb_oio_buffer_rewind o2) (replicate 256 0) = Some (o3, im', None)
    \<and> object_manager_load m2 F w o3 (Some im') = Some (w', o4, None, Some a') \<and> blob_holds w' a' [104, 105]"
proof -
  have u: "usable_ok (\<lambda>n. n)" by (simp add: usable_ok_def)
  obtain m where m: "registered m [T [98]]" using some_registry [of "[T [98]]"] by (auto simp: T_def complete_blob)
  obtain m2 where m2: "registered m2 [T [97], T [98]]"
    using some_registry [of "[T [97], T [98]]"] by (auto simp: T_def complete_blob) (auto simp: blob_type_def)
  obtain v where v: "sds_ok v" "sds_val v = [104, 105]" using sds_new_len_ok [OF u, of 2 "[104, 105]" "\<lambda>_. 0"] by auto
  define w :: blob_world where "w = \<lparr>w_objs = [0 \<mapsto> \<lparr>o_type = 0, o_lru = 0, o_refcount = 1, o_ptr = Some 0\<rparr>], w_data = [0 \<mapsto> \<lparr>b_s = Some v\<rparr>]\<rparr>"
  have h: "blob_holds w 0 [104, 105]" using v by (simp add: blob_holds_def w_def)
  have k: "ids_map [T [98]] [T [97], T [98]] (\<lambda>_. 1)" "names_fit [T [98]]" by (simp_all add: ids_map_def names_fit_def T_def blob_type_def)
  have l: "length (registry_bytes [T [98]]) = 10" by (simp add: registry_bytes_def types_bytes_def T_def blob_type_def)
  have ob: "w_objs w 0 = Some \<lparr>o_type = 0, o_lru = 0, o_refcount = 1, o_ptr = Some 0\<rparr>" by (simp add: w_def)
  have "\<exists>o0 o1 o2 o3 o4 im' w' a' ob' v. odb_oio_create_buffer (\<lambda>n. n) (\<lambda>_. 0) = Some o0
    \<and> object_manager_save_registry m F o0 = Some (o1, None) \<and> object_manager_save m F w o1 (Some 0) = Some (w, o2, None)
    \<and> object_manager_load_registry (\<lambda>n. n) (\<lambda>_. 0) m2 F (odb_oio_buffer_rewind o2) (replicate 256 0) = Some (o3, im', None)
    \<and> object_manager_load m2 F w o3 (Some im') = Some (w', o4, None, Some a')
    \<and> blob_holds w' a' [104, 105] \<and> w_objs w' a' = Some ob' \<and> o_refcount ob' = 1
    \<and> object_manager_get_type_name m2 (o_type ob') = Some (Some v) \<and> sds_val v = [98]"
    unfolding F_def
    by (rule objects_survive_restart [OF u m m2 k(2,1), of 0 "\<lambda>_. 0" "\<lambda>_. 7" "\<lambda>_. 7" "[98]", OF _ _ _ _ ob _ h]) (simp_all add: l [unfolded T_def F_def] T_def F_def)
  with m m2 h show ?thesis by blast
qed

text \<open>C16. The registry is a list of names without repetition: registrations append to it in order, with ids 0, 1, 2 and so on, until
  there are 256, and answer -1 and change nothing for a name that is known or when it is full; a name is found under its position
  and no other name is found.\<close>

theorem registry_refines_list:
  assumes "usable_ok usable" "\<forall>t \<in> set xs. complete t" "ts = fst (add_types [] xs)"
  shows "\<exists>m'. register_all usable junk (global_object_manager_init m) xs = Some (m', snd (add_types [] xs)) \<and> registered m' ts
    \<and> (\<forall>i < length ts. find_type_id_by_name m' (Some (fst (ts ! i) @ [0])) = Some (int i))
    \<and> (\<forall>nm. 0 \<notin> set nm \<longrightarrow> nm \<notin> fst ` set ts \<longrightarrow> find_type_id_by_name m' (Some (nm @ [0])) = Some (- 1))"
proof -
  from register_all_ok [OF assms(1) registered_init assms(2)] obtain m' where
    m': "register_all usable junk (global_object_manager_init m) xs = Some (m', snd (add_types [] xs))" "registered m' ts"
    using assms(3) by blast
  have "find_type_id_by_name m' (Some (fst (ts ! i) @ [0])) = Some (int i)" if "i < length ts" for i
    using find_type(1) [OF m'(2) c_str_app that refl] entry_at(2) [OF m'(2) that] by (simp add: entry_is_def)
  moreover have "find_type_id_by_name m' (Some (nm @ [0])) = Some (- 1)" if "0 \<notin> set nm" "nm \<notin> fst ` set ts" for nm
    using find_type(2) [OF m'(2) c_str_app [OF that(1)] that(2)] .
  ultimately show ?thesis using m' by blast
qed

theorem registry_refines_list_witness:
  fixes T defines "T \<equiv> blob_type (\<lambda>n. n) (\<lambda>_. 0) (\<lambda>_. 7) (\<lambda>_. 7) (oio_buffer_func (\<lambda>n. n) (\<lambda>_. 0))"
  shows "\<exists>m'. register_all (\<lambda>n. n) (\<lambda>_. 0) (global_object_manager_init \<lparr>om_types = []\<rparr>) [T [98], T [97], T [98]] = Some (m', [0, 0, - 1])
    \<and> find_type_id_by_name m' (Some [97, 0]) = Some 1 \<and> find_type_id_by_name m' (Some [99, 0]) = Some (- 1)"
proof -
  have u: "usable_ok (\<lambda>n. n)" by (simp add: usable_ok_def)
  have a: "add_types [] [T [98], T [97], T [98]] = ([T [98], T [97]], [0, 0, - 1])" by (simp add: T_def blob_type_def)
  have T: "fst (T nm) = nm" for nm by (simp add: T_def blob_type_def)
  from registry_refines_list [OF u, of "[T [98], T [97], T [98]]" _ "\<lambda>_. 0" "\<lparr>om_types = []\<rparr>", OF _ refl, unfolded a fst_conv snd_conv]
  obtain m' where m': "register_all (\<lambda>n. n) (\<lambda>_. 0) (global_object_manager_init \<lparr>om_types = []\<rparr>) [T [98], T [97], T [98]] = Some (m', [0, 0, - 1])"
    "\<forall>i < length [T [98], T [97]]. find_type_id_by_name m' (Some (fst ([T [98], T [97]] ! i) @ [0])) = Some (int i)"
    "\<forall>nm. 0 \<notin> set nm \<longrightarrow> nm \<notin> fst ` set [T [98], T [97]] \<longrightarrow> find_type_id_by_name m' (Some (nm @ [0])) = Some (- 1)"
    by (auto simp: T_def complete_blob)
  have "find_type_id_by_name m' (Some [97, 0]) = Some 1" using m'(2) [rule_format, of 1] by (simp add: T)
  moreover have "find_type_id_by_name m' (Some [99, 0]) = Some (- 1)" using m'(3) [rule_format, of "[99]"] by (simp add: T)
  ultimately show ?thesis using m'(1) by blast
qed

text \<open>C17. An object created by the manager lives through every sequence of references taken and dropped that does not drop the
  last one, with its content untouched; dropping the last one calls the release function and frees the object, so that memory
  is as before the creation, and a further call on the object is a use of freed memory.\<close>

theorem references_balance:
  assumes "registered m ts" "i < length ts" "ts ! i = blob_type usable junk newo newb f nm" "usable_ok usable" "w_objs w (newo w) = None" "w_data w (newb w) = None" "live 1 ops = Some 1"
  shows "\<exists>w1 w2. object_manager_create_object m w (Some (nm @ [0])) = Some (w1, Some (newo w)) \<and> ref_run m w1 (newo w) ops = Some w2
    \<and> blob_holds w2 (newo w) [] \<and> latte_object_decr_ref_count m w2 (Some (newo w)) = Some w
    \<and> latte_object_decr_ref_count m w (Some (newo w)) = None"
proof -
  note e = entry_at [OF assms(1,2)]
  have nm: "0 \<notin> set nm" "fst (ts ! i) = nm" using e(2) assms(3) by (simp_all add: entry_is_def blob_type_def)
  from sds_new_len_ok [OF assms(4), of 0 "[0]" junk] obtain v where v: "sds_empty usable junk = Some v" "sds_ok v" "sds_val v = []"
    by (auto simp: sds_empty_def)
  let ?a = "newo w" and ?b = "newb w"
  define wb where "wb = w\<lparr>w_data := (w_data w)(?b \<mapsto> \<lparr>b_s = Some v\<rparr>)\<rparr>"
  define ob where "ob = \<lparr>o_type = of_nat i, o_lru = 0, o_refcount = 0, o_ptr = Some ?b\<rparr>"
  let ?w1 = "set_obj wb ?a (ob\<lparr>o_refcount := of_nat 1\<rparr>)"
  have c: "object_manager_create_object m w (Some (nm @ [0])) = Some (?w1, Some ?a)"
    using find_type(1) [OF assms(1) c_str_app [OF nm(1)] assms(2) nm(2)] e assms(3) v(1)
    by (simp add: object_manager_create_object_def entry_is_def blob_type_def blob_create_def Let_def wb_def ob_def)
  have r: "ref_run m ?w1 ?a ops = Some ?w1" using ref_run_live [OF assms(7)] by simp
  have "latte_object_decr_ref_count m ?w1 (Some ?a) = blob_release (set_obj wb ?a (ob\<lparr>o_refcount := 0\<rparr>)) ?a \<bind> (\<lambda>w. free_obj w ?a)"
    using last_reference [OF assms(1,2), where ob = ob and w = wb] assms(3) by (simp add: ob_def blob_type_def)
  moreover have "(w_objs w)(?a := None) = w_objs w" "(w_data w)(?b := None) = w_data w" using assms(5,6) by (simp_all add: fun_upd_idem)
  ultimately have "latte_object_decr_ref_count m ?w1 (Some ?a) = Some w"
    by (simp add: blob_release_def free_obj_def wb_def ob_def set_obj_def)
  moreover have "blob_holds ?w1 ?a []" using v by (simp add: blob_holds_def set_obj_def wb_def ob_def)
  moreover have "latte_object_decr_ref_count m w (Some ?a) = None" using assms(5) by (simp add: latte_object_decr_ref_count_def)
  ultimately show ?thesis using c r by blast
qed

theorem references_balance_witness:
  fixes T defines "T \<equiv> blob_type (\<lambda>n. n) (\<lambda>_. 0) (\<lambda>_. 7) (\<lambda>_. 7) (oio_buffer_func (\<lambda>n. n) (\<lambda>_. 0))"
  shows "\<exists>m w1 w2. registered m [T [98]] \<and> object_manager_create_object m \<lparr>w_objs = Map.empty, w_data = Map.empty\<rparr> (Some [98, 0]) = Some (w1, Some 7)
    \<and> ref_run m w1 7 [True, True, False, False] = Some w2
    \<and> latte_object_decr_ref_count m w2 (Some 7) = Some \<lparr>w_objs = Map.empty, w_data = Map.empty\<rparr>"
proof -
  have u: "usable_ok (\<lambda>n. n)" by (simp add: usable_ok_def)
  obtain m where m: "registered m [T [98]]" using some_registry [of "[T [98]]"] by (auto simp: T_def complete_blob)
  show ?thesis
    using references_balance [OF m, of 0 "\<lambda>n. n" "\<lambda>_. 0" "\<lambda>_. 7" "\<lambda>_. 7" _ "[98]" "\<lparr>w_objs = Map.empty, w_data = Map.empty\<rparr>" "[True, True, False, False]"] m u
    by (fastforce simp: T_def)
qed

text \<open>C18. A type that was registered when the registry was saved and is not now makes loading the registry fail with
  \<open>CNotFound\<close>; and the id 255, which a table of 256 types can give, is taken for the mark of an unmapped id: an object of the
  type that has it now is refused as corrupt.\<close>

theorem types_not_loaded:
  fixes usable junk defines "F \<equiv> oio_buffer_func usable junk"
  assumes "usable_ok usable" "registered m ts" "registered m2 ts2" "names_fit ts" "buf_unread ob (registry_bytes ts @ r)" "length im = 256"
  shows "(j < length ts \<and> fst (ts ! j) \<notin> fst ` set ts2 \<longrightarrow>
      (\<exists>o1 im'. object_manager_load_registry usable junk m2 F ob im = Some (o1, im', Some CNotFound)))
    \<and> (ids_map ts ts2 k \<and> i < length ts \<and> k i = 255 \<and> r = of_nat i # payload \<longrightarrow>
      (\<exists>o1 o2 im'. object_manager_load_registry usable junk m2 F ob im = Some (o1, im', None)
        \<and> object_manager_load m2 F w o1 (Some im') = Some (w, o2, Some CCorruption, None)))"
proof -
  let ?x = "\<lambda>n. usable n - n"
  have F: "F = buffer_of ?x junk" using usable_extra [OF assms(2)] by (simp add: F_def)
  have "\<exists>o1 im'. object_manager_load_registry usable junk m2 F ob im = Some (o1, im', Some CNotFound)"
    if "j < length ts" "fst (ts ! j) \<notin> fst ` set ts2"
    using buffer.load_registry(2) [OF assms(2-7) that, of junk ?x junk] by (simp add: F)
  moreover have "\<exists>o1 o2 im'. object_manager_load_registry usable junk m2 F ob im = Some (o1, im', None)
        \<and> object_manager_load m2 F w o1 (Some im') = Some (w, o2, Some CCorruption, None)"
    if k: "ids_map ts ts2 k" "i < length ts" "k i = 255" "r = of_nat i # payload"
  proof -
    from buffer.load_registry(1) [OF assms(2-7) k(1), of junk ?x junk] obtain o1 im' where
      o1: "object_manager_load_registry usable junk m2 F ob im = Some (o1, im', None)" "buf_unread o1 (of_nat i # payload)"
        "length im' = 256" "\<forall>j < 256. im' ! j = (if j < length ts then of_nat (k j) else 0xFF)" by (auto simp: F k(4))
    from buffer.get_u8 [OF o1(2), of ?x junk] obtain o2 where "odb_read_u8 F o1 = Some (o2, Some (of_nat i))" by (auto simp: F)
    moreover have "i < 256" using entry_at(3) [OF assms(3) k(2)] .
    ultimately show ?thesis
      using o1 k(2,3) by (intro exI [of _ o1] exI [of _ o2] exI [of _ im']) (simp add: object_manager_load_def get_at_def unat_of_nat)
  qed
  ultimately show ?thesis by blast
qed

theorem types_not_loaded_witness:
  fixes F defines "F \<equiv> oio_buffer_func (\<lambda>n. n) (\<lambda>_. 0)" fixes T defines "T \<equiv> blob_type (\<lambda>n. n) (\<lambda>_. 0) (\<lambda>_. 7) (\<lambda>_. 7) F"
  fixes N defines "N \<equiv> \<lambda>i :: nat. if i = 255 then [1, 1] else [of_nat (i + 1) :: byte]"
  shows "\<exists>m m2 ob o1 o2 im'. registered m [T [1, 1]] \<and> registered m2 (map (\<lambda>i. T (N i)) [0..<256])
    \<and> object_manager_load_registry (\<lambda>n. n) (\<lambda>_. 0) m2 F ob (replicate 256 0) = Some (o1, im', None)
    \<and> object_manager_load m2 F \<lparr>w_objs = Map.empty, w_data = Map.empty\<rparr> o1 (Some im') =
        Some (\<lparr>w_objs = Map.empty, w_data = Map.empty\<rparr>, o2, Some CCorruption, None)"
proof -
  have u: "usable_ok (\<lambda>n. n)" by (simp add: usable_ok_def)
  have T: "fst (T nm) = nm" for nm by (simp add: T_def blob_type_def)
  obtain m where m: "registered m [T [1, 1]]" using some_registry [of "[T [1, 1]]"] by (auto simp: T_def complete_blob)
  have inj: "unat (of_nat (i + 1) :: byte) = i + 1" if "i < 255" for i using that by (subst unat_of_nat) simp
  have "inj_on N {0..<256}"
  proof (rule inj_onI)
    fix i j :: nat assume "i \<in> {0..<256}" "j \<in> {0..<256}" "N i = N j"
    then show "i = j" using inj [of i] inj [of j] by (cases "i = 255"; cases "j = 255") (auto simp: N_def)
  qed
  then have "distinct (map fst (map (\<lambda>i. T (N i)) [0..<256]))" by (simp add: distinct_map comp_def T)
  moreover have "\<forall>t \<in> set (map (\<lambda>i. T (N i)) [0..<256]). complete t"
  proof -
    have "(of_nat (i + 1) :: byte) \<noteq> 0" if "i < 255" for i using inj [OF that] by (metis Suc_eq_plus1 nat.distinct(1) unat_0)
    then have "0 \<notin> set (N i) \<and> length (N i) < 2 ^ 32" if "i < 256" for i using that by (cases "i = 255") (auto simp: N_def)
    then show ?thesis by (simp add: T_def complete_blob)
  qed
  ultimately obtain m2 where m2: "registered m2 (map (\<lambda>i. T (N i)) [0..<256])" using some_registry by fastforce
  let ?b = "registry_bytes [T [1, 1]] @ [0, 0]"
  have l: "length ?b = 13" by (simp add: registry_bytes_def types_bytes_def T)
  obtain v where v: "sds_ok v" "sds_val v = ?b" using sds_new_len_ok [OF u, of 13 ?b "\<lambda>_. 0"] l by auto
  let ?ob = "\<lparr>ob_ptr = v, ob_pos = 0, processed_bytes = 0\<rparr>"
  have b: "buf_unread ?ob ?b" using v l by (simp add: buf_unread_def)
  have "names_fit [T [1, 1]]" "ids_map [T [1, 1]] (map (\<lambda>i. T (N i)) [0..<256]) (\<lambda>_. 255)" by (simp_all add: ids_map_def names_fit_def T N_def)
  with types_not_loaded [OF u m m2 _ b, where im = "replicate 256 0" and j = 0 and k = "\<lambda>_. 255" and i = 0 and payload = "[0]"
      and w = "\<lparr>w_objs = Map.empty, w_data = Map.empty\<rparr>" and junk = "\<lambda>_. 0"] m m2
  show ?thesis unfolding F_def by (simp only: length_replicate) fastforce
qed

end
