(* ===== verification/Spec2Isabelle.thy ===== *)
theory Spec2Isabelle
  imports Numconv Endian IntSet Vector SdsText Bitmap HashSet LruCache ListpackSeq Odb SdsPlugins AvlTree Crc32 Crc64 Lzf Skiplist ThreadPool Localtime ObjectManager
begin

text \<open>
  \<^bold>\<open>latte_c\<close> is a C library in the tradition of the Redis sources: dynamic strings, packed and hashed
  containers, caches, codecs, and around them an event loop, sockets, threads and persistence. This
  development models the containers and codecs, the part of the library that is not a wrapper of the
  operating system, and proves that they do what their interfaces promise. Paths below are relative
  to \<open>src/src/\<close> of the repository.

  \<^bold>\<open>How the code is modelled.\<close>
  A block of memory is the list of its bytes, a pointer into it an offset, and every access goes
  through the checked reads and writes of \<open>Prelude\<close> (\<open>get_at\<close>, \<open>put_at\<close>, \<open>mem_read\<close>, \<open>mem_write\<close>,
  \<open>mem_move\<close>, \<open>realloc\<close>): undefined behaviour, a failed assertion and an access out of bounds are
  \<open>None\<close>, so that a theorem that an operation returns \<open>Some\<close> includes memory safety. Integers have their
  widths (\<open>byte\<close>, \<open>u16\<close>, \<open>u32\<close>, \<open>u64\<close>); signed 64-bit values are integers with \<open>in_int64\<close> where the code
  relies on it, and \<open>int\<close> arithmetic that can overflow goes through \<open>checked32\<close>. Nodes that the code links by pointers live in a heap from addresses to records
  (\<open>DList\<close>, \<open>LruCache\<close>). What an allocator decides (the usable size, the content of fresh bytes) is a
  parameter, and the theorems hold for every allocator that gives at least what was asked for. Loops
  that always end are structural or have a measure; loops whose end has to be proved are
  \<open>partial_function (option)\<close>, and the theorems about them state that they return.

  \<^bold>\<open>The theories.\<close>
  \<^item> \<open>Prelude\<close>: types, checked memory, lemmas on words and lists.
  \<^item> \<open>Numconv\<close> (\<open>utils/utils.c\<close>, \<open>sds/sds.c\<close>): decimal conversions. \<open>string2ll\<close> accepts exactly the
    decimal forms of the 64-bit integers; \<open>ll2string\<close> and it are inverse; the boundary cases of
    \<open>ull2string\<close> and \<open>sdsll2str\<close>.
  \<^item> \<open>Endian\<close> (\<open>endianconv/endianconv.c\<close>): byte reversal is an involution.
  \<^item> \<open>SetSpec\<close>, \<open>MapSpec\<close>, \<open>IterSpec\<close>: the interfaces as locales. A set and a map are specified by the
    replies to every sequence of calls (\<open>set_run\<close>, \<open>map_run\<close>); an iterator by what the loop
    \<open>while (has_next) use(next)\<close> sees, with a weak protocol (\<open>iterator_steps\<close>) and two stronger ones.
  \<^item> \<open>IntSet\<close> (\<open>set/int_set.c\<close>): the sorted packed set of integers with three widths. It refines a set for
    every sequence of calls, across upgrades of the width; its integrity check accepts exactly the
    well-formed blobs.
  \<^item> \<open>Cmp\<close>, \<open>Vector\<close> (\<open>cmp/cmp.c\<close>, \<open>vector/vector.c\<close>): comparators; the growing array, its iterator and its
    quicksort.
  \<^item> \<open>Sds\<close>, \<open>SdsText\<close> (\<open>sds/sds.h\<close>, \<open>sds/sds.c\<close>): the dynamic string with its five header types: growth,
    concatenation, ranges, trimming; quoting, argument parsing, splitting, searching.
  \<^item> \<open>Bitmap\<close> (\<open>bitmap/bitmap.c\<close>): bits of a string and the iterators over set and clear bits.
  \<^item> \<open>Dict\<close>, \<open>Siphash\<close> (\<open>dict/dict.c\<close>, \<open>dict/siphash.c\<close>): the hash table with two tables and incremental
    rehashing, its iterator and comparison, and the hash functions. The locale \<open>dict_type\<close> states what
    the table needs of a key type; under it the table is a map (\<open>sublocale tab: map_impl\<close>).
  \<^item> \<open>HashSet\<close> (\<open>dict/dict_plugins.c\<close>, \<open>set/hash_set.c\<close>, \<open>set/set.c\<close>): the dictionary type over strings,
    interpreted on the callbacks of the code, and the set built from it behind the dispatch table.
  \<^item> \<open>DList\<close> (\<open>list/list.c\<close>): the doubly linked list on a heap, as a deque and with its iterators.
  \<^item> \<open>LruCache\<close> (\<open>cache/lru_cache.c\<close>): the cache composed of the list and the dictionary over one heap; it
    refines the list of its pairs in order of last use.
  \<^item> \<open>Listpack\<close>, \<open>ListpackSeq\<close> (\<open>listpack/listpack.c\<close>): the packed sequence of strings and integers. The
    first has the operations and the encodings (round trips, the length read backwards), the second
    shows that the block represents a list, that every edit is the list operation, and that the
    iterators visit it both ways.

  \<^item> \<open>Odb\<close> (\<open>odb/odb.c\<close>): numbers, strings and blocks over an input/output object. The locale \<open>byte_stream\<close>
    states what is needed of a backend; the buffer in memory is interpreted; sequences are read back.
  \<^item> \<open>SdsPlugins\<close> (\<open>sds/sds_plugins.c\<close>): fixed and variable width integers and slices.
  \<^item> \<open>AvlTree\<close> (\<open>tree/avl_tree.c\<close>, \<open>set/avl_set.c\<close>): the search tree and its iterator; what insertion
    guarantees, and what lookup and removal do instead of what they mean to.

  \<^item> \<open>CrcSpec\<close>, \<open>CrcTables\<close>, \<open>Crc32\<close>, \<open>Crc64\<close> (\<open>crc/\<close>): the checksums. \<open>CrcSpec\<close> defines a checksum by a shift
    register, one bit at a time, and states in locales what a table has to satisfy; \<open>CrcTables\<close> holds the tables of
    the code and interprets the locales on them. \<open>crc16xmodem\<close>, \<open>crc32jamcrc\<close>, \<open>crc32c_extend\<close> with its four
    strides and \<open>crc64_redis\<close> with its slicing, its lanes and the matrices that combine them return the defined value.
  \<^item> \<open>Lzf\<close> (\<open>lzf/lzf_c.c\<close>, \<open>lzf/lzf_d.c\<close>): the compressor and the decompressor. Tokens are the specification of the
    format; the compressor writes well-formed tokens of its input for every content of its uninitialised hash
    table, and the decompressor expands them, and stays in bounds on arbitrary bytes.
  \<^item> \<open>Skiplist\<close> (\<open>skiplist/skiplist.c\<close>): the ordered list with express lanes, on a heap. \<open>sl_repr\<close> relates the heap to the
    sorted list of pairs and the heights of the towers; insertion keeps it for every outcome of the random levels,
    range searches and freeing are exact, and deletion is right for towers of one level only.
  \<^item> \<open>ThreadJob\<close>, \<open>ThreadPool\<close> (\<open>thread_job/\<close>, \<open>thread_pool/thread_pool.c\<close>): the ring buffer between the main thread and a consumer
    thread as a step relation over all interleavings, with an invariant proved by rule induction. Indices may be read stale; whether
    the consumer may also see an index before the fields of the slot, which the relaxed store of the code allows, is a parameter of
    the relation. Where stores become visible in order, jobs are run in order and once; otherwise the consumer can abort or miss
    an argument. What deleting a thread does in the wrong moment, in either case; the pool and the distribution of jobs over it.
  \<^item> \<open>Localtime\<close> (\<open>time/localtime.c\<close>): the loops over years and months return the date of the Gregorian calendar, which is given in
    closed form.

  \<^item> \<open>ObjectManager\<close> (\<open>object/\<close>): reference counts and the registry of types, saved and loaded over \<open>Odb\<close>. The locale
    \<open>saved_type\<close> extends \<open>byte_stream\<close> by what the functions of a type promise; objects are read back under other type ids.

  \<^bold>\<open>Interfaces and instances.\<close> \<open>set_impl\<close> is interpreted on \<open>IntSet\<close> and on the hash set, \<open>map_impl\<close>
  on the dictionary, \<open>dict_type\<close> on the string keys, \<open>lru_cache_type\<close> on the cache over string keys, and the
  iterator protocols on the vector, the bitmap, the dictionary, the list, the listpack and the AVL tree,
  \<open>byte_stream\<close> on the buffer of \<open>odb\<close>, and the table contracts \<open>crc_table\<close>, \<open>crc_tablel\<close> and \<open>xor_linear\<close> on the tables
  of the checksums, and \<open>skiplist_order\<close> on the comparator of the skiplist tests, and \<open>saved_type\<close> on the blob type of the object tests. The theorems that name these components rest on the interpretations.

  \<^bold>\<open>Where the code does not do what it means to\<close>, the model follows the code and a theorem states the
  fact: \<open>ull2string\<close> writes one byte too many, \<open>sdsll2str\<close> overflows on the smallest integer,
  \<open>vector_shrink\<close> never shrinks, \<open>bitmap_new\<close> reads outside a literal, \<open>dict_resize\<close> always fails and
  the guard of the dictionary iterator does not protect the first call, fixed-width numbers are not
  appended whole, a hostile length prefix is accepted, and the AVL tree is neither balanced nor searched
  in the right direction, an input of one byte is read past its end by \<open>lzf_compress\<close>, and deleting
  from a skiplist frees nodes that stay linked at their upper levels, deleting a consumer thread can block or drop a job, and deleting
  a thread pool leaves half of its threads running.

  \<^bold>\<open>Not modelled.\<close> Releasing memory is modelled only where a theorem depends on it (the nodes of the list
  and the cache). Allocation does not fail: the allocator of the project aborts. Floating point
  (\<open>long double\<close> comparison, \<open>double\<close> parsing, JSON numbers), \<open>printf\<close>-style formatting and everything
  that is a system call (event loop, sockets, threads, files, logging, processes, the server, the RocksDB binding)
  is left out, and so are the vendored allocators under \<open>deps/\<close>. The host is little-endian and 64 bits wide: the big-endian
  variants of the checksums and of the byte order conversions are not modelled. Of the containers, the B+ tree, the older packed
  lists (\<open>list/ziplist.c\<close>, \<open>list/quicklist.c\<close>, \<open>list/listpack.c\<close>), the radix tree, the memory pool over raw addresses and the
  sorted set, which is only allocated and freed, are outside the development, and so are the tagged values of \<open>value/\<close>, the typed
  configuration rules of \<open>config/\<close>, which act through callbacks, and \<open>rdb/\<close>, which refers to functions that the repository does
  not have.
\<close>

end
